(* ===== verification/Prelude.thy ===== *)
theory Prelude
  imports Complex_Main "HOL-Library.Word" "HOL-Library.Signed_Division"
begin

text \<open>
  Shared vocabulary of the development: the C integer types of the 32-bit, little-endian
  configuration of the runtime as fixed-width words, the C operators whose meaning differs from the
  HOL ones (division that truncates, signed comparison, shifts), and the generic lemmas on words and
  lists that several components use.  The collections \<open>c_ops\<close> and \<open>word_ring\<close> gather the
  unfolding rules and the ring normalisation of words.
\<close>

unbundle bit_operations_syntax

named_theorems c_ops \<open>unfolding rules of the C operators\<close>
named_theorems word_ring \<open>words of integer constants as ring expressions\<close>

type_synonym uint8 = "8 word"
type_synonym uint32 = "32 word"
type_synonym uint64 = "64 word"

subsection \<open>C operators on 32-bit words\<close>

text \<open>Signed comparison of two \<^verbatim>\<open>long\<close>s (or \<^verbatim>\<open>int\<close>s).\<close>

definition slt :: "uint32 \<Rightarrow> uint32 \<Rightarrow> bool" where
  "slt a b \<longleftrightarrow> sint a < sint b"

definition sle :: "uint32 \<Rightarrow> uint32 \<Rightarrow> bool" where
  "sle a b \<longleftrightarrow> sint a \<le> sint b"

text \<open>
  The C99 quotient and remainder: rounding towards zero, the remainder having the sign of the
  dividend.  (The quotient of the most negative number by \<open>-1\<close> overflows; the word conversion
  makes it wrap, which is what the processors the runtime supports do when they do not trap.)
\<close>

definition c_div :: "uint32 \<Rightarrow> uint32 \<Rightarrow> uint32" where
  "c_div a b = word_of_int (sint a sdiv sint b)"

definition c_mod :: "uint32 \<Rightarrow> uint32 \<Rightarrow> uint32" where
  "c_mod a b = word_of_int (sint a smod sint b)"

text \<open>Shifts by a count given as a word; a count of 32 or more is not defined by C.\<close>

definition c_shl :: "uint32 \<Rightarrow> uint32 \<Rightarrow> uint32" where
  "c_shl a n = push_bit (unat n) a"

definition c_shr :: "uint32 \<Rightarrow> uint32 \<Rightarrow> uint32" where
  "c_shr a n = drop_bit (unat n) a"

definition c_sar :: "uint32 \<Rightarrow> uint32 \<Rightarrow> uint32" where
  "c_sar a n = signed_drop_bit (unat n) a"

lemmas [c_ops] = slt_def sle_def c_div_def c_mod_def c_shl_def c_shr_def c_sar_def

subsection \<open>Words as integers modulo a power of two\<close>

lemma word_of_int_diff_eq: "word_of_int (a - b) = word_of_int a - (word_of_int b :: 'a::len word)"
  by (rule of_int_diff)

lemma word_of_int_add_eq: "word_of_int (a + b) = word_of_int a + (word_of_int b :: 'a::len word)"
  by (rule of_int_add)

lemma word_of_int_mult_eq: "word_of_int (a * b) = word_of_int a * (word_of_int b :: 'a::len word)"
  by (rule of_int_mult)

lemma word_of_int_neg_eq: "word_of_int (- a) = - (word_of_int a :: 'a::len word)"
  by (rule of_int_minus)

lemma word_of_int_numeral_eq: "word_of_int (numeral n) = (numeral n :: 'a::len word)"
  by simp

lemmas [word_ring] = word_of_int_add_eq word_of_int_diff_eq word_of_int_mult_eq
  word_of_int_neg_eq word_of_int_numeral_eq

lemma word_of_int_sint_eq [simp]: "word_of_int (sint w) = (w :: 'a::len word)"
  by simp

lemma word_of_int_cong:
  "(a - b) mod 2 ^ LENGTH('a) = 0 \<Longrightarrow> word_of_int a = (word_of_int b :: 'a::len word)"
  by (metis mod_eq_dvd_iff mod_0_imp_dvd word_of_int_eq_iff take_bit_eq_mod)

lemma sint32_range: "- (2 ^ 31) \<le> sint (w :: uint32)" "sint (w :: uint32) < 2 ^ 31"
  using sint_greater_eq [of w] sint_less [of w] by simp_all

lemma sint_word_of_int_in:
  assumes "- (2 ^ 31) \<le> i" and "i < 2 ^ 31"
  shows "sint (word_of_int i :: uint32) = i"
  using assms by (simp add: int_word_sint)

lemma sint_as_uint: "sint (w :: 'a::len word) = uint w - (if bit w (LENGTH('a) - 1) then 2 ^ LENGTH('a) else 0)"
proof -
  have "sint w = signed_take_bit (LENGTH('a) - Suc 0) (uint w)" by (rule sint_uint)
  also have "\<dots> = uint w - 2 ^ LENGTH('a) * of_bool (bit w (LENGTH('a) - 1))"
    using take_bit_int_eq_self [OF uint_ge_0 uint_lt2p, of w]
    by (simp add: signed_take_bit_eq_take_bit_minus bit_uint_iff)
  finally show ?thesis by simp
qed

lemma word_eq_by_unat: "unat a = unat b \<Longrightarrow> a = (b :: 'a::len word)"
  by (simp add: word_unat_eq_iff)

lemma unat32_lt: "unat (w :: uint32) < 4294967296"
  using unsigned_less [of w] by simp

lemma unat_lt_pow [simp]: "unat (w :: 'a::len word) < 2 ^ LENGTH('a)"
  by (rule unsigned_less)

lemma unat_word_of_nat_small: "n < 4294967296 \<Longrightarrow> unat (word_of_nat n :: uint32) = n"
  by (simp add: unsigned_of_nat take_bit_nat_eq_self)

text \<open>The bits of the constants that occur as masks.\<close>

lemma bit_mask_int: "bit (2 ^ k - 1 :: int) n \<longleftrightarrow> n < k"
  by (simp add: bit_mask_iff flip: mask_eq_exp_minus_1)

lemma bit_exp_int: "bit (2 ^ k :: int) n \<longleftrightarrow> n = k"
  by (auto simp: bit_exp_iff)

lemma bit_consts:
  "bit (3 :: int) n \<longleftrightarrow> n < 2" "bit (63 :: int) n \<longleftrightarrow> n < 6"
  "bit (255 :: int) n \<longleftrightarrow> n < 8" "bit (65535 :: int) n \<longleftrightarrow> n < 16"
  "bit (4194303 :: int) n \<longleftrightarrow> n < 22"
  "bit (256 :: int) n \<longleftrightarrow> n = 8" "bit (512 :: int) n \<longleftrightarrow> n = 9"
  "bit (768 :: int) n \<longleftrightarrow> n = 8 \<or> n = 9"
  "bit (1073741824 :: int) n \<longleftrightarrow> n = 30" "bit (2147483648 :: int) n \<longleftrightarrow> n = 31"
proof -
  have "bit (256 OR 512 :: int) n \<longleftrightarrow> n = 8 \<or> n = 9"
    unfolding bit_or_iff using bit_exp_int [of 8 n] bit_exp_int [of 9 n] by auto
  then show "bit (768 :: int) n \<longleftrightarrow> n = 8 \<or> n = 9" by simp
qed (use bit_mask_int [of 2 n] bit_mask_int [of 6 n] bit_mask_int [of 8 n] bit_mask_int [of 16 n]
      bit_mask_int [of 22 n] bit_exp_int [of 8 n] bit_exp_int [of 9 n] bit_exp_int [of 30 n]
      bit_exp_int [of 31 n] in auto)

lemma bit32_lt: "bit (w :: uint32) n \<Longrightarrow> n < 32"
  using bit_imp_le_length [of w n] by simp

text \<open>Truncation to the low bits, read as a number.\<close>

lemma unat_take_bit: "unat (take_bit k (w :: 'a::len word)) = unat w mod 2 ^ k"
  by (simp add: unsigned_take_bit_eq flip: take_bit_eq_mod)

lemma unat_and_63: "unat (s AND 63 :: uint32) = unat s mod 64"
proof -
  have "s AND 63 = take_bit 6 s" by (simp add: take_bit_eq_mask mask_numeral)
  then show ?thesis using unat_take_bit [of 6 s] by simp
qed

lemma unat_drop_bit: "unat (drop_bit k (w :: 'a::len word)) = unat w div 2 ^ k"
  by (simp add: unat_drop_bit_eq flip: drop_bit_eq_div)

subsection \<open>Lists\<close>

lemma nth_append_cases:
  "(xs @ ys) ! i = (if i < length xs then xs ! i else ys ! (i - length xs))"
  by (rule nth_append)

lemma take_drop_split: "n \<le> length xs \<Longrightarrow> take n xs @ drop n xs = xs"
  by simp

text \<open>
  \<open>memmove\<close>/\<open>memcpy\<close> into an array held as a list: \<open>blit dst i src\<close> overwrites
  \<open>dst\<close> from index \<open>i\<close> with the bytes of \<open>src\<close>.
\<close>

definition blit :: "'a list \<Rightarrow> nat \<Rightarrow> 'a list \<Rightarrow> 'a list" where
  "blit dst i src = take i dst @ src @ drop (i + length src) dst"

lemma length_blit [simp]:
  "i + length src \<le> length dst \<Longrightarrow> length (blit dst i src) = length dst"
  by (simp add: blit_def)

lemma take_blit_before [simp]:
  "i + length src \<le> length dst \<Longrightarrow> n \<le> i \<Longrightarrow> take n (blit dst i src) = take n dst"
  by (simp add: blit_def min_def)

lemma take_blit_after:
  "i + length src \<le> length dst \<Longrightarrow> take (i + length src) (blit dst i src) = take i dst @ src"
  by (simp add: blit_def)

lemma drop_blit_after [simp]:
  "i + length src \<le> length dst \<Longrightarrow> i + length src \<le> n \<Longrightarrow>
    drop n (blit dst i src) = drop n dst"
  by (simp add: blit_def min_def)

lemma blit_Nil [simp]: "blit dst i [] = dst"
  by (simp add: blit_def)

lemma blit_nth_inside:
  "i + length src \<le> length dst \<Longrightarrow> k < length src \<Longrightarrow> blit dst i src ! (i + k) = src ! k"
  by (simp add: blit_def nth_append)

end
