(* ===== verification/Mlvalues.thy ===== *)
theory Mlvalues
  imports Prelude
begin

text \<open>
  The representation of values of the bytecode runtime (\<^verbatim>\<open>byterun/mlvalues.h\<close>,
  \<^verbatim>\<open>byterun/gc.h\<close>) in the 32-bit configuration: the encoding of integers with a low tag
  bit, the layout of block headers (22 bits of size, 2 bits of colour, 8 bits of tag), the size
  conversions, and the access macros \<open>Field\<close>, \<open>Hd_val\<close>, \<open>Byte_u\<close> over a memory that
  maps the (4-aligned) address of a word to its contents.
\<close>

type_synonym val = uint32
type_synonym header_t = uint32
type_synonym addr = uint32
type_synonym mem = "addr \<Rightarrow> uint32"

subsection \<open>Longs and blocks\<close>

definition Is_long :: "val \<Rightarrow> bool" where
  "Is_long x \<longleftrightarrow> x AND 1 \<noteq> 0"

definition Is_block :: "val \<Rightarrow> bool" where
  "Is_block x \<longleftrightarrow> x AND 1 = 0"

definition Val_long :: "uint32 \<Rightarrow> val" where
  "Val_long x = push_bit 1 x + 1"

definition Long_val :: "val \<Rightarrow> uint32" where
  "Long_val x = signed_drop_bit 1 x"

definition Max_long :: uint32 where
  "Max_long = push_bit 30 1 - 1"

definition Min_long :: uint32 where
  "Min_long = - push_bit 30 1"

text \<open>\<^verbatim>\<open>int\<close> and \<^verbatim>\<open>long\<close> have the same width here.\<close>

abbreviation (input) Val_int :: "uint32 \<Rightarrow> val" where "Val_int \<equiv> Val_long"
abbreviation (input) Int_val :: "val \<Rightarrow> uint32" where "Int_val \<equiv> Long_val"

definition Val_bool :: "bool \<Rightarrow> val" where
  "Val_bool b = Val_int (if b then 1 else 0)"

definition Bool_val :: "val \<Rightarrow> uint32" where
  "Bool_val x = Int_val x"

definition Val_false :: val where "Val_false = Val_int 0"
definition Val_true :: val where "Val_true = Val_int 1"
definition Val_unit :: val where "Val_unit = Val_int 0"
definition Val_emptylist :: val where "Val_emptylist = Val_int 0"

definition Val_not :: "val \<Rightarrow> val" where
  "Val_not x = Val_false + Val_true - x"

subsection \<open>Headers\<close>

definition Caml_white :: uint32 where "Caml_white = push_bit 8 0"
definition Caml_gray :: uint32 where "Caml_gray = push_bit 8 1"
definition Caml_blue :: uint32 where "Caml_blue = push_bit 8 2"
definition Caml_black :: uint32 where "Caml_black = push_bit 8 3"

definition Tag_hd :: "header_t \<Rightarrow> uint32" where
  "Tag_hd h = h AND 0xFF"

definition Wosize_hd :: "header_t \<Rightarrow> uint32" where
  "Wosize_hd h = drop_bit 10 h"

definition Color_hd :: "header_t \<Rightarrow> uint32" where
  "Color_hd h = h AND Caml_black"

definition Make_header :: "uint32 \<Rightarrow> uint32 \<Rightarrow> uint32 \<Rightarrow> header_t" where
  "Make_header wosize tag color = push_bit 10 wosize + color + tag"

definition Whitehd_hd :: "header_t \<Rightarrow> header_t" where
  "Whitehd_hd h = h AND NOT Caml_black"

definition Grayhd_hd :: "header_t \<Rightarrow> header_t" where
  "Grayhd_hd h = (h AND NOT Caml_black) OR Caml_gray"

definition Blackhd_hd :: "header_t \<Rightarrow> header_t" where
  "Blackhd_hd h = h OR Caml_black"

definition Bluehd_hd :: "header_t \<Rightarrow> header_t" where
  "Bluehd_hd h = (h AND NOT Caml_black) OR Caml_blue"

definition Max_wosize :: uint32 where
  "Max_wosize = push_bit 22 1 - 1"

text \<open>The tags the runtime treats specially.\<close>

definition No_scan_tag :: uint32 where "No_scan_tag = 251"
definition Forward_tag :: uint32 where "Forward_tag = 250"
definition Infix_tag :: uint32 where "Infix_tag = 249"
definition Object_tag :: uint32 where "Object_tag = 248"
definition Closure_tag :: uint32 where "Closure_tag = 247"
definition Abstract_tag :: uint32 where "Abstract_tag = 251"
definition String_tag :: uint32 where "String_tag = 252"
definition Double_tag :: uint32 where "Double_tag = 253"
definition Double_array_tag :: uint32 where "Double_array_tag = 254"
definition Custom_tag :: uint32 where "Custom_tag = 255"
definition Double_wosize :: uint32 where "Double_wosize = 2"

subsection \<open>Sizes\<close>

definition Whsize_wosize :: "uint32 \<Rightarrow> uint32" where "Whsize_wosize sz = sz + 1"
definition Wosize_whsize :: "uint32 \<Rightarrow> uint32" where "Wosize_whsize sz = sz - 1"
definition Bsize_wsize :: "uint32 \<Rightarrow> uint32" where "Bsize_wsize sz = sz * 4"
definition Wsize_bsize :: "uint32 \<Rightarrow> uint32" where "Wsize_bsize sz = sz div 4"
definition Wosize_bhsize :: "uint32 \<Rightarrow> uint32" where "Wosize_bhsize sz = sz div 4 - 1"
definition Bhsize_wosize :: "uint32 \<Rightarrow> uint32" where
  "Bhsize_wosize sz = Bsize_wsize (Whsize_wosize sz)"
definition Bosize_hd :: "header_t \<Rightarrow> uint32" where
  "Bosize_hd h = Bsize_wsize (Wosize_hd h)"
definition Whsize_hd :: "header_t \<Rightarrow> uint32" where
  "Whsize_hd h = Whsize_wosize (Wosize_hd h)"
definition Bhsize_hd :: "header_t \<Rightarrow> uint32" where
  "Bhsize_hd h = Bsize_wsize (Whsize_hd h)"
definition Infix_offset_hd :: "header_t \<Rightarrow> uint32" where
  "Infix_offset_hd h = Bosize_hd h"

subsection \<open>Access to memory\<close>

definition Hp_val :: "val \<Rightarrow> addr" where "Hp_val v = v - 4"
definition Val_hp :: "addr \<Rightarrow> val" where "Val_hp hp = hp + 4"

definition Field :: "mem \<Rightarrow> val \<Rightarrow> uint32 \<Rightarrow> val" where
  "Field m x i = m (x + 4 * i)"

definition set_Field :: "val \<Rightarrow> uint32 \<Rightarrow> val \<Rightarrow> mem \<Rightarrow> mem" where
  "set_Field x i v m = m(x + 4 * i := v)"

definition Hd_val :: "mem \<Rightarrow> val \<Rightarrow> header_t" where
  "Hd_val m v = m (v - 4)"

definition set_Hd_val :: "val \<Rightarrow> header_t \<Rightarrow> mem \<Rightarrow> mem" where
  "set_Hd_val v h m = m(v - 4 := h)"

definition Wosize_val :: "mem \<Rightarrow> val \<Rightarrow> uint32" where
  "Wosize_val m v = Wosize_hd (Hd_val m v)"

definition Tag_val :: "mem \<Rightarrow> val \<Rightarrow> uint32" where
  "Tag_val m v = Tag_hd (Hd_val m v)"

definition Bosize_val :: "mem \<Rightarrow> val \<Rightarrow> uint32" where
  "Bosize_val m v = Bsize_wsize (Wosize_val m v)"

definition Code_val :: "mem \<Rightarrow> val \<Rightarrow> uint32" where
  "Code_val m v = m v"

text \<open>Byte \<open>i\<close> of the block \<open>x\<close>; the least significant byte of a word comes first.\<close>

definition Byte_u :: "mem \<Rightarrow> val \<Rightarrow> uint32 \<Rightarrow> uint8" where
  "Byte_u m x i = (let a = x + i in ucast (drop_bit (8 * unat (a AND 3)) (m (a AND NOT 3))))"

definition set_Byte_u :: "val \<Rightarrow> uint32 \<Rightarrow> uint8 \<Rightarrow> mem \<Rightarrow> mem" where
  "set_Byte_u x i b m =
     (let a = x + i; w = a AND NOT 3; sh = 8 * unat (a AND 3)
      in m(w := (m w AND NOT (push_bit sh 0xFF)) OR push_bit sh (ucast b)))"

text \<open>A double is a pair of words, the low one first.\<close>

definition Double_val :: "mem \<Rightarrow> val \<Rightarrow> uint32 \<times> uint32" where
  "Double_val m v = (m v, m (v + 4))"

definition Store_double_val :: "val \<Rightarrow> uint32 \<times> uint32 \<Rightarrow> mem \<Rightarrow> mem" where
  "Store_double_val v d m = m(v := fst d, v + 4 := snd d)"

definition Double_field :: "mem \<Rightarrow> val \<Rightarrow> uint32 \<Rightarrow> uint32 \<times> uint32" where
  "Double_field m v i = Double_val m (v + 8 * i)"

definition Store_double_field :: "val \<Rightarrow> uint32 \<Rightarrow> uint32 \<times> uint32 \<Rightarrow> mem \<Rightarrow> mem" where
  "Store_double_field v i d m = Store_double_val (v + 8 * i) d m"

lemmas color_defs = Caml_white_def Caml_gray_def Caml_blue_def Caml_black_def

lemmas tag_defs = No_scan_tag_def Forward_tag_def Infix_tag_def Object_tag_def Closure_tag_def
  Abstract_tag_def String_tag_def Double_tag_def Double_array_tag_def Custom_tag_def

lemmas size_defs = Whsize_wosize_def Wosize_whsize_def Bsize_wsize_def Wsize_bsize_def
  Wosize_bhsize_def Bhsize_wosize_def Bosize_hd_def Whsize_hd_def Bhsize_hd_def Infix_offset_hd_def

subsection \<open>Integers\<close>

text \<open>
  \<open>rep_int i\<close> is the value that represents the integer \<open>i\<close>; integers that agree modulo
  \<open>2 ^ 31\<close> have the same representation, and \<open>wrap31\<close> is the one in the range of the
  language's \<^verbatim>\<open>int\<close>.
\<close>

definition rep_int :: "int \<Rightarrow> val" where
  "rep_int i = Val_long (word_of_int i)"

definition wrap31 :: "int \<Rightarrow> int" where
  "wrap31 i = signed_take_bit 30 i"

definition in_long :: "int \<Rightarrow> bool" where
  "in_long i \<longleftrightarrow> - (2 ^ 30) \<le> i \<and> i < 2 ^ 30"

lemma Val_long_ring: "Val_long x = 2 * x + 1"
  by (simp add: Val_long_def push_bit_eq_mult)

lemma rep_int_ring: "rep_int i = 2 * word_of_int i + 1"
  by (simp add: rep_int_def Val_long_ring)

lemma rep_int_word: "rep_int i = word_of_int (2 * i + 1)"
  by (simp add: rep_int_ring)

lemma wrap31_in: "in_long i \<Longrightarrow> wrap31 i = i"
  by (simp add: wrap31_def in_long_def signed_take_bit_int_eq_self)

lemma wrap31_range: "in_long (wrap31 i)"
  using signed_take_bit_int_greater_eq_minus_exp [of 30 i] signed_take_bit_int_less_exp [of 30 i]
  by (simp add: wrap31_def in_long_def)

lemma wrap31_eq: "wrap31 i = (i + 2 ^ 30) mod 2 ^ 31 - 2 ^ 30"
  by (simp add: wrap31_def signed_take_bit_eq_take_bit_shift take_bit_eq_mod)

lemma wrap31_cong_iff: "wrap31 i = wrap31 j \<longleftrightarrow> 2 ^ 31 dvd i - j"
  by (simp add: wrap31_eq mod_eq_dvd_iff)

lemma wrap31_idem [simp]: "wrap31 (wrap31 i) = wrap31 i"
  by (simp add: wrap31_in wrap31_range)

lemma rep_int_eq_iff: "rep_int i = rep_int j \<longleftrightarrow> wrap31 i = wrap31 j"
proof -
  have "rep_int i = rep_int j \<longleftrightarrow> (2 * i + 1) mod 2 ^ 32 = (2 * j + 1) mod (2 ^ 32 :: int)"
    by (simp add: rep_int_word word_of_int_eq_iff take_bit_eq_mod del: of_int_add of_int_mult)
  also have "\<dots> \<longleftrightarrow> 2 * 2 ^ 31 dvd 2 * (i - j)"
    by (simp add: mod_eq_dvd_iff right_diff_distrib)
  also have "\<dots> \<longleftrightarrow> 2 ^ 31 dvd i - j"
    by (subst dvd_mult_cancel_left) simp
  finally show ?thesis by (simp add: wrap31_cong_iff)
qed

lemma rep_int_inj: "in_long a \<Longrightarrow> in_long b \<Longrightarrow> rep_int a = rep_int b \<longleftrightarrow> a = b"
  by (simp add: rep_int_eq_iff wrap31_in)

lemma sint_rep_int: "in_long a \<Longrightarrow> sint (rep_int a) = 2 * a + 1"
  unfolding rep_int_word by (intro sint_word_of_int_in) (auto simp: in_long_def)

lemma rep_int_wrap31 [simp]: "rep_int (wrap31 i) = rep_int i"
  by (simp add: rep_int_eq_iff)

lemma Is_long_iff_odd: "Is_long v \<longleftrightarrow> odd v"
  by (simp add: Is_long_def and_one_eq odd_iff_mod_2_eq_one)

lemma Is_long_rep_int [simp]: "Is_long (rep_int i)"
  by (simp add: Is_long_iff_odd rep_int_ring)

lemma Is_block_iff: "Is_block v \<longleftrightarrow> \<not> Is_long v"
  by (simp add: Is_block_def Is_long_def)

lemma sint_Long_val: "sint (Long_val v) = sint v div 2"
  by (simp add: Long_val_def sint_signed_drop_bit_eq drop_bit_Suc)

lemma sint_Long_val_rep_int [simp]: "sint (Long_val (rep_int i)) = wrap31 i"
proof -
  have "sint (rep_int i) = (2 * i + 1 + 2 ^ 31) mod 2 ^ 32 - 2 ^ 31"
    by (simp add: rep_int_word int_word_sint del: of_int_add of_int_mult)
  also have "(2 * i + 1 + 2 ^ 31) mod 2 ^ 32 = (2 * (i + 2 ^ 30) + 1) mod (2 * 2 ^ 31)"
    by simp
  also have "\<dots> = 2 * ((i + 2 ^ 30) mod 2 ^ 31) + 1"
    by (subst zmod_zmult2_eq) (simp_all del: distrib_left_numeral)
  finally show ?thesis
    by (simp add: sint_Long_val wrap31_eq)
qed

lemma Long_val_rep_int: "Long_val (rep_int i) = word_of_int (wrap31 i)"
  by (metis sint_Long_val_rep_int word_of_int_sint_eq)

lemma Val_long_rep_int: "Val_long x = rep_int (sint x)"
  by (simp add: rep_int_def)

lemma Val_long_word_of_int: "Val_long (word_of_int i) = rep_int i"
  by (simp add: rep_int_def)

lemma sint_odd_iff: "odd (sint (v :: uint32)) \<longleftrightarrow> odd v"
  using bit_sint_iff [of v 0] by (simp add: bit_0)

lemma rep_int_exhaust:
  assumes "Is_long v"
  obtains i where "in_long i" and "v = rep_int i"
proof
  have "odd (sint v)" using assms by (simp add: Is_long_iff_odd sint_odd_iff)
  then have "2 * (sint v div 2) + 1 = sint v" by simp
  then show "v = rep_int (sint v div 2)"
    by (metis rep_int_word word_of_int_sint_eq)
  show "in_long (sint v div 2)"
    using sint32_range [of v] by (simp add: in_long_def) linarith
qed

lemma Val_long_Long_val: "Is_long v \<Longrightarrow> Val_long (Long_val v) = v"
  by (metis rep_int_exhaust Val_long_rep_int sint_Long_val_rep_int rep_int_wrap31)

subsection \<open>Header fields\<close>

lemma unat_and_ff: "unat (h AND 0xFF :: uint32) = unat h mod 256"
proof -
  have "h AND 0xFF = take_bit 8 h"
    by (simp add: take_bit_eq_mask mask_numeral)
  with unat_take_bit [of 8 h] show ?thesis by simp
qed

lemma and_color_mask: "(h AND 0x300 :: uint32) = push_bit 8 (take_bit 2 (drop_bit 8 h))"
  by (rule bit_word_eqI) (auto simp: bit_simps bit_consts)

lemma unat_and_color: "unat (h AND 0x300 :: uint32) = 256 * (unat h div 256 mod 4)"
proof -
  have "unat h div 256 mod 4 < 4" by simp
  then have "256 * (unat h div 256 mod 4) < 4294967296" by linarith
  moreover have "unat (take_bit 2 (drop_bit 8 h)) = unat h div 256 mod 4"
    by (simp add: unat_take_bit unat_drop_bit del: take_bit_word_eq_self drop_bit_of_nat)
  ultimately show ?thesis
    unfolding and_color_mask by (simp add: push_bit_eq_mult unat_word_ariths)
qed

definition header_ok :: "uint32 \<Rightarrow> uint32 \<Rightarrow> uint32 \<Rightarrow> bool" where
  "header_ok wosize tag color \<longleftrightarrow>
     wosize \<le> Max_wosize \<and> tag < 256 \<and> color \<in> {Caml_white, Caml_gray, Caml_blue, Caml_black}"

lemma unat_Make_header:
  assumes "header_ok wosize tag color"
  shows "unat (Make_header wosize tag color) = 1024 * unat wosize + unat color + unat tag"
    and "unat tag < 256" and "unat color \<in> {0, 256, 512, 768}"
proof -
  have w: "unat wosize \<le> 4194303"
    using assms by (simp add: header_ok_def Max_wosize_def word_le_nat_alt)
  show t: "unat tag < 256"
    using assms by (simp add: header_ok_def word_less_nat_alt)
  show c: "unat color \<in> {0, 256, 512, 768}"
    using assms by (auto simp: header_ok_def color_defs)
  have c': "unat color \<le> 768" using c by auto
  show "unat (Make_header wosize tag color) = 1024 * unat wosize + unat color + unat tag"
    using w t c' by (simp add: Make_header_def push_bit_eq_mult unat_word_ariths)
qed

lemma Make_header_fields:
  assumes "header_ok wosize tag color"
  shows "Wosize_hd (Make_header wosize tag color) = wosize"
    and "Tag_hd (Make_header wosize tag color) = tag"
    and "Color_hd (Make_header wosize tag color) = color"
proof -
  note h = unat_Make_header [OF assms]
  from h(3) obtain k where k: "unat color = 256 * k" "k < 4"
    by (elim insertE emptyE) (auto intro: that [of 0] that [of 1] that [of 2] that [of 3])
  have split: "unat (Make_header wosize tag color) = unat tag + 256 * (k + 4 * unat wosize)"
    using h(1) k by simp
  have low: "(unat tag + 256 * (k + 4 * unat wosize)) mod 256 = unat tag"
    using h(2) by (simp only: mod_mult_self2 mod_less)
  have high: "(unat tag + 256 * (k + 4 * unat wosize)) div 256 = k + 4 * unat wosize"
    using h(2) by (simp add: div_mult_self2)
  show "Wosize_hd (Make_header wosize tag color) = wosize"
    using h by (intro word_eq_by_unat) (auto simp: Wosize_hd_def unat_drop_bit)
  show "Tag_hd (Make_header wosize tag color) = tag"
    using low split by (intro word_eq_by_unat) (simp add: Tag_hd_def unat_and_ff)
  have "(k + 4 * unat wosize) mod 4 = k"
    using k(2) by (simp only: mod_mult_self2 mod_less)
  then show "Color_hd (Make_header wosize tag color) = color"
    using high split k by (intro word_eq_by_unat) (simp add: Color_hd_def color_defs unat_and_color)
qed

lemma recolor_fields:
  "Wosize_hd (Whitehd_hd h) = Wosize_hd h" "Tag_hd (Whitehd_hd h) = Tag_hd h"
  "Color_hd (Whitehd_hd h) = Caml_white"
  "Wosize_hd (Grayhd_hd h) = Wosize_hd h" "Tag_hd (Grayhd_hd h) = Tag_hd h"
  "Color_hd (Grayhd_hd h) = Caml_gray"
  "Wosize_hd (Blackhd_hd h) = Wosize_hd h" "Tag_hd (Blackhd_hd h) = Tag_hd h"
  "Color_hd (Blackhd_hd h) = Caml_black"
  "Wosize_hd (Bluehd_hd h) = Wosize_hd h" "Tag_hd (Bluehd_hd h) = Tag_hd h"
  "Color_hd (Bluehd_hd h) = Caml_blue"
  by (rule bit_word_eqI; force simp: Whitehd_hd_def Grayhd_hd_def Blackhd_hd_def Bluehd_hd_def
    Color_hd_def Tag_hd_def Wosize_hd_def color_defs bit_simps bit_consts dest: bit32_lt)+


subsection \<open>Bytes\<close>

text \<open>A byte of a word, and what writing one byte does to the others.\<close>

lemma lane_same:
  "ucast (drop_bit k ((x AND NOT (push_bit k 0xFF)) OR push_bit k (ucast b)) :: uint32) = (b :: uint8)" if "k \<le> 24"
proof (rule bit_word_eqI)
  fix n assume "n < LENGTH(8)"
  then have "n < 8" by simp
  then show "bit (ucast (drop_bit k ((x AND NOT (push_bit k 0xFF)) OR push_bit k (ucast b)) :: uint32) :: uint8) n = bit b n"
    using that by (simp add: bit_simps bit_consts)
qed

lemma lane_other:
  assumes "k = 8 * i" "l = 8 * j" "i < 4" "j < 4" "i \<noteq> j"
  shows "ucast (drop_bit l ((x AND NOT (push_bit k 0xFF)) OR push_bit k (ucast (b :: uint8))) :: uint32) = (ucast (drop_bit l x) :: uint8)"
proof (rule bit_word_eqI)
  fix n assume "n < LENGTH(8)"
  then have n: "n < 8" by simp
  have out: "\<not> (k \<le> l + n \<and> l + n < k + 8)" using assms n by presburger
  have "\<not> bit b (l + n - k)" if "k \<le> l + n"
    using bit_imp_le_length [of b "l + n - k"] out that by force
  then show "bit (ucast (drop_bit l ((x AND NOT (push_bit k 0xFF)) OR push_bit k (ucast b)) :: uint32) :: uint8) n =
      bit (ucast (drop_bit l x) :: uint8) n"
    using n out assms by (auto simp: bit_simps bit_consts)
qed

lemma and_3_cases: "unat (a AND 3 :: uint32) < 4"
proof -
  have "a AND 3 \<le> 3" by (rule word_and_le1)
  then show ?thesis by (simp add: word_le_nat_alt)
qed

lemma addr_split: "(a AND NOT 3) = (b AND NOT 3) \<Longrightarrow> a AND 3 = b AND 3 \<Longrightarrow> a = (b :: uint32)"
proof (rule bit_word_eqI)
  fix n
  assume e: "(a AND NOT 3) = (b AND NOT 3)" "a AND 3 = b AND 3" and "n < LENGTH(32)"
  from e have "bit (a AND NOT 3) n = bit (b AND NOT 3) n" "bit (a AND 3) n = bit (b AND 3) n" by simp_all
  then show "bit a n = bit b n" using \<open>n < LENGTH(32)\<close> by (auto simp: bit_simps)
qed

lemma Byte_u_set_same: "Byte_u (set_Byte_u x i b m) x i = b"
  unfolding Byte_u_def set_Byte_u_def Let_def fun_upd_same
  using and_3_cases [of "x + i"] by (intro lane_same) simp

lemma Byte_u_set_other:
  assumes "y + j \<noteq> x + i"
  shows "Byte_u (set_Byte_u x i b m) y j = Byte_u m y j"
proof (cases "(y + j) AND NOT 3 = (x + i) AND NOT 3")
  case True
  then have "(y + j) AND 3 \<noteq> (x + i) AND 3" using assms addr_split by blast
  then have "unat ((x + i) AND 3) \<noteq> unat ((y + j) AND 3)" by (simp add: word_unat_eq_iff)
  then show ?thesis
    using lane_other [OF refl refl and_3_cases and_3_cases, of "x + i" "y + j"] True
    by (simp add: Byte_u_def set_Byte_u_def Let_def)
qed (simp add: Byte_u_def set_Byte_u_def Let_def)

lemma set_Byte_u_word: "a \<noteq> ((x + i) AND NOT 3) \<Longrightarrow> set_Byte_u x i b m a = m a"
  by (simp add: set_Byte_u_def Let_def)

text \<open>The word that holds a byte of an aligned block.\<close>

lemma and_3_take: "(x AND 3 :: uint32) = take_bit 2 x"
  using take_bit_eq_mask [of 2 x] by (simp add: mask_eq_exp_minus_1)

lemma aligned_add: "x AND 3 = 0 \<Longrightarrow> (x + 4 * k) AND 3 = (0 :: uint32)"
proof (rule word_eq_by_unat)
  assume "x AND 3 = 0"
  then have "unat x mod 4 = 0" using unat_take_bit [of 2 x] by (simp add: and_3_take)
  then have "(unat x + 4 * unat k) mod 4 = 0" by presburger
  moreover have "unat (x + 4 * k) mod 4 = (unat x + 4 * unat k) mod 4"
    by (simp add: unat_word_ariths mod_mod_cancel mod_simps)
  ultimately show "unat ((x + 4 * k) AND 3) = unat (0 :: uint32)"
    using unat_take_bit [of 2 "x + 4 * k"] by (simp add: and_3_take)
qed

lemma aligned_low:
  assumes "y AND 3 = 0" and "r < (4 :: uint32)"
  shows "(y + r) AND NOT 3 = y" and "(y + r) AND 3 = r"
proof -
  have r: "r AND 3 = r"
    using assms(2) by (intro word_eq_by_unat) (simp add: and_3_take unat_take_bit word_less_nat_alt)
  then have "y AND r = y AND (r AND 3)" by simp
  also have "\<dots> = (y AND 3) AND r" by (simp add: ac_simps)
  finally have "y AND r = 0" using assms(1) by simp
  then have e: "y + r = y OR r" by (rule disjunctive_add_eq_or)
  have yn: "y AND NOT 3 = y"
  proof (rule bit_word_eqI)
    fix n
    have "bit (y AND 3) n = bit (0 :: uint32) n" using assms(1) by simp
    then show "n < LENGTH(32) \<Longrightarrow> bit (y AND NOT 3) n = bit y n" by (auto simp: bit_simps)
  qed
  have rn: "r AND NOT 3 = 0" by (metis r and.assoc and_zero_eq bit.conj_cancel_right)
  show "(y + r) AND NOT 3 = y" unfolding e bit.conj_disj_distrib2 yn rn by simp
  show "(y + r) AND 3 = r" unfolding e bit.conj_disj_distrib2 r assms(1) by simp
qed

subsection \<open>The properties\<close>

text \<open>
  A header made from a size of at most \<open>Max_wosize\<close> words, a tag and a colour gives them back, and
  the macros that change the colour keep the size and the tag.
\<close>

theorem header_round_trip:
  assumes "header_ok wosize tag color" and "h = Make_header wosize tag color"
  shows "Wosize_hd h = wosize \<and> Tag_hd h = tag \<and> Color_hd h = color \<and>
    (\<forall>f \<in> {Whitehd_hd, Grayhd_hd, Blackhd_hd, Bluehd_hd}.
       Wosize_hd (f h) = wosize \<and> Tag_hd (f h) = tag) \<and>
    Color_hd (Whitehd_hd h) = Caml_white \<and> Color_hd (Grayhd_hd h) = Caml_gray \<and>
    Color_hd (Blackhd_hd h) = Caml_black \<and> Color_hd (Bluehd_hd h) = Caml_blue"
  using assms Make_header_fields [OF assms(1)] by (auto simp: recolor_fields)

theorem header_round_trip_witness:
  "Wosize_hd (Make_header 5 247 Caml_blue) = 5 \<and> Tag_hd (Make_header 5 247 Caml_blue) = 247"
  using header_round_trip [of 5 247 Caml_blue "Make_header 5 247 Caml_blue"]
  by (simp add: header_ok_def Max_wosize_def)

text \<open>
  Integers.  Tagging and untagging lose nothing within the range of the language's integers,
  reduce modulo \<open>2 ^ 31\<close> outside it, and the tagged words are exactly the odd ones.
\<close>

theorem long_round_trip:
  "sint (Long_val (Val_long (word_of_int i))) = wrap31 i \<and> Is_long (Val_long x) \<and>
   (Is_long v \<longrightarrow> Val_long (Long_val v) = v) \<and> (in_long i \<longrightarrow> wrap31 i = i) \<and>
   Is_block v = (\<not> Is_long v)"
  using sint_Long_val_rep_int [of i] Is_long_rep_int [of "sint x"] Val_long_Long_val [of v]
    wrap31_in [of i] Is_block_iff [of v]
  by (simp add: Val_long_word_of_int Val_long_rep_int [of x])

theorem long_round_trip_witness: "wrap31 (- 5) = - 5 \<and> Val_long (Long_val 7) = 7"
  using long_round_trip [of "- 5" 0 7] by (simp add: in_long_def Is_long_def)

end
