(* ===== verification/Memory.thy ===== *)
theory Memory
  imports Mlvalues
begin

text \<open>
  The part of the memory manager that every store and every allocation of the interpreter and of the
  primitives goes through: allocation in the minor heap (\<open>Alloc_small\<close> of
  \<^verbatim>\<open>memory.h\<close>), the write barrier (\<open>Modify\<close>, \<open>initialize\<close>), marking
  (\<open>darken\<close> and its stack of gray values, \<^verbatim>\<open>major_gc.c\<close>) and the table of
  references into the minor heap (\<^verbatim>\<open>minor_gc.c\<close>).

  The record \<open>rt\<close> holds the global variables these functions use.  The two growable tables are
  lists: \<open>ref_table\<close> is the table up to \<^verbatim>\<open>ref_table_ptr\<close>, \<open>gray_vals\<close> the stack up to
  \<^verbatim>\<open>gray_vals_cur\<close>, with the limits as counts of entries.
\<close>

datatype gc_phase = Phase_mark | Phase_sweep | Phase_idle

record rt =
  mem :: mem
  young_start :: addr
  young_end :: addr
  young_ptr :: addr
  young_limit :: addr
  ref_table :: "addr list"
  ref_table_size :: nat
  ref_table_reserve :: nat
  ref_table_limit :: nat
  heap_start :: addr
  heap_end :: addr
  page_table :: "uint32 \<Rightarrow> bool"
  gc_phase :: gc_phase
  gc_sweep_hp :: addr
  gray_vals :: "val list"
  gray_vals_size :: nat
  heap_is_pure :: bool
  stat_heap_size :: nat
  stat_top_heap_size :: nat
  stat_heap_chunks :: nat
  page_low :: uint32
  page_high :: uint32
  \<comment> \<open>\<^verbatim>\<open>freelist.c\<close>; \<open>Fl_head\<close> is the address of the sentinel\<close>
  Fl_head :: addr
  fl_prev :: addr
  fl_last :: addr
  fl_merge :: addr
  fl_cur_size :: uint32
  last_fragment :: addr
  \<comment> \<open>\<^verbatim>\<open>major_gc.c\<close>, \<^verbatim>\<open>minor_gc.c\<close>\<close>
  allocated_words :: uint32
  extra_heap_memory :: rat
  minor_heap_size :: uint32
  major_heap_increment :: uint32
  in_minor_collection :: bool
  force_major_slice :: bool
  something_to_do :: bool
  \<comment> \<open>whether the C library's \<^verbatim>\<open>realloc\<close> succeeds: from the contents of the memory when it is called and the number of entries\<close>
  realloc_ok :: "mem \<Rightarrow> nat \<Rightarrow> bool"
  \<comment> \<open>the message of \<^verbatim>\<open>fatal_error\<close>, which ends the program\<close>
  fatal :: "string option"

subsection \<open>Where an address points\<close>

definition Page :: "addr \<Rightarrow> uint32" where
  "Page p = drop_bit 12 p"

definition Is_in_heap :: "'a rt_scheme \<Rightarrow> addr \<Rightarrow> bool" where
  "Is_in_heap s p \<longleftrightarrow> heap_start s \<le> p \<and> p < heap_end s \<and> page_table s (Page p)"

definition Is_young :: "'a rt_scheme \<Rightarrow> val \<Rightarrow> bool" where
  "Is_young s v \<longleftrightarrow> v < young_end s \<and> young_start s < v"

definition urge_major_slice :: "'a rt_scheme \<Rightarrow> 'a rt_scheme" where
  "urge_major_slice s = s\<lparr>force_major_slice := True, something_to_do := True\<rparr>"

subsection \<open>The table of references into the minor heap\<close>

definition realloc_ref_table :: "'a rt_scheme \<Rightarrow> 'a rt_scheme" where
  "realloc_ref_table s =
     (if ref_table_limit s = ref_table_size s
      then urge_major_slice (s\<lparr>ref_table_limit := ref_table_size s + ref_table_reserve s\<rparr>)
      else if \<not> realloc_ok s (mem s) (2 * ref_table_size s + ref_table_reserve s)
      then s\<lparr>ref_table_size := 2 * ref_table_size s,
             fatal := Some ''Fatal error: ref_table overflow''\<rparr>
      else s\<lparr>ref_table_size := 2 * ref_table_size s,
             ref_table_limit := 2 * ref_table_size s + ref_table_reserve s\<rparr>)"

definition add_to_ref_table :: "addr \<Rightarrow> 'a rt_scheme \<Rightarrow> 'a rt_scheme" where
  "add_to_ref_table fp s =
     (let s1 = s\<lparr>ref_table := ref_table s @ [fp]\<rparr>
      in if length (ref_table s1) \<ge> ref_table_limit s1 then realloc_ref_table s1 else s1)"

subsection \<open>Marking\<close>

definition realloc_gray_vals :: "'a rt_scheme \<Rightarrow> 'a rt_scheme" where
  "realloc_gray_vals s =
     (if gray_vals_size s < stat_heap_size s div 128
      then if \<not> realloc_ok s (mem s) (2 * gray_vals_size s)
           then s\<lparr>gray_vals := [], heap_is_pure := False\<rparr>
           else s\<lparr>gray_vals_size := 2 * gray_vals_size s\<rparr>
      else s\<lparr>gray_vals := take (gray_vals_size s div 2) (gray_vals s), heap_is_pure := False\<rparr>)"

definition darken :: "val \<Rightarrow> 'a rt_scheme \<Rightarrow> 'a rt_scheme" where
  "darken v s =
     (if Is_block v \<and> Is_in_heap s v
      then let h = Hd_val (mem s) v;
               v = (if Tag_hd h = Infix_tag then v - Infix_offset_hd h else v)
           in if Color_hd (Hd_val (mem s) v) = Caml_white
              then let s1 = s\<lparr>mem := set_Hd_val v (Grayhd_hd (Hd_val (mem s) v)) (mem s),
                              gray_vals := gray_vals s @ [v]\<rparr>
                   in if length (gray_vals s1) \<ge> gray_vals_size s1 then realloc_gray_vals s1 else s1
              else s
      else s)"

subsection \<open>Stores\<close>

definition Modify :: "addr \<Rightarrow> val \<Rightarrow> 'a rt_scheme \<Rightarrow> 'a rt_scheme" where
  "Modify fp v s =
     (let old = mem s fp;
          s1 = s\<lparr>mem := (mem s)(fp := v)\<rparr>
      in if Is_in_heap s1 fp
         then let s2 = (if gc_phase s1 = Phase_mark then darken old s1 else s1)
              in if Is_block v \<and> Is_young s2 v \<and> \<not> (Is_block old \<and> Is_young s2 old)
                 then add_to_ref_table fp s2 else s2
         else s1)"

definition initialize :: "addr \<Rightarrow> val \<Rightarrow> 'a rt_scheme \<Rightarrow> 'a rt_scheme" where
  "initialize fp v s =
     (let s1 = s\<lparr>mem := (mem s)(fp := v)\<rparr>
      in if Is_block v \<and> Is_young s1 v \<and> Is_in_heap s1 fp then add_to_ref_table fp s1 else s1)"

subsection \<open>Allocation\<close>

text \<open>
  The macro runs \<open>Setup_for_gc; minor_collection (); Restore_after_gc\<close> when the minor heap is
  exhausted.  The three together are the argument \<open>gc\<close>: the interpreter and the C primitives give
  the macro different ways of protecting their roots.
\<close>

definition Alloc_small ::
  "('a rt_scheme \<Rightarrow> 'a rt_scheme) \<Rightarrow> uint32 \<Rightarrow> uint32 \<Rightarrow> 'a rt_scheme \<Rightarrow> val \<times> 'a rt_scheme" where
  "Alloc_small gc wosize tag s =
     (let s1 = s\<lparr>young_ptr := young_ptr s - Bhsize_wosize wosize\<rparr>;
          s2 = (if young_ptr s1 < young_limit s1
                then let s3 = gc (s1\<lparr>young_ptr := young_ptr s1 + Bhsize_wosize wosize\<rparr>)
                     in s3\<lparr>young_ptr := young_ptr s3 - Bhsize_wosize wosize\<rparr>
                else s1);
          s4 = s2\<lparr>mem := (mem s2)(young_ptr s2 := Make_header wosize tag Caml_black)\<rparr>
      in (Val_hp (young_ptr s4), s4))"

definition allocation_color :: "'a rt_scheme \<Rightarrow> addr \<Rightarrow> uint32" where
  "allocation_color s hp =
     (if gc_phase s = Phase_mark \<or> (gc_phase s = Phase_sweep \<and> gc_sweep_hp s \<le> hp)
      then Caml_black else Caml_white)"

subsection \<open>What the stores leave alone\<close>

lemma realloc_ref_table_simps [simp]:
  "mem (realloc_ref_table s) = mem s" "ref_table (realloc_ref_table s) = ref_table s"
  "Is_in_heap (realloc_ref_table s) = Is_in_heap s" "Is_young (realloc_ref_table s) = Is_young s"
  "gray_vals (realloc_ref_table s) = gray_vals s" "heap_is_pure (realloc_ref_table s) = heap_is_pure s"
  "gray_vals_size (realloc_ref_table s) = gray_vals_size s"
  by (auto simp: realloc_ref_table_def urge_major_slice_def Is_in_heap_def Is_young_def)

lemma add_to_ref_table_simps [simp]:
  "mem (add_to_ref_table fp s) = mem s" "ref_table (add_to_ref_table fp s) = ref_table s @ [fp]"
  "Is_in_heap (add_to_ref_table fp s) = Is_in_heap s"
  "Is_young (add_to_ref_table fp s) = Is_young s"
  by (auto simp: add_to_ref_table_def Let_def Is_in_heap_def Is_young_def
      realloc_ref_table_def urge_major_slice_def)

lemma realloc_gray_vals_simps [simp]:
  "mem (realloc_gray_vals s) = mem s" "ref_table (realloc_gray_vals s) = ref_table s"
  "Is_in_heap (realloc_gray_vals s) = Is_in_heap s" "Is_young (realloc_gray_vals s) = Is_young s"
  by (auto simp: realloc_gray_vals_def Is_in_heap_def Is_young_def)

text \<open>The block that \<open>darken\<close> colours: the enclosing closure for an inner pointer.\<close>

definition darken_base :: "mem \<Rightarrow> val \<Rightarrow> val" where
  "darken_base m v =
     (if Tag_hd (Hd_val m v) = Infix_tag then v - Infix_offset_hd (Hd_val m v) else v)"

lemma darken_alt:
  "darken v s =
     (if Is_block v \<and> Is_in_heap s v \<and> Color_hd (Hd_val (mem s) (darken_base (mem s) v)) = Caml_white
      then let b = darken_base (mem s) v;
               s1 = s\<lparr>mem := set_Hd_val b (Grayhd_hd (Hd_val (mem s) b)) (mem s),
                      gray_vals := gray_vals s @ [b]\<rparr>
           in if length (gray_vals s1) \<ge> gray_vals_size s1 then realloc_gray_vals s1 else s1
      else s)"
  by (simp add: darken_def darken_base_def Let_def)

lemma darken_simps [simp]:
  "ref_table (darken v s) = ref_table s"
  "Is_in_heap (darken v s) = Is_in_heap s" "Is_young (darken v s) = Is_young s"
  by (auto simp: darken_alt Let_def Is_in_heap_def Is_young_def realloc_gray_vals_def)

lemma darken_mem:
  "a \<noteq> darken_base (mem s) v - 4 \<Longrightarrow> mem (darken v s) a = mem s a"
  by (auto simp: darken_alt Let_def set_Hd_val_def)

subsection \<open>The tables never overflow\<close>

definition tables_ok :: "'a rt_scheme \<Rightarrow> bool" where
  "tables_ok s \<longleftrightarrow>
     fatal s \<noteq> None \<or>
     length (ref_table s) < ref_table_limit s \<and>
     ref_table_limit s \<in> {ref_table_size s, ref_table_size s + ref_table_reserve s} \<and>
     0 < ref_table_size s \<and> 0 < ref_table_reserve s \<and>
     length (gray_vals s) < gray_vals_size s \<and> 2 \<le> gray_vals_size s"

lemma tables_ok_add_to_ref_table:
  assumes "tables_ok s" shows "tables_ok (add_to_ref_table fp s)"
  using assms
  by (auto simp: tables_ok_def add_to_ref_table_def Let_def realloc_ref_table_def
      urge_major_slice_def)

lemma tables_ok_darken:
  assumes "tables_ok s" shows "tables_ok (darken v s)"
  using assms
  by (auto simp: tables_ok_def darken_alt Let_def realloc_gray_vals_def min_def)

lemma tables_ok_store: "tables_ok (s\<lparr>mem := m\<rparr>) = tables_ok s"
  by (simp add: tables_ok_def)

lemma tables_ok_Modify:
  assumes "tables_ok s" shows "tables_ok (Modify fp v s)"
  using assms
  by (simp add: Modify_def Let_def tables_ok_add_to_ref_table tables_ok_darken tables_ok_store)

subsection \<open>The write barrier\<close>

text \<open>
  \<open>remembered F s\<close>: of the fields at the addresses \<open>F\<close>, every one that lies in the major
  heap and holds a pointer into the minor heap is in the table of references, which is what lets
  a minor collection find it.
\<close>

definition remembered :: "addr set \<Rightarrow> 'a rt_scheme \<Rightarrow> bool" where
  "remembered F s \<longleftrightarrow>
     (\<forall>a \<in> F. Is_in_heap s a \<and> Is_block (mem s a) \<and> Is_young s (mem s a) \<longrightarrow> a \<in> set (ref_table s))"

text \<open>The header that marking \<open>v\<close> would rewrite is not one of the fields \<open>F\<close>.\<close>

definition header_apart :: "addr set \<Rightarrow> mem \<Rightarrow> val \<Rightarrow> bool" where
  "header_apart F m v \<longleftrightarrow> darken_base m v - 4 \<notin> F"

lemma remembered_darken:
  assumes "remembered F s" and "header_apart F (mem s) v"
  shows "remembered F (darken v s)"
proof -
  have "\<And>a. a \<in> F \<Longrightarrow> mem (darken v s) a = mem s a"
    using assms(2) by (intro darken_mem) (auto simp: header_apart_def)
  with assms(1) show ?thesis by (simp add: remembered_def)
qed

lemma Is_in_heap_store [simp]: "Is_in_heap (s\<lparr>mem := m\<rparr>) = Is_in_heap s"
  by (rule ext) (simp add: Is_in_heap_def)

lemma Is_young_store [simp]: "Is_young (s\<lparr>mem := m\<rparr>) = Is_young s"
  by (rule ext) (simp add: Is_young_def)

lemma darken_ref_store: "ref_table (s\<lparr>mem := m\<rparr>) = ref_table s"
  by simp

lemma Modify_mem:
  assumes "a \<noteq> darken_base ((mem s)(fp := v)) (mem s fp) - 4"
  shows "mem (Modify fp v s) a = (if a = fp then v else mem s a)"
proof -
  let ?s1 = "s\<lparr>mem := (mem s)(fp := v)\<rparr>"
  have "mem (darken (mem s fp) ?s1) a = mem ?s1 a"
    using assms by (intro darken_mem) simp
  then show ?thesis by (auto simp: Modify_def Let_def)
qed

lemma Modify_regions [simp]:
  "Is_in_heap (Modify fp v s) = Is_in_heap s" "Is_young (Modify fp v s) = Is_young s"
  by (simp_all add: Modify_def Let_def)

lemma Modify_ref_grows: "set (ref_table s) \<subseteq> set (ref_table (Modify fp v s))"
  by (auto simp: Modify_def Let_def)

lemma Modify_ref_added:
  assumes "Is_in_heap s fp" and "Is_block v" and "Is_young s v"
    and "\<not> (Is_block (mem s fp) \<and> Is_young s (mem s fp))"
  shows "fp \<in> set (ref_table (Modify fp v s))"
  using assms by (auto simp: Modify_def Let_def)

lemma remembered_Modify:
  assumes rem: "remembered F s"
    and apart: "header_apart F ((mem s)(fp := v)) (mem s fp)"
  shows "remembered F (Modify fp v s)"
  unfolding remembered_def
proof (intro ballI impI, elim conjE)
  fix a assume a: "a \<in> F" and inh: "Is_in_heap (Modify fp v s) a"
    and blk: "Is_block (mem (Modify fp v s) a)"
    and yng: "Is_young (Modify fp v s) (mem (Modify fp v s) a)"
  have mem_eq: "mem (Modify fp v s) a = (if a = fp then v else mem s a)"
    using a apart by (intro Modify_mem) (auto simp: header_apart_def)
  show "a \<in> set (ref_table (Modify fp v s))"
  proof (cases "a = fp \<and> \<not> (Is_block (mem s fp) \<and> Is_young s (mem s fp))")
    case True
    with inh blk yng mem_eq show ?thesis by (auto intro: Modify_ref_added)
  next
    case False
    with a rem inh blk yng mem_eq have "a \<in> set (ref_table s)"
      by (auto simp: remembered_def split: if_splits)
    with Modify_ref_grows show ?thesis by blast
  qed
qed

lemma darken_colours:
  assumes "Is_block v" and "Is_in_heap s v"
  shows "Color_hd (Hd_val (mem (darken v s)) (darken_base (mem s) v)) \<noteq> Caml_white"
proof -
  have "Caml_gray \<noteq> Caml_white" by (simp add: color_defs)
  with assms show ?thesis
    by (auto simp: darken_alt Let_def Hd_val_def set_Hd_val_def recolor_fields)
qed

lemma darken_queued:
  assumes "Is_block v" and "Is_in_heap s v"
    and "Color_hd (Hd_val (mem s) (darken_base (mem s) v)) = Caml_white"
  shows "darken_base (mem s) v \<in> set (gray_vals (darken v s)) \<or> \<not> heap_is_pure (darken v s)"
  using assms by (auto simp: darken_alt Let_def realloc_gray_vals_def)

lemma darken_header:
  "b = darken_base (mem s) v \<Longrightarrow>
    Wosize_hd (Hd_val (mem (darken v s)) b) = Wosize_hd (Hd_val (mem s) b) \<and>
    Tag_hd (Hd_val (mem (darken v s)) b) = Tag_hd (Hd_val (mem s) b)"
  by (auto simp: darken_alt Let_def Hd_val_def set_Hd_val_def recolor_fields)

subsection \<open>Fresh blocks\<close>

lemma Alloc_small_room:
  assumes "young_limit s \<le> young_ptr s - Bhsize_wosize wosize"
  shows "Alloc_small gc wosize tag s =
    (young_ptr s - 4 * wosize,
     s\<lparr>young_ptr := young_ptr s - 4 * wosize - 4,
       mem := (mem s)(young_ptr s - 4 * wosize - 4 := Make_header wosize tag Caml_black)\<rparr>)"
proof -
  have eq: "Bhsize_wosize wosize = 4 * wosize + 4"
    by (simp add: size_defs algebra_simps)
  have "\<not> young_ptr s - (4 * wosize + 4) < young_limit s"
    using assms by (simp add: not_less eq)
  then show ?thesis
    by (simp add: Alloc_small_def Let_def Val_hp_def eq diff_diff_eq)
qed

subsection \<open>The properties\<close>

text \<open>
  C6.  The write barrier.  Storing \<open>v\<close> at \<open>fp\<close> with \<open>Modify\<close> changes, of the fields \<open>F\<close> of the program,
  only the one at \<open>fp\<close>; if before the store every field in the major heap with a pointer into the minor
  heap was in the table of references, this is still so; and neither the table nor
  the stack of gray values ever overflows.
\<close>

theorem modify_barrier:
  assumes "remembered F s" and "header_apart F ((mem s)(fp := v)) (mem s fp)" and "tables_ok s"
  shows "remembered F (Modify fp v s) \<and> tables_ok (Modify fp v s) \<and>
    (\<forall>a \<in> F. mem (Modify fp v s) a = (if a = fp then v else mem s a))"
proof (intro conjI ballI)
  fix a assume "a \<in> F"
  then show "mem (Modify fp v s) a = (if a = fp then v else mem s a)"
    using assms(2) by (intro Modify_mem) (auto simp: header_apart_def)
qed (use assms remembered_Modify tables_ok_Modify in auto)

text \<open>A major heap of two pages at 8192, a minor heap at 4096, empty tables.\<close>

definition heap_example :: "unit rt_scheme" where
  "heap_example = \<lparr>mem = (\<lambda>_. 1), young_start = 4096, young_end = 8192, young_ptr = 8192,
     young_limit = 4096, ref_table = [], ref_table_size = 4, ref_table_reserve = 2,
     ref_table_limit = 4, heap_start = 8192, heap_end = 16384, page_table = (\<lambda>p. p = 2 \<or> p = 3),
     gc_phase = Phase_mark, gc_sweep_hp = 0, gray_vals = [], gray_vals_size = 4,
     heap_is_pure = True, stat_heap_size = 8192, stat_top_heap_size = 8192,
     stat_heap_chunks = 1, page_low = 2, page_high = 4, Fl_head = 64, fl_prev = 64, fl_last = 0,
     fl_merge = 64, fl_cur_size = 0, last_fragment = 0, allocated_words = 0, extra_heap_memory = 0,
     minor_heap_size = 4096, major_heap_increment = 4096, in_minor_collection = False, force_major_slice = False, something_to_do = False,
     realloc_ok = (\<lambda>_ _. True), fatal = None\<rparr>"

theorem modify_barrier_witness:
  "remembered {8200} (Modify 8200 4104 heap_example) \<and> mem (Modify 8200 4104 heap_example) 8200 = 4104"
proof -
  have "remembered {8200} heap_example" "tables_ok heap_example"
    "header_apart {8200} ((mem heap_example)(8200 := 4104)) (mem heap_example 8200)"
    by (simp_all add: heap_example_def remembered_def tables_ok_def header_apart_def darken_base_def
        Is_block_def Tag_hd_def Hd_val_def Infix_tag_def)
  from modify_barrier [OF this(1,3,2)] show ?thesis by simp
qed

text \<open>
  Marking.  After \<open>darken\<close> of a block in the major heap, the block (the enclosing one for an inner
  pointer) is not white; if it was, it is on the stack of gray values, or the heap is
  flagged as needing another traversal because the stack could not hold it.  Only the colour in
  that one header changes.
\<close>

theorem darken_marks:
  assumes "Is_block v" and "Is_in_heap s v" and "b = darken_base (mem s) v"
  shows "Color_hd (Hd_val (mem (darken v s)) b) \<noteq> Caml_white \<and>
    (Color_hd (Hd_val (mem s) b) = Caml_white \<longrightarrow>
       b \<in> set (gray_vals (darken v s)) \<or> \<not> heap_is_pure (darken v s)) \<and>
    Wosize_hd (Hd_val (mem (darken v s)) b) = Wosize_hd (Hd_val (mem s) b) \<and>
    Tag_hd (Hd_val (mem (darken v s)) b) = Tag_hd (Hd_val (mem s) b) \<and>
    (\<forall>a. a \<noteq> b - 4 \<longrightarrow> mem (darken v s) a = mem s a)"
  using assms darken_colours [of v s] darken_queued [of v s] darken_header [of b s v] darken_mem [of _ s v]
  by auto

theorem darken_marks_witness:
  "Color_hd (Hd_val (mem (darken 8196 heap_example)) 8196) \<noteq> Caml_white"
  using darken_marks [of 8196 heap_example 8196]
  by (simp add: heap_example_def Is_block_def Is_in_heap_def Page_def darken_base_def Tag_hd_def
      Hd_val_def Infix_tag_def drop_bit_eq_div)

end
