(* ===== verification/Freelist.thy ===== *)
theory Freelist
  imports Memory
begin

text \<open>
  The free list of the major heap (\<^verbatim>\<open>byterun/freelist.c\<close>).  The list lives in the memory itself:
  the first word of a free block is the address of the next one, and the list starts at the sentinel
  \<open>Fl_head\<close>.  The operations are those of the source; the two searches of \<open>fl_allocate\<close> and the
  one of \<open>fl_add_block\<close> follow pointers and are partial functions, \<open>None\<close> standing for a search
  that does not end.  \<open>free_list\<close> relates the memory to the list of the free blocks: sorted by address,
  without overlap, each of at least one word.
\<close>

definition Next :: "mem \<Rightarrow> addr \<Rightarrow> addr" where
  "Next m b = m b"

definition set_Next :: "addr \<Rightarrow> addr \<Rightarrow> mem \<Rightarrow> mem" where
  "set_Next b n m = m(b := n)"

definition allocate_block :: "uint32 \<Rightarrow> addr \<Rightarrow> addr \<Rightarrow> 'a rt_scheme \<Rightarrow> addr \<times> 'a rt_scheme" where
  "allocate_block wh_sz prev cur s =
     (let h = Hd_val (mem s) cur;
          s2 = (if Wosize_hd h < wh_sz + 1
                then let s1 = s\<lparr>fl_cur_size := fl_cur_size s - Whsize_hd h,
                                mem := set_Next prev (Next (mem s) cur) (mem s),
                                fl_merge := (if fl_merge s = cur then prev else fl_merge s)\<rparr>
                     in s1\<lparr>mem := set_Hd_val cur (Make_header 0 0 Caml_white) (mem s1)\<rparr>
                else s\<lparr>fl_cur_size := fl_cur_size s - wh_sz,
                       mem := set_Hd_val cur (Make_header (Wosize_hd h - wh_sz) 0 Caml_blue) (mem s)\<rparr>)
      in (cur + Bosize_hd h - Bsize_wsize wh_sz, s2\<lparr>fl_prev := prev\<rparr>))"

text \<open>
  The loops of \<open>fl_allocate\<close>: from \<open>prev\<close> to the end of the list, and from the start to
  \<open>fl_prev\<close>.  A suitable block is returned with its predecessor (\<open>Inl\<close>); otherwise the first
  loop returns the last block (\<open>Inr\<close>).
\<close>

partial_function (option) search_end :: "mem \<Rightarrow> uint32 \<Rightarrow> addr \<Rightarrow> (addr \<times> addr + addr) option" where
  "search_end m wo_sz prev =
     (let cur = Next m prev
      in if cur \<noteq> 0
         then if wo_sz \<le> Wosize_val m cur then Some (Inl (prev, cur)) else search_end m wo_sz cur
         else Some (Inr prev))"

partial_function (option) search_start :: "mem \<Rightarrow> uint32 \<Rightarrow> addr \<Rightarrow> addr \<Rightarrow> (addr \<times> addr) option option" where
  "search_start m wo_sz stop prev =
     (if prev \<noteq> stop
      then let cur = Next m prev
           in if wo_sz \<le> Wosize_val m cur then Some (Some (prev, cur)) else search_start m wo_sz stop cur
      else Some None)"

definition fl_allocate :: "uint32 \<Rightarrow> 'a rt_scheme \<Rightarrow> (addr option \<times> 'a rt_scheme) option" where
  "fl_allocate wo_sz s =
     (case search_end (mem s) wo_sz (fl_prev s) of
        None \<Rightarrow> None
      | Some (Inl (prev, cur)) \<Rightarrow> Some (apfst Some (allocate_block (Whsize_wosize wo_sz) prev cur s))
      | Some (Inr lst) \<Rightarrow>
          (let s1 = s\<lparr>fl_last := lst\<rparr>
           in case search_start (mem s1) wo_sz (fl_prev s1) (Fl_head s1) of
                None \<Rightarrow> None
              | Some (Some (prev, cur)) \<Rightarrow>
                  Some (apfst Some (allocate_block (Whsize_wosize wo_sz) prev cur s1))
              | Some None \<Rightarrow> Some (None, s1)))"

definition fl_init_merge :: "'a rt_scheme \<Rightarrow> 'a rt_scheme" where
  "fl_init_merge s = s\<lparr>last_fragment := 0, fl_merge := Fl_head s\<rparr>"

definition fl_reset :: "'a rt_scheme \<Rightarrow> 'a rt_scheme" where
  "fl_reset s =
     fl_init_merge (s\<lparr>mem := set_Next (Fl_head s) 0 (mem s), fl_prev := Fl_head s, fl_cur_size := 0\<rparr>)"

text \<open>
  \<open>fl_merge_block\<close> in three steps: merging with the fragment before the block, merging with
  the free block after it, and linking or merging with the free block before it.
\<close>

definition merge_fragment :: "addr \<Rightarrow> 'a rt_scheme \<Rightarrow> addr \<times> header_t \<times> 'a rt_scheme" where
  "merge_fragment bp s =
     (let h = Hd_val (mem s) bp;
          s = s\<lparr>fl_cur_size := fl_cur_size s + Whsize_hd h\<rparr>
      in if last_fragment s = Hp_val bp
         then let h = Make_header (Whsize_hd (Hd_val (mem s) bp)) 0 Caml_white;
                  bp = last_fragment s
              in (bp, h, s\<lparr>mem := set_Hd_val bp h (mem s), fl_cur_size := fl_cur_size s + Whsize_wosize 0\<rparr>)
         else (bp, h, s))"

definition merge_next :: "addr \<Rightarrow> header_t \<Rightarrow> addr \<Rightarrow> addr \<Rightarrow> 'a rt_scheme \<Rightarrow>
    header_t \<times> addr \<times> addr \<times> 'a rt_scheme" where
  "merge_next bp h prev cur s =
     (let adj = bp + Bosize_hd h
      in if adj = Hp_val cur
         then let next_cur = Next (mem s) cur;
                  cur_whsz = Whsize_hd (Hd_val (mem s) cur);
                  s1 = s\<lparr>mem := set_Next prev next_cur (mem s),
                         fl_prev := (if fl_prev s = cur then prev else fl_prev s)\<rparr>;
                  h = Make_header (Wosize_hd h + cur_whsz) 0 Caml_blue
              in (h, bp + Bosize_hd h, next_cur, s1\<lparr>mem := set_Hd_val bp h (mem s1)\<rparr>)
         else (h, adj, cur, s))"

definition merge_link :: "addr \<Rightarrow> header_t \<Rightarrow> addr \<Rightarrow> addr \<Rightarrow> 'a rt_scheme \<Rightarrow> 'a rt_scheme" where
  "merge_link bp h prev cur s =
     (if prev + Bosize_val (mem s) prev = Hp_val bp
      then s\<lparr>mem := set_Hd_val prev (Make_header (Wosize_val (mem s) prev + Whsize_hd h) 0 Caml_blue) (mem s)\<rparr>
      else if Wosize_hd h \<noteq> 0
      then let m1 = set_Hd_val bp (Bluehd_hd h) (mem s);
               m2 = set_Next bp cur m1
           in s\<lparr>mem := set_Next prev bp m2, fl_merge := bp\<rparr>
      else s\<lparr>last_fragment := bp, fl_cur_size := fl_cur_size s - Whsize_wosize 0\<rparr>)"

definition fl_merge_block :: "addr \<Rightarrow> 'a rt_scheme \<Rightarrow> addr \<times> 'a rt_scheme" where
  "fl_merge_block bp s =
     (let prev = fl_merge s; cur = Next (mem s) prev;
          (bp, h, s) = merge_fragment bp s;
          (h, adj, cur, s) = merge_next bp h prev cur s
      in (adj, merge_link bp h prev cur s))"

partial_function (option) search_place :: "mem \<Rightarrow> addr \<Rightarrow> addr \<Rightarrow> (addr \<times> addr) option" where
  "search_place m bp prev =
     (let cur = Next m prev
      in if cur \<noteq> 0 \<and> cur < bp then search_place m bp cur else Some (prev, cur))"

definition fl_add_block :: "addr \<Rightarrow> 'a rt_scheme \<Rightarrow> 'a rt_scheme option" where
  "fl_add_block bp s =
     (let s = s\<lparr>fl_cur_size := fl_cur_size s + Whsize_hd (Hd_val (mem s) bp)\<rparr>
      in if fl_last s < bp
         then Some (s\<lparr>mem := set_Next bp 0 (set_Next (fl_last s) bp (mem s))\<rparr>)
         else case search_place (mem s) bp (Fl_head s) of
                None \<Rightarrow> None
              | Some (prev, cur) \<Rightarrow>
                  Some (s\<lparr>mem := set_Next prev bp (set_Next bp cur (mem s)),
                          fl_merge := (if prev = fl_merge s \<and> bp \<le> gc_sweep_hp s then bp else fl_merge s)\<rparr>))"

lemmas fl_access = Next_def set_Next_def Hd_val_def set_Hd_val_def Wosize_val_def Hp_val_def

subsection \<open>The list behind the memory\<close>

text \<open>The end of the block \<open>b\<close>, as a number, and the addresses of its words, the header included.\<close>

definition blk_hi :: "mem \<Rightarrow> addr \<Rightarrow> nat" where
  "blk_hi m b = unat b + 4 * unat (Wosize_val m b)"

definition extent :: "mem \<Rightarrow> addr \<Rightarrow> addr set" where
  "extent m b = {a. unat b \<le> unat a + 4 \<and> unat a < blk_hi m b}"

fun chain :: "mem \<Rightarrow> addr \<Rightarrow> addr list \<Rightarrow> bool" where
  "chain m p [] \<longleftrightarrow> Next m p = 0"
| "chain m p (b # bs) \<longleftrightarrow> Next m p = b \<and> chain m b bs"

fun blocks_ok :: "mem \<Rightarrow> nat \<Rightarrow> addr list \<Rightarrow> bool" where
  "blocks_ok m l [] \<longleftrightarrow> True"
| "blocks_ok m l (b # bs) \<longleftrightarrow> l + 4 \<le> unat b \<and> 1 \<le> Wosize_val m b \<and>
     Color_hd (Hd_val m b) = Caml_blue \<and> blk_hi m b \<le> 2 ^ 32 \<and> blocks_ok m (blk_hi m b) bs"

definition fl_end :: "mem \<Rightarrow> nat \<Rightarrow> addr list \<Rightarrow> nat" where
  "fl_end m l bs = foldl (\<lambda>_ b. blk_hi m b) l bs"

definition sentinel_ok :: "mem \<Rightarrow> addr \<Rightarrow> addr list \<Rightarrow> bool" where
  "sentinel_ok m h bs \<longleftrightarrow> h \<noteq> 0 \<and> (\<forall>b \<in> set bs. h \<notin> extent m b)"

definition fl_words :: "mem \<Rightarrow> addr list \<Rightarrow> uint32" where
  "fl_words m bs = (\<Sum>b \<leftarrow> bs. Whsize_hd (Hd_val m b))"

definition free_list :: "'a rt_scheme \<Rightarrow> addr list \<Rightarrow> bool" where
  "free_list s bs \<longleftrightarrow> chain (mem s) (Fl_head s) bs \<and> blocks_ok (mem s) 0 bs \<and>
     sentinel_ok (mem s) (Fl_head s) bs \<and> fl_prev s \<in> set (Fl_head s # bs) \<and>
     fl_merge s \<in> set (Fl_head s # bs) \<and> fl_cur_size s = fl_words (mem s) bs"

subsection \<open>Sorted and apart\<close>

lemma blk_hi_ge: "unat b \<le> blk_hi m b"
  by (simp add: blk_hi_def)

lemma fl_end_Nil [simp]: "fl_end m l [] = l"
  and fl_end_Cons [simp]: "fl_end m l (b # bs) = fl_end m (blk_hi m b) bs"
  and fl_end_append [simp]: "fl_end m l (xs @ ys) = fl_end m (fl_end m l xs) ys"
  by (simp_all add: fl_end_def)

lemma blocks_ok_append [simp]:
  "blocks_ok m l (xs @ ys) \<longleftrightarrow> blocks_ok m l xs \<and> blocks_ok m (fl_end m l xs) ys"
  by (induction xs arbitrary: l) auto

lemma blocks_ok_mono: "blocks_ok m l bs \<Longrightarrow> l' \<le> l \<Longrightarrow> blocks_ok m l' bs"
  by (cases bs) auto

lemma fl_end_ge: "blocks_ok m l bs \<Longrightarrow> l \<le> fl_end m l bs"
proof (induction bs arbitrary: l)
  case (Cons b bs)
  then have "blk_hi m b \<le> fl_end m (blk_hi m b) bs" by simp
  with Cons.prems blk_hi_ge [of b m] show ?case by simp
qed simp

lemma blocks_ok_mem:
  assumes "blocks_ok m l bs" and "b \<in> set bs"
  shows "l + 4 \<le> unat b" "1 \<le> Wosize_val m b" "Color_hd (Hd_val m b) = Caml_blue" "blk_hi m b \<le> 2 ^ 32"
    "blk_hi m b \<le> fl_end m l bs"
proof -
  have "l + 4 \<le> unat b \<and> 1 \<le> Wosize_val m b \<and> Color_hd (Hd_val m b) = Caml_blue \<and> blk_hi m b \<le> 2 ^ 32 \<and>
      blk_hi m b \<le> fl_end m l bs"
    using assms
  proof (induction bs arbitrary: l)
    case (Cons c bs)
    then show ?case using blk_hi_ge [of c m] fl_end_ge [of m "blk_hi m c" bs] by force
  qed simp
  then show "l + 4 \<le> unat b" "1 \<le> Wosize_val m b" "Color_hd (Hd_val m b) = Caml_blue" "blk_hi m b \<le> 2 ^ 32"
    "blk_hi m b \<le> fl_end m l bs" by blast+
qed

lemma unat_hdr: "4 \<le> unat b \<Longrightarrow> unat (b - 4) = unat (b :: addr) - 4"
  by (simp add: unat_sub word_le_nat_alt)

lemma extent_words:
  assumes "blocks_ok m l bs" and "b \<in> set bs"
  shows "b \<in> extent m b" "b - 4 \<in> extent m b"
proof -
  note ok = blocks_ok_mem [OF assms]
  have "1 \<le> unat (Wosize_val m b)" using ok(2) by (simp add: word_le_nat_alt)
  then show "b \<in> extent m b" "b - 4 \<in> extent m b"
    using ok(1) by (auto simp: extent_def blk_hi_def unat_hdr)
qed

lemma blocks_apart:
  assumes "blocks_ok m l (pre @ c # post)"
  shows "b \<in> set pre \<Longrightarrow> blk_hi m b + 4 \<le> unat c" and "b \<in> set post \<Longrightarrow> blk_hi m c + 4 \<le> unat b"
  using assms blocks_ok_mem(5) [of m l pre b] blocks_ok_mem(1) [of m "blk_hi m c" post b] by auto

lemma extents_disjoint:
  assumes "blocks_ok m l (pre @ c # post)" and "b \<in> set (pre @ post)"
  shows "extent m b \<inter> extent m c = {}"
  using assms(2) blocks_apart [OF assms(1), of b] by (auto simp: extent_def)

lemma blocks_distinct: "blocks_ok m l bs \<Longrightarrow> distinct bs"
proof (induction bs arbitrary: l)
  case (Cons b bs)
  then have "\<forall>c \<in> set bs. unat b < unat c"
    using blocks_ok_mem(1) [of m "blk_hi m b" bs] blk_hi_ge [of b m] by fastforce
  then show ?case using Cons by auto
qed simp

subsection \<open>What a store changes\<close>

fun seg :: "mem \<Rightarrow> addr \<Rightarrow> addr list \<Rightarrow> bool" where
  "seg m p [] \<longleftrightarrow> True"
| "seg m p (b # bs) \<longleftrightarrow> Next m p = b \<and> seg m b bs"

lemma chain_append: "chain m p (xs @ ys) \<longleftrightarrow> seg m p xs \<and> chain m (last (p # xs)) ys"
  by (induction xs arbitrary: p) auto

lemma seg_frame: "(\<And>a. a \<in> set (butlast (p # bs)) \<Longrightarrow> m' a = m a) \<Longrightarrow> seg m' p bs = seg m p bs"
  by (induction bs arbitrary: p) (auto simp: Next_def)

lemma chain_frame: "(\<And>a. a \<in> set (p # bs) \<Longrightarrow> m' a = m a) \<Longrightarrow> chain m' p bs = chain m p bs"
  by (induction bs arbitrary: p) (auto simp: Next_def)

lemma chain_moved:
  "chain m c bs \<Longrightarrow> m' p = m c \<Longrightarrow> (\<And>a. a \<in> set bs \<Longrightarrow> m' a = m a) \<Longrightarrow> chain m' p bs"
  using chain_frame [of "hd bs" "tl bs" m' m] by (cases bs) (auto simp: Next_def)

lemma hdr_frame:
  assumes "\<And>b. b \<in> set bs \<Longrightarrow> m' (b - 4) = m (b - 4)"
  shows "blocks_ok m' l bs = blocks_ok m l bs" "fl_end m' l bs = fl_end m l bs" "fl_words m' bs = fl_words m bs"
    "b \<in> set bs \<Longrightarrow> extent m' b = extent m b"
proof -
  have e: "\<And>b. b \<in> set bs \<Longrightarrow> Hd_val m' b = Hd_val m b" using assms by (simp add: Hd_val_def)
  then have w: "\<And>b. b \<in> set bs \<Longrightarrow> Wosize_val m' b = Wosize_val m b" by (simp add: Wosize_val_def)
  then have h: "\<And>b. b \<in> set bs \<Longrightarrow> blk_hi m' b = blk_hi m b" by (simp add: blk_hi_def)
  show "blocks_ok m' l bs = blocks_ok m l bs"
    using e w h by (induction bs arbitrary: l) auto
  show "fl_end m' l bs = fl_end m l bs"
    using h by (induction bs arbitrary: l) auto
  show "fl_words m' bs = fl_words m bs"
    using e by (auto simp: fl_words_def intro!: arg_cong [where f = sum_list])
  show "b \<in> set bs \<Longrightarrow> extent m' b = extent m b"
    using h by (simp add: extent_def)
qed

lemma last_notin_butlast: "distinct xs \<Longrightarrow> xs \<noteq> [] \<Longrightarrow> last xs \<notin> set (butlast xs)"
  by (metis append_butlast_last_id distinct_append not_distinct_conv_prefix distinct.simps(2)
      disjoint_insert(1) list.set(2) Int_commute)

lemma free_list_distinct:
  assumes "blocks_ok m 0 bs" and "sentinel_ok m h bs"
  shows "distinct (h # bs)"
  using blocks_distinct [OF assms(1)] extent_words(1) [OF assms(1)] assms(2) by (auto simp: sentinel_ok_def)

lemma fl_words_append [simp]: "fl_words m (xs @ ys) = fl_words m xs + fl_words m ys"
  and fl_words_Cons [simp]: "fl_words m (b # bs) = Whsize_hd (Hd_val m b) + fl_words m bs"
  and fl_words_Nil [simp]: "fl_words m [] = 0"
  by (simp_all add: fl_words_def)

lemma sentinel_frame:
  assumes "sentinel_ok m h bs" and "\<And>b. b \<in> set bs' \<Longrightarrow> \<exists>c \<in> set bs. extent m' b \<subseteq> extent m c"
  shows "sentinel_ok m' h bs'"
  using assms by (fastforce simp: sentinel_ok_def)

subsection \<open>Taking a block\<close>

text \<open>The words of a block of \<open>wo\<close> words with its header at \<open>hp\<close>.\<close>

definition block_words :: "addr \<Rightarrow> uint32 \<Rightarrow> addr set" where
  "block_words hp wo = {a. unat hp \<le> unat a \<and> unat a < unat hp + 4 * (unat wo + 1)}"

text \<open>
  What a successful allocation promises: the words of the new block come from one free block, no block of the
  list that remains overlaps them, that list is again well-formed, and no word outside
  the old free blocks has changed but the link in the sentinel.
\<close>

definition allocated :: "uint32 \<Rightarrow> addr list \<Rightarrow> addr \<Rightarrow> 'a rt_scheme \<Rightarrow> 'a rt_scheme \<Rightarrow> addr list \<Rightarrow> bool" where
  "allocated wo bs hp s t bs' \<longleftrightarrow> free_list t bs' \<and>
     (\<exists>b \<in> set bs. block_words hp wo \<subseteq> extent (mem s) b) \<and>
     (\<forall>b \<in> set bs'. block_words hp wo \<inter> extent (mem t) b = {} \<and> (\<exists>c \<in> set bs. extent (mem t) b \<subseteq> extent (mem s) c)) \<and>
     (\<forall>a. a \<noteq> Fl_head s \<and> (\<forall>b \<in> set bs. a \<notin> extent (mem s) b) \<longrightarrow> mem t a = mem s a)"

lemma Wosize_hd_le: "Wosize_hd h \<le> Max_wosize"
proof -
  have "unat h div 1024 \<le> 4194303" using unat32_lt [of h] by linarith
  then show ?thesis by (simp add: Max_wosize_def Wosize_hd_def word_le_nat_alt unat_drop_bit)
qed

lemma Wosize_val_le: "unat (Wosize_val m b) \<le> 4194303"
  using Wosize_hd_le [of "Hd_val m b"] by (simp add: Max_wosize_def Wosize_val_def word_le_nat_alt)

text \<open>The allocated block is at the upper end of the free block.\<close>

lemma block_at_end:
  assumes "4 \<le> unat c" "unat wo \<le> unat W" "unat c + 4 * unat W \<le> 2 ^ 32"
  shows "unat (c + Bsize_wsize W - Bsize_wsize (Whsize_wosize wo) :: addr) = unat c + 4 * unat W - 4 * (unat wo + 1)"
proof -
  let ?n = "unat c + 4 * unat W - 4 * (unat wo + 1)"
  have le: "4 \<le> c \<Longrightarrow> w \<le> W \<Longrightarrow> 4 * (w + 1) \<le> c + 4 * W" for c w W :: nat by arith
  have "(word_of_nat ?n :: addr) = word_of_nat (unat c + 4 * unat W) - word_of_nat (4 * (unat wo + 1))"
    using assms(1,2) by (intro of_nat_diff le)
  also have "\<dots> = c + Bsize_wsize W - Bsize_wsize (Whsize_wosize wo)"
    by (simp add: size_defs algebra_simps)
  finally have "unat (c + Bsize_wsize W - Bsize_wsize (Whsize_wosize wo)) = unat (word_of_nat ?n :: addr)" by simp
  also have "\<dots> = ?n" using assms(3) by (intro unat_word_of_nat_small) simp
  finally show ?thesis .
qed

lemma chain_remove:
  assumes "chain m h (pre @ c # post)" and dis: "distinct (h # pre @ c # post)" and hdr: "w \<notin> set (h # pre @ post)"
    and p: "p = last (h # pre)"
  shows "chain (m(p := m c, w := x)) h (pre @ post)"
proof -
  let ?m = "m(p := m c, w := x)"
  have p_in: "p \<in> set (h # pre)" unfolding p by (rule last_in_set) simp
  then have neq: "p \<noteq> w" and np: "p \<notin> set post" using hdr dis by auto
  have ch: "seg m h pre" "chain m p (c # post)" using assms(1) p by (simp_all only: chain_append)
  have cc: "chain m c post" using ch(2) by simp
  have "?m p = m c" using neq by simp
  moreover have "\<And>a. a \<in> set post \<Longrightarrow> ?m a = m a" using hdr np by auto
  ultimately have "chain ?m p post" by (rule chain_moved [OF cc])
  moreover have "p \<notin> set (butlast (h # pre))" unfolding p using dis by (intro last_notin_butlast) auto
  then have "\<And>a. a \<in> set (butlast (h # pre)) \<Longrightarrow> ?m a = m a"
    using hdr in_set_butlastD [of _ "h # pre"] by (auto simp del: butlast.simps)
  then have "seg ?m h pre" using ch(1) seg_frame [of h pre ?m m] by blast
  ultimately show ?thesis using p by (simp only: chain_append)
qed

text \<open>The addresses the list uses are all different.\<close>

lemma free_list_addresses:
  assumes "free_list s bs"
  shows "distinct (Fl_head s # bs)"
    and "b \<in> set bs \<Longrightarrow> b - 4 \<notin> set (Fl_head s # bs)"
    and "b \<in> set bs \<Longrightarrow> c \<in> set bs \<Longrightarrow> b - 4 = c - 4 \<longleftrightarrow> b = c"
proof -
  have ok: "blocks_ok (mem s) 0 bs" "sentinel_ok (mem s) (Fl_head s) bs" using assms by (auto simp: free_list_def)
  show "distinct (Fl_head s # bs)" using free_list_distinct [OF ok] .
  show "b - 4 \<notin> set (Fl_head s # bs)" if b: "b \<in> set bs"
  proof
    assume "b - 4 \<in> set (Fl_head s # bs)"
    moreover have "b - 4 \<noteq> Fl_head s" using extent_words(2) [OF ok(1) b] ok(2) b by (auto simp: sentinel_ok_def)
    ultimately have c: "b - 4 \<in> set bs" by simp
    obtain pre post where bs: "bs = pre @ b # post" using split_list [OF b] by blast
    have "b - 4 \<noteq> b" by simp
    then have "b - 4 \<in> set (pre @ post)" using c bs by auto
    then show False
      using extents_disjoint [of "mem s" 0 pre b post "b - 4"] ok(1) extent_words(2) [OF ok(1) b]
        extent_words(1) [OF ok(1) c] bs by blast
  qed
  show "b - 4 = c - 4 \<longleftrightarrow> b = c" by simp
qed

lemma remove_block:
  assumes fl: "free_list s (pre @ c # post)"
    and t: "mem t = (mem s)(last (Fl_head s # pre) := mem s c, c - 4 := x)" "Fl_head t = Fl_head s"
      "fl_prev t = last (Fl_head s # pre)"
      "fl_merge t = (if fl_merge s = c then last (Fl_head s # pre) else fl_merge s)"
      "fl_cur_size t = fl_cur_size s - Whsize_hd (Hd_val (mem s) c)"
  shows "free_list t (pre @ post)" and "\<And>b. b \<in> set (pre @ post) \<Longrightarrow> extent (mem t) b = extent (mem s) b"
proof -
  note ad = free_list_addresses [OF fl]
  have ok: "blocks_ok (mem s) 0 (pre @ c # post)" "sentinel_ok (mem s) (Fl_head s) (pre @ c # post)"
    "chain (mem s) (Fl_head s) (pre @ c # post)" using fl by (auto simp: free_list_def)
  have hdr: "mem t (b - 4) = mem s (b - 4)" if "b \<in> set (pre @ post)" for b
  proof -
    have "b \<noteq> c" using that ad(1) by auto
    moreover have "b - 4 \<noteq> last (Fl_head s # pre)" using that ad(2) [of b] by auto
    ultimately show ?thesis by (simp add: t(1))
  qed
  note fr = hdr_frame [of "pre @ post" "mem t" "mem s", OF hdr]
  show ext: "\<And>b. b \<in> set (pre @ post) \<Longrightarrow> extent (mem t) b = extent (mem s) b" by (rule fr(4))
  have "blocks_ok (mem s) 0 (pre @ post)"
    using ok(1) blk_hi_ge [of c "mem s"] by (auto elim!: blocks_ok_mono)
  then have "blocks_ok (mem t) 0 (pre @ post)" by (simp only: fr(1))
  moreover have "chain (mem t) (Fl_head s) (pre @ post)"
    unfolding t(1) using ok(3) ad(1) ad(2) [of c] by (intro chain_remove) auto
  moreover have "sentinel_ok (mem t) (Fl_head s) (pre @ post)"
    by (rule sentinel_frame [OF ok(2)]) (use ext in auto)
  moreover have "fl_prev t \<in> set (Fl_head s # pre @ post)" "fl_merge t \<in> set (Fl_head s # pre @ post)"
    using fl by (auto simp: t free_list_def)
  moreover have "fl_cur_size t = fl_words (mem t) (pre @ post)"
    using fl by (simp only: t(5) fr(3)) (simp add: free_list_def)
  ultimately show "free_list t (pre @ post)" by (simp add: free_list_def t(2))
qed

lemma shorten_block:
  assumes fl: "free_list s (pre @ c # post)" and lt: "wh < Wosize_val (mem s) c"
    and t: "mem t = (mem s)(c - 4 := Make_header (Wosize_val (mem s) c - wh) 0 Caml_blue)" "Fl_head t = Fl_head s"
      "fl_prev t \<in> set (Fl_head s # pre @ c # post)" "fl_merge t = fl_merge s" "fl_cur_size t = fl_cur_size s - wh"
  shows "free_list t (pre @ c # post)" and "\<And>b. b \<in> set (pre @ post) \<Longrightarrow> extent (mem t) b = extent (mem s) b"
    and "blk_hi (mem t) c + 4 * unat wh = blk_hi (mem s) c"
proof -
  note ad = free_list_addresses [OF fl]
  have ok: "blocks_ok (mem s) 0 (pre @ c # post)" "sentinel_ok (mem s) (Fl_head s) (pre @ c # post)"
    "chain (mem s) (Fl_head s) (pre @ c # post)" using fl by (auto simp: free_list_def)
  let ?w = "Wosize_val (mem s) c - wh"
  have w: "unat ?w = unat (Wosize_val (mem s) c) - unat wh" "0 < unat ?w"
    using lt by (simp_all add: unat_sub word_less_nat_alt word_le_nat_alt)
  have hok: "header_ok ?w 0 Caml_blue"
    using w(1) Wosize_val_le [of "mem s" c] by (simp add: header_ok_def Max_wosize_def word_le_nat_alt)
  have c: "Wosize_val (mem t) c = ?w" "Color_hd (Hd_val (mem t) c) = Caml_blue" "Hd_val (mem t) c = Make_header ?w 0 Caml_blue"
    using Make_header_fields [OF hok] by (simp_all add: t(1) Wosize_val_def Hd_val_def)
  have hdr: "mem t (b - 4) = mem s (b - 4)" if "b \<in> set (pre @ post)" for b
    using that ad(1) by (auto simp: t(1))
  note fr = hdr_frame [of "pre @ post" "mem t" "mem s", OF hdr]
  note fpre = hdr_frame [of pre "mem t" "mem s", OF hdr, simplified]
  note fpost = hdr_frame [of post "mem t" "mem s", OF hdr, simplified]
  show ext: "\<And>b. b \<in> set (pre @ post) \<Longrightarrow> extent (mem t) b = extent (mem s) b" by (rule fr(4))
  show hi: "blk_hi (mem t) c + 4 * unat wh = blk_hi (mem s) c"
    using w lt by (simp add: blk_hi_def c(1) word_less_nat_alt)
  have "blocks_ok (mem t) 0 (pre @ c # post)"
    using ok(1) hi w(2) c by (simp add: fpre fpost word_le_nat_alt) (auto elim!: blocks_ok_mono)
  moreover have "chain (mem t) (Fl_head s) (pre @ c # post)"
  proof (subst chain_frame)
    fix a assume "a \<in> set (Fl_head s # pre @ c # post)"
    then show "mem t a = mem s a" using ad(2) [of c] by (auto simp: t(1))
  qed (rule ok(3))
  moreover have "extent (mem t) c \<subseteq> extent (mem s) c" using hi by (auto simp: extent_def)
  with ext have "\<And>b. b \<in> set (pre @ c # post) \<Longrightarrow> \<exists>d \<in> set (pre @ c # post). extent (mem t) b \<subseteq> extent (mem s) d"
    by fastforce
  then have "sentinel_ok (mem t) (Fl_head s) (pre @ c # post)"
    by (rule sentinel_frame [OF ok(2)])
  moreover have "fl_words (mem t) (pre @ c # post) = fl_words (mem s) (pre @ c # post) - wh"
    using Make_header_fields(1) [OF hok]
    by (simp add: fpre fpost c(3) Whsize_hd_def Whsize_wosize_def Wosize_val_def)
  ultimately show "free_list t (pre @ c # post)" using fl t(3) by (simp add: free_list_def t(2,4,5))
qed

lemma block_words_end:
  assumes "blocks_ok m l bs" and "c \<in> set bs" and "wo \<le> Wosize_val m c"
  shows "block_words (c + Bosize_hd (Hd_val m c) - Bsize_wsize (Whsize_wosize wo)) wo =
    {a. blk_hi m c \<le> unat a + 4 * (unat wo + 1) \<and> unat a < blk_hi m c}"
proof -
  note ok = blocks_ok_mem [OF assms(1,2)]
  have le: "4 * (w + 1) \<le> c + 4 * W" if "4 \<le> c" "w \<le> W" for c w W :: nat using that by arith
  have w: "unat wo \<le> unat (Wosize_val m c)" using assms(3) by (simp add: word_le_nat_alt)
  have c: "4 \<le> unat c" using ok(1) by simp
  have eq: "unat (c + Bosize_hd (Hd_val m c) - Bsize_wsize (Whsize_wosize wo)) = blk_hi m c - 4 * (unat wo + 1)"
    using block_at_end [OF c w] ok(4) by (simp add: blk_hi_def Bosize_hd_def Wosize_val_def)
  have "4 * (unat wo + 1) \<le> blk_hi m c" using le [OF c w] by (simp add: blk_hi_def)
  then show ?thesis unfolding block_words_def eq by auto
qed

lemma allocate_block_allocated:
  assumes fl: "free_list s (pre @ c # post)" and wo: "wo \<le> Wosize_val (mem s) c"
    and t: "allocate_block (Whsize_wosize wo) (last (Fl_head s # pre)) c s = (hp, t)"
  shows "\<exists>bs'. allocated wo (pre @ c # post) hp s t bs'"
proof -
  have ok: "blocks_ok (mem s) 0 (pre @ c # post)" using fl by (simp add: free_list_def)
  have inbs: "c \<in> set (pre @ c # post)" by simp
  let ?m = "mem s" and ?W = "Wosize_val (mem s) c" and ?p = "last (Fl_head s # pre)"
  have w: "unat wo \<le> unat ?W" using wo by (simp add: word_le_nat_alt)
  have wsmall: "unat wo \<le> 4194303" using w Wosize_val_le [of ?m c] by linarith
  have plus: "unat (Whsize_wosize wo) = unat wo + 1" "unat (Whsize_wosize wo + 1) = unat wo + 2"
    using wsmall by (simp_all add: Whsize_wosize_def unat_word_ariths)
  have hp: "hp = c + Bosize_hd (Hd_val ?m c) - Bsize_wsize (Whsize_wosize wo)"
    using t by (simp add: allocate_block_def Let_def split: if_splits)
  have words: "block_words hp wo = {a. blk_hi ?m c \<le> unat a + 4 * (unat wo + 1) \<and> unat a < blk_hi ?m c}"
    unfolding hp by (rule block_words_end [OF ok inbs wo])
  have sub: "block_words hp wo \<subseteq> extent ?m c" unfolding words using w by (auto simp: extent_def blk_hi_def)
  have apart: "block_words hp wo \<inter> extent ?m b = {}" if "b \<in> set (pre @ post)" for b
    using sub extents_disjoint [OF ok that] by blast
  have frame: "mem t a = ?m a" if "a \<noteq> Fl_head s" "\<forall>b \<in> set (pre @ c # post). a \<notin> extent ?m b" for a
  proof -
    have "\<And>b. b \<in> set (pre @ c # post) \<Longrightarrow> a \<noteq> b" using that(2) extent_words(1) [OF ok] by blast
    moreover have "a \<noteq> c - 4" using that(2) extent_words(2) [OF ok inbs] inbs by blast
    ultimately show ?thesis using t that(1)
      by (auto simp: allocate_block_def Let_def fl_access split: if_splits)
  qed
  show ?thesis
  proof (cases "?W < Whsize_wosize wo + 1")
    case True
    then have tf: "mem t = ?m(?p := ?m c, c - 4 := Make_header 0 0 Caml_white)"
      "Fl_head t = Fl_head s" "fl_prev t = ?p" "fl_merge t = (if fl_merge s = c then ?p else fl_merge s)"
      "fl_cur_size t = fl_cur_size s - Whsize_hd (Hd_val ?m c)"
      using t by (simp_all add: allocate_block_def Let_def fl_access split_beta del: last.simps) auto
    note r = remove_block [OF fl tf]
    have "allocated wo (pre @ c # post) hp s t (pre @ post)"
      unfolding allocated_def using r(1) sub apart r(2) frame by auto
    then show ?thesis ..
  next
    case False
    then have lt: "Whsize_wosize wo < ?W" using plus by (simp add: word_less_nat_alt)
    have tf: "mem t = ?m(c - 4 := Make_header (?W - Whsize_wosize wo) 0 Caml_blue)"
      "Fl_head t = Fl_head s" "fl_prev t \<in> set (Fl_head s # pre @ c # post)" "fl_merge t = fl_merge s"
      "fl_cur_size t = fl_cur_size s - Whsize_wosize wo"
      using t False by (auto simp: allocate_block_def Let_def fl_access)
    note r = shorten_block [OF fl lt tf]
    have "block_words hp wo \<inter> extent (mem t) c = {}" "extent (mem t) c \<subseteq> extent ?m c"
      unfolding words using r(3) plus(1) by (auto simp: extent_def)
    then have "allocated wo (pre @ c # post) hp s t (pre @ c # post)"
      unfolding allocated_def using r(1) sub apart r(2) frame by auto
    then show ?thesis ..
  qed
qed

subsection \<open>The searches end\<close>

lemma search_end_correct:
  assumes "chain m p bs" and "0 \<notin> set bs"
  shows "(\<exists>pre c post. bs = pre @ c # post \<and> wo \<le> Wosize_val m c \<and> search_end m wo p = Some (Inl (last (p # pre), c))) \<or>
    (\<forall>b \<in> set bs. \<not> wo \<le> Wosize_val m b) \<and> search_end m wo p = Some (Inr (last (p # bs)))"
  using assms
proof (induction bs arbitrary: p)
  case Nil
  then show ?case by (simp add: search_end.simps [of m wo p])
next
  case (Cons b bs)
  show ?case
  proof (cases "wo \<le> Wosize_val m b")
    case True
    then have "search_end m wo p = Some (Inl (last (p # []), b))"
      using Cons.prems by (simp add: search_end.simps [of m wo p])
    then show ?thesis using True by (intro disjI1 exI [of _ "[]"]) auto
  next
    case False
    have step: "search_end m wo p = search_end m wo b"
      using Cons.prems False by (subst search_end.simps) simp
    have "chain m b bs" "0 \<notin> set bs" using Cons.prems by auto
    from Cons.IH [OF this] show ?thesis
    proof (elim disjE exE conjE)
      fix pre c post assume "bs = pre @ c # post" "wo \<le> Wosize_val m c" "search_end m wo b = Some (Inl (last (b # pre), c))"
      then show ?thesis by (intro disjI1 exI [of _ "b # pre"] exI [of _ c] exI [of _ post]) (simp add: step)
    qed (use False step in auto)
  qed
qed

lemma search_start_correct:
  assumes "seg m h bs" and "distinct (h # bs)"
  shows "(\<exists>pre c post. bs = pre @ c # post \<and> wo \<le> Wosize_val m c \<and>
      search_start m wo (last (h # bs)) h = Some (Some (last (h # pre), c))) \<or>
    (\<forall>b \<in> set bs. \<not> wo \<le> Wosize_val m b) \<and> search_start m wo (last (h # bs)) h = Some None"
  using assms
proof (induction bs arbitrary: h)
  case Nil
  then show ?case by (simp add: search_start.simps [of m wo h h])
next
  case (Cons b bs)
  let ?stop = "last (b # bs)"
  have "?stop \<in> set (b # bs)" by (rule last_in_set) simp
  then have ne: "h \<noteq> ?stop" and st: "last (h # b # bs) = ?stop" using Cons.prems by auto
  show ?case
  proof (cases "wo \<le> Wosize_val m b")
    case True
    then have "search_start m wo ?stop h = Some (Some (last (h # []), b))"
      using Cons.prems ne by (subst search_start.simps) simp
    then show ?thesis using True st by (intro disjI1 exI [of _ "[]"]) auto
  next
    case False
    have step: "search_start m wo ?stop h = search_start m wo ?stop b"
      using Cons.prems False ne by (subst search_start.simps) simp
    have "seg m b bs" "distinct (b # bs)" using Cons.prems by auto
    from Cons.IH [OF this] show ?thesis
    proof (elim disjE exE conjE)
      fix pre c post assume a: "bs = pre @ c # post" "wo \<le> Wosize_val m c" "search_start m wo ?stop b = Some (Some (last (b # pre), c))"
      have "b # bs = (b # pre) @ c # post" "last (h # b # pre) = last (b # pre)" using a(1) by simp_all
      then show ?thesis using a(2,3) st step by metis
    qed (use False step in auto)
  qed
qed

subsection \<open>The allocator\<close>

lemma free_list_nonzero: "free_list s bs \<Longrightarrow> 0 \<notin> set bs"
  using blocks_ok_mem(1) [of "mem s" 0 bs 0] by (auto simp: free_list_def)

lemma free_list_mono: "free_list (s\<lparr>fl_last := x\<rparr>) bs = free_list s bs"
  by (simp add: free_list_def)

text \<open>
  The two searches together visit every block: \<open>fl_prev\<close> splits the list, the first search covers
  what follows it, the second what precedes it and the block itself.
\<close>

lemma fl_allocate_cases:
  assumes fl: "free_list s bs"
  shows "(\<exists>hp t bs'. fl_allocate wo s = Some (Some hp, t) \<and> allocated wo bs hp s t bs' \<and>
      (\<exists>b \<in> set bs. wo \<le> Wosize_val (mem s) b)) \<or>
    (\<forall>b \<in> set bs. \<not> wo \<le> Wosize_val (mem s) b) \<and>
      fl_allocate wo s = Some (None, s\<lparr>fl_last := last (Fl_head s # bs)\<rparr>)"
proof -
  let ?h = "Fl_head s" and ?m = "mem s"
  have "fl_prev s \<in> set (?h # bs)" using fl by (simp add: free_list_def)
  then obtain xs ys where "?h # bs = xs @ fl_prev s # ys" using split_list by metis
  then obtain pre where bs: "bs = pre @ ys" and prev: "fl_prev s = last (?h # pre)"
    by (cases xs) (auto intro: that [of "[]"] that [of "tl xs @ [fl_prev s]"])
  have ch: "seg ?m ?h pre" "chain ?m (fl_prev s) ys" using fl by (simp_all add: free_list_def bs chain_append prev)
  have nz: "0 \<notin> set ys" using free_list_nonzero [OF fl] bs by auto
  have dis: "distinct (?h # pre)" using free_list_addresses(1) [OF fl] bs by auto
  have found: "\<exists>hp t bs'. Some (apfst Some (allocate_block (Whsize_wosize wo) (last (?h # l)) c u)) =
      Some (Some hp, t) \<and> allocated wo bs hp s t bs' \<and> (\<exists>b \<in> set bs. wo \<le> Wosize_val ?m b)"
    if a: "bs = l @ c # r" "wo \<le> Wosize_val ?m c" "u = s \<or> u = s\<lparr>fl_last := x\<rparr>" for l c r u x
  proof -
    obtain hp t where t: "allocate_block (Whsize_wosize wo) (last (?h # l)) c u = (hp, t)" by fastforce
    have u: "free_list u (l @ c # r)" "mem u = ?m" "Fl_head u = ?h" using fl a free_list_mono by auto
    obtain bs' where "allocated wo (l @ c # r) hp u t bs'"
      using allocate_block_allocated [OF u(1), of wo hp t] a(2) u(2,3) t by auto
    then have "allocated wo bs hp s t bs'" using a(1) u by (simp add: allocated_def)
    then show ?thesis using t a(1,2) by auto
  qed
  from search_end_correct [OF ch(2) nz, of wo] show ?thesis
  proof (elim disjE exE conjE)
    fix p2 c post assume a: "ys = p2 @ c # post" "wo \<le> Wosize_val ?m c"
      "search_end ?m wo (fl_prev s) = Some (Inl (last (fl_prev s # p2), c))"
    have "last (fl_prev s # p2) = last (?h # pre @ p2)" by (simp add: prev)
    then have "fl_allocate wo s = Some (apfst Some (allocate_block (Whsize_wosize wo) (last (?h # pre @ p2)) c s))"
      unfolding fl_allocate_def a(3) by (simp only: option.case sum.case prod.case)
    moreover have "bs = (pre @ p2) @ c # post" using a(1) bs by simp
    ultimately show ?thesis using found [OF _ a(2), of "pre @ p2" post s] by (intro disjI1) (simp only: simp_thms)
  next
    assume none: "\<forall>b \<in> set ys. \<not> wo \<le> Wosize_val ?m b"
      and e: "search_end ?m wo (fl_prev s) = Some (Inr (last (fl_prev s # ys)))"
    have l: "last (fl_prev s # ys) = last (?h # bs)" by (simp add: prev bs)
    let ?u = "s\<lparr>fl_last := last (?h # bs)\<rparr>"
    have sel: "mem ?u = ?m" "fl_prev ?u = fl_prev s" "Fl_head ?u = ?h" by simp_all
    from search_start_correct [OF ch(1) dis, of wo] show ?thesis
    proof (elim disjE exE conjE)
      fix p1 c post assume a: "pre = p1 @ c # post" "wo \<le> Wosize_val ?m c"
        "search_start ?m wo (last (?h # pre)) ?h = Some (Some (last (?h # p1), c))"
      have "fl_allocate wo s = Some (apfst Some (allocate_block (Whsize_wosize wo) (last (?h # p1)) c ?u))"
        using a(3) unfolding fl_allocate_def e l Let_def by (simp only: option.case sum.case prod.case sel flip: prev)
      moreover have "bs = p1 @ c # (post @ ys)" using a(1) bs by simp
      ultimately show ?thesis using found [OF _ a(2), of p1 "post @ ys" ?u "last (?h # bs)"]
        by (intro disjI1) (simp only: simp_thms)
    next
      assume "\<forall>b \<in> set pre. \<not> wo \<le> Wosize_val ?m b" "search_start ?m wo (last (?h # pre)) ?h = Some None"
      moreover from this(2) have "fl_allocate wo s = Some (None, s\<lparr>fl_last := last (?h # bs)\<rparr>)"
        unfolding fl_allocate_def e l Let_def by (simp only: option.case sum.case prod.case sel flip: prev)
      ultimately show ?thesis using none bs by auto
    qed
  qed
qed

subsection \<open>Adding and growing blocks\<close>

definition fl_struct :: "mem \<Rightarrow> addr \<Rightarrow> addr list \<Rightarrow> bool" where
  "fl_struct m h bs \<longleftrightarrow> chain m h bs \<and> blocks_ok m 0 bs \<and> sentinel_ok m h bs"

lemma free_list_struct:
  "free_list s bs \<longleftrightarrow> fl_struct (mem s) (Fl_head s) bs \<and> fl_prev s \<in> set (Fl_head s # bs) \<and>
     fl_merge s \<in> set (Fl_head s # bs) \<and> fl_cur_size s = fl_words (mem s) bs"
  by (auto simp: free_list_def fl_struct_def)

lemma chain_insert:
  assumes "chain m h (pre @ post)" and dis: "distinct (h # pre @ post)" and new: "bp \<notin> set (h # pre @ post)"
    and p: "p = last (h # pre)" and m': "m' p = bp" "m' bp = m p" "\<And>a. a \<in> set (h # pre @ post) \<Longrightarrow> a \<noteq> p \<Longrightarrow> m' a = m a"
  shows "chain m' h (pre @ bp # post)"
proof -
  have p_in: "p \<in> set (h # pre)" unfolding p by (rule last_in_set) simp
  have np: "p \<notin> set post" using p_in dis by auto
  have ch: "seg m h pre" "chain m p post" using assms(1) p by (simp_all only: chain_append)
  have "\<And>a. a \<in> set post \<Longrightarrow> m' a = m a" using m'(3) np by (metis Un_iff insert_iff list.set(2) set_append)
  then have "chain m' bp post" by (rule chain_moved [of m p post m' bp, OF ch(2) m'(2)])
  then have "chain m' p (bp # post)" using m'(1) by (simp add: Next_def)
  moreover have "p \<notin> set (butlast (h # pre))" unfolding p using dis by (intro last_notin_butlast) auto
  then have "\<And>a. a \<in> set (butlast (h # pre)) \<Longrightarrow> m' a = m a"
    using m'(3) in_set_butlastD [of _ "h # pre"] by (metis Un_iff append_Cons set_append)
  then have "seg m' h pre" using ch(1) seg_frame [of h pre m' m] by blast
  ultimately show ?thesis using p by (simp only: chain_append)
qed

text \<open>The words of a region \<open>bp\<close> that lies between the blocks \<open>pre\<close> and \<open>post\<close>.\<close>

definition between :: "mem \<Rightarrow> addr \<Rightarrow> addr list \<Rightarrow> addr \<Rightarrow> nat \<Rightarrow> addr list \<Rightarrow> bool" where
  "between m h pre bp hi post \<longleftrightarrow> fl_end m 0 pre + 4 \<le> unat bp \<and> hi \<le> 2 ^ 32 \<and> blocks_ok m hi post \<and>
     (\<forall>a. unat bp \<le> unat a + 4 \<and> unat a < max (unat bp) hi \<longrightarrow> a \<noteq> h)"

lemma fl_struct_addresses:
  assumes "fl_struct m h bs"
  shows "distinct (h # bs)" and "b \<in> set bs \<Longrightarrow> b - 4 \<notin> set (h # bs)"
proof -
  define s :: "unit rt_scheme" where
    "s = heap_example\<lparr>mem := m, Fl_head := h, fl_prev := h, fl_merge := h, fl_cur_size := fl_words m bs\<rparr>"
  have "free_list s bs" using assms by (simp add: free_list_struct s_def)
  from free_list_addresses(1,2) [OF this] show "distinct (h # bs)" "b \<in> set bs \<Longrightarrow> b - 4 \<notin> set (h # bs)"
    by (simp_all add: s_def)
qed

lemma between_apart:
  assumes st: "fl_struct m h (pre @ post)" and bt: "between m h pre bp hi post"
    and w: "unat bp \<le> unat a + 4" "unat a < max (unat bp) hi" "hi < 2 ^ 32 \<or> post = []" "unat bp \<le> hi"
  shows "a \<notin> set (h # pre @ post)" and "b \<in> set (pre @ post) \<Longrightarrow> a \<noteq> b - 4"
    and "b \<in> set (pre @ post) \<Longrightarrow> a \<notin> extent m b"
proof -
  have ok: "blocks_ok m 0 pre" "blocks_ok m hi post" using st bt by (auto simp: fl_struct_def between_def)
  have ext: "a \<notin> extent m b" if "b \<in> set (pre @ post)" for b
    using that blocks_ok_mem(5) [OF ok(1), of b] blocks_ok_mem(1) [OF ok(2), of b] bt w
    by (auto simp: extent_def between_def)
  then show "b \<in> set (pre @ post) \<Longrightarrow> a \<notin> extent m b" .
  have "\<And>b. b \<in> set (pre @ post) \<Longrightarrow> b \<in> extent m b \<and> b - 4 \<in> extent m b"
    using extent_words st unfolding fl_struct_def by blast
  then show "b \<in> set (pre @ post) \<Longrightarrow> a \<noteq> b - 4" "a \<notin> set (h # pre @ post)" using ext bt w(1,2) by (auto simp: between_def)
qed

lemma struct_insert:
  assumes st: "fl_struct m h (pre @ post)" and bt: "between m h pre bp (blk_hi m' bp) post"
    and p: "p = last (h # pre)"
    and m': "m' p = bp" "m' bp = m p" "\<And>a. a \<notin> {p, bp, bp - 4} \<Longrightarrow> m' a = m a"
    and bp: "1 \<le> Wosize_val m' bp" "Color_hd (Hd_val m' bp) = Caml_blue"
  shows "fl_struct m' h (pre @ bp # post)" and "\<And>b. b \<in> set (pre @ post) \<Longrightarrow> m' (b - 4) = m (b - 4)"
proof -
  note ad = fl_struct_addresses [OF st]
  have hi: "4 \<le> unat bp" "unat bp + 4 \<le> blk_hi m' bp"
    using bt bp(1) by (auto simp: between_def blk_hi_def word_le_nat_alt)
  have post: "blk_hi m' bp < 2 ^ 32 \<or> post = []"
    using bt blocks_ok_mem(1) [of m "blk_hi m' bp" post "hd post"] unat_lt_pow [of "hd post"]
    by (cases post) (auto simp: between_def)
  note ap1 = between_apart [OF st bt, of bp, OF _ _ post]
  note ap2 = between_apart [OF st bt, of "bp - 4", OF _ _ post]
  have n1: "bp \<notin> set (h # pre @ post)" "\<And>b. b \<in> set (pre @ post) \<Longrightarrow> bp \<noteq> b - 4" using ap1 hi by auto
  have n2: "bp - 4 \<notin> set (h # pre @ post)" "\<And>b. b \<in> set (pre @ post) \<Longrightarrow> bp - 4 \<noteq> b - 4"
    using ap2 hi unat_hdr [OF hi(1)] by auto
  have p_in: "p \<in> set (h # pre)" unfolding p by (rule last_in_set) simp
  show hdr: "m' (b - 4) = m (b - 4)" if "b \<in> set (pre @ post)" for b
    using that n1(2) n2(2) ad(2) [OF that] p_in by (intro m'(3)) auto
  note fr = hdr_frame [of "pre @ post" m' m, OF hdr]
  note fpre = hdr_frame [of pre m' m, OF hdr, simplified]
  note fpost = hdr_frame [of post m' m, OF hdr, simplified]
  have "blocks_ok m' 0 (pre @ bp # post)"
    using st bt bp by (auto simp: fl_struct_def between_def fpre fpost)
  moreover have "m' a = m a" if "a \<in> set (h # pre @ post)" "a \<noteq> p" for a
  proof (rule m'(3))
    have "a \<noteq> bp" "a \<noteq> bp - 4" using that(1) n1(1) n2(1) by metis+
    then show "a \<notin> {p, bp, bp - 4}" using that(2) by simp
  qed
  then have "chain m' h (pre @ bp # post)"
    using chain_insert [of m h pre post bp p m', OF _ ad(1) n1(1) p m'(1,2)] st unfolding fl_struct_def by blast
  moreover have "\<forall>b \<in> set (pre @ post). h \<notin> extent m' b"
    using st fr(4) by (auto simp: fl_struct_def sentinel_ok_def)
  moreover have "h \<notin> extent m' bp" using bt by (auto simp: between_def extent_def)
  ultimately show "fl_struct m' h (pre @ bp # post)" using st by (auto simp: fl_struct_def sentinel_ok_def)
qed

lemma blocks_sorted: "blocks_ok m l bs \<Longrightarrow> sorted_wrt (<) bs"
proof (induction bs arbitrary: l)
  case (Cons b bs)
  then have "\<forall>c \<in> set bs. b < c"
    using blocks_ok_mem(1) [of m "blk_hi m b" bs] blk_hi_ge [of b m] by (fastforce simp: word_less_nat_alt)
  then show ?case using Cons by auto
qed simp

lemma search_place_correct:
  assumes "chain m p bs" and "0 \<notin> set bs"
  shows "search_place m bp p = (let q = last (p # takeWhile (\<lambda>b. b < bp) bs) in Some (q, Next m q))"
  using assms
proof (induction bs arbitrary: p)
  case Nil
  then show ?case by (simp add: search_place.simps [of m bp p])
next
  case (Cons b bs)
  then have "search_place m bp p = (if b < bp then search_place m bp b else Some (p, b))"
    by (subst search_place.simps) auto
  then show ?case using Cons by (auto simp: Let_def)
qed

lemma fl_end_last: "fl_end m l bs = (if bs = [] then l else blk_hi m (last bs))"
  by (induction bs arbitrary: l) auto

text \<open>The place of a new block among the sorted free blocks.\<close>

lemma place_between:
  assumes st: "fl_struct m h bs" and bp: "4 \<le> unat bp" "blk_hi m bp \<le> 2 ^ 32" "h \<notin> extent m bp" "1 \<le> Wosize_val m bp"
    and apart: "\<forall>b \<in> set bs. blk_hi m b + 4 \<le> unat bp \<or> blk_hi m bp + 4 \<le> unat b"
    and pre: "pre = takeWhile (\<lambda>b. b < bp) bs" and post: "post = dropWhile (\<lambda>b. b < bp) bs"
  shows "between m h pre bp (blk_hi m bp) post"
proof -
  have bs: "bs = pre @ post" using pre post by simp
  have hi: "unat bp \<le> blk_hi m bp" by (rule blk_hi_ge)
  have "blk_hi m b + 4 \<le> unat bp" if "b \<in> set pre" for b
  proof -
    have "unat b < unat bp" using set_takeWhileD [of b "\<lambda>b. b < bp" bs] that pre by (simp add: word_less_nat_alt)
    moreover have "b \<in> set bs" using that bs by simp
    ultimately show ?thesis using apart hi by (meson le_trans not_less trans_le_add1)
  qed
  then have "fl_end m 0 pre + 4 \<le> unat bp" using bp(1) by (simp add: fl_end_last)
  moreover have "blocks_ok m (blk_hi m bp) post"
  proof (cases post)
    case (Cons c cs)
    then have "\<not> c < bp" using hd_dropWhile [of "\<lambda>b. b < bp" bs] post by auto
    then have "unat bp \<le> unat c" by (simp add: word_less_nat_alt)
    moreover have "c \<in> set bs" using bs Cons by simp
    ultimately have "blk_hi m bp + 4 \<le> unat c" using apart blk_hi_ge [of c m] by force
    moreover have "blocks_ok m (fl_end m 0 pre) (c # cs)" using st bs Cons by (auto simp: fl_struct_def)
    ultimately show ?thesis using Cons by simp
  qed simp
  moreover have "a \<noteq> h" if "unat bp \<le> unat a + 4" "unat a < max (unat bp) (blk_hi m bp)" for a
    using that bp(3) hi by (auto simp: extent_def)
  ultimately show ?thesis using bp(2) by (auto simp: between_def)
qed

lemma fl_add_block_correct:
  assumes fl: "free_list s bs" and last: "fl_last s = last (Fl_head s # bs)"
    and bp: "4 \<le> unat bp" "blk_hi (mem s) bp \<le> 2 ^ 32" "Fl_head s \<notin> extent (mem s) bp"
      "1 \<le> Wosize_val (mem s) bp" "Color_hd (Hd_val (mem s) bp) = Caml_blue"
    and apart: "\<forall>b \<in> set bs. blk_hi (mem s) b + 4 \<le> unat bp \<or> blk_hi (mem s) bp + 4 \<le> unat b"
  shows "\<exists>t pre post. fl_add_block bp s = Some t \<and> bs = pre @ post \<and> free_list t (pre @ bp # post) \<and>
    (\<forall>a. a \<notin> {bp, List.last (Fl_head s # pre)} \<longrightarrow> mem t a = mem s a)"
proof -
  let ?m = "mem s" and ?h = "Fl_head s"
  define pre post where "pre = takeWhile (\<lambda>b. b < bp) bs" and "post = dropWhile (\<lambda>b. b < bp) bs"
  define p where "p = List.last (?h # pre)"
  have bs: "bs = pre @ post" by (simp add: pre_def post_def)
  have st: "fl_struct ?m ?h bs" using fl by (simp add: free_list_struct)
  have bt: "between ?m ?h pre bp (blk_hi ?m bp) post"
    by (rule place_between [OF st bp(1-4) apart pre_def post_def])
  define m' where "m' = ?m(bp := ?m p, p := bp)"
  have p_in: "p \<in> set (?h # pre)" unfolding p_def by (rule last_in_set) simp
  have pst: "blk_hi ?m bp < 2 ^ 32 \<or> post = []"
    using bt unat_lt_pow [of "hd post"] by (cases post) (auto simp: between_def)
  have len: "unat bp + 4 \<le> blk_hi ?m bp" using bp(4) by (simp add: blk_hi_def word_le_nat_alt)
  have ap: "bp \<notin> set (?h # pre @ post)" "bp - 4 \<notin> set (?h # pre @ post)"
    using between_apart(1) [OF st [unfolded bs] bt _ _ pst, of bp]
      between_apart(1) [OF st [unfolded bs] bt _ _ pst, of "bp - 4"] len bp(1) unat_hdr [OF bp(1)] by auto
  have np: "p \<noteq> bp" "p \<noteq> bp - 4" using p_in ap by (metis Un_iff append_Cons set_append)+
  have same: "m' (bp - 4) = ?m (bp - 4)" using np by (simp add: m'_def)
  then have eqs: "Hd_val m' bp = Hd_val ?m bp" "Wosize_val m' bp = Wosize_val ?m bp" "blk_hi m' bp = blk_hi ?m bp"
    by (simp_all add: Hd_val_def Wosize_val_def blk_hi_def)
  have ins: "fl_struct m' ?h (pre @ bp # post)" "\<And>b. b \<in> set (pre @ post) \<Longrightarrow> m' (b - 4) = ?m (b - 4)"
    by (rule struct_insert [OF st [unfolded bs] _ p_def, where m' = m' and bp = bp];
        use bt bp np eqs in \<open>simp add: m'_def\<close>)+
  have "fl_words m' (pre @ bp # post) = fl_words ?m (pre @ post) + Whsize_hd (Hd_val ?m bp)"
    using hdr_frame(3) [of "pre @ post" m' ?m, OF ins(2)] eqs(1) by simp
  then have result: "free_list t (pre @ bp # post)"
    if "mem t = m'" "Fl_head t = ?h" "fl_prev t = fl_prev s" "fl_merge t \<in> {fl_merge s, bp}"
      "fl_cur_size t = fl_cur_size s + Whsize_hd (Hd_val ?m bp)" for t :: "'a rt_scheme"
    using that fl ins(1) by (auto simp: free_list_struct bs)
  have frame: "\<forall>a. a \<notin> {bp, p} \<longrightarrow> m' a = ?m a" by (auto simp: m'_def)
  show ?thesis
  proof (cases "fl_last s < bp")
    case True
    have all: "\<forall>b \<in> set bs. b < bp"
    proof (cases "bs = []")
      case False
      then have "List.last bs < bp" "bs = butlast bs @ [List.last bs]" using True last by auto
      moreover have "sorted_wrt (<) bs" using st blocks_sorted by (auto simp: fl_struct_def)
      ultimately show ?thesis
        by (metis (no_types, lifting) Un_iff order_less_trans set_ConsD set_append sorted_wrt_append empty_iff list.set(1) list.set_intros(1))
    qed simp
    then have e: "pre = bs" "post = []" by (simp_all add: pre_def post_def)
    have pl: "fl_last s = p" using last e by (simp add: p_def)
    have "chain ?m ?h (pre @ [])" using st e by (simp add: fl_struct_def)
    then have z: "?m p = 0" unfolding chain_append p_def by (simp add: Next_def)
    let ?t = "s\<lparr>fl_cur_size := fl_cur_size s + Whsize_hd (Hd_val ?m bp), mem := m'\<rparr>"
    have "fl_add_block bp s = Some ?t"
      using True np z pl by (simp add: fl_add_block_def Let_def fl_access m'_def fun_upd_twist)
    moreover have "free_list ?t (pre @ bp # post)" by (rule result) simp_all
    ultimately show ?thesis using bs frame by (intro exI conjI) (assumption | simp add: p_def)+
  next
    case False
    let ?mg = "if p = fl_merge s \<and> bp \<le> gc_sweep_hp s then bp else fl_merge s"
    let ?t = "s\<lparr>fl_cur_size := fl_cur_size s + Whsize_hd (Hd_val ?m bp), mem := m', fl_merge := ?mg\<rparr>"
    have "search_place ?m bp ?h = Some (p, ?m p)"
      using search_place_correct [of ?m ?h bs bp] st free_list_nonzero [OF fl]
      by (simp add: fl_struct_def Let_def p_def pre_def Next_def)
    then have "fl_add_block bp s = Some ?t"
      using False by (simp add: fl_add_block_def Let_def fl_access m'_def)
    moreover have "free_list ?t (pre @ bp # post)" by (rule result) simp_all
    ultimately show ?thesis using bs frame by (intro exI conjI) (assumption | simp add: p_def)+
  qed
qed

subsection \<open>Merging a swept block\<close>

definition free_words :: "mem \<Rightarrow> addr list \<Rightarrow> addr set" where
  "free_words m bs = (\<Union>b \<in> set bs. extent m b)"

lemma free_words_simps [simp]:
  "free_words m [] = {}" "free_words m (b # bs) = extent m b \<union> free_words m bs"
  "free_words m (xs @ ys) = free_words m xs \<union> free_words m ys"
  by (auto simp: free_words_def)

lemma free_words_frame:
  "(\<And>b. b \<in> set bs \<Longrightarrow> m' (b - 4) = m (b - 4)) \<Longrightarrow> free_words m' bs = free_words m bs"
  unfolding free_words_def by (intro SUP_cong refl hdr_frame(4)) auto

lemma word_end:
  assumes "blk_hi m b < 2 ^ 32"
  shows "b + Bosize_hd (Hd_val m b) = word_of_nat (blk_hi m b)"
    and "unat (b + Bosize_hd (Hd_val m b)) = blk_hi m b"
proof -
  show e: "b + Bosize_hd (Hd_val m b) = word_of_nat (blk_hi m b)"
    by (simp add: blk_hi_def Bosize_hd_def Bsize_wsize_def Wosize_val_def mult.commute)
  show "unat (b + Bosize_hd (Hd_val m b)) = blk_hi m b"
    unfolding e using assms by (intro unat_word_of_nat_small) simp
qed

lemma adjacent_iff:
  assumes "blk_hi m b + 4 < 2 ^ 32" and "4 \<le> unat c"
  shows "b + Bosize_hd (Hd_val m b) = Hp_val c \<longleftrightarrow> blk_hi m b + 4 = unat c"
proof -
  have "unat (b + Bosize_hd (Hd_val m b)) = blk_hi m b" using assms(1) by (intro word_end) simp
  then show ?thesis using unat_hdr [OF assms(2)] assms(2) by (auto simp: Hp_val_def word_unat_eq_iff)
qed

lemma blue_header:
  assumes "w \<le> 4194303" and "m (b - 4) = Make_header (word_of_nat w) 0 Caml_blue"
  shows "Wosize_val m b = word_of_nat w" "unat (Wosize_val m b) = w" "Color_hd (Hd_val m b) = Caml_blue"
    "blk_hi m b = unat b + 4 * w"
proof -
  have u: "unat (word_of_nat w :: uint32) = w" using assms(1) by (intro unat_word_of_nat_small) simp
  then have "header_ok (word_of_nat w) 0 Caml_blue"
    using assms(1) by (simp add: header_ok_def Max_wosize_def word_le_nat_alt)
  from Make_header_fields [OF this] u show "Wosize_val m b = word_of_nat w" "unat (Wosize_val m b) = w"
    "Color_hd (Hd_val m b) = Caml_blue" "blk_hi m b = unat b + 4 * w"
    using assms(2) by (simp_all add: Wosize_val_def Hd_val_def blk_hi_def)
qed

text \<open>Writing the header of a region outside the list leaves the list alone.\<close>

lemma struct_outside:
  assumes st: "fl_struct m h bs" and w: "w \<notin> set (h # bs)" "\<And>b. b \<in> set bs \<Longrightarrow> w \<noteq> b - 4"
  shows "fl_struct (m(w := x)) h bs"
proof -
  have hdr: "\<And>b. b \<in> set bs \<Longrightarrow> (m(w := x)) (b - 4) = m (b - 4)" using w(2) by auto
  note fr = hdr_frame [of bs "m(w := x)" m, OF hdr]
  have "chain (m(w := x)) h bs = chain m h bs" using w(1) by (intro chain_frame) auto
  then show ?thesis using st fr(1,4) by (auto simp: fl_struct_def sentinel_ok_def)
qed

text \<open>The block \<open>c\<close> grows up to \<open>hi\<close>.\<close>

lemma struct_grow:
  assumes st: "fl_struct m h (pre @ c # post)" and bt: "between m h pre c (unat c + 4 * w) post"
    and w: "1 \<le> w" "w \<le> 4194303"
  shows "fl_struct (m(c - 4 := Make_header (word_of_nat w) 0 Caml_blue)) h (pre @ c # post)"
    and "\<And>b. b \<in> set (pre @ post) \<Longrightarrow> (m(c - 4 := x)) (b - 4) = m (b - 4)"
proof -
  let ?m = "m(c - 4 := Make_header (word_of_nat w) 0 Caml_blue)"
  note ad = fl_struct_addresses [OF st]
  note b = blue_header [of w ?m c, OF w(2)]
  have bw: "unat (Wosize_val ?m c) = w" "Color_hd (Hd_val ?m c) = Caml_blue" "blk_hi ?m c = unat c + 4 * w"
    using b by simp_all
  have hdr: "\<And>x b. b \<in> set (pre @ post) \<Longrightarrow> (m(c - 4 := x)) (b - 4) = m (b - 4)" using ad(1) by auto
  then show "\<And>b. b \<in> set (pre @ post) \<Longrightarrow> (m(c - 4 := x)) (b - 4) = m (b - 4)" .
  note fr = hdr_frame [of "pre @ post" ?m m, OF hdr]
  note fpre = hdr_frame [of pre ?m m, OF hdr, simplified]
  note fpost = hdr_frame [of post ?m m, OF hdr, simplified]
  have "blocks_ok ?m 0 (pre @ c # post)"
    using st bt bw w(1) by (auto simp: fl_struct_def between_def fpre fpost word_le_nat_alt)
  moreover have "chain ?m h (pre @ c # post) = chain m h (pre @ c # post)"
    using ad(2) [of c] by (intro chain_frame) auto
  moreover have "\<forall>b \<in> set (pre @ post). h \<notin> extent ?m b"
    using st fr(4) by (auto simp: fl_struct_def sentinel_ok_def)
  moreover have "h \<notin> extent ?m c" using bt bw by (auto simp: between_def extent_def)
  ultimately show "fl_struct ?m h (pre @ c # post)" using st by (auto simp: fl_struct_def sentinel_ok_def)
qed

lemma between_shrink: "between m h pre bp hi post \<Longrightarrow> blocks_ok m hi' post' \<Longrightarrow> hi' \<le> hi \<Longrightarrow> between m h pre bp hi' post'"
  by (auto simp: between_def)

lemma between_frame:
  assumes "\<And>b. b \<in> set (pre @ post) \<Longrightarrow> m' (b - 4) = m (b - 4)"
  shows "between m' h pre bp hi post = between m h pre bp hi post"
  using hdr_frame(1) [of post m' m] hdr_frame(2) [of pre m' m] assms by (simp add: between_def)

text \<open>A region with its header at \<open>bp - 4\<close> that lies between the blocks \<open>pre\<close> and \<open>post\<close> of the list.\<close>

definition swept :: "mem \<Rightarrow> addr \<Rightarrow> addr list \<Rightarrow> addr \<Rightarrow> addr list \<Rightarrow> bool" where
  "swept m h pre bp post \<longleftrightarrow> fl_struct m h (pre @ post) \<and> between m h pre bp (blk_hi m bp) post"

lemma swept_apart:
  assumes "swept m h pre bp post"
  shows "bp - 4 \<notin> set (h # pre @ post)" "\<And>b. b \<in> set (pre @ post) \<Longrightarrow> bp - 4 \<noteq> b - 4" "4 \<le> unat bp"
proof -
  have st: "fl_struct m h (pre @ post)" and bt: "between m h pre bp (blk_hi m bp) post" using assms by (auto simp: swept_def)
  show u: "4 \<le> unat bp" using bt by (simp add: between_def)
  have post: "blk_hi m bp < 2 ^ 32 \<or> post = []"
    using bt unat_lt_pow [of "hd post"] by (cases post) (auto simp: between_def)
  note ap = between_apart [OF st bt _ _ post, of "bp - 4"]
  show "bp - 4 \<notin> set (h # pre @ post)" "\<And>b. b \<in> set (pre @ post) \<Longrightarrow> bp - 4 \<noteq> b - 4"
    using ap u unat_hdr [OF u] blk_hi_ge [of bp m] by auto
qed

lemma white_header:
  assumes "w \<le> 4194303" and "m (b - 4) = Make_header (word_of_nat w) 0 Caml_white"
  shows "unat (Wosize_val m b) = w" "blk_hi m b = unat b + 4 * w" "Whsize_hd (Hd_val m b) = word_of_nat w + 1"
proof -
  have u: "unat (word_of_nat w :: uint32) = w" using assms(1) by (intro unat_word_of_nat_small) simp
  then have "header_ok (word_of_nat w) 0 Caml_white"
    using assms(1) by (simp add: header_ok_def Max_wosize_def word_le_nat_alt)
  from Make_header_fields(1) [OF this] u show "unat (Wosize_val m b) = w" "blk_hi m b = unat b + 4 * w"
    "Whsize_hd (Hd_val m b) = word_of_nat w + 1"
    using assms(2) by (simp_all add: Wosize_val_def Hd_val_def blk_hi_def Whsize_hd_def Whsize_wosize_def)
qed

definition same_lists :: "'a rt_scheme \<Rightarrow> 'a rt_scheme \<Rightarrow> bool" where
  "same_lists s t \<longleftrightarrow> Fl_head t = Fl_head s \<and> fl_merge t = fl_merge s \<and> last_fragment t = last_fragment s \<and>
     fl_last t = fl_last s"

lemma merge_fragment_step:
  assumes sw: "swept (mem s) h pre bp post"
    and fr: "last_fragment s = bp - 4 \<longrightarrow>
      between (mem s) h pre (bp - 4) (blk_hi (mem s) bp) post \<and> unat (Wosize_val (mem s) bp) < 4194303"
    and t: "merge_fragment bp s = (bp', h', t)"
  shows "swept (mem t) h pre bp' post" "h' = Hd_val (mem t) bp'" "bp' = (if last_fragment s = bp - 4 then bp - 4 else bp)"
    "blk_hi (mem t) bp' = blk_hi (mem s) bp" "\<And>b. b \<in> set (pre @ post) \<Longrightarrow> mem t (b - 4) = mem s (b - 4)"
    "\<And>a. a \<noteq> bp' - 4 \<Longrightarrow> mem t a = mem s a" "fl_cur_size t = fl_cur_size s + Whsize_hd h'"
    "same_lists s t \<and> fl_prev t = fl_prev s"
proof -
  let ?m = "mem s" and ?W = "unat (Wosize_val (mem s) bp)"
  have "swept (mem t) h pre bp' post \<and> h' = Hd_val (mem t) bp' \<and> bp' = (if last_fragment s = bp - 4 then bp - 4 else bp) \<and>
    blk_hi (mem t) bp' = blk_hi ?m bp \<and> (\<forall>b \<in> set (pre @ post). mem t (b - 4) = ?m (b - 4)) \<and>
    (\<forall>a. a \<noteq> bp' - 4 \<longrightarrow> mem t a = ?m a) \<and> fl_cur_size t = fl_cur_size s + Whsize_hd h' \<and>
    same_lists s t \<and> fl_prev t = fl_prev s"
  proof (cases "last_fragment s = bp - 4")
    case False
    then show ?thesis using t sw by (auto simp: merge_fragment_def Let_def Hp_val_def Hd_val_def same_lists_def)
  next
    case True
    have st: "fl_struct ?m h (pre @ post)" using sw by (simp add: swept_def)
    have bt: "between ?m h pre (bp - 4) (blk_hi ?m bp) post" and w: "?W + 1 \<le> 4194303" using fr True by auto
    have b4: "4 \<le> unat (bp - 4)" and bp4: "4 \<le> unat bp" using bt sw by (auto simp: between_def swept_def)
    have post: "blk_hi ?m bp < 2 ^ 32 \<or> post = []"
      using bt unat_lt_pow [of "hd post"] by (cases post) (auto simp: between_def)
    have lo: "unat (bp - 4) = unat bp - 4" "unat (bp - 4 - 4) = unat bp - 8" using unat_hdr [OF bp4] unat_hdr [OF b4] by auto
    have ap: "bp - 4 - 4 \<notin> set (h # pre @ post)" "\<And>b. b \<in> set (pre @ post) \<Longrightarrow> bp - 4 - 4 \<noteq> b - 4"
      using between_apart(1,2) [OF st bt _ _ post, of "bp - 4 - 4"] lo b4 bp4 blk_hi_ge [of bp ?m] by auto
    have whs: "Whsize_hd (Hd_val ?m bp) = word_of_nat (?W + 1)"
      by (simp add: Whsize_hd_def Whsize_wosize_def Wosize_val_def add.commute)
    have tf: "bp' = bp - 4" "mem t = ?m(bp - 4 - 4 := Make_header (word_of_nat (?W + 1)) 0 Caml_white)"
      "h' = mem t (bp - 4 - 4)" "fl_cur_size t = fl_cur_size s + Whsize_hd (Hd_val ?m bp) + 1"
      "same_lists s t \<and> fl_prev t = fl_prev s"
      using t by (auto simp: merge_fragment_def Let_def Hp_val_def set_Hd_val_def whs True same_lists_def Whsize_wosize_def)
    have mt: "mem t (bp' - 4) = Make_header (word_of_nat (?W + 1)) 0 Caml_white" by (simp add: tf)
    note wh = white_header [of "?W + 1" "mem t" bp', OF w mt]
    have hdr: "mem t (b - 4) = ?m (b - 4)" if "b \<in> set (pre @ post)" for b using ap(2) [OF that] by (simp add: tf)
    have "unat bp' + 4 * (?W + 1) = unat bp + 4 * ?W" using lo(1) bp4 by (simp add: tf(1))
    then have hi: "blk_hi (mem t) bp' = blk_hi ?m bp" using wh(2) by (simp add: blk_hi_def)
    have "fl_struct (mem t) h (pre @ post)" unfolding tf(2) by (rule struct_outside [OF st ap])
    moreover have "between (mem t) h pre bp' (blk_hi ?m bp) post = between ?m h pre bp' (blk_hi ?m bp) post"
      by (rule between_frame) (rule hdr)
    ultimately have "swept (mem t) h pre bp' post" using bt hi tf(1) by (simp add: swept_def)
    moreover have hd': "h' = Hd_val (mem t) bp'" by (simp add: tf(1,3) Hd_val_def)
    moreover have "fl_cur_size t = fl_cur_size s + Whsize_hd h'"
      using wh(3) unfolding hd' tf(4) whs by simp
    ultimately show ?thesis using True hi hdr tf(1,5) by (auto simp: tf(2))
  qed
  then show "swept (mem t) h pre bp' post" "h' = Hd_val (mem t) bp'" "bp' = (if last_fragment s = bp - 4 then bp - 4 else bp)"
    "blk_hi (mem t) bp' = blk_hi ?m bp" "\<And>b. b \<in> set (pre @ post) \<Longrightarrow> mem t (b - 4) = ?m (b - 4)"
    "\<And>a. a \<noteq> bp' - 4 \<Longrightarrow> mem t a = ?m a" "fl_cur_size t = fl_cur_size s + Whsize_hd h'"
    "same_lists s t \<and> fl_prev t = fl_prev s" by blast+
qed

lemma merge_next_step:
  assumes sw: "swept (mem s) h pre bp post" and hi: "blk_hi (mem s) bp + 4 < 2 ^ 32" and p: "p = last (h # pre)"
    and room: "post \<noteq> [] \<and> blk_hi (mem s) bp + 4 = unat (hd post) \<longrightarrow>
      unat (Wosize_val (mem s) bp) + unat (Wosize_val (mem s) (hd post)) + 1 \<le> 4194303"
    and t: "merge_next bp (Hd_val (mem s) bp) p (Next (mem s) p) s = (h', adj, cur, t)"
  shows "\<exists>post'. swept (mem t) h pre bp post' \<and> h' = Hd_val (mem t) bp \<and> cur = Next (mem t) p \<and>
    adj = word_of_nat (blk_hi (mem t) bp) \<and> set post' \<subseteq> set post \<and>
    fl_words (mem t) (pre @ post') + Whsize_hd h' = fl_words (mem s) (pre @ post) + Whsize_hd (Hd_val (mem s) bp) \<and>
    (\<forall>b \<in> set (pre @ post'). mem t (b - 4) = mem s (b - 4)) \<and>
    (\<forall>a. a \<noteq> p \<and> a \<noteq> bp - 4 \<longrightarrow> mem t a = mem s a) \<and>
    free_words (mem t) post' \<union> extent (mem t) bp = free_words (mem s) post \<union> extent (mem s) bp \<and>
    (fl_prev s \<in> set (h # pre @ post) \<longrightarrow> fl_prev t \<in> set (h # pre @ post')) \<and>
    same_lists s t \<and> fl_cur_size t = fl_cur_size s \<and> blk_hi (mem s) bp \<le> blk_hi (mem t) bp \<and>
    unat (Wosize_val (mem t) bp) \<le> unat (Wosize_val (mem s) bp) +
      (if post = [] then 0 else unat (Wosize_val (mem s) (hd post)) + 1)"
proof -
  let ?m = "mem s" and ?W = "unat (Wosize_val (mem s) bp)"
  have st: "fl_struct ?m h (pre @ post)" and bt: "between ?m h pre bp (blk_hi ?m bp) post" using sw by (auto simp: swept_def)
  note ad = fl_struct_addresses [OF st] and ap = swept_apart [OF sw]
  have chp: "chain ?m p post" using st p unfolding fl_struct_def chain_append by simp
  show ?thesis
  proof (cases "post \<noteq> [] \<and> blk_hi ?m bp + 4 = unat (hd post)")
    case False
    have "bp + Bosize_hd (Hd_val ?m bp) \<noteq> Hp_val (Next ?m p)"
    proof (cases post)
      case Nil
      have "unat (Hp_val 0) = 2 ^ 32 - 4" by (simp add: Hp_val_def)
      moreover have "unat (bp + Bosize_hd (Hd_val ?m bp)) = blk_hi ?m bp" using hi by (intro word_end) simp
      ultimately have "bp + Bosize_hd (Hd_val ?m bp) \<noteq> Hp_val 0" using hi by (auto simp: word_unat_eq_iff)
      then show ?thesis using Nil chp by simp
    next
      case (Cons c cs)
      then have "4 \<le> unat c" using bt by (simp add: between_def)
      then show ?thesis using adjacent_iff [OF hi, of c] Cons chp False by simp
    qed
    then have "h' = Hd_val ?m bp" "adj = bp + Bosize_hd (Hd_val ?m bp)" "cur = Next ?m p" "t = s"
      using t by (auto simp: merge_next_def Let_def)
    moreover have "bp + Bosize_hd (Hd_val ?m bp) = word_of_nat (blk_hi ?m bp)" using hi by (intro word_end) simp
    ultimately show ?thesis using sw by (intro exI [of _ post]) (simp add: same_lists_def)
  next
    case True
    then obtain c cs where post: "post = c # cs" and adj: "blk_hi ?m bp + 4 = unat c" by (cases post) auto
    let ?Wc = "unat (Wosize_val ?m c)"
    have c: "Next ?m p = c" using chp post by simp
    have room': "?W + (?Wc + 1) \<le> 4194303" using room adj post by simp
    have okc: "blk_hi ?m c \<le> 2 ^ 32" "blocks_ok ?m (blk_hi ?m c) cs" using bt post by (auto simp: between_def)
    have "4 \<le> unat c" using adj by simp
    then have test: "bp + Bosize_hd (Hd_val ?m bp) = Hp_val c" using adjacent_iff [OF hi, of c] adj by simp
    have sz: "Wosize_hd (Hd_val ?m bp) + Whsize_hd (Hd_val ?m c) = word_of_nat (?W + (?Wc + 1))"
      by (simp add: Wosize_val_def Whsize_hd_def Whsize_wosize_def algebra_simps)
    define m' where "m' = ?m(p := ?m c, bp - 4 := Make_header (word_of_nat (?W + (?Wc + 1))) 0 Caml_blue)"
    let ?H = "Make_header (word_of_nat (?W + (?Wc + 1))) 0 Caml_blue"
    have "merge_next bp (Hd_val ?m bp) p c s =
        (?H, bp + Bosize_hd ?H, ?m c, s\<lparr>mem := m', fl_prev := (if fl_prev s = c then p else fl_prev s)\<rparr>)"
      unfolding merge_next_def Let_def if_P [OF test] sz by (simp add: fl_access m'_def)
    then have tf: "h' = Make_header (word_of_nat (?W + (?Wc + 1))) 0 Caml_blue" "adj = bp + Bosize_hd h'" "cur = ?m c" "mem t = m'"
      "fl_prev t = (if fl_prev s = c then p else fl_prev s)" "same_lists s t \<and> fl_cur_size t = fl_cur_size s"
      using t by (auto simp: c same_lists_def)
    have p_in: "p \<in> set (h # pre)" unfolding p by (rule last_in_set) simp
    have neq: "p \<noteq> bp - 4" using p_in ap(1) by (metis Un_iff append_Cons set_append)
    note bh = blue_header [of "?W + (?Wc + 1)" m' bp, OF room']
    have mb: "m' (bp - 4) = Make_header (word_of_nat (?W + (?Wc + 1))) 0 Caml_blue" by (simp add: m'_def)
    have hi': "blk_hi m' bp = blk_hi ?m c" using bh(4) [OF mb] adj by (simp add: blk_hi_def)
    have hdr: "m' (b - 4) = ?m (b - 4)" if "b \<in> set (pre @ cs)" for b
    proof -
      have b: "b \<in> set (pre @ post)" using that post by auto
      have "b - 4 \<noteq> p" using ad(2) [OF b] p_in by auto
      then show ?thesis using ap(2) [OF b] by (simp add: m'_def)
    qed
    have "fl_struct m' h (pre @ cs)"
    proof -
      have "chain m' h (pre @ cs)"
        unfolding m'_def using st ad(1) ap(1) post p by (intro chain_remove) (auto simp: fl_struct_def)
      moreover have "blocks_ok ?m 0 (pre @ cs)"
        using st post blk_hi_ge [of c ?m] by (auto simp: fl_struct_def elim!: blocks_ok_mono)
      moreover have "sentinel_ok m' h (pre @ cs)"
        using st post hdr_frame(4) [of "pre @ cs" m' ?m, OF hdr] by (auto simp: fl_struct_def sentinel_ok_def)
      ultimately show ?thesis using hdr_frame(1) [of "pre @ cs" m' ?m 0, OF hdr] by (simp add: fl_struct_def)
    qed
    moreover have "between m' h pre bp (blk_hi m' bp) cs"
    proof -
      have "a \<noteq> h" if "unat bp \<le> unat a + 4" "unat a < max (unat bp) (blk_hi ?m c)" for a
      proof (cases "unat a < max (unat bp) (blk_hi ?m bp)")
        case True
        then show ?thesis using that(1) bt by (auto simp: between_def)
      next
        case False
        then have "a \<in> extent ?m c" using that adj blk_hi_ge [of bp ?m] by (auto simp: extent_def)
        then show ?thesis using st post by (auto simp: fl_struct_def sentinel_ok_def)
      qed
      moreover have "between m' h pre bp (blk_hi ?m c) cs = between ?m h pre bp (blk_hi ?m c) cs"
        by (rule between_frame) (rule hdr)
      ultimately show ?thesis using bt okc hi' by (auto simp: between_def)
    qed
    ultimately have "swept m' h pre bp cs" by (simp add: swept_def)
    moreover have "Next m' p = ?m c" using neq by (simp add: m'_def Next_def)
    moreover have "h' = Hd_val m' bp" using tf(1) mb by (simp add: Hd_val_def)
    moreover have "adj = word_of_nat (blk_hi m' bp)"
      using bh(1) [OF mb] bh(4) [OF mb] tf(2) \<open>h' = Hd_val m' bp\<close>
      by (simp add: Bosize_hd_def Bsize_wsize_def Wosize_val_def algebra_simps)
    moreover have "fl_words m' (pre @ cs) + Whsize_hd h' = fl_words ?m (pre @ post) + Whsize_hd (Hd_val ?m bp)"
    proof -
      have "Whsize_hd h' = Whsize_hd (Hd_val ?m c) + Whsize_hd (Hd_val ?m bp)"
        using bh(1) [OF mb] \<open>h' = Hd_val m' bp\<close>
        by (simp add: Whsize_hd_def Whsize_wosize_def Wosize_val_def algebra_simps)
      then show ?thesis using hdr_frame(3) [of "pre @ cs" m' ?m, OF hdr] post by simp
    qed
    moreover have "free_words m' cs \<union> extent m' bp = free_words ?m post \<union> extent ?m bp"
    proof -
      have "extent m' bp = extent ?m bp \<union> extent ?m c"
        using hi' adj blk_hi_ge [of bp ?m] blk_hi_ge [of c ?m] by (auto simp: extent_def)
      moreover have "free_words m' cs = free_words ?m cs" using hdr by (intro free_words_frame) auto
      ultimately show ?thesis using post by auto
    qed
    moreover have "\<forall>a. a \<noteq> p \<and> a \<noteq> bp - 4 \<longrightarrow> m' a = ?m a" by (simp add: m'_def)
    moreover have "fl_prev s \<in> set (h # pre @ post) \<longrightarrow> fl_prev t \<in> set (h # pre @ cs)"
      using p_in post tf(5) by auto
    moreover have "blk_hi ?m bp \<le> blk_hi m' bp" using hi' adj blk_hi_ge [of c ?m] by simp
    moreover have "unat (Wosize_val m' bp) \<le> ?W + (?Wc + 1)" using bh(2) [OF mb] by simp
    ultimately show ?thesis using hdr post tf(3,4,6) by (intro exI [of _ cs]) auto
  qed
qed

text \<open>
  After the last step the free list is well-formed again and splits at \<open>fl_merge\<close>: the blocks up
  to it end before \<open>hi\<close>, where the sweep goes on, and the others start after it.
\<close>

definition merged_at :: "'a rt_scheme \<Rightarrow> addr list \<Rightarrow> nat \<Rightarrow> addr list \<Rightarrow> bool" where
  "merged_at t pre hi post \<longleftrightarrow> fl_struct (mem t) (Fl_head t) (pre @ post) \<and> fl_merge t = last (Fl_head t # pre) \<and>
     fl_end (mem t) 0 pre \<le> hi \<and> blocks_ok (mem t) hi post"

lemma merge_link_step:
  assumes sw: "swept (mem s) (Fl_head s) pre bp post" and p: "p = last (Fl_head s # pre)" "fl_merge s = p"
    and sent: "Wosize_val (mem s) (Fl_head s) = 0"
    and room: "pre \<noteq> [] \<and> blk_hi (mem s) (last pre) + 4 = unat bp \<longrightarrow>
      unat (Wosize_val (mem s) (last pre)) + unat (Wosize_val (mem s) bp) + 1 \<le> 4194303"
    and t: "t = merge_link bp (Hd_val (mem s) bp) p (Next (mem s) p) s"
  shows "\<exists>pre'. merged_at t pre' (blk_hi (mem s) bp) post \<and> set pre \<subseteq> set pre' \<and>
    (if last_fragment t = bp \<and> Wosize_val (mem s) bp = 0 \<and> pre' = pre \<and> mem t = mem s
     then fl_cur_size t = fl_cur_size s - 1
     else free_words (mem t) (pre' @ post) = free_words (mem s) (pre @ post) \<union> extent (mem s) bp \<and>
       fl_words (mem t) (pre' @ post) = fl_words (mem s) (pre @ post) + Whsize_hd (Hd_val (mem s) bp) \<and>
       fl_cur_size t = fl_cur_size s) \<and>
    (\<forall>a. a \<noteq> Fl_head s \<and> a \<notin> free_words (mem s) pre \<and> a \<notin> extent (mem s) bp \<longrightarrow> mem t a = mem s a) \<and>
    fl_prev t = fl_prev s"
proof -
  let ?m = "mem s" and ?h = "Fl_head s" and ?W = "unat (Wosize_val (mem s) bp)"
  have st: "fl_struct ?m ?h (pre @ post)" and bt: "between ?m ?h pre bp (blk_hi ?m bp) post" using sw by (auto simp: swept_def)
  note ad = fl_struct_addresses [OF st] and ap = swept_apart [OF sw]
  have endpre: "fl_end ?m 0 pre + 4 \<le> unat bp" "blocks_ok ?m (blk_hi ?m bp) post" "blocks_ok ?m 0 pre"
    using bt st by (auto simp: between_def fl_struct_def)
  have p_in: "p \<in> set (?h # pre)" unfolding p by (rule last_in_set) simp
  consider (prev) c cs where "pre = cs @ [c]" "blk_hi ?m c + 4 = unat bp" | (apart) "p + Bosize_val ?m p \<noteq> Hp_val bp"
  proof (cases "pre = []")
    case True
    then have "p + Bosize_val ?m p = ?h" using p(1) sent by (simp add: Bosize_val_def Bsize_wsize_def)
    then show thesis using ap(1) that(2) by (auto simp: Hp_val_def)
  next
    case False
    then obtain cs c where cs: "pre = cs @ [c]" by (metis append_butlast_last_id)
    have c: "blk_hi ?m c + 4 \<le> unat bp" using endpre(1) cs by simp
    then have "blk_hi ?m c < 2 ^ 32" using unat_lt_pow [of bp] by simp
    then have "unat (c + Bosize_hd (Hd_val ?m c)) = blk_hi ?m c" by (rule word_end)
    moreover have "p = c" using p(1) cs by simp
    moreover have "Bosize_val ?m c = Bosize_hd (Hd_val ?m c)" by (simp add: Bosize_val_def Bosize_hd_def Wosize_val_def)
    ultimately have "p + Bosize_val ?m p = Hp_val bp \<Longrightarrow> blk_hi ?m c + 4 = unat bp"
      using unat_hdr [OF ap(3)] ap(3) by (simp add: Hp_val_def)
    then show thesis using that cs by blast
  qed
  then show ?thesis
  proof cases
    case prev
    let ?Wc = "unat (Wosize_val ?m c)" and ?w = "unat (Wosize_val ?m c) + (?W + 1)"
    have pc: "p = c" using p(1) prev(1) by simp
    have room': "?w \<le> 4194303" using room prev by simp
    have c: "c \<in> set (pre @ post)" using prev(1) by simp
    have "blk_hi ?m c < 2 ^ 32" using prev(2) unat_lt_pow [of bp] by simp
    then have "unat (c + Bosize_hd (Hd_val ?m c)) = blk_hi ?m c" by (rule word_end)
    then have test: "p + Bosize_val ?m p = Hp_val bp"
      using unat_hdr [OF ap(3)] prev(2) pc
      by (intro word_eq_by_unat) (simp add: Bosize_val_def Bosize_hd_def Wosize_val_def Hp_val_def)
    let ?m' = "?m(c - 4 := Make_header (word_of_nat ?w) 0 Caml_blue)"
    have sz: "Wosize_val ?m c + Whsize_hd (Hd_val ?m bp) = word_of_nat ?w"
      by (simp add: Whsize_hd_def Whsize_wosize_def Wosize_val_def algebra_simps)
    have tf: "t = s\<lparr>mem := ?m'\<rparr>"
      unfolding t merge_link_def pc if_P [OF test [unfolded pc]] sz set_Hd_val_def by (rule refl)
    have hi: "unat c + 4 * ?w = blk_hi ?m bp" using prev(2) by (simp add: blk_hi_def algebra_simps)
    have stc: "fl_struct ?m ?h (cs @ c # post)" using st prev(1) by simp
    have btc: "between ?m ?h cs c (unat c + 4 * ?w) post"
    proof -
      have "a \<noteq> ?h" if "unat c \<le> unat a + 4" "unat a < max (unat c) (blk_hi ?m bp)" for a
      proof (cases "unat a < blk_hi ?m c")
        case True
        then have "a \<in> extent ?m c" using that(1) by (simp add: extent_def)
        then show ?thesis using stc by (auto simp: fl_struct_def sentinel_ok_def)
      next
        case False
        then show ?thesis using that(2) bt prev(2) blk_hi_ge [of c ?m] by (auto simp: between_def)
      qed
      then show ?thesis using bt stc hi endpre(2) by (auto simp: between_def fl_struct_def)
    qed
    note g = struct_grow [OF stc btc _ room']
    have m'c: "?m' (c - 4) = Make_header (word_of_nat ?w) 0 Caml_blue" by simp
    note bh = blue_header [of ?w ?m' c, OF room' m'c]
    note fr = g(2) [where x = "Make_header (word_of_nat ?w) 0 Caml_blue"]
    have st': "fl_struct ?m' ?h (pre @ post)" using g(1) prev(1) by simp
    have "fl_end ?m' 0 pre = blk_hi ?m bp" using prev(1) bh(4) hi by simp
    moreover have "blocks_ok ?m' (blk_hi ?m bp) post = blocks_ok ?m (blk_hi ?m bp) post"
      using fr by (intro hdr_frame) auto
    ultimately have "merged_at t pre (blk_hi ?m bp) post"
      using st' p endpre(2) by (simp add: merged_at_def tf)
    moreover have "free_words ?m' (pre @ post) = free_words ?m (pre @ post) \<union> extent ?m bp"
    proof -
      have "extent ?m' c = extent ?m c \<union> extent ?m bp"
        using bh(4) hi prev(2) blk_hi_ge [of bp ?m] blk_hi_ge [of c ?m] by (auto simp: extent_def)
      moreover have "free_words ?m' cs = free_words ?m cs" "free_words ?m' post = free_words ?m post"
        using fr by (intro free_words_frame; auto)+
      ultimately show ?thesis using prev(1) by auto
    qed
    moreover have "fl_words ?m' (pre @ post) = fl_words ?m (pre @ post) + Whsize_hd (Hd_val ?m bp)"
    proof -
      have "fl_words ?m' cs = fl_words ?m cs" "fl_words ?m' post = fl_words ?m post"
        using fr by (intro hdr_frame; auto)+
      moreover have "Whsize_hd (Hd_val ?m' c) = Whsize_hd (Hd_val ?m c) + Whsize_hd (Hd_val ?m bp)"
        using bh(1) by (simp add: Whsize_hd_def Whsize_wosize_def Wosize_val_def algebra_simps)
      ultimately show ?thesis using prev(1) by simp
    qed
    moreover have "c - 4 \<in> free_words ?m pre" using extent_words(2) [OF endpre(3), of c] prev(1) by simp
    moreover have "?m' \<noteq> ?m"
    proof
      assume "?m' = ?m"
      then have "blk_hi ?m' c = blk_hi ?m c" by metis
      then show False using bh(4) by (simp add: blk_hi_def)
    qed
    ultimately show ?thesis by (intro exI [of _ pre]) (auto simp: tf)
  next
    case apart
    show ?thesis
    proof (cases "Wosize_val ?m bp = 0")
      case True
      then have tf: "t = s\<lparr>last_fragment := bp, fl_cur_size := fl_cur_size s - 1\<rparr>"
        using t apart by (simp add: merge_link_def Wosize_val_def Whsize_wosize_def)
      have "merged_at t pre (blk_hi ?m bp) post"
        using st p endpre blk_hi_ge [of bp ?m] by (auto simp: merged_at_def tf)
      then show ?thesis using True by (intro exI [of _ pre]) (simp add: tf)
    next
      case False
      let ?m' = "?m(bp - 4 := Bluehd_hd (Hd_val ?m bp), bp := ?m p, p := bp)"
      have tf: "t = s\<lparr>mem := ?m', fl_merge := bp\<rparr>"
        using t apart False by (simp add: merge_link_def Wosize_val_def fl_access Let_def)
      have W: "1 \<le> ?W" using False by (simp add: word_unat_eq_iff)
      have len: "unat bp + 4 \<le> blk_hi ?m bp" using W by (simp add: blk_hi_def)
      have pst: "blk_hi ?m bp < 2 ^ 32 \<or> post = []"
        using bt unat_lt_pow [of "hd post"] by (cases post) (auto simp: between_def)
      have bp_new: "bp \<notin> set (?h # pre @ post)" using between_apart(1) [OF st bt _ _ pst, of bp] len by simp
      have np: "p \<noteq> bp" "p \<noteq> bp - 4" using p_in bp_new ap(1) by (metis Un_iff append_Cons set_append)+
      then have hd': "Hd_val ?m' bp = Bluehd_hd (Hd_val ?m bp)" by (simp add: Hd_val_def)
      then have eqs: "Wosize_val ?m' bp = Wosize_val ?m bp" "Color_hd (Hd_val ?m' bp) = Caml_blue"
        "blk_hi ?m' bp = blk_hi ?m bp" "Whsize_hd (Hd_val ?m' bp) = Whsize_hd (Hd_val ?m bp)"
        by (simp_all add: Wosize_val_def recolor_fields blk_hi_def Whsize_hd_def)
      have ins: "fl_struct ?m' ?h (pre @ bp # post)" "\<And>b. b \<in> set (pre @ post) \<Longrightarrow> ?m' (b - 4) = ?m (b - 4)"
        by (rule struct_insert [OF st _ p(1), where m' = ?m' and bp = bp];
            use bt np eqs W in \<open>simp add: word_le_nat_alt\<close>)+
      have fr: "fl_end ?m' 0 pre = fl_end ?m 0 pre" "blocks_ok ?m' (blk_hi ?m bp) post = blocks_ok ?m (blk_hi ?m bp) post"
        "fl_words ?m' (pre @ post) = fl_words ?m (pre @ post)" "free_words ?m' (pre @ post) = free_words ?m (pre @ post)"
        using ins(2) by (intro hdr_frame free_words_frame; auto)+
      have "merged_at t (pre @ [bp]) (blk_hi ?m bp) post"
        using ins(1) eqs(3) fr(2) endpre(2) by (simp add: merged_at_def tf)
      moreover have "extent ?m' bp = extent ?m bp" using eqs(3) by (simp add: extent_def)
      moreover have "p = ?h \<or> p \<in> free_words ?m pre"
        using p_in extent_words(1) [OF endpre(3), of p] by (auto simp: free_words_def)
      moreover have "bp \<in> extent ?m bp" "bp - 4 \<in> extent ?m bp" using len ap(3) unat_hdr [OF ap(3)] by (auto simp: extent_def)
      ultimately show ?thesis using fr(3,4) eqs(4) by (intro exI [of _ "pre @ [bp]"]) (auto simp: tf)
    qed
  qed
qed

text \<open>
  What the sweep guarantees when it merges the block \<open>bp\<close>: it lies between the blocks up to \<open>fl_merge\<close> and
  the others, so does the fragment before it if there is one; the sentinel is not adjacent to
  any of them; and the merged block is not larger than a header can say.
\<close>

definition merge_ready :: "'a rt_scheme \<Rightarrow> addr list \<Rightarrow> addr \<Rightarrow> addr list \<Rightarrow> bool" where
  "merge_ready s pre bp post \<longleftrightarrow> free_list s (pre @ post) \<and> fl_merge s = last (Fl_head s # pre) \<and>
     between (mem s) (Fl_head s) pre bp (blk_hi (mem s) bp) post \<and> blk_hi (mem s) bp + 4 < 2 ^ 32 \<and>
     (last_fragment s = bp - 4 \<longrightarrow> between (mem s) (Fl_head s) pre (bp - 4) (blk_hi (mem s) bp) post) \<and>
     Wosize_val (mem s) (Fl_head s) = 0 \<and> Fl_head s \<noteq> bp \<and> Fl_head s \<noteq> bp - 4 \<and>
     (\<forall>b \<in> set (pre @ post). Fl_head s - 4 \<notin> extent (mem s) b) \<and>
     unat (Wosize_val (mem s) bp) + 1 + (if pre = [] then 0 else unat (Wosize_val (mem s) (last pre)) + 1) +
       (if post = [] then 0 else unat (Wosize_val (mem s) (hd post)) + 1) \<le> 4194303"

text \<open>The merged block: \<open>bp\<close> and, if there is one, the fragment before it.\<close>

definition swept_base :: "'a rt_scheme \<Rightarrow> addr \<Rightarrow> addr" where
  "swept_base s bp = (if last_fragment s = bp - 4 then bp - 4 else bp)"

definition swept_words :: "'a rt_scheme \<Rightarrow> addr \<Rightarrow> addr set" where
  "swept_words s bp = {a. unat (swept_base s bp) \<le> unat a + 4 \<and> unat a < blk_hi (mem s) bp}"

definition merge_done :: "'a rt_scheme \<Rightarrow> addr \<Rightarrow> addr list \<Rightarrow> addr \<Rightarrow> 'a rt_scheme \<Rightarrow> addr list \<Rightarrow> addr list \<Rightarrow> nat \<Rightarrow> bool" where
  "merge_done s bp bs adj t pre' post' hi \<longleftrightarrow> free_list t (pre' @ post') \<and> merged_at t pre' hi post' \<and>
     adj = word_of_nat hi \<and> blk_hi (mem s) bp \<le> hi \<and>
     (free_words (mem t) (pre' @ post') = free_words (mem s) bs \<union> swept_words s bp \<or>
      Wosize_val (mem s) bp = 0 \<and> last_fragment t = bp \<and>
      free_words (mem t) (pre' @ post') \<union> swept_words s bp = free_words (mem s) bs \<union> swept_words s bp)"

lemma fl_merge_block_correct:
  assumes r: "merge_ready s pre bp post" and t: "fl_merge_block bp s = (adj, t)"
  shows "\<exists>pre' post' hi. merge_done s bp (pre @ post) adj t pre' post' hi"
proof -
  let ?h = "Fl_head s" and ?m = "mem s"
  define p where "p = last (?h # pre)"
  obtain bp1 h1 s1 where e1: "merge_fragment bp s = (bp1, h1, s1)" by (metis prod_cases3)
  obtain h2 adj2 cur s2 where e2: "merge_next bp1 h1 p (Next ?m p) s1 = (h2, adj2, cur, s2)" by (metis prod_cases4)
  have sw: "swept ?m ?h pre bp post" using r by (auto simp: merge_ready_def free_list_struct swept_def)
  have fr: "last_fragment s = bp - 4 \<longrightarrow> between ?m ?h pre (bp - 4) (blk_hi ?m bp) post \<and> unat (Wosize_val ?m bp) < 4194303"
    using r by (simp add: merge_ready_def split: if_splits)
  note f1 = merge_fragment_step [OF sw fr e1]
  have p_in: "p \<in> set (?h # pre)" unfolding p_def by (rule last_in_set) simp
  have base: "bp1 = swept_base s bp" using f1(3) by (simp add: swept_base_def)
  have p1: "mem s1 p = ?m p" using p_in swept_apart(1) [OF f1(1)] by (intro f1(6)) auto
  have w1: "unat (Wosize_val (mem s1) bp1) \<le> unat (Wosize_val ?m bp) + 1"
    using f1(4) base unat_hdr [OF swept_apart(3) [OF sw]] by (auto simp: blk_hi_def swept_base_def split: if_splits)
  have wb: "Wosize_val (mem s1) b = Wosize_val ?m b" if "b \<in> set (pre @ post)" for b
    using f1(5) [OF that] by (simp add: Wosize_val_def Hd_val_def)
  have hi1: "blk_hi (mem s1) bp1 + 4 < 2 ^ 32" using f1(4) r by (simp add: merge_ready_def)
  have room2: "post \<noteq> [] \<and> blk_hi (mem s1) bp1 + 4 = unat (hd post) \<longrightarrow>
      unat (Wosize_val (mem s1) bp1) + unat (Wosize_val (mem s1) (hd post)) + 1 \<le> 4194303"
    using r w1 wb [of "hd post"] by (auto simp: merge_ready_def split: if_splits)
  obtain post2 where f2: "swept (mem s2) ?h pre bp1 post2" "h2 = Hd_val (mem s2) bp1" "cur = Next (mem s2) p"
    "adj2 = word_of_nat (blk_hi (mem s2) bp1)" "set post2 \<subseteq> set post"
    "fl_words (mem s2) (pre @ post2) + Whsize_hd h2 = fl_words (mem s1) (pre @ post) + Whsize_hd h1"
    "\<And>b. b \<in> set (pre @ post2) \<Longrightarrow> mem s2 (b - 4) = mem s1 (b - 4)"
    "\<And>a. a \<noteq> p \<Longrightarrow> a \<noteq> bp1 - 4 \<Longrightarrow> mem s2 a = mem s1 a"
    "free_words (mem s2) post2 \<union> extent (mem s2) bp1 = free_words (mem s1) post \<union> extent (mem s1) bp1"
    "fl_prev s1 \<in> set (?h # pre @ post) \<longrightarrow> fl_prev s2 \<in> set (?h # pre @ post2)"
    "same_lists s1 s2" "fl_cur_size s2 = fl_cur_size s1"
    "unat (Wosize_val (mem s2) bp1) \<le> unat (Wosize_val (mem s1) bp1) +
      (if post = [] then 0 else unat (Wosize_val (mem s1) (hd post)) + 1)" "blk_hi (mem s1) bp1 \<le> blk_hi (mem s2) bp1"
    using merge_next_step [OF f1(1) hi1 p_def room2, of h2 adj2 cur s2] e2 p1 f1(2) by (auto simp: Next_def)
  have swap: "fl_merge_block bp s = (adj2, merge_link bp1 h2 p cur s2)"
    using e1 e2 r by (simp add: fl_merge_block_def Let_def merge_ready_def p_def)
  have hs: "Fl_head s2 = ?h" "fl_merge s2 = p" using f1(8) f2(11) r by (simp_all add: same_lists_def merge_ready_def p_def)
  have okpre: "blocks_ok ?m 0 (pre @ post)" using sw by (simp add: swept_def fl_struct_def)
  have hp: "?h - 4 \<noteq> p"
  proof
    assume "?h - 4 = p"
    then have "?h - 4 \<in> set (pre @ post)" using p_in by auto
    then show False using extent_words(1) [OF okpre] r by (auto simp: merge_ready_def)
  qed
  have hb: "?h - 4 \<noteq> bp1 - 4" using r base by (auto simp: merge_ready_def swept_base_def)
  have "mem s2 (?h - 4) = ?m (?h - 4)" using f2(8) [OF hp hb] f1(6) [OF hb] by simp
  then have sent: "Wosize_val (mem s2) ?h = 0" using r by (simp add: merge_ready_def Wosize_val_def Hd_val_def)
  have w2: "unat (Wosize_val (mem s2) bp1) \<le> unat (Wosize_val ?m bp) + 1 + (if post = [] then 0 else unat (Wosize_val ?m (hd post)) + 1)"
    using f2(13) w1 wb [of "hd post"] by (cases "post = []") auto
  have room3: "pre \<noteq> [] \<and> blk_hi (mem s2) (last pre) + 4 = unat bp1 \<longrightarrow>
      unat (Wosize_val (mem s2) (last pre)) + unat (Wosize_val (mem s2) bp1) + 1 \<le> 4194303"
    using r w2 wb [of "last pre"] f2(7) [of "last pre"]
    by (auto simp: merge_ready_def Wosize_val_def Hd_val_def split: if_splits)
  have sw2: "swept (mem s2) (Fl_head s2) pre bp1 post2" and pd: "p = last (Fl_head s2 # pre)"
    and se: "Wosize_val (mem s2) (Fl_head s2) = 0"
    using f2(1) sent by (simp_all add: hs p_def)
  have tl: "t = merge_link bp1 (Hd_val (mem s2) bp1) p (Next (mem s2) p) s2" "adj = adj2"
    using swap t f2(2,3) by auto
  obtain pre' where f3: "merged_at t pre' (blk_hi (mem s2) bp1) post2" "set pre \<subseteq> set pre'"
    "if last_fragment t = bp1 \<and> Wosize_val (mem s2) bp1 = 0 \<and> pre' = pre \<and> mem t = mem s2
     then fl_cur_size t = fl_cur_size s2 - 1
     else free_words (mem t) (pre' @ post2) = free_words (mem s2) (pre @ post2) \<union> extent (mem s2) bp1 \<and>
       fl_words (mem t) (pre' @ post2) = fl_words (mem s2) (pre @ post2) + Whsize_hd (Hd_val (mem s2) bp1) \<and>
       fl_cur_size t = fl_cur_size s2" "fl_prev t = fl_prev s2"
    using merge_link_step [OF sw2 pd hs(2) se room3 tl(1)] by blast
  have hst: "Fl_head t = ?h" using tl(1) hs(1) by (simp add: merge_link_def Let_def)
  have ext1: "extent (mem s1) bp1 = swept_words s bp" using f1(4) base by (simp add: swept_words_def extent_def)
  have fw1: "free_words (mem s1) (pre @ post) = free_words ?m (pre @ post)" by (rule free_words_frame) (rule f1(5))
  have fw2: "free_words (mem s2) pre = free_words (mem s1) pre" using f2(7) by (intro free_words_frame) auto
  have cover: "free_words (mem s2) (pre @ post2) \<union> extent (mem s2) bp1 = free_words ?m (pre @ post) \<union> swept_words s bp"
    using fw1 fw2 f2(9) ext1 by auto
  have prev1: "fl_prev s \<in> set (?h # pre @ post)" "fl_cur_size s = fl_words ?m (pre @ post)"
    using r by (auto simp: merge_ready_def free_list_struct)
  have "fl_words (mem s1) (pre @ post) = fl_words ?m (pre @ post)" by (rule hdr_frame) (rule f1(5))
  then have cs: "fl_cur_size s2 = fl_words (mem s2) (pre @ post2) + Whsize_hd (Hd_val (mem s2) bp1)"
    using f2(2,6,12) f1(7) prev1(2) by simp
  have prev: "fl_prev t \<in> set (Fl_head t # pre' @ post2)"
    using f2(10) f1(8) prev1(1) f3(2,4) hst by auto
  have mg: "fl_merge t \<in> set (Fl_head t # pre' @ post2)" using f3(1) last_in_set [of "Fl_head t # pre'"] by (auto simp: merged_at_def)
  show ?thesis
  proof (cases "last_fragment t = bp1 \<and> Wosize_val (mem s2) bp1 = 0 \<and> pre' = pre \<and> mem t = mem s2")
    case True
    have "unat bp \<le> unat bp1"
      using f2(14) f1(4) blk_hi_ge [of bp ?m] True by (simp add: blk_hi_def [of "mem s2" bp1])
    then have bp: "bp1 = bp" "Wosize_val ?m bp = 0"
      using f2(14) f1(4) True base unat_hdr [OF swept_apart(3) [OF sw]] swept_apart(3) [OF sw]
      by (auto simp: swept_base_def blk_hi_def word_unat_eq_iff split: if_splits)
    have "extent (mem s2) bp1 = swept_words s bp"
      using True bp base by (simp add: swept_words_def extent_def blk_hi_def)
    moreover have "Whsize_hd (Hd_val (mem s2) bp1) = 1" using True by (simp add: Whsize_hd_def Whsize_wosize_def Wosize_val_def)
    ultimately have "merge_done s bp (pre @ post) adj t pre' post2 (blk_hi (mem s2) bp1)"
      using f3(1,3) True cs prev mg cover bp f2(4,14) f1(4) tl(2)
      by (simp add: merge_done_def free_list_struct merged_at_def)
    then show ?thesis by blast
  next
    case False
    then have "free_words (mem t) (pre' @ post2) = free_words (mem s2) (pre @ post2) \<union> extent (mem s2) bp1"
      "fl_cur_size t = fl_words (mem t) (pre' @ post2)" using f3(3) cs by auto
    then have "merge_done s bp (pre @ post) adj t pre' post2 (blk_hi (mem s2) bp1)"
      using f3(1) prev mg cover f2(4,14) f1(4) tl(2)
      by (simp add: merge_done_def free_list_struct merged_at_def)
    then show ?thesis by blast
  qed
qed

lemma fl_allocate_fits:
  assumes "free_list s bs" and "b \<in> set bs" and "wo \<le> Wosize_val (mem s) b"
  shows "\<exists>hp t bs'. fl_allocate wo s = Some (Some hp, t) \<and> allocated wo bs hp s t bs'"
  using fl_allocate_cases [OF assms(1), of wo] assms(2,3) by blast



subsection \<open>The properties\<close>

text \<open>
  C10.  Allocation from the free list.  On a well-formed list \<open>fl_allocate\<close> returns.  If some free block is large enough it
  gives the address of a header whose words are taken from one free block; the list that remains is
  well-formed, the words it covers were free before and none of them belongs to the new block, and
  nothing else in memory changes but the link in the sentinel.  If no block is large enough
  it says so, the list is unchanged and \<open>fl_last\<close> is the last block.
\<close>

theorem free_list_allocate:
  assumes "free_list s bs"
  shows "(\<exists>b \<in> set bs. wo \<le> Wosize_val (mem s) b) \<and>
      (\<exists>hp t bs'. fl_allocate wo s = Some (Some hp, t) \<and> allocated wo bs hp s t bs') \<or>
    (\<forall>b \<in> set bs. \<not> wo \<le> Wosize_val (mem s) b) \<and>
      fl_allocate wo s = Some (None, s\<lparr>fl_last := last (Fl_head s # bs)\<rparr>)"
  using fl_allocate_cases [OF assms, of wo] by blast

text \<open>A heap page with one free block of ten words at 8196; the sentinel is at 64.\<close>

definition fl_example :: "unit rt_scheme" where
  "fl_example = heap_example\<lparr>mem := (\<lambda>_. 0)(64 := 8196, 60 := Make_header 0 0 Caml_blue,
     8192 := Make_header 10 0 Caml_blue, 8196 := 0, 8296 := Make_header 4 0 Caml_blue, 8240 := Make_header 5 0 Caml_white),
     fl_cur_size := 11\<rparr>"

lemma example_headers:
  "Wosize_hd (Make_header 10 0 Caml_blue) = 10" "Color_hd (Make_header 10 0 Caml_blue) = Caml_blue"
  "Wosize_hd (Make_header 4 0 Caml_blue) = 4" "Color_hd (Make_header 4 0 Caml_blue) = Caml_blue"
  "Wosize_hd (Make_header 5 0 Caml_white) = 5" "Wosize_hd (Make_header 0 0 Caml_blue) = 0"
  by (simp_all add: Make_header_fields header_ok_def Max_wosize_def)

lemma fl_example_mem:
  "mem fl_example 64 = 8196" "mem fl_example 8196 = 0" "Hd_val (mem fl_example) 8196 = Make_header 10 0 Caml_blue"
  "Hd_val (mem fl_example) 8300 = Make_header 4 0 Caml_blue" "Hd_val (mem fl_example) 8244 = Make_header 5 0 Caml_white"
  "Hd_val (mem fl_example) 64 = Make_header 0 0 Caml_blue"
  "Fl_head fl_example = 64" "fl_prev fl_example = 64" "fl_merge fl_example = 64" "fl_cur_size fl_example = 11"
  "fl_last fl_example = 0" "last_fragment fl_example = 0"
  by (simp_all add: fl_example_def heap_example_def Hd_val_def)

lemma fl_example_ok: "free_list fl_example [8196]"
  by (simp add: free_list_def fl_example_mem Next_def sentinel_ok_def extent_def blk_hi_def fl_words_def
      Wosize_val_def example_headers Whsize_hd_def Whsize_wosize_def)

theorem free_list_allocate_witness:
  "\<exists>hp t bs'. fl_allocate 3 fl_example = Some (Some hp, t) \<and> allocated 3 [8196] hp fl_example t bs'"
  using free_list_allocate [OF fl_example_ok, of 3]
  by (simp add: Wosize_val_def fl_example_mem example_headers)

text \<open>
  Extending the free list.  Right after an allocation has failed, \<open>fl_add_block\<close> of a new blue block that
  overlaps no free block ends, inserts the block at its place in the sorted list and changes nothing
  but the link in the block and the one before it.
\<close>

theorem free_list_add:
  assumes "free_list s bs" and "fl_last s = last (Fl_head s # bs)"
    and "4 \<le> unat bp" and "blk_hi (mem s) bp \<le> 2 ^ 32" and "Fl_head s \<notin> extent (mem s) bp"
    and "1 \<le> Wosize_val (mem s) bp" and "Color_hd (Hd_val (mem s) bp) = Caml_blue"
    and "\<forall>b \<in> set bs. blk_hi (mem s) b + 4 \<le> unat bp \<or> blk_hi (mem s) bp + 4 \<le> unat b"
  shows "\<exists>t pre post. fl_add_block bp s = Some t \<and> bs = pre @ post \<and> free_list t (pre @ bp # post) \<and>
    (\<forall>a. a \<notin> {bp, last (Fl_head s # pre)} \<longrightarrow> mem t a = mem s a)"
  using fl_add_block_correct [OF assms(1,2)] assms(3-8) by simp

theorem free_list_add_witness:
  "\<exists>t pre post. fl_add_block 8300 (fl_example\<lparr>fl_last := 8196\<rparr>) = Some t \<and> [8196] = pre @ post \<and>
     free_list t (pre @ 8300 # post)"
proof -
  have "free_list (fl_example\<lparr>fl_last := 8196\<rparr>) [8196]" using fl_example_ok free_list_mono by blast
  from free_list_add [OF this, of 8300] show ?thesis
    by (auto simp: fl_example_mem extent_def blk_hi_def Wosize_val_def example_headers)
qed

text \<open>
  C9.  Merging during the sweep.  When the sweep hands a dead block to \<open>fl_merge_block\<close>, the block is joined with the
  fragment before it and with the free blocks on both sides that are adjacent to it.  The list is
  well-formed again and covers exactly the words it covered before and those of the block (a block that is a header only
  and has no neighbour is remembered as a fragment instead); the list splits at \<open>fl_merge\<close> into the
  blocks that end before the returned address and those that start after it, so that
  the sweep can go on there.
\<close>

theorem free_list_merge:
  assumes "merge_ready s pre bp post" and "fl_merge_block bp s = (adj, t)"
  shows "\<exists>pre' post' hi. merge_done s bp (pre @ post) adj t pre' post' hi"
  using assms by (rule fl_merge_block_correct)

theorem free_list_merge_witness:
  "\<exists>pre' post' hi. merge_done (fl_example\<lparr>fl_merge := 8196\<rparr>) 8244 ([8196] @ [])
     (fst (fl_merge_block 8244 (fl_example\<lparr>fl_merge := 8196\<rparr>)))
     (snd (fl_merge_block 8244 (fl_example\<lparr>fl_merge := 8196\<rparr>))) pre' post' hi"
proof (rule free_list_merge)
  have "free_list (fl_example\<lparr>fl_merge := 8196\<rparr>) [8196]" using fl_example_ok by (simp add: free_list_def)
  then show "merge_ready (fl_example\<lparr>fl_merge := 8196\<rparr>) [8196] 8244 []"
    by (auto simp: merge_ready_def between_def fl_example_mem extent_def blk_hi_def Wosize_val_def example_headers)
qed simp

end
