(* ===== verification/Marking.thy ===== *)
theory Marking
  imports Freelist
begin

text \<open>
  The marking half of the major collector: the loop of \<open>mark_slice\<close> (\<^verbatim>\<open>byterun/major_gc.c\<close>) with its three
  subphases and the treatment of finalised values that it calls (\<open>final_update\<close> of
  \<^verbatim>\<open>byterun/finalise.c\<close>).

  The record \<open>gc\<close> extends the globals of the memory manager with those of \<^verbatim>\<open>major_gc.c\<close>, \<^verbatim>\<open>minor_gc.c\<close>,
  \<^verbatim>\<open>gc_ctrl.c\<close>, \<^verbatim>\<open>weak.c\<close> and \<^verbatim>\<open>finalise.c\<close>.  The local copy \<^verbatim>\<open>gray_vals_ptr\<close> of the stack pointer is
  kept in \<open>gray_vals\<close> itself: the code writes it back before every call that looks at it.  \<open>weak_prev\<close> is \<open>None\<close>
  for the address of the variable \<open>weak_list_head\<close>.  The fields of \<open>final_table\<close> that are in use are those below
  \<open>final_young\<close> and those from \<open>final_active\<close> on; its length is the variable \<^verbatim>\<open>size\<close>.
\<close>

datatype subphase = Subphase_main | Subphase_weak | Subphase_final

record final =
  final_fun :: val
  final_val :: val

record gc = rt +
  markhp :: addr
  chunk :: addr
  limit :: addr
  gc_subphase :: subphase
  weak_prev :: "addr option"
  weak_list_head :: val
  fl_size_at_phase_change :: uint32
  percent_free :: uint32
  stat_minor_words :: rat
  stat_promoted_words :: rat
  stat_major_words :: rat
  stat_minor_collections :: uint32
  stat_major_collections :: uint32
  oldify_todo_list :: val
  final_table :: "final list"
  final_old :: nat
  final_young :: nat
  final_active :: nat
  \<comment> \<open>\<^verbatim>\<open>globroots.c\<close>: the address of the head of the skip list\<close>
  caml_global_roots :: addr
  global_roots_level :: nat
  random_seed :: uint32

subsection \<open>Chunks of the heap\<close>

text \<open>The head of a chunk is the four words before it: the malloced block, a size used by compaction, the size and the next chunk.\<close>

definition Chunk_next :: "mem \<Rightarrow> addr \<Rightarrow> addr" where "Chunk_next m c = m (c - 4)"
definition Chunk_size :: "mem \<Rightarrow> addr \<Rightarrow> uint32" where "Chunk_size m c = m (c - 8)"
definition Chunk_alloc :: "mem \<Rightarrow> addr \<Rightarrow> uint32" where "Chunk_alloc m c = m (c - 12)"
definition Chunk_block :: "mem \<Rightarrow> addr \<Rightarrow> addr" where "Chunk_block m c = m (c - 16)"

subsection \<open>Scanning a block\<close>

definition Forward_val :: "mem \<Rightarrow> val \<Rightarrow> val" where
  "Forward_val m v = Field m v 0"

definition Infix_offset_val :: "mem \<Rightarrow> val \<Rightarrow> uint32" where
  "Infix_offset_val m v = Infix_offset_hd (Hd_val m v)"

text \<open>A white block becomes gray and goes on the stack.\<close>

definition push_gray :: "val \<Rightarrow> header_t \<Rightarrow> 'a rt_scheme \<Rightarrow> 'a rt_scheme" where
  "push_gray child h s =
     (let s = s\<lparr>mem := set_Hd_val child (Grayhd_hd h) (mem s), gray_vals := gray_vals s @ [child]\<rparr>
      in if gray_vals_size s \<le> length (gray_vals s) then realloc_gray_vals s else s)"

definition mark_child :: "val \<Rightarrow> nat \<Rightarrow> 'a rt_scheme \<Rightarrow> 'a rt_scheme" where
  "mark_child v i s =
     (let child = Field (mem s) v (word_of_nat i)
      in if Is_block child \<and> Is_in_heap s child
         then let h = Hd_val (mem s) child;
                  (child, h, s) =
                    (if Tag_hd h = Forward_tag
                     then (child, h, s\<lparr>mem := set_Field v (word_of_nat i) (Forward_val (mem s) child) (mem s)\<rparr>)
                     else if Tag_hd h = Infix_tag
                     then (child - Infix_offset_val (mem s) child,
                           Hd_val (mem s) (child - Infix_offset_val (mem s) child), s)
                     else (child, h, s))
              in if Color_hd h = Caml_white then push_gray child h s else s
         else s)"

text \<open>The first branch of the loop: the block on top of the stack becomes black and its fields are scanned.\<close>

definition mark_block :: "val \<Rightarrow> 'a rt_scheme \<Rightarrow> 'a rt_scheme" where
  "mark_block v s =
     (let h = Hd_val (mem s) v;
          s = s\<lparr>mem := set_Hd_val v (Blackhd_hd h) (mem s)\<rparr>
      in if Tag_hd h < No_scan_tag then fold (mark_child v) [0..<unat (Wosize_hd h)] s else s)"

subsection \<open>Weak arrays\<close>

text \<open>A field of a weak array: forwarding is followed, a dead value is erased.\<close>

partial_function (option) weak_field :: "val \<Rightarrow> nat \<Rightarrow> val \<Rightarrow> 'a rt_scheme \<Rightarrow> 'a rt_scheme option" where
  "weak_field cur i curfield s =
     (if curfield \<noteq> 0 \<and> Is_block curfield \<and> Is_in_heap s curfield
      then if Tag_val (mem s) curfield = Forward_tag
           then weak_field cur i (Forward_val (mem s) curfield)
                  (s\<lparr>mem := set_Field cur (word_of_nat i) (Forward_val (mem s) curfield) (mem s)\<rparr>)
           else if Color_hd (Hd_val (mem s) curfield) = Caml_white
           then Some (s\<lparr>mem := set_Field cur (word_of_nat i) 0 (mem s)\<rparr>)
           else Some s
      else Some s)"

fun weak_fields :: "val \<Rightarrow> nat list \<Rightarrow> 'a rt_scheme \<Rightarrow> 'a rt_scheme option" where
  "weak_fields cur [] s = Some s"
| "weak_fields cur (i # is) s =
     (case weak_field cur i (Field (mem s) cur (word_of_nat i)) s of
        None \<Rightarrow> None
      | Some s \<Rightarrow> weak_fields cur is s)"

definition weak_cur :: "'a gc_scheme \<Rightarrow> val" where
  "weak_cur s = (case weak_prev s of None \<Rightarrow> weak_list_head s | Some a \<Rightarrow> mem s a)"

definition set_weak_cur :: "val \<Rightarrow> 'a gc_scheme \<Rightarrow> 'a gc_scheme" where
  "set_weak_cur v s =
     (case weak_prev s of None \<Rightarrow> s\<lparr>weak_list_head := v\<rparr> | Some a \<Rightarrow> s\<lparr>mem := (mem s)(a := v)\<rparr>)"

definition weak_array :: "val \<Rightarrow> header_t \<Rightarrow> 'a gc_scheme \<Rightarrow> 'a gc_scheme option" where
  "weak_array cur h s =
     (if Color_hd h = Caml_white then Some (set_weak_cur (Field (mem s) cur 0) s)
      else case weak_fields cur [1..<unat (Wosize_hd h)] s of
             None \<Rightarrow> None
           | Some s \<Rightarrow> Some (s\<lparr>weak_prev := Some cur\<rparr>))"

subsection \<open>Finalised values\<close>

partial_function (option) final_scan :: "nat \<Rightarrow> 'a gc_scheme \<Rightarrow> 'a gc_scheme option" where
  "final_scan i s =
     (if i < final_old s
      then let f = final_table s ! i
           in if Color_hd (Hd_val (mem s) (final_val f)) = Caml_white
              then if Tag_val (mem s) (final_val f) = Forward_tag
                   then final_scan i (s\<lparr>final_table := (final_table s)[i := f\<lparr>final_val := Forward_val (mem s) (final_val f)\<rparr>]\<rparr>)
                   else let old = final_old s - 1; active = final_active s - 1
                        in final_scan i (s\<lparr>final_table := ((final_table s)[i := final_table s ! old])[active := f],
                                           final_old := old, final_active := active\<rparr>)
              else final_scan (i + 1) s
      else Some s)"

definition final_update :: "'a gc_scheme \<Rightarrow> 'a gc_scheme option" where
  "final_update s =
     (case final_scan 0 s of
        None \<Rightarrow> None
      | Some t \<Rightarrow>
          (let t = t\<lparr>final_young := final_old t\<rparr>
           in Some (fold (\<lambda>i u. darken (final_val (final_table u ! i)) u) [final_active t..<final_active s] t)))"

subsection \<open>The loop\<close>

text \<open>One iteration of the loop of \<open>mark_slice\<close>: the state and the work left; \<open>None\<close> if an inner loop does not end.\<close>

definition mark_iter :: "'a gc_scheme \<Rightarrow> int \<Rightarrow> ('a gc_scheme \<times> int) option" where
  "mark_iter s work =
     (if gray_vals s \<noteq> []
      then let v = last (gray_vals s); h = Hd_val (mem s) v
           in Some (mark_block v (s\<lparr>gray_vals := butlast (gray_vals s)\<rparr>), work - uint (Whsize_wosize (Wosize_hd h)))
      else if markhp s \<noteq> 0
      then if markhp s = limit s
           then let c = Chunk_next (mem s) (chunk s)
                in if c = 0 then Some (s\<lparr>chunk := c, markhp := 0\<rparr>, work)
                   else Some (s\<lparr>chunk := c, markhp := c, limit := c + Chunk_size (mem s) c\<rparr>, work)
           else let s = (if Color_hd (Hd_val (mem s) (Val_hp (markhp s))) = Caml_gray
                         then s\<lparr>gray_vals := [Val_hp (markhp s)]\<rparr> else s)
                in Some (s\<lparr>markhp := markhp s + Bhsize_hd (mem s (markhp s))\<rparr>, work)
      else if \<not> heap_is_pure s
      then Some (s\<lparr>heap_is_pure := True, chunk := heap_start s, markhp := heap_start s,
                   limit := heap_start s + Chunk_size (mem s) (heap_start s)\<rparr>, work)
      else case gc_subphase s of
        Subphase_main \<Rightarrow> Some (s\<lparr>gc_subphase := Subphase_weak, weak_prev := None\<rparr>, work)
      | Subphase_weak \<Rightarrow>
          (let cur = weak_cur s
           in if cur \<noteq> 0
              then let h = Hd_val (mem s) cur
                   in (case weak_array cur h s of
                         None \<Rightarrow> None
                       | Some s \<Rightarrow> Some (s, work - uint (Whsize_hd h)))
              else (case final_update s of
                      None \<Rightarrow> None
                    | Some s \<Rightarrow> Some (s\<lparr>gc_subphase := Subphase_final\<rparr>, work)))
      | Subphase_final \<Rightarrow>
          (let s = fl_init_merge (s\<lparr>gc_sweep_hp := heap_start s\<rparr>)
           in Some (s\<lparr>gc_phase := Phase_sweep, chunk := heap_start s, gc_sweep_hp := heap_start s,
                      limit := heap_start s + Chunk_size (mem s) (heap_start s),
                      fl_size_at_phase_change := fl_cur_size s\<rparr>, 0)))"

partial_function (option) mark_slice :: "int \<Rightarrow> 'a gc_scheme \<Rightarrow> 'a gc_scheme option" where
  "mark_slice work s =
     (if 0 < work
      then case mark_iter s work of None \<Rightarrow> None | Some (s, work) \<Rightarrow> mark_slice work s
      else Some s)"

declare weak_field.simps [code] final_scan.simps [code] mark_slice.simps [code]

subsection \<open>The layout of the heap\<close>

text \<open>
  The heap as the list of its chunks, each with the list of the headers that a traversal of the chunk meets.
\<close>

type_synonym layout = "(addr \<times> addr list) list"

fun chunk_walk :: "mem \<Rightarrow> addr \<Rightarrow> addr \<Rightarrow> addr list \<Rightarrow> bool" where
  "chunk_walk m hp stop [] \<longleftrightarrow> hp \<noteq> 0 \<and> hp = stop"
| "chunk_walk m hp stop (h # hs) \<longleftrightarrow> h = hp \<and> hp \<noteq> 0 \<and> hp \<noteq> stop \<and> chunk_walk m (hp + Bhsize_hd (m hp)) stop hs"

fun heap_walk :: "mem \<Rightarrow> addr \<Rightarrow> layout \<Rightarrow> bool" where
  "heap_walk m c [] \<longleftrightarrow> c = 0"
| "heap_walk m c ((d, hs) # cs) \<longleftrightarrow>
     c = d \<and> c \<noteq> 0 \<and> chunk_walk m c (c + Chunk_size m c) hs \<and> heap_walk m (Chunk_next m c) cs"

definition heads :: "layout \<Rightarrow> addr set" where
  "heads cs = (\<Union>(c, hs) \<in> set cs. set hs)"

definition chunk_words :: "layout \<Rightarrow> addr set" where
  "chunk_words cs = (\<Union>(c, hs) \<in> set cs. {c - 4, c - 8})"

lemma heads_Cons [simp]: "heads ((c, hs) # cs) = set hs \<union> heads cs" "heads [] = {}"
  by (auto simp: heads_def)

lemma chunk_words_Cons [simp]: "chunk_words ((c, hs) # cs) = {c - 4, c - 8} \<union> chunk_words cs" "chunk_words [] = {}"
  by (auto simp: chunk_words_def)

abbreviation fld :: "val \<Rightarrow> nat \<Rightarrow> addr" where "fld b i \<equiv> b + 4 * word_of_nat i"
abbreviation colour :: "'a rt_scheme \<Rightarrow> val \<Rightarrow> uint32" where "colour s b \<equiv> Color_hd (Hd_val (mem s) b)"
abbreviation wsz :: "'a rt_scheme \<Rightarrow> val \<Rightarrow> nat" where "wsz s b \<equiv> unat (Wosize_val (mem s) b)"

definition scans :: "'a rt_scheme \<Rightarrow> val \<Rightarrow> bool" where
  "scans s b \<longleftrightarrow> Tag_val (mem s) b < No_scan_tag"

definition in_heap :: "'a rt_scheme \<Rightarrow> val \<Rightarrow> bool" where
  "in_heap s v \<longleftrightarrow> Is_block v \<and> Is_in_heap s v"

text \<open>
  \<open>heap_ok cs B J s\<close>: the blocks \<open>B\<close> in use lie in the heap of layout \<open>cs\<close>; their fields are apart from one another,
  from all headers and from the heads of the chunks; \<open>J\<close> are the pointers into the middle of closures; and every field that
  is scanned and points into the heap points to one of \<open>B\<close> or \<open>J\<close>.  No other block is gray.
\<close>

definition block_ok :: "layout \<Rightarrow> val set \<Rightarrow> 'a rt_scheme \<Rightarrow> val \<Rightarrow> bool" where
  "block_ok cs B s b \<longleftrightarrow> b - 4 \<in> heads cs \<and> in_heap s b \<and> Tag_val (mem s) b \<noteq> Infix_tag \<and> colour s b \<noteq> Caml_blue \<and>
     (Tag_val (mem s) b = Forward_tag \<longrightarrow> 0 < wsz s b) \<and>
     (\<forall>i < wsz s b. fld b i \<notin> heads cs \<union> chunk_words cs \<and> (\<forall>c \<in> B. \<forall>j < wsz s c. fld b i = fld c j \<longrightarrow> b = c \<and> i = j))"

definition inner_ok :: "val set \<Rightarrow> 'a rt_scheme \<Rightarrow> val \<Rightarrow> bool" where
  "inner_ok B s c \<longleftrightarrow> Tag_val (mem s) c = Infix_tag \<and> c - Infix_offset_val (mem s) c \<in> B \<and>
     scans s (c - Infix_offset_val (mem s) c) \<and> (\<exists>i < wsz s (c - Infix_offset_val (mem s) c). c - 4 = fld (c - Infix_offset_val (mem s) c) i)"

definition heap_ok :: "layout \<Rightarrow> val set \<Rightarrow> val set \<Rightarrow> 'a rt_scheme \<Rightarrow> bool" where
  "heap_ok cs B J s \<longleftrightarrow> heap_walk (mem s) (heap_start s) cs \<and> heads cs \<inter> chunk_words cs = {} \<and> finite B \<and>
     (\<forall>b \<in> B. block_ok cs B s b) \<and> (\<forall>c \<in> J. inner_ok B s c) \<and>
     (\<forall>b \<in> B. scans s b \<longrightarrow> (\<forall>i < wsz s b. in_heap s (mem s (fld b i)) \<longrightarrow> mem s (fld b i) \<in> B \<union> J)) \<and>
     (\<forall>h \<in> heads cs. Color_hd (mem s h) = Caml_gray \<longrightarrow> h + 4 \<in> B)"

text \<open>An edge of the graph of blocks: from a scanned block to the block that one of its fields points to or into.\<close>

definition edge :: "'a rt_scheme \<Rightarrow> val \<Rightarrow> val \<Rightarrow> bool" where
  "edge s a b \<longleftrightarrow> scans s a \<and> (\<exists>i < wsz s a. in_heap s (mem s (fld a i)) \<and> b = darken_base (mem s) (mem s (fld a i)))"

lemma heap_okD:
  assumes "heap_ok cs B J s"
  shows "b \<in> B \<Longrightarrow> b - 4 \<in> heads cs" "b \<in> B \<Longrightarrow> in_heap s b" "b \<in> B \<Longrightarrow> Tag_val (mem s) b \<noteq> Infix_tag"
    "b \<in> B \<Longrightarrow> colour s b \<noteq> Caml_blue" "b \<in> B \<Longrightarrow> Tag_val (mem s) b = Forward_tag \<Longrightarrow> 0 < wsz s b"
    "b \<in> B \<Longrightarrow> i < wsz s b \<Longrightarrow> fld b i \<notin> heads cs" "b \<in> B \<Longrightarrow> i < wsz s b \<Longrightarrow> fld b i \<notin> chunk_words cs"
    "b \<in> B \<Longrightarrow> c \<in> B \<Longrightarrow> i < wsz s b \<Longrightarrow> j < wsz s c \<Longrightarrow> fld b i = fld c j \<Longrightarrow> b = c \<and> i = j"
    "heads cs \<inter> chunk_words cs = {}" "heap_walk (mem s) (heap_start s) cs" "finite B"
    "b \<in> B \<Longrightarrow> scans s b \<Longrightarrow> i < wsz s b \<Longrightarrow> in_heap s (mem s (fld b i)) \<Longrightarrow> mem s (fld b i) \<in> B \<union> J"
    "h \<in> heads cs \<Longrightarrow> Color_hd (mem s h) = Caml_gray \<Longrightarrow> h + 4 \<in> B"
  using assms unfolding heap_ok_def block_ok_def by blast+

lemma inner_okD:
  assumes "heap_ok cs B J s" and "c \<in> J"
  shows "darken_base (mem s) c = c - Infix_offset_val (mem s) c" "darken_base (mem s) c \<in> B"
    "scans s (darken_base (mem s) c)" "\<exists>i < wsz s (darken_base (mem s) c). c - 4 = fld (darken_base (mem s) c) i"
    "Tag_val (mem s) c = Infix_tag"
  using assms unfolding heap_ok_def inner_ok_def by (auto simp: darken_base_def Infix_offset_val_def Tag_val_def)

lemma base_block: "heap_ok cs B J s \<Longrightarrow> c \<in> B \<Longrightarrow> darken_base (mem s) c = c"
  using heap_okD(3) by (fastforce simp: darken_base_def Tag_val_def)

lemma base_in: "heap_ok cs B J s \<Longrightarrow> c \<in> B \<union> J \<Longrightarrow> darken_base (mem s) c \<in> B"
  using base_block inner_okD(2) by (metis Un_iff)

lemma inner_not_head: "heap_ok cs B J s \<Longrightarrow> c \<in> J \<Longrightarrow> c - 4 \<notin> heads cs \<union> chunk_words cs"
  using inner_okD(2,4) [of cs B J s c] heap_okD(6,7) [of cs B J s "darken_base (mem s) c"] by auto

lemma edge_target: "heap_ok cs B J s \<Longrightarrow> a \<in> B \<Longrightarrow> edge s a b \<Longrightarrow> b \<in> B"
  using heap_okD(12) base_in unfolding edge_def by blast

lemma not_gray_white: "Caml_gray \<noteq> Caml_white" "Caml_black \<noteq> Caml_white" "Caml_gray \<noteq> Caml_black" "Caml_blue \<noteq> Caml_gray"
  "Caml_blue \<noteq> Caml_black" "Caml_blue \<noteq> Caml_white"
  by (simp_all add: color_defs)

lemma Color_cases: "Color_hd h = Caml_white \<or> Color_hd h = Caml_gray \<or> Color_hd h = Caml_blue \<or> Color_hd h = Caml_black"
proof -
  have u: "unat (Color_hd h) = 256 * (unat h div 256 mod 4)"
    using unat_and_color [of h] by (simp add: Color_hd_def Caml_black_def)
  have "unat h div 256 mod 4 < 4" by simp
  then consider "unat h div 256 mod 4 = 0" | "unat h div 256 mod 4 = 1" | "unat h div 256 mod 4 = 2" | "unat h div 256 mod 4 = 3"
    by linarith
  then show ?thesis using u by cases (auto simp: color_defs intro!: word_eq_by_unat)
qed

subsection \<open>Memory changes that keep the layout\<close>

definition same_gc :: "'a gc_scheme \<Rightarrow> 'a gc_scheme \<Rightarrow> bool" where
  "same_gc s t \<longleftrightarrow> heap_start t = heap_start s \<and> Is_in_heap t = Is_in_heap s \<and> markhp t = markhp s \<and> chunk t = chunk s \<and>
     limit t = limit s \<and> gc_phase t = gc_phase s \<and> gc_subphase t = gc_subphase s \<and> weak_prev t = weak_prev s \<and>
     weak_list_head t = weak_list_head s \<and> final_table t = final_table s \<and> final_old t = final_old s \<and>
     final_active t = final_active s"

definition same_shape :: "layout \<Rightarrow> val set \<Rightarrow> val set \<Rightarrow> 'a rt_scheme \<Rightarrow> 'a rt_scheme \<Rightarrow> bool" where
  "same_shape cs B J s t \<longleftrightarrow> heap_start t = heap_start s \<and> Is_in_heap t = Is_in_heap s \<and>
     (\<forall>h \<in> heads cs. Wosize_hd (mem t h) = Wosize_hd (mem s h) \<and> Tag_hd (mem t h) = Tag_hd (mem s h) \<and>
        (h + 4 \<in> B \<or> mem t h = mem s h)) \<and>
     (\<forall>a \<in> chunk_words cs. mem t a = mem s a) \<and> (\<forall>c \<in> J. mem t (c - 4) = mem s (c - 4))"

lemma same_gc_refl [simp]: "same_gc s s" by (simp add: same_gc_def)

lemma same_gc_trans: "same_gc s t \<Longrightarrow> same_gc t u \<Longrightarrow> same_gc s u" by (simp add: same_gc_def)

lemma same_shape_refl [simp]: "same_shape cs B J s s" by (simp add: same_shape_def)

lemma same_shape_trans: "same_shape cs B J s t \<Longrightarrow> same_shape cs B J t u \<Longrightarrow> same_shape cs B J s u"
  unfolding same_shape_def by (metis (no_types))

lemma chunk_walk_shape:
  "(\<And>h. h \<in> set hs \<Longrightarrow> Wosize_hd (m' h) = Wosize_hd (m h)) \<Longrightarrow> chunk_walk m hp stop hs \<Longrightarrow> chunk_walk m' hp stop hs"
  by (induction hs arbitrary: hp) (auto simp: Bhsize_hd_def Whsize_hd_def)

lemma heap_walk_shape:
  "(\<And>h. h \<in> heads cs \<Longrightarrow> Wosize_hd (m' h) = Wosize_hd (m h)) \<Longrightarrow> (\<And>a. a \<in> chunk_words cs \<Longrightarrow> m' a = m a) \<Longrightarrow>
    heap_walk m c cs \<Longrightarrow> heap_walk m' c cs"
proof (induction cs arbitrary: c)
  case (Cons d cs)
  obtain e hs where d: "d = (e, hs)" by fastforce
  have "chunk_walk m' c (c + Chunk_size m c) hs" if "chunk_walk m c (c + Chunk_size m c) hs"
    using that Cons.prems(1) d by (intro chunk_walk_shape [of hs m' m]) auto
  moreover have "m' (c - 4) = m (c - 4)" "m' (c - 8) = m (c - 8)" using Cons.prems(2,3) d by auto
  ultimately show ?case using Cons d by (auto simp: Chunk_next_def Chunk_size_def)
qed simp

lemma same_shape_blocks:
  assumes "heap_ok cs B J s" and "same_shape cs B J s t"
  shows "b \<in> B \<Longrightarrow> wsz t b = wsz s b" "b \<in> B \<Longrightarrow> Tag_val (mem t) b = Tag_val (mem s) b" "b \<in> B \<Longrightarrow> scans t b = scans s b"
    "in_heap t = in_heap s" "c \<in> B \<union> J \<Longrightarrow> darken_base (mem t) c = darken_base (mem s) c"
proof -
  have h: "\<And>b. b \<in> B \<Longrightarrow> Wosize_hd (mem t (b - 4)) = Wosize_hd (mem s (b - 4)) \<and> Tag_hd (mem t (b - 4)) = Tag_hd (mem s (b - 4))"
    using assms heap_okD(1) unfolding same_shape_def by blast
  show "b \<in> B \<Longrightarrow> wsz t b = wsz s b" "b \<in> B \<Longrightarrow> Tag_val (mem t) b = Tag_val (mem s) b" "b \<in> B \<Longrightarrow> scans t b = scans s b"
    using h by (simp_all add: Wosize_val_def Tag_val_def Hd_val_def scans_def)
  show "in_heap t = in_heap s" using assms(2) by (auto simp: in_heap_def same_shape_def)
  show "c \<in> B \<union> J \<Longrightarrow> darken_base (mem t) c = darken_base (mem s) c"
    using h [of c] heap_okD(3) [OF assms(1), of c] assms(2)
    by (auto simp: darken_base_def Hd_val_def same_shape_def Tag_val_def)
qed

lemma heap_ok_shape:
  assumes ok: "heap_ok cs B J s" and sh: "same_shape cs B J s t" and nb: "\<And>b. b \<in> B \<Longrightarrow> colour t b \<noteq> Caml_blue"
    and fields: "\<And>b i. b \<in> B \<Longrightarrow> scans s b \<Longrightarrow> i < wsz s b \<Longrightarrow> in_heap s (mem t (fld b i)) \<Longrightarrow> mem t (fld b i) \<in> B \<union> J"
  shows "heap_ok cs B J t"
proof -
  note [simp] = same_shape_blocks [OF ok sh]
  have w: "heap_walk (mem t) (heap_start t) cs"
    using heap_walk_shape [of cs "mem t" "mem s" "heap_start s"] ok sh by (auto simp: heap_ok_def same_shape_def)
  have b: "\<forall>b \<in> B. block_ok cs B t b" using ok nb unfolding heap_ok_def block_ok_def by simp
  have "inner_ok B t c" if c: "c \<in> J" for c
  proof -
    have e: "mem t (c - 4) = mem s (c - 4)" using sh c by (simp add: same_shape_def)
    then have "Infix_offset_val (mem t) c = Infix_offset_val (mem s) c" "Tag_val (mem t) c = Tag_val (mem s) c"
      by (simp_all add: Infix_offset_val_def Tag_val_def Hd_val_def)
    then show ?thesis using ok c unfolding heap_ok_def inner_ok_def by auto
  qed
  moreover have "\<forall>h \<in> heads cs. Color_hd (mem t h) = Caml_gray \<longrightarrow> h + 4 \<in> B"
    using heap_okD(13) [OF ok] sh unfolding same_shape_def by metis
  ultimately show ?thesis using ok w b fields unfolding heap_ok_def by auto
qed

subsection \<open>Darkening\<close>

definition hdrs :: "val set \<Rightarrow> addr set" where "hdrs B = (\<lambda>b. b - 4) ` B"

text \<open>Only headers of \<open>B\<close> change, and there only the colour, from white to gray.\<close>

definition darkens :: "val set \<Rightarrow> 'a gc_scheme \<Rightarrow> 'a gc_scheme \<Rightarrow> bool" where
  "darkens B s t \<longleftrightarrow> same_gc s t \<and> (\<forall>a. a \<notin> hdrs B \<longrightarrow> mem t a = mem s a) \<and>
     (\<forall>b \<in> B. mem t (b - 4) = mem s (b - 4) \<or> colour s b = Caml_white \<and> mem t (b - 4) = Grayhd_hd (mem s (b - 4)))"

lemma darkens_refl [simp]: "darkens B s s" by (simp add: darkens_def)

lemma darkens_trans: "darkens B s t \<Longrightarrow> darkens B t u \<Longrightarrow> darkens B s u"
proof -
  assume d: "darkens B s t" "darkens B t u"
  have "mem u (b - 4) = mem s (b - 4) \<or> colour s b = Caml_white \<and> mem u (b - 4) = Grayhd_hd (mem s (b - 4))" if "b \<in> B" for b
  proof -
    have "mem t (b - 4) = mem s (b - 4) \<or> colour s b = Caml_white \<and> mem t (b - 4) = Grayhd_hd (mem s (b - 4))"
      "mem u (b - 4) = mem t (b - 4) \<or> colour t b = Caml_white \<and> mem u (b - 4) = Grayhd_hd (mem t (b - 4))"
      using d that by (simp_all add: darkens_def)
    then show ?thesis using not_gray_white(1) by (auto simp: Hd_val_def recolor_fields)
  qed
  then show ?thesis using d same_gc_trans [of s t u] by (auto simp: darkens_def)
qed

lemma darkens_color:
  assumes "darkens B s t" and "b \<in> B"
  shows "colour t b = colour s b \<or> colour s b = Caml_white \<and> colour t b = Caml_gray"
  using assms by (auto simp: darkens_def Hd_val_def recolor_fields)

lemma darkens_fields:
  assumes "heap_ok cs B J s" and "darkens B s t" and "b \<in> B" and "i < wsz s b"
  shows "mem t (fld b i) = mem s (fld b i)"
proof -
  have "hdrs B \<subseteq> heads cs" using heap_okD(1) [OF assms(1)] by (auto simp: hdrs_def)
  then show ?thesis using assms(2) heap_okD(6) [OF assms(1,3,4)] by (auto simp: darkens_def)
qed

lemma darkens_shape:
  assumes ok: "heap_ok cs B J s" and d: "darkens B s t"
  shows "same_shape cs B J s t"
proof -
  have sub: "hdrs B \<subseteq> heads cs" using heap_okD(1) [OF ok] by (auto simp: hdrs_def)
  have "Wosize_hd (mem t h) = Wosize_hd (mem s h) \<and> Tag_hd (mem t h) = Tag_hd (mem s h)" for h
  proof (cases "h \<in> hdrs B")
    case True
    then obtain b where "b \<in> B" "h = b - 4" by (auto simp: hdrs_def)
    then show ?thesis using d by (auto simp: darkens_def recolor_fields)
  qed (use d in \<open>simp add: darkens_def\<close>)
  moreover have "mem t a = mem s a" if "a \<in> chunk_words cs" for a
    using that sub d heap_okD(9) [OF ok] by (auto simp: darkens_def)
  moreover have "mem t (c - 4) = mem s (c - 4)" if "c \<in> J" for c
    using inner_not_head [OF ok that] sub d by (auto simp: darkens_def)
  moreover have "same_gc s t" using d by (simp add: darkens_def)
  moreover have "h + 4 \<in> B \<or> mem t h = mem s h" for h
  proof (cases "h \<in> hdrs B")
    case True then show ?thesis by (auto simp: hdrs_def)
  qed (use d in \<open>simp add: darkens_def\<close>)
  ultimately show ?thesis by (simp add: same_shape_def same_gc_def)
qed

lemma heap_ok_darkens:
  assumes ok: "heap_ok cs B J s" and d: "darkens B s t"
  shows "heap_ok cs B J t"
proof (rule heap_ok_shape [OF ok darkens_shape [OF ok d]])
  show "colour t b \<noteq> Caml_blue" if "b \<in> B" for b
    using darkens_color [OF d that] heap_okD(4) [OF ok that] not_gray_white by auto
  show "mem t (fld b i) \<in> B \<union> J" if "b \<in> B" "scans s b" "i < wsz s b" "in_heap s (mem t (fld b i))" for b i
    using that darkens_fields [OF ok d that(1,3)] heap_okD(12) [OF ok that(1,2,3)] by simp
qed

lemma edge_same:
  assumes "heap_ok cs B J s" and "same_shape cs B J s t" and "a \<in> B" and "\<And>i. i < wsz s a \<Longrightarrow> mem t (fld a i) = mem s (fld a i)"
  shows "edge t a b = edge s a b"
proof -
  note sh = same_shape_blocks [OF assms(1,2)]
  have "darken_base (mem t) (mem t (fld a i)) = darken_base (mem s) (mem s (fld a i))"
    if "scans s a" "i < wsz s a" "in_heap s (mem s (fld a i))" for i
    using heap_okD(12) [OF assms(1,3) that] assms(4) [OF that(2)] sh(5) by simp
  then show ?thesis using sh assms(3,4) by (auto simp: edge_def)
qed

lemma edge_darkens: "heap_ok cs B J s \<Longrightarrow> darkens B s t \<Longrightarrow> a \<in> B \<Longrightarrow> edge t a b = edge s a b"
  by (rule edge_same [OF _ darkens_shape]) (auto intro: darkens_fields)

subsection \<open>The stack of gray values\<close>

text \<open>
  \<open>gray_ok B P s\<close>: the stack has room, holds gray blocks of \<open>B\<close>, each once, and every gray block is on the stack, or among the
  headers \<open>P\<close> that are still to be traversed, unless the heap is flagged as impure.
\<close>

definition gray_ok :: "val set \<Rightarrow> addr set \<Rightarrow> 'a rt_scheme \<Rightarrow> bool" where
  "gray_ok B P s \<longleftrightarrow> length (gray_vals s) < gray_vals_size s \<and> 2 \<le> gray_vals_size s \<and> distinct (gray_vals s) \<and>
     (\<forall>b \<in> set (gray_vals s). b \<in> B \<and> colour s b = Caml_gray) \<and>
     (\<forall>b \<in> B. colour s b = Caml_gray \<longrightarrow> b \<in> set (gray_vals s) \<or> \<not> heap_is_pure s \<or> b - 4 \<in> P)"

lemma same_gc_realloc: "same_gc s (realloc_gray_vals (s :: 'a gc_scheme))"
  by (auto simp: same_gc_def realloc_gray_vals_def Is_in_heap_def)

lemma push_gray_mem: "mem (push_gray b h s) = (mem s)(b - 4 := Grayhd_hd h)"
  by (auto simp: push_gray_def Let_def realloc_gray_vals_def set_Hd_val_def)

lemma push_gray_darkens:
  assumes "b \<in> B" and "colour s b = Caml_white"
  shows "darkens B s (push_gray b (Hd_val (mem s) b) s)"
proof -
  have "same_gc s (push_gray b (Hd_val (mem s) b) s)"
    by (auto simp: push_gray_def Let_def realloc_gray_vals_def same_gc_def Is_in_heap_def)
  then show ?thesis using assms by (auto simp: darkens_def push_gray_mem hdrs_def Hd_val_def)
qed

lemma push_gray_stack:
  assumes "gray_ok B P s" and "b \<in> B" and "colour s b = Caml_white"
  shows "gray_ok B P (push_gray b (Hd_val (mem s) b) s)"
proof -
  let ?t = "push_gray b (Hd_val (mem s) b) s"
  have c: "colour ?t x = (if x = b then Caml_gray else colour s x)" for x
    by (simp add: push_gray_mem Hd_val_def recolor_fields)
  have new: "b \<notin> set (gray_vals s)" using assms(1,3) not_gray_white(1) by (auto simp: gray_ok_def)
  have g: "gray_vals ?t = gray_vals s @ [b] \<and> heap_is_pure ?t = heap_is_pure s \<or> gray_vals ?t = [] \<and> \<not> heap_is_pure ?t \<or>
      gray_vals ?t = take (gray_vals_size s div 2) (gray_vals s @ [b]) \<and> \<not> heap_is_pure ?t"
    by (simp add: push_gray_def Let_def realloc_gray_vals_def del: take_append)
  have l: "length (gray_vals ?t) < gray_vals_size ?t \<and> 2 \<le> gray_vals_size ?t"
    using assms(1) by (auto simp: push_gray_def Let_def realloc_gray_vals_def gray_ok_def)
  have "distinct (gray_vals s @ [b])" using new assms(1) by (simp add: gray_ok_def)
  then have sub: "distinct (gray_vals ?t) \<and> set (gray_vals ?t) \<subseteq> set (gray_vals s @ [b])"
    using g by (auto simp del: take_append distinct_append set_append dest: in_set_takeD)
  have "x \<in> set (gray_vals ?t) \<or> \<not> heap_is_pure ?t \<or> x - 4 \<in> P" if "x \<in> B" "colour ?t x = Caml_gray" for x
    using g that assms(1) c [of x] by (auto simp: gray_ok_def split: if_splits)
  then show ?thesis using l sub assms(1,2) c unfolding gray_ok_def by auto
qed

lemma darken_push:
  "darken v s = (if in_heap s v \<and> colour s (darken_base (mem s) v) = Caml_white
     then push_gray (darken_base (mem s) v) (Hd_val (mem s) (darken_base (mem s) v)) s else s)"
  by (simp add: darken_alt push_gray_def in_heap_def Let_def)

lemma darken_keeps:
  assumes "in_heap s v \<longrightarrow> darken_base (mem s) v \<in> B"
  shows "darkens B s (darken v s)" "gray_ok B P s \<Longrightarrow> gray_ok B P (darken v s)"
    "in_heap s v \<Longrightarrow> colour (darken v s) (darken_base (mem s) v) \<noteq> Caml_white"
  using assms push_gray_darkens [of "darken_base (mem s) v" B s] push_gray_stack [of B P s "darken_base (mem s) v"] not_gray_white(1)
  by (auto simp: darken_push push_gray_mem Hd_val_def recolor_fields)

subsection \<open>What is safe\<close>

text \<open>
  \<open>protect\<close>: reached from a gray block along edges that leave gray or white blocks.  A block is safe if it is not white or is
  protected: when no gray block is left, the safe blocks are the black ones.
\<close>

inductive protect :: "val set \<Rightarrow> 'a rt_scheme \<Rightarrow> val \<Rightarrow> bool" for B s where
  gray: "b \<in> B \<Longrightarrow> colour s b = Caml_gray \<Longrightarrow> protect B s b"
| edge: "protect B s a \<Longrightarrow> a \<in> B \<Longrightarrow> colour s a \<noteq> Caml_black \<Longrightarrow> edge s a b \<Longrightarrow> b \<in> B \<Longrightarrow> protect B s b"

definition safe :: "val set \<Rightarrow> 'a rt_scheme \<Rightarrow> val \<Rightarrow> bool" where
  "safe B s b \<longleftrightarrow> b \<in> B \<and> (colour s b \<noteq> Caml_white \<or> protect B s b)"

lemma safe_mono:
  assumes nb: "\<And>b. b \<in> B \<Longrightarrow> colour t b \<noteq> Caml_blue"
    and nw: "\<And>b. b \<in> B \<Longrightarrow> colour s b \<noteq> Caml_white \<Longrightarrow> colour t b \<noteq> Caml_white"
    and ed: "\<And>a b. a \<in> B \<Longrightarrow> b \<in> B \<Longrightarrow> colour s a \<noteq> Caml_black \<Longrightarrow> edge s a b \<Longrightarrow>
      edge t a b \<and> colour t a \<noteq> Caml_black \<or> colour t b \<noteq> Caml_white"
    and "safe B s b"
  shows "safe B t b"
proof -
  have "safe B t b" if "protect B s b" for b
    using that
  proof induction
    case (gray b) then show ?case using nw not_gray_white(1) by (auto simp: safe_def)
  next
    case (edge a b)
    show ?case
    proof (cases "colour t b = Caml_white")
      case True
      then have e: "edge t a b" "colour t a \<noteq> Caml_black" using ed edge.hyps by blast+
      have "protect B t a"
        using edge.IH nb [OF edge.hyps(2)] e(2) Color_cases [of "Hd_val (mem t) a"] edge.hyps(2) protect.gray [of a B t]
        by (auto simp: safe_def)
      then show ?thesis using e edge.hyps protect.edge [of B t a b] by (auto simp: safe_def)
    qed (use edge.hyps in \<open>simp add: safe_def\<close>)
  qed
  then show ?thesis using assms(4) nw by (auto simp: safe_def)
qed

lemma safe_darkens:
  assumes "heap_ok cs B J s" and "darkens B s t" and "safe B s b"
  shows "safe B t b"
proof (rule safe_mono [OF _ _ _ assms(3)])
  show "colour t b \<noteq> Caml_blue" if "b \<in> B" for b using heap_okD(4) [OF heap_ok_darkens [OF assms(1,2)] that] .
  show "colour t b \<noteq> Caml_white" if "b \<in> B" "colour s b \<noteq> Caml_white" for b
    using darkens_color [OF assms(2) that(1)] that(2) not_gray_white by auto
  show "edge t a b \<and> colour t a \<noteq> Caml_black \<or> colour t b \<noteq> Caml_white"
    if "a \<in> B" "b \<in> B" "colour s a \<noteq> Caml_black" "edge s a b" for a b
    using that darkens_color [OF assms(2) that(1)] edge_darkens [OF assms(1,2) that(1)] not_gray_white by auto
qed

lemma no_gray_black:
  assumes "safe B s b" and "\<And>b. b \<in> B \<Longrightarrow> colour s b \<noteq> Caml_gray" and "\<And>b. b \<in> B \<Longrightarrow> colour s b \<noteq> Caml_blue"
  shows "colour s b = Caml_black"
proof -
  have "\<not> protect B s b" for b
    by (rule notI, induction rule: protect.induct) (use assms(2) in auto)
  then show ?thesis using assms Color_cases [of "Hd_val (mem s) b"] by (auto simp: safe_def)
qed

lemma reachable_safe:
  assumes "(edge s)\<^sup>*\<^sup>* r b" and "r \<in> B" and "colour s r = Caml_gray" and ok: "heap_ok cs B J s"
    and "\<And>b. b \<in> B \<Longrightarrow> colour s b \<noteq> Caml_black"
  shows "safe B s b"
proof -
  have "b \<in> B \<and> protect B s b" using assms(1)
  proof induction
    case base then show ?case using assms(2,3) by (auto intro: protect.gray)
  next
    case (step a b) then show ?case using assms(5) edge_target [OF ok] by (auto intro: protect.edge)
  qed
  then show ?thesis by (simp add: safe_def)
qed

subsection \<open>Stores into fields\<close>

lemma infix_odd: "Tag_hd h = Infix_tag \<Longrightarrow> \<not> Is_block h"
proof -
  assume "Tag_hd h = Infix_tag"
  then have "unat h mod 256 = 249" using unat_and_ff [of h] by (simp add: Tag_hd_def Infix_tag_def)
  then have "odd (unat h)" using dvd_mod_iff [of 2 256 "unat h"] by simp
  then have "bit (unat h) 0" by (simp add: bit_0)
  then have "bit h 0" by (simp only: bit_unsigned_iff)
  then show ?thesis by (simp add: Is_block_iff Is_long_iff_odd bit_0)
qed

definition put :: "addr \<Rightarrow> val \<Rightarrow> 'a rt_scheme \<Rightarrow> 'a rt_scheme" where
  "put a x s = s\<lparr>mem := (mem s)(a := x)\<rparr>"

lemma put_simps [simp]: "mem (put a x s) = (mem s)(a := x)" "Is_in_heap (put a x s) = Is_in_heap s"
  "gray_vals (put a x s) = gray_vals s" "gray_vals_size (put a x s) = gray_vals_size s" "heap_is_pure (put a x s) = heap_is_pure s"
  "heap_start (put a x s) = heap_start s"
  by (simp_all add: put_def)

lemma put_in_heap [simp]: "in_heap (put a x s) = in_heap s"
  by (rule ext) (simp add: in_heap_def)

lemma put_same_gc [simp]: "same_gc s (put a x s)"
  by (simp add: same_gc_def put_def)

lemma put_keeps:
  assumes ok: "heap_ok cs B J s" and v: "v \<in> B" "i < wsz s v" and j: "fld v i + 4 \<notin> J"
    and x: "scans s v \<Longrightarrow> in_heap s x \<Longrightarrow> x \<in> B \<union> J"
  shows "same_shape cs B J s (put (fld v i) x s)" "heap_ok cs B J (put (fld v i) x s)"
    "b \<in> B \<Longrightarrow> Hd_val (mem (put (fld v i) x s)) b = Hd_val (mem s) b"
    "b \<in> B \<Longrightarrow> k < wsz s b \<Longrightarrow> mem (put (fld v i) x s) (fld b k) = (if b = v \<and> k = i then x else mem s (fld b k))"
    "gray_ok B P s \<Longrightarrow> gray_ok B P (put (fld v i) x s)"
proof -
  let ?t = "put (fld v i) x s"
  have nh: "fld v i \<notin> heads cs" "fld v i \<notin> chunk_words cs" using heap_okD(6,7) [OF ok v] by auto
  show h: "Hd_val (mem ?t) b = Hd_val (mem s) b" if "b \<in> B" for b
    using nh heap_okD(1) [OF ok that] by (auto simp: Hd_val_def)
  have "mem ?t (c - 4) = mem s (c - 4)" if "c \<in> J" for c using j that by (auto simp: diff_eq_eq)
  then show sh: "same_shape cs B J s ?t" using nh by (auto simp: same_shape_def)
  show f: "mem ?t (fld b k) = (if b = v \<and> k = i then x else mem s (fld b k))" if "b \<in> B" "k < wsz s b" for b k
    using heap_okD(8) [OF ok that(1) v(1) that(2) v(2)] by auto
  show "heap_ok cs B J ?t"
  proof (rule heap_ok_shape [OF ok sh])
    show "colour ?t b \<noteq> Caml_blue" if "b \<in> B" for b using h [OF that] heap_okD(4) [OF ok that] by simp
    show "mem ?t (fld b k) \<in> B \<union> J" if "b \<in> B" "scans s b" "k < wsz s b" "in_heap s (mem ?t (fld b k))" for b k
      using that f [OF that(1,3)] x heap_okD(12) [OF ok that(1,2,3)] by (auto split: if_splits)
  qed
  show "gray_ok B P ?t" if "gray_ok B P s"
  proof -
    have "colour ?t b = colour s b" if "b \<in> B" for b using h [OF that] by simp
    then show ?thesis using that unfolding gray_ok_def by (auto simp del: put_simps(1))
  qed
qed

subsection \<open>Scanning a block\<close>

lemma mark_child_alt:
  assumes ok: "heap_ok cs B J s" and v: "v \<in> B" "scans s v" "i < wsz s v" and c: "c = mem s (fld v i)" and h: "in_heap s c"
  shows "mark_child v i s = darken c (if Tag_val (mem s) c = Forward_tag then put (fld v i) (mem s c) s else s)"
proof -
  have cb: "c \<in> B \<union> J" using heap_okD(12) [OF ok v] c h by simp
  have F: "Field (mem s) v (word_of_nat i) = c" by (simp add: Field_def c)
  have tags: "Forward_tag \<noteq> Infix_tag" by (simp add: tag_defs)
  show ?thesis
  proof (cases "Tag_val (mem s) c = Forward_tag")
    case True
    have "c \<in> B" using cb True inner_okD(5) [OF ok] tags by auto
    then have n: "c - 4 \<noteq> fld v i" using heap_okD(1) [OF ok, of c] heap_okD(6) [OF ok v(1,3)] by metis
    let ?m = "(mem s)(fld v i := mem s c)"
    have hd: "Hd_val ?m c = Hd_val (mem s) c" using n by (simp add: Hd_val_def)
    then have "darken_base ?m c = c" using True tags by (simp add: darken_base_def Tag_val_def)
    then show ?thesis using True h n hd unfolding mark_child_def F darken_push in_heap_def
      by (simp add: Let_def Tag_val_def put_def set_Field_def Forward_val_def Field_def Hd_val_def)
  next
    case False
    then show ?thesis using h unfolding mark_child_def F darken_push in_heap_def
      by (simp add: Let_def Tag_val_def darken_base_def Infix_offset_val_def)
  qed
qed

definition scanned :: "layout \<Rightarrow> val set \<Rightarrow> val set \<Rightarrow> addr set \<Rightarrow> val \<Rightarrow> 'a gc_scheme \<Rightarrow> nat \<Rightarrow> 'a gc_scheme \<Rightarrow> bool" where
  "scanned cs B J P v s k t \<longleftrightarrow> heap_ok cs B J t \<and> gray_ok B P t \<and> same_gc s t \<and> same_shape cs B J s t \<and>
     (\<forall>b \<in> B. colour t b = colour s b \<or> colour s b = Caml_white \<and> colour t b = Caml_gray) \<and>
     (\<forall>b \<in> B. \<forall>j < wsz s b. b \<noteq> v \<or> k \<le> j \<longrightarrow> mem t (fld b j) = mem s (fld b j)) \<and>
     (\<forall>j < k. in_heap s (mem s (fld v j)) \<longrightarrow> colour t (darken_base (mem s) (mem s (fld v j))) \<noteq> Caml_white)"

lemma scanned_children:
  "scanned cs B J P v s k t \<Longrightarrow> j < k \<Longrightarrow> in_heap s (mem s (fld v j)) \<Longrightarrow>
    colour t (darken_base (mem s) (mem s (fld v j))) \<noteq> Caml_white"
  by (simp add: scanned_def)

lemma shortcut_keeps:
  assumes ok: "heap_ok cs B J t" and v: "v \<in> B" "scans t v" "k < wsz t v" and c: "c = mem t (fld v k)" "in_heap t c"
    and u: "u = (if Tag_val (mem t) c = Forward_tag then put (fld v k) (mem t c) t else t)"
  shows "heap_ok cs B J u" "same_shape cs B J t u" "same_gc t u" "b \<in> B \<Longrightarrow> colour u b = colour t b" "gray_ok B P t \<Longrightarrow> gray_ok B P u"
    "b \<in> B \<Longrightarrow> j < wsz t b \<Longrightarrow> b \<noteq> v \<or> j \<noteq> k \<Longrightarrow> mem u (fld b j) = mem t (fld b j)"
proof -
  have nj: "fld v k + 4 \<notin> J"
  proof
    assume "fld v k + 4 \<in> J"
    then have "Tag_hd c = Infix_tag" using inner_okD(5) [OF ok, of "fld v k + 4"] c(1) by (simp add: Tag_val_def Hd_val_def)
    then show False using infix_odd c(2) by (auto simp: in_heap_def)
  qed
  have x: "mem t c \<in> B \<union> J" if "Tag_val (mem t) c = Forward_tag" "in_heap t (mem t c)"
  proof -
    have "c \<in> B" using heap_okD(12) [OF ok v] c that(1) inner_okD(5) [OF ok] by (auto simp: tag_defs)
    moreover have "scans t c" using that(1) by (simp add: scans_def tag_defs)
    ultimately show ?thesis using heap_okD(12) [OF ok, of c 0] heap_okD(5) [OF ok, of c] that by simp
  qed
  note k = put_keeps [OF ok v(1,3) nj x]
  show "heap_ok cs B J u" "same_shape cs B J t u" "same_gc t u" "gray_ok B P t \<Longrightarrow> gray_ok B P u" using k(1,2,5) ok u by auto
  show "b \<in> B \<Longrightarrow> colour u b = colour t b" using k(3) u by (simp del: put_simps(1))
  show "b \<in> B \<Longrightarrow> j < wsz t b \<Longrightarrow> b \<noteq> v \<or> j \<noteq> k \<Longrightarrow> mem u (fld b j) = mem t (fld b j)" using k(4) u by (auto simp del: put_simps(1))
qed

lemma scanned_step:
  assumes ok: "heap_ok cs B J s" and v: "v \<in> B" "scans s v" "k < wsz s v" and sc: "scanned cs B J P v s k t"
  shows "scanned cs B J P v s (Suc k) (mark_child v k t)"
proof -
  note S = sc [unfolded scanned_def]
  have okt: "heap_ok cs B J t" and sh: "same_shape cs B J s t" using S by auto
  note bl = same_shape_blocks [OF ok sh]
  have vt: "scans t v" "k < wsz t v" using bl v by auto
  let ?c = "mem t (fld v k)"
  have c: "?c = mem s (fld v k)" using S v(1,3) by auto
  show ?thesis
  proof (cases "in_heap t ?c")
    case False
    then have "mark_child v k t = t" by (auto simp: mark_child_def Field_def in_heap_def Let_def)
    moreover have "\<not> in_heap s (mem s (fld v k))" using False c bl(4) by simp
    ultimately show ?thesis using sc by (auto simp: scanned_def less_Suc_eq)
  next
    case True
    have cb: "?c \<in> B \<union> J" using heap_okD(12) [OF okt v(1) vt] True by simp
    let ?u = "if Tag_val (mem t) ?c = Forward_tag then put (fld v k) (mem t ?c) t else t"
    note u = shortcut_keeps [OF okt v(1) vt refl True refl]
    let ?b = "darken_base (mem s) ?c"
    have base: "darken_base (mem ?u) ?c = ?b"
      using same_shape_blocks(5) [OF okt u(2) cb] bl(5) [OF cb] by simp
    have inh: "in_heap ?u ?c" using True same_shape_blocks(4) [OF okt u(2)] by simp
    have inB: "in_heap ?u ?c \<longrightarrow> darken_base (mem ?u) ?c \<in> B" using base_in [OF u(1) cb] by blast
    let ?r = "darken ?c ?u"
    note d = darken_keeps [OF inB]
    have eq: "mark_child v k t = ?r" by (rule mark_child_alt [OF okt v(1) vt refl True])
    have shr: "same_shape cs B J t ?r" by (rule same_shape_trans [OF u(2) darkens_shape [OF u(1) d(1)]])
    have col: "colour ?r b = colour s b \<or> colour s b = Caml_white \<and> colour ?r b = Caml_gray" if "b \<in> B" for b
      using S that u(4) [OF that] darkens_color [OF d(1) that] not_gray_white(1) by auto
    have f: "mem ?r (fld b j) = mem s (fld b j)" if "b \<in> B" "j < wsz s b" "b \<noteq> v \<or> Suc k \<le> j" for b j
    proof -
      have "mem ?r (fld b j) = mem ?u (fld b j)"
        using darkens_fields [OF u(1) d(1) that(1)] same_shape_blocks(1) [OF okt u(2) that(1)] bl(1) [OF that(1)] that(2) by simp
      also have "\<dots> = mem t (fld b j)" using bl(1) [OF that(1)] that(2,3) by (intro u(6) [OF that(1)]) auto
      finally show ?thesis using S that by auto
    qed
    have nw: "colour ?r (darken_base (mem s) (mem s (fld v j))) \<noteq> Caml_white" if "j < Suc k" "in_heap s (mem s (fld v j))" for j
    proof (cases "j = k")
      case True then show ?thesis using d(3) [OF inh] base c by simp
    next
      case False
      let ?d = "darken_base (mem s) (mem s (fld v j))"
      have "?d \<in> B" using that False v base_in [OF ok] heap_okD(12) [OF ok v(1,2)] by auto
      moreover have "colour t ?d \<noteq> Caml_white" using S that False by auto
      ultimately show ?thesis using u(4) darkens_color [OF d(1)] not_gray_white(1) by metis
    qed
    have "same_gc s t" "same_gc ?u ?r" using S d(1) by (simp_all add: darkens_def)
    then have g: "same_gc s ?r" using same_gc_trans u(3) by blast
    have st: "gray_ok B P ?r" using S by (intro d(2) u(5)) simp
    show ?thesis unfolding scanned_def eq
      by (intro conjI ballI allI impI heap_ok_darkens [OF u(1) d(1)] st g same_shape_trans [OF sh shr] col f nw)
  qed
qed

lemma scanned_fold:
  assumes "heap_ok cs B J s" and "v \<in> B" and "scans s v" and "k \<le> wsz s v" and "scanned cs B J P v s 0 s"
  shows "scanned cs B J P v s k (fold (mark_child v) [0..<k] s)"
  using assms(4)
proof (induction k)
  case (Suc k)
  then show ?case using scanned_step [OF assms(1,2,3)] by simp
qed (use assms(5) in simp)

subsection \<open>Blackening the block on top of the stack\<close>

lemma blacken_keeps:
  assumes ok: "heap_ok cs B J s" and st: "gray_ok B P s" and ne: "gray_vals s \<noteq> []" and v: "v = last (gray_vals s)"
    and s0: "s0 = s\<lparr>gray_vals := butlast (gray_vals s), mem := set_Hd_val v (Blackhd_hd (Hd_val (mem s) v)) (mem s)\<rparr>"
  shows "v \<in> B" "colour s v = Caml_gray" "heap_ok cs B J s0" "gray_ok B P s0" "same_gc s s0" "same_shape cs B J s s0"
    "colour s0 b = (if b = v then Caml_black else colour s b)" "b \<in> B \<Longrightarrow> j < wsz s b \<Longrightarrow> mem s0 (fld b j) = mem s (fld b j)"
proof -
  have gs: "gray_vals s = butlast (gray_vals s) @ [v]" using ne v by simp
  have "v \<in> set (gray_vals s)" using ne v by simp
  then show vB: "v \<in> B" and "colour s v = Caml_gray" using st by (auto simp: gray_ok_def)
  have m: "mem s0 = (mem s)(v - 4 := Blackhd_hd (mem s (v - 4)))" by (simp add: s0 set_Hd_val_def Hd_val_def)
  show c: "colour s0 b = (if b = v then Caml_black else colour s b)" for b by (simp add: m Hd_val_def recolor_fields)
  show g: "same_gc s s0" by (simp add: same_gc_def s0 Is_in_heap_def fun_eq_iff)
  have vh: "v - 4 \<in> heads cs" using heap_okD(1) [OF ok vB] .
  have "c - 4 \<noteq> v - 4" if "c \<in> J" for c using inner_not_head [OF ok that] vh by auto
  then show sh: "same_shape cs B J s s0"
    using g vh vB heap_okD(9) [OF ok] by (auto simp: same_shape_def same_gc_def m recolor_fields)
  show f: "mem s0 (fld b j) = mem s (fld b j)" if "b \<in> B" "j < wsz s b" for b j
    using heap_okD(6) [OF ok that] vh by (auto simp: m)
  show "heap_ok cs B J s0"
  proof (rule heap_ok_shape [OF ok sh])
    show "colour s0 b \<noteq> Caml_blue" if "b \<in> B" for b using c heap_okD(4) [OF ok that] not_gray_white by auto
    show "mem s0 (fld b i) \<in> B \<union> J" if "b \<in> B" "scans s b" "i < wsz s b" "in_heap s (mem s0 (fld b i))" for b i
      using that f [OF that(1,3)] heap_okD(12) [OF ok that(1,2,3)] by simp
  qed
  have "distinct (butlast (gray_vals s) @ [v])" using st gs by (simp add: gray_ok_def)
  then have d: "v \<notin> set (butlast (gray_vals s))" "distinct (butlast (gray_vals s))" by auto
  have "b \<in> set (butlast (gray_vals s)) \<or> \<not> heap_is_pure s \<or> b - 4 \<in> P" if "b \<in> B" "colour s0 b = Caml_gray" for b
    using st that c [of b] gs not_gray_white by (auto simp: gray_ok_def split: if_splits) (metis Un_iff empty_iff insert_iff list.set(1) list.set(2) set_append)+
  moreover have "colour s0 b = Caml_gray \<and> b \<in> B" if "b \<in> set (butlast (gray_vals s))" for b
    using st in_set_butlastD [OF that] c [of b] d(1) that by (auto simp: gray_ok_def)
  moreover have "length (butlast (gray_vals s)) < gray_vals_size s" using st unfolding gray_ok_def length_butlast by linarith
  ultimately show "gray_ok B P s0" using st d(2) by (simp add: gray_ok_def s0)
qed

lemma mark_block_keeps:
  assumes ok: "heap_ok cs B J s" and st: "gray_ok B P s" and ne: "gray_vals s \<noteq> []" and v: "v = last (gray_vals s)"
    and t: "t = mark_block v (s\<lparr>gray_vals := butlast (gray_vals s)\<rparr>)"
  shows "heap_ok cs B J t" "gray_ok B P t" "same_gc s t" "same_shape cs B J s t" "safe B s b \<Longrightarrow> safe B t b"
    "v \<in> B" "colour s v = Caml_gray" "colour t v = Caml_black"
    "c \<in> B \<Longrightarrow> c \<noteq> v \<Longrightarrow> colour t c = colour s c \<or> colour s c = Caml_white \<and> colour t c = Caml_gray"
    "w \<in> B \<Longrightarrow> \<not> scans s w \<Longrightarrow> j < wsz s w \<Longrightarrow> mem t (fld w j) = mem s (fld w j)"
proof -
  let ?s0 = "s\<lparr>gray_vals := butlast (gray_vals s), mem := set_Hd_val v (Blackhd_hd (Hd_val (mem s) v)) (mem s)\<rparr>"
  note k = blacken_keeps [OF ok st ne v refl]
  note bl = same_shape_blocks [OF ok k(6)]
  have szv: "wsz ?s0 v = unat (Wosize_hd (Hd_val (mem s) v))" using bl(1) [OF k(1)] by (simp add: Wosize_val_def)
  have teq: "t = (if scans s v then fold (mark_child v) [0..<wsz ?s0 v] ?s0 else ?s0)"
    unfolding t mark_block_def szv by (simp add: Let_def scans_def Tag_val_def)
  have sc: "scanned cs B J P v ?s0 (if scans s v then wsz ?s0 v else 0) t"
  proof (cases "scans s v")
    case True
    then have "scanned cs B J P v ?s0 (wsz ?s0 v) (fold (mark_child v) [0..<wsz ?s0 v] ?s0)"
      using k(3,4) bl(3) [OF k(1)] by (intro scanned_fold [OF k(3) k(1)]) (auto simp: scanned_def)
    then show ?thesis unfolding teq using True by (simp only: if_True)
  next
    case False
    have "scanned cs B J P v ?s0 0 ?s0" using k(3,4) by (auto simp: scanned_def)
    then show ?thesis unfolding teq using False by (simp only: if_False)
  qed
  note S = sc [unfolded scanned_def]
  show okt: "heap_ok cs B J t" and "gray_ok B P t" using S by simp_all
  show "same_gc s t" using S k(5) same_gc_trans by blast
  show sh: "same_shape cs B J s t" using S k(6) same_shape_trans by blast
  show "v \<in> B" "colour s v = Caml_gray" using k(1,2) .
  have "colour ?s0 v = Caml_black" using k(7) [of v] by simp
  then show vb: "colour t v = Caml_black" using S k(1) not_gray_white by (metis)
  show col: "colour t c = colour s c \<or> colour s c = Caml_white \<and> colour t c = Caml_gray" if "c \<in> B" "c \<noteq> v" for c
    using S that k(7) [of c] by auto
  have f: "mem t (fld a j) = mem s (fld a j)" if "a \<in> B" "j < wsz s a" "a \<noteq> v \<or> \<not> scans s v" for a j
    using S that k(8) [OF that(1,2)] bl(1) [OF that(1)] by auto
  then show "w \<in> B \<Longrightarrow> \<not> scans s w \<Longrightarrow> j < wsz s w \<Longrightarrow> mem t (fld w j) = mem s (fld w j)" by blast
  show "safe B s b \<Longrightarrow> safe B t b"
  proof (rule safe_mono)
    show "colour t b \<noteq> Caml_blue" if "b \<in> B" for b using heap_okD(4) [OF okt that] .
    show "colour t b \<noteq> Caml_white" if "b \<in> B" "colour s b \<noteq> Caml_white" for b
      using col [OF that(1)] vb that(2) not_gray_white by metis
    fix a b assume a: "a \<in> B" "b \<in> B" "colour s a \<noteq> Caml_black" "edge s a b"
    show "edge t a b \<and> colour t a \<noteq> Caml_black \<or> colour t b \<noteq> Caml_white"
    proof (cases "a = v")
      case True
      obtain i where i: "scans s v" "i < wsz s v" "in_heap s (mem s (fld v i))" "b = darken_base (mem s) (mem s (fld v i))"
        using a(4) True by (auto simp: edge_def)
      have p: "mem s (fld v i) \<in> B \<union> J" using heap_okD(12) [OF ok k(1) i(1,2,3)] .
      have z: "in_heap ?s0 (mem ?s0 (fld v i))" "i < wsz ?s0 v" "darken_base (mem ?s0) (mem ?s0 (fld v i)) = b"
        using i bl(1) [OF k(1)] bl(4) bl(5) [OF p] k(8) [OF k(1) i(2)] by simp_all
      have "scanned cs B J P v ?s0 (wsz ?s0 v) t" using sc i(1) by (simp only: if_True)
      then show ?thesis using scanned_children [OF _ z(2,1)] z(3) by simp
    next
      case False
      have "edge t a b" using edge_same [OF ok sh a(1) f [OF a(1)]] False a(4) by simp
      then show ?thesis using col [OF a(1) False] a(3) not_gray_white by auto
    qed
  qed
qed

end
