(* ===== verification/Stacks.thy ===== *)
theory Stacks
  imports Marking
begin

text \<open>
  The state of the bytecode machine and the parts of the runtime the interpreter calls on its own
  state: the management of the stack (\<^verbatim>\<open>byterun/stacks.c\<close>) and the raising of exceptions
  (\<^verbatim>\<open>byterun/fail.c\<close>).

  The record \<open>machine\<close> extends the globals of the memory manager with the globals of
  \<^verbatim>\<open>stacks.c\<close>, \<^verbatim>\<open>fail.c\<close> and \<^verbatim>\<open>fix_code.c\<close> and with the local variables of
  \<^verbatim>\<open>interprete\<close>.  The stack and the code are stores of their own, indexed by byte addresses,
  since no instruction reaches one through a pointer into another.  The chain of
  \<^verbatim>\<open>caml__roots_block\<close>s is the list of the values it protects, the innermost first; a pointer
  into the chain is the number of values below it.
\<close>

record machine = gc +
  \<comment> \<open>locals of \<^verbatim>\<open>interprete\<close>\<close>
  pc :: addr
  sp :: addr
  accu :: val
  env :: val
  extra_args :: uint32
  initial_external_raise :: addr
  initial_sp_offset :: uint32
  initial_local_roots :: nat
  \<comment> \<open>\<^verbatim>\<open>stacks.c\<close>\<close>
  stk :: mem
  stack_low :: addr
  stack_high :: addr
  stack_threshold :: addr
  extern_sp :: addr
  trapsp :: addr
  trap_barrier :: addr
  max_stack_size :: uint32
  global_data :: val
  \<comment> \<open>\<^verbatim>\<open>fail.c\<close>, \<^verbatim>\<open>roots.c\<close>, \<^verbatim>\<open>callback.c\<close>\<close>
  external_raise :: addr
  exn_bucket :: val
  out_of_memory_bucket :: val
  local_roots :: "val list"
  callback_depth :: uint32
  \<comment> \<open>\<^verbatim>\<open>fix_code.c\<close>, \<^verbatim>\<open>debugger.c\<close>, \<^verbatim>\<open>backtrace.c\<close>, \<^verbatim>\<open>startup.c\<close>\<close>
  code :: mem
  start_code :: addr
  saved_code :: "uint32 \<Rightarrow> uint8"
  event_count :: uint32
  backtrace_active :: bool
  atom_table :: addr
  \<comment> \<open>the addresses of the operations of the boxed integers, \<^verbatim>\<open>ints.c\<close>\<close>
  int32_ops :: addr
  int64_ops :: addr
  nativeint_ops :: addr

text \<open>What a call that may raise an exception does: it returns, raises or ends the
  program; \<open>Loops\<close> stands for a loop that has used up its bound.\<close>

datatype 'a result = Returns 'a machine | Raises machine | Dies string machine | Loops

text \<open>
  The rest of the runtime, as the interpreter sees it.  A C primitive gets its arguments and works on
  the whole state; the interpreter's own local variables survive the call (\<open>keep_locals\<close>).
  A \<open>loc\<close> is where a root lies, which is the second argument of a \<open>scanning_action\<close>.  The last four operations are a
  hook, the finalisation function of a custom block (by its address), a call of the interpreter and the compactor.
  \<open>malloc\<close> is the C allocator: it gives the address of a block of so many bytes, if
  there is one.
\<close>

datatype loc = Mem addr | Stk addr | Global_data | Local nat | Final_fun nat | Final_val nat

type_synonym scanning_action = "val \<Rightarrow> loc \<Rightarrow> machine \<Rightarrow> unit result"

datatype event_kind = EVENT_COUNT | BREAKPOINT | PROGRAM_START | PROGRAM_EXIT | TRAP_BARRIER
  | UNCAUGHT_EXC

record fns =
  minor_collection :: "machine \<Rightarrow> machine"
  process_event :: "machine \<Rightarrow> unit result"
  debugger :: "event_kind \<Rightarrow> machine \<Rightarrow> machine"
  stash_backtrace :: "machine \<Rightarrow> machine"
  primitive :: "uint32 \<Rightarrow> val list \<Rightarrow> machine \<Rightarrow> val result"
  malloc :: "uint32 \<Rightarrow> machine \<Rightarrow> addr option \<times> machine"
  scan_roots_hook :: "(scanning_action \<Rightarrow> machine \<Rightarrow> unit result) option"
  custom_finalize :: "addr \<Rightarrow> val \<Rightarrow> machine \<Rightarrow> machine"
  callback :: "val \<Rightarrow> val \<Rightarrow> machine \<Rightarrow> val result"
  compact_heap_maybe :: "machine \<Rightarrow> machine"

text \<open>
  The globals as a C program starts, all zero, and an environment in which nothing happens: concrete
  states for the examples are built from them.
\<close>

definition boot_machine :: machine where
  "boot_machine = \<lparr>mem = (\<lambda>_. 0), young_start = 0, young_end = 0, young_ptr = 0, young_limit = 0,
     ref_table = [], ref_table_size = 0, ref_table_reserve = 0, ref_table_limit = 0, heap_start = 0,
     heap_end = 0, page_table = (\<lambda>_. False), gc_phase = Phase_idle, gc_sweep_hp = 0, gray_vals = [],
     gray_vals_size = 0, heap_is_pure = False, stat_heap_size = 0, stat_top_heap_size = 0, stat_heap_chunks = 0,
     page_low = 0, page_high = 0, Fl_head = 0, fl_prev = 0, fl_last = 0, fl_merge = 0,
     fl_cur_size = 0, last_fragment = 0, allocated_words = 0, extra_heap_memory = 0,
     minor_heap_size = 0, major_heap_increment = 0, in_minor_collection = False, force_major_slice = False,
     something_to_do = False, realloc_ok = (\<lambda>_ _. True), fatal = None,
     markhp = 0, chunk = 0, limit = 0, gc_subphase = Subphase_main, weak_prev = None, weak_list_head = 0,
     fl_size_at_phase_change = 0, percent_free = 0, stat_minor_words = 0, stat_promoted_words = 0, stat_major_words = 0,
     stat_minor_collections = 0, stat_major_collections = 0, oldify_todo_list = 0, final_table = [], final_old = 0,
     final_young = 0, final_active = 0, caml_global_roots = 0, global_roots_level = 0, random_seed = 0,
     pc = 0, sp = 0, accu = 0, env = 0, extra_args = 0, initial_external_raise = 0,
     initial_sp_offset = 0, initial_local_roots = 0, stk = (\<lambda>_. 0), stack_low = 0, stack_high = 0,
     stack_threshold = 0, extern_sp = 0, trapsp = 0, trap_barrier = 0, max_stack_size = 0,
     global_data = 0, external_raise = 0, exn_bucket = 0, out_of_memory_bucket = 0, local_roots = [],
     callback_depth = 0, code = (\<lambda>_. 0), start_code = 0, saved_code = (\<lambda>_. 0), event_count = 0,
     backtrace_active = False, atom_table = 0, int32_ops = 0, int64_ops = 0, nativeint_ops = 0\<rparr>"

lemma boot_simps [simp]:
  "mem boot_machine = (\<lambda>_. 0)" "young_ptr boot_machine = 0" "young_limit boot_machine = 0"
  "something_to_do boot_machine = False" "fatal boot_machine = None" "realloc_ok boot_machine = (\<lambda>_ _. True)"
  "pc boot_machine = 0" "sp boot_machine = 0" "accu boot_machine = 0" "env boot_machine = 0"
  "extra_args boot_machine = 0" "initial_sp_offset boot_machine = 0"
  "stk boot_machine = (\<lambda>_. 0)" "stack_low boot_machine = 0" "stack_high boot_machine = 0"
  "extern_sp boot_machine = 0" "trapsp boot_machine = 0" "trap_barrier boot_machine = 0"
  "max_stack_size boot_machine = 0" "global_data boot_machine = 0" "external_raise boot_machine = 0"
  "local_roots boot_machine = []" "code boot_machine = (\<lambda>_. 0)" "backtrace_active boot_machine = False"
  "young_start boot_machine = 0" "young_end boot_machine = 0" "ref_table boot_machine = []"
  "gray_vals boot_machine = []" "gc_phase boot_machine = Phase_idle" "heap_start boot_machine = 0"
  "heap_end boot_machine = 0" "page_table boot_machine = (\<lambda>_. False)"
  by (simp_all add: boot_machine_def)

definition quiet_fns :: fns where
  "quiet_fns = \<lparr>minor_collection = (\<lambda>s. s), process_event = (\<lambda>s. Returns () s),
     debugger = (\<lambda>k s. s), stash_backtrace = (\<lambda>s. s), primitive = (\<lambda>n args s. Returns Val_unit s),
     malloc = (\<lambda>n s. (None, s)), scan_roots_hook = None, custom_finalize = (\<lambda>f v s. s),
     callback = (\<lambda>f v s. Returns Val_unit s), compact_heap_maybe = (\<lambda>s. s)\<rparr>"

definition keep_locals :: "machine \<Rightarrow> machine \<Rightarrow> machine" where
  "keep_locals s t =
     t\<lparr>pc := pc s, sp := sp s, accu := accu s, env := env s, extra_args := extra_args s,
       initial_external_raise := initial_external_raise s,
       initial_sp_offset := initial_sp_offset s, initial_local_roots := initial_local_roots s\<rparr>"

text \<open>The statically allocated blocks of size zero.\<close>

definition Atom :: "machine \<Rightarrow> uint32 \<Rightarrow> val" where
  "Atom s tag = Val_hp (atom_table s + 4 * tag)"

subsection \<open>Exceptions\<close>

definition mlraise :: "val \<Rightarrow> machine \<Rightarrow> 'a result" where
  "mlraise v s =
     (let s1 = s\<lparr>exn_bucket := v\<rparr>
      in if external_raise s1 = 0 then Dies ''Fatal error: exception'' s1 else Raises s1)"

definition alloc_small :: "fns \<Rightarrow> uint32 \<Rightarrow> uint32 \<Rightarrow> machine \<Rightarrow> val \<times> machine" where
  "alloc_small fns wosize tag s =
     Alloc_small (\<lambda>s. keep_locals s (minor_collection fns s)) wosize tag s"

definition raise_constant :: "fns \<Rightarrow> val \<Rightarrow> machine \<Rightarrow> 'a result" where
  "raise_constant fns tag s =
     (let s1 = s\<lparr>local_roots := 0 # tag # local_roots s\<rparr>;
          (bucket, s2) = alloc_small fns 1 0 s1;
          s3 = s2\<lparr>local_roots := (local_roots s2)[0 := bucket],
                  mem := set_Field bucket 0 (local_roots s2 ! 1) (mem s2)\<rparr>
      in mlraise bucket s3)"

definition raise_with_arg :: "fns \<Rightarrow> val \<Rightarrow> val \<Rightarrow> machine \<Rightarrow> 'a result" where
  "raise_with_arg fns tag arg s =
     (let s1 = s\<lparr>local_roots := 0 # tag # arg # local_roots s\<rparr>;
          (bucket, s2) = alloc_small fns 2 0 s1;
          s3 = s2\<lparr>local_roots := (local_roots s2)[0 := bucket],
                  mem := set_Field bucket 1 (local_roots s2 ! 2)
                           (set_Field bucket 0 (local_roots s2 ! 1) (mem s2))\<rparr>
      in mlraise bucket s3)"

definition raise_zero_divide :: "fns \<Rightarrow> machine \<Rightarrow> 'a result" where
  "raise_zero_divide fns s = raise_constant fns (Field (mem s) (global_data s) 5) s"

definition raise_stack_overflow :: "fns \<Rightarrow> machine \<Rightarrow> 'a result" where
  "raise_stack_overflow fns s = raise_constant fns (Field (mem s) (global_data s) 8) s"

definition raise_out_of_memory :: "machine \<Rightarrow> 'a result" where
  "raise_out_of_memory s =
     (if mem s (out_of_memory_bucket s) = 0
      then Dies ''Fatal error: out of memory while raising Out_of_memory'' s
      else mlraise (out_of_memory_bucket s) s)"

definition stat_alloc :: "fns \<Rightarrow> uint32 \<Rightarrow> machine \<Rightarrow> addr result" where
  "stat_alloc fns sz s =
     (case malloc fns sz s of
        (Some a, s1) \<Rightarrow> Returns a s1
      | (None, s1) \<Rightarrow> if sz = 0 then Returns 0 s1 else raise_out_of_memory s1)"

subsection \<open>The stack\<close>

definition Stack_size :: uint32 where "Stack_size = 4096 * 4"
definition Stack_threshold :: uint32 where "Stack_threshold = 256 * 4"

definition Trap_pc :: "mem \<Rightarrow> addr \<Rightarrow> addr" where "Trap_pc m tp = m tp"
definition Trap_link :: "mem \<Rightarrow> addr \<Rightarrow> addr" where "Trap_link m tp = m (tp + 4)"

definition init_stack :: "fns \<Rightarrow> uint32 \<Rightarrow> machine \<Rightarrow> unit result" where
  "init_stack fns initial_max_size s =
     (case stat_alloc fns Stack_size s of
        Returns low s1 \<Rightarrow>
          Returns () (s1\<lparr>stack_low := low, stack_high := low + Stack_size,
            stack_threshold := low + Stack_threshold, extern_sp := low + Stack_size,
            trapsp := low + Stack_size, trap_barrier := low + Stack_size + 4,
            max_stack_size := initial_max_size\<rparr>)
      | Raises s1 \<Rightarrow> Raises s1 | Dies m s1 \<Rightarrow> Dies m s1 | Loops \<Rightarrow> Loops)"

text \<open>
  The loop that doubles the size: the outer option is the loop's bound, the inner one
  says whether the limit was reached.
\<close>

fun grow_size :: "nat \<Rightarrow> uint32 \<Rightarrow> uint32 \<Rightarrow> uint32 \<Rightarrow> uint32 option option" where
  "grow_size 0 max_size need sz = None"
| "grow_size (Suc n) max_size need sz =
     (if max_size \<le> sz then Some None
      else let sz = sz * 2
           in if sz < need then grow_size n max_size need sz else Some (Some sz))"

text \<open>The loop over the trap frames, which moves the links by \<open>shift\<close>.\<close>

fun shift_traps :: "nat \<Rightarrow> (addr \<Rightarrow> addr) \<Rightarrow> addr \<Rightarrow> addr \<Rightarrow> mem \<Rightarrow> mem option" where
  "shift_traps fuel shift new_high p m =
     (if p < new_high
      then case fuel of
             0 \<Rightarrow> None
           | Suc n \<Rightarrow> (let m1 = m(p + 4 := shift (Trap_link m p))
                        in shift_traps n shift new_high (Trap_link m1 p) m1)
      else Some m)"

definition realloc_stack :: "fns \<Rightarrow> uint32 \<Rightarrow> machine \<Rightarrow> unit result" where
  "realloc_stack fns required_space s =
     (let sz = (stack_high s - stack_low s) div 4
      in case grow_size 32 (max_stack_size s)
                ((stack_high s - extern_sp s) div 4 + required_space) sz of
           None \<Rightarrow> Loops
         | Some None \<Rightarrow> raise_stack_overflow fns s
         | Some (Some sz) \<Rightarrow>
             (case stat_alloc fns (sz * 4) s of
                Returns new_low s \<Rightarrow>
                  let new_high = new_low + 4 * sz;
                      shift = (\<lambda>ptr. new_high - (stack_high s - ptr));
                      new_sp = shift (extern_sp s);
                      len = stack_high s - extern_sp s;
                      m = (\<lambda>a. if a - new_sp < len
                               then stk s (extern_sp s + (a - new_sp)) else stk s a)
                  in (case shift_traps (unat sz) shift new_high (shift (trapsp s)) m of
                        None \<Rightarrow> Loops
                      | Some m \<Rightarrow>
                          Returns () (s\<lparr>stk := m, trapsp := shift (trapsp s),
                            trap_barrier := shift (trap_barrier s), stack_low := new_low,
                            stack_high := new_high, stack_threshold := new_low + Stack_threshold,
                            extern_sp := new_sp\<rparr>))
              | Raises s \<Rightarrow> Raises s | Dies m s \<Rightarrow> Dies m s | Loops \<Rightarrow> Loops))"

definition ensure_stack_capacity :: "fns \<Rightarrow> val \<Rightarrow> machine \<Rightarrow> val result" where
  "ensure_stack_capacity fns required_space s =
     (let req = Long_val required_space
      in if extern_sp s - 4 * req < stack_low s
         then case realloc_stack fns req s of
                Returns u s1 \<Rightarrow> Returns Val_unit s1
              | Raises s1 \<Rightarrow> Raises s1 | Dies m s1 \<Rightarrow> Dies m s1 | Loops \<Rightarrow> Loops
         else Returns Val_unit s)"

definition change_max_stack_size :: "uint32 \<Rightarrow> machine \<Rightarrow> machine" where
  "change_max_stack_size new_max_size s =
     (let sz = (stack_high s - extern_sp s) div 4 + Stack_threshold div 4
      in s\<lparr>max_stack_size := (if new_max_size < sz then sz else new_max_size)\<rparr>)"

declare shift_traps.simps [simp del]

subsection \<open>Moving the stack\<close>

text \<open>
  The trap frames of the stack, of four words each, from the address \<open>p\<close> up to the top
  \<open>high\<close>.
\<close>

fun trap_chain :: "mem \<Rightarrow> addr \<Rightarrow> addr \<Rightarrow> addr list \<Rightarrow> bool" where
  "trap_chain m high p [] \<longleftrightarrow> p = high"
| "trap_chain m high p (q # qs) \<longleftrightarrow>
     q = p \<and> p < high \<and> p < Trap_link m p \<and> 16 \<le> Trap_link m p - p \<and> trap_chain m high (Trap_link m p) qs"

lemma trap_chain_above: "trap_chain m high p qs \<Longrightarrow> q \<in> set qs \<Longrightarrow> p \<le> q \<and> q < high"
  by (induction m high p qs rule: trap_chain.induct) fastforce+

lemma trap_chain_le: "trap_chain m high p qs \<Longrightarrow> p \<le> high"
  by (cases qs) auto

lemma unat_diff_ge: "p < q \<Longrightarrow> 16 \<le> q - p \<Longrightarrow> unat p + 16 \<le> unat (q :: addr)"
proof -
  assume "p < q" and "16 \<le> q - p"
  then have "unat (q - p) = unat q - unat p" "16 \<le> unat (q - p)"
    by (auto simp: word_le_nat_alt intro!: unat_sub order.strict_implies_order)
  then show ?thesis by simp
qed

lemma trap_chain_frame:
  "trap_chain m high p qs \<Longrightarrow> q \<in> set qs \<Longrightarrow> unat q + 16 \<le> unat high"
proof (induction m high p qs rule: trap_chain.induct)
  case (2 m high p q' qs)
  have "unat p + 16 \<le> unat (Trap_link m p)"
    using 2(2) by (intro unat_diff_ge) auto
  moreover have "unat (Trap_link m p) \<le> unat high"
    using 2(2) trap_chain_le [of m high "Trap_link m p" qs] by (simp add: word_le_nat_alt)
  ultimately show ?case using 2 by auto
qed simp

lemma trap_chain_head_fresh:
  "trap_chain m high p (q # qs) \<Longrightarrow> q \<notin> set qs"
  using trap_chain_above [of m high "Trap_link m p" qs q] by auto

lemma trap_chain_distinct: "trap_chain m high p qs \<Longrightarrow> distinct qs"
proof (induction m high p qs rule: trap_chain.induct)
  case (2 m high p q qs)
  then show ?case using trap_chain_head_fresh [of m high p q qs] by simp
qed simp

lemma trap_chain_length:
  assumes "trap_chain m high p qs"
  shows "16 * length qs \<le> unat high - unat p"
  using assms
proof (induction m high p qs rule: trap_chain.induct)
  case (2 m high p q qs)
  then have "16 * length qs \<le> unat high - unat (Trap_link m p)" by simp
  moreover have "unat (Trap_link m p) \<le> unat high"
    using 2 trap_chain_le [of m high "Trap_link m p" qs] by (simp add: word_le_nat_alt)
  moreover have "unat p + 16 \<le> unat (Trap_link m p)"
    using 2 by (intro unat_diff_ge) auto
  ultimately show ?case by simp
qed simp

text \<open>
  The link of every frame is moved by \<open>d\<close> in a copy \<open>m\<close> of the old stack \<open>m0\<close> that is
  itself moved by \<open>d\<close>; nothing else changes.
\<close>

lemma shift_traps_chain:
  assumes "trap_chain m0 high p qs" and "length qs \<le> fuel"
    and "\<And>q. q \<in> set qs \<Longrightarrow> m (q + d + 4) = m0 (q + 4)"
    and "\<And>q. q \<in> set qs \<Longrightarrow> q + d < high + d"
  shows "\<exists>m'. shift_traps fuel (\<lambda>x. x + d) (high + d) (p + d) m = Some m' \<and>
    (\<forall>q \<in> set qs. m' (q + d + 4) = m0 (q + 4) + d) \<and>
    (\<forall>a. a \<notin> (\<lambda>q. q + d + 4) ` set qs \<longrightarrow> m' a = m a)"
  using assms
proof (induction qs arbitrary: p fuel m)
  case Nil
  then show ?case by (simp add: shift_traps.simps)
next
  case (Cons q qs)
  then obtain n where fuel: "fuel = Suc n" by (cases fuel) auto
  have q: "q = p" "trap_chain m0 high (m0 (p + 4)) qs"
    using Cons.prems(1) by (auto simp: Trap_link_def)
  have fresh: "p \<notin> set qs" using trap_chain_head_fresh Cons.prems(1) q(1) by blast
  let ?m = "m(p + d + 4 := m0 (p + 4) + d)"
  have "\<exists>m'. shift_traps n (\<lambda>x. x + d) (high + d) (m0 (p + 4) + d) ?m = Some m' \<and>
    (\<forall>q \<in> set qs. m' (q + d + 4) = m0 (q + 4) + d) \<and>
    (\<forall>a. a \<notin> (\<lambda>q. q + d + 4) ` set qs \<longrightarrow> m' a = ?m a)"
  proof (rule Cons.IH [OF q(2)])
    show "length qs \<le> n" using Cons.prems(2) fuel by simp
    show "?m (x + d + 4) = m0 (x + 4)" if "x \<in> set qs" for x
      using that fresh Cons.prems(3) [of x] by auto
    show "x + d < high + d" if "x \<in> set qs" for x using that Cons.prems(4) by simp
  qed
  then obtain m' where m': "shift_traps n (\<lambda>x. x + d) (high + d) (m0 (p + 4) + d) ?m = Some m'"
    "\<forall>q \<in> set qs. m' (q + d + 4) = m0 (q + 4) + d"
    "\<forall>a. a \<notin> (\<lambda>q. q + d + 4) ` set qs \<longrightarrow> m' a = ?m a" by blast
  have "m (p + d + 4) = m0 (p + 4)" "p + d < high + d"
    using Cons.prems(3,4) q(1) by auto
  then have step: "shift_traps fuel (\<lambda>x. x + d) (high + d) (p + d) m = Some m'"
    using m'(1) fuel by (subst shift_traps.simps) (simp add: Trap_link_def Let_def)
  have "p + d + 4 \<notin> (\<lambda>q. q + d + 4) ` set qs" using fresh by auto
  then have "m' (p + d + 4) = m0 (p + 4) + d" using m'(3) by simp
  with m'(2,3) step q(1) show ?case by (intro exI [of _ m']) auto
qed

text \<open>Moving by \<open>d\<close> keeps the order below \<open>high\<close> as long as the moved part does not wrap.\<close>

lemma unat_moved:
  fixes a d high :: addr
  assumes "a \<le> high" and "unat (high - a) \<le> unat (high + d)"
  shows "unat (a + d) = unat (high + d) - (unat high - unat a)"
proof -
  have "high - a \<le> high + d" using assms(2) by (simp add: word_le_nat_alt)
  then have "unat ((high + d) - (high - a)) = unat (high + d) - unat (high - a)"
    by (rule unat_sub)
  moreover have "(high + d) - (high - a) = a + d" by simp
  ultimately show ?thesis using assms(1) by (simp add: unat_sub)
qed

lemma moved_mono:
  fixes a b d lo high :: addr
  assumes "lo \<le> a" and "a < b" and "b \<le> high" and "unat (high - lo) \<le> unat (high + d)"
  shows "a + d < b + d"
proof -
  have le: "unat lo \<le> unat a" "unat a < unat b" "unat b \<le> unat high"
    using assms(1-3) by (simp_all add: word_le_nat_alt word_less_nat_alt)
  have "lo \<le> high" using le by (simp add: word_le_nat_alt)
  then have len: "unat high - unat lo \<le> unat (high + d)" using assms(4) by (simp add: unat_sub)
  have *: "unat (x + d) = unat (high + d) - (unat high - unat x)"
    if "unat lo \<le> unat x" "unat x \<le> unat high" for x
    using that len by (intro unat_moved) (simp_all add: unat_sub word_le_nat_alt)
  from * [of a] * [of b] le len show ?thesis by (simp add: word_less_nat_alt)
qed

lemma trap_chain_moved:
  assumes "trap_chain m high p qs" and "lo \<le> p" and "unat (high - lo) \<le> unat (high + d)"
    and "\<And>q. q \<in> set qs \<Longrightarrow> m' (q + d + 4) = m (q + 4) + d"
  shows "trap_chain m' (high + d) (p + d) (map (\<lambda>q. q + d) qs)"
  using assms
proof (induction m high p qs rule: trap_chain.induct)
  case (2 m high p q qs)
  have link: "Trap_link m' (p + d) = Trap_link m p + d" "p < Trap_link m p" "p < high"
    using 2 by (auto simp: Trap_link_def)
  have "Trap_link m p \<le> high"
    using 2(2) trap_chain_above [of m high "Trap_link m p" qs "hd qs"] by (cases qs) auto
  moreover have "lo \<le> Trap_link m p" using link(2) 2(3) by simp
  ultimately show ?case
    using 2 link moved_mono [of lo p high high d] moved_mono [of lo p "Trap_link m p" high d]
    by auto
qed simp

lemma grow_size_returns:
  assumes "unat max_size \<le> 2 ^ 30" and "unat max_size \<le> unat sz * 2 ^ n"
  shows "grow_size (Suc n) max_size need sz \<noteq> None"
  using assms
proof (induction n arbitrary: sz)
  case (Suc n)
  show ?case
  proof (cases "max_size \<le> sz")
    case False
    then have "unat (sz * 2) = 2 * unat sz"
      using Suc.prems(1) by (simp add: unat_word_ariths word_le_nat_alt)
    then have "grow_size (Suc n) max_size need (sz * 2) \<noteq> None"
      using Suc by (intro Suc.IH) simp_all
    then show ?thesis by (subst grow_size.simps) (simp add: Let_def)
  qed simp
qed (simp add: word_le_nat_alt)

lemma grow_size_enough:
  assumes "grow_size n max_size need sz = Some (Some z)" and "unat max_size \<le> 2 ^ 29"
  shows "need \<le> z" and "unat sz \<le> unat z" and "unat z < 2 ^ 30"
proof -
  have "need \<le> z \<and> unat sz \<le> unat z \<and> unat z < 2 ^ 30"
    using assms
  proof (induction n max_size need sz rule: grow_size.induct)
    case (2 n max_size need sz)
    then have lt: "unat sz < unat max_size" by (auto simp: word_le_nat_alt split: if_splits)
    then have dbl: "unat (sz * 2) = 2 * unat sz"
      using 2(3) by (simp add: unat_word_ariths)
    show ?case
    proof (cases "sz * 2 < need")
      case True
      then have "grow_size n max_size need (sz * 2) = Some (Some z)"
        using 2(2) by (simp add: Let_def split: if_splits)
      then show ?thesis using 2(1) [OF _ refl True] 2(2,3) dbl lt by (auto split: if_splits)
    next
      case False
      then show ?thesis using 2(2,3) dbl lt by (auto simp: Let_def split: if_splits)
    qed
  qed simp
  then show "need \<le> z" "unat sz \<le> unat z" "unat z < 2 ^ 30" by auto
qed

text \<open>
  The invariant of the stack: its limits are in order and a whole number of words apart, and its
  trap frames are those of the list \<open>ps\<close>.
\<close>

definition stack_ok :: "machine \<Rightarrow> addr list \<Rightarrow> bool" where
  "stack_ok s ps \<longleftrightarrow>
     stack_low s \<le> extern_sp s \<and> extern_sp s \<le> trapsp s \<and> trapsp s \<le> stack_high s \<and>
     4 dvd unat (stack_high s) - unat (extern_sp s) \<and>
     trap_chain (stk s) (stack_high s) (trapsp s) ps"

text \<open>What the C library says of \<^verbatim>\<open>malloc\<close>: a block it returns does not wrap around.\<close>

definition malloc_ok :: "fns \<Rightarrow> bool" where
  "malloc_ok fns \<longleftrightarrow>
     (\<forall>n s. snd (malloc fns n s) = s \<and>
       (\<forall>a. fst (malloc fns n s) = Some a \<longrightarrow> unat a + unat n < 2 ^ 32))"

lemma stat_alloc_Returns:
  assumes "malloc_ok fns" and "stat_alloc fns n s = Returns a t" and "n \<noteq> 0"
  shows "t = s" and "unat a + unat n < 2 ^ 32"
  using assms
  by (auto simp: stat_alloc_def malloc_ok_def raise_out_of_memory_def mlraise_def Let_def
      split: prod.splits option.splits if_splits) (metis fst_conv snd_conv)+

lemma stat_alloc_not_Loops: "stat_alloc fns n s \<noteq> Loops"
  by (auto simp: stat_alloc_def raise_out_of_memory_def mlraise_def Let_def
      split: prod.splits option.splits if_splits)

text \<open>
  The state after the stack has moved by \<open>d\<close>: the frames, the trap frames and the registers are
  where they were relative to the top, and there are \<open>req\<close> free words below the stack pointer.
\<close>

definition stack_moved :: "uint32 \<Rightarrow> addr list \<Rightarrow> machine \<Rightarrow> machine \<Rightarrow> bool" where
  "stack_moved req ps s t \<longleftrightarrow>
     (let d = stack_high t - stack_high s
      in stack_ok t (map (\<lambda>p. p + d) ps) \<and>
         extern_sp t = extern_sp s + d \<and> trapsp t = trapsp s + d \<and>
         trap_barrier t = trap_barrier s + d \<and>
         (\<forall>a. extern_sp s \<le> a \<and> a < stack_high s \<and> a \<notin> (\<lambda>p. p + 4) ` set ps
              \<longrightarrow> stk t (a + d) = stk s a) \<and>
         unat (stack_low t) + 4 * unat req \<le> unat (extern_sp t))"

text \<open>The move itself, for a new block at \<open>low\<close> of \<open>z\<close> words that is large enough.\<close>

definition moved_stack :: "addr \<Rightarrow> uint32 \<Rightarrow> mem \<Rightarrow> machine \<Rightarrow> machine" where
  "moved_stack low z m s =
     (let d = low + 4 * z - stack_high s
      in s\<lparr>stk := m, trapsp := trapsp s + d, trap_barrier := trap_barrier s + d, stack_low := low,
           stack_high := low + 4 * z, stack_threshold := low + Stack_threshold,
           extern_sp := extern_sp s + d\<rparr>)"

lemma moved_stack_correct:
  assumes ok: "stack_ok s ps"
    and new: "unat low + 4 * unat z < 2 ^ 32"
    and room: "unat (stack_high s - extern_sp s) + 4 * unat req \<le> 4 * unat z"
    and d: "d = low + 4 * z - stack_high s"
    and links: "\<And>p. p \<in> set ps \<Longrightarrow> m (p + d + 4) = stk s (p + 4) + d"
    and rest: "\<And>a. extern_sp s \<le> a \<Longrightarrow> a < stack_high s \<Longrightarrow> a \<notin> (\<lambda>p. p + 4) ` set ps \<Longrightarrow>
      m (a + d) = stk s a"
  shows "stack_moved req ps s (moved_stack low z m s)"
proof -
  let ?t = "moved_stack low z m s"
  have le: "extern_sp s \<le> trapsp s" "trapsp s \<le> stack_high s" "extern_sp s \<le> stack_high s"
    using ok by (auto simp: stack_ok_def)
  have high: "stack_high s + d = low + 4 * z" using d by simp
  have uhigh: "unat (stack_high s + d) = unat low + 4 * unat z"
    unfolding high using new by (simp add: unat_word_ariths)
  have usp: "unat (stack_high s - extern_sp s) \<le> unat (stack_high s + d)"
    using room uhigh by simp
  have sp': "unat (extern_sp s + d) =
      unat (stack_high s + d) - (unat (stack_high s) - unat (extern_sp s))"
    using le(3) usp by (rule unat_moved)
  have sp'': "unat (extern_sp s + d) = unat low + 4 * unat z - unat (stack_high s - extern_sp s)"
    using sp' uhigh le(3) by (simp add: unat_sub)
  have "trap_chain m (stack_high s + d) (trapsp s + d) (map (\<lambda>q. q + d) ps)"
    using ok le usp links
    by (intro trap_chain_moved [of "stk s" _ _ _ "extern_sp s"]) (auto simp: stack_ok_def)
  moreover have "extern_sp s + d \<le> trapsp s + d" "trapsp s + d \<le> stack_high s + d"
    using moved_mono [of "extern_sp s" "extern_sp s" "trapsp s" "stack_high s" d]
      moved_mono [of "extern_sp s" "trapsp s" "stack_high s" "stack_high s" d] le usp
    by (auto simp: order.order_iff_strict)
  moreover have "low \<le> extern_sp s + d" using sp'' room by (simp add: word_le_nat_alt)
  moreover have "4 dvd unat (stack_high s + d) - unat (extern_sp s + d)"
  proof -
    have "unat (stack_high s + d) - unat (extern_sp s + d)
        = unat (stack_high s) - unat (extern_sp s)"
      using sp' usp le(3) by (simp add: unat_sub)
    then show ?thesis using ok by (simp add: stack_ok_def)
  qed
  ultimately have "stack_ok ?t (map (\<lambda>p. p + d) ps)"
    using ok by (auto simp: stack_ok_def moved_stack_def Let_def d [symmetric] high [symmetric])
  moreover have "unat low + 4 * unat req \<le> unat (extern_sp s + d)"
    using sp'' room by simp
  ultimately show ?thesis
    using rest by (simp add: stack_moved_def moved_stack_def Let_def d [symmetric])
qed

lemma copied_stack:
  assumes "lo \<le> a" and "a < high"
  shows "(if (a + d) - (lo + d) < high - lo then f (lo + ((a + d) - (lo + d))) else g) = f (a :: addr)"
proof -
  have "a - lo < high - lo"
    using assms by (simp add: word_less_nat_alt word_le_nat_alt unat_sub)
  then show ?thesis by simp
qed

lemma realloc_stack_room:
  assumes "stack_ok s ps" and "unat req \<le> 2 ^ 29"
    and "(stack_high s - extern_sp s) div 4 + req \<le> z"
  shows "unat (stack_high s - extern_sp s) + 4 * unat req \<le> 4 * unat z"
proof -
  let ?len = "stack_high s - extern_sp s"
  have "4 dvd unat ?len" using assms(1) by (auto simp: stack_ok_def unat_sub)
  then have four: "4 * (unat ?len div 4) = unat ?len" by simp
  have "unat (?len div 4) = unat ?len div 4" by (simp add: unat_div)
  moreover have "unat ?len div 4 + unat req < 2 ^ 32"
    using assms(2) unat32_lt [of ?len] by simp
  ultimately have "unat (?len div 4 + req) = unat ?len div 4 + unat req"
    by (simp add: unat_word_ariths)
  then have "unat ?len div 4 + unat req \<le> unat z" using assms(3) by (simp add: word_le_nat_alt)
  with four show ?thesis by linarith
qed

lemma realloc_stack_copy:
  assumes ok: "stack_ok s ps" and new: "unat low + 4 * unat z < 2 ^ 32"
    and room: "unat (stack_high s - extern_sp s) + 4 * unat req \<le> 4 * unat z"
    and d: "d = low + 4 * z - stack_high s"
    and m0: "m0 = (\<lambda>a. if a - (extern_sp s + d) < stack_high s - extern_sp s
                  then stk s (extern_sp s + (a - (extern_sp s + d))) else stk s a)"
  shows "\<exists>m. shift_traps (unat z) (\<lambda>x. x + d) (low + 4 * z) (trapsp s + d) m0 = Some m \<and>
    (\<forall>p \<in> set ps. m (p + d + 4) = stk s (p + 4) + d) \<and>
    (\<forall>a. extern_sp s \<le> a \<and> a < stack_high s \<and> a \<notin> (\<lambda>p. p + 4) ` set ps \<longrightarrow> m (a + d) = stk s a)"
proof -
  have le: "extern_sp s \<le> trapsp s" "extern_sp s \<le> stack_high s"
    and chain: "trap_chain (stk s) (stack_high s) (trapsp s) ps"
    using ok by (auto simp: stack_ok_def)
  have high: "stack_high s + d = low + 4 * z" using d by simp
  have usp: "unat (stack_high s - extern_sp s) \<le> unat (stack_high s + d)"
    unfolding high using new room by (simp add: unat_word_ariths)
  have copied: "m0 (a + d) = stk s a" if "extern_sp s \<le> a" "a < stack_high s" for a
    unfolding m0 using that copied_stack [of "extern_sp s" a "stack_high s" d "stk s"] by simp
  have inside: "extern_sp s \<le> p" "p < stack_high s" "extern_sp s \<le> p + 4" "p + 4 < stack_high s"
    if "p \<in> set ps" for p
  proof -
    show *: "extern_sp s \<le> p" "p < stack_high s"
      using trap_chain_above [OF chain that] le by auto
    have "unat p + 16 \<le> unat (stack_high s)" using trap_chain_frame [OF chain that] .
    then show "extern_sp s \<le> p + 4" "p + 4 < stack_high s"
      using * unat32_lt [of "stack_high s"]
      by (simp_all add: word_le_nat_alt word_less_nat_alt unat_word_ariths)
  qed
  have fuel: "length ps \<le> unat z"
  proof -
    have "unat (stack_high s) - unat (trapsp s) \<le> unat (stack_high s - extern_sp s)"
      using le by (simp add: unat_sub word_le_nat_alt)
    then show ?thesis using trap_chain_length [OF chain] room by linarith
  qed
  have "\<exists>m. shift_traps (unat z) (\<lambda>x. x + d) (stack_high s + d) (trapsp s + d) m0 = Some m \<and>
    (\<forall>q \<in> set ps. m (q + d + 4) = stk s (q + 4) + d) \<and>
    (\<forall>a. a \<notin> (\<lambda>q. q + d + 4) ` set ps \<longrightarrow> m a = m0 a)"
  proof (rule shift_traps_chain [OF chain fuel])
    show "m0 (q + d + 4) = stk s (q + 4)" if "q \<in> set ps" for q
      using copied [of "q + 4"] inside [OF that] by (simp add: ac_simps)
    show "q + d < stack_high s + d" if "q \<in> set ps" for q
      using moved_mono [of "extern_sp s" q "stack_high s" "stack_high s" d] inside [OF that] usp
      by simp
  qed
  then obtain m where m: "shift_traps (unat z) (\<lambda>x. x + d) (stack_high s + d) (trapsp s + d) m0 = Some m"
    "\<forall>q \<in> set ps. m (q + d + 4) = stk s (q + 4) + d"
    "\<forall>a. a \<notin> (\<lambda>q. q + d + 4) ` set ps \<longrightarrow> m a = m0 a" by blast
  have "m (a + d) = stk s a"
    if "extern_sp s \<le> a" "a < stack_high s" "a \<notin> (\<lambda>p. p + 4) ` set ps" for a
  proof -
    have "a + d \<notin> (\<lambda>q. q + d + 4) ` set ps" using that(3) by (auto simp: algebra_simps)
    then show ?thesis using m(3) copied that by simp
  qed
  with m high show ?thesis by (intro exI [of _ m]) auto
qed

lemma realloc_stack_unfold:
  assumes "grow_size 32 (max_stack_size s) ((stack_high s - extern_sp s) div 4 + req)
      ((stack_high s - stack_low s) div 4) = Some (Some z)"
    and "stat_alloc fns (z * 4) s = Returns low s"
    and d: "d = low + 4 * z - stack_high s"
  shows "realloc_stack fns req s =
    (case shift_traps (unat z) (\<lambda>x. x + d) (low + 4 * z) (trapsp s + d)
       (\<lambda>a. if a - (extern_sp s + d) < stack_high s - extern_sp s
          then stk s (extern_sp s + (a - (extern_sp s + d))) else stk s a) of
      None \<Rightarrow> Loops | Some m \<Rightarrow> Returns () (moved_stack low z m s))"
proof -
  have shift: "low + 4 * z - (stack_high s - x) = x + d" for x by (simp add: d)
  show ?thesis
    unfolding realloc_stack_def Let_def assms(1,2) option.case result.case shift
    by (simp add: moved_stack_def d Let_def split: option.splits)
qed

text \<open>
  C5.  Growing the stack ends (with the new stack, with \<^verbatim>\<open>Stack_overflow\<close>, or out of memory); when
  it succeeds, every word of the live stack is where it was relative to the top, the chain of
  trap frames is the old one moved, links included, and the requested space is free.
\<close>

theorem realloc_stack_moves:
  assumes "malloc_ok fns" and ok: "stack_ok s ps" and mx: "unat (max_stack_size s) \<le> 2 ^ 29"
    and pos: "4 \<le> stack_high s - stack_low s" and req: "unat req \<le> 2 ^ 29"
  shows "case realloc_stack fns req s of
      Returns u t \<Rightarrow> stack_moved req ps s t
    | Loops \<Rightarrow> False
    | _ \<Rightarrow> True"
proof -
  let ?need = "(stack_high s - extern_sp s) div 4 + req"
  let ?sz = "(stack_high s - stack_low s) div 4"
  have "unat ?sz \<noteq> 0" using pos by (simp add: unat_div word_le_nat_alt div_eq_0_iff)
  then have "unat (max_stack_size s) \<le> unat ?sz * 2 ^ 31"
    using mx by (cases "unat ?sz") auto
  then have total: "grow_size 32 (max_stack_size s) ?need ?sz \<noteq> None"
    using grow_size_returns [of "max_stack_size s" ?sz 31 ?need] mx
    by (simp only: Suc_numeral) simp
  show ?thesis
  proof (cases "grow_size 32 (max_stack_size s) ?need ?sz")
    case (Some r)
    show ?thesis
    proof (cases r)
      case None
      with Some show ?thesis
        by (simp add: realloc_stack_def raise_stack_overflow_def raise_constant_def mlraise_def Let_def
            split: prod.splits)
    next
      case z: (Some z)
      note enough = grow_size_enough [OF Some [unfolded z] mx]
      have room: "unat (stack_high s - extern_sp s) + 4 * unat req \<le> 4 * unat z"
        using realloc_stack_room [OF ok req enough(1)] .
      have uz: "unat (z * 4) = 4 * unat z" using enough(3) by (simp add: unat_word_ariths)
      have "z * 4 \<noteq> 0" using enough(2) uz \<open>unat ?sz \<noteq> 0\<close> by (auto simp: unat_eq_zero)
      show ?thesis
      proof (cases "stat_alloc fns (z * 4) s")
        case (Returns low t)
        note low = stat_alloc_Returns [OF assms(1) Returns \<open>z * 4 \<noteq> 0\<close>]
        define d where "d = low + 4 * z - stack_high s"
        define m0 where "m0 = (\<lambda>a. if a - (extern_sp s + d) < stack_high s - extern_sp s
          then stk s (extern_sp s + (a - (extern_sp s + d))) else stk s a)"
        have "unat low + 4 * unat z < 2 ^ 32" using low(2) uz by simp
        note copy = realloc_stack_copy [OF ok this room d_def m0_def]
        then obtain m where
          m: "shift_traps (unat z) (\<lambda>x. x + d) (low + 4 * z) (trapsp s + d) m0 = Some m" and
          kept: "\<And>p. p \<in> set ps \<Longrightarrow> m (p + d + 4) = stk s (p + 4) + d"
            "\<And>a. extern_sp s \<le> a \<Longrightarrow> a < stack_high s \<Longrightarrow> a \<notin> (\<lambda>p. p + 4) ` set ps \<Longrightarrow>
              m (a + d) = stk s a"
          by blast
        have "realloc_stack fns req s = Returns () (moved_stack low z m s)"
          using realloc_stack_unfold [OF Some [unfolded z] Returns [unfolded low(1)] d_def]
            m [unfolded m0_def] by simp
        moreover have "stack_moved req ps s (moved_stack low z m s)"
          using moved_stack_correct [OF ok \<open>unat low + 4 * unat z < 2 ^ 32\<close> room d_def kept] .
        ultimately show ?thesis by simp
      qed (use Some z stat_alloc_not_Loops [of fns "z * 4" s] in \<open>simp_all add: realloc_stack_def Let_def\<close>)
    qed
  qed (use total in simp)
qed

definition small_malloc :: "uint32 \<Rightarrow> machine \<Rightarrow> addr option \<times> machine" where
  "small_malloc n s = (if n \<le> 1048576 then Some 65536 else None, s)"

theorem realloc_stack_moves_witness:
  "case realloc_stack (quiet_fns\<lparr>malloc := small_malloc\<rparr>) 16
      (boot_machine\<lparr>stack_low := 1024, stack_high := 2048, extern_sp := 1040, trapsp := 2048,
         max_stack_size := 1024\<rparr>) of
     Returns u t \<Rightarrow> stack_moved 16 [] (boot_machine\<lparr>stack_low := 1024, stack_high := 2048,
         extern_sp := 1040, trapsp := 2048, max_stack_size := 1024\<rparr>) t
   | Loops \<Rightarrow> False
   | _ \<Rightarrow> True"
proof -
  have "malloc_ok (quiet_fns\<lparr>malloc := small_malloc\<rparr>)"
    by (auto simp: malloc_ok_def small_malloc_def word_le_nat_alt)
  then show ?thesis
    by (rule realloc_stack_moves) (simp_all add: stack_ok_def)
qed

end
