(* ===== verification/Interp.thy ===== *)
theory Interp
  imports Stacks
begin

text \<open>
  The bytecode interpreter (\<^verbatim>\<open>byterun/interp.c\<close>, function \<^verbatim>\<open>interprete\<close>), in the
  configuration that dispatches with a \<^verbatim>\<open>switch\<close>.  Every instruction is a definition on the
  machine state; the instructions are grouped as the sections of the source are
  (\<open>exec_stack\<close>, \<open>exec_apply\<close>, \<dots>), \<open>exec_instr\<close> is the \<^verbatim>\<open>switch\<close>, \<open>step\<close> the
  body of the loop and \<open>run\<close> the loop.

  Pointers are byte addresses: \<^verbatim>\<open>sp[i]\<close> is \<open>stk s (sp s + 4 * i)\<close> and \<^verbatim>\<open>*pc++\<close> reads
  \<open>code s (pc s)\<close> and adds 4 to \<open>pc\<close>.  The types \<^verbatim>\<open>int\<close>, \<^verbatim>\<open>long\<close> and
  \<^verbatim>\<open>opcode_t\<close> all have 32 bits.
\<close>

subsection \<open>Opcodes, in the order of \<^verbatim>\<open>instruct.h\<close>\<close>

abbreviation (input) ACC0 :: uint32 where "ACC0 \<equiv> 0"
abbreviation (input) ACC1 :: uint32 where "ACC1 \<equiv> 1"
abbreviation (input) ACC2 :: uint32 where "ACC2 \<equiv> 2"
abbreviation (input) ACC3 :: uint32 where "ACC3 \<equiv> 3"
abbreviation (input) ACC4 :: uint32 where "ACC4 \<equiv> 4"
abbreviation (input) ACC5 :: uint32 where "ACC5 \<equiv> 5"
abbreviation (input) ACC6 :: uint32 where "ACC6 \<equiv> 6"
abbreviation (input) ACC7 :: uint32 where "ACC7 \<equiv> 7"
abbreviation (input) ACC :: uint32 where "ACC \<equiv> 8"
abbreviation (input) PUSH :: uint32 where "PUSH \<equiv> 9"
abbreviation (input) PUSHACC0 :: uint32 where "PUSHACC0 \<equiv> 10"
abbreviation (input) PUSHACC1 :: uint32 where "PUSHACC1 \<equiv> 11"
abbreviation (input) PUSHACC2 :: uint32 where "PUSHACC2 \<equiv> 12"
abbreviation (input) PUSHACC3 :: uint32 where "PUSHACC3 \<equiv> 13"
abbreviation (input) PUSHACC4 :: uint32 where "PUSHACC4 \<equiv> 14"
abbreviation (input) PUSHACC5 :: uint32 where "PUSHACC5 \<equiv> 15"
abbreviation (input) PUSHACC6 :: uint32 where "PUSHACC6 \<equiv> 16"
abbreviation (input) PUSHACC7 :: uint32 where "PUSHACC7 \<equiv> 17"
abbreviation (input) PUSHACC :: uint32 where "PUSHACC \<equiv> 18"
abbreviation (input) POP :: uint32 where "POP \<equiv> 19"
abbreviation (input) ASSIGN :: uint32 where "ASSIGN \<equiv> 20"
abbreviation (input) ENVACC1 :: uint32 where "ENVACC1 \<equiv> 21"
abbreviation (input) ENVACC2 :: uint32 where "ENVACC2 \<equiv> 22"
abbreviation (input) ENVACC3 :: uint32 where "ENVACC3 \<equiv> 23"
abbreviation (input) ENVACC4 :: uint32 where "ENVACC4 \<equiv> 24"
abbreviation (input) ENVACC :: uint32 where "ENVACC \<equiv> 25"
abbreviation (input) PUSHENVACC1 :: uint32 where "PUSHENVACC1 \<equiv> 26"
abbreviation (input) PUSHENVACC2 :: uint32 where "PUSHENVACC2 \<equiv> 27"
abbreviation (input) PUSHENVACC3 :: uint32 where "PUSHENVACC3 \<equiv> 28"
abbreviation (input) PUSHENVACC4 :: uint32 where "PUSHENVACC4 \<equiv> 29"
abbreviation (input) PUSHENVACC :: uint32 where "PUSHENVACC \<equiv> 30"
abbreviation (input) PUSH_RETADDR :: uint32 where "PUSH_RETADDR \<equiv> 31"
abbreviation (input) APPLY :: uint32 where "APPLY \<equiv> 32"
abbreviation (input) APPLY1 :: uint32 where "APPLY1 \<equiv> 33"
abbreviation (input) APPLY2 :: uint32 where "APPLY2 \<equiv> 34"
abbreviation (input) APPLY3 :: uint32 where "APPLY3 \<equiv> 35"
abbreviation (input) APPTERM :: uint32 where "APPTERM \<equiv> 36"
abbreviation (input) APPTERM1 :: uint32 where "APPTERM1 \<equiv> 37"
abbreviation (input) APPTERM2 :: uint32 where "APPTERM2 \<equiv> 38"
abbreviation (input) APPTERM3 :: uint32 where "APPTERM3 \<equiv> 39"
abbreviation (input) RETURN :: uint32 where "RETURN \<equiv> 40"
abbreviation (input) RESTART :: uint32 where "RESTART \<equiv> 41"
abbreviation (input) GRAB :: uint32 where "GRAB \<equiv> 42"
abbreviation (input) CLOSURE :: uint32 where "CLOSURE \<equiv> 43"
abbreviation (input) CLOSUREREC :: uint32 where "CLOSUREREC \<equiv> 44"
abbreviation (input) OFFSETCLOSUREM2 :: uint32 where "OFFSETCLOSUREM2 \<equiv> 45"
abbreviation (input) OFFSETCLOSURE0 :: uint32 where "OFFSETCLOSURE0 \<equiv> 46"
abbreviation (input) OFFSETCLOSURE2 :: uint32 where "OFFSETCLOSURE2 \<equiv> 47"
abbreviation (input) OFFSETCLOSURE :: uint32 where "OFFSETCLOSURE \<equiv> 48"
abbreviation (input) PUSHOFFSETCLOSUREM2 :: uint32 where "PUSHOFFSETCLOSUREM2 \<equiv> 49"
abbreviation (input) PUSHOFFSETCLOSURE0 :: uint32 where "PUSHOFFSETCLOSURE0 \<equiv> 50"
abbreviation (input) PUSHOFFSETCLOSURE2 :: uint32 where "PUSHOFFSETCLOSURE2 \<equiv> 51"
abbreviation (input) PUSHOFFSETCLOSURE :: uint32 where "PUSHOFFSETCLOSURE \<equiv> 52"
abbreviation (input) GETGLOBAL :: uint32 where "GETGLOBAL \<equiv> 53"
abbreviation (input) PUSHGETGLOBAL :: uint32 where "PUSHGETGLOBAL \<equiv> 54"
abbreviation (input) GETGLOBALFIELD :: uint32 where "GETGLOBALFIELD \<equiv> 55"
abbreviation (input) PUSHGETGLOBALFIELD :: uint32 where "PUSHGETGLOBALFIELD \<equiv> 56"
abbreviation (input) SETGLOBAL :: uint32 where "SETGLOBAL \<equiv> 57"
abbreviation (input) ATOM0 :: uint32 where "ATOM0 \<equiv> 58"
abbreviation (input) ATOM :: uint32 where "ATOM \<equiv> 59"
abbreviation (input) PUSHATOM0 :: uint32 where "PUSHATOM0 \<equiv> 60"
abbreviation (input) PUSHATOM :: uint32 where "PUSHATOM \<equiv> 61"
abbreviation (input) MAKEBLOCK :: uint32 where "MAKEBLOCK \<equiv> 62"
abbreviation (input) MAKEBLOCK1 :: uint32 where "MAKEBLOCK1 \<equiv> 63"
abbreviation (input) MAKEBLOCK2 :: uint32 where "MAKEBLOCK2 \<equiv> 64"
abbreviation (input) MAKEBLOCK3 :: uint32 where "MAKEBLOCK3 \<equiv> 65"
abbreviation (input) MAKEFLOATBLOCK :: uint32 where "MAKEFLOATBLOCK \<equiv> 66"
abbreviation (input) GETFIELD0 :: uint32 where "GETFIELD0 \<equiv> 67"
abbreviation (input) GETFIELD1 :: uint32 where "GETFIELD1 \<equiv> 68"
abbreviation (input) GETFIELD2 :: uint32 where "GETFIELD2 \<equiv> 69"
abbreviation (input) GETFIELD3 :: uint32 where "GETFIELD3 \<equiv> 70"
abbreviation (input) GETFIELD :: uint32 where "GETFIELD \<equiv> 71"
abbreviation (input) GETFLOATFIELD :: uint32 where "GETFLOATFIELD \<equiv> 72"
abbreviation (input) SETFIELD0 :: uint32 where "SETFIELD0 \<equiv> 73"
abbreviation (input) SETFIELD1 :: uint32 where "SETFIELD1 \<equiv> 74"
abbreviation (input) SETFIELD2 :: uint32 where "SETFIELD2 \<equiv> 75"
abbreviation (input) SETFIELD3 :: uint32 where "SETFIELD3 \<equiv> 76"
abbreviation (input) SETFIELD :: uint32 where "SETFIELD \<equiv> 77"
abbreviation (input) SETFLOATFIELD :: uint32 where "SETFLOATFIELD \<equiv> 78"
abbreviation (input) VECTLENGTH :: uint32 where "VECTLENGTH \<equiv> 79"
abbreviation (input) GETVECTITEM :: uint32 where "GETVECTITEM \<equiv> 80"
abbreviation (input) SETVECTITEM :: uint32 where "SETVECTITEM \<equiv> 81"
abbreviation (input) GETSTRINGCHAR :: uint32 where "GETSTRINGCHAR \<equiv> 82"
abbreviation (input) SETSTRINGCHAR :: uint32 where "SETSTRINGCHAR \<equiv> 83"
abbreviation (input) BRANCH :: uint32 where "BRANCH \<equiv> 84"
abbreviation (input) BRANCHIF :: uint32 where "BRANCHIF \<equiv> 85"
abbreviation (input) BRANCHIFNOT :: uint32 where "BRANCHIFNOT \<equiv> 86"
abbreviation (input) SWITCH :: uint32 where "SWITCH \<equiv> 87"
abbreviation (input) BOOLNOT :: uint32 where "BOOLNOT \<equiv> 88"
abbreviation (input) PUSHTRAP :: uint32 where "PUSHTRAP \<equiv> 89"
abbreviation (input) POPTRAP :: uint32 where "POPTRAP \<equiv> 90"
abbreviation (input) RAISE :: uint32 where "RAISE \<equiv> 91"
abbreviation (input) CHECK_SIGNALS :: uint32 where "CHECK_SIGNALS \<equiv> 92"
abbreviation (input) C_CALL1 :: uint32 where "C_CALL1 \<equiv> 93"
abbreviation (input) C_CALL2 :: uint32 where "C_CALL2 \<equiv> 94"
abbreviation (input) C_CALL3 :: uint32 where "C_CALL3 \<equiv> 95"
abbreviation (input) C_CALL4 :: uint32 where "C_CALL4 \<equiv> 96"
abbreviation (input) C_CALL5 :: uint32 where "C_CALL5 \<equiv> 97"
abbreviation (input) C_CALLN :: uint32 where "C_CALLN \<equiv> 98"
abbreviation (input) CONST0 :: uint32 where "CONST0 \<equiv> 99"
abbreviation (input) CONST1 :: uint32 where "CONST1 \<equiv> 100"
abbreviation (input) CONST2 :: uint32 where "CONST2 \<equiv> 101"
abbreviation (input) CONST3 :: uint32 where "CONST3 \<equiv> 102"
abbreviation (input) CONSTINT :: uint32 where "CONSTINT \<equiv> 103"
abbreviation (input) PUSHCONST0 :: uint32 where "PUSHCONST0 \<equiv> 104"
abbreviation (input) PUSHCONST1 :: uint32 where "PUSHCONST1 \<equiv> 105"
abbreviation (input) PUSHCONST2 :: uint32 where "PUSHCONST2 \<equiv> 106"
abbreviation (input) PUSHCONST3 :: uint32 where "PUSHCONST3 \<equiv> 107"
abbreviation (input) PUSHCONSTINT :: uint32 where "PUSHCONSTINT \<equiv> 108"
abbreviation (input) NEGINT :: uint32 where "NEGINT \<equiv> 109"
abbreviation (input) ADDINT :: uint32 where "ADDINT \<equiv> 110"
abbreviation (input) SUBINT :: uint32 where "SUBINT \<equiv> 111"
abbreviation (input) MULINT :: uint32 where "MULINT \<equiv> 112"
abbreviation (input) DIVINT :: uint32 where "DIVINT \<equiv> 113"
abbreviation (input) MODINT :: uint32 where "MODINT \<equiv> 114"
abbreviation (input) ANDINT :: uint32 where "ANDINT \<equiv> 115"
abbreviation (input) ORINT :: uint32 where "ORINT \<equiv> 116"
abbreviation (input) XORINT :: uint32 where "XORINT \<equiv> 117"
abbreviation (input) LSLINT :: uint32 where "LSLINT \<equiv> 118"
abbreviation (input) LSRINT :: uint32 where "LSRINT \<equiv> 119"
abbreviation (input) ASRINT :: uint32 where "ASRINT \<equiv> 120"
abbreviation (input) EQ :: uint32 where "EQ \<equiv> 121"
abbreviation (input) NEQ :: uint32 where "NEQ \<equiv> 122"
abbreviation (input) LTINT :: uint32 where "LTINT \<equiv> 123"
abbreviation (input) LEINT :: uint32 where "LEINT \<equiv> 124"
abbreviation (input) GTINT :: uint32 where "GTINT \<equiv> 125"
abbreviation (input) GEINT :: uint32 where "GEINT \<equiv> 126"
abbreviation (input) OFFSETINT :: uint32 where "OFFSETINT \<equiv> 127"
abbreviation (input) OFFSETREF :: uint32 where "OFFSETREF \<equiv> 128"
abbreviation (input) ISINT :: uint32 where "ISINT \<equiv> 129"
abbreviation (input) GETMETHOD :: uint32 where "GETMETHOD \<equiv> 130"
abbreviation (input) BEQ :: uint32 where "BEQ \<equiv> 131"
abbreviation (input) BNEQ :: uint32 where "BNEQ \<equiv> 132"
abbreviation (input) BLTINT :: uint32 where "BLTINT \<equiv> 133"
abbreviation (input) BLEINT :: uint32 where "BLEINT \<equiv> 134"
abbreviation (input) BGTINT :: uint32 where "BGTINT \<equiv> 135"
abbreviation (input) BGEINT :: uint32 where "BGEINT \<equiv> 136"
abbreviation (input) ULTINT :: uint32 where "ULTINT \<equiv> 137"
abbreviation (input) UGEINT :: uint32 where "UGEINT \<equiv> 138"
abbreviation (input) BULTINT :: uint32 where "BULTINT \<equiv> 139"
abbreviation (input) BUGEINT :: uint32 where "BUGEINT \<equiv> 140"
abbreviation (input) STOP :: uint32 where "STOP \<equiv> 141"
abbreviation (input) EVENT :: uint32 where "EVENT \<equiv> 142"
abbreviation (input) BREAK :: uint32 where "BREAK \<equiv> 143"

subsection \<open>Results and shared pieces\<close>

text \<open>
  One turn of the loop goes on, returns from \<^verbatim>\<open>interprete\<close>, or ends the program; \<open>Stuck\<close>
  stands for an instruction that never ends.
\<close>

datatype outcome = Running machine | Returned val machine | Fatal string machine | Stuck

definition stkn :: "machine \<Rightarrow> uint32 \<Rightarrow> val" where
  "stkn s i = stk s (sp s + 4 * i)"

definition set_stkn :: "uint32 \<Rightarrow> val \<Rightarrow> machine \<Rightarrow> machine" where
  "set_stkn i v s = s\<lparr>stk := (stk s)(sp s + 4 * i := v)\<rparr>"

definition push :: "val \<Rightarrow> machine \<Rightarrow> machine" where
  "push v s = s\<lparr>stk := (stk s)(sp s - 4 := v), sp := sp s - 4\<rparr>"

definition pop :: "uint32 \<Rightarrow> machine \<Rightarrow> machine" where
  "pop n s = s\<lparr>sp := sp s + 4 * n\<rparr>"

definition opnd :: "machine \<Rightarrow> uint32 \<Rightarrow> uint32" where
  "opnd s i = code s (pc s + 4 * i)"

definition skip :: "uint32 \<Rightarrow> machine \<Rightarrow> machine" where
  "skip n s = s\<lparr>pc := pc s + 4 * n\<rparr>"

definition set_accu :: "val \<Rightarrow> machine \<Rightarrow> machine" where
  "set_accu v s = s\<lparr>accu := v\<rparr>"

lemmas reg_defs = stkn_def set_stkn_def push_def pop_def opnd_def skip_def set_accu_def

definition Setup_for_gc :: "machine \<Rightarrow> machine" where
  "Setup_for_gc s =
     (let s1 = s\<lparr>sp := sp s - 4 * 2\<rparr>;
          s2 = set_stkn 1 (env s1) (set_stkn 0 (accu s1) s1)
      in s2\<lparr>extern_sp := sp s2\<rparr>)"

definition Restore_after_gc :: "machine \<Rightarrow> machine" where
  "Restore_after_gc s = s\<lparr>accu := stkn s 0, env := stkn s 1, sp := sp s + 4 * 2\<rparr>"

definition gc_from_interp :: "fns \<Rightarrow> machine \<Rightarrow> machine" where
  "gc_from_interp fns s =
     (let s1 = Setup_for_gc s in Restore_after_gc (keep_locals s1 (minor_collection fns s1)))"

definition Alloc_small_i :: "fns \<Rightarrow> uint32 \<Rightarrow> uint32 \<Rightarrow> machine \<Rightarrow> val \<times> machine" where
  "Alloc_small_i fns wosize tag s = Alloc_small (gc_from_interp fns) wosize tag s"

definition Setup_for_c_call :: "machine \<Rightarrow> machine" where
  "Setup_for_c_call s = (let s1 = push (env s) s in s1\<lparr>extern_sp := sp s1\<rparr>)"

definition Restore_after_c_call :: "machine \<Rightarrow> machine" where
  "Restore_after_c_call s =
     (let s1 = s\<lparr>sp := extern_sp s\<rparr> in s1\<lparr>env := stkn s1 0, sp := sp s1 + 4\<rparr>)"

definition Setup_for_event :: "machine \<Rightarrow> machine" where
  "Setup_for_event s =
     (let s1 = s\<lparr>sp := sp s - 4 * 6\<rparr>;
          s2 = set_stkn 0 (accu s1) s1;
          s3 = set_stkn 1 Val_unit s2;
          s4 = set_stkn 2 Val_unit s3;
          s5 = set_stkn 3 (pc s4) s4;
          s6 = set_stkn 4 (env s5) s5;
          s7 = set_stkn 5 (Val_long (extra_args s6)) s6
      in s7\<lparr>extern_sp := sp s7\<rparr>)"

definition Restore_after_event :: "machine \<Rightarrow> machine" where
  "Restore_after_event s =
     (let s1 = s\<lparr>sp := extern_sp s\<rparr>
      in s1\<lparr>accu := stkn s1 0, pc := stkn s1 3, env := stkn s1 4,
            extra_args := Long_val (stkn s1 5), sp := sp s1 + 4 * 6\<rparr>)"

definition Setup_for_debugger :: "machine \<Rightarrow> machine" where
  "Setup_for_debugger s =
     (let s1 = s\<lparr>sp := sp s - 4 * 4\<rparr>;
          s2 = set_stkn 0 (accu s1) s1;
          s3 = set_stkn 1 (pc s2 - 4) s2;
          s4 = set_stkn 2 (env s3) s3;
          s5 = set_stkn 3 (Val_long (extra_args s4)) s4
      in s5\<lparr>extern_sp := sp s5\<rparr>)"

definition Restore_after_debugger :: "machine \<Rightarrow> machine" where
  "Restore_after_debugger s = pop 4 s"

subsection \<open>Raising, stack checks and signals\<close>

definition Make_exception_result :: "val \<Rightarrow> val" where
  "Make_exception_result v = v OR 2"

definition Is_exception_result :: "val \<Rightarrow> bool" where
  "Is_exception_result v \<longleftrightarrow> v AND 3 = 2"

definition raise_exception :: "fns \<Rightarrow> machine \<Rightarrow> outcome" where
  "raise_exception fns s =
     (let s1 = (if trap_barrier s \<le> trapsp s then keep_locals s (debugger fns TRAP_BARRIER s) else s);
          s2 = (if backtrace_active s1 then keep_locals s1 (stash_backtrace fns s1) else s1)
      in if stack_high s2 - initial_sp_offset s2 \<le> trapsp s2
         then Returned (Make_exception_result (accu s2))
                (s2\<lparr>external_raise := initial_external_raise s2,
                    extern_sp := stack_high s2 - initial_sp_offset s2,
                    callback_depth := callback_depth s2 - 1\<rparr>)
         else let s3 = s2\<lparr>sp := trapsp s2\<rparr>;
                  s4 = s3\<lparr>pc := Trap_pc (stk s3) (sp s3), trapsp := Trap_link (stk s3) (sp s3),
                          env := stkn s3 2, extra_args := Long_val (stkn s3 3)\<rparr>
              in Running (pop 4 s4))"

text \<open>The landing of the \<^verbatim>\<open>siglongjmp\<close> of \<^verbatim>\<open>mlraise\<close>.\<close>

definition catch_longjmp :: "fns \<Rightarrow> machine \<Rightarrow> outcome" where
  "catch_longjmp fns s =
     raise_exception fns
       (s\<lparr>local_roots := drop (length (local_roots s) - initial_local_roots s) (local_roots s),
          sp := extern_sp s, accu := exn_bucket s, pc := 0\<rparr>)"

text \<open>What the interpreter does with a call, made in the state \<open>s\<close>, that may raise.\<close>

definition after_call ::
  "fns \<Rightarrow> machine \<Rightarrow> 'a result \<Rightarrow> ('a \<Rightarrow> machine \<Rightarrow> outcome) \<Rightarrow> outcome" where
  "after_call fns s r k =
     (case r of
        Returns v t \<Rightarrow> k v (keep_locals s t)
      | Raises t \<Rightarrow> catch_longjmp fns (keep_locals s t)
      | Dies m t \<Rightarrow> Fatal m t
      | Loops \<Rightarrow> Stuck)"

definition process_signal :: "fns \<Rightarrow> machine \<Rightarrow> outcome" where
  "process_signal fns s =
     (let s1 = Setup_for_event (s\<lparr>something_to_do := False\<rparr>)
      in after_call fns s1 (process_event fns s1) (\<lambda>u t. Running (Restore_after_event t)))"

definition check_signals :: "fns \<Rightarrow> machine \<Rightarrow> outcome" where
  "check_signals fns s = (if something_to_do s then process_signal fns s else Running s)"

definition check_stacks :: "fns \<Rightarrow> machine \<Rightarrow> outcome" where
  "check_stacks fns s =
     (if sp s < stack_threshold s
      then after_call fns s (realloc_stack fns (Stack_threshold div 4) (s\<lparr>extern_sp := sp s\<rparr>))
             (\<lambda>u t. check_signals fns (t\<lparr>sp := extern_sp t\<rparr>))
      else check_signals fns s)"

subsection \<open>Basic stack operations\<close>

definition ins_ACC :: "uint32 \<Rightarrow> machine \<Rightarrow> machine" where
  "ins_ACC n s = set_accu (stkn s n) s"

definition ins_PUSH :: "machine \<Rightarrow> machine" where
  "ins_PUSH s = push (accu s) s"

definition ins_ACC_opnd :: "machine \<Rightarrow> machine" where
  "ins_ACC_opnd s = skip 1 (set_accu (stkn s (opnd s 0)) s)"

definition ins_POP :: "machine \<Rightarrow> machine" where
  "ins_POP s = skip 1 (pop (opnd s 0) s)"

definition ins_ASSIGN :: "machine \<Rightarrow> machine" where
  "ins_ASSIGN s = set_accu Val_unit (skip 1 (set_stkn (opnd s 0) (accu s) s))"

definition exec_stack :: "uint32 \<Rightarrow> machine \<Rightarrow> machine option" where
  "exec_stack op s =
     (if op = ACC0 then Some (ins_ACC 0 s) else if op = ACC1 then Some (ins_ACC 1 s)
      else if op = ACC2 then Some (ins_ACC 2 s) else if op = ACC3 then Some (ins_ACC 3 s)
      else if op = ACC4 then Some (ins_ACC 4 s) else if op = ACC5 then Some (ins_ACC 5 s)
      else if op = ACC6 then Some (ins_ACC 6 s) else if op = ACC7 then Some (ins_ACC 7 s)
      else if op = PUSH \<or> op = PUSHACC0 then Some (ins_PUSH s)
      else if op = PUSHACC1 then Some (ins_ACC 1 (ins_PUSH s))
      else if op = PUSHACC2 then Some (ins_ACC 2 (ins_PUSH s))
      else if op = PUSHACC3 then Some (ins_ACC 3 (ins_PUSH s))
      else if op = PUSHACC4 then Some (ins_ACC 4 (ins_PUSH s))
      else if op = PUSHACC5 then Some (ins_ACC 5 (ins_PUSH s))
      else if op = PUSHACC6 then Some (ins_ACC 6 (ins_PUSH s))
      else if op = PUSHACC7 then Some (ins_ACC 7 (ins_PUSH s))
      else if op = PUSHACC then Some (ins_ACC_opnd (ins_PUSH s))
      else if op = ACC then Some (ins_ACC_opnd s)
      else if op = POP then Some (ins_POP s)
      else if op = ASSIGN then Some (ins_ASSIGN s)
      else None)"

subsection \<open>Access in the heap-allocated environment\<close>

definition ins_ENVACC :: "uint32 \<Rightarrow> machine \<Rightarrow> machine" where
  "ins_ENVACC n s = set_accu (Field (mem s) (env s) n) s"

definition ins_ENVACC_opnd :: "machine \<Rightarrow> machine" where
  "ins_ENVACC_opnd s = skip 1 (set_accu (Field (mem s) (env s) (opnd s 0)) s)"

definition exec_env :: "uint32 \<Rightarrow> machine \<Rightarrow> machine option" where
  "exec_env op s =
     (if op = ENVACC1 then Some (ins_ENVACC 1 s) else if op = ENVACC2 then Some (ins_ENVACC 2 s)
      else if op = ENVACC3 then Some (ins_ENVACC 3 s)
      else if op = ENVACC4 then Some (ins_ENVACC 4 s)
      else if op = PUSHENVACC1 then Some (ins_ENVACC 1 (ins_PUSH s))
      else if op = PUSHENVACC2 then Some (ins_ENVACC 2 (ins_PUSH s))
      else if op = PUSHENVACC3 then Some (ins_ENVACC 3 (ins_PUSH s))
      else if op = PUSHENVACC4 then Some (ins_ENVACC 4 (ins_PUSH s))
      else if op = PUSHENVACC then Some (ins_ENVACC_opnd (ins_PUSH s))
      else if op = ENVACC then Some (ins_ENVACC_opnd s)
      else None)"

subsection \<open>Function application\<close>

text \<open>Jumping to the closure in the accumulator.\<close>

definition enter_closure :: "machine \<Rightarrow> machine" where
  "enter_closure s = s\<lparr>pc := Code_val (mem s) (accu s), env := accu s\<rparr>"

text \<open>Popping a return frame: the return address, the environment and the extra arguments.\<close>

definition pop_frame :: "machine \<Rightarrow> machine" where
  "pop_frame s =
     pop 3 (s\<lparr>pc := stkn s 0, env := stkn s 1, extra_args := Long_val (stkn s 2)\<rparr>)"

definition ins_PUSH_RETADDR :: "machine \<Rightarrow> machine" where
  "ins_PUSH_RETADDR s =
     (let s1 = s\<lparr>sp := sp s - 4 * 3\<rparr>;
          s2 = set_stkn 0 (pc s1 + 4 * opnd s1 0) s1;
          s3 = set_stkn 1 (env s2) s2;
          s4 = set_stkn 2 (Val_long (extra_args s3)) s3
      in skip 1 s4)"

definition ins_APPLY :: "machine \<Rightarrow> machine" where
  "ins_APPLY s = enter_closure (s\<lparr>extra_args := opnd s 0 - 1\<rparr>)"

definition ins_APPLY1 :: "machine \<Rightarrow> machine" where
  "ins_APPLY1 s =
     (let arg1 = stkn s 0;
          s1 = s\<lparr>sp := sp s - 4 * 3\<rparr>;
          s2 = set_stkn 0 arg1 s1;
          s3 = set_stkn 1 (pc s2) s2;
          s4 = set_stkn 2 (env s3) s3;
          s5 = set_stkn 3 (Val_long (extra_args s4)) s4
      in (enter_closure s5)\<lparr>extra_args := 0\<rparr>)"

definition ins_APPLY2 :: "machine \<Rightarrow> machine" where
  "ins_APPLY2 s =
     (let arg1 = stkn s 0; arg2 = stkn s 1;
          s1 = s\<lparr>sp := sp s - 4 * 3\<rparr>;
          s2 = set_stkn 1 arg2 (set_stkn 0 arg1 s1);
          s3 = set_stkn 2 (pc s2) s2;
          s4 = set_stkn 3 (env s3) s3;
          s5 = set_stkn 4 (Val_long (extra_args s4)) s4
      in (enter_closure s5)\<lparr>extra_args := 1\<rparr>)"

definition ins_APPLY3 :: "machine \<Rightarrow> machine" where
  "ins_APPLY3 s =
     (let arg1 = stkn s 0; arg2 = stkn s 1; arg3 = stkn s 2;
          s1 = s\<lparr>sp := sp s - 4 * 3\<rparr>;
          s2 = set_stkn 2 arg3 (set_stkn 1 arg2 (set_stkn 0 arg1 s1));
          s3 = set_stkn 3 (pc s2) s2;
          s4 = set_stkn 4 (env s3) s3;
          s5 = set_stkn 5 (Val_long (extra_args s4)) s4
      in (enter_closure s5)\<lparr>extra_args := 2\<rparr>)"

text \<open>The loop \<^verbatim>\<open>for (i = n - 1; i >= 0; i--) newsp[i] = sp[i]\<close> over a memory.\<close>

fun slide :: "addr \<Rightarrow> addr \<Rightarrow> nat \<Rightarrow> mem \<Rightarrow> mem" where
  "slide newsp oldsp 0 m = m"
| "slide newsp oldsp (Suc i) m =
     slide newsp oldsp i (m(newsp + 4 * word_of_nat i := m (oldsp + 4 * word_of_nat i)))"

definition ins_APPTERM :: "machine \<Rightarrow> machine" where
  "ins_APPTERM s =
     (let nargs = opnd s 0; slotsize = opnd s 1;
          newsp = sp s + 4 * slotsize - 4 * nargs;
          s1 = s\<lparr>stk := slide newsp (sp s) (nat (sint nargs)) (stk s), sp := newsp\<rparr>
      in (enter_closure s1)\<lparr>extra_args := extra_args s1 + (nargs - 1)\<rparr>)"

definition ins_APPTERM1 :: "machine \<Rightarrow> machine" where
  "ins_APPTERM1 s =
     (let arg1 = stkn s 0;
          s1 = s\<lparr>sp := sp s + 4 * opnd s 0 - 4 * 1\<rparr>;
          s2 = set_stkn 0 arg1 s1
      in enter_closure s2)"

definition ins_APPTERM2 :: "machine \<Rightarrow> machine" where
  "ins_APPTERM2 s =
     (let arg1 = stkn s 0; arg2 = stkn s 1;
          s1 = s\<lparr>sp := sp s + 4 * opnd s 0 - 4 * 2\<rparr>;
          s2 = set_stkn 1 arg2 (set_stkn 0 arg1 s1)
      in (enter_closure s2)\<lparr>extra_args := extra_args s2 + 1\<rparr>)"

definition ins_APPTERM3 :: "machine \<Rightarrow> machine" where
  "ins_APPTERM3 s =
     (let arg1 = stkn s 0; arg2 = stkn s 1; arg3 = stkn s 2;
          s1 = s\<lparr>sp := sp s + 4 * opnd s 0 - 4 * 3\<rparr>;
          s2 = set_stkn 2 arg3 (set_stkn 1 arg2 (set_stkn 0 arg1 s1))
      in (enter_closure s2)\<lparr>extra_args := extra_args s2 + 2\<rparr>)"

definition ins_RETURN :: "machine \<Rightarrow> machine" where
  "ins_RETURN s =
     (let s1 = skip 1 (pop (opnd s 0) s)
      in if slt 0 (extra_args s1)
         then enter_closure (s1\<lparr>extra_args := extra_args s1 - 1\<rparr>)
         else pop_frame s1)"

text \<open>The loop \<^verbatim>\<open>for (i = 0; i < n; i++) sp[i] = Field(env, i + 2)\<close>.\<close>

fun load_args :: "nat \<Rightarrow> nat \<Rightarrow> machine \<Rightarrow> machine" where
  "load_args i 0 s = s"
| "load_args i (Suc n) s =
     load_args (Suc i) n
       (set_stkn (word_of_nat i) (Field (mem s) (env s) (word_of_nat i + 2)) s)"

definition ins_RESTART :: "machine \<Rightarrow> machine" where
  "ins_RESTART s =
     (let num_args = Wosize_val (mem s) (env s) - 2;
          s1 = s\<lparr>sp := sp s - 4 * num_args\<rparr>;
          s2 = load_args 0 (nat (sint num_args)) s1
      in s2\<lparr>env := Field (mem s2) (env s2) 1, extra_args := extra_args s2 + num_args\<rparr>)"

text \<open>
  The loop \<^verbatim>\<open>for (i = 0; i < n; i++) Field(block, base + i) = sp[i]\<close>, shared by the
  instructions that build closures.
\<close>

fun store_fields :: "val \<Rightarrow> uint32 \<Rightarrow> nat \<Rightarrow> nat \<Rightarrow> machine \<Rightarrow> machine" where
  "store_fields block base i 0 s = s"
| "store_fields block base i (Suc n) s =
     store_fields block base (Suc i) n
       (s\<lparr>mem := set_Field block (base + word_of_nat i) (stkn s (word_of_nat i)) (mem s)\<rparr>)"

definition ins_GRAB :: "fns \<Rightarrow> machine \<Rightarrow> machine" where
  "ins_GRAB fns s =
     (let required = opnd s 0; s1 = skip 1 s
      in if sle required (extra_args s1)
         then s1\<lparr>extra_args := extra_args s1 - required\<rparr>
         else let num_args = 1 + extra_args s1;
                  (b, s2) = Alloc_small_i fns (num_args + 2) Closure_tag s1;
                  s3 = set_accu b s2;
                  s4 = s3\<lparr>mem := set_Field (accu s3) 1 (env s3) (mem s3)\<rparr>;
                  s5 = store_fields (accu s4) 2 0 (unat num_args) s4;
                  s6 = s5\<lparr>mem := set_Field (accu s5) 0 (pc s5 - 4 * 3) (mem s5)\<rparr>
              in pop_frame (pop num_args s6))"

definition ins_CLOSURE :: "fns \<Rightarrow> machine \<Rightarrow> machine" where
  "ins_CLOSURE fns s =
     (let nvars = opnd s 0; s1 = skip 1 s;
          s2 = (if slt 0 nvars then push (accu s1) s1 else s1);
          (b, s3) = Alloc_small_i fns (1 + nvars) Closure_tag s2;
          s4 = set_accu b s3;
          s5 = s4\<lparr>mem := set_Field (accu s4) 0 (pc s4 + 4 * opnd s4 0) (mem s4)\<rparr>;
          s6 = skip 1 s5;
          s7 = store_fields (accu s6) 1 0 (nat (sint nvars)) s6
      in pop nvars s7)"

text \<open>
  The loop of \<^verbatim>\<open>CLOSUREREC\<close> over the functions after the first: an inner header, the code pointer,
  and the inner pointer pushed on the stack; \<open>p\<close> is the address of the next field.
\<close>

fun infix_closures :: "nat \<Rightarrow> nat \<Rightarrow> addr \<Rightarrow> machine \<Rightarrow> machine" where
  "infix_closures i 0 p s = s"
| "infix_closures i (Suc n) p s =
     (let s1 = s\<lparr>mem := (mem s)(p := Make_header (word_of_nat i * 2) Infix_tag Caml_white)\<rparr>;
          s2 = s1\<lparr>mem := (mem s1)(p + 4 := pc s1 + 4 * opnd s1 (word_of_nat i))\<rparr>;
          s3 = push (p + 4) s2
      in infix_closures (Suc i) n (p + 4 + 4) s3)"

definition ins_CLOSUREREC :: "fns \<Rightarrow> machine \<Rightarrow> machine" where
  "ins_CLOSUREREC fns s =
     (let nfuncs = opnd s 0; nvars = opnd s 1; s1 = skip 2 s;
          s2 = (if slt 0 nvars then push (accu s1) s1 else s1);
          (b, s3) = Alloc_small_i fns (nfuncs * 2 - 1 + nvars) Closure_tag s2;
          s4 = set_accu b s3;
          s5 = store_fields (accu s4) (nfuncs * 2 - 1) 0 (nat (sint nvars)) s4;
          s6 = pop nvars s5;
          s7 = s6\<lparr>mem := set_Field (accu s6) 0 (pc s6 + 4 * opnd s6 0) (mem s6)\<rparr>;
          s8 = push (accu s7) s7;
          s9 = infix_closures 1 (nat (sint nfuncs - 1)) (accu s8 + 4) s8
      in skip nfuncs s9)"

definition ins_OFFSETCLOSURE :: "uint32 \<Rightarrow> machine \<Rightarrow> machine" where
  "ins_OFFSETCLOSURE n s = set_accu (env s + n * 4) s"

definition ins_OFFSETCLOSURE_opnd :: "machine \<Rightarrow> machine" where
  "ins_OFFSETCLOSURE_opnd s = skip 1 (set_accu (env s + opnd s 0 * 4) s)"

definition exec_apply :: "fns \<Rightarrow> uint32 \<Rightarrow> machine \<Rightarrow> outcome option" where
  "exec_apply fns op s =
     (if op = PUSH_RETADDR then Some (Running (ins_PUSH_RETADDR s))
      else if op = APPLY then Some (check_stacks fns (ins_APPLY s))
      else if op = APPLY1 then Some (check_stacks fns (ins_APPLY1 s))
      else if op = APPLY2 then Some (check_stacks fns (ins_APPLY2 s))
      else if op = APPLY3 then Some (check_stacks fns (ins_APPLY3 s))
      else if op = APPTERM then Some (check_stacks fns (ins_APPTERM s))
      else if op = APPTERM1 then Some (check_stacks fns (ins_APPTERM1 s))
      else if op = APPTERM2 then Some (check_stacks fns (ins_APPTERM2 s))
      else if op = APPTERM3 then Some (check_stacks fns (ins_APPTERM3 s))
      else if op = RETURN then Some (Running (ins_RETURN s))
      else if op = RESTART then Some (Running (ins_RESTART s))
      else if op = GRAB then Some (Running (ins_GRAB fns s))
      else if op = CLOSURE then Some (Running (ins_CLOSURE fns s))
      else if op = CLOSUREREC then Some (Running (ins_CLOSUREREC fns s))
      else if op = PUSHOFFSETCLOSURE then Some (Running (ins_OFFSETCLOSURE_opnd (ins_PUSH s)))
      else if op = OFFSETCLOSURE then Some (Running (ins_OFFSETCLOSURE_opnd s))
      else if op = PUSHOFFSETCLOSUREM2 then Some (Running (ins_OFFSETCLOSURE (- 2) (ins_PUSH s)))
      else if op = OFFSETCLOSUREM2 then Some (Running (ins_OFFSETCLOSURE (- 2) s))
      else if op = PUSHOFFSETCLOSURE0 then Some (Running (ins_OFFSETCLOSURE 0 (ins_PUSH s)))
      else if op = OFFSETCLOSURE0 then Some (Running (ins_OFFSETCLOSURE 0 s))
      else if op = PUSHOFFSETCLOSURE2 then Some (Running (ins_OFFSETCLOSURE 2 (ins_PUSH s)))
      else if op = OFFSETCLOSURE2 then Some (Running (ins_OFFSETCLOSURE 2 s))
      else None)"

subsection \<open>Global variables\<close>

definition ins_GETGLOBAL :: "machine \<Rightarrow> machine" where
  "ins_GETGLOBAL s = skip 1 (set_accu (Field (mem s) (global_data s) (opnd s 0)) s)"

definition ins_GETGLOBALFIELD :: "machine \<Rightarrow> machine" where
  "ins_GETGLOBALFIELD s =
     (let s1 = skip 1 (set_accu (Field (mem s) (global_data s) (opnd s 0)) s)
      in skip 1 (set_accu (Field (mem s1) (accu s1) (opnd s1 0)) s1))"

definition ins_SETGLOBAL :: "machine \<Rightarrow> machine" where
  "ins_SETGLOBAL s =
     skip 1 (set_accu Val_unit (Modify (global_data s + 4 * opnd s 0) (accu s) s))"

definition exec_global :: "uint32 \<Rightarrow> machine \<Rightarrow> machine option" where
  "exec_global op s =
     (if op = PUSHGETGLOBAL then Some (ins_GETGLOBAL (ins_PUSH s))
      else if op = GETGLOBAL then Some (ins_GETGLOBAL s)
      else if op = PUSHGETGLOBALFIELD then Some (ins_GETGLOBALFIELD (ins_PUSH s))
      else if op = GETGLOBALFIELD then Some (ins_GETGLOBALFIELD s)
      else if op = SETGLOBAL then Some (ins_SETGLOBAL s)
      else None)"

subsection \<open>Allocation of blocks\<close>

definition ins_ATOM :: "uint32 \<Rightarrow> machine \<Rightarrow> machine" where
  "ins_ATOM tag s = set_accu (Atom s tag) s"

definition ins_ATOM_opnd :: "machine \<Rightarrow> machine" where
  "ins_ATOM_opnd s = skip 1 (set_accu (Atom s (opnd s 0)) s)"

text \<open>The loop \<^verbatim>\<open>for (i = 1; i < wosize; i++) Field(block, i) = *sp++\<close>.\<close>

fun pop_fields :: "val \<Rightarrow> nat \<Rightarrow> nat \<Rightarrow> machine \<Rightarrow> machine" where
  "pop_fields block i 0 s = s"
| "pop_fields block i (Suc n) s =
     pop_fields block (Suc i) n
       (pop 1 (s\<lparr>mem := set_Field block (word_of_nat i) (stkn s 0) (mem s)\<rparr>))"

definition ins_MAKEBLOCK :: "fns \<Rightarrow> machine \<Rightarrow> machine" where
  "ins_MAKEBLOCK fns s =
     (let wosize = opnd s 0; tag = opnd s 1; s1 = skip 2 s;
          (block, s2) = Alloc_small_i fns wosize tag s1;
          s3 = s2\<lparr>mem := set_Field block 0 (accu s2) (mem s2)\<rparr>
      in set_accu block (pop_fields block 1 (unat wosize - 1) s3))"

definition ins_MAKEBLOCK1 :: "fns \<Rightarrow> machine \<Rightarrow> machine" where
  "ins_MAKEBLOCK1 fns s =
     (let tag = opnd s 0; s1 = skip 1 s;
          (block, s2) = Alloc_small_i fns 1 tag s1
      in set_accu block (s2\<lparr>mem := set_Field block 0 (accu s2) (mem s2)\<rparr>))"

definition ins_MAKEBLOCK2 :: "fns \<Rightarrow> machine \<Rightarrow> machine" where
  "ins_MAKEBLOCK2 fns s =
     (let tag = opnd s 0; s1 = skip 1 s;
          (block, s2) = Alloc_small_i fns 2 tag s1;
          s3 = s2\<lparr>mem := set_Field block 1 (stkn s2 0) (set_Field block 0 (accu s2) (mem s2))\<rparr>
      in set_accu block (pop 1 s3))"

definition ins_MAKEBLOCK3 :: "fns \<Rightarrow> machine \<Rightarrow> machine" where
  "ins_MAKEBLOCK3 fns s =
     (let tag = opnd s 0; s1 = skip 1 s;
          (block, s2) = Alloc_small_i fns 3 tag s1;
          s3 = s2\<lparr>mem := set_Field block 2 (stkn s2 1)
                           (set_Field block 1 (stkn s2 0) (set_Field block 0 (accu s2) (mem s2)))\<rparr>
      in set_accu block (pop 2 s3))"

fun pop_double_fields :: "val \<Rightarrow> nat \<Rightarrow> nat \<Rightarrow> machine \<Rightarrow> machine" where
  "pop_double_fields block i 0 s = s"
| "pop_double_fields block i (Suc n) s =
     pop_double_fields block (Suc i) n
       (pop 1 (s\<lparr>mem := Store_double_field block (word_of_nat i) (Double_val (mem s) (stkn s 0))
                          (mem s)\<rparr>))"

definition ins_MAKEFLOATBLOCK :: "fns \<Rightarrow> machine \<Rightarrow> machine" where
  "ins_MAKEFLOATBLOCK fns s =
     (let sz = opnd s 0; s1 = skip 1 s;
          (block, s2) = Alloc_small_i fns (sz * Double_wosize) Double_array_tag s1;
          s3 = s2\<lparr>mem := Store_double_field block 0 (Double_val (mem s2) (accu s2)) (mem s2)\<rparr>
      in set_accu block (pop_double_fields block 1 (unat sz - 1) s3))"

definition exec_alloc :: "fns \<Rightarrow> uint32 \<Rightarrow> machine \<Rightarrow> machine option" where
  "exec_alloc fns op s =
     (if op = PUSHATOM0 then Some (ins_ATOM 0 (ins_PUSH s))
      else if op = ATOM0 then Some (ins_ATOM 0 s)
      else if op = PUSHATOM then Some (ins_ATOM_opnd (ins_PUSH s))
      else if op = ATOM then Some (ins_ATOM_opnd s)
      else if op = MAKEBLOCK then Some (ins_MAKEBLOCK fns s)
      else if op = MAKEBLOCK1 then Some (ins_MAKEBLOCK1 fns s)
      else if op = MAKEBLOCK2 then Some (ins_MAKEBLOCK2 fns s)
      else if op = MAKEBLOCK3 then Some (ins_MAKEBLOCK3 fns s)
      else if op = MAKEFLOATBLOCK then Some (ins_MAKEFLOATBLOCK fns s)
      else None)"

subsection \<open>Components of blocks, arrays, strings\<close>

definition ins_GETFIELD :: "uint32 \<Rightarrow> machine \<Rightarrow> machine" where
  "ins_GETFIELD n s = set_accu (Field (mem s) (accu s) n) s"

definition ins_GETFIELD_opnd :: "machine \<Rightarrow> machine" where
  "ins_GETFIELD_opnd s = skip 1 (set_accu (Field (mem s) (accu s) (opnd s 0)) s)"

definition ins_GETFLOATFIELD :: "fns \<Rightarrow> machine \<Rightarrow> machine" where
  "ins_GETFLOATFIELD fns s =
     (let d = Double_field (mem s) (accu s) (opnd s 0);
          (b, s1) = Alloc_small_i fns Double_wosize Double_tag s;
          s2 = set_accu b s1
      in skip 1 (s2\<lparr>mem := Store_double_val (accu s2) d (mem s2)\<rparr>))"

text \<open>The code at the label \<^verbatim>\<open>modify\<close>.\<close>

definition modify_and_next :: "addr \<Rightarrow> val \<Rightarrow> machine \<Rightarrow> machine" where
  "modify_and_next dest newval s = set_accu Val_unit (Modify dest newval s)"

definition ins_SETFIELD :: "uint32 \<Rightarrow> machine \<Rightarrow> machine" where
  "ins_SETFIELD n s = modify_and_next (accu s + 4 * n) (stkn s 0) (pop 1 s)"

definition ins_SETFIELD_opnd :: "machine \<Rightarrow> machine" where
  "ins_SETFIELD_opnd s =
     modify_and_next (accu s + 4 * opnd s 0) (stkn s 0) (pop 1 (skip 1 s))"

definition ins_SETFLOATFIELD :: "machine \<Rightarrow> machine" where
  "ins_SETFLOATFIELD s =
     (let s1 = s\<lparr>mem := Store_double_field (accu s) (opnd s 0) (Double_val (mem s) (stkn s 0)) (mem s)\<rparr>
      in skip 1 (pop 1 (set_accu Val_unit s1)))"

definition ins_VECTLENGTH :: "machine \<Rightarrow> machine" where
  "ins_VECTLENGTH s =
     (let sz = Wosize_val (mem s) (accu s);
          sz = (if Tag_val (mem s) (accu s) = Double_array_tag then sz div Double_wosize else sz)
      in set_accu (Val_long sz) s)"

definition ins_GETVECTITEM :: "machine \<Rightarrow> machine" where
  "ins_GETVECTITEM s = pop 1 (set_accu (Field (mem s) (accu s) (Long_val (stkn s 0))) s)"

definition ins_SETVECTITEM :: "machine \<Rightarrow> machine" where
  "ins_SETVECTITEM s =
     modify_and_next (accu s + 4 * Long_val (stkn s 0)) (stkn s 1) (pop 2 s)"

definition ins_GETSTRINGCHAR :: "machine \<Rightarrow> machine" where
  "ins_GETSTRINGCHAR s =
     pop 1 (set_accu (Val_int (ucast (Byte_u (mem s) (accu s) (Long_val (stkn s 0))))) s)"

definition ins_SETSTRINGCHAR :: "machine \<Rightarrow> machine" where
  "ins_SETSTRINGCHAR s =
     (let s1 = s\<lparr>mem := set_Byte_u (accu s) (Long_val (stkn s 0)) (ucast (Int_val (stkn s 1))) (mem s)\<rparr>
      in set_accu Val_unit (pop 2 s1))"

definition exec_field :: "fns \<Rightarrow> uint32 \<Rightarrow> machine \<Rightarrow> machine option" where
  "exec_field fns op s =
     (if op = GETFIELD0 then Some (ins_GETFIELD 0 s) else if op = GETFIELD1 then Some (ins_GETFIELD 1 s)
      else if op = GETFIELD2 then Some (ins_GETFIELD 2 s)
      else if op = GETFIELD3 then Some (ins_GETFIELD 3 s)
      else if op = GETFIELD then Some (ins_GETFIELD_opnd s)
      else if op = GETFLOATFIELD then Some (ins_GETFLOATFIELD fns s)
      else if op = SETFIELD0 then Some (ins_SETFIELD 0 s)
      else if op = SETFIELD1 then Some (ins_SETFIELD 1 s)
      else if op = SETFIELD2 then Some (ins_SETFIELD 2 s)
      else if op = SETFIELD3 then Some (ins_SETFIELD 3 s)
      else if op = SETFIELD then Some (ins_SETFIELD_opnd s)
      else if op = SETFLOATFIELD then Some (ins_SETFLOATFIELD s)
      else if op = VECTLENGTH then Some (ins_VECTLENGTH s)
      else if op = GETVECTITEM then Some (ins_GETVECTITEM s)
      else if op = SETVECTITEM then Some (ins_SETVECTITEM s)
      else if op = GETSTRINGCHAR then Some (ins_GETSTRINGCHAR s)
      else if op = SETSTRINGCHAR then Some (ins_SETSTRINGCHAR s)
      else None)"

subsection \<open>Branches\<close>

definition branch :: "machine \<Rightarrow> machine" where
  "branch s = s\<lparr>pc := pc s + 4 * opnd s 0\<rparr>"

definition ins_BRANCHIF :: "machine \<Rightarrow> machine" where
  "ins_BRANCHIF s = (if accu s \<noteq> Val_false then branch s else skip 1 s)"

definition ins_BRANCHIFNOT :: "machine \<Rightarrow> machine" where
  "ins_BRANCHIFNOT s = (if accu s = Val_false then branch s else skip 1 s)"

definition ins_SWITCH :: "machine \<Rightarrow> machine" where
  "ins_SWITCH s =
     (let sizes = opnd s 0; s1 = skip 1 s
      in if Is_block (accu s1)
         then let index = Tag_val (mem s1) (accu s1)
              in s1\<lparr>pc := pc s1 + 4 * opnd s1 ((sizes AND 0xFFFF) + index)\<rparr>
         else let index = Long_val (accu s1)
              in s1\<lparr>pc := pc s1 + 4 * opnd s1 index\<rparr>)"

definition ins_BOOLNOT :: "machine \<Rightarrow> machine" where
  "ins_BOOLNOT s = set_accu (Val_not (accu s)) s"

definition exec_branch :: "uint32 \<Rightarrow> machine \<Rightarrow> machine option" where
  "exec_branch op s =
     (if op = BRANCH then Some (branch s)
      else if op = BRANCHIF then Some (ins_BRANCHIF s)
      else if op = BRANCHIFNOT then Some (ins_BRANCHIFNOT s)
      else if op = SWITCH then Some (ins_SWITCH s)
      else if op = BOOLNOT then Some (ins_BOOLNOT s)
      else None)"

subsection \<open>Exceptions and calls to C\<close>

definition ins_PUSHTRAP :: "machine \<Rightarrow> machine" where
  "ins_PUSHTRAP s =
     (let s1 = s\<lparr>sp := sp s - 4 * 4\<rparr>;
          s2 = set_stkn 0 (pc s1 + 4 * opnd s1 0) s1;
          s3 = set_stkn 1 (trapsp s2) s2;
          s4 = set_stkn 2 (env s3) s3;
          s5 = set_stkn 3 (Val_long (extra_args s4)) s4
      in skip 1 (s5\<lparr>trapsp := sp s5\<rparr>))"

definition ins_POPTRAP :: "fns \<Rightarrow> machine \<Rightarrow> outcome" where
  "ins_POPTRAP fns s =
     (if something_to_do s then process_signal fns (s\<lparr>pc := pc s - 4\<rparr>)
      else Running (pop 4 (s\<lparr>trapsp := Trap_link (stk s) (sp s)\<rparr>)))"

text \<open>\<^verbatim>\<open>C_CALL\<close> with \<open>n\<close> arguments, \<open>n - 1\<close> of them on the stack.\<close>

definition ins_C_CALL :: "fns \<Rightarrow> uint32 \<Rightarrow> machine \<Rightarrow> outcome" where
  "ins_C_CALL fns n s =
     (let s1 = Setup_for_c_call s;
          args = accu s1 # map (\<lambda>i. stkn s1 (word_of_nat i)) [1 ..< unat n]
      in after_call fns s1 (primitive fns (opnd s1 0) args s1)
           (\<lambda>v t. Running (skip 1 (pop (n - 1) (Restore_after_c_call (set_accu v t))))))"

definition ins_C_CALLN :: "fns \<Rightarrow> machine \<Rightarrow> outcome" where
  "ins_C_CALLN fns s =
     (let nargs = opnd s 0; s1 = skip 1 s;
          s2 = push (accu s1) s1;
          s3 = Setup_for_c_call s2;
          args = map (\<lambda>i. stkn s3 (word_of_nat i)) [1 ..< 1 + nat (sint nargs)]
      in after_call fns s3 (primitive fns (opnd s3 0) args s3)
           (\<lambda>v t. Running (skip 1 (pop nargs (Restore_after_c_call (set_accu v t))))))"

definition exec_control :: "fns \<Rightarrow> uint32 \<Rightarrow> machine \<Rightarrow> outcome option" where
  "exec_control fns op s =
     (if op = PUSHTRAP then Some (Running (ins_PUSHTRAP s))
      else if op = POPTRAP then Some (ins_POPTRAP fns s)
      else if op = RAISE then Some (raise_exception fns s)
      else if op = CHECK_SIGNALS then Some (check_signals fns s)
      else if op = C_CALL1 then Some (ins_C_CALL fns 1 s)
      else if op = C_CALL2 then Some (ins_C_CALL fns 2 s)
      else if op = C_CALL3 then Some (ins_C_CALL fns 3 s)
      else if op = C_CALL4 then Some (ins_C_CALL fns 4 s)
      else if op = C_CALL5 then Some (ins_C_CALL fns 5 s)
      else if op = C_CALLN then Some (ins_C_CALLN fns s)
      else None)"

subsection \<open>Integer constants and arithmetic\<close>

definition ins_CONST :: "uint32 \<Rightarrow> machine \<Rightarrow> machine" where
  "ins_CONST n s = set_accu (Val_int n) s"

definition ins_CONSTINT :: "machine \<Rightarrow> machine" where
  "ins_CONSTINT s = skip 1 (set_accu (Val_int (opnd s 0)) s)"

definition exec_const :: "uint32 \<Rightarrow> machine \<Rightarrow> machine option" where
  "exec_const op s =
     (if op = CONST0 then Some (ins_CONST 0 s) else if op = CONST1 then Some (ins_CONST 1 s)
      else if op = CONST2 then Some (ins_CONST 2 s) else if op = CONST3 then Some (ins_CONST 3 s)
      else if op = PUSHCONST0 then Some (ins_CONST 0 (ins_PUSH s))
      else if op = PUSHCONST1 then Some (ins_CONST 1 (ins_PUSH s))
      else if op = PUSHCONST2 then Some (ins_CONST 2 (ins_PUSH s))
      else if op = PUSHCONST3 then Some (ins_CONST 3 (ins_PUSH s))
      else if op = PUSHCONSTINT then Some (ins_CONSTINT (ins_PUSH s))
      else if op = CONSTINT then Some (ins_CONSTINT s)
      else None)"

definition ins_NEGINT :: "machine \<Rightarrow> machine" where
  "ins_NEGINT s = set_accu (2 - accu s) s"

text \<open>The value of a binary operation on two tagged integers, the accumulator first.\<close>

definition ADDINT_val :: "val \<Rightarrow> val \<Rightarrow> val" where "ADDINT_val a b = a + b - 1"
definition SUBINT_val :: "val \<Rightarrow> val \<Rightarrow> val" where "SUBINT_val a b = a - b + 1"
definition MULINT_val :: "val \<Rightarrow> val \<Rightarrow> val" where
  "MULINT_val a b = Val_long (Long_val a * Long_val b)"
definition ANDINT_val :: "val \<Rightarrow> val \<Rightarrow> val" where "ANDINT_val a b = a AND b"
definition ORINT_val :: "val \<Rightarrow> val \<Rightarrow> val" where "ORINT_val a b = a OR b"
definition XORINT_val :: "val \<Rightarrow> val \<Rightarrow> val" where "XORINT_val a b = (a XOR b) OR 1"
definition LSLINT_val :: "val \<Rightarrow> val \<Rightarrow> val" where
  "LSLINT_val a b = c_shl (a - 1) (Long_val b) + 1"
definition LSRINT_val :: "val \<Rightarrow> val \<Rightarrow> val" where
  "LSRINT_val a b = c_shr (a - 1) (Long_val b) OR 1"
definition ASRINT_val :: "val \<Rightarrow> val \<Rightarrow> val" where
  "ASRINT_val a b = c_sar (a - 1) (Long_val b) OR 1"

definition ins_binary :: "(val \<Rightarrow> val \<Rightarrow> val) \<Rightarrow> machine \<Rightarrow> machine" where
  "ins_binary f s = pop 1 (set_accu (f (accu s) (stkn s 0)) s)"

definition ins_DIVINT :: "fns \<Rightarrow> machine \<Rightarrow> outcome" where
  "ins_DIVINT fns s =
     (let divisor = Long_val (stkn s 0); s1 = pop 1 s
      in if divisor = 0
         then let s2 = Setup_for_c_call s1
              in after_call fns s2 (raise_zero_divide fns s2) (\<lambda>u :: unit. Running)
         else Running (set_accu (Val_long (c_div (Long_val (accu s1)) divisor)) s1))"

definition ins_MODINT :: "fns \<Rightarrow> machine \<Rightarrow> outcome" where
  "ins_MODINT fns s =
     (let divisor = Long_val (stkn s 0); s1 = pop 1 s
      in if divisor = 0
         then let s2 = Setup_for_c_call s1
              in after_call fns s2 (raise_zero_divide fns s2) (\<lambda>u :: unit. Running)
         else Running (set_accu (Val_long (c_mod (Long_val (accu s1)) divisor)) s1))"

definition Integer_comparison :: "(val \<Rightarrow> val \<Rightarrow> bool) \<Rightarrow> machine \<Rightarrow> machine" where
  "Integer_comparison tst s =
     pop 1 (set_accu (Val_int (if tst (accu s) (stkn s 0) then 1 else 0)) s)"

definition Integer_branch_comparison :: "(uint32 \<Rightarrow> uint32 \<Rightarrow> bool) \<Rightarrow> machine \<Rightarrow> machine" where
  "Integer_branch_comparison tst s =
     (let s1 = skip 1 s
      in if tst (opnd s 0) (Long_val (accu s)) then branch s1 else skip 1 s1)"

definition ins_OFFSETINT :: "machine \<Rightarrow> machine" where
  "ins_OFFSETINT s = skip 1 (set_accu (accu s + c_shl (opnd s 0) 1) s)"

definition ins_OFFSETREF :: "machine \<Rightarrow> machine" where
  "ins_OFFSETREF s =
     (let s1 = s\<lparr>mem := set_Field (accu s) 0 (Field (mem s) (accu s) 0 + c_shl (opnd s 0) 1) (mem s)\<rparr>
      in skip 1 (set_accu Val_unit s1))"

definition ins_ISINT :: "machine \<Rightarrow> machine" where
  "ins_ISINT s = set_accu (Val_long (accu s AND 1)) s"

definition exec_arith :: "fns \<Rightarrow> uint32 \<Rightarrow> machine \<Rightarrow> outcome option" where
  "exec_arith fns op s =
     (if op = NEGINT then Some (Running (ins_NEGINT s))
      else if op = ADDINT then Some (Running (ins_binary ADDINT_val s))
      else if op = SUBINT then Some (Running (ins_binary SUBINT_val s))
      else if op = MULINT then Some (Running (ins_binary MULINT_val s))
      else if op = DIVINT then Some (ins_DIVINT fns s)
      else if op = MODINT then Some (ins_MODINT fns s)
      else if op = ANDINT then Some (Running (ins_binary ANDINT_val s))
      else if op = ORINT then Some (Running (ins_binary ORINT_val s))
      else if op = XORINT then Some (Running (ins_binary XORINT_val s))
      else if op = LSLINT then Some (Running (ins_binary LSLINT_val s))
      else if op = LSRINT then Some (Running (ins_binary LSRINT_val s))
      else if op = ASRINT then Some (Running (ins_binary ASRINT_val s))
      else None)"

definition exec_compare :: "uint32 \<Rightarrow> machine \<Rightarrow> machine option" where
  "exec_compare op s =
     (if op = EQ then Some (Integer_comparison (\<lambda>a b. a = b) s)
      else if op = NEQ then Some (Integer_comparison (\<lambda>a b. a \<noteq> b) s)
      else if op = LTINT then Some (Integer_comparison slt s)
      else if op = LEINT then Some (Integer_comparison sle s)
      else if op = GTINT then Some (Integer_comparison (\<lambda>a b. slt b a) s)
      else if op = GEINT then Some (Integer_comparison (\<lambda>a b. sle b a) s)
      else if op = ULTINT then Some (Integer_comparison (\<lambda>a b. a < b) s)
      else if op = UGEINT then Some (Integer_comparison (\<lambda>a b. b \<le> a) s)
      else if op = BEQ then Some (Integer_branch_comparison (\<lambda>a b. a = b) s)
      else if op = BNEQ then Some (Integer_branch_comparison (\<lambda>a b. a \<noteq> b) s)
      else if op = BLTINT then Some (Integer_branch_comparison slt s)
      else if op = BLEINT then Some (Integer_branch_comparison sle s)
      else if op = BGTINT then Some (Integer_branch_comparison (\<lambda>a b. slt b a) s)
      else if op = BGEINT then Some (Integer_branch_comparison (\<lambda>a b. sle b a) s)
      else if op = BULTINT then Some (Integer_branch_comparison (\<lambda>a b. a < b) s)
      else if op = BUGEINT then Some (Integer_branch_comparison (\<lambda>a b. b \<le> a) s)
      else if op = OFFSETINT then Some (ins_OFFSETINT s)
      else if op = OFFSETREF then Some (ins_OFFSETREF s)
      else if op = ISINT then Some (ins_ISINT s)
      else None)"

subsection \<open>Objects, machine control\<close>

definition Lookup :: "mem \<Rightarrow> val \<Rightarrow> val \<Rightarrow> val" where
  "Lookup m obj lab =
     Field m (Field m (Field m obj 0) (c_sar lab 16 div 4)) ((lab div 4) AND 0xFF)"

definition ins_GETMETHOD :: "machine \<Rightarrow> machine" where
  "ins_GETMETHOD s = set_accu (Lookup (mem s) (stkn s 0) (accu s)) s"

definition ins_STOP :: "machine \<Rightarrow> outcome" where
  "ins_STOP s =
     Returned (accu s) (s\<lparr>external_raise := initial_external_raise s, extern_sp := sp s,
       callback_depth := callback_depth s - 1\<rparr>)"

definition call_debugger :: "fns \<Rightarrow> event_kind \<Rightarrow> machine \<Rightarrow> machine" where
  "call_debugger fns k s =
     (let s1 = Setup_for_debugger s in Restore_after_debugger (keep_locals s1 (debugger fns k s1)))"

text \<open>
  The \<^verbatim>\<open>switch\<close> for the instructions other than \<^verbatim>\<open>EVENT\<close> and \<^verbatim>\<open>BREAK\<close>; \<open>pc\<close> is past
  the opcode.
\<close>

definition running :: "machine option \<Rightarrow> outcome option" where
  "running r = map_option Running r"

definition orelse :: "'a option \<Rightarrow> 'a option \<Rightarrow> 'a option" where
  "orelse a b = (case a of None \<Rightarrow> b | Some x \<Rightarrow> a)"

definition exec_base :: "fns \<Rightarrow> uint32 \<Rightarrow> machine \<Rightarrow> outcome option" where
  "exec_base fns op s =
     orelse (running (exec_stack op s)) (
     orelse (running (exec_env op s)) (
     orelse (exec_apply fns op s) (
     orelse (running (exec_global op s)) (
     orelse (running (exec_alloc fns op s)) (
     orelse (running (exec_field fns op s)) (
     orelse (running (exec_branch op s)) (
     orelse (exec_control fns op s) (
     orelse (running (exec_const op s)) (
     orelse (exec_arith fns op s) (
     orelse (running (exec_compare op s)) (
     if op = GETMETHOD then Some (Running (ins_GETMETHOD s))
     else if op = STOP then Some (ins_STOP s)
     else None)))))))))))"

text \<open>
  \<^verbatim>\<open>Restart_curr_instr\<close> dispatches again on the saved opcode; if that were itself \<^verbatim>\<open>EVENT\<close> or
  \<^verbatim>\<open>BREAK\<close>, the interpreter would dispatch on it forever.
\<close>

definition bad_opcode :: "machine \<Rightarrow> outcome" where
  "bad_opcode s = Fatal ''Fatal error: bad opcode'' s"

definition Restart_curr_instr :: "fns \<Rightarrow> machine \<Rightarrow> outcome" where
  "Restart_curr_instr fns s =
     (let op = ucast (saved_code s ((pc s - 4 - start_code s) div 4)) :: uint32
      in if op = EVENT \<or> op = BREAK then Stuck
         else case exec_base fns op s of Some r \<Rightarrow> r | None \<Rightarrow> bad_opcode s)"

definition ins_EVENT :: "fns \<Rightarrow> machine \<Rightarrow> outcome" where
  "ins_EVENT fns s =
     (let s1 = s\<lparr>event_count := event_count s - 1\<rparr>;
          s2 = (if event_count s1 = 0 then call_debugger fns EVENT_COUNT s1 else s1)
      in Restart_curr_instr fns s2)"

definition ins_BREAK :: "fns \<Rightarrow> machine \<Rightarrow> outcome" where
  "ins_BREAK fns s = Restart_curr_instr fns (call_debugger fns BREAKPOINT s)"

definition exec_instr :: "fns \<Rightarrow> uint32 \<Rightarrow> machine \<Rightarrow> outcome" where
  "exec_instr fns op s =
     (if op = EVENT then ins_EVENT fns s
      else if op = BREAK then ins_BREAK fns s
      else case exec_base fns op s of Some r \<Rightarrow> r | None \<Rightarrow> bad_opcode s)"

definition step :: "fns \<Rightarrow> machine \<Rightarrow> outcome" where
  "step fns s = exec_instr fns (opnd s 0) (skip 1 s)"

text \<open>The loop: \<open>None\<close> is a program that runs forever.\<close>

partial_function (option) run :: "fns \<Rightarrow> machine \<Rightarrow> outcome option" where
  "run fns s = (case step fns s of Running t \<Rightarrow> run fns t | r \<Rightarrow> Some r)"

text \<open>
  The entry of the interpreter for the code at \<open>prog\<close>; \<open>raise_buf\<close> is the address of the
  activation's \<^verbatim>\<open>longjmp\<close> buffer.
\<close>

definition interp_entry :: "addr \<Rightarrow> addr \<Rightarrow> machine \<Rightarrow> machine" where
  "interp_entry raise_buf prog s =
     (let s1 = s\<lparr>initial_local_roots := length (local_roots s),
                initial_sp_offset := stack_high s - extern_sp s,
                initial_external_raise := external_raise s,
                callback_depth := callback_depth s + 1\<rparr>
      in s1\<lparr>external_raise := raise_buf, sp := extern_sp s1, pc := prog, extra_args := 0,
            env := Atom s1 0, accu := Val_int 0\<rparr>)"

definition interprete :: "fns \<Rightarrow> addr \<Rightarrow> addr \<Rightarrow> machine \<Rightarrow> outcome option" where
  "interprete fns raise_buf prog s =
     (if prog = 0 then Some (Returned Val_unit s) else run fns (interp_entry raise_buf prog s))"

lemma skip_simps [simp]:
  "accu (skip n s) = accu s" "env (skip n s) = env s" "sp (skip n s) = sp s" "mem (skip n s) = mem s"
  "stk (skip n s) = stk s" "extra_args (skip n s) = extra_args s" "stkn (skip n s) = stkn s"
  "code (skip n s) = code s" "pc (skip n s) = pc s + 4 * n" "trapsp (skip n s) = trapsp s"
  "something_to_do (skip n s) = something_to_do s"
  by (auto simp: reg_defs fun_eq_iff)

lemmas exec_defs = exec_instr_def exec_base_def orelse_def running_def exec_stack_def exec_env_def
  exec_apply_def exec_global_def exec_alloc_def exec_field_def exec_branch_def exec_control_def
  exec_const_def exec_arith_def exec_compare_def

lemma step_opcode: "opnd s 0 = op \<Longrightarrow> step fns s = exec_instr fns op (skip 1 s)"
  by (simp add: step_def)

end
