(* ===== verification/Interp_Arith.thy ===== *)
theory Interp_Arith
  imports Interp
begin

text \<open>
  The integer instructions of the interpreter against the integers: \<open>arith_spec\<close> and
  \<open>compare_spec\<close> give the meaning of each instruction on integers of the language, and the theorems
  say that the instructions compute it on the tagged representation.
\<close>

subsection \<open>Arithmetic on tagged integers\<close>

lemma ADDINT_rep: "ADDINT_val (rep_int a) (rep_int b) = rep_int (a + b)"
  by (simp add: ADDINT_val_def rep_int_ring algebra_simps)

lemma SUBINT_rep: "SUBINT_val (rep_int a) (rep_int b) = rep_int (a - b)"
  by (simp add: SUBINT_val_def rep_int_ring algebra_simps)

lemma MULINT_rep: "MULINT_val (rep_int a) (rep_int b) = rep_int (a * b)"
proof -
  have "MULINT_val (rep_int a) (rep_int b) = rep_int (wrap31 a * wrap31 b)"
    unfolding MULINT_val_def Long_val_rep_int by (simp flip: Val_long_word_of_int)
  also have "\<dots> = rep_int (a * b)"
  proof -
    have "2 ^ 31 dvd wrap31 a - a" "2 ^ 31 dvd wrap31 b - b"
      using wrap31_cong_iff [of "wrap31 a" a] wrap31_cong_iff [of "wrap31 b" b] by simp_all
    then have "2 ^ 31 dvd (wrap31 a - a) * wrap31 b + a * (wrap31 b - b)" by simp
    then have "2 ^ 31 dvd wrap31 a * wrap31 b - a * b" by (simp add: algebra_simps)
    then show ?thesis by (simp add: rep_int_eq_iff wrap31_cong_iff)
  qed
  finally show ?thesis .
qed

lemma rep_int_bit: "bit (rep_int a) n \<longleftrightarrow> n < 32 \<and> (n = 0 \<or> bit a (n - 1))"
proof -
  have eq: "rep_int a = word_of_int (2 * a + 1)" by (rule rep_int_word)
  have "bit (2 * a + 1) n \<longleftrightarrow> n = 0 \<or> bit a (n - 1)"
    by (cases n) (simp_all add: bit_Suc bit_0)
  then show ?thesis unfolding eq by (simp add: bit_word_of_int_iff del: of_int_add of_int_mult)
qed

lemma ANDINT_rep: "ANDINT_val (rep_int a) (rep_int b) = rep_int (a AND b)"
  by (rule bit_word_eqI) (auto simp: ANDINT_val_def rep_int_bit bit_and_iff)

lemma ORINT_rep: "ORINT_val (rep_int a) (rep_int b) = rep_int (a OR b)"
  by (rule bit_word_eqI) (auto simp: ORINT_val_def rep_int_bit bit_or_iff)

lemma XORINT_rep: "XORINT_val (rep_int a) (rep_int b) = rep_int (a XOR b)"
  by (rule bit_word_eqI) (auto simp: XORINT_val_def rep_int_bit bit_xor_iff bit_or_iff bit_1_iff)

lemma rep_minus_1: "rep_int a - 1 = word_of_int (2 * a)"
  by (simp add: rep_int_ring)

lemma rep_minus_1_bit: "bit (rep_int a - 1) n \<longleftrightarrow> n < 32 \<and> n \<noteq> 0 \<and> bit a (n - 1)"
proof -
  have "bit (2 * a) n \<longleftrightarrow> n \<noteq> 0 \<and> bit a (n - 1)" by (cases n) (simp_all add: bit_Suc bit_0)
  then show ?thesis unfolding rep_minus_1 by (simp add: bit_word_of_int_iff del: of_int_mult)
qed

lemma unat_shift_count: "0 \<le> b \<Longrightarrow> b < 32 \<Longrightarrow> unat (Long_val (rep_int b)) = nat b"
  by (simp add: Long_val_rep_int wrap31_in in_long_def unsigned_of_int take_bit_int_eq_self)

lemma LSLINT_rep:
  assumes "0 \<le> b" and "b < 32"
  shows "LSLINT_val (rep_int a) (rep_int b) = rep_int (a * 2 ^ nat b)"
  unfolding LSLINT_val_def c_shl_def unat_shift_count [OF assms] rep_minus_1
  by (simp add: push_bit_eq_mult rep_int_ring algebra_simps)

lemma ASRINT_rep:
  assumes "0 \<le> b" and "b < 32" and "in_long a"
  shows "ASRINT_val (rep_int a) (rep_int b) = rep_int (a div 2 ^ nat b)"
proof (rule bit_word_eqI)
  fix n assume "n < LENGTH(32)"
  have top: "bit a k = bit a 30" if "30 \<le> k" for k
  proof -
    have "signed_take_bit 30 a = a" using assms(3) by (simp add: wrap31_in flip: wrap31_def)
    then have "bit a k = bit (signed_take_bit 30 a) k" by simp
    also have "\<dots> = bit a 30" using that by (simp add: bit_signed_take_bit_iff min_def)
    finally show ?thesis .
  qed
  have k: "nat b < 32" using assms(1,2) by simp
  show "bit (ASRINT_val (rep_int a) (rep_int b)) n = bit (rep_int (a div 2 ^ nat b)) n"
  proof (cases n)
    case 0
    then show ?thesis by (simp add: ASRINT_val_def bit_or_iff bit_1_iff rep_int_bit)
  next
    case (Suc j)
    have "bit (signed_drop_bit (nat b) (rep_int a - 1)) (Suc j) = bit a (nat b + j)"
      using Suc \<open>n < LENGTH(32)\<close> k top [of "nat b + j"]
      by (auto simp: bit_signed_drop_bit_iff rep_minus_1_bit)
    then show ?thesis
      using Suc \<open>n < LENGTH(32)\<close> unfolding ASRINT_val_def c_sar_def unat_shift_count [OF assms(1,2)]
      by (simp add: bit_or_iff bit_1_iff rep_int_bit bit_drop_bit_eq flip: drop_bit_eq_div)
  qed
qed

text \<open>The integer as an unsigned number of 31 bits.\<close>

definition unsigned31 :: "int \<Rightarrow> int" where
  "unsigned31 a = take_bit 31 a"

lemma LSRINT_rep:
  assumes "0 \<le> b" and "b < 32"
  shows "LSRINT_val (rep_int a) (rep_int b) = rep_int (unsigned31 a div 2 ^ nat b)"
  unfolding LSRINT_val_def c_shr_def unat_shift_count [OF assms] unsigned31_def
  by (rule bit_word_eqI)
    (auto simp: bit_or_iff bit_1_iff bit_drop_bit_eq rep_minus_1_bit rep_int_bit bit_take_bit_iff
       simp flip: drop_bit_eq_div)

lemma NEGINT_rep: "2 - rep_int a = rep_int (- a)"
  by (simp add: rep_int_ring)


subsection \<open>The arithmetic instructions\<close>

definition arith_spec :: "uint32 \<Rightarrow> (int \<Rightarrow> int \<Rightarrow> int) option" where
  "arith_spec op =
     (if op = ADDINT then Some (\<lambda>a b. a + b)
      else if op = SUBINT then Some (\<lambda>a b. a - b)
      else if op = MULINT then Some (\<lambda>a b. a * b)
      else if op = DIVINT then Some (\<lambda>a b. a sdiv b)
      else if op = MODINT then Some (\<lambda>a b. a smod b)
      else if op = ANDINT then Some (\<lambda>a b. a AND b)
      else if op = ORINT then Some (\<lambda>a b. a OR b)
      else if op = XORINT then Some (\<lambda>a b. a XOR b)
      else if op = LSLINT then Some (\<lambda>a b. a * 2 ^ nat b)
      else if op = LSRINT then Some (\<lambda>a b. unsigned31 a div 2 ^ nat b)
      else if op = ASRINT then Some (\<lambda>a b. a div 2 ^ nat b)
      else None)"

definition arith_pre :: "uint32 \<Rightarrow> int \<Rightarrow> bool" where
  "arith_pre op b \<longleftrightarrow>
     (if op = DIVINT \<or> op = MODINT then b \<noteq> 0
      else if op = LSLINT \<or> op = LSRINT \<or> op = ASRINT then 0 \<le> b \<and> b < 32
      else True)"

lemma arith_spec_cases:
  assumes "arith_spec op = Some f"
  obtains (add) "op = ADDINT" "f = (\<lambda>a b. a + b)" | (sub) "op = SUBINT" "f = (\<lambda>a b. a - b)"
  | (mul) "op = MULINT" "f = (\<lambda>a b. a * b)" | (div) "op = DIVINT" "f = (\<lambda>a b. a sdiv b)"
  | (mod) "op = MODINT" "f = (\<lambda>a b. a smod b)" | (land) "op = ANDINT" "f = (\<lambda>a b. a AND b)"
  | (lor) "op = ORINT" "f = (\<lambda>a b. a OR b)" | (lxor) "op = XORINT" "f = (\<lambda>a b. a XOR b)"
  | (lsl) "op = LSLINT" "f = (\<lambda>a b. a * 2 ^ nat b)"
  | (lsr) "op = LSRINT" "f = (\<lambda>a b. unsigned31 a div 2 ^ nat b)"
  | (asr) "op = ASRINT" "f = (\<lambda>a b. a div 2 ^ nat b)"
  using assms unfolding arith_spec_def by (auto split: if_splits)

lemma rep_int_nonzero: "in_long b \<Longrightarrow> b \<noteq> 0 \<Longrightarrow> Long_val (rep_int b) \<noteq> 0"
  by (metis sint_0 sint_Long_val_rep_int wrap31_in)

lemma DIVINT_rep:
  assumes "in_long a" and "in_long b"
  shows "Val_long (c_div (Long_val (rep_int a)) (Long_val (rep_int b))) = rep_int (a sdiv b)"
    and "Val_long (c_mod (Long_val (rep_int a)) (Long_val (rep_int b))) = rep_int (a smod b)"
  using assms by (simp_all add: c_ops wrap31_in Val_long_word_of_int)

lemma ins_binary_rep:
  assumes "accu s = x" and "stkn s 0 = y"
  shows "ins_binary f (skip 1 s) = s\<lparr>pc := pc s + 4, accu := f x y, sp := sp s + 4\<rparr>"
  using assms by (simp add: ins_binary_def) (simp add: reg_defs)

lemmas arith_reps = ADDINT_rep SUBINT_rep MULINT_rep ANDINT_rep ORINT_rep XORINT_rep LSLINT_rep
  LSRINT_rep ASRINT_rep

lemma ins_DIVINT_rep:
  assumes "accu s = rep_int a" and "stkn s 0 = rep_int b" and "in_long a" and "in_long b" and "b \<noteq> 0"
  shows "ins_DIVINT fns (skip 1 s) =
      Running (s\<lparr>pc := pc s + 4, accu := rep_int (a sdiv b), sp := sp s + 4\<rparr>)"
    and "ins_MODINT fns (skip 1 s) =
      Running (s\<lparr>pc := pc s + 4, accu := rep_int (a smod b), sp := sp s + 4\<rparr>)"
  using assms rep_int_nonzero [of b] DIVINT_rep [of a b]
  by (simp_all add: ins_DIVINT_def ins_MODINT_def Let_def) (simp_all add: reg_defs)

text \<open>
  C2.  An arithmetic instruction, executed on two tagged integers, leaves in the accumulator the
  representation of what the operation gives on the integers (so the sum, difference, product and
  shifts are those of the language's integers modulo \<open>2 ^ 31\<close>, the quotient and remainder those of
  C), pops its operand, moves past the opcode, and changes nothing else.
\<close>

theorem arith_step:
  assumes "opnd s 0 = op" and "arith_spec op = Some f" and "arith_pre op b"
    and "in_long a" and "in_long b" and "accu s = rep_int a" and "stkn s 0 = rep_int b"
  shows "step fns s = Running (s\<lparr>pc := pc s + 4, accu := rep_int (f a b), sp := sp s + 4\<rparr>)"
  using assms(2)
proof (cases rule: arith_spec_cases)
  case div
  then show ?thesis using assms by (simp add: step_opcode exec_defs arith_pre_def ins_DIVINT_rep)
next
  case mod
  then show ?thesis using assms by (simp add: step_opcode exec_defs arith_pre_def ins_DIVINT_rep)
qed (use assms in \<open>simp_all add: step_opcode exec_defs arith_pre_def ins_binary_rep [OF assms(6,7)]
       arith_reps\<close>)

theorem arith_step_witness:
  "step quiet_fns (boot_machine\<lparr>code := (\<lambda>_. DIVINT), accu := rep_int (- 7), stk := (\<lambda>_. rep_int 2)\<rparr>) =
   Running (boot_machine\<lparr>code := (\<lambda>_. DIVINT), stk := (\<lambda>_. rep_int 2), pc := 4,
     accu := rep_int (- 3), sp := 4\<rparr>)"
proof -
  have "(- 7 :: int) sdiv 2 = - 3" by (simp add: signed_divide_int_def)
  then show ?thesis
    using arith_step [of "boot_machine\<lparr>code := (\<lambda>_. DIVINT), accu := rep_int (- 7), stk := (\<lambda>_. rep_int 2)\<rparr>"
      DIVINT "\<lambda>a b. a sdiv b" 2 "- 7" quiet_fns]
    by (simp add: opnd_def stkn_def arith_spec_def arith_pre_def in_long_def)
qed

subsection \<open>The comparisons\<close>

text \<open>The tests, on integers; \<^verbatim>\<open>EQ\<close> and \<^verbatim>\<open>NEQ\<close> compare the words.\<close>

definition compare_spec :: "uint32 \<Rightarrow> (int \<Rightarrow> int \<Rightarrow> bool) option" where
  "compare_spec op =
     (if op = EQ then Some (\<lambda>a b. a = b) else if op = NEQ then Some (\<lambda>a b. a \<noteq> b)
      else if op = LTINT then Some (\<lambda>a b. a < b) else if op = LEINT then Some (\<lambda>a b. a \<le> b)
      else if op = GTINT then Some (\<lambda>a b. a > b) else if op = GEINT then Some (\<lambda>a b. a \<ge> b)
      else if op = ULTINT then Some (\<lambda>a b. unsigned31 a < unsigned31 b)
      else if op = UGEINT then Some (\<lambda>a b. unsigned31 a \<ge> unsigned31 b)
      else None)"

lemma compare_spec_cases:
  assumes "compare_spec op = Some f"
  obtains (eq) "op = EQ" "f = (\<lambda>a b. a = b)" | (neq) "op = NEQ" "f = (\<lambda>a b. a \<noteq> b)"
  | (lt) "op = LTINT" "f = (\<lambda>a b. a < b)" | (le) "op = LEINT" "f = (\<lambda>a b. a \<le> b)"
  | (gt) "op = GTINT" "f = (\<lambda>a b. a > b)" | (ge) "op = GEINT" "f = (\<lambda>a b. a \<ge> b)"
  | (ult) "op = ULTINT" "f = (\<lambda>a b. unsigned31 a < unsigned31 b)"
  | (uge) "op = UGEINT" "f = (\<lambda>a b. unsigned31 a \<ge> unsigned31 b)"
  using assms unfolding compare_spec_def by (auto split: if_splits)

lemma uint_rep_int: "uint (rep_int a) = 2 * unsigned31 a + 1"
proof -
  have "uint (rep_int a) = (2 * a + 1) mod (2 * 2 ^ 31)"
    by (simp add: rep_int_word uint_word_of_int del: of_int_add of_int_mult)
  also have "\<dots> = 2 * (a mod 2 ^ 31) + 1" by (subst zmod_zmult2_eq) simp_all
  finally show ?thesis by (simp add: unsigned31_def take_bit_eq_mod)
qed

lemma rep_int_less: "rep_int a < rep_int b \<longleftrightarrow> unsigned31 a < unsigned31 b"
  unfolding word_less_def uint_rep_int by linarith

lemma rep_int_le: "rep_int a \<le> rep_int b \<longleftrightarrow> unsigned31 a \<le> unsigned31 b"
  by (simp add: word_le_def uint_rep_int)

lemma slt_rep: "in_long a \<Longrightarrow> in_long b \<Longrightarrow> slt (rep_int a) (rep_int b) \<longleftrightarrow> a < b"
  unfolding slt_def by (simp only: sint_rep_int) linarith

lemma sle_rep: "in_long a \<Longrightarrow> in_long b \<Longrightarrow> sle (rep_int a) (rep_int b) \<longleftrightarrow> a \<le> b"
  unfolding sle_def by (simp only: sint_rep_int) linarith

lemmas compare_reps = rep_int_inj rep_int_less rep_int_le slt_rep sle_rep

lemma Integer_comparison_rep:
  assumes "accu s = x" and "stkn s 0 = y"
  shows "Integer_comparison f (skip 1 s) =
    s\<lparr>pc := pc s + 4, accu := Val_bool (f x y), sp := sp s + 4\<rparr>"
  using assms by (simp add: Integer_comparison_def Val_bool_def) (simp add: reg_defs)

text \<open>
  A comparison instruction on two tagged integers, which compares the tagged words
  themselves, gives the boolean of the comparison of the integers; the unsigned ones compare the
  integers as 31-bit unsigned numbers.
\<close>

theorem compare_step:
  assumes "opnd s 0 = op" and "compare_spec op = Some f"
    and "in_long a" and "in_long b" and "accu s = rep_int a" and "stkn s 0 = rep_int b"
  shows "step fns s = Running (s\<lparr>pc := pc s + 4, accu := Val_bool (f a b), sp := sp s + 4\<rparr>)"
  using assms(2)
  by (cases rule: compare_spec_cases)
    (use assms in \<open>simp_all add: step_opcode exec_defs Integer_comparison_rep [OF assms(5,6)]
       compare_reps\<close>)

theorem compare_step_witness:
  "step quiet_fns (boot_machine\<lparr>code := (\<lambda>_. LTINT), accu := rep_int (- 1), stk := (\<lambda>_. rep_int 2)\<rparr>) =
   Running (boot_machine\<lparr>code := (\<lambda>_. LTINT), stk := (\<lambda>_. rep_int 2), pc := 4,
     accu := Val_bool True, sp := 4\<rparr>)"
  using compare_step [of "boot_machine\<lparr>code := (\<lambda>_. LTINT), accu := rep_int (- 1), stk := (\<lambda>_. rep_int 2)\<rparr>"
     LTINT "\<lambda>a b. a < b" "- 1" 2 quiet_fns]
  by (simp add: opnd_def stkn_def compare_spec_def in_long_def)

definition branch_spec :: "uint32 \<Rightarrow> (int \<Rightarrow> int \<Rightarrow> bool) option" where
  "branch_spec op =
     (if op = BEQ then Some (\<lambda>a b. a = b) else if op = BNEQ then Some (\<lambda>a b. a \<noteq> b)
      else if op = BLTINT then Some (\<lambda>a b. a < b) else if op = BLEINT then Some (\<lambda>a b. a \<le> b)
      else if op = BGTINT then Some (\<lambda>a b. a > b) else if op = BGEINT then Some (\<lambda>a b. a \<ge> b)
      else None)"

lemma branch_spec_cases:
  assumes "branch_spec op = Some f"
  obtains (eq) "op = BEQ" "f = (\<lambda>a b. a = b)" | (neq) "op = BNEQ" "f = (\<lambda>a b. a \<noteq> b)"
  | (lt) "op = BLTINT" "f = (\<lambda>a b. a < b)" | (le) "op = BLEINT" "f = (\<lambda>a b. a \<le> b)"
  | (gt) "op = BGTINT" "f = (\<lambda>a b. a > b)" | (ge) "op = BGEINT" "f = (\<lambda>a b. a \<ge> b)"
  using assms unfolding branch_spec_def by (auto split: if_splits)

lemma eq_Long_val_rep: "in_long a \<Longrightarrow> x = Long_val (rep_int a) \<longleftrightarrow> sint x = a"
  by (metis sint_Long_val_rep_int word_of_int_sint_eq wrap31_in)

lemma Integer_branch_comparison_rep:
  "Integer_branch_comparison f (skip 1 s) =
    s\<lparr>pc := (if f (opnd s 1) (Long_val (accu s)) then pc s + 8 + 4 * opnd s 2 else pc s + 12)\<rparr>"
  by (simp add: Integer_branch_comparison_def branch_def Let_def) (simp add: reg_defs algebra_simps)

text \<open>
  A compare-and-branch instruction compares its immediate operand with the integer in the
  accumulator, and branches relative to the word that holds the displacement.
\<close>

theorem branch_compare_step:
  assumes "opnd s 0 = op" and "branch_spec op = Some f" and "in_long a" and "accu s = rep_int a"
  shows "step fns s =
    Running (s\<lparr>pc := (if f (sint (opnd s 1)) a then pc s + 8 + 4 * opnd s 2 else pc s + 12)\<rparr>)"
  using assms(2)
  by (cases rule: branch_spec_cases)
    (use assms in \<open>simp_all add: step_opcode exec_defs Integer_branch_comparison_rep slt_def sle_def
       eq_Long_val_rep wrap31_in\<close>)

theorem branch_compare_step_witness:
  "step quiet_fns (boot_machine\<lparr>code := (\<lambda>_. BEQ), accu := rep_int 131\<rparr>) =
   Running (boot_machine\<lparr>code := (\<lambda>_. BEQ), accu := rep_int 131, pc := 532\<rparr>)"
  using branch_compare_step [of "boot_machine\<lparr>code := (\<lambda>_. BEQ), accu := rep_int 131\<rparr>"
     BEQ "\<lambda>a b. a = b" 131 quiet_fns]
  by (simp add: opnd_def branch_spec_def in_long_def)

subsection \<open>The opcodes\<close>

text \<open>An interval of small words, enumerated.\<close>

lemma word_interval:
  assumes "n \<le> 200" and that: "m \<le> n"
  shows "word_of_nat m \<le> op \<and> op < word_of_nat n \<longleftrightarrow>
    op \<in> set (map word_of_nat [m..<n] :: uint32 list)"
proof
  assume "word_of_nat m \<le> op \<and> op < word_of_nat n"
  then have "m \<le> unat op" "unat op < n"
    using assms that by (simp_all add: word_less_nat_alt word_le_nat_alt unat_word_of_nat_small)
  then show "op \<in> set (map word_of_nat [m..<n])"
    by (auto intro!: image_eqI [of _ _ "unat op"])
qed (use assms in \<open>auto simp: word_less_nat_alt word_le_nat_alt unat_word_of_nat_small\<close>)

lemma exec_stack_None: "exec_stack op s = None \<longleftrightarrow> \<not> (0 \<le> op \<and> op < 21)"
  using word_interval [of 21 0 op] by (auto simp: upt_rec exec_stack_def)

lemma exec_env_None: "exec_env op s = None \<longleftrightarrow> \<not> (21 \<le> op \<and> op < 31)"
  using word_interval [of 31 21 op] by (auto simp: upt_rec exec_env_def)

lemma exec_apply_None: "exec_apply fns op s = None \<longleftrightarrow> \<not> (31 \<le> op \<and> op < 53)"
  using word_interval [of 53 31 op] by (auto simp: upt_rec exec_apply_def)

lemma exec_global_None: "exec_global op s = None \<longleftrightarrow> \<not> (53 \<le> op \<and> op < 58)"
  using word_interval [of 58 53 op] by (auto simp: upt_rec exec_global_def)

lemma exec_alloc_None: "exec_alloc fns op s = None \<longleftrightarrow> \<not> (58 \<le> op \<and> op < 67)"
  using word_interval [of 67 58 op] by (auto simp: upt_rec exec_alloc_def)

lemma exec_field_None: "exec_field fns op s = None \<longleftrightarrow> \<not> (67 \<le> op \<and> op < 84)"
  using word_interval [of 84 67 op] by (auto simp: upt_rec exec_field_def)

lemma exec_branch_None: "exec_branch op s = None \<longleftrightarrow> \<not> (84 \<le> op \<and> op < 89)"
  using word_interval [of 89 84 op] by (auto simp: upt_rec exec_branch_def)

lemma exec_control_None: "exec_control fns op s = None \<longleftrightarrow> \<not> (89 \<le> op \<and> op < 99)"
  using word_interval [of 99 89 op] by (auto simp: upt_rec exec_control_def)

lemma exec_const_None: "exec_const op s = None \<longleftrightarrow> \<not> (99 \<le> op \<and> op < 109)"
  using word_interval [of 109 99 op] by (auto simp: upt_rec exec_const_def)

lemma exec_arith_None: "exec_arith fns op s = None \<longleftrightarrow> \<not> (109 \<le> op \<and> op < 121)"
  using word_interval [of 121 109 op] by (auto simp: upt_rec exec_arith_def)

lemma exec_compare_None:
  "exec_compare op s = None \<longleftrightarrow> \<not> (121 \<le> op \<and> op < 130) \<and> \<not> (131 \<le> op \<and> op < 141)"
  using word_interval [of 130 121 op] word_interval [of 141 131 op]
  by (auto simp: upt_rec exec_compare_def)

lemma orelse_None: "orelse a b = None \<longleftrightarrow> a = None \<and> b = None"
  by (auto simp: orelse_def split: option.splits)

lemma running_None: "running r = None \<longleftrightarrow> r = None"
  by (simp add: running_def)

lemmas group_None = exec_stack_None exec_env_None exec_apply_None exec_global_None exec_alloc_None
  exec_field_None exec_branch_None exec_control_None exec_const_None exec_arith_None exec_compare_None

text \<open>
  The sections of the interpreter's \<^verbatim>\<open>switch\<close> together handle exactly the opcodes
  of the instruction set that precede \<^verbatim>\<open>EVENT\<close>: none is left to the default case, and nothing
  beyond them is taken for an instruction.
\<close>

theorem dispatch_complete:
  "exec_base fns op s \<noteq> None \<longleftrightarrow> op < EVENT"
proof -
  have last: "(if op = GETMETHOD then Some (Running (ins_GETMETHOD s))
     else if op = STOP then Some (ins_STOP s) else None) = None \<longleftrightarrow> unat op \<noteq> 130 \<and> unat op \<noteq> 141"
    by (simp add: word_unat_eq_iff)
  show ?thesis
    unfolding exec_base_def orelse_None running_None group_None last
      word_le_nat_alt word_less_nat_alt
    by simp presburger
qed

end
