(* ===== verification/Interp_Frames.thy ===== *)
theory Interp_Frames
  imports Interp
begin

text \<open>
  The calling conventions of the interpreter: return frames (\<^verbatim>\<open>PUSH_RETADDR\<close>, \<^verbatim>\<open>APPLY\<close>,
  \<^verbatim>\<open>RETURN\<close>), tail calls (\<^verbatim>\<open>APPTERM\<close>), partial application (\<^verbatim>\<open>GRAB\<close>, \<^verbatim>\<open>RESTART\<close>),
  closures, and trap frames (\<^verbatim>\<open>PUSHTRAP\<close>, \<^verbatim>\<open>POPTRAP\<close>, \<^verbatim>\<open>RAISE\<close>).
\<close>

subsection \<open>Runs of words\<close>

lemma unat_four: "i < 2 ^ 30 \<Longrightarrow> unat (4 * word_of_nat i :: uint32) = 4 * i"
  by (simp add: unat_word_ariths unsigned_of_nat take_bit_nat_eq_self)

lemma four_inj:
  assumes "i < 2 ^ 30" and "j < 2 ^ 30"
  shows "(4 * word_of_nat i :: uint32) = 4 * word_of_nat j \<longleftrightarrow> i = j"
  using unat_four [OF assms(1)] unat_four [OF assms(2)] by (metis mult_cancel1 zero_neq_numeral)

text \<open>Words written in a row from the address \<open>a\<close>, those of the indices \<open>i\<close> up to \<open>i + n\<close>.\<close>

fun write_words :: "addr \<Rightarrow> (nat \<Rightarrow> uint32) \<Rightarrow> nat \<Rightarrow> nat \<Rightarrow> mem \<Rightarrow> mem" where
  "write_words a f i 0 m = m"
| "write_words a f i (Suc n) m = write_words a f (Suc i) n (m(a + 4 * word_of_nat i := f i))"

lemma write_words_outside:
  "(\<And>k. i \<le> k \<Longrightarrow> k < i + n \<Longrightarrow> x \<noteq> a + 4 * word_of_nat k) \<Longrightarrow> write_words a f i n m x = m x"
proof (induction n arbitrary: i m)
  case (Suc n)
  then have "x \<noteq> a + 4 * word_of_nat i" by simp
  then show ?case using Suc.IH [of "Suc i"] Suc.prems by simp
qed simp

lemma write_words_inside:
  "i + n < 2 ^ 30 \<Longrightarrow> i \<le> k \<Longrightarrow> k < i + n \<Longrightarrow> write_words a f i n m (a + 4 * word_of_nat k) = f k"
proof (induction n arbitrary: i m)
  case (Suc n)
  show ?case
  proof (cases "k = i")
    case True
    have "write_words a f (Suc i) n (m(a + 4 * word_of_nat i := f i)) (a + 4 * word_of_nat i) = f i"
    proof (subst write_words_outside)
      fix k assume "Suc i \<le> k" "k < Suc i + n"
      then show "a + 4 * word_of_nat i \<noteq> a + 4 * word_of_nat k"
        using Suc.prems(1) four_inj [of i k] by simp
    qed simp
    with True show ?thesis by simp
  qed (use Suc in simp)
qed simp

lemma store_fields_eq:
  "store_fields b base i n s =
     s\<lparr>mem := write_words (b + 4 * base) (\<lambda>j. stkn s (word_of_nat j)) i n (mem s)\<rparr>"
proof (induction n arbitrary: i s)
  case (Suc n)
  have "stkn (s\<lparr>mem := m\<rparr>) = stkn s" for m by (simp add: stkn_def fun_eq_iff)
  with Suc show ?case by (simp add: set_Field_def algebra_simps del: fun_upd_apply)
qed simp

lemma load_args_eq:
  "load_args i n s =
     s\<lparr>stk := write_words (sp s) (\<lambda>j. Field (mem s) (env s) (word_of_nat j + 2)) i n (stk s)\<rparr>"
  by (induction n arbitrary: i s) (simp_all add: set_stkn_def)

lemma pop_fields_eq:
  "pop_fields b i n s =
     s\<lparr>mem := write_words b (\<lambda>j. stk s (sp s + 4 * word_of_nat j - 4 * word_of_nat i)) i n (mem s),
       sp := sp s + 4 * word_of_nat n\<rparr>"
proof (induction n arbitrary: i s)
  case (Suc n)
  have "pop_fields b i (Suc n) s = pop_fields b (Suc i) n
      (s\<lparr>mem := (mem s)(b + 4 * word_of_nat i := stk s (sp s)), sp := sp s + 4\<rparr>)"
    by (simp add: reg_defs set_Field_def del: fun_upd_apply)
  then show ?case unfolding Suc by (simp add: algebra_simps del: fun_upd_apply)
qed simp

text \<open>The top \<open>n\<close> words of the stack.\<close>

definition stack_args :: "machine \<Rightarrow> nat \<Rightarrow> val list" where
  "stack_args s n = map (\<lambda>i. stkn s (word_of_nat i)) [0..<n]"

lemma slide_correct:
  assumes "n + k < 2 ^ 30" and "newsp = oldsp + 4 * word_of_nat k"
  shows "\<And>i. i < n \<Longrightarrow> slide newsp oldsp n m (newsp + 4 * word_of_nat i) = m (oldsp + 4 * word_of_nat i)"
    and "\<And>a. (\<And>i. i < n \<Longrightarrow> a \<noteq> newsp + 4 * word_of_nat i) \<Longrightarrow> slide newsp oldsp n m a = m a"
proof -
  have "(\<forall>i<n. slide newsp oldsp n m (newsp + 4 * word_of_nat i) = m (oldsp + 4 * word_of_nat i)) \<and>
    (\<forall>a. (\<forall>i<n. a \<noteq> newsp + 4 * word_of_nat i) \<longrightarrow> slide newsp oldsp n m a = m a)"
    using assms(1)
  proof (induction n arbitrary: m)
    case (Suc n)
    define m1 where "m1 = m(newsp + 4 * word_of_nat n := m (oldsp + 4 * word_of_nat n))"
    have slide: "slide newsp oldsp (Suc n) m = slide newsp oldsp n m1" by (simp add: m1_def)
    have IH: "\<forall>i<n. slide newsp oldsp n m1 (newsp + 4 * word_of_nat i) = m1 (oldsp + 4 * word_of_nat i)"
      "\<forall>a. (\<forall>i<n. a \<noteq> newsp + 4 * word_of_nat i) \<longrightarrow> slide newsp oldsp n m1 a = m1 a"
      using Suc.IH [of m1] Suc.prems by auto
    have apart: "oldsp + 4 * word_of_nat i \<noteq> newsp + 4 * word_of_nat n" if "i < n" for i
      using that Suc.prems four_inj [of i "k + n"] by (simp add: assms(2) algebra_simps)
    have top: "newsp + 4 * word_of_nat n \<noteq> newsp + 4 * word_of_nat i" if "i < n" for i
      using that Suc.prems four_inj [of n i] by simp
    show ?case
    proof (intro conjI allI impI)
      fix i assume "i < Suc n"
      then consider "i < n" | "i = n" by linarith
      then show "slide newsp oldsp (Suc n) m (newsp + 4 * word_of_nat i) = m (oldsp + 4 * word_of_nat i)"
        unfolding slide by cases (use IH apart top in \<open>auto simp: m1_def\<close>)
    next
      fix a assume "\<forall>i<Suc n. a \<noteq> newsp + 4 * word_of_nat i"
      then show "slide newsp oldsp (Suc n) m a = m a"
        unfolding slide using IH(2) by (auto simp: m1_def)
    qed
  qed simp
  then show "\<And>i. i < n \<Longrightarrow> slide newsp oldsp n m (newsp + 4 * word_of_nat i) = m (oldsp + 4 * word_of_nat i)"
    and "\<And>a. (\<And>i. i < n \<Longrightarrow> a \<noteq> newsp + 4 * word_of_nat i) \<Longrightarrow> slide newsp oldsp n m a = m a"
    by auto
qed

lemma write_words_below:
  assumes "n + j < 2 ^ 30" and "0 < j"
  shows "write_words a f 0 n m (a - 4 * word_of_nat j) = m (a - 4 * word_of_nat j)"
proof (rule write_words_outside)
  fix k assume "k < 0 + n"
  have "a - 4 * word_of_nat j = a + 4 * word_of_nat k \<longleftrightarrow> 4 * word_of_nat (k + j) = (4 * word_of_nat 0 :: uint32)"
    by (auto simp: algebra_simps)
  also have "\<dots> \<longleftrightarrow> k + j = 0" using assms \<open>k < 0 + n\<close> by (intro four_inj) auto
  finally show "a - 4 * word_of_nat j \<noteq> a + 4 * word_of_nat k" using assms(2) by simp
qed

lemma nth_stack_args: "i < n \<Longrightarrow> stack_args s n ! i = stkn s (word_of_nat i)"
  by (simp add: stack_args_def)

lemma length_stack_args [simp]: "length (stack_args s n) = n"
  by (simp add: stack_args_def)

lemma stack_args_eqI:
  assumes "length vs = n" and "\<And>i. i < n \<Longrightarrow> stk s (sp s + 4 * word_of_nat i) = vs ! i"
  shows "stack_args s n = vs"
  using assms by (intro nth_equalityI) (auto simp: stack_args_def stkn_def)

subsection \<open>Blocks\<close>

definition block_at :: "mem \<Rightarrow> val \<Rightarrow> uint32 \<Rightarrow> val list \<Rightarrow> bool" where
  "block_at m b tag vs \<longleftrightarrow>
     Hd_val m b = Make_header (word_of_nat (length vs)) tag Caml_black \<and>
     (\<forall>i < length vs. Field m b (word_of_nat i) = vs ! i)"

lemma header_ok_small: "n < 2 ^ 22 \<Longrightarrow> tag < 256 \<Longrightarrow> header_ok (word_of_nat n) tag Caml_black"
  by (simp add: header_ok_def Max_wosize_def word_le_nat_alt unsigned_of_nat take_bit_nat_eq_self)

lemma block_at_Wosize:
  assumes "block_at m b tag vs" and "length vs < 2 ^ 22" and "tag < 256"
  shows "Wosize_val m b = word_of_nat (length vs)" and "Tag_val m b = tag"
  using assms Make_header_fields [OF header_ok_small [OF assms(2,3)]]
  by (simp_all add: block_at_def Wosize_val_def Tag_val_def)

lemma block_at_cong:
  assumes "block_at m b tag vs" and "m' (b - 4) = m (b - 4)"
    and "\<And>i. i < length vs \<Longrightarrow> m' (b + 4 * word_of_nat i) = m (b + 4 * word_of_nat i)"
  shows "block_at m' b tag vs"
  using assms by (simp add: block_at_def Hd_val_def Field_def)

text \<open>There is room in the minor heap for a block of \<open>wosize\<close> words.\<close>

definition young_room :: "machine \<Rightarrow> uint32 \<Rightarrow> bool" where
  "young_room s wosize \<longleftrightarrow> young_limit s \<le> young_ptr s - Bhsize_wosize wosize"

definition fresh_block :: "machine \<Rightarrow> uint32 \<Rightarrow> val" where
  "fresh_block s wosize = young_ptr s - 4 * wosize"

lemma Alloc_small_i_room:
  assumes "young_room s wosize"
  shows "Alloc_small_i fns wosize tag s =
    (fresh_block s wosize, s\<lparr>young_ptr := fresh_block s wosize - 4,
      mem := (mem s)(fresh_block s wosize - 4 := Make_header wosize tag Caml_black)\<rparr>)"
  using assms unfolding Alloc_small_i_def young_room_def fresh_block_def by (rule Alloc_small_room)

lemma Closure_tag_lt: "Closure_tag < 256"
  by (simp add: Closure_tag_def)

subsection \<open>Partial application\<close>

lemma ins_RESTART_closure:
  assumes blk: "block_at (mem u) (env u) Closure_tag (cp # e # args)" and n: "length args < 2 ^ 21"
  shows "ins_RESTART u = u\<lparr>sp := sp u - 4 * word_of_nat (length args),
    stk := write_words (sp u - 4 * word_of_nat (length args)) (\<lambda>i. Field (mem u) (env u) (word_of_nat i + 2))
             0 (length args) (stk u),
    env := e, extra_args := extra_args u + word_of_nat (length args)\<rparr>"
proof -
  have "Wosize_val (mem u) (env u) = word_of_nat (length (cp # e # args))"
    using block_at_Wosize(1) [OF blk] n Closure_tag_lt by simp
  then have num: "Wosize_val (mem u) (env u) - 2 = word_of_nat (length args)" by simp
  have "sint (word_of_nat (length args) :: uint32) = int (length args)"
    using n by (simp add: signed_of_nat signed_take_bit_int_eq_self)
  moreover have "Field (mem u) (env u) 1 = e"
    using blk by (auto simp: block_at_def dest: spec [of _ 1])
  ultimately show ?thesis
    unfolding ins_RESTART_def num load_args_eq Let_def by simp
qed

text \<open>A return frame: the return address, the environment and the number of extra arguments.\<close>

definition frame_at :: "mem \<Rightarrow> addr \<Rightarrow> addr \<Rightarrow> val \<Rightarrow> uint32 \<Rightarrow> bool" where
  "frame_at m a ret e x \<longleftrightarrow> m a = ret \<and> m (a + 4) = e \<and> m (a + 8) = Val_long x \<and> in_long (sint x)"

lemma Long_val_Val_long: "in_long (sint x) \<Longrightarrow> Long_val (Val_long x) = x"
  by (metis Long_val_rep_int Val_long_rep_int word_of_int_sint_eq wrap31_in)

lemma pop_frame_at:
  assumes "frame_at (stk s) (sp s) ret e x"
  shows "pop_frame s = s\<lparr>pc := ret, env := e, extra_args := x, sp := sp s + 12\<rparr>"
  using assms by (simp add: frame_at_def pop_frame_def reg_defs Long_val_Val_long)

text \<open>The closure that \<^verbatim>\<open>GRAB\<close> builds, written field by field.\<close>

definition grab_mem :: "machine \<Rightarrow> nat \<Rightarrow> mem" where
  "grab_mem s n =
     (let b = fresh_block s (word_of_nat n + 2);
          m1 = (mem s)(b - 4 := Make_header (word_of_nat n + 2) Closure_tag Caml_black);
          m2 = m1(b + 4 := env s);
          m3 = write_words (b + 8) (\<lambda>i. stkn s (word_of_nat i)) 0 n m2
      in m3(b := pc s - 8))"

lemma ins_GRAB_partial:
  assumes few: "\<not> sle (opnd s 0) (extra_args s)" and n: "1 + extra_args s = word_of_nat n" "n < 2 ^ 30"
    and room: "young_room s (word_of_nat n + 2)"
    and frame: "frame_at (stk s) (sp s + 4 * word_of_nat n) ret e x"
  shows "ins_GRAB fns s =
    s\<lparr>young_ptr := fresh_block s (word_of_nat n + 2) - 4, mem := grab_mem s n,
      accu := fresh_block s (word_of_nat n + 2), pc := ret, env := e, extra_args := x,
      sp := sp s + 4 * word_of_nat n + 12\<rparr>"
proof -
  have room': "young_room (skip 1 s) (word_of_nat n + 2)"
    using room by (simp add: young_room_def skip_def)
  have un: "unat (word_of_nat n :: uint32) = n" using n(2) by (simp add: unsigned_of_nat take_bit_nat_eq_self)
  have fresh: "fresh_block (skip 1 s) w = fresh_block s w" for w by (simp add: fresh_block_def skip_def)
  have ex: "extra_args s = word_of_nat n - 1" using n(1) by (simp add: algebra_simps)
  let ?t = "s\<lparr>pc := pc s + 4, young_ptr := fresh_block s (word_of_nat n + 2) - 4,
      accu := fresh_block s (word_of_nat n + 2), mem := grab_mem s n\<rparr>"
  have "ins_GRAB fns s = pop_frame (pop (word_of_nat n) ?t)"
    using few
    by (simp add: ins_GRAB_def Let_def ex Alloc_small_i_room [OF room'] fresh store_fields_eq un
        grab_mem_def set_Field_def del: fun_upd_apply)
      (simp add: reg_defs del: fun_upd_apply)
  moreover have "frame_at (stk (pop (word_of_nat n) ?t)) (sp (pop (word_of_nat n) ?t)) ret e x"
    using frame by (simp add: pop_def)
  ultimately show ?thesis by (simp add: pop_frame_at) (simp add: pop_def)
qed

text \<open>Where the closure of \<open>grab_mem\<close> differs from the memory before, and what it holds.\<close>

lemma grab_mem_block:
  assumes "n < 2 ^ 21"
  shows "block_at (grab_mem s n) (fresh_block s (word_of_nat n + 2)) Closure_tag
    ((pc s - 8) # env s # stack_args s n)"
proof -
  let ?b = "fresh_block s (word_of_nat n + 2)"
  let ?m = "((mem s)(?b - 4 := Make_header (word_of_nat n + 2) Closure_tag Caml_black))(?b + 4 := env s)"
  let ?w = "write_words (?b + 8) (\<lambda>i. stkn s (word_of_nat i)) 0 n ?m"
  have below: "?w (?b + 8 - 4 * word_of_nat j) = ?m (?b + 8 - 4 * word_of_nat j)" if "0 < j" "j < 4" for j
    using that assms by (intro write_words_below) auto
  have inside: "?w (?b + 8 + 4 * word_of_nat i) = stkn s (word_of_nat i)" if "i < n" for i
    using that assms by (intro write_words_inside) auto
  have apart: "?b + 8 + 4 * word_of_nat i \<noteq> ?b" if "i < n" for i
    using four_inj [of "i + 2" 0] that assms by (simp add: algebra_simps)
  have eq: "grab_mem s n = ?w(?b := pc s - 8)"
    unfolding grab_mem_def Let_def ..
  have hdr: "grab_mem s n (?b - 4) = Make_header (word_of_nat n + 2) Closure_tag Caml_black"
    using below [of 3] by (simp add: eq)
  have one: "?b + 8 - 4 * word_of_nat 1 = ?b + 4" by simp
  have f1: "grab_mem s n (?b + 4) = env s" using below [of 1, unfolded one] by (simp add: eq)
  have fi: "grab_mem s n (?b + 8 + 4 * word_of_nat i) = stkn s (word_of_nat i)" if "i < n" for i
    using inside apart that by (simp add: eq)
  show ?thesis
    unfolding block_at_def
  proof (intro conjI allI impI)
    show "Hd_val (grab_mem s n) ?b =
        Make_header (word_of_nat (length ((pc s - 8) # env s # stack_args s n))) Closure_tag Caml_black"
      using hdr by (simp add: Hd_val_def algebra_simps)
    fix i assume "i < length ((pc s - 8) # env s # stack_args s n)"
    then consider "i = 0" | "i = 1" | k where "i = k + 2" "k < n"
      by (cases i; cases "i - 1") auto
    then show "Field (grab_mem s n) ?b (word_of_nat i) = ((pc s - 8) # env s # stack_args s n) ! i"
      by cases (use f1 fi in \<open>auto simp: Field_def eq nth_stack_args algebra_simps\<close>)
  qed
qed


text \<open>
  C3.  Partial application.  When \<^verbatim>\<open>GRAB\<close> finds fewer arguments than it requires, it returns to the
  caller a closure whose code is the \<^verbatim>\<open>RESTART\<close> just before it; whenever that closure is entered
  later, \<^verbatim>\<open>RESTART\<close> puts the saved arguments back on the stack in their order, restores the
  environment of the function and adds the saved arguments to the extra ones.
\<close>

theorem grab_then_restart:
  assumes few: "\<not> sle (opnd s 0) (extra_args s)"
    and n: "1 + extra_args s = word_of_nat n" "n < 2 ^ 21"
    and room: "young_room s (word_of_nat n + 2)"
    and frame: "frame_at (stk s) (sp s + 4 * word_of_nat n) ret e x"
    and later: "env u = accu (ins_GRAB fns s)"
      "\<And>a. mem u a = mem (ins_GRAB fns s) a"
  shows "pc (ins_GRAB fns s) = ret \<and> env (ins_GRAB fns s) = e \<and> extra_args (ins_GRAB fns s) = x \<and>
    sp (ins_GRAB fns s) = sp s + 4 * word_of_nat n + 12 \<and>
    Code_val (mem u) (env u) = pc s - 8 \<and>
    env (ins_RESTART u) = env s \<and>
    extra_args (ins_RESTART u) = extra_args u + word_of_nat n \<and>
    sp (ins_RESTART u) = sp u - 4 * word_of_nat n \<and>
    stack_args (ins_RESTART u) n = stack_args s n"
proof -
  have "n < 2 ^ 30" using n(2) by simp
  note G = ins_GRAB_partial [OF few n(1) this room frame, where fns = fns]
  have m: "mem u = grab_mem s n" and b: "env u = fresh_block s (word_of_nat n + 2)"
    using later unfolding G by auto
  have blk: "block_at (mem u) (env u) Closure_tag ((pc s - 8) # env s # stack_args s n)"
    unfolding m b using n(2) by (rule grab_mem_block)
  note R = ins_RESTART_closure [OF blk, unfolded length_stack_args, OF n(2)]
  have args: "stack_args (ins_RESTART u) n = stack_args s n"
  proof (rule stack_args_eqI)
    fix i assume i: "i < n"
    have "Field (mem u) (env u) (word_of_nat i + 2) = stack_args s n ! i"
      using blk i by (auto simp: block_at_def dest!: spec [of _ "i + 2"] simp: add.commute)
    then show "stk (ins_RESTART u) (sp (ins_RESTART u) + 4 * word_of_nat i) = stack_args s n ! i"
      using i n(2) unfolding R by (simp add: write_words_inside)
  qed simp
  have "Code_val (mem u) (env u) = pc s - 8"
    using blk by (auto simp: block_at_def Code_val_def Field_def dest: spec [of _ 0])
  with args show ?thesis unfolding G R by simp
qed

text \<open>A state about to execute \<^verbatim>\<open>GRAB 3\<close> with one argument.\<close>

definition grab_example :: machine where
  "grab_example = boot_machine\<lparr>code := (\<lambda>_. 3), young_ptr := 4096, stk := (\<lambda>_. 1)\<rparr>"

theorem grab_then_restart_witness:
  "stack_args (ins_RESTART (ins_GRAB quiet_fns grab_example
     \<lparr>env := accu (ins_GRAB quiet_fns grab_example)\<rparr>)) 1 = [1]"
proof -
  have "stack_args (ins_RESTART (ins_GRAB quiet_fns grab_example
     \<lparr>env := accu (ins_GRAB quiet_fns grab_example)\<rparr>)) 1 = stack_args grab_example 1"
    using grab_then_restart [of grab_example 1 1 1 0
        "ins_GRAB quiet_fns grab_example\<lparr>env := accu (ins_GRAB quiet_fns grab_example)\<rparr>" quiet_fns]
    by (simp add: grab_example_def opnd_def sle_def young_room_def frame_at_def Val_long_def in_long_def)
  then show ?thesis by (simp add: grab_example_def stack_args_def stkn_def)
qed

subsection \<open>Calls and returns\<close>

lemma ins_RETURN_frame:
  assumes "\<not> slt 0 (extra_args u)" and "frame_at (stk u) (sp u + 4 * opnd u 0) ret e x"
  shows "ins_RETURN u = u\<lparr>pc := ret, env := e, extra_args := x, sp := sp u + 4 * opnd u 0 + 12\<rparr>"
proof -
  let ?t = "skip 1 (pop (opnd u 0) u)"
  have "frame_at (stk ?t) (sp ?t) ret e x" using assms(2) by (simp add: pop_def)
  then show ?thesis
    using assms(1) by (simp add: ins_RETURN_def Let_def pop_frame_at) (simp add: reg_defs)
qed

definition apply_instr :: "nat \<Rightarrow> machine \<Rightarrow> machine" where
  "apply_instr k = (if k = 1 then ins_APPLY1 else if k = 2 then ins_APPLY2 else ins_APPLY3)"

lemma stack_args_123:
  "stack_args s 1 = [stkn s 0]" "stack_args s 2 = [stkn s 0, stkn s 1]"
  "stack_args s 3 = [stkn s 0, stkn s 1, stkn s 2]"
  by (simp_all add: stack_args_def upt_rec)

lemmas apply_defs = ins_APPLY1_def ins_APPLY2_def ins_APPLY3_def reg_defs Let_def enter_closure_def

lemma apply_regs:
  "sp (ins_APPLY1 s) = sp s - 12" "sp (ins_APPLY2 s) = sp s - 12" "sp (ins_APPLY3 s) = sp s - 12"
  "stack_args (ins_APPLY1 s) 1 = stack_args s 1" "stack_args (ins_APPLY2 s) 2 = stack_args s 2"
  "stack_args (ins_APPLY3 s) 3 = stack_args s 3"
  unfolding stack_args_123 by (simp_all add: apply_defs)

lemma apply_frames:
  assumes "in_long (sint (extra_args s))"
  shows "frame_at (stk (ins_APPLY1 s)) (sp s - 8) (pc s) (env s) (extra_args s)"
    and "frame_at (stk (ins_APPLY2 s)) (sp s - 4) (pc s) (env s) (extra_args s)"
    and "frame_at (stk (ins_APPLY3 s)) (sp s) (pc s) (env s) (extra_args s)"
  using assms by (simp_all add: frame_at_def apply_defs)

text \<open>
  A call with one, two or three arguments pushes its return frame under the arguments; a
  \<^verbatim>\<open>RETURN\<close> that finds the frame there goes back to the caller's code, environment and extra
  arguments, with the arguments and the frame popped.
\<close>

theorem apply_then_return:
  assumes "k \<in> {1, 2, 3}" and "in_long (sint (extra_args s))"
    and "sp u = sp (apply_instr k s)" and "opnd u 0 = word_of_nat k" and "\<not> slt 0 (extra_args u)"
    and "\<forall>i \<in> {k, k + 1, k + 2}. stkn u (word_of_nat i) = stkn (apply_instr k s) (word_of_nat i)"
  shows "ins_RETURN u =
    u\<lparr>pc := pc s, env := env s, extra_args := extra_args s, sp := sp s + 4 * word_of_nat k\<rparr>"
proof -
  have "frame_at (stk (apply_instr k s)) (sp (apply_instr k s) + 4 * word_of_nat k) (pc s) (env s)
      (extra_args s)" and "sp u = sp s - 12"
    using assms(1-3) apply_frames [OF assms(2)] by (auto simp: apply_instr_def apply_regs)
  then have "frame_at (stk u) (sp u + 4 * opnd u 0) (pc s) (env s) (extra_args s)"
    using assms(3,4,6) by (auto simp: frame_at_def stkn_def algebra_simps)
  from ins_RETURN_frame [OF assms(5) this] show ?thesis
    using assms(4) \<open>sp u = sp s - 12\<close> by simp
qed

theorem apply_then_return_witness:
  "ins_RETURN (ins_APPLY1 (boot_machine\<lparr>code := (\<lambda>_. 1), pc := 40, env := 8\<rparr>)) =
   (ins_APPLY1 (boot_machine\<lparr>code := (\<lambda>_. 1), pc := 40, env := 8\<rparr>))
     \<lparr>pc := 40, env := 8, extra_args := 0, sp := 4\<rparr>"
  using apply_then_return [of 1 "boot_machine\<lparr>code := (\<lambda>_. 1), pc := 40, env := 8\<rparr>"
      "ins_APPLY1 (boot_machine\<lparr>code := (\<lambda>_. 1), pc := 40, env := 8\<rparr>)"]
  by (simp add: apply_instr_def in_long_def slt_def) (simp add: apply_defs)

subsection \<open>Tail calls\<close>

lemma nat_sint_of_nat: "n < 2 ^ 31 \<Longrightarrow> nat (sint (word_of_nat n :: uint32)) = n"
  by (simp add: signed_of_nat signed_take_bit_int_eq_self)

text \<open>
  C30.  A tail call moves its arguments to the top of the frame it replaces, although the two
  areas may overlap, discards the rest of the frame, leaves the stack above alone and enters the
  closure in the accumulator.
\<close>

theorem appterm_slides:
  assumes "opnd s 0 = word_of_nat n" and "opnd s 1 = word_of_nat (n + k)" and "n + k < 2 ^ 30"
  shows "stack_args (ins_APPTERM s) n = stack_args s n \<and>
    sp (ins_APPTERM s) = sp s + 4 * word_of_nat k \<and>
    (\<forall>a. (\<forall>i<n. a \<noteq> sp s + 4 * word_of_nat (k + i)) \<longrightarrow> stk (ins_APPTERM s) a = stk s a) \<and>
    pc (ins_APPTERM s) = Code_val (mem s) (accu s) \<and> env (ins_APPTERM s) = accu s \<and>
    extra_args (ins_APPTERM s) = extra_args s + (word_of_nat n - 1)"
proof -
  let ?new = "sp s + 4 * word_of_nat k"
  have new: "sp s + 4 * opnd s 1 - 4 * opnd s 0 = ?new"
    using assms(1,2) by (simp add: algebra_simps)
  have n: "nat (sint (opnd s 0)) = n" using assms(1,3) by (simp add: nat_sint_of_nat)
  have eq: "ins_APPTERM s = (enter_closure (s\<lparr>stk := slide ?new (sp s) n (stk s), sp := ?new\<rparr>))
      \<lparr>extra_args := extra_args s + (word_of_nat n - 1)\<rparr>"
    unfolding ins_APPTERM_def Let_def new n using assms(1) by simp
  note sl = slide_correct [OF assms(3) refl, where oldsp = "sp s" and m = "stk s"]
  have "stack_args (ins_APPTERM s) n = stack_args s n"
    by (rule stack_args_eqI) (simp_all add: eq enter_closure_def sl(1) nth_stack_args stkn_def)
  moreover have "stk (ins_APPTERM s) a = stk s a"
    if "\<forall>i<n. a \<noteq> sp s + 4 * word_of_nat (k + i)" for a
    using that sl(2) [of a] by (simp add: eq enter_closure_def algebra_simps)
  ultimately show ?thesis by (simp add: eq enter_closure_def)
qed

theorem appterm_slides_witness:
  "sp (ins_APPTERM (boot_machine\<lparr>code := (\<lambda>a. if a = 0 then 2 else 3)\<rparr>)) = 4"
  using appterm_slides [of "boot_machine\<lparr>code := (\<lambda>a. if a = 0 then 2 else 3)\<rparr>" 2 1]
  by (simp add: opnd_def)

text \<open>The specialised tail calls are the general one with the number of arguments built in.\<close>

lemma slide_1: "slide new old (Suc 0) m = m(new := m old)"
  by simp

lemma slide_2: "old \<noteq> new + 4 \<Longrightarrow> slide new old (Suc (Suc 0)) m = m(new := m old, new + 4 := m (old + 4))"
  by (auto simp: fun_eq_iff)

lemma slide_3:
  "old \<noteq> new + 4 \<Longrightarrow> old \<noteq> new + 8 \<Longrightarrow> slide new old (Suc (Suc (Suc 0))) m =
    m(new := m old, new + 4 := m (old + 4), new + 8 := m (old + 8))"
  by (auto simp: fun_eq_iff)

lemma nat_sint_123:
  "nat (sint (1 :: uint32)) = Suc 0" "nat (sint (2 :: uint32)) = Suc (Suc 0)"
  "nat (sint (3 :: uint32)) = Suc (Suc (Suc 0))"
  by simp_all

text \<open>
  The instructions for tail calls with one, two and three arguments have the effect of the general one.
\<close>

theorem appterm_specialised:
  "(opnd s 0 = 1 \<longrightarrow> ins_APPTERM s = ins_APPTERM1 (skip 1 s)) \<and>
   (opnd s 0 = 2 \<and> 4 * opnd s 1 \<noteq> 4 \<longrightarrow> ins_APPTERM s = ins_APPTERM2 (skip 1 s)) \<and>
   (opnd s 0 = 3 \<and> 4 * opnd s 1 \<notin> {4, 8} \<longrightarrow> ins_APPTERM s = ins_APPTERM3 (skip 1 s))"
proof (intro conjI impI; (elim conjE)?)
  have op: "opnd (skip 1 s) 0 = opnd s 1" by (simp add: opnd_def)
  show "ins_APPTERM s = ins_APPTERM1 (skip 1 s)" if "opnd s 0 = 1"
    unfolding ins_APPTERM_def ins_APPTERM1_def Let_def op that nat_sint_123 slide_1
    by (simp add: enter_closure_def stkn_def set_stkn_def skip_def)
  show "ins_APPTERM s = ins_APPTERM2 (skip 1 s)" if "opnd s 0 = 2" "4 * opnd s 1 \<noteq> 4"
  proof -
    have "sp s \<noteq> sp s + 4 * opnd s 1 - 4 * 2 + 4" using that(2) by auto
    from slide_2 [OF this] show ?thesis
      unfolding ins_APPTERM_def ins_APPTERM2_def Let_def op that(1) nat_sint_123
      by (simp add: enter_closure_def stkn_def set_stkn_def skip_def del: fun_upd_apply)
  qed
  show "ins_APPTERM s = ins_APPTERM3 (skip 1 s)" if "opnd s 0 = 3" "4 * opnd s 1 \<notin> {4, 8}"
  proof -
    have "sp s \<noteq> sp s + 4 * opnd s 1 - 4 * 3 + 4" "sp s \<noteq> sp s + 4 * opnd s 1 - 4 * 3 + 8"
      using that(2) by auto
    from slide_3 [OF this] show ?thesis
      unfolding ins_APPTERM_def ins_APPTERM3_def Let_def op that(1) nat_sint_123
      by (simp add: enter_closure_def stkn_def set_stkn_def skip_def del: fun_upd_apply)
  qed
qed

theorem appterm_specialised_witness:
  "ins_APPTERM (boot_machine\<lparr>code := (\<lambda>_. 2)\<rparr>) = ins_APPTERM2 (skip 1 (boot_machine\<lparr>code := (\<lambda>_. 2)\<rparr>))"
  using appterm_specialised [of "boot_machine\<lparr>code := (\<lambda>_. 2)\<rparr>"] by (simp add: opnd_def)

subsection \<open>Exceptions\<close>

definition trap_frame_at :: "mem \<Rightarrow> addr \<Rightarrow> addr \<Rightarrow> addr \<Rightarrow> val \<Rightarrow> uint32 \<Rightarrow> bool" where
  "trap_frame_at m a handler link e x \<longleftrightarrow>
     m a = handler \<and> m (a + 4) = link \<and> m (a + 8) = e \<and> m (a + 12) = Val_long x \<and> in_long (sint x)"

lemma PUSHTRAP_frame:
  assumes "in_long (sint (extra_args s))"
  shows "trap_frame_at (stk (ins_PUSHTRAP s)) (sp s - 16) (pc s + 4 * opnd s 0) (trapsp s) (env s)
      (extra_args s)"
    and "sp (ins_PUSHTRAP s) = sp s - 16" and "trapsp (ins_PUSHTRAP s) = sp s - 16"
    and "pc (ins_PUSHTRAP s) = pc s + 4" and "mem (ins_PUSHTRAP s) = mem s"
  using assms by (simp_all add: trap_frame_at_def ins_PUSHTRAP_def Let_def reg_defs)

text \<open>The handler runs when no debugger or backtrace is on and the frame belongs to this activation.\<close>

definition plain_raise :: "machine \<Rightarrow> bool" where
  "plain_raise t \<longleftrightarrow>
     trapsp t < trap_barrier t \<and> \<not> backtrace_active t \<and>
     trapsp t < stack_high t - initial_sp_offset t"

lemma raise_exception_frame:
  assumes "plain_raise t" and "trap_frame_at (stk t) (trapsp t) handler link e x"
  shows "raise_exception fns t =
    Running (t\<lparr>sp := trapsp t + 16, pc := handler, trapsp := link, env := e, extra_args := x\<rparr>)"
  using assms
  by (simp add: raise_exception_def plain_raise_def trap_frame_at_def Let_def Trap_pc_def Trap_link_def
      reg_defs Long_val_Val_long not_le flip: not_less)

text \<open>
  C28.  Raising in any state whose innermost trap frame is the one that \<^verbatim>\<open>PUSHTRAP\<close> made
  continues at the handler with the stack pointer, the environment, the extra arguments
  and the enclosing trap frame of the state before \<^verbatim>\<open>PUSHTRAP\<close>.
\<close>

theorem pushtrap_then_raise:
  assumes "in_long (sint (extra_args s))" and "trapsp t = trapsp (ins_PUSHTRAP s)"
    and "\<forall>i \<in> {0, 1, 2, 3}. stk t (sp s - 16 + 4 * i) = stk (ins_PUSHTRAP s) (sp s - 16 + 4 * i)"
    and "plain_raise t"
  shows "raise_exception fns t = Running (t\<lparr>sp := sp s, pc := pc s + 4 * opnd s 0,
    trapsp := trapsp s, env := env s, extra_args := extra_args s\<rparr>)"
proof -
  note p = PUSHTRAP_frame [OF assms(1)]
  have "trap_frame_at (stk t) (trapsp t) (pc s + 4 * opnd s 0) (trapsp s) (env s) (extra_args s)"
    using p(1) assms(3) unfolding assms(2) p(3) by (simp add: trap_frame_at_def)
  from raise_exception_frame [OF assms(4) this, of fns] show ?thesis
    using assms(2) p(3) by simp
qed

text \<open>A state with an empty stack below the address 4096.\<close>

definition trap_example :: machine where
  "trap_example = boot_machine\<lparr>sp := 4096, stack_high := 4096, trapsp := 4096, trap_barrier := 4100\<rparr>"

theorem pushtrap_then_raise_witness:
  "raise_exception quiet_fns (ins_PUSHTRAP trap_example) =
   Running (ins_PUSHTRAP trap_example\<lparr>sp := 4096, pc := 0, trapsp := 4096, env := 0, extra_args := 0\<rparr>)"
  using pushtrap_then_raise [of trap_example "ins_PUSHTRAP trap_example" quiet_fns]
  by (simp add: trap_example_def in_long_def)
    (simp add: plain_raise_def ins_PUSHTRAP_def Let_def reg_defs)

lemma raise_zero_divide_room:
  assumes "young_room s 1" and "external_raise s \<noteq> 0"
  shows "\<exists>t. raise_zero_divide fns s = Raises t \<and>
    block_at (mem t) (exn_bucket t) 0 [Field (mem s) (global_data s) 5] \<and>
    exn_bucket t = fresh_block s 1 \<and> stk t = stk s \<and> trapsp t = trapsp s \<and> extern_sp t = extern_sp s \<and>
    trap_barrier t = trap_barrier s \<and> backtrace_active t = backtrace_active s \<and>
    stack_high t = stack_high s \<and> initial_sp_offset t = initial_sp_offset s"
proof -
  have "young_limit s \<le> young_ptr s - Bhsize_wosize 1" using assms(1) by (simp add: young_room_def)
  then show ?thesis
    using assms(2)
    by (auto simp: raise_zero_divide_def raise_constant_def alloc_small_def Let_def mlraise_def
        Alloc_small_room block_at_def Hd_val_def Field_def set_Field_def fresh_block_def)
qed

lemma catch_longjmp_frame:
  assumes "plain_raise t" and "trap_frame_at (stk t) (trapsp t) handler link e x"
  shows "\<exists>u. catch_longjmp fns t = Running u \<and> mem u = mem t \<and> accu u = exn_bucket t \<and>
    pc u = handler \<and> sp u = trapsp t + 16 \<and> trapsp u = link \<and> env u = e \<and> extra_args u = x"
proof -
  let ?t = "t\<lparr>local_roots := drop (length (local_roots t) - initial_local_roots t) (local_roots t),
    sp := extern_sp t, accu := exn_bucket t, pc := 0\<rparr>"
  have "plain_raise ?t" "trap_frame_at (stk ?t) (trapsp ?t) handler link e x"
    using assms by (simp_all add: plain_raise_def)
  from raise_exception_frame [OF this, of fns] show ?thesis by (simp add: catch_longjmp_def)
qed

text \<open>
  C29.  Dividing by zero does not stop the interpreter: it allocates the bucket of the exception
  \<^verbatim>\<open>Division_by_zero\<close> and continues at the handler of the innermost trap frame, with the bucket in the
  accumulator.
\<close>

theorem division_by_zero_raises:
  assumes "opnd s 0 = DIVINT \<or> opnd s 0 = MODINT" and "stkn s 0 = rep_int 0"
    and "young_room s 1" and "external_raise s \<noteq> 0" and "plain_raise s"
    and "trap_frame_at ((stk s)(sp s := env s)) (trapsp s) handler link e x"
  shows "\<exists>t. step fns s = Running t \<and>
    block_at (mem t) (accu t) 0 [Field (mem s) (global_data s) 5] \<and>
    pc t = handler \<and> sp t = trapsp s + 16 \<and> trapsp t = link \<and> env t = e \<and> extra_args t = x"
proof -
  define s2 where "s2 = Setup_for_c_call (pop 1 (skip 1 s))"
  have s2: "young_room s2 1" "external_raise s2 \<noteq> 0" "mem s2 = mem s" "global_data s2 = global_data s"
    "plain_raise s2" "trap_frame_at (stk s2) (trapsp s2) handler link e x" "trapsp s2 = trapsp s"
    using assms(3-6) by (simp_all add: s2_def Setup_for_c_call_def Let_def reg_defs young_room_def plain_raise_def)
  obtain t where t: "raise_zero_divide fns s2 = (Raises t :: unit result)"
    "block_at (mem t) (exn_bucket t) 0 [Field (mem s) (global_data s) 5]"
    "stk t = stk s2" "trapsp t = trapsp s2" "trap_barrier t = trap_barrier s2"
    "backtrace_active t = backtrace_active s2" "stack_high t = stack_high s2"
    using raise_zero_divide_room [OF s2(1,2), of fns] s2(3,4) by auto
  have "plain_raise (keep_locals s2 t)"
    "trap_frame_at (stk (keep_locals s2 t)) (trapsp (keep_locals s2 t)) handler link e x"
    using s2(5,6) t by (simp_all add: plain_raise_def keep_locals_def)
  from catch_longjmp_frame [OF this, of fns] obtain u where
    u: "catch_longjmp fns (keep_locals s2 t) = Running u" "mem u = mem t" "accu u = exn_bucket t"
      "pc u = handler \<and> sp u = trapsp s + 16 \<and> trapsp u = link \<and> env u = e \<and> extra_args u = x"
    using t(4) s2(7) by (auto simp: keep_locals_def)
  have zero: "Long_val (rep_int 0) = 0" by (simp add: Long_val_rep_int wrap31_def)
  have "step fns s = after_call fns s2 (raise_zero_divide fns s2) (\<lambda>v :: unit. Running)"
    using assms(1)
    by (elim disjE)
      (simp_all add: step_opcode exec_defs ins_DIVINT_def ins_MODINT_def Let_def s2_def assms(2) zero)
  then have "step fns s = Running u" by (simp add: after_call_def t(1) u(1))
  with t(2) u show ?thesis by auto
qed

theorem division_by_zero_raises_witness:
  "\<exists>t. step quiet_fns (boot_machine\<lparr>code := (\<lambda>_. DIVINT), stk := (\<lambda>_. 1), young_ptr := 4096,
       external_raise := 16, sp := 1024, stack_high := 4096, trapsp := 2048, trap_barrier := 4100\<rparr>) = Running t \<and>
     block_at (mem t) (accu t) 0 [0] \<and> pc t = 1 \<and> sp t = 2064"
proof -
  let ?s = "boot_machine\<lparr>code := (\<lambda>_. DIVINT), stk := (\<lambda>_. 1), young_ptr := 4096,
    external_raise := 16, sp := 1024, stack_high := 4096, trapsp := 2048, trap_barrier := 4100\<rparr>"
  have "rep_int 0 = 1" by (simp add: rep_int_ring)
  then show ?thesis
    using division_by_zero_raises [of ?s 1 1 1 0 quiet_fns]
    by (auto simp: opnd_def stkn_def young_room_def plain_raise_def trap_frame_at_def Val_long_def
        in_long_def Field_def)
qed

end
