(* ===== verification/Interp_Closures.thy ===== *)
theory Interp_Closures
  imports Interp_Frames
begin

text \<open>
  Blocks and closures built by the interpreter: \<^verbatim>\<open>MAKEBLOCK\<close>, mutually recursive closures with
  their inner headers (\<^verbatim>\<open>CLOSUREREC\<close>), and the instructions that push the accumulator
  before they do the work of another one.
\<close>

subsection \<open>Fused instructions\<close>

definition fused :: "(uint32 \<times> uint32) list" where
  "fused =
    [(PUSHACC0, ACC0), (PUSHACC1, ACC1), (PUSHACC2, ACC2), (PUSHACC3, ACC3), (PUSHACC4, ACC4),
     (PUSHACC5, ACC5), (PUSHACC6, ACC6), (PUSHACC7, ACC7), (PUSHACC, ACC),
     (PUSHENVACC1, ENVACC1), (PUSHENVACC2, ENVACC2), (PUSHENVACC3, ENVACC3), (PUSHENVACC4, ENVACC4),
     (PUSHENVACC, ENVACC), (PUSHOFFSETCLOSURE, OFFSETCLOSURE), (PUSHOFFSETCLOSUREM2, OFFSETCLOSUREM2),
     (PUSHOFFSETCLOSURE0, OFFSETCLOSURE0), (PUSHOFFSETCLOSURE2, OFFSETCLOSURE2),
     (PUSHGETGLOBAL, GETGLOBAL), (PUSHGETGLOBALFIELD, GETGLOBALFIELD), (PUSHATOM0, ATOM0),
     (PUSHATOM, ATOM), (PUSHCONST0, CONST0), (PUSHCONST1, CONST1), (PUSHCONST2, CONST2),
     (PUSHCONST3, CONST3), (PUSHCONSTINT, CONSTINT)]"

lemma PUSHACC0_eq: "ins_ACC 0 (ins_PUSH s) = ins_PUSH s"
  by (simp add: ins_ACC_def ins_PUSH_def reg_defs)

text \<open>
  Each instruction that pushes the accumulator and then does the work of another one behaves
  as \<^verbatim>\<open>PUSH\<close> followed by that instruction.
\<close>

theorem push_fused:
  assumes "(op, op') \<in> set fused"
  shows "exec_instr fns op s = exec_instr fns op' (ins_PUSH s)"
  using assms unfolding fused_def list.set
  by (elim insertE emptyE) (simp_all add: exec_defs PUSHACC0_eq)

theorem push_fused_witness:
  "exec_instr quiet_fns PUSHCONST1 boot_machine = exec_instr quiet_fns CONST1 (ins_PUSH boot_machine)"
  using push_fused [of PUSHCONST1 CONST1 quiet_fns boot_machine] by (simp add: fused_def)

subsection \<open>Blocks\<close>

text \<open>
  \<^verbatim>\<open>MAKEBLOCK\<close> builds, when the minor heap has room, a block with the given tag whose
  fields are the accumulator and the words popped from the stack, in order.
\<close>

theorem makeblock_builds:
  assumes "opnd s 0 = word_of_nat (Suc n)" and "opnd s 1 < 256" and "Suc n < 2 ^ 22"
    and "young_room s (word_of_nat (Suc n))"
  shows "block_at (mem (ins_MAKEBLOCK fns s)) (accu (ins_MAKEBLOCK fns s)) (opnd s 1)
      (accu s # stack_args s n) \<and>
    sp (ins_MAKEBLOCK fns s) = sp s + 4 * word_of_nat n \<and> pc (ins_MAKEBLOCK fns s) = pc s + 8 \<and>
    stk (ins_MAKEBLOCK fns s) = stk s"
proof -
  let ?w = "word_of_nat (Suc n) :: uint32"
  let ?s = "skip 2 s"
  let ?b = "fresh_block s ?w"
  let ?m = "((mem s)(?b - 4 := Make_header ?w (opnd s 1) Caml_black))(?b := accu s)"
  let ?v = "\<lambda>j. stk s (sp s + 4 * word_of_nat j - 4)"
  have room: "young_room ?s ?w" "fresh_block ?s ?w = ?b"
    using assms(4) by (simp_all add: young_room_def fresh_block_def skip_def)
  have un: "unat ?w - 1 = n" using assms(3) unat_word_of_nat_small [of "Suc n"] by simp
  have eq: "ins_MAKEBLOCK fns s = s\<lparr>pc := pc s + 8, young_ptr := ?b - 4, mem := write_words ?b ?v 1 n ?m,
      sp := sp s + 4 * word_of_nat n, accu := ?b\<rparr>"
    unfolding ins_MAKEBLOCK_def Let_def assms(1) un Alloc_small_i_room [OF room(1)] room(2) prod.case
      pop_fields_eq
    by (simp add: set_Field_def skip_def set_accu_def del: fun_upd_apply)
  have hdr: "write_words ?b ?v 1 n ?m (?b - 4) = Make_header ?w (opnd s 1) Caml_black"
  proof (subst write_words_outside)
    fix k assume k: "k < 1 + n"
    have "?b - 4 = ?b + 4 * word_of_nat k \<longleftrightarrow> 4 * word_of_nat (k + 1) = (4 * word_of_nat 0 :: uint32)"
      by (auto simp: algebra_simps)
    also have "\<dots> \<longleftrightarrow> k + 1 = 0" using assms(3) k by (intro four_inj) auto
    finally show "?b - 4 \<noteq> ?b + 4 * word_of_nat k" by simp
  qed simp
  have f0: "write_words ?b ?v 1 n ?m ?b = accu s"
  proof (subst write_words_outside)
    fix k assume "1 \<le> k" "k < 1 + n"
    then show "?b \<noteq> ?b + 4 * word_of_nat k" using assms(3) four_inj [of k 0] by simp
  qed simp
  have fi: "write_words ?b ?v 1 n ?m (?b + 4 * word_of_nat (Suc i)) = stkn s (word_of_nat i)" if "i < n" for i
    using write_words_inside [of 1 n "Suc i" ?b ?v ?m] that assms(3) by (simp add: stkn_def algebra_simps)
  show ?thesis
    unfolding block_at_def
  proof (intro conjI allI impI)
    fix i assume "i < length (accu s # stack_args s n)"
    then show "Field (mem (ins_MAKEBLOCK fns s)) (accu (ins_MAKEBLOCK fns s)) (word_of_nat i) =
        (accu s # stack_args s n) ! i"
      using f0 fi by (cases i) (auto simp: eq Field_def nth_stack_args)
  qed (use hdr in \<open>simp_all add: eq Hd_val_def\<close>)
qed

theorem makeblock_builds_witness:
  "block_at (mem (ins_MAKEBLOCK quiet_fns (boot_machine\<lparr>code := (\<lambda>_. 2), young_ptr := 4096\<rparr>)))
     (accu (ins_MAKEBLOCK quiet_fns (boot_machine\<lparr>code := (\<lambda>_. 2), young_ptr := 4096\<rparr>))) 2 [0, 0]"
  using makeblock_builds [of "boot_machine\<lparr>code := (\<lambda>_. 2), young_ptr := 4096\<rparr>" 1 quiet_fns]
  by (simp add: opnd_def young_room_def stack_args_def stkn_def)

subsection \<open>Recursive closures\<close>

lemma write_words_shift:
  "write_words (a + 4 * word_of_nat c) (\<lambda>j. f (j + c)) i n m = write_words a f (i + c) n m"
  by (induction n arbitrary: i m) (simp_all add: algebra_simps)

lemma push_simps [simp]:
  "sp (push v s) = sp s - 4" "mem (push v s) = mem s" "pc (push v s) = pc s"
  "code (push v s) = code s" "accu (push v s) = accu s" "env (push v s) = env s"
  "opnd (push v s) = opnd s"
  by (auto simp: push_def opnd_def fun_eq_iff)

lemma stack_args_push:
  assumes "n + 1 < 2 ^ 30"
  shows "stack_args (push v s) (Suc n) = v # stack_args s n"
proof (rule nth_equalityI)
  fix i assume "i < length (stack_args (push v s) (Suc n))"
  then show "stack_args (push v s) (Suc n) ! i = (v # stack_args s n) ! i"
    using assms four_inj [of i 0]
    by (cases i) (auto simp: nth_stack_args push_def stkn_def algebra_simps)
qed simp

lemma fold_push_args:
  "length vs < 2 ^ 30 \<Longrightarrow> stack_args (fold push vs s) (length vs) = rev vs"
proof (induction vs rule: rev_induct)
  case (snoc v vs)
  then show ?case by (simp add: stack_args_push)
qed (simp add: stack_args_def)

lemma fold_push_simps [simp]:
  "sp (fold push vs s) = sp s - 4 * word_of_nat (length vs)" "mem (fold push vs s) = mem s"
  "pc (fold push vs s) = pc s" "accu (fold push vs s) = accu s" "env (fold push vs s) = env s"
  by (induction vs arbitrary: s) (simp_all add: algebra_simps)

text \<open>The words of the inner part of a recursive closure, from the function \<open>i\<close> on.\<close>

definition infix_word :: "machine \<Rightarrow> nat \<Rightarrow> nat \<Rightarrow> uint32" where
  "infix_word s i j =
     (if even j then Make_header (word_of_nat (i + j div 2) * 2) Infix_tag Caml_white
      else pc s + 4 * opnd s (word_of_nat (i + j div 2)))"

lemma push_mem_commute: "push v (s\<lparr>mem := m\<rparr>) = (push v s)\<lparr>mem := m\<rparr>"
  by (simp add: push_def)

lemma fold_push_mem: "fold push vs (s\<lparr>mem := m\<rparr>) = (fold push vs s)\<lparr>mem := m\<rparr>"
  by (induction vs arbitrary: s) (simp_all add: push_mem_commute)

lemma infix_closures_eq:
  "infix_closures i n p s =
     (fold push (map (\<lambda>k. p + 8 * word_of_nat k + 4) [0..<n]) s)
       \<lparr>mem := write_words p (infix_word s i) 0 (2 * n) (mem s)\<rparr>"
proof (induction n arbitrary: i p s)
  case (Suc n)
  let ?m = "(mem s)(p := infix_word s i 0, p + 4 := infix_word s i 1)"
  have "infix_closures i (Suc n) p s = infix_closures (Suc i) n (p + 8) (push (p + 4) (s\<lparr>mem := ?m\<rparr>))"
    by (simp add: Let_def infix_word_def opnd_def add.commute)
  also have "\<dots> = (fold push (map (\<lambda>k. p + 8 + 8 * word_of_nat k + 4) [0..<n]) (push (p + 4) s))
      \<lparr>mem := write_words (p + 8) (infix_word s (Suc i)) 0 (2 * n) ?m\<rparr>"
  proof -
    have "infix_word (push (p + 4) (s\<lparr>mem := ?m\<rparr>)) (Suc i) = infix_word s (Suc i)"
      by (simp add: infix_word_def fun_eq_iff opnd_def)
    then show ?thesis unfolding Suc by (simp add: push_mem_commute fold_push_mem)
  qed
  also have "write_words (p + 8) (infix_word s (Suc i)) 0 (2 * n) ?m =
      write_words p (infix_word s i) 0 (2 * Suc n) (mem s)"
  proof -
    have "infix_word s (Suc i) = (\<lambda>j. infix_word s i (j + 2))"
      by (auto simp: infix_word_def fun_eq_iff)
    then show ?thesis
      using write_words_shift [of p 2 "infix_word s i" 0 "2 * n" ?m]
      by (simp add: numeral_2_eq_2 del: fun_upd_apply)
  qed
  also have "fold push (map (\<lambda>k. p + 8 + 8 * word_of_nat k + 4) [0..<n]) (push (p + 4) s) =
      fold push (map (\<lambda>k. p + 8 * word_of_nat k + 4) [0..<Suc n]) s"
    by (simp add: upt_conv_Cons map_Suc_upt [symmetric] o_def algebra_simps del: upt_Suc)
  finally show ?case .
qed simp

lemma write_words_at:
  assumes "i + n < 2 ^ 30" and "k < 2 ^ 30"
  shows "write_words a f i n m (a + 4 * word_of_nat k) =
    (if i \<le> k \<and> k < i + n then f k else m (a + 4 * word_of_nat k))"
proof (cases "i \<le> k \<and> k < i + n")
  case False
  have "write_words a f i n m (a + 4 * word_of_nat k) = m (a + 4 * word_of_nat k)"
  proof (rule write_words_outside)
    fix l assume "i \<le> l" "l < i + n"
    then show "a + 4 * word_of_nat k \<noteq> a + 4 * word_of_nat l"
      using assms False four_inj [of k l] by auto
  qed
  with False show ?thesis by auto
qed (use assms write_words_inside in auto)

text \<open>The memory and the stack that \<^verbatim>\<open>CLOSUREREC\<close> leaves for \<open>f\<close> functions and \<open>v\<close> variables.\<close>

definition closure_vars :: "machine \<Rightarrow> nat \<Rightarrow> machine" where
  "closure_vars s v = (if 0 < v then push (accu s) s else s)"

definition rec_mem :: "machine \<Rightarrow> nat \<Rightarrow> nat \<Rightarrow> val \<Rightarrow> mem" where
  "rec_mem s f v b =
     (let m1 = (mem s)(b - 4 := Make_header (word_of_nat (2 * f - 1 + v)) Closure_tag Caml_black);
          m2 = write_words b (\<lambda>j. stkn (closure_vars s v) (word_of_nat (j - (2 * f - 1)))) (2 * f - 1) v m1;
          m3 = m2(b := pc s + 8 + 4 * opnd s 2)
      in write_words b (\<lambda>j. infix_word (skip 2 s) 1 (j - 1)) 1 (2 * (f - 1)) m3)"

lemma ins_CLOSUREREC_eq:
  assumes op: "opnd s 0 = word_of_nat f" "opnd s 1 = word_of_nat v"
    and f: "1 \<le> f" and small: "2 * f - 1 + v < 2 ^ 22"
    and room: "young_room s (word_of_nat (2 * f - 1 + v))"
    and b: "b = fresh_block s (word_of_nat (2 * f - 1 + v))"
  shows "\<exists>u. ins_CLOSUREREC fns s =
      skip (word_of_nat f) ((fold push (map (\<lambda>i. b + 8 * word_of_nat i) [0..<f]) u)\<lparr>mem := rec_mem s f v b\<rparr>) \<and>
    sp u = sp (closure_vars s v) + 4 * word_of_nat v \<and> accu u = b \<and> pc u = pc s + 8 \<and> env u = env s"
proof -
  let ?s2 = "closure_vars (skip 2 s) v"
  let ?g = "\<lambda>j. stkn (closure_vars s v) (word_of_nat j)"
  let ?m1 = "(mem s)(b - 4 := Make_header (word_of_nat (2 * f - 1 + v)) Closure_tag Caml_black)"
  let ?m2 = "write_words b (\<lambda>j. ?g (j - (2 * f - 1))) (2 * f - 1) v ?m1"
  let ?m3 = "?m2(b := pc s + 8 + 4 * opnd s 2)"
  let ?u = "?s2\<lparr>young_ptr := b - 4, accu := b, sp := sp ?s2 + 4 * word_of_nat v, mem := ?m3\<rparr>"
  have w: "word_of_nat f * 2 - 1 + word_of_nat v = (word_of_nat (2 * f - 1 + v) :: uint32)"
    "word_of_nat f * 2 - 1 = (word_of_nat (2 * f - 1) :: uint32)"
    using f by (simp_all add: of_nat_diff algebra_simps)
  have vf: "v < 2 ^ 31" "f < 2 ^ 31" using small by simp_all
  have pos: "slt 0 (word_of_nat v) \<longleftrightarrow> 0 < v" and nv: "nat (sint (word_of_nat v :: uint32)) = v"
    and nf: "nat (sint (word_of_nat f :: uint32) - 1) = f - 1"
    using vf by (simp_all add: slt_def signed_of_nat signed_take_bit_int_eq_self)
  have s2: "(if slt 0 (word_of_nat v) then push (accu (skip 2 s)) (skip 2 s) else skip 2 s) = ?s2"
    by (simp add: pos closure_vars_def)
  have room2: "young_room ?s2 (word_of_nat (2 * f - 1 + v))"
    "fresh_block ?s2 (word_of_nat (2 * f - 1 + v)) = b"
    using room by (auto simp: b young_room_def fresh_block_def closure_vars_def push_def skip_def)
  have keep: "mem ?s2 = mem s" "pc ?s2 = pc s + 8" "env ?s2 = env s" "sp ?s2 = sp (closure_vars s v)"
    "opnd ?s2 0 = opnd s 2" "stk ?s2 = stk (closure_vars s v)"
    by (simp_all add: closure_vars_def skip_def push_def opnd_def stkn_def fun_eq_iff)
  have m2: "write_words (b + 4 * word_of_nat (2 * f - 1)) ?g 0 v ?m1 = ?m2"
    using write_words_shift [of b "2 * f - 1" "\<lambda>j. ?g (j - (2 * f - 1))" 0 v ?m1] by simp
  have "ins_CLOSUREREC fns s = skip (word_of_nat f) (infix_closures 1 (f - 1) (b + 4) (push b ?u))"
    unfolding ins_CLOSUREREC_def Let_def op w(1)
    unfolding w(2) s2 Alloc_small_i_room [OF room2(1)] room2(2) prod.case nv nf store_fields_eq
      m2 [symmetric]
    using keep
    by (simp add: set_accu_def pop_def set_Field_def stkn_def opnd_def del: fun_upd_apply)
  also have "infix_closures 1 (f - 1) (b + 4) (push b ?u) =
      (fold push (map (\<lambda>i. b + 8 * word_of_nat i) [0..<f]) ?u)\<lparr>mem := rec_mem s f v b\<rparr>"
  proof -
    obtain g where g: "f = Suc g" using f by (cases f) auto
    have iw: "infix_word (push b ?u) 1 = infix_word (skip 2 s) 1"
      by (simp add: infix_word_def fun_eq_iff opnd_def closure_vars_def skip_def push_def)
    have sh: "write_words (b + 4) (infix_word (skip 2 s) 1) 0 (2 * g) ?m3 = rec_mem s f v b"
      using write_words_shift [of b 1 "\<lambda>j. infix_word (skip 2 s) 1 (j - 1)" 0 "2 * g" ?m3]
      by (simp add: rec_mem_def g Let_def del: fun_upd_apply)
    have "fold push (map (\<lambda>k. b + 4 + 8 * word_of_nat k + 4) [0..<g]) (push b ?u) =
        fold push (map (\<lambda>i. b + 8 * word_of_nat i) [0..<f]) ?u"
      by (simp add: g upt_conv_Cons map_Suc_upt [symmetric] o_def algebra_simps del: upt_Suc)
    with sh show ?thesis unfolding infix_closures_eq iw by (simp add: g del: upt_Suc)
  qed
  finally show ?thesis using keep by (intro exI [of _ ?u]) simp
qed


text \<open>
  C4.  \<^verbatim>\<open>CLOSUREREC\<close> builds one block for \<open>f\<close> mutually recursive functions: the pointers to the
  functions are pushed in order, each leads to the code of its function, each but the first is preceded by
  a header with \<^verbatim>\<open>Infix_tag\<close> whose offset leads back to the start of the block, and the free
  variables follow the functions.
\<close>

theorem closurerec_builds:
  assumes "opnd s 0 = word_of_nat f" and "opnd s 1 = word_of_nat v" and "1 \<le> f"
    and "2 * f - 1 + v < 2 ^ 22" and "young_room s (word_of_nat (2 * f - 1 + v))"
    and "t = ins_CLOSUREREC fns s"
  shows "stack_args t f = rev (map (\<lambda>i. accu t + 8 * word_of_nat i) [0..<f]) \<and>
    (\<forall>i<f. Code_val (mem t) (accu t + 8 * word_of_nat i) = pc s + 8 + 4 * opnd s (word_of_nat (i + 2))) \<and>
    (\<forall>i<f. 0 < i \<longrightarrow> Tag_val (mem t) (accu t + 8 * word_of_nat i) = Infix_tag \<and>
       Infix_offset_hd (Hd_val (mem t) (accu t + 8 * word_of_nat i)) = 8 * word_of_nat i) \<and>
    (\<forall>j<v. Field (mem t) (accu t) (word_of_nat (2 * f - 1 + j)) = (accu s # stack_args s (v - 1)) ! j) \<and>
    pc t = pc s + 8 + 4 * word_of_nat f \<and> env t = env s"
proof -
  define b where "b = fresh_block s (word_of_nat (2 * f - 1 + v))"
  from ins_CLOSUREREC_eq [OF assms(1-5) b_def, of fns] obtain u where
    t: "t = skip (word_of_nat f) ((fold push (map (\<lambda>i. b + 8 * word_of_nat i) [0..<f]) u)\<lparr>mem := rec_mem s f v b\<rparr>)"
    and u: "accu u = b" "pc u = pc s + 8" "env u = env s"
    using assms(6) by auto
  have acc: "accu t = b" and mt: "mem t = rec_mem s f v b" using u by (simp_all add: t)
  have rd: "rec_mem s f v b (b + 4 * word_of_nat k) =
      (if k = 0 then pc s + 8 + 4 * opnd s 2
       else if k < 2 * f - 1 then infix_word (skip 2 s) 1 (k - 1)
       else stkn (closure_vars s v) (word_of_nat (k - (2 * f - 1))))" if "k < 2 * f - 1 + v" for k
  proof -
    have "2 * f - 1 + v < 2 ^ 30" "k < 2 ^ 30" using assms(4) that by simp_all
    then show ?thesis
      using assms(3) that four_inj [of k 0] unfolding rec_mem_def Let_def
      by (auto simp: write_words_at)
  qed
  have args: "stack_args t f = rev (map (\<lambda>i. b + 8 * word_of_nat i) [0..<f])"
  proof -
    have "stack_args t f = stack_args (fold push (map (\<lambda>i. b + 8 * word_of_nat i) [0..<f]) u) f"
      by (simp add: t stack_args_def stkn_def)
    then show ?thesis
      using fold_push_args [of "map (\<lambda>i. b + 8 * word_of_nat i) [0..<f]" u] assms(4) by simp
  qed
  have code: "Code_val (mem t) (b + 8 * word_of_nat i) = pc s + 8 + 4 * opnd s (word_of_nat (i + 2))"
    if "i < f" for i
    using rd [of "2 * i"] that
    by (cases i) (auto simp: mt Code_val_def infix_word_def opnd_def algebra_simps)
  have hdr: "Hd_val (mem t) (b + 8 * word_of_nat i) = Make_header (word_of_nat (2 * i)) Infix_tag Caml_white"
    if "i < f" "0 < i" for i
    using rd [of "2 * i - 1"] that
    by (cases i) (auto simp: mt Hd_val_def infix_word_def algebra_simps)
  have vars: "Field (mem t) b (word_of_nat (2 * f - 1 + j)) = (accu s # stack_args s (v - 1)) ! j"
    if "j < v" for j
  proof -
    have "Field (mem t) b (word_of_nat (2 * f - 1 + j)) = stack_args (push (accu s) s) (Suc (v - 1)) ! j"
      using rd [of "2 * f - 1 + j"] that assms(3)
      by (auto simp: mt Field_def nth_stack_args closure_vars_def simp del: of_nat_add)
    then show ?thesis using assms(4) stack_args_push [of "v - 1" "accu s" s] by simp
  qed
  have ok: "header_ok (word_of_nat (2 * i)) Infix_tag Caml_white" if "i < f" for i
    using that assms(4) unat_word_of_nat_small [of "2 * i"]
    by (simp add: header_ok_def Max_wosize_def word_le_nat_alt Infix_tag_def del: of_nat_mult)
  have inner: "Tag_val (mem t) (b + 8 * word_of_nat i) = Infix_tag"
    "Infix_offset_hd (Hd_val (mem t) (b + 8 * word_of_nat i)) = 8 * word_of_nat i" if "i < f" "0 < i" for i
    using Make_header_fields [OF ok [OF that(1)]] hdr [OF that]
    by (simp_all add: Tag_val_def size_defs)
  show ?thesis
    using args code inner vars u by (simp add: acc) (simp add: t)
qed

theorem closurerec_builds_witness:
  "Tag_val (mem (ins_CLOSUREREC quiet_fns (boot_machine\<lparr>code := (\<lambda>_. 2), young_ptr := 4096\<rparr>)))
     (accu (ins_CLOSUREREC quiet_fns (boot_machine\<lparr>code := (\<lambda>_. 2), young_ptr := 4096\<rparr>)) + 8) = Infix_tag"
  using closurerec_builds [of "boot_machine\<lparr>code := (\<lambda>_. 2), young_ptr := 4096\<rparr>" 2 2
      "ins_CLOSUREREC quiet_fns (boot_machine\<lparr>code := (\<lambda>_. 2), young_ptr := 4096\<rparr>)" quiet_fns]
  by (auto simp: opnd_def young_room_def dest: spec [of _ 1])

end
