(* ===== verification/Alloc.thy ===== *)
theory Alloc
  imports Stacks
begin

text \<open>
  Allocation in the major heap and the allocation functions of the C interface: growing and
  shrinking the heap and \<open>alloc_shr\<close> (\<^verbatim>\<open>byterun/memory.c\<close>, with the chunk sizes of \<^verbatim>\<open>major_gc.c\<close> and \<open>aligned_malloc\<close> of
  \<^verbatim>\<open>misc.c\<close>), \<^verbatim>\<open>byterun/alloc.c\<close>, the custom blocks of \<^verbatim>\<open>byterun/custom.c\<close> and the exceptions of
  \<^verbatim>\<open>fail.c\<close> that carry a string.  A loop over the pointers of the heap is a partial function; a call
  whose loop does not end is \<open>Loops\<close>.
\<close>

subsection \<open>Calls\<close>

definition andThen :: "'a result \<Rightarrow> ('a \<Rightarrow> machine \<Rightarrow> 'b result) \<Rightarrow> 'b result" where
  "andThen r k =
     (case r of Returns x s \<Rightarrow> k x s | Raises s \<Rightarrow> Raises s | Dies msg s \<Rightarrow> Dies msg s | Loops \<Rightarrow> Loops)"

lemma andThen_simps [simp]:
  "andThen (Returns x s) k = k x s" "andThen (Raises s) k = Raises s" "andThen (Dies msg s) k = Dies msg s"
  "andThen Loops k = Loops"
  by (simp_all add: andThen_def)

text \<open>\<open>CAMLparam\<close> and \<open>CAMLlocal\<close> push roots, \<open>CAMLreturn\<close> pops them.\<close>

definition push_roots :: "val list \<Rightarrow> machine \<Rightarrow> machine" where
  "push_roots vs s = s\<lparr>local_roots := vs @ local_roots s\<rparr>"

definition pop_roots :: "nat \<Rightarrow> machine \<Rightarrow> machine" where
  "pop_roots n s = s\<lparr>local_roots := drop n (local_roots s)\<rparr>"

definition root :: "machine \<Rightarrow> nat \<Rightarrow> val" where
  "root s i = local_roots s ! i"

definition set_root :: "nat \<Rightarrow> val \<Rightarrow> machine \<Rightarrow> machine" where
  "set_root i v s = s\<lparr>local_roots := (local_roots s)[i := v]\<rparr>"

text \<open>A minor collection called from a C function.\<close>

definition c_minor_collection :: "fns \<Rightarrow> machine \<Rightarrow> machine" where
  "c_minor_collection fns s = keep_locals s (minor_collection fns s)"

definition check_urgent_gc :: "fns \<Rightarrow> val \<Rightarrow> machine \<Rightarrow> val \<times> machine" where
  "check_urgent_gc fns extra_root s =
     (let s1 = push_roots [extra_root] s;
          s2 = (if force_major_slice s1 then c_minor_collection fns s1 else s1)
      in (root s2 0, pop_roots 1 s2))"

subsection \<open>Heap chunks\<close>

definition Page_size :: uint32 where "Page_size = push_bit 12 1"
definition Max_young_wosize :: uint32 where "Max_young_wosize = 256"
definition Heap_chunk_min :: uint32 where "Heap_chunk_min = 2 * Page_size div 4"
definition Heap_chunk_max :: uint32 where "Heap_chunk_max = Bhsize_wosize Max_wosize"

definition clip_heap_chunk_size :: "uint32 \<Rightarrow> uint32" where
  "clip_heap_chunk_size request =
     (let request = (if request < Heap_chunk_min then Heap_chunk_min else request);
          request = (if Heap_chunk_max < request then Heap_chunk_max else request)
      in push_bit 12 (drop_bit 12 (request + Page_size - 1)))"

definition round_heap_chunk_size :: "uint32 \<Rightarrow> machine \<Rightarrow> uint32 result" where
  "round_heap_chunk_size request s =
     (let result = (if request < major_heap_increment s then major_heap_increment s else request);
          result = clip_heap_chunk_size result
      in if result < request then raise_out_of_memory s else Returns result s)"

text \<open>\<open>aligned_malloc\<close> returns the aligned address and the malloced block.\<close>

definition aligned_malloc :: "fns \<Rightarrow> uint32 \<Rightarrow> uint32 \<Rightarrow> machine \<Rightarrow> (addr \<times> addr) option \<times> machine" where
  "aligned_malloc fns sz offset s =
     (case malloc fns (sz + Page_size) s of
        (None, s) \<Rightarrow> (None, s)
      | (Some raw_mem, s) \<Rightarrow>
          (let block = raw_mem; raw_mem = raw_mem + offset;
               aligned_mem = (raw_mem div Page_size + 1) * Page_size
           in (Some (aligned_mem - offset, block), s)))"

definition alloc_for_heap :: "fns \<Rightarrow> uint32 \<Rightarrow> machine \<Rightarrow> addr option \<times> machine" where
  "alloc_for_heap fns request s =
     (case aligned_malloc fns (request + 16) 16 s of
        (None, s) \<Rightarrow> (None, s)
      | (Some (m, block), s) \<Rightarrow>
          (let m = m + 16
           in (Some m, s\<lparr>mem := (mem s)(m - 8 := request, m - 16 := block)\<rparr>)))"

text \<open>\<open>add_to_heap\<close>: first the page table is extended on either side; \<open>False\<close> is the result -1.\<close>

definition extend_page_low :: "fns \<Rightarrow> addr \<Rightarrow> machine \<Rightarrow> bool \<times> machine" where
  "extend_page_low fns m s =
     (if Page m < page_low s
      then let new_page_low = Page m; new_size = page_high s - new_page_low
           in case malloc fns new_size s of
                (None, s) \<Rightarrow> (False, s)
              | (Some block, s) \<Rightarrow>
                  (True, s\<lparr>page_table := (\<lambda>i. if new_page_low \<le> i \<and> i < page_low s then False else page_table s i),
                           page_low := new_page_low\<rparr>)
      else (True, s))"

definition extend_page_high :: "fns \<Rightarrow> addr \<Rightarrow> machine \<Rightarrow> bool \<times> machine" where
  "extend_page_high fns m s =
     (if page_high s < Page (m + Chunk_size (mem s) m)
      then let new_page_high = Page (m + Chunk_size (mem s) m); new_size = new_page_high - page_low s
           in case malloc fns new_size s of
                (None, s) \<Rightarrow> (False, s)
              | (Some block, s) \<Rightarrow>
                  (True, s\<lparr>page_table := (\<lambda>i. if page_high s \<le> i \<and> i < new_page_high then False else page_table s i),
                           page_high := new_page_high\<rparr>)
      else (True, s))"

text \<open>The search for the place of a chunk in the list: \<open>None\<close> for the variable \<open>heap_start\<close>, \<open>Some c\<close> for the link of \<open>c\<close>.\<close>

partial_function (option) chunk_place :: "mem \<Rightarrow> addr \<Rightarrow> addr option \<Rightarrow> addr \<Rightarrow> (addr option \<times> addr) option" where
  "chunk_place mm m lst cur =
     (if cur \<noteq> 0 \<and> cur < m then chunk_place mm m (Some cur) (Chunk_next mm cur) else Some (lst, cur))"

definition link_chunk :: "addr option \<Rightarrow> addr \<Rightarrow> machine \<Rightarrow> machine" where
  "link_chunk lst c s =
     (case lst of None \<Rightarrow> s\<lparr>heap_start := c\<rparr> | Some l \<Rightarrow> s\<lparr>mem := (mem s)(l - 4 := c)\<rparr>)"

definition add_to_heap :: "fns \<Rightarrow> addr \<Rightarrow> machine \<Rightarrow> bool result" where
  "add_to_heap fns m s =
     (let (ok, s) = extend_page_low fns m s
      in if \<not> ok then Returns False s else
         let (ok, s) = extend_page_high fns m s
         in if \<not> ok then Returns False s else
            let sz = Chunk_size (mem s) m;
                s = s\<lparr>page_table := (\<lambda>i. if Page m \<le> i \<and> i < Page (m + sz) then True else page_table s i)\<rparr>
            in case chunk_place (mem s) m None (heap_start s) of
                 None \<Rightarrow> Loops
               | Some (lst, cur) \<Rightarrow>
                   (let s = link_chunk lst m (s\<lparr>mem := (mem s)(m - 4 := cur)\<rparr>);
                        s = s\<lparr>stat_heap_chunks := stat_heap_chunks s + 1,
                              heap_end := (if heap_end s < m + sz then m + sz else heap_end s),
                              stat_heap_size := stat_heap_size s + unat sz\<rparr>
                    in Returns True (s\<lparr>stat_top_heap_size :=
                         (if stat_top_heap_size s < stat_heap_size s then stat_heap_size s else stat_top_heap_size s)\<rparr>)))"

definition expand_heap :: "fns \<Rightarrow> uint32 \<Rightarrow> machine \<Rightarrow> addr option result" where
  "expand_heap fns request s =
     andThen (round_heap_chunk_size (Bhsize_wosize request) s)
       (\<lambda>malloc_request s.
          case alloc_for_heap fns malloc_request s of
            (None, s) \<Rightarrow> Returns None s
          | (Some m, s) \<Rightarrow>
              andThen (add_to_heap fns m
                  (s\<lparr>mem := (mem s)(m := Make_header (Wosize_bhsize malloc_request) 0 Caml_blue)\<rparr>))
                (\<lambda>ok s. Returns (if ok then Some (Val_hp m) else None) s))"

partial_function (option) chunk_link :: "mem \<Rightarrow> addr \<Rightarrow> addr option \<Rightarrow> addr \<Rightarrow> addr option option" where
  "chunk_link mm ck cp cur =
     (if cur \<noteq> ck then chunk_link mm ck (Some cur) (Chunk_next mm cur) else Some cp)"

definition shrink_heap :: "addr \<Rightarrow> machine \<Rightarrow> unit result" where
  "shrink_heap ck s =
     (if ck = heap_start s then Returns () s
      else let sz = Chunk_size (mem s) ck;
               s = s\<lparr>stat_heap_size := stat_heap_size s - unat sz, stat_heap_chunks := stat_heap_chunks s - 1\<rparr>
           in case chunk_link (mem s) ck None (heap_start s) of
                None \<Rightarrow> Loops
              | Some cp \<Rightarrow>
                  (let s = link_chunk cp (Chunk_next (mem s) ck) s
                   in Returns () (s\<lparr>page_table :=
                        (\<lambda>i. if Page ck \<le> i \<and> i < Page (ck + sz) then False else page_table s i)\<rparr>)))"

subsection \<open>Blocks of the major heap\<close>

text \<open>The last part of \<open>alloc_shr\<close>: the header and the account of the allocated words.\<close>

definition finish_shr :: "addr \<Rightarrow> uint32 \<Rightarrow> uint32 \<Rightarrow> machine \<Rightarrow> val \<times> machine" where
  "finish_shr hp wosize tag s =
     (let s = s\<lparr>mem := (mem s)(hp :=
                (if gc_phase s = Phase_mark \<or> gc_phase s = Phase_sweep \<and> gc_sweep_hp s \<le> hp
                 then Make_header wosize tag Caml_black else Make_header wosize tag Caml_white)),
                allocated_words := allocated_words s + Whsize_wosize wosize\<rparr>
      in (Val_hp hp, if Wsize_bsize (minor_heap_size s) < allocated_words s then urge_major_slice s else s))"

definition alloc_shr :: "fns \<Rightarrow> uint32 \<Rightarrow> uint32 \<Rightarrow> machine \<Rightarrow> val result" where
  "alloc_shr fns wosize tag s =
     (if Max_wosize < wosize then raise_out_of_memory s
      else case fl_allocate wosize s of
        None \<Rightarrow> Loops
      | Some (Some hp, s) \<Rightarrow> (let (v, s) = finish_shr hp wosize tag s in Returns v s)
      | Some (None, s) \<Rightarrow>
          andThen (expand_heap fns wosize s)
            (\<lambda>new_block s.
               case new_block of
                 None \<Rightarrow> if in_minor_collection s then Dies ''Fatal error: out of memory.'' s else raise_out_of_memory s
               | Some bp \<Rightarrow>
                   (case fl_add_block bp s of
                      None \<Rightarrow> Loops
                    | Some s \<Rightarrow>
                        (case fl_allocate wosize s of
                           None \<Rightarrow> Loops
                         | Some (hp, s) \<Rightarrow>
                             (let (v, s) = finish_shr (case hp of None \<Rightarrow> 0 | Some hp \<Rightarrow> hp) wosize tag s
                              in Returns v s)))))"

subsection \<open>The speed of the collector\<close>

text \<open>
  The variable \<^verbatim>\<open>extra_heap_memory\<close> is a \<^verbatim>\<open>double\<close>.  Its value is kept as a rational number, and \<open>rnd\<close>
  rounds the exact result of an operation to the nearest double, ties to even (all values here are
  zero or normal numbers).
\<close>

function nlog2 :: "nat \<Rightarrow> nat" where
  "nlog2 n = (if n < 2 then 0 else Suc (nlog2 (n div 2)))"
  by auto
termination
  by (relation "measure id") auto

declare nlog2.simps [simp del]

definition pow2 :: "int \<Rightarrow> rat" where
  "pow2 e = (if 0 \<le> e then 2 ^ nat e else 1 / 2 ^ nat (- e))"

definition rnd :: "rat \<Rightarrow> rat" where
  "rnd x =
     (if x \<le> 0 then 0
      else let (p, q) = quotient_of x;
               e0 = int (nlog2 (nat p)) - int (nlog2 (nat q));
               e = (if pow2 e0 \<le> x then e0 else e0 - 1);
               ulp = pow2 (e - 52);
               n = \<lfloor>x / ulp\<rfloor>; f = x / ulp - of_int n
           in of_int (if 1 / 2 < f \<or> f = 1 / 2 \<and> odd n then n + 1 else n) * ulp)"

definition adjust_gc_speed :: "uint32 \<Rightarrow> uint32 \<Rightarrow> 'a rt_scheme \<Rightarrow> 'a rt_scheme" where
  "adjust_gc_speed resources most s =
     (let most = (if most = 0 then 1 else most);
          resources = (if most < resources then most else resources);
          s = s\<lparr>extra_heap_memory :=
                 rnd (extra_heap_memory s + rnd (of_nat (unat resources) / of_nat (unat most)))\<rparr>;
          s = (if 1 < extra_heap_memory s then urge_major_slice (s\<lparr>extra_heap_memory := 1\<rparr>) else s)
      in if rnd (rnd (of_nat (unat (Wsize_bsize (minor_heap_size s))) / 2) / of_nat (stat_heap_size s div 4))
            < extra_heap_memory s
         then urge_major_slice s else s)"

subsection \<open>The functions of \<^verbatim>\<open>alloc.c\<close>\<close>

text \<open>\<open>clear_fields v i n\<close> sets the \<open>n\<close> fields from the one with index \<open>i\<close> to 0.\<close>

fun clear_fields :: "val \<Rightarrow> nat \<Rightarrow> nat \<Rightarrow> mem \<Rightarrow> mem" where
  "clear_fields v i 0 m = m"
| "clear_fields v i (Suc n) m = clear_fields v (Suc i) n (set_Field v (word_of_nat i) 0 m)"

definition alloc :: "fns \<Rightarrow> uint32 \<Rightarrow> uint32 \<Rightarrow> machine \<Rightarrow> val result" where
  "alloc fns wosize tag s =
     (if wosize = 0 then Returns (Atom s tag) s
      else if wosize \<le> Max_young_wosize
      then let (v, s) = alloc_small fns wosize tag s
           in Returns v (if tag < No_scan_tag then s\<lparr>mem := clear_fields v 0 (unat wosize) (mem s)\<rparr> else s)
      else andThen (alloc_shr fns wosize tag s)
             (\<lambda>v s. let s = (if tag < No_scan_tag then s\<lparr>mem := clear_fields v 0 (unat wosize) (mem s)\<rparr> else s);
                        (v, s) = check_urgent_gc fns v s
                    in Returns v s))"

definition alloc_tuple :: "fns \<Rightarrow> uint32 \<Rightarrow> machine \<Rightarrow> val result" where
  "alloc_tuple fns n s = alloc fns n 0 s"

text \<open>The last word of a string holds its padding: zero bytes and, in the last byte, their number.\<close>

definition finish_string :: "val \<Rightarrow> uint32 \<Rightarrow> uint32 \<Rightarrow> machine \<Rightarrow> machine" where
  "finish_string v wosize len s =
     (let m = set_Field v (wosize - 1) 0 (mem s); offset_index = Bsize_wsize wosize - 1
      in s\<lparr>mem := set_Byte_u v offset_index (ucast (offset_index - len)) m\<rparr>)"

definition alloc_string :: "fns \<Rightarrow> uint32 \<Rightarrow> machine \<Rightarrow> val result" where
  "alloc_string fns len s =
     (let wosize = (len + 4) div 4
      in andThen
           (if wosize \<le> Max_young_wosize then let (v, s) = alloc_small fns wosize String_tag s in Returns v s
            else andThen (alloc_shr fns wosize String_tag s) (\<lambda>v s. let (v, s) = check_urgent_gc fns v s in Returns v s))
           (\<lambda>v s. Returns v (finish_string v wosize len s)))"

text \<open>\<open>memmove\<close> of the bytes \<open>bs\<close> into the string \<open>v\<close> from the byte \<open>i\<close>.\<close>

fun store_bytes :: "val \<Rightarrow> uint32 \<Rightarrow> uint8 list \<Rightarrow> mem \<Rightarrow> mem" where
  "store_bytes v i [] m = m"
| "store_bytes v i (b # bs) m = store_bytes v (i + 1) bs (set_Byte_u v i b m)"

definition bytes_of :: "string \<Rightarrow> uint8 list" where
  "bytes_of = map of_char"

definition copy_string :: "fns \<Rightarrow> string \<Rightarrow> machine \<Rightarrow> val result" where
  "copy_string fns msg s =
     andThen (alloc_string fns (word_of_nat (length msg)) s)
       (\<lambda>v s. Returns v (s\<lparr>mem := store_bytes v 0 (bytes_of msg) (mem s)\<rparr>))"

text \<open>
  \<open>alloc_array\<close>: \<open>funct\<close> makes the value of an element, here of a C string; the result is a
  root while the elements are made.
\<close>

fun fill_array :: "(string \<Rightarrow> machine \<Rightarrow> val result) \<Rightarrow> nat \<Rightarrow> string list \<Rightarrow> machine \<Rightarrow> unit result" where
  "fill_array funct n [] s = Returns () s"
| "fill_array funct n (x # xs) s =
     andThen (funct x s)
       (\<lambda>v s. let s = set_root 0 v s
              in fill_array funct (Suc n) xs (Modify (root s 1 + 4 * word_of_nat n) v s))"

definition alloc_array :: "fns \<Rightarrow> (string \<Rightarrow> machine \<Rightarrow> val result) \<Rightarrow> string list \<Rightarrow> machine \<Rightarrow> val result" where
  "alloc_array fns funct arr s =
     (let s = push_roots [0, 0] s
      in if arr = [] then Returns (Atom s 0) (pop_roots 2 s)
         else andThen (alloc fns (word_of_nat (length arr)) 0 s)
                (\<lambda>res s. andThen (fill_array funct 0 arr (set_root 1 res s))
                   (\<lambda>u s. Returns (root s 1) (pop_roots 2 s))))"

definition copy_string_array :: "fns \<Rightarrow> string list \<Rightarrow> machine \<Rightarrow> val result" where
  "copy_string_array fns arr s = alloc_array fns (copy_string fns) arr s"

partial_function (option) flag_list :: "(uint32 \<Rightarrow> uint32) \<Rightarrow> mem \<Rightarrow> val \<Rightarrow> uint32 \<Rightarrow> uint32 option" where
  "flag_list flags m lst res =
     (if lst \<noteq> Val_int 0 then flag_list flags m (Field m lst 1) (res OR flags (Int_val (Field m lst 0)))
      else Some res)"

definition convert_flag_list :: "(uint32 \<Rightarrow> uint32) \<Rightarrow> val \<Rightarrow> machine \<Rightarrow> uint32 option" where
  "convert_flag_list flags lst s = flag_list flags (mem s) lst 0"

definition alloc_dummy :: "fns \<Rightarrow> val \<Rightarrow> machine \<Rightarrow> val result" where
  "alloc_dummy fns sz s =
     (let wosize = Int_val sz in if wosize = 0 then Returns (Atom s 0) s else alloc fns wosize 0 s)"

text \<open>The tag is the low byte of the header.\<close>

definition set_Tag_val :: "val \<Rightarrow> uint32 \<Rightarrow> mem \<Rightarrow> mem" where
  "set_Tag_val v tag m = set_Hd_val v ((Hd_val m v AND NOT 0xFF) OR (tag AND 0xFF)) m"

fun modify_fields :: "val \<Rightarrow> val \<Rightarrow> nat \<Rightarrow> nat \<Rightarrow> machine \<Rightarrow> machine" where
  "modify_fields dummy newval i 0 s = s"
| "modify_fields dummy newval i (Suc n) s =
     modify_fields dummy newval (Suc i) n (Modify (dummy + 4 * word_of_nat i) (Field (mem s) newval (word_of_nat i)) s)"

definition update_dummy :: "val \<Rightarrow> val \<Rightarrow> machine \<Rightarrow> val \<times> machine" where
  "update_dummy dummy newval s =
     (let sz = Wosize_val (mem s) newval;
          s = s\<lparr>mem := set_Tag_val dummy (Tag_val (mem s) newval) (mem s)\<rparr>
      in (Val_unit, modify_fields dummy newval 0 (unat sz) s))"

subsection \<open>Exceptions with a string\<close>

definition raise_with_string :: "fns \<Rightarrow> val \<Rightarrow> string \<Rightarrow> machine \<Rightarrow> 'a result" where
  "raise_with_string fns tag msg s =
     (let s = push_roots [0, tag] s
      in andThen (copy_string fns msg s)
           (\<lambda>vmsg s. let s = set_root 0 vmsg s in raise_with_arg fns (root s 1) vmsg s))"

definition failwith :: "fns \<Rightarrow> string \<Rightarrow> machine \<Rightarrow> 'a result" where
  "failwith fns msg s = raise_with_string fns (Field (mem s) (global_data s) 2) msg s"

definition invalid_argument :: "fns \<Rightarrow> string \<Rightarrow> machine \<Rightarrow> 'a result" where
  "invalid_argument fns msg s = raise_with_string fns (Field (mem s) (global_data s) 3) msg s"

definition raise_sys_error :: "fns \<Rightarrow> val \<Rightarrow> machine \<Rightarrow> 'a result" where
  "raise_sys_error fns msg s = raise_with_arg fns (Field (mem s) (global_data s) 1) msg s"

definition raise_end_of_file :: "fns \<Rightarrow> machine \<Rightarrow> 'a result" where
  "raise_end_of_file fns s = raise_constant fns (Field (mem s) (global_data s) 4) s"

definition raise_not_found :: "fns \<Rightarrow> machine \<Rightarrow> 'a result" where
  "raise_not_found fns s = raise_constant fns (Field (mem s) (global_data s) 6) s"

definition raise_sys_blocked_io :: "fns \<Rightarrow> machine \<Rightarrow> 'a result" where
  "raise_sys_blocked_io fns s = raise_constant fns (Field (mem s) (global_data s) 9) s"

subsection \<open>Custom blocks\<close>

text \<open>The first field of a custom block points to its operations; their second word is the finaliser.\<close>

definition alloc_custom :: "fns \<Rightarrow> addr \<Rightarrow> uint32 \<Rightarrow> uint32 \<Rightarrow> uint32 \<Rightarrow> machine \<Rightarrow> val result" where
  "alloc_custom fns ops sz resources most s =
     (let wosize = 1 + (sz + 4 - 1) div 4
      in if mem s (ops + 4) = 0 \<and> wosize \<le> Max_young_wosize
         then let (v, s) = alloc_small fns wosize Custom_tag s in Returns v (s\<lparr>mem := set_Field v 0 ops (mem s)\<rparr>)
         else andThen (alloc_shr fns wosize Custom_tag s)
                (\<lambda>v s. let s = adjust_gc_speed resources most (s\<lparr>mem := set_Field v 0 ops (mem s)\<rparr>);
                           (v, s) = check_urgent_gc fns v s
                       in Returns v s))"

end
