(* ===== verification/Prims.thy ===== *)
theory Prims
  imports Alloc
begin

text \<open>
  The primitives on strings, arrays and blocks (\<^verbatim>\<open>byterun/str.c\<close>, \<^verbatim>\<open>byterun/array.c\<close>,
  \<^verbatim>\<open>byterun/obj.c\<close>).  Each takes the values the bytecode passes and the machine state; a check that
  fails raises \<open>Invalid_argument\<close>.
\<close>

subsection \<open>Strings\<close>

text \<open>A byte as a plain \<^verbatim>\<open>char\<close>, which is signed, in an expression of words.\<close>

definition Byte :: "mem \<Rightarrow> val \<Rightarrow> uint32 \<Rightarrow> uint32" where
  "Byte m x i = scast (Byte_u m x i)"

definition string_length :: "mem \<Rightarrow> val \<Rightarrow> uint32" where
  "string_length m str = (let temp = Bosize_val m str - 1 in temp - Byte m str temp)"

definition ml_string_length :: "mem \<Rightarrow> val \<Rightarrow> val" where
  "ml_string_length m str = (let temp = Bosize_val m str - 1 in Val_long (temp - Byte m str temp))"

definition create_string :: "fns \<Rightarrow> val \<Rightarrow> machine \<Rightarrow> val result" where
  "create_string fns len s =
     (let sz = Long_val len
      in if Bsize_wsize Max_wosize - 1 < sz then invalid_argument fns ''String.create'' s else alloc_string fns sz s)"

text \<open>
  In \<^verbatim>\<open>idx >= string_length(str)\<close> the signed index is converted to unsigned; the test for a negative index comes first.
\<close>

definition string_get :: "fns \<Rightarrow> val \<Rightarrow> val \<Rightarrow> machine \<Rightarrow> val result" where
  "string_get fns str index s =
     (let idx = Long_val index
      in if slt idx 0 \<or> string_length (mem s) str \<le> idx then invalid_argument fns ''String.get'' s
         else Returns (Val_int (ucast (Byte_u (mem s) str idx))) s)"

definition string_set :: "fns \<Rightarrow> val \<Rightarrow> val \<Rightarrow> val \<Rightarrow> machine \<Rightarrow> val result" where
  "string_set fns str index newval s =
     (let idx = Long_val index
      in if slt idx 0 \<or> string_length (mem s) str \<le> idx then invalid_argument fns ''String.set'' s
         else Returns Val_unit (s\<lparr>mem := set_Byte_u str idx (ucast (Int_val newval)) (mem s)\<rparr>))"

fun words_equal :: "mem \<Rightarrow> addr \<Rightarrow> addr \<Rightarrow> nat \<Rightarrow> bool" where
  "words_equal m p1 p2 0 \<longleftrightarrow> True"
| "words_equal m p1 p2 (Suc n) \<longleftrightarrow> (if m p1 \<noteq> m p2 then False else words_equal m (p1 + 4) (p2 + 4) n)"

definition string_equal :: "mem \<Rightarrow> val \<Rightarrow> val \<Rightarrow> val" where
  "string_equal m s1 s2 =
     (let sz1 = Wosize_val m s1; sz2 = Wosize_val m s2
      in if sz1 \<noteq> sz2 then Val_false else if words_equal m s1 s2 (unat sz1) then Val_true else Val_false)"

definition string_notequal :: "mem \<Rightarrow> val \<Rightarrow> val \<Rightarrow> val" where
  "string_notequal m s1 s2 = Val_not (string_equal m s1 s2)"

text \<open>\<open>memmove\<close> reads all bytes before it writes any.\<close>

definition load_bytes :: "mem \<Rightarrow> val \<Rightarrow> uint32 \<Rightarrow> nat \<Rightarrow> uint8 list" where
  "load_bytes m v i n = map (\<lambda>k. Byte_u m v (i + word_of_nat k)) [0..<n]"

definition blit_string :: "val \<Rightarrow> val \<Rightarrow> val \<Rightarrow> val \<Rightarrow> val \<Rightarrow> machine \<Rightarrow> val \<times> machine" where
  "blit_string s1 ofs1 s2 ofs2 n s =
     (Val_unit, s\<lparr>mem := store_bytes s2 (Long_val ofs2)
                          (load_bytes (mem s) s1 (Long_val ofs1) (unat (Int_val n))) (mem s)\<rparr>)"

fun fill_bytes :: "val \<Rightarrow> uint32 \<Rightarrow> nat \<Rightarrow> uint8 \<Rightarrow> mem \<Rightarrow> mem" where
  "fill_bytes v i 0 c m = m"
| "fill_bytes v i (Suc n) c m = fill_bytes v (i + 1) n c (set_Byte_u v i c m)"

definition fill_string :: "val \<Rightarrow> val \<Rightarrow> val \<Rightarrow> val \<Rightarrow> machine \<Rightarrow> val \<times> machine" where
  "fill_string str offset len init s =
     (Val_unit, s\<lparr>mem := fill_bytes str (Long_val offset) (unat (Long_val len)) (ucast (Long_val init)) (mem s)\<rparr>)"

definition bitvect_test :: "mem \<Rightarrow> val \<Rightarrow> val \<Rightarrow> val" where
  "bitvect_test m bv n =
     (let pos = Int_val n
      in Val_int (ucast (Byte_u m bv (c_sar pos 3)) AND c_shl 1 (pos AND 7)))"

subsection \<open>Arrays\<close>

definition array_get_addr :: "fns \<Rightarrow> val \<Rightarrow> val \<Rightarrow> machine \<Rightarrow> val result" where
  "array_get_addr fns array index s =
     (let idx = Long_val index
      in if slt idx 0 \<or> Wosize_val (mem s) array \<le> idx then invalid_argument fns ''Array.get'' s
         else Returns (Field (mem s) array idx) s)"

definition array_unsafe_get_float :: "fns \<Rightarrow> val \<Rightarrow> val \<Rightarrow> machine \<Rightarrow> val result" where
  "array_unsafe_get_float fns array index s =
     (let d = Double_field (mem s) array (Long_val index);
          (res, s) = alloc_small fns Double_wosize Double_tag s
      in Returns res (s\<lparr>mem := Store_double_val res d (mem s)\<rparr>))"

definition array_get_float :: "fns \<Rightarrow> val \<Rightarrow> val \<Rightarrow> machine \<Rightarrow> val result" where
  "array_get_float fns array index s =
     (let idx = Long_val index
      in if slt idx 0 \<or> Wosize_val (mem s) array div Double_wosize \<le> idx then invalid_argument fns ''Array.get'' s
         else let d = Double_field (mem s) array idx;
                  (res, s) = alloc_small fns Double_wosize Double_tag s
              in Returns res (s\<lparr>mem := Store_double_val res d (mem s)\<rparr>))"

definition array_get :: "fns \<Rightarrow> val \<Rightarrow> val \<Rightarrow> machine \<Rightarrow> val result" where
  "array_get fns array index s =
     (if Tag_val (mem s) array = Double_array_tag then array_get_float fns array index s
      else array_get_addr fns array index s)"

definition array_set_addr :: "fns \<Rightarrow> val \<Rightarrow> val \<Rightarrow> val \<Rightarrow> machine \<Rightarrow> val result" where
  "array_set_addr fns array index newval s =
     (let idx = Long_val index
      in if slt idx 0 \<or> Wosize_val (mem s) array \<le> idx then invalid_argument fns ''Array.set'' s
         else Returns Val_unit (Modify (array + 4 * idx) newval s))"

definition array_set_float :: "fns \<Rightarrow> val \<Rightarrow> val \<Rightarrow> val \<Rightarrow> machine \<Rightarrow> val result" where
  "array_set_float fns array index newval s =
     (let idx = Long_val index
      in if slt idx 0 \<or> Wosize_val (mem s) array div Double_wosize \<le> idx then invalid_argument fns ''Array.set'' s
         else Returns Val_unit (s\<lparr>mem := Store_double_field array idx (Double_val (mem s) newval) (mem s)\<rparr>))"

definition array_set :: "fns \<Rightarrow> val \<Rightarrow> val \<Rightarrow> val \<Rightarrow> machine \<Rightarrow> val result" where
  "array_set fns array index newval s =
     (if Tag_val (mem s) array = Double_array_tag then array_set_float fns array index newval s
      else array_set_addr fns array index newval s)"

definition array_unsafe_get :: "fns \<Rightarrow> val \<Rightarrow> val \<Rightarrow> machine \<Rightarrow> val result" where
  "array_unsafe_get fns array index s =
     (if Tag_val (mem s) array = Double_array_tag then array_unsafe_get_float fns array index s
      else Returns (Field (mem s) array (Long_val index)) s)"

definition array_unsafe_set_addr :: "val \<Rightarrow> val \<Rightarrow> val \<Rightarrow> machine \<Rightarrow> val \<times> machine" where
  "array_unsafe_set_addr array index newval s =
     (let idx = Long_val index in (Val_unit, Modify (array + 4 * idx) newval s))"

definition array_unsafe_set_float :: "val \<Rightarrow> val \<Rightarrow> val \<Rightarrow> machine \<Rightarrow> val \<times> machine" where
  "array_unsafe_set_float array index newval s =
     (Val_unit, s\<lparr>mem := Store_double_field array (Long_val index) (Double_val (mem s) newval) (mem s)\<rparr>)"

definition array_unsafe_set :: "val \<Rightarrow> val \<Rightarrow> val \<Rightarrow> machine \<Rightarrow> val \<times> machine" where
  "array_unsafe_set array index newval s =
     (if Tag_val (mem s) array = Double_array_tag then array_unsafe_set_float array index newval s
      else array_unsafe_set_addr array index newval s)"

definition Is_atom :: "machine \<Rightarrow> val \<Rightarrow> bool" where
  "Is_atom s v \<longleftrightarrow> Atom s 0 \<le> v \<and> v \<le> Atom s 255"

text \<open>The loops that fill a new array, from index \<open>i\<close>.\<close>

fun fill_fields :: "val \<Rightarrow> nat \<Rightarrow> nat \<Rightarrow> val \<Rightarrow> mem \<Rightarrow> mem" where
  "fill_fields v i 0 x m = m"
| "fill_fields v i (Suc n) x m = fill_fields v (Suc i) n x (set_Field v (word_of_nat i) x m)"

fun fill_initialize :: "val \<Rightarrow> nat \<Rightarrow> nat \<Rightarrow> val \<Rightarrow> machine \<Rightarrow> machine" where
  "fill_initialize v i 0 x s = s"
| "fill_initialize v i (Suc n) x s = fill_initialize v (Suc i) n x (initialize (v + 4 * word_of_nat i) x s)"

fun fill_doubles :: "val \<Rightarrow> nat \<Rightarrow> nat \<Rightarrow> uint32 \<times> uint32 \<Rightarrow> mem \<Rightarrow> mem" where
  "fill_doubles v i 0 d m = m"
| "fill_doubles v i (Suc n) d m = fill_doubles v (Suc i) n d (Store_double_field v (word_of_nat i) d m)"

text \<open>The roots of \<open>make_vect\<close> are \<open>res\<close>, \<open>len\<close> and \<open>init\<close>, in this order.\<close>

definition make_vect :: "fns \<Rightarrow> val \<Rightarrow> val \<Rightarrow> machine \<Rightarrow> val result" where
  "make_vect fns len init s =
     (let s = push_roots [0, len, init] s; sz = Long_val len;
          finish = (\<lambda>s. Returns (root s 0) (pop_roots 3 s))
      in if sz = 0 then finish (set_root 0 (Atom s 0) s)
         else if Is_block init \<and> (Is_atom s init \<or> Is_young s init \<or> Is_in_heap s init) \<and> Tag_val (mem s) init = Double_tag
         then let d = Double_val (mem s) init; wsize = sz * Double_wosize
              in if Max_wosize < wsize then invalid_argument fns ''Array.make'' s
                 else andThen (alloc fns wsize Double_array_tag s)
                        (\<lambda>res s. finish (set_root 0 res (s\<lparr>mem := fill_doubles res 0 (unat sz) d (mem s)\<rparr>)))
         else if Max_wosize < sz then invalid_argument fns ''Array.make'' s
         else if sz < Max_young_wosize
         then let (res, s) = alloc_small fns sz 0 s
              in finish (set_root 0 res (s\<lparr>mem := fill_fields res 0 (unat sz) (root s 2) (mem s)\<rparr>))
         else if Is_block init \<and> Is_young s init
         then andThen (alloc_shr fns sz 0 (c_minor_collection fns s))
                (\<lambda>res s. let s = set_root 0 res (s\<lparr>mem := fill_fields res 0 (unat sz) (root s 2) (mem s)\<rparr>);
                             (res, s) = check_urgent_gc fns res s
                         in finish (set_root 0 res s))
         else andThen (alloc_shr fns sz 0 s)
                (\<lambda>res s. let s = set_root 0 res (fill_initialize res 0 (unat sz) (root s 2) s);
                             (res, s) = check_urgent_gc fns res s
                         in finish (set_root 0 res s)))"

fun unbox_doubles :: "val \<Rightarrow> val \<Rightarrow> nat \<Rightarrow> nat \<Rightarrow> mem \<Rightarrow> mem" where
  "unbox_doubles res init i 0 m = m"
| "unbox_doubles res init i (Suc n) m =
     unbox_doubles res init (Suc i) n
       (Store_double_field res (word_of_nat i) (Double_val m (Field m init (word_of_nat i))) m)"

text \<open>The roots of \<open>make_array\<close> are \<open>v\<close>, \<open>res\<close> and \<open>init\<close>.\<close>

definition make_array :: "fns \<Rightarrow> val \<Rightarrow> machine \<Rightarrow> val \<times> machine" where
  "make_array fns init s =
     (let s = push_roots [0, 0, init] s; sz = Wosize_val (mem s) init
      in if sz = 0 then (init, pop_roots 3 s)
         else let v = Field (mem s) init 0; s = set_root 0 v s
              in if Is_long v \<or> \<not> Is_atom s v \<and> \<not> Is_young s v \<and> \<not> Is_in_heap s v \<or> Tag_val (mem s) v \<noteq> Double_tag
                 then (init, pop_roots 3 s)
                 else let wsize = sz * Double_wosize;
                          (res, s) = alloc_small fns wsize Double_array_tag s;
                          s = set_root 1 res (s\<lparr>mem := unbox_doubles res (root s 2) 0 (unat sz) (mem s)\<rparr>)
                      in (root s 1, pop_roots 3 s))"

subsection \<open>Blocks\<close>

definition static_alloc :: "fns \<Rightarrow> val \<Rightarrow> machine \<Rightarrow> val result" where
  "static_alloc fns sz s = stat_alloc fns (Long_val sz) s"

definition obj_is_block :: "val \<Rightarrow> val" where
  "obj_is_block arg = Val_bool (Is_block arg)"

definition obj_tag :: "mem \<Rightarrow> val \<Rightarrow> val" where
  "obj_tag m arg = Val_int (Tag_val m arg)"

definition obj_set_tag :: "val \<Rightarrow> val \<Rightarrow> machine \<Rightarrow> val \<times> machine" where
  "obj_set_tag arg new_tag s = (Val_unit, s\<lparr>mem := set_Tag_val arg (Int_val new_tag) (mem s)\<rparr>)"

definition obj_block :: "fns \<Rightarrow> val \<Rightarrow> val \<Rightarrow> machine \<Rightarrow> val result" where
  "obj_block fns tag sz s =
     (let sz = Long_val sz; tg = Long_val tag
      in if sz = 0 then Returns (Atom s tg) s
         else andThen (alloc fns sz tg s)
                (\<lambda>res s. Returns res (s\<lparr>mem := fill_fields res 0 (unat sz) (Val_long 0) (mem s)\<rparr>)))"

fun copy_fields :: "val \<Rightarrow> val \<Rightarrow> nat \<Rightarrow> nat \<Rightarrow> mem \<Rightarrow> mem" where
  "copy_fields res arg i 0 m = m"
| "copy_fields res arg i (Suc n) m =
     copy_fields res arg (Suc i) n (set_Field res (word_of_nat i) (Field m arg (word_of_nat i)) m)"

text \<open>The roots of \<open>obj_dup\<close> are \<open>res\<close> and \<open>arg\<close>; the return of an empty block leaves them in place, as the source does.\<close>

definition obj_dup :: "fns \<Rightarrow> val \<Rightarrow> machine \<Rightarrow> val result" where
  "obj_dup fns arg s =
     (let s = push_roots [0, arg] s; sz = Wosize_val (mem s) arg
      in if sz = 0 then Returns arg s
         else let tg = Tag_val (mem s) arg
              in andThen (alloc fns sz tg s)
                   (\<lambda>res s. let s = set_root 0 res (s\<lparr>mem := copy_fields res (root s 1) 0 (unat sz) (mem s)\<rparr>)
                            in Returns (root s 0) (pop_roots 2 s)))"

fun erase_fields :: "val \<Rightarrow> nat \<Rightarrow> nat \<Rightarrow> machine \<Rightarrow> machine" where
  "erase_fields v i 0 s = s"
| "erase_fields v i (Suc n) s = erase_fields v (Suc i) n (Modify (v + 4 * word_of_nat i) Val_unit s)"

definition obj_truncate :: "fns \<Rightarrow> val \<Rightarrow> val \<Rightarrow> machine \<Rightarrow> val result" where
  "obj_truncate fns v newsize s =
     (let new_wosize = Long_val newsize; h = Hd_val (mem s) v; tag = Tag_hd h; color = Color_hd h;
          wosize = Wosize_hd h;
          new_wosize = (if tag = Double_array_tag then new_wosize * Double_wosize else new_wosize)
      in if new_wosize \<le> 0 \<or> wosize < new_wosize then invalid_argument fns ''Obj.truncate'' s
         else if new_wosize = wosize then Returns Val_unit s
         else let s = (if tag < No_scan_tag
                       then erase_fields v (unat new_wosize) (unat wosize - unat new_wosize) s else s);
                  s = s\<lparr>mem := set_Field v new_wosize
                        (Make_header (Wosize_whsize (wosize - new_wosize)) 1 Caml_white) (mem s)\<rparr>
              in Returns Val_unit (s\<lparr>mem := set_Hd_val v (Make_header new_wosize tag color) (mem s)\<rparr>))"

subsection \<open>Bytes of a string\<close>

lemma Byte_u_store_other:
  assumes "\<And>k. k < length bs \<Longrightarrow> y + j \<noteq> v + i + word_of_nat k"
  shows "Byte_u (store_bytes v i bs m) y j = Byte_u m y j"
  using assms
proof (induction bs arbitrary: i m)
  case (Cons b bs)
  have "y + j \<noteq> v + (i + 1) + word_of_nat k" if "k < length bs" for k
    using Cons.prems [of "Suc k"] that by (simp add: algebra_simps)
  then have "Byte_u (store_bytes v (i + 1) bs (set_Byte_u v i b m)) y j = Byte_u (set_Byte_u v i b m) y j"
    by (rule Cons.IH)
  also have "\<dots> = Byte_u m y j" using Cons.prems [of 0] by (intro Byte_u_set_other) simp
  finally show ?case by simp
qed simp

lemma word_of_nat_inj32: "i < 4294967296 \<Longrightarrow> j < 4294967296 \<Longrightarrow> (word_of_nat i :: uint32) = word_of_nat j \<longleftrightarrow> i = j"
  by (metis unat_word_of_nat_small)

lemma Byte_u_store_same:
  assumes "k < length bs" and "length bs < 4294967296"
  shows "Byte_u (store_bytes v i bs m) v (i + word_of_nat k) = bs ! k"
  using assms
proof (induction bs arbitrary: i m k)
  case (Cons b bs)
  show ?case
  proof (cases k)
    case 0
    have "v + i \<noteq> v + (i + 1) + word_of_nat l" if "l < length bs" for l
    proof -
      have "(word_of_nat (Suc l) :: uint32) \<noteq> word_of_nat 0"
        using that Cons.prems(2) by (subst word_of_nat_inj32) auto
      then show ?thesis by (simp add: add.assoc)
    qed
    then have "Byte_u (store_bytes v (i + 1) bs (set_Byte_u v i b m)) v i = Byte_u (set_Byte_u v i b m) v i"
      by (rule Byte_u_store_other)
    then show ?thesis using 0 by (simp add: Byte_u_set_same)
  next
    case (Suc l)
    then show ?thesis using Cons.IH [of l "i + 1"] Cons.prems by (simp add: algebra_simps)
  qed
qed simp

text \<open>Storing bytes of an aligned block changes only the words that hold them.\<close>

lemma aligned_byte_word:
  assumes "v AND 3 = (0 :: uint32)"
  shows "(v + i) AND NOT 3 = v + 4 * (i div 4)"
proof -
  have "i = 4 * (i div 4) + i mod 4" by (metis mult_div_mod_eq)
  then have "v + i = (v + 4 * (i div 4)) + i mod 4" by (metis add.assoc)
  moreover have "i mod 4 < 4" by (simp add: word_mod_less_divisor)
  ultimately show ?thesis using aligned_low(1) [OF aligned_add [OF assms]] by metis
qed

lemma store_bytes_word:
  assumes "v AND 3 = 0" and "\<And>k. k < length bs \<Longrightarrow> a \<noteq> v + 4 * ((i + word_of_nat k) div 4)"
  shows "store_bytes v i bs m a = m a"
  using assms(2)
proof (induction bs arbitrary: i m)
  case (Cons b bs)
  have "a \<noteq> v + 4 * ((i + 1 + word_of_nat k) div 4)" if "k < length bs" for k
    using Cons.prems [of "Suc k"] that by (simp add: algebra_simps)
  then have "store_bytes v (i + 1) bs (set_Byte_u v i b m) a = set_Byte_u v i b m a" by (rule Cons.IH)
  also have "\<dots> = m a"
    by (rule set_Byte_u_word, unfold aligned_byte_word [OF assms(1)]) (use Cons.prems [of 0] in simp)
  finally show ?case by simp
qed simp

lemma unat_div4: "unat (i div 4 :: uint32) = unat i div 4"
  by (simp add: unat_div)

text \<open>The header of a block is not among the words of its bytes.\<close>

lemma byte_not_header:
  assumes "unat (i :: uint32) < 2 ^ 30"
  shows "v - 4 \<noteq> v + 4 * (i div 4)"
proof
  assume "v - 4 = v + 4 * (i div 4)"
  then have "v + 4 * (i div 4) = v + - 4" by simp
  then have "4 * (i div 4) = - 4" by (rule add_left_imp_eq)
  then have "unat (4 * (i div 4)) = 2 ^ 32 - 4" by simp
  moreover have "unat (4 * (i div 4)) = 4 * (unat i div 4)"
    using assms by (simp add: unat_word_ariths unat_div)
  ultimately show False using assms by simp
qed

subsection \<open>The length of a string\<close>

text \<open>\<open>string_words w n\<close>: a string of \<open>n\<close> bytes has \<open>w\<close> words.\<close>

definition string_words :: "nat \<Rightarrow> nat \<Rightarrow> bool" where
  "string_words w n \<longleftrightarrow> 1 \<le> w \<and> w \<le> 4194303 \<and> n < 4 * w \<and> 4 * w \<le> n + 4"

lemma string_words_alloc:
  assumes "n \<le> 16777211"
  shows "string_words (unat ((word_of_nat n + 4) div 4 :: uint32)) n"
proof -
  have "unat (word_of_nat n + 4 :: uint32) = n + 4"
    using assms by (simp add: unat_word_ariths unat_word_of_nat_small)
  then show ?thesis using assms by (simp add: string_words_def unat_div) presburger
qed

lemma last_byte:
  assumes "string_words (unat w) n" and "m (v - 4) = h" and "Wosize_hd h = w"
  shows "unat (Bosize_val m v - 1) = 4 * unat w - 1" and "(Bosize_val m v - 1) div 4 = w - 1"
    and "Bosize_val m v - 1 = Bsize_wsize w - 1"
proof -
  have w: "1 \<le> unat w" "unat w \<le> 4194303" using assms(1) by (auto simp: string_words_def)
  show e: "Bosize_val m v - 1 = Bsize_wsize w - 1"
    using assms(2,3) by (simp add: Bosize_val_def Wosize_val_def Hd_val_def)
  have u: "unat (w * 4) = 4 * unat w" using w by (simp add: unat_word_ariths)
  moreover have "1 \<le> w * 4" using u w by (simp add: word_le_nat_alt)
  ultimately show n: "unat (Bosize_val m v - 1) = 4 * unat w - 1" unfolding e Bsize_wsize_def by (simp add: unat_sub)
  have "unat (w - 1) = unat w - 1" using w by (subst unat_sub) (auto simp: word_le_nat_alt)
  moreover have "(4 * unat w - 1) div 4 = unat w - 1" using w(1) by presburger
  ultimately show "(Bosize_val m v - 1) div 4 = w - 1"
    using n by (intro word_eq_by_unat) (simp add: unat_div)
qed

lemma char_of_small: "unat x < 128 \<Longrightarrow> scast (ucast x :: uint8) = x" for x :: uint32
proof -
  assume "unat x < 128"
  then have "int (unat x) < 128" by linarith
  then have x: "uint x < 128" by simp
  have u: "uint (ucast x :: uint8) = uint x" using x by (simp add: unsigned_ucast_eq take_bit_int_eq_self)
  have "- 128 \<le> uint x" by (rule order.trans [OF _ uint_ge_0]) simp
  then have "signed_take_bit 7 (uint x) = uint x" using x by (intro signed_take_bit_int_eq_self) simp_all
  then have "sint (ucast x :: uint8) = uint x" unfolding sint_uint u by simp
  then show "scast (ucast x :: uint8) = x" by (simp add: scast_eq)
qed

lemma finish_string_correct:
  assumes al: "v AND 3 = 0" and sw: "string_words (unat w) n" and hd: "mem s (v - 4) = h" "Wosize_hd h = w"
    and t: "t = finish_string v w (word_of_nat n) s"
  shows "mem t (v - 4) = h" "string_length (mem t) v = word_of_nat n" "Byte_u (mem t) v (word_of_nat n) = 0"
proof -
  let ?o = "Bsize_wsize w - 1" and ?m = "set_Field v (w - 1) 0 (mem s)"
  have w: "1 \<le> unat w" "unat w \<le> 4194303" and n: "n < 4 * unat w" "4 * unat w \<le> n + 4"
    using sw by (auto simp: string_words_def)
  note lb = last_byte [of w n "mem s" v h, OF sw hd]
  have o: "unat ?o = 4 * unat w - 1" "?o div 4 = w - 1" using lb by simp_all
  have "(v + ?o) AND NOT 3 = v + 4 * (w - 1)" using aligned_byte_word [OF al, of ?o] o(2) by simp
  moreover have nh: "v - 4 \<noteq> v + 4 * (w - 1)" using byte_not_header [of ?o v] o w by simp
  ultimately have "mem t (v - 4) = ?m (v - 4)"
    unfolding t finish_string_def Let_def by (simp add: set_Byte_u_def Let_def)
  also have "\<dots> = h" using nh hd(1) by (simp add: set_Field_def mult.commute)
  finally show ht: "mem t (v - 4) = h" .
  have nn: "unat (word_of_nat n :: uint32) = n" using n w by (intro unat_word_of_nat_small) linarith
  have pad: "unat (?o - word_of_nat n) = 4 * unat w - 1 - n"
    using nn o(1) n by (subst unat_sub) (auto simp: word_le_nat_alt)
  have byte: "Byte_u (mem t) v ?o = ucast (?o - word_of_nat n)"
    unfolding t finish_string_def Let_def by (simp add: Byte_u_set_same)
  have "(scast (ucast (?o - word_of_nat n) :: uint8) :: uint32) = ?o - word_of_nat n"
    by (rule char_of_small) (use pad n in linarith)
  then show "string_length (mem t) v = word_of_nat n"
    using last_byte(3) [of w n "mem t" v h, OF sw ht hd(2)] byte by (simp add: string_length_def Byte_def Let_def)
  show "Byte_u (mem t) v (word_of_nat n) = 0"
  proof (cases "n = 4 * unat w - 1")
    case True
    then have "word_of_nat n = ?o" using o(1) nn by (intro word_eq_by_unat) simp
    then show ?thesis using byte by simp
  next
    case False
    then have "?o \<noteq> word_of_nat n" using o(1) nn by auto
    then have "Byte_u (mem t) v (word_of_nat n) = Byte_u ?m v (word_of_nat n)"
      unfolding t finish_string_def Let_def by (simp add: Byte_u_set_other)
    moreover have "n div 4 = unat w - 1" using n by presburger
    then have "(word_of_nat n :: uint32) div 4 = w - 1"
      using nn w by (intro word_eq_by_unat) (simp add: unat_div unat_sub word_le_nat_alt)
    then have "(v + word_of_nat n) AND NOT 3 = v + 4 * (w - 1)" using aligned_byte_word [OF al, of "word_of_nat n"] by simp
    then have "?m ((v + word_of_nat n) AND NOT 3) = 0" by (simp add: set_Field_def mult.commute)
    ultimately show ?thesis by (simp add: Byte_u_def Let_def)
  qed
qed

lemma store_bytes_string:
  assumes al: "v AND 3 = 0" and sw: "string_words (unat w) (length bs)" and hd: "m (v - 4) = h" "Wosize_hd h = w"
    and len: "string_length m v = word_of_nat (length bs)"
  shows "store_bytes v 0 bs m (v - 4) = h" "string_length (store_bytes v 0 bs m) v = word_of_nat (length bs)"
    "load_bytes (store_bytes v 0 bs m) v 0 (length bs) = bs"
    "Byte_u (store_bytes v 0 bs m) v (word_of_nat (length bs)) = Byte_u m v (word_of_nat (length bs))"
proof -
  let ?m = "store_bytes v 0 bs m"
  have w: "1 \<le> unat w" "unat w \<le> 4194303" and n: "length bs < 4 * unat w" using sw by (auto simp: string_words_def)
  have small: "k \<le> length bs \<Longrightarrow> unat (word_of_nat k :: uint32) = k" for k
    using n w by (intro unat_word_of_nat_small) linarith
  show hm: "?m (v - 4) = h"
  proof (subst store_bytes_word [OF al])
    fix k assume "k < length bs"
    then have "unat (0 + word_of_nat k :: uint32) < 2 ^ 30" using small [of k] n w by simp
    then show "v - 4 \<noteq> v + 4 * ((0 + word_of_nat k) div 4)" by (rule byte_not_header)
  qed (rule hd)
  have other: "Byte_u ?m v j = Byte_u m v j" if "length bs \<le> unat j" for j
  proof (rule Byte_u_store_other)
    fix k assume "k < length bs"
    then have "j \<noteq> word_of_nat k" using that small [of k] by auto
    then show "v + j \<noteq> v + 0 + word_of_nat k" by simp
  qed
  have lb: "unat (Bosize_val m v - 1) = 4 * unat w - 1" by (rule last_byte [OF sw, of m v h, OF hd])
  have "Bosize_val ?m v = Bosize_val m v" using hm hd(1) by (simp add: Bosize_val_def Wosize_val_def Hd_val_def)
  then show "string_length ?m v = word_of_nat (length bs)"
    using len other [of "Bosize_val m v - 1"] lb n by (simp add: string_length_def Byte_def Let_def)
  show "load_bytes ?m v 0 (length bs) = bs"
  proof (rule nth_equalityI)
    fix k assume "k < length (load_bytes ?m v 0 (length bs))"
    then have k: "k < length bs" by (simp add: load_bytes_def)
    then have "Byte_u ?m v (0 + word_of_nat k) = bs ! k" using n w by (intro Byte_u_store_same) auto
    then show "load_bytes ?m v 0 (length bs) ! k = bs ! k" using k by (simp add: load_bytes_def)
  qed (simp add: load_bytes_def)
  show "Byte_u ?m v (word_of_nat (length bs)) = Byte_u m v (word_of_nat (length bs))"
    using small [of "length bs"] by (intro other) simp
qed

lemma length_bytes_of [simp]: "length (bytes_of msg) = length msg"
  by (simp add: bytes_of_def)

text \<open>The allocation of a block returns it with its header, however it is found.\<close>

lemma Alloc_small_header:
  assumes "Alloc_small gc w tag s = (v, t)" and "young_ptr s AND 3 = 0" and "young_ptr s - Bhsize_wosize w < young_limit s \<Longrightarrow> young_ptr (gc s) AND 3 = 0"
  shows "mem t (v - 4) = Make_header w tag Caml_black" and "v AND 3 = 0"
proof -
  let ?b = "Bhsize_wosize w"
  define p where "p = (if young_ptr s - ?b < young_limit s then young_ptr (gc s) else young_ptr s)"
  have v: "v = p - ?b + 4" "mem t (v - 4) = Make_header w tag Caml_black"
    using assms(1) by (auto simp: Alloc_small_def Let_def Val_hp_def p_def split: if_splits)
  show "mem t (v - 4) = Make_header w tag Caml_black" by (rule v)
  have "p AND 3 = 0" using assms(2,3) by (simp add: p_def)
  then have "(p + 4 * (- w)) AND 3 = 0" by (rule aligned_add)
  moreover have "p - ?b + 4 = p + 4 * (- w)" by (simp add: Bhsize_wosize_def Bsize_wsize_def Whsize_wosize_def algebra_simps)
  ultimately show "v AND 3 = 0" unfolding v(1) by (simp only:)
qed

lemma alloc_shr_header:
  assumes "alloc_shr fns w tag s = Returns v t"
  shows "mem t (v - 4) \<in> {Make_header w tag Caml_black, Make_header w tag Caml_white}" and "w \<le> Max_wosize"
proof -
  have f: "mem t (v - 4) \<in> {Make_header w tag Caml_black, Make_header w tag Caml_white}" if "finish_shr hp w tag s' = (v, t)" for hp s'
    using that by (auto simp: finish_shr_def Let_def Val_hp_def urge_major_slice_def split: if_splits)
  show "w \<le> Max_wosize" using assms by (auto simp: alloc_shr_def raise_out_of_memory_def mlraise_def Let_def not_less split: if_splits)
  then show "mem t (v - 4) \<in> {Make_header w tag Caml_black, Make_header w tag Caml_white}"
    using assms f by (auto simp: alloc_shr_def andThen_def raise_out_of_memory_def mlraise_def Let_def split: option.splits result.splits prod.splits if_splits)
qed

text \<open>
  What a string of \<open>n\<close> bytes needs of the allocator.  In the minor heap, that its pointer is aligned, also after a collection if there is no room; in the major heap, that \<open>alloc_shr\<close> returns
  an aligned block, and that a collection that follows keeps the size and the tag of the block, which is a root, wherever it moves it.
\<close>

definition string_room :: "fns \<Rightarrow> nat \<Rightarrow> machine \<Rightarrow> bool" where
  "string_room fns n s \<longleftrightarrow>
     (let w = (word_of_nat n + 4) div 4
      in if w \<le> Max_young_wosize
         then young_ptr s AND 3 = 0 \<and> (young_ptr s - Bhsize_wosize w < young_limit s \<longrightarrow> young_ptr (c_minor_collection fns s) AND 3 = 0)
         else (\<exists>v t. alloc_shr fns w String_tag s = Returns v t \<and> v AND 3 = 0 \<and>
           (force_major_slice t \<longrightarrow>
             (let u = c_minor_collection fns (push_roots [v] t)
              in root u 0 AND 3 = 0 \<and> Wosize_val (mem u) (root u 0) = Wosize_val (mem t) v \<and> Tag_val (mem u) (root u 0) = Tag_val (mem t) v))))"

lemma string_header: "w \<le> Max_wosize \<Longrightarrow> c \<in> {Caml_black, Caml_white} \<Longrightarrow> Wosize_hd (Make_header w String_tag c) = w \<and> Tag_hd (Make_header w String_tag c) = String_tag"
  using Make_header_fields [of w String_tag c] by (auto simp: header_ok_def Max_wosize_def String_tag_def color_defs)

lemma alloc_string_block:
  assumes n: "n \<le> 16777211" and room: "string_room fns n s"
  obtains v t h where "alloc_string fns (word_of_nat n) s = Returns v t" "v AND 3 = 0" "mem t (v - 4) = h"
    "Wosize_hd h = (word_of_nat n + 4) div 4" "Tag_hd h = String_tag" "string_length (mem t) v = word_of_nat n"
    "Byte_u (mem t) v (word_of_nat n) = 0"
proof -
  let ?w = "(word_of_nat n + 4) div 4 :: uint32"
  have sw: "string_words (unat ?w) n" using n by (rule string_words_alloc)
  note goal = that
  have finish: thesis if a: "alloc_string fns (word_of_nat n) s = Returns v (finish_string v ?w (word_of_nat n) t)" and al: "v AND 3 = 0"
      and hd: "Wosize_hd (mem t (v - 4)) = ?w" "Tag_hd (mem t (v - 4)) = String_tag" for v t
    using goal [OF a al] finish_string_correct [OF al sw refl hd(1) refl] hd by blast
  show thesis
  proof (cases "?w \<le> Max_young_wosize")
    case True
    obtain v t where a: "Alloc_small (c_minor_collection fns) ?w String_tag s = (v, t)" by force
    have h: "mem t (v - 4) = Make_header ?w String_tag Caml_black" "v AND 3 = 0"
      using Alloc_small_header [OF a] room True by (auto simp: string_room_def Let_def)
    have "?w \<le> Max_wosize" using True by (simp add: Max_young_wosize_def Max_wosize_def word_le_nat_alt)
    moreover have "alloc_small fns ?w String_tag s = (v, t)" using a by (simp add: alloc_small_def c_minor_collection_def [abs_def])
    ultimately show thesis using True h string_header [of ?w Caml_black] by (intro finish [of v t]) (auto simp: alloc_string_def Let_def)
  next
    case False
    obtain v t where v: "alloc_shr fns ?w String_tag s = Returns v t" "v AND 3 = 0"
        "force_major_slice t \<Longrightarrow> let u = c_minor_collection fns (push_roots [v] t)
          in root u 0 AND 3 = 0 \<and> Wosize_val (mem u) (root u 0) = Wosize_val (mem t) v \<and> Tag_val (mem u) (root u 0) = Tag_val (mem t) v"
      using room False by (auto simp: string_room_def Let_def)
    obtain v' t' where g: "check_urgent_gc fns v t = (v', t')" by force
    have "Wosize_val (mem t) v = ?w" "Tag_val (mem t) v = String_tag"
      using alloc_shr_header [OF v(1)] string_header [of ?w] by (auto simp: Wosize_val_def Tag_val_def Hd_val_def)
    then have "v' AND 3 = 0" "Wosize_val (mem t') v' = ?w" "Tag_val (mem t') v' = String_tag"
      using g v(2,3) by (auto simp: check_urgent_gc_def Let_def push_roots_def pop_roots_def root_def split: if_splits)
    then show thesis using False v(1) g by (intro finish [of v' t']) (auto simp: alloc_string_def Let_def Wosize_val_def Tag_val_def Hd_val_def)
  qed
qed

lemma index_word:
  assumes "0 \<le> k" "k < 2 ^ 30"
  shows "Long_val (rep_int k) = word_of_nat (nat k)" "\<not> slt (Long_val (rep_int k)) 0"
    "n < 4294967296 \<Longrightarrow> word_of_nat n \<le> Long_val (rep_int k) \<longleftrightarrow> int n \<le> k"
proof -
  have e: "Long_val (rep_int k) = word_of_int k" using assms wrap31_in [of k] by (simp add: Long_val_rep_int in_long_def)
  then show l: "Long_val (rep_int k) = word_of_nat (nat k)" using assms(1) by simp
  show "\<not> slt (Long_val (rep_int k)) 0"
    using assms e sint_word_of_int_in [of k] by (simp add: slt_def)
  show "word_of_nat n \<le> Long_val (rep_int k) \<longleftrightarrow> int n \<le> k" if "n < 4294967296"
  proof -
    have "unat (Long_val (rep_int k)) = nat k" unfolding l using assms by (intro unat_word_of_nat_small) simp
    then show ?thesis using assms(1) that by (simp add: word_le_nat_alt unat_word_of_nat_small nat_le_iff le_nat_iff)
  qed
qed

lemma negative_index: "in_long k \<Longrightarrow> k < 0 \<Longrightarrow> slt (Long_val (rep_int k)) 0"
  using wrap31_in [of k] by (simp add: slt_def)

lemma ucast_rep_int: "(ucast (Int_val (rep_int c)) :: uint8) = word_of_int c"
proof -
  have "2 ^ 31 dvd wrap31 c - c" using wrap31_cong_iff [of "wrap31 c" c] by simp
  then have "2 ^ 8 dvd wrap31 c - c" using dvd_trans [of "2 ^ 8" "2 ^ 31" "wrap31 c - c"] by simp
  then have "(word_of_int (wrap31 c) :: uint8) = word_of_int c" by (intro word_of_int_cong) simp
  moreover have "(ucast (word_of_int x :: uint32) :: uint8) = word_of_int x" for x
  proof -
    have "take_bit 8 (take_bit 32 x) = take_bit 8 x" by (simp add: take_bit_take_bit)
    then show ?thesis by (simp add: ucast_eq word_of_int_eq_iff uint_word_of_int_eq)
  qed
  ultimately show ?thesis by (simp add: Long_val_rep_int)
qed

lemma byte_value: "Val_int (ucast (word_of_int c :: uint8)) = rep_int (c mod 256)"
proof -
  have "(ucast (word_of_int c :: uint8) :: uint32) = word_of_int (c mod 256)"
    by (simp add: ucast_eq uint_word_of_int take_bit_eq_mod)
  then show ?thesis by (simp add: rep_int_def)
qed

subsection \<open>The properties\<close>

text \<open>
  C35.  Strings.  \<open>copy_string\<close> of a C string for which the allocator finds a block, in the minor or in the major heap and with or without a collection, returns a string block of exactly that
  length: \<open>string_length\<close> gives the number of characters, the bytes are the characters, and the byte after them is zero, so that the block is a C string again.  A C string that is longer than any
  block raises \<open>Out_of_memory\<close>.
\<close>

theorem copy_string_reads_back:
  assumes "length msg < 2 ^ 31" and "length msg \<le> 16777211 \<Longrightarrow> string_room fns (length msg) s"
  shows "if length msg \<le> 16777211
    then \<exists>v t. copy_string fns msg s = Returns v t \<and> string_length (mem t) v = word_of_nat (length msg) \<and>
      load_bytes (mem t) v 0 (length msg) = bytes_of msg \<and> Byte_u (mem t) v (word_of_nat (length msg)) = 0 \<and> Tag_val (mem t) v = String_tag
    else copy_string fns msg s = raise_out_of_memory s"
proof (cases "length msg \<le> 16777211")
  case True
  let ?w = "(word_of_nat (length msg) + 4) div 4 :: uint32"
  obtain v t h where a: "alloc_string fns (word_of_nat (length msg)) s = Returns v t" "v AND 3 = 0" "mem t (v - 4) = h"
    "Wosize_hd h = ?w" "Tag_hd h = String_tag" "string_length (mem t) v = word_of_nat (length msg)"
    "Byte_u (mem t) v (word_of_nat (length msg)) = 0"
    using alloc_string_block [OF True assms(2) [OF True]] by metis
  have sw: "string_words (unat ?w) (length (bytes_of msg))" using string_words_alloc [OF True] by simp
  note st = store_bytes_string [OF a(2) sw, of "mem t" h, OF a(3,4)]
  have "copy_string fns msg s = Returns v (t\<lparr>mem := store_bytes v 0 (bytes_of msg) (mem t)\<rparr>)"
    using a(1) by (simp add: copy_string_def)
  then show ?thesis using True st a(5-7) by (simp add: Tag_val_def Hd_val_def)
next
  case False
  let ?w = "(word_of_nat (length msg) + 4) div 4 :: uint32"
  have "unat (word_of_nat (length msg) + 4 :: uint32) = length msg + 4" using assms(1) by (simp add: unat_word_ariths unat_word_of_nat_small)
  then have "unat ?w = (length msg + 4) div 4" by (simp add: unat_div)
  then have "Max_wosize < ?w" "\<not> ?w \<le> Max_young_wosize" using False by (simp_all add: word_less_nat_alt word_le_nat_alt Max_wosize_def Max_young_wosize_def)
  then show ?thesis using False by (simp add: copy_string_def alloc_string_def Let_def alloc_shr_def raise_out_of_memory_def mlraise_def)
qed

text \<open>A machine with a free block of 1000 words at 8196 in the major heap.\<close>

definition string_machine :: machine where
  "string_machine = boot_machine\<lparr>young_ptr := 8192, young_limit := 4096, minor_heap_size := 32768, Fl_head := 64, fl_prev := 64,
     mem := (\<lambda>_. 0)(64 := 8196, 8192 := Make_header 1000 0 Caml_blue)\<rparr>"

lemma string_machine_room: "string_room quiet_fns 5 string_machine" "string_room quiet_fns 2000 string_machine"
proof -
  have m: "young_ptr string_machine = 8192" "young_limit string_machine = 4096" "minor_heap_size string_machine = 32768" "fl_prev string_machine = 64"
      "mem string_machine 64 = 8196" "mem string_machine 8192 = Make_header 1000 0 Caml_blue" "allocated_words string_machine = 0" "force_major_slice string_machine = False"
      "gc_phase string_machine = Phase_idle"
    by (simp_all add: string_machine_def boot_machine_def)
  show "string_room quiet_fns 5 string_machine" by (simp add: string_room_def m size_defs Max_young_wosize_def)
  have h: "Wosize_hd (Make_header 1000 0 Caml_blue) = 1000" by (simp add: Make_header_fields header_ok_def Max_wosize_def color_defs)
  then have "search_end (mem string_machine) 501 64 = Some (Inl (64, 8196))"
    by (subst search_end.simps) (simp add: Let_def fl_access m)
  then have "\<exists>t. fl_allocate 501 string_machine = Some (Some 10188, t) \<and> allocated_words t = 0 \<and> minor_heap_size t = 32768 \<and> \<not> force_major_slice t"
    by (simp add: fl_allocate_def m allocate_block_def Let_def fl_access h Bosize_hd_def size_defs)
  then have "\<exists>t. alloc_shr quiet_fns 501 String_tag string_machine = Returns 10192 t \<and> \<not> force_major_slice t"
    by (auto simp: alloc_shr_def Max_wosize_def finish_shr_def Let_def Val_hp_def size_defs)
  then show "string_room quiet_fns 2000 string_machine" by (auto simp: string_room_def Max_young_wosize_def)
qed

theorem copy_string_reads_back_witness:
  "(\<exists>v t. copy_string quiet_fns ''hello'' string_machine = Returns v t \<and> load_bytes (mem t) v 0 5 = bytes_of ''hello'') \<and>
   (\<exists>v t. copy_string quiet_fns (replicate 2000 CHR ''a'') string_machine = Returns v t \<and> string_length (mem t) v = 2000)"
proof -
  have l: "length ''hello'' = 5" "length (replicate 2000 CHR ''a'') = 2000" by simp_all
  show ?thesis
    using copy_string_reads_back [of "''hello''" quiet_fns string_machine, unfolded l] string_machine_room
      copy_string_reads_back [of "replicate 2000 CHR ''a''" quiet_fns string_machine, unfolded l] by auto
qed

text \<open>
  C36.  Bounds of strings.  \<open>string_set\<close> and \<open>string_get\<close> raise \<open>Invalid_argument\<close> on an index outside the string; inside it,
  a read after a write gives the written byte at the written index and the old byte elsewhere, and
  the length does not change.
\<close>

theorem string_access:
  assumes al: "v AND 3 = 0" and sw: "string_words (unat (Wosize_val (mem s) v)) n"
    and len: "string_length (mem s) v = word_of_nat n" and i: "i < n" and j: "j < n"
  shows "(\<exists>t. string_set fns v (rep_int (int i)) (rep_int c) s = Returns Val_unit t \<and>
      string_length (mem t) v = word_of_nat n \<and>
      string_get fns v (rep_int (int j)) t =
        Returns (if j = i then rep_int (c mod 256) else Val_int (ucast (Byte_u (mem s) v (word_of_nat j)))) t) \<and>
    (\<forall>k. k < 0 \<or> int n \<le> k \<longrightarrow> in_long k \<longrightarrow>
      string_get fns v (rep_int k) s = invalid_argument fns ''String.get'' s \<and>
      string_set fns v (rep_int k) (rep_int c) s = invalid_argument fns ''String.set'' s)"
proof (intro conjI allI impI)
  let ?m = "mem s" and ?w = "Wosize_val (mem s) v"
  have w: "unat ?w \<le> 4194303" and n: "n < 4 * unat ?w" using sw by (auto simp: string_words_def)
  have small: "n < 4294967296" "int k < 2 ^ 30" if "k < n" for k using n w that by auto
  let ?t = "s\<lparr>mem := set_Byte_u v (word_of_nat i) (word_of_int c) ?m\<rparr>"
  have hd: "set_Byte_u v (word_of_nat i) (word_of_int c) ?m (v - 4) = ?m (v - 4)"
  proof (rule set_Byte_u_word)
    have "unat (word_of_nat i :: uint32) < 2 ^ 30" using i n w by (simp add: unat_word_of_nat_small)
    then show "v - 4 \<noteq> (v + word_of_nat i) AND NOT 3" unfolding aligned_byte_word [OF al] by (rule byte_not_header)
  qed
  have bos: "Bosize_val (mem ?t) v = Bosize_val ?m v" using hd by (simp add: Bosize_val_def Wosize_val_def Hd_val_def)
  have "unat (Bosize_val ?m v - 1) = 4 * unat ?w - 1"
    by (rule last_byte(1) [OF sw, of ?m v "?m (v - 4)"]) (simp_all add: Wosize_val_def Hd_val_def)
  then have ne: "Bosize_val ?m v - 1 \<noteq> word_of_nat i" using i n small(1) [OF i] by (auto simp: unat_word_of_nat_small)
  have len': "string_length (mem ?t) v = word_of_nat n"
    using len ne by (simp add: string_length_def Byte_def Let_def bos [simplified] Byte_u_set_other)
  have set: "string_set fns v (rep_int (int i)) (rep_int c) s = Returns Val_unit ?t"
    using index_word(1,2) [of "int i"] index_word(3) [of "int i" n] small [OF i] i len
    by (simp add: string_set_def Let_def ucast_rep_int)
  have get: "string_get fns v (rep_int (int j)) ?t = Returns (Val_int (ucast (Byte_u (mem ?t) v (word_of_nat j)))) ?t"
    using index_word(1,2) [of "int j"] index_word(3) [of "int j" n] small [OF j] j len' by (simp add: string_get_def Let_def)
  have "Byte_u (mem ?t) v (word_of_nat j) = (if j = i then word_of_int c else Byte_u ?m v (word_of_nat j))"
    using word_of_nat_inj32 [of j i] small(1) [OF i] i j by (auto simp: Byte_u_set_same Byte_u_set_other)
  then show "\<exists>t. string_set fns v (rep_int (int i)) (rep_int c) s = Returns Val_unit t \<and>
      string_length (mem t) v = word_of_nat n \<and>
      string_get fns v (rep_int (int j)) t =
        Returns (if j = i then rep_int (c mod 256) else Val_int (ucast (Byte_u ?m v (word_of_nat j)))) t"
    using set get len' by (intro exI [of _ ?t]) (simp add: byte_value)
  fix k assume k: "k < 0 \<or> int n \<le> k" "in_long k"
  have "slt (Long_val (rep_int k)) 0 \<or> string_length ?m v \<le> Long_val (rep_int k)"
    using k negative_index [of k] index_word(3) [of k n] small(1) [OF i] len
    by (cases "k < 0") (auto simp: in_long_def)
  then show "string_get fns v (rep_int k) s = invalid_argument fns ''String.get'' s"
    "string_set fns v (rep_int k) (rep_int c) s = invalid_argument fns ''String.set'' s"
    by (auto simp: string_get_def string_set_def Let_def)
qed

text \<open>A string of three characters at the address 8192.\<close>

theorem string_access_witness:
  "\<exists>t. string_set quiet_fns 8192 (rep_int 1) (rep_int 65) (boot_machine\<lparr>mem := (\<lambda>_. 0)(8188 := Make_header 1 252 0)\<rparr>) =
      Returns Val_unit t \<and> string_get quiet_fns 8192 (rep_int 1) t = Returns (rep_int 65) t"
proof -
  let ?s = "boot_machine\<lparr>mem := (\<lambda>_. 0)(8188 := Make_header 1 252 0)\<rparr>"
  have h: "Wosize_hd (Make_header 1 252 0) = 1"
    by (simp add: Make_header_fields header_ok_def Max_wosize_def color_defs)
  then have "Wosize_val (mem ?s) 8192 = 1" by (simp add: Wosize_val_def Hd_val_def)
  moreover from this have "string_length (mem ?s) 8192 = word_of_nat 3"
    by (simp add: string_length_def Byte_def Let_def Bosize_val_def Bsize_wsize_def Byte_u_def)
  ultimately show ?thesis
    using string_access [of 8192 ?s 3 1 1 quiet_fns 65] by (auto simp: string_words_def)
qed

end
