(* ===== verification/Int64_Emul.thy ===== *)
theory Int64_Emul
  imports Prelude
begin

text \<open>
  64-bit integers on a C compiler that has none (\<^verbatim>\<open>byterun/int64_emul.h\<close>): a pair of 32-bit words and
  the arithmetic on it.  \<open>w64\<close> reads such a pair as a 64-bit word, and the theorems say that every
  routine computes what the processor's operation would.  The locale \<open>int64_arith\<close> is the
  interface that \<^verbatim>\<open>int64_emul.h\<close> and \<^verbatim>\<open>int64_native.h\<close> both offer to \<^verbatim>\<open>ints.c\<close>
  and \<^verbatim>\<open>int64_format.h\<close>; it is interpreted on both.
\<close>

record int64 =
  i64_l :: uint32
  i64_h :: uint32

definition mk64 :: "uint32 \<Rightarrow> uint32 \<Rightarrow> int64" where
  "mk64 h l = \<lparr>i64_l = l, i64_h = h\<rparr>"

lemma mk64_sel [simp]: "i64_l (mk64 h l) = l" "i64_h (mk64 h l) = h"
  by (simp_all add: mk64_def)

lemma int64_eqI: "i64_l x = i64_l y \<Longrightarrow> i64_h x = i64_h y \<Longrightarrow> x = (y :: int64)"
  by simp

subsection \<open>The operations\<close>

definition I64_ucompare :: "int64 \<Rightarrow> int64 \<Rightarrow> int" where
  "I64_ucompare x y =
     (if i64_h x > i64_h y then 1 else if i64_h x < i64_h y then - 1
      else if i64_l x > i64_l y then 1 else if i64_l x < i64_l y then - 1 else 0)"

definition I64_compare :: "int64 \<Rightarrow> int64 \<Rightarrow> int" where
  "I64_compare x y =
     (if slt (i64_h y) (i64_h x) then 1 else if slt (i64_h x) (i64_h y) then - 1
      else if i64_l x > i64_l y then 1 else if i64_l x < i64_l y then - 1 else 0)"

definition I64_neg :: "int64 \<Rightarrow> int64" where
  "I64_neg x =
     (let l = - i64_l x; h = NOT (i64_h x)
      in if l = 0 then mk64 (h + 1) l else mk64 h l)"

definition I64_add :: "int64 \<Rightarrow> int64 \<Rightarrow> int64" where
  "I64_add x y =
     (let l = i64_l x + i64_l y; h = i64_h x + i64_h y
      in if l < i64_l x then mk64 (h + 1) l else mk64 h l)"

definition I64_sub :: "int64 \<Rightarrow> int64 \<Rightarrow> int64" where
  "I64_sub x y =
     (let l = i64_l x - i64_l y; h = i64_h x - i64_h y
      in if i64_l x < i64_l y then mk64 (h - 1) l else mk64 h l)"

definition I64_mul :: "int64 \<Rightarrow> int64 \<Rightarrow> int64" where
  "I64_mul x y =
     (let prod00 = (i64_l x AND 0xFFFF) * (i64_l y AND 0xFFFF);
          prod10 = drop_bit 16 (i64_l x) * (i64_l y AND 0xFFFF);
          prod01 = (i64_l x AND 0xFFFF) * drop_bit 16 (i64_l y);
          prod11 = drop_bit 16 (i64_l x) * drop_bit 16 (i64_l y);
          l = prod00;
          h = prod11 + drop_bit 16 prod01 + drop_bit 16 prod10;
          prod01 = push_bit 16 prod01;
          l = l + prod01;
          h = (if l < prod01 then h + 1 else h);
          prod10 = push_bit 16 prod10;
          l = l + prod10;
          h = (if l < prod10 then h + 1 else h);
          h = h + (i64_l x * i64_h y + i64_h x * i64_l y)
      in mk64 h l)"

definition I64_is_zero :: "int64 \<Rightarrow> bool" where
  "I64_is_zero x \<longleftrightarrow> (i64_l x OR i64_h x) = 0"

definition I64_is_negative :: "int64 \<Rightarrow> bool" where
  "I64_is_negative x \<longleftrightarrow> slt (i64_h x) 0"

definition I64_and :: "int64 \<Rightarrow> int64 \<Rightarrow> int64" where
  "I64_and x y = mk64 (i64_h x AND i64_h y) (i64_l x AND i64_l y)"

definition I64_or :: "int64 \<Rightarrow> int64 \<Rightarrow> int64" where
  "I64_or x y = mk64 (i64_h x OR i64_h y) (i64_l x OR i64_l y)"

definition I64_xor :: "int64 \<Rightarrow> int64 \<Rightarrow> int64" where
  "I64_xor x y = mk64 (i64_h x XOR i64_h y) (i64_l x XOR i64_l y)"

definition I64_lsl :: "int64 \<Rightarrow> uint32 \<Rightarrow> int64" where
  "I64_lsl x s =
     (let s = s AND 63
      in if s = 0 then x
         else if s < 32
         then mk64 (c_shl (i64_h x) s OR c_shr (i64_l x) (32 - s)) (c_shl (i64_l x) s)
         else mk64 (c_shl (i64_l x) (s - 32)) 0)"

definition I64_lsr :: "int64 \<Rightarrow> uint32 \<Rightarrow> int64" where
  "I64_lsr x s =
     (let s = s AND 63
      in if s = 0 then x
         else if s < 32
         then mk64 (c_shr (i64_h x) s) (c_shr (i64_l x) s OR c_shl (i64_h x) (32 - s))
         else mk64 0 (c_shr (i64_h x) (s - 32)))"

definition I64_asr :: "int64 \<Rightarrow> uint32 \<Rightarrow> int64" where
  "I64_asr x s =
     (let s = s AND 63
      in if s = 0 then x
         else if s < 32
         then mk64 (c_sar (i64_h x) s) (c_shr (i64_l x) s OR c_shl (i64_h x) (32 - s))
         else mk64 (c_sar (i64_h x) 31) (c_sar (i64_h x) (s - 32)))"

definition I64_SHL1 :: "int64 \<Rightarrow> int64" where
  "I64_SHL1 x = mk64 (push_bit 1 (i64_h x) OR drop_bit 31 (i64_l x)) (push_bit 1 (i64_l x))"

definition I64_SHR1 :: "int64 \<Rightarrow> int64" where
  "I64_SHR1 x = mk64 (drop_bit 1 (i64_h x)) (drop_bit 1 (i64_l x) OR push_bit 31 (i64_h x))"

definition I64_of_int32 :: "uint32 \<Rightarrow> int64" where
  "I64_of_int32 x = mk64 (c_sar x 31) x"

definition I64_to_int32 :: "int64 \<Rightarrow> uint32" where
  "I64_to_int32 x = i64_l x"

subsection \<open>Reading the pair as a 64-bit word\<close>

definition hi64 :: "uint32 \<Rightarrow> uint64" where
  "hi64 a = word_of_int (2 ^ 32 * uint a)"

definition lo64 :: "uint32 \<Rightarrow> uint64" where
  "lo64 a = word_of_int (uint a)"

definition w64 :: "int64 \<Rightarrow> uint64" where
  "w64 x = hi64 (i64_h x) + lo64 (i64_l x)"

lemma w64_word: "w64 x = word_of_int (2 ^ 32 * uint (i64_h x) + uint (i64_l x))"
  unfolding w64_def hi64_def lo64_def by (simp only: of_int_add)

lemma uint32_bounds: "0 \<le> uint (a :: uint32)" "uint (a :: uint32) < 2 ^ 32"
  using uint_lt2p [of a] by simp_all

lemma uint_w64: "uint (w64 x) = 2 ^ 32 * uint (i64_h x) + uint (i64_l x)"
  using uint32_bounds [of "i64_h x"] uint32_bounds [of "i64_l x"]
  by (simp add: w64_word uint_word_of_int del: of_int_add of_int_mult)

lemma hi64_cong: "(2 ^ 32 dvd i - j) \<Longrightarrow> word_of_int (2 ^ 32 * i) = (word_of_int (2 ^ 32 * j) :: uint64)"
proof (rule word_of_int_cong)
  assume "2 ^ 32 dvd i - j"
  then obtain k where "i - j = 2 ^ 32 * k" ..
  then have "2 ^ 32 * i - 2 ^ 32 * j = 2 ^ 64 * k" by (simp add: right_diff_distrib [symmetric])
  then show "(2 ^ 32 * i - 2 ^ 32 * j) mod 2 ^ LENGTH(64) = 0" by simp
qed

lemma mod_dvd_diff: "(k :: int) dvd i mod k - i"
  by (simp add: mod_eq_dvd_iff [symmetric])

lemma hi64_mod: "word_of_int (2 ^ 32 * (i mod 2 ^ 32)) = (word_of_int (2 ^ 32 * i) :: uint64)"
  by (rule hi64_cong) (rule mod_dvd_diff)

lemma hi64_of_uint:
  "uint (a + b :: uint32) = (uint a + uint b) mod 2 ^ 32" "uint (a - b :: uint32) = (uint a - uint b) mod 2 ^ 32"
  "uint (- a :: uint32) = (- uint a) mod 2 ^ 32" "uint (a * b :: uint32) = (uint a * uint b) mod 2 ^ 32"
  by (simp_all add: uint_word_ariths)

lemma hi64_ring:
  "hi64 (a + b) = hi64 a + hi64 b" "hi64 (a - b) = hi64 a - hi64 b" "hi64 (- a) = - hi64 a"
  "hi64 (a * b) = hi64 a * lo64 b"
  unfolding hi64_def lo64_def hi64_of_uint hi64_mod by (simp_all add: algebra_simps)

lemma hi64_consts: "hi64 0 = 0" "hi64 1 = 4294967296"
  by (simp_all add: hi64_def)

lemma lo64_add: "lo64 (a + b) = lo64 a + lo64 b - (if a + b < a then 4294967296 else 0)"
  using uint32_bounds [of a] uint32_bounds [of b]
  unfolding lo64_def word_less_def by (auto simp: uint_plus_if')

lemma lo64_sub: "lo64 (a - b) = lo64 a - lo64 b + (if a < b then 4294967296 else 0)"
  using uint32_bounds [of a] uint32_bounds [of b]
  unfolding lo64_def word_less_def by (auto simp: uint_sub_if')

lemma lo64_0: "lo64 0 = 0"
  by (simp add: lo64_def)

lemma lo64_neg: "lo64 (- a) = (if a = 0 then 0 else 4294967296 - lo64 a)"
  using lo64_sub [of 0 a] by (auto simp: lo64_0 word_gt_0)

lemma not_minus: "NOT a = - a - (1 :: uint32)"
  by (simp add: not_eq_complement)

subsection \<open>Addition, subtraction, multiplication\<close>

lemma w64_mk64: "w64 (mk64 h l) = hi64 h + lo64 l"
  by (simp add: w64_def)

lemma w64_add: "w64 (I64_add x y) = w64 x + w64 y"
  by (simp add: I64_add_def Let_def w64_mk64 w64_def hi64_ring hi64_consts lo64_add)

lemma w64_sub: "w64 (I64_sub x y) = w64 x - w64 y"
  by (simp add: I64_sub_def Let_def w64_mk64 w64_def hi64_ring hi64_consts lo64_sub)

lemma w64_neg: "w64 (I64_neg x) = - w64 x"
  by (simp add: I64_neg_def Let_def w64_mk64 w64_def hi64_ring hi64_consts lo64_neg lo64_0 not_minus)

lemma and_FFFF: "uint (a AND 0xFFFF :: uint32) = uint a mod 2 ^ 16"
proof -
  have "a AND 0xFFFF = take_bit 16 a" by (simp add: take_bit_eq_mask mask_numeral)
  then show ?thesis by (simp add: take_bit_eq_mod uint_mod)
qed

lemma uint_shr16: "uint (drop_bit 16 a :: uint32) = uint a div 2 ^ 16"
  by (simp add: drop_bit_eq_div uint_div)

lemma halves: "4294967296 * (u div 65536) + 65536 * (u mod 65536) = (65536 * u :: int)"
  using mult_div_mod_eq [of 65536 u] by linarith

text \<open>A 32-bit word times \<open>2 ^ 16\<close>, split at bit 32.\<close>

lemma lo64_shift16: "word_of_int (2 ^ 16 * uint p) = hi64 (drop_bit 16 p) + lo64 (push_bit 16 p)"
proof -
  have "uint (push_bit 16 p) = (2 ^ 16 * uint p) mod 2 ^ 32"
    by (simp add: push_bit_eq_mult uint_word_ariths mult.commute)
  also have "\<dots> = 2 ^ 16 * (uint p mod 2 ^ 16)" by (simp add: mult_mod_right)
  finally have "2 ^ 32 * uint (drop_bit 16 p) + uint (push_bit 16 p) = 2 ^ 16 * uint p"
    unfolding uint_shr16 using halves [of "uint p"] by simp
  then show ?thesis unfolding hi64_def lo64_def by (metis of_int_add)
qed

lemma small_mult16:
  assumes "uint a < 2 ^ 16" and "uint b < 2 ^ 16"
  shows "uint (a * b :: uint32) = uint a * uint b"
proof -
  have "uint a * uint b \<le> (2 ^ 16 - 1) * (2 ^ 16 - 1)"
    using assms by (intro mult_mono) auto
  then show ?thesis by (simp add: uint_word_ariths)
qed

text \<open>The low words multiplied, by halves.\<close>

lemma low_product:
  fixes a b :: uint32
  defines "a0 \<equiv> a AND 0xFFFF" and "a1 \<equiv> drop_bit 16 a" and "b0 \<equiv> b AND 0xFFFF" and "b1 \<equiv> drop_bit 16 b"
  shows "lo64 a * lo64 b =
    lo64 (a0 * b0) + word_of_int (2 ^ 16 * uint (a0 * b1)) + word_of_int (2 ^ 16 * uint (a1 * b0)) + hi64 (a1 * b1)"
proof -
  have half: "uint (c AND 0xFFFF) < 2 ^ 16" "uint (drop_bit 16 c) < 2 ^ 16" for c :: uint32
    using uint32_bounds [of c] by (simp_all add: and_FFFF uint_shr16)
  have split: "uint c = 2 ^ 16 * uint (drop_bit 16 c) + uint (c AND 0xFFFF)" for c :: uint32
    by (simp add: and_FFFF uint_shr16)
  have "uint a * uint b = uint (a0 * b0) + 2 ^ 16 * uint (a0 * b1) + 2 ^ 16 * uint (a1 * b0)
      + 2 ^ 32 * uint (a1 * b1)"
    unfolding a0_def a1_def b0_def b1_def small_mult16 [OF half(1) half(1)] small_mult16 [OF half(1) half(2)]
      small_mult16 [OF half(2) half(1)] small_mult16 [OF half(2) half(2)]
    by (subst split [of a], subst split [of b]) (simp add: algebra_simps)
  then have "lo64 a * lo64 b = word_of_int (uint (a0 * b0) + 2 ^ 16 * uint (a0 * b1) + 2 ^ 16 * uint (a1 * b0)
      + 2 ^ 32 * uint (a1 * b1))"
    unfolding lo64_def by (metis of_int_mult)
  then show ?thesis unfolding lo64_def hi64_def by (simp only: of_int_add)
qed

lemma hi64_mult_comm: "hi64 a * lo64 b = hi64 b * lo64 a"
  by (metis hi64_ring(4) mult.commute)

lemma hi64_hi64: "hi64 a * hi64 b = 0"
proof -
  have "hi64 a * hi64 b = word_of_int (2 ^ 64 * (uint a * uint b))"
    unfolding hi64_def by (simp flip: of_int_mult)
  also have "\<dots> = word_of_int 0" by (rule word_of_int_cong) simp
  finally show ?thesis by simp
qed

text \<open>Adding \<open>c\<close> to the low word, with the carry to the high one.\<close>

lemma w64_carry: "w64 (mk64 (if l + c < c then h + 1 else h) (l + c)) = hi64 h + lo64 l + lo64 c"
  using lo64_add [of c l] by (simp add: w64_mk64 hi64_ring hi64_consts add.commute)

lemma w64_mul: "w64 (I64_mul x y) = w64 x * w64 y"
proof -
  let ?xl = "i64_l x" and ?yl = "i64_l y" and ?xh = "i64_h x" and ?yh = "i64_h y"
  define p00 where "p00 = (?xl AND 0xFFFF) * (?yl AND 0xFFFF)"
  define p10 where "p10 = drop_bit 16 ?xl * (?yl AND 0xFFFF)"
  define p01 where "p01 = (?xl AND 0xFFFF) * drop_bit 16 ?yl"
  define p11 where "p11 = drop_bit 16 ?xl * drop_bit 16 ?yl"
  define h0 where "h0 = p11 + drop_bit 16 p01 + drop_bit 16 p10"
  define l1 where "l1 = p00 + push_bit 16 p01"
  define h1 where "h1 = (if l1 < push_bit 16 p01 then h0 + 1 else h0)"
  define l2 where "l2 = l1 + push_bit 16 p10"
  define h2 where "h2 = (if l2 < push_bit 16 p10 then h1 + 1 else h1)"
  have "w64 (I64_mul x y) = w64 (mk64 h2 l2) + hi64 (?xl * ?yh + ?xh * ?yl)"
    unfolding I64_mul_def Let_def
    by (simp only: p00_def [symmetric] p10_def [symmetric] p01_def [symmetric] p11_def [symmetric]
        h0_def [symmetric] l1_def [symmetric] h1_def [symmetric] l2_def [symmetric] h2_def [symmetric])
      (simp add: w64_mk64 hi64_ring)
  also have "w64 (mk64 h2 l2) = hi64 h0 + lo64 p00 + lo64 (push_bit 16 p01) + lo64 (push_bit 16 p10)"
    using w64_carry [of l1 "push_bit 16 p10" h1] w64_carry [of p00 "push_bit 16 p01" h0]
    by (simp add: h2_def l2_def h1_def l1_def w64_mk64)
  also have "\<dots> = lo64 ?xl * lo64 ?yl"
    unfolding low_product p00_def [symmetric] p10_def [symmetric] p01_def [symmetric] p11_def [symmetric]
      lo64_shift16 h0_def by (simp add: hi64_ring)
  also have "lo64 ?xl * lo64 ?yl + hi64 (?xl * ?yh + ?xh * ?yl) = w64 x * w64 y"
    by (simp add: w64_def hi64_ring hi64_hi64 hi64_mult_comm [of ?xl] algebra_simps)
  finally show ?thesis .
qed

subsection \<open>Bits\<close>

lemma bit_w64: "bit (w64 x) n \<longleftrightarrow> (if n < 32 then bit (i64_l x) n else bit (i64_h x) (n - 32))"
proof -
  have "w64 x = push_bit 32 (ucast (i64_h x)) OR ucast (i64_l x)"
  proof -
    have "w64 x = push_bit 32 (ucast (i64_h x)) + ucast (i64_l x)"
      by (simp add: w64_def hi64_def lo64_def push_bit_eq_mult mult.commute)
    also have "\<dots> = push_bit 32 (ucast (i64_h x)) OR ucast (i64_l x)"
      by (rule disjunctive_add_eq_or) (rule bit_word_eqI, auto simp: bit_simps dest: bit32_lt)
    finally show ?thesis .
  qed
  then show ?thesis by (auto simp: bit_simps dest: bit32_lt)
qed

lemma w64_bitwise:
  "w64 (I64_and x y) = w64 x AND w64 y" "w64 (I64_or x y) = w64 x OR w64 y"
  "w64 (I64_xor x y) = w64 x XOR w64 y"
  by (rule bit_word_eqI; simp add: bit_w64 I64_and_def I64_or_def I64_xor_def bit_simps)+

lemma bit_shl1: "bit (push_bit 1 (w :: 'a::len word)) n \<longleftrightarrow> 0 < n \<and> n < LENGTH('a) \<and> bit w (n - 1)"
  by (subst bit_push_bit_iff) (auto simp: bit_imp_le_length)

lemma w64_SHL1: "w64 (I64_SHL1 x) = push_bit 1 (w64 x)"
proof (rule bit_word_eqI)
  fix n assume "n < LENGTH(64)"
  then show "bit (w64 (I64_SHL1 x)) n = bit (push_bit 1 (w64 x)) n"
    unfolding bit_shl1 bit_w64 I64_SHL1_def mk64_sel bit_or_iff bit_drop_bit_eq o_def
    by (cases "n = 32") (auto simp: not_less dest: bit32_lt)
qed

lemma w64_SHR1: "w64 (I64_SHR1 x) = drop_bit 1 (w64 x)"
proof (rule bit_word_eqI)
  fix n assume "n < LENGTH(64)"
  moreover have "Suc (n - 32) = n - 31" if "32 \<le> n" using that by simp
  ultimately show "bit (w64 (I64_SHR1 x)) n = bit (drop_bit 1 (w64 x)) n"
    by (auto simp: bit_w64 I64_SHR1_def bit_simps not_less dest: bit32_lt)
qed

lemma shift_amount:
  fixes s :: uint32
  defines "k \<equiv> unat s mod 64"
  shows "s AND 63 = 0 \<longleftrightarrow> k = 0" and "s AND 63 < 32 \<longleftrightarrow> k < 32"
    and "k < 32 \<Longrightarrow> unat (32 - (s AND 63)) = 32 - k" and "\<not> k < 32 \<Longrightarrow> unat ((s AND 63) - 32) = k - 32"
    and "unat (s AND 63) = k"
proof -
  show k: "unat (s AND 63) = k" by (simp add: unat_and_63 k_def)
  show "s AND 63 = 0 \<longleftrightarrow> k = 0" by (metis k unat_0 unat_eq_zero)
  show lt: "s AND 63 < 32 \<longleftrightarrow> k < 32" by (simp add: word_less_nat_alt k)
  show "unat (32 - (s AND 63)) = 32 - k" if "k < 32"
    using that k by (subst unat_sub) (simp_all add: word_le_nat_alt)
  show "unat ((s AND 63) - 32) = k - 32" if "\<not> k < 32"
    using that k by (subst unat_sub) (simp_all add: word_le_nat_alt)
qed

lemma w64_lsl: "w64 (I64_lsl x s) = push_bit (unat s mod 64) (w64 x)"
proof (rule bit_word_eqI)
  fix n assume n: "n < LENGTH(64)"
  show "bit (w64 (I64_lsl x s)) n = bit (push_bit (unat s mod 64) (w64 x)) n"
  proof (cases "unat s mod 64 < 32")
    case True
    show ?thesis
    proof (cases "unat s mod 64 = 0")
      case False
      with n True show ?thesis
        unfolding I64_lsl_def Let_def shift_amount c_shl_def c_shr_def
        by (auto simp: shift_amount bit_w64 bit_simps not_less add.commute dest: bit32_lt)
    qed (simp add: I64_lsl_def shift_amount)
  next
    case False
    with n show ?thesis
      unfolding I64_lsl_def Let_def shift_amount c_shl_def c_shr_def
      by (auto simp: shift_amount bit_w64 bit_simps not_less add.commute dest: bit32_lt)
  qed
qed

lemma w64_lsr: "w64 (I64_lsr x s) = drop_bit (unat s mod 64) (w64 x)"
proof (rule bit_word_eqI)
  fix n assume n: "n < LENGTH(64)"
  show "bit (w64 (I64_lsr x s)) n = bit (drop_bit (unat s mod 64) (w64 x)) n"
  proof (cases "unat s mod 64 < 32")
    case True
    show ?thesis
    proof (cases "unat s mod 64 = 0")
      case False
      with n True show ?thesis
        unfolding I64_lsr_def Let_def shift_amount c_shl_def c_shr_def
        by (auto simp: shift_amount bit_w64 bit_simps not_less add.commute dest: bit32_lt)
    qed (simp add: I64_lsr_def shift_amount)
  next
    case False
    with n show ?thesis
      unfolding I64_lsr_def Let_def shift_amount c_shl_def c_shr_def
      by (auto simp: shift_amount bit_w64 bit_simps not_less add.commute dest: bit32_lt)
  qed
qed

lemma bit_sar32: "k < 32 \<Longrightarrow> n < 32 \<Longrightarrow> bit (signed_drop_bit k (a :: uint32)) n = bit a (min (k + n) 31)"
  by (subst bit_signed_drop_bit_iff) (auto simp: min_def)

lemma bit_sign32: "n < 32 \<Longrightarrow> bit (signed_drop_bit 31 (a :: uint32)) n = bit a 31"
  by (cases n) (simp_all add: bit_sar32 min_def)

lemma bit_sar64: "k < 64 \<Longrightarrow> n < 64 \<Longrightarrow> bit (signed_drop_bit k (a :: uint64)) n = bit a (min (k + n) 63)"
  by (subst bit_signed_drop_bit_iff) (auto simp: min_def)

lemma w64_asr: "w64 (I64_asr x s) = signed_drop_bit (unat s mod 64) (w64 x)"
proof (rule bit_word_eqI)
  fix n assume n: "n < LENGTH(64)"
  define k where "k = unat s mod 64"
  have k: "k < 64" by (simp add: k_def)
  have rhs: "bit (signed_drop_bit k (w64 x)) n =
      (if k + n < 32 then bit (i64_l x) (k + n) else bit (i64_h x) (min (k + n - 32) 31))"
    using n k by (auto simp: bit_sar64 bit_w64 min_def)
  note amount = shift_amount [of s, folded k_def]
  consider "k = 0" | "0 < k" "k < 32" | "32 \<le> k" by linarith
  then show "bit (w64 (I64_asr x s)) n = bit (signed_drop_bit (unat s mod 64) (w64 x)) n"
    unfolding k_def [symmetric] rhs
  proof cases
    case 1
    then show "bit (w64 (I64_asr x s)) n =
        (if k + n < 32 then bit (i64_l x) (k + n) else bit (i64_h x) (min (k + n - 32) 31))"
      using n by (auto simp: I64_asr_def amount bit_w64 min_def)
  next
    case 2
    then have "I64_asr x s = mk64 (signed_drop_bit k (i64_h x))
        (drop_bit k (i64_l x) OR push_bit (32 - k) (i64_h x))"
      by (simp add: I64_asr_def Let_def amount c_sar_def c_shl_def c_shr_def)
    then show "bit (w64 (I64_asr x s)) n =
        (if k + n < 32 then bit (i64_l x) (k + n) else bit (i64_h x) (min (k + n - 32) 31))"
      using n 2 by (auto simp: bit_w64 bit_or_iff bit_drop_bit_eq bit_push_bit_iff bit_sar32 min_def
          add.commute dest: bit32_lt)
  next
    case 3
    then have "I64_asr x s = mk64 (signed_drop_bit 31 (i64_h x)) (signed_drop_bit (k - 32) (i64_h x))"
      by (simp add: I64_asr_def Let_def amount c_sar_def)
    moreover have "bit (w64 (mk64 (signed_drop_bit 31 (i64_h x)) (signed_drop_bit (k - 32) (i64_h x)))) n =
        bit (i64_h x) (min (k + n - 32) 31)"
    proof (cases "n < 32")
      case True
      then show ?thesis using k 3 by (simp add: bit_w64 bit_sar32)
    next
      case False
      then show ?thesis using n 3 by (auto simp: bit_w64 bit_sign32 min_def)
    qed
    ultimately show "bit (w64 (I64_asr x s)) n =
        (if k + n < 32 then bit (i64_l x) (k + n) else bit (i64_h x) (min (k + n - 32) 31))"
      using 3 by simp
  qed
qed

subsection \<open>Comparisons and tests\<close>

lemma lex_less:
  fixes a b c d :: int
  assumes "0 \<le> b" "b < 4294967296" "0 \<le> d" "d < 4294967296"
  shows "4294967296 * a + b < 4294967296 * c + d \<longleftrightarrow> a < c \<or> (a = c \<and> b < d)"
  using assms by (cases a c rule: linorder_cases) auto

lemma w64_less: "w64 x < w64 y \<longleftrightarrow> i64_h x < i64_h y \<or> (i64_h x = i64_h y \<and> i64_l x < i64_l y)"
proof -
  have "w64 x < w64 y \<longleftrightarrow>
      2 ^ 32 * uint (i64_h x) + uint (i64_l x) < 2 ^ 32 * uint (i64_h y) + uint (i64_l y)"
    by (simp add: word_less_def uint_w64)
  also have "\<dots> \<longleftrightarrow> uint (i64_h x) < uint (i64_h y) \<or>
      (uint (i64_h x) = uint (i64_h y) \<and> uint (i64_l x) < uint (i64_l y))"
    using uint32_bounds [of "i64_l x"] uint32_bounds [of "i64_l y"] by (simp add: lex_less)
  finally show ?thesis by (simp add: word_less_def word_uint_eq_iff)
qed

lemma w64_inj: "w64 x = w64 y \<longleftrightarrow> x = y"
  by (metis less_irrefl w64_less int64_eqI linorder_less_linear)

definition cmp3 :: "'a::linorder \<Rightarrow> 'a \<Rightarrow> int" where
  "cmp3 a b = (if a > b then 1 else if a < b then - 1 else 0)"

lemma ucompare_w64: "I64_ucompare x y = cmp3 (w64 x) (w64 y)"
  by (auto simp: I64_ucompare_def cmp3_def w64_less)

lemma sint_w64: "sint (w64 x) = 2 ^ 32 * sint (i64_h x) + uint (i64_l x)"
  by (simp add: sint_as_uint uint_w64 bit_w64)

lemma sless_w64:
  "sint (w64 x) < sint (w64 y) \<longleftrightarrow>
     slt (i64_h x) (i64_h y) \<or> (i64_h x = i64_h y \<and> i64_l x < i64_l y)"
proof -
  have "sint (i64_h x) = sint (i64_h y) \<longleftrightarrow> i64_h x = i64_h y" by (metis word_of_int_sint_eq)
  then show ?thesis
    using uint32_bounds [of "i64_l x"] uint32_bounds [of "i64_l y"]
    by (simp add: sint_w64 slt_def word_less_def lex_less)
qed

lemma slt_antisym: "slt a b \<Longrightarrow> \<not> slt b a" and slt_total: "\<not> slt a b \<Longrightarrow> \<not> slt b a \<Longrightarrow> a = b"
  by (auto simp: slt_def) (metis word_of_int_sint_eq linorder_less_linear)

lemma slt_irrefl: "\<not> slt a a"
  by (simp add: slt_def)

lemma compare_w64: "I64_compare x y = cmp3 (sint (w64 x)) (sint (w64 y))"
  unfolding cmp3_def I64_compare_def sless_w64
  by (auto dest: slt_antisym slt_total simp: slt_irrefl)

lemma is_zero_w64: "I64_is_zero x \<longleftrightarrow> w64 x = 0"
proof -
  have "w64 x = 0 \<longleftrightarrow> w64 x = w64 (mk64 0 0)" by (simp add: w64_mk64 hi64_consts lo64_0)
  also have "\<dots> \<longleftrightarrow> i64_l x = 0 \<and> i64_h x = 0" by (auto simp: w64_inj mk64_def)
  also have "\<dots> \<longleftrightarrow> I64_is_zero x" by (simp add: I64_is_zero_def or_eq_0_iff)
  finally show ?thesis by simp
qed

lemma is_negative_w64: "I64_is_negative x \<longleftrightarrow> sint (w64 x) < 0"
  using uint32_bounds [of "i64_l x"] lex_less [of "uint (i64_l x)" 0 "sint (i64_h x)" 0]
  by (simp add: I64_is_negative_def slt_def sint_w64)

lemma of_int32_w64: "w64 (I64_of_int32 a) = scast a"
proof (rule bit_word_eqI)
  fix n assume n: "n < LENGTH(64)"
  then have "bit (scast a :: uint64) n = bit a (min 31 n)" by (simp add: bit_signed_iff)
  moreover have "min 31 n = (if n < 32 then n else 31)" by simp
  moreover have "bit (w64 (I64_of_int32 a)) n = bit a (if n < 32 then n else 31)"
    using n by (simp add: bit_w64 I64_of_int32_def c_sar_def bit_sign32)
  ultimately show "bit (w64 (I64_of_int32 a)) n = bit (scast a :: uint64) n" by simp
qed

lemma to_int32_w64: "I64_to_int32 x = ucast (w64 x)"
  by (rule bit_word_eqI) (simp add: I64_to_int32_def bit_ucast_iff bit_w64)

subsection \<open>Division\<close>

text \<open>
  The first loop of \<^verbatim>\<open>I64_udivmod\<close> moves the divisor and the mask up, the second one moves them down
  again and collects the quotient.  The first runs forever when the divisor is zero (and the
  dividend is not), so it has a bound.
\<close>

fun udivmod_up :: "nat \<Rightarrow> int64 \<Rightarrow> int64 \<Rightarrow> int64 \<Rightarrow> (int64 \<times> int64) option" where
  "udivmod_up fuel modulus divisor msk =
     (if sle 0 (i64_h divisor)
      then case fuel of
             0 \<Rightarrow> None
           | Suc n \<Rightarrow>
               (let c = I64_ucompare divisor modulus;
                    divisor = I64_SHL1 divisor; msk = I64_SHL1 msk
                in if 0 \<le> c then Some (divisor, msk) else udivmod_up n modulus divisor msk)
      else Some (divisor, msk))"

declare udivmod_up.simps [simp del]

lemma mask_nonzero: "(i64_l x OR i64_h x) \<noteq> 0 \<longleftrightarrow> w64 x \<noteq> 0"
  using is_zero_w64 [of x] by (simp add: I64_is_zero_def)

lemma unat_SHR1: "unat (w64 (I64_SHR1 x)) = unat (w64 x) div 2"
  unfolding w64_SHR1 by (simp add: unat_drop_bit)

function udivmod_down :: "int64 \<Rightarrow> int64 \<Rightarrow> int64 \<Rightarrow> int64 \<Rightarrow> int64 \<times> int64" where
  "udivmod_down modulus divisor quo msk =
     (if (i64_l msk OR i64_h msk) \<noteq> 0
      then let ge = 0 \<le> I64_ucompare modulus divisor;
               quo = (if ge then I64_or quo msk else quo);
               modulus = (if ge then I64_sub modulus divisor else modulus)
           in udivmod_down modulus (I64_SHR1 divisor) quo (I64_SHR1 msk)
      else (quo, modulus))"
  by auto
termination
  by (relation "measure (\<lambda>(m, d, q, k). unat (w64 k))")
    (auto simp: unat_SHR1 mask_nonzero unat_gt_0)

declare udivmod_down.simps [simp del]

definition I64_udivmod :: "int64 \<Rightarrow> int64 \<Rightarrow> (int64 \<times> int64) option" where
  "I64_udivmod modulus divisor =
     (case udivmod_up 64 modulus divisor (mk64 0 1) of
        None \<Rightarrow> None
      | Some (divisor, msk) \<Rightarrow> Some (udivmod_down modulus divisor (mk64 0 0) msk))"

definition I64_div :: "int64 \<Rightarrow> int64 \<Rightarrow> int64 option" where
  "I64_div x y =
     (let sign = i64_h x XOR i64_h y;
          x = (if slt (i64_h x) 0 then I64_neg x else x);
          y = (if slt (i64_h y) 0 then I64_neg y else y)
      in case I64_udivmod x y of
           None \<Rightarrow> None
         | Some (q, r) \<Rightarrow> Some (if slt sign 0 then I64_neg q else q))"

definition I64_mod :: "int64 \<Rightarrow> int64 \<Rightarrow> int64 option" where
  "I64_mod x y =
     (let sign = i64_h x;
          x = (if slt (i64_h x) 0 then I64_neg x else x);
          y = (if slt (i64_h y) 0 then I64_neg y else y)
      in case I64_udivmod x y of
           None \<Rightarrow> None
         | Some (q, r) \<Rightarrow> Some (if slt sign 0 then I64_neg r else r))"

lemma unat_SHL1: "unat (w64 x) < 2 ^ 63 \<Longrightarrow> unat (w64 (I64_SHL1 x)) = 2 * unat (w64 x)"
  unfolding w64_SHL1 by (simp add: push_bit_eq_mult unat_word_ariths)

lemma sint_uint_cases:
  fixes w :: uint64
  obtains (nonneg) "sint w = uint w" "0 \<le> sint w" "uint w < 2 ^ 63"
  | (neg) "sint w = uint w - 2 ^ 64" "sint w < 0" "2 ^ 63 \<le> uint w"
proof -
  have "sint w = uint w \<or> sint w = uint w - 2 ^ 64" using sint_as_uint [of w] by auto
  moreover have "- (2 ^ 63) \<le> sint w" "sint w < 2 ^ 63"
    using sint_greater_eq [of w] sint_less [of w] by simp_all
  moreover have "0 \<le> uint w" "uint w < 2 ^ 64" using uint_lt2p [of w] by simp_all
  ultimately show thesis using that by (elim disjE) auto
qed

lemma top_bit_clear: "sle 0 (i64_h x) \<longleftrightarrow> unat (w64 x) < 2 ^ 63"
proof -
  have sign: "sle 0 (i64_h x) \<longleftrightarrow> 0 \<le> sint (w64 x)"
    using is_negative_w64 [of x] by (auto simp: I64_is_negative_def slt_def sle_def)
  have nat: "unat (w64 x) < 2 ^ 63 \<longleftrightarrow> uint (w64 x) < 2 ^ 63"
    using nat_less_iff [of "uint (w64 x)" "2 ^ 63"] by simp
  show ?thesis
    unfolding sign nat
  proof (cases rule: sint_uint_cases [of "w64 x"])
    case nonneg
    from nonneg(2,3) show "(0 \<le> sint (w64 x)) = (uint (w64 x) < 2 ^ 63)" by (simp only:)
  next
    case neg
    from neg(2,3) show "(0 \<le> sint (w64 x)) = (uint (w64 x) < 2 ^ 63)" by (simp only: not_le [symmetric] not_True_eq_False)
  qed
qed

lemma ucompare_ge: "0 \<le> I64_ucompare x y \<longleftrightarrow> unat (w64 y) \<le> unat (w64 x)"
  by (auto simp: ucompare_w64 cmp3_def word_less_nat_alt)

lemma unat_w64_lt: "unat (w64 x) < 18446744073709551616"
  using unsigned_less [of "w64 x"] by simp

lemma udivmod_up_correct:
  assumes "unat (w64 d) = D * 2 ^ k" and "unat (w64 m) = 2 ^ k" and "0 < D" and "64 \<le> fuel + k"
  shows "\<exists>d' m' k'. udivmod_up fuel n d m = Some (d', m') \<and> unat (w64 d') = D * 2 ^ k' \<and>
    unat (w64 m') = 2 ^ k' \<and> unat (w64 n) < D * 2 ^ Suc k'"
  using assms
proof (induction fuel arbitrary: d m k)
  case 0
  have "(2 :: nat) ^ 64 \<le> 2 ^ k" using 0(4) by (intro power_increasing) auto
  also have "\<dots> \<le> unat (w64 d)" using 0(1,3) by simp
  finally show ?case using unat_w64_lt [of d] by simp
next
  case (Suc fuel)
  show ?case
  proof (cases "sle 0 (i64_h d)")
    case True
    then have "unat (w64 d) < 2 ^ 63" by (simp add: top_bit_clear)
    then have d: "unat (w64 (I64_SHL1 d)) = D * 2 ^ Suc k" using Suc.prems(1) by (simp add: unat_SHL1)
    have "2 ^ k \<le> unat (w64 d)" using Suc.prems(1,3) by simp
    then have m: "unat (w64 (I64_SHL1 m)) = 2 ^ Suc k"
      using Suc.prems(2) \<open>unat (w64 d) < 2 ^ 63\<close> by (simp add: unat_SHL1)
    show ?thesis
    proof (cases "0 \<le> I64_ucompare d n")
      case ge: True
      then have "unat (w64 n) \<le> D * 2 ^ k" using Suc.prems(1) by (simp add: ucompare_ge)
      also have "\<dots> < D * 2 ^ Suc (Suc k)" using Suc.prems(3) by simp
      finally show ?thesis using True ge d m
        by (intro exI [of _ "I64_SHL1 d"] exI [of _ "I64_SHL1 m"] exI [of _ "Suc k"])
          (simp add: udivmod_up.simps [of "Suc fuel"] Let_def)
    next
      case False
      then show ?thesis
        using Suc.IH [OF d m] Suc.prems True by (simp add: udivmod_up.simps [of "Suc fuel"] Let_def)
    qed
  next
    case False
    then have "2 ^ 63 \<le> D * 2 ^ k" using Suc.prems(1) by (simp add: top_bit_clear not_less)
    then have "unat (w64 n) < D * 2 ^ Suc k" using unat_w64_lt [of n] by simp
    with False Suc.prems show ?thesis by (subst udivmod_up.simps) auto
  qed
qed

lemma unat_or_power:
  assumes "unat (w64 m) = 2 ^ j" and "2 ^ Suc j dvd unat (w64 q)"
  shows "unat (w64 (I64_or q m)) = unat (w64 q) + 2 ^ j"
proof -
  from assms(2) obtain c where c: "unat (w64 q) = 2 ^ Suc j * c" ..
  then have "unat (w64 q) = push_bit (Suc j) c" by (simp add: push_bit_eq_mult mult.commute)
  then have "\<not> bit (unat (w64 q)) j" by (simp add: bit_push_bit_iff bit_0)
  then have "unat (w64 q) AND 2 ^ j = 0"
    by (intro bit_eqI) (auto simp: bit_and_iff bit_exp_iff)
  then show ?thesis
    by (simp add: w64_bitwise unsigned_or_eq assms(1) disjunctive_add_eq_or)
qed

lemma unat_sub_ge: "unat (w64 d) \<le> unat (w64 m) \<Longrightarrow> unat (w64 (I64_sub m d)) = unat (w64 m) - unat (w64 d)"
  unfolding w64_sub by (rule unat_sub) (simp add: word_le_nat_alt)

lemma udivmod_down_zero: "w64 k = 0 \<Longrightarrow> udivmod_down m d q k = (q, m)"
  using mask_nonzero [of k] by (subst udivmod_down.simps) simp

lemma udivmod_down_step:
  assumes "unat (w64 k) = 2 ^ j" and "unat (w64 d) = D * 2 ^ j" and "2 ^ Suc j dvd unat (w64 q)"
    and "unat (w64 q) * D + unat (w64 m) = N" and "unat (w64 m) < D * 2 ^ Suc j"
  shows "\<exists>q1 m1. udivmod_down m d q k = udivmod_down m1 (I64_SHR1 d) q1 (I64_SHR1 k) \<and>
    2 ^ j dvd unat (w64 q1) \<and> unat (w64 q1) * D + unat (w64 m1) = N \<and> unat (w64 m1) < D * 2 ^ j"
proof -
  have k: "(i64_l k OR i64_h k) \<noteq> 0" unfolding mask_nonzero using assms(1) by auto
  have dvd: "2 ^ j dvd unat (w64 q)" using assms(3) by (rule dvd_trans [rotated]) simp
  show ?thesis
  proof (cases "0 \<le> I64_ucompare m d")
    case True
    then have ge: "unat (w64 d) \<le> unat (w64 m)" by (simp add: ucompare_ge)
    have q1: "unat (w64 (I64_or q k)) = unat (w64 q) + 2 ^ j" by (rule unat_or_power [OF assms(1,3)])
    have m1: "unat (w64 (I64_sub m d)) = unat (w64 m) - D * 2 ^ j"
      using unat_sub_ge [OF ge] assms(2) by simp
    have "unat (w64 (I64_or q k)) * D + unat (w64 (I64_sub m d)) = N"
      using assms(2,4) ge by (simp add: q1 m1 algebra_simps)
    moreover have "unat (w64 (I64_sub m d)) < D * 2 ^ j" using assms(5) ge assms(2) by (simp add: m1)
    moreover have "2 ^ j dvd unat (w64 (I64_or q k))" using dvd by (simp add: q1)
    moreover have "udivmod_down m d q k = udivmod_down (I64_sub m d) (I64_SHR1 d) (I64_or q k) (I64_SHR1 k)"
      using k True by (subst udivmod_down.simps) (simp add: Let_def)
    ultimately show ?thesis by blast
  next
    case False
    then have "unat (w64 m) < D * 2 ^ j" using assms(2) by (simp add: ucompare_ge not_le)
    moreover have "udivmod_down m d q k = udivmod_down m (I64_SHR1 d) q (I64_SHR1 k)"
      using k False by (subst udivmod_down.simps) (simp add: Let_def)
    ultimately show ?thesis using assms(4) dvd by blast
  qed
qed

lemma udivmod_down_correct:
  assumes "unat (w64 k) = 2 ^ j" and "unat (w64 d) = D * 2 ^ j" and "2 ^ Suc j dvd unat (w64 q)"
    and "unat (w64 q) * D + unat (w64 m) = N" and "unat (w64 m) < D * 2 ^ Suc j"
  shows "\<exists>q' m'. udivmod_down m d q k = (q', m') \<and> unat (w64 q') * D + unat (w64 m') = N \<and> unat (w64 m') < D"
  using assms
proof (induction j arbitrary: m d q k)
  case 0
  have "unat (w64 (I64_SHR1 k)) = 0" using 0(1) by (simp add: unat_SHR1)
  then have "w64 (I64_SHR1 k) = 0" by (simp add: unat_eq_zero)
  then show ?case using udivmod_down_step [OF 0] by (auto simp: udivmod_down_zero)
next
  case (Suc j)
  from udivmod_down_step [OF Suc.prems] obtain q1 m1 where
    step: "udivmod_down m d q k = udivmod_down m1 (I64_SHR1 d) q1 (I64_SHR1 k)" and
    inv: "2 ^ Suc j dvd unat (w64 q1)" "unat (w64 q1) * D + unat (w64 m1) = N"
      "unat (w64 m1) < D * 2 ^ Suc j" by blast
  have "unat (w64 (I64_SHR1 k)) = 2 ^ j" "unat (w64 (I64_SHR1 d)) = D * 2 ^ j"
    using Suc.prems(1,2) by (simp_all add: unat_SHR1)
  from Suc.IH [OF this inv] show ?case by (simp add: step)
qed

lemma unat_mk64_01: "unat (w64 (mk64 0 0)) = 0" "unat (w64 (mk64 0 1)) = 1"
  by (simp_all add: w64_mk64 hi64_consts lo64_def)

lemma udivmod_w64:
  assumes "w64 y \<noteq> 0"
  obtains q r where "I64_udivmod x y = Some (q, r)" "w64 q = w64 x div w64 y" "w64 r = w64 x mod w64 y"
proof -
  let ?D = "unat (w64 y)" and ?N = "unat (w64 x)"
  have D: "0 < ?D" using assms by (simp add: unat_gt_0)
  obtain d m k where up: "udivmod_up 64 x y (mk64 0 1) = Some (d, m)" "unat (w64 d) = ?D * 2 ^ k"
    "unat (w64 m) = 2 ^ k" "?N < ?D * 2 ^ Suc k"
    using udivmod_up_correct [of y ?D 0 "mk64 0 1" 64 x] D by (auto simp: unat_mk64_01)
  obtain q r where down: "udivmod_down x d (mk64 0 0) m = (q, r)" "unat (w64 q) * ?D + unat (w64 r) = ?N"
    "unat (w64 r) < ?D"
    using udivmod_down_correct [OF up(3,2), of "mk64 0 0" x ?N] up(4) by (auto simp: unat_mk64_01)
  have "unat (w64 q) = ?N div ?D" "unat (w64 r) = ?N mod ?D"
    using down(2,3) by (metis div_mult_self3 D div_less add_0_right less_not_refl2 mult.commute,
      metis mod_mult_self3 mod_less)
  then have "w64 q = w64 x div w64 y" "w64 r = w64 x mod w64 y"
    by (simp_all add: word_unat_eq_iff unat_div unat_mod)
  then show thesis using that up(1) down(1) by (simp add: I64_udivmod_def)
qed

subsection \<open>Signed division\<close>

definition abs64 :: "int64 \<Rightarrow> int64" where
  "abs64 x = (if slt (i64_h x) 0 then I64_neg x else x)"

lemma negative_h: "slt (i64_h x) 0 \<longleftrightarrow> sint (w64 x) < 0"
  using is_negative_w64 [of x] by (simp add: I64_is_negative_def)

lemma uint_abs64: "uint (w64 (abs64 x)) = \<bar>sint (w64 x)\<bar>"
proof (cases rule: sint_uint_cases [of "w64 x"])
  case nonneg
  then show ?thesis by (simp add: abs64_def negative_h)
next
  case neg
  then have "uint (- w64 x) = 2 ^ 64 - uint (w64 x)"
    using uint_lt2p [of "w64 x"] by (simp add: uint_word_ariths zmod_zminus1_eq_if)
  with neg show ?thesis by (simp add: abs64_def negative_h w64_neg)
qed

lemma sign_xor: "slt (i64_h x XOR i64_h y) 0 \<longleftrightarrow> (sint (w64 x) < 0) \<noteq> (sint (w64 y) < 0)"
proof -
  have "slt a 0 \<longleftrightarrow> bit a 31" for a :: uint32
    using sint_as_uint [of a] uint32_bounds [of a] by (auto simp: slt_def split: if_splits)
  then show ?thesis by (simp add: bit_xor_iff flip: negative_h)
qed

lemma abs64_zero: "w64 y \<noteq> 0 \<Longrightarrow> w64 (abs64 y) \<noteq> 0"
  by (simp add: abs64_def w64_neg)

lemma smod_sgn: "a smod b = sgn a * (\<bar>a\<bar> mod \<bar>b\<bar>)" for a b :: int
  unfolding signed_modulo_int_def signed_divide_int_def minus_mult_div_eq_mod [symmetric]
  by (auto simp: sgn_if abs_if algebra_simps)

lemma div_w64:
  assumes "w64 y \<noteq> 0"
  shows "\<exists>q. I64_div x y = Some q \<and> w64 q = word_of_int (sint (w64 x) sdiv sint (w64 y))"
    and "\<exists>r. I64_mod x y = Some r \<and> w64 r = word_of_int (sint (w64 x) smod sint (w64 y))"
proof -
  let ?a = "sint (w64 x)" and ?b = "sint (w64 y)"
  obtain q r where qr: "I64_udivmod (abs64 x) (abs64 y) = Some (q, r)"
    "w64 q = w64 (abs64 x) div w64 (abs64 y)" "w64 r = w64 (abs64 x) mod w64 (abs64 y)"
    using udivmod_w64 [OF abs64_zero [OF assms], of "abs64 x"] .
  have q: "w64 q = word_of_int (\<bar>?a\<bar> div \<bar>?b\<bar>)" and r: "w64 r = word_of_int (\<bar>?a\<bar> mod \<bar>?b\<bar>)"
    using qr(2,3) uint_abs64 [of x] uint_abs64 [of y]
    by (metis uint_div word_of_int_uint, metis uint_mod word_of_int_uint)
  have b: "?b \<noteq> 0" using assms by (metis word_of_int_sint_eq of_int_0)
  have sdiv: "?a sdiv ?b = (if (?a < 0) \<noteq> (?b < 0) then - (\<bar>?a\<bar> div \<bar>?b\<bar>) else \<bar>?a\<bar> div \<bar>?b\<bar>)"
    using b by (auto simp: signed_divide_int_def sgn_if)
  have "I64_div x y = Some (if (?a < 0) \<noteq> (?b < 0) then I64_neg q else q)"
    unfolding I64_div_def Let_def abs64_def [symmetric] qr(1) by (simp add: sign_xor)
  moreover have "w64 (if (?a < 0) \<noteq> (?b < 0) then I64_neg q else q) = word_of_int (?a sdiv ?b)"
    unfolding sdiv by (simp add: w64_neg q)
  ultimately show "\<exists>q. I64_div x y = Some q \<and> w64 q = word_of_int (?a sdiv ?b)" by blast
  have "I64_mod x y = Some (if ?a < 0 then I64_neg r else r)"
    unfolding I64_mod_def Let_def abs64_def [symmetric] qr(1) by (simp add: negative_h)
  moreover have "w64 (if ?a < 0 then I64_neg r else r) = word_of_int (?a smod ?b)"
    by (auto simp: smod_sgn sgn_if w64_neg r)
  ultimately show "\<exists>r. I64_mod x y = Some r \<and> w64 r = word_of_int (?a smod ?b)" by blast
qed

subsection \<open>The native operations\<close>

text \<open>\<^verbatim>\<open>int64_native.h\<close>: the same operations where the C compiler has the type.\<close>

definition N64_compare :: "uint64 \<Rightarrow> uint64 \<Rightarrow> int" where
  "N64_compare x y = (if x = y then 0 else if sint x < sint y then - 1 else 1)"
definition N64_neg :: "uint64 \<Rightarrow> uint64" where "N64_neg x = - x"
definition N64_add :: "uint64 \<Rightarrow> uint64 \<Rightarrow> uint64" where "N64_add x y = x + y"
definition N64_sub :: "uint64 \<Rightarrow> uint64 \<Rightarrow> uint64" where "N64_sub x y = x - y"
definition N64_mul :: "uint64 \<Rightarrow> uint64 \<Rightarrow> uint64" where "N64_mul x y = x * y"
definition N64_is_zero :: "uint64 \<Rightarrow> bool" where "N64_is_zero x \<longleftrightarrow> x = 0"
definition N64_is_negative :: "uint64 \<Rightarrow> bool" where "N64_is_negative x \<longleftrightarrow> sint x < 0"
definition N64_of_int32 :: "uint32 \<Rightarrow> uint64" where "N64_of_int32 x = scast x"
definition N64_to_int32 :: "uint64 \<Rightarrow> uint32" where "N64_to_int32 x = ucast x"

text \<open>A division by zero is undefined in C.\<close>

definition N64_udivmod :: "uint64 \<Rightarrow> uint64 \<Rightarrow> (uint64 \<times> uint64) option" where
  "N64_udivmod x y = (if y = 0 then None else Some (x div y, x mod y))"

lemmas N64_defs = N64_compare_def N64_neg_def N64_add_def N64_sub_def N64_mul_def N64_is_zero_def
  N64_is_negative_def N64_of_int32_def N64_to_int32_def N64_udivmod_def

subsection \<open>The interface\<close>

text \<open>
  What \<^verbatim>\<open>ints.c\<close> and \<^verbatim>\<open>int64_format.h\<close> rely on: a type of integers with a reading \<open>v64\<close> as a 64-bit word
  that the operations respect.
\<close>

locale int64_arith =
  fixes v64 :: "'a \<Rightarrow> uint64"
    and neg :: "'a \<Rightarrow> 'a"
    and add :: "'a \<Rightarrow> 'a \<Rightarrow> 'a"
    and sub :: "'a \<Rightarrow> 'a \<Rightarrow> 'a"
    and mul :: "'a \<Rightarrow> 'a \<Rightarrow> 'a"
    and compare :: "'a \<Rightarrow> 'a \<Rightarrow> int"
    and is_zero :: "'a \<Rightarrow> bool"
    and is_negative :: "'a \<Rightarrow> bool"
    and of_int32 :: "uint32 \<Rightarrow> 'a"
    and to_int32 :: "'a \<Rightarrow> uint32"
    and udivmod :: "'a \<Rightarrow> 'a \<Rightarrow> ('a \<times> 'a) option"
  assumes v64_inj: "v64 x = v64 y \<Longrightarrow> x = y"
    and v64_neg: "v64 (neg x) = - v64 x"
    and v64_add: "v64 (add x y) = v64 x + v64 y"
    and v64_sub: "v64 (sub x y) = v64 x - v64 y"
    and v64_mul: "v64 (mul x y) = v64 x * v64 y"
    and v64_compare: "compare x y = cmp3 (sint (v64 x)) (sint (v64 y))"
    and v64_is_zero: "is_zero x \<longleftrightarrow> v64 x = 0"
    and v64_is_negative: "is_negative x \<longleftrightarrow> sint (v64 x) < 0"
    and v64_of_int32: "v64 (of_int32 a) = scast a"
    and v64_to_int32: "to_int32 x = ucast (v64 x)"
    and v64_udivmod: "v64 y \<noteq> 0 \<Longrightarrow>
      \<exists>q r. udivmod x y = Some (q, r) \<and> v64 q = v64 x div v64 y \<and> v64 r = v64 x mod v64 y"
begin

lemma udivmod_pos:
  assumes "v64 y \<noteq> 0"
  obtains q r where "udivmod x y = Some (q, r)" "unat (v64 q) = unat (v64 x) div unat (v64 y)"
    "unat (v64 r) = unat (v64 x) mod unat (v64 y)"
  using v64_udivmod [OF assms, of x] that by (auto simp: unat_div unat_mod)

lemma neg_neg: "neg (neg x) = x"
  by (rule v64_inj) (simp add: v64_neg)

lemma add_comm: "add x y = add y x"
  by (rule v64_inj) (simp add: v64_add add.commute)

lemma sub_neg: "sub x y = add x (neg y)"
  by (rule v64_inj) (simp add: v64_sub v64_add v64_neg)

lemma compare_zero: "compare x y = 0 \<longleftrightarrow> x = y"
proof
  assume "compare x y = 0"
  then have "sint (v64 x) = sint (v64 y)" by (auto simp: v64_compare cmp3_def split: if_splits)
  then show "x = y" by (metis v64_inj word_of_int_sint_eq)
qed (simp add: v64_compare cmp3_def)

end

interpretation emul: int64_arith w64 I64_neg I64_add I64_sub I64_mul I64_compare I64_is_zero
  I64_is_negative I64_of_int32 I64_to_int32 I64_udivmod
proof unfold_locales
  fix x y :: int64
  assume "w64 y \<noteq> 0"
  then show "\<exists>q r. I64_udivmod x y = Some (q, r) \<and> w64 q = w64 x div w64 y \<and> w64 r = w64 x mod w64 y"
    using udivmod_w64 [of y x] by blast
qed (simp_all add: w64_inj w64_neg w64_add w64_sub w64_mul compare_w64 is_zero_w64 is_negative_w64
    of_int32_w64 to_int32_w64)

interpretation native: int64_arith "\<lambda>x. x" N64_neg N64_add N64_sub N64_mul N64_compare N64_is_zero
  N64_is_negative N64_of_int32 N64_to_int32 N64_udivmod
  by unfold_locales (auto simp: N64_defs cmp3_def, metis word_of_int_sint_eq)

subsection \<open>The properties\<close>

text \<open>
  C37.  The emulated operations are the 64-bit ones: negation, addition, subtraction and multiplication wrap
  around modulo \<open>2 ^ 64\<close>, the bitwise operations and the three shifts (with the shift count taken
  modulo 64) work on the 64 bits, and the comparisons are the signed and unsigned orders.
\<close>

theorem int64_emulation:
  "w64 (I64_neg x) = - w64 x \<and> w64 (I64_add x y) = w64 x + w64 y \<and> w64 (I64_sub x y) = w64 x - w64 y \<and>
   w64 (I64_mul x y) = w64 x * w64 y \<and>
   w64 (I64_and x y) = w64 x AND w64 y \<and> w64 (I64_or x y) = w64 x OR w64 y \<and>
   w64 (I64_xor x y) = w64 x XOR w64 y \<and>
   w64 (I64_lsl x s) = push_bit (unat s mod 64) (w64 x) \<and>
   w64 (I64_lsr x s) = drop_bit (unat s mod 64) (w64 x) \<and>
   w64 (I64_asr x s) = signed_drop_bit (unat s mod 64) (w64 x) \<and>
   I64_compare x y = cmp3 (sint (w64 x)) (sint (w64 y)) \<and> I64_ucompare x y = cmp3 (w64 x) (w64 y) \<and>
   (w64 x = w64 y) = (x = y)"
  by (simp add: w64_neg w64_add w64_sub w64_mul w64_bitwise w64_lsl w64_lsr w64_asr compare_w64
      ucompare_w64 w64_inj)

text \<open>
  C38.  Division by a non-zero divisor ends; the unsigned one gives the quotient and remainder of the
  unsigned readings, the signed ones the quotient rounded towards zero and the remainder with the sign of the
  dividend (the quotient of the least number by \<open>-1\<close> wraps around).
\<close>

theorem int64_division:
  assumes "w64 y \<noteq> 0"
  shows "(\<exists>q r. I64_udivmod x y = Some (q, r) \<and> w64 q = w64 x div w64 y \<and> w64 r = w64 x mod w64 y) \<and>
    (\<exists>q. I64_div x y = Some q \<and> w64 q = word_of_int (sint (w64 x) sdiv sint (w64 y))) \<and>
    (\<exists>r. I64_mod x y = Some r \<and> w64 r = word_of_int (sint (w64 x) smod sint (w64 y)))"
  using udivmod_w64 [OF assms, of x] div_w64 [OF assms, of x] by blast

theorem int64_division_witness:
  "\<exists>q. I64_div (mk64 0 7) (mk64 (- 1) (- 2)) = Some q \<and>
     w64 q = word_of_int (sint (w64 (mk64 0 7)) sdiv sint (w64 (mk64 (- 1) (- 2))))"
proof -
  have "w64 (mk64 (- 1) (- 2)) \<noteq> 0" using is_zero_w64 [of "mk64 (- 1) (- 2)"] by (simp add: I64_is_zero_def)
  from int64_division [OF this, of "mk64 0 7"] show ?thesis by blast
qed

end
