(* ===== verification/Int64_Format.thy ===== *)
theory Int64_Format
  imports Int64_Emul
begin

text \<open>
  Printing 64-bit integers (\<^verbatim>\<open>byterun/int64_format.h\<close>) and reading numerals
  (\<^verbatim>\<open>parse_sign_and_base\<close>, \<^verbatim>\<open>parse_digit\<close>, \<^verbatim>\<open>parse_long\<close> and the loop of \<^verbatim>\<open>int64_of_string\<close> of
  \<^verbatim>\<open>byterun/ints.c\<close>).  The routines take the 64-bit operations as arguments, as the C code
  gets them from one of two headers; the lemmas about them are proved in the locale
  \<open>int64_arith\<close>.  C strings are character lists without the final zero byte.
\<close>

subsection \<open>Digits\<close>

definition is_digit :: "char \<Rightarrow> bool" where
  "is_digit c \<longleftrightarrow> c \<in> set ''0123456789''"

definition digit_val :: "char \<Rightarrow> nat" where
  "digit_val c = of_char c - 48"

text \<open>\<^verbatim>\<open>atoi\<close> on a string that starts with a digit.\<close>

definition atoi :: "string \<Rightarrow> nat" where
  "atoi s = fold (\<lambda>c n. 10 * n + digit_val c) (takeWhile is_digit s) 0"

definition conv_lower :: string where "conv_lower = ''0123456789abcdef''"
definition conv_upper :: string where "conv_upper = ''0123456789ABCDEF''"

subsection \<open>Formatting\<close>

record format =
  justify :: char
  signstyle :: char
  filler :: char
  alternate :: bool
  base :: nat
  signedconv :: bool
  width :: nat
  cvtbl :: string

definition format0 :: format where
  "format0 = \<lparr>justify = CHR ''+'', signstyle = CHR ''-'', filler = CHR '' '', alternate = False,
     base = 0, signedconv = False, width = 0, cvtbl = conv_lower\<rparr>"

text \<open>The cases of the \<^verbatim>\<open>switch\<close> that look at one character.\<close>

definition fmt_char :: "char \<Rightarrow> format \<Rightarrow> format" where
  "fmt_char c f =
     (if c = CHR ''-'' then f\<lparr>justify := CHR ''-''\<rparr>
      else if c = CHR ''+'' \<or> c = CHR '' '' then f\<lparr>signstyle := c\<rparr>
      else if c = CHR ''0'' then f\<lparr>filler := CHR ''0''\<rparr>
      else if c = CHR ''#'' then f\<lparr>alternate := True\<rparr>
      else if c = CHR ''d'' \<or> c = CHR ''i'' then f\<lparr>signedconv := True, base := 10\<rparr>
      else if c = CHR ''u'' then f\<lparr>base := 10\<rparr>
      else if c = CHR ''x'' then f\<lparr>base := 16\<rparr>
      else if c = CHR ''X'' then f\<lparr>base := 16, cvtbl := conv_upper\<rparr>
      else if c = CHR ''o'' then f\<lparr>base := 8\<rparr>
      else f)"

text \<open>
  The loop over the format.  After the digits of a width, \<^verbatim>\<open>p\<close> is past them, and the \<^verbatim>\<open>p++\<close> of the
  \<^verbatim>\<open>for\<close> skips one more character; \<open>None\<close> is a loop that would run past the end of the
  string.
\<close>

function parse_fmt :: "string \<Rightarrow> format \<Rightarrow> format option" where
  "parse_fmt [] f = Some f"
| "parse_fmt (c # cs) f =
     (if is_digit c \<and> c \<noteq> CHR ''0''
      then (if dropWhile is_digit cs = [] then None
            else parse_fmt (tl (dropWhile is_digit cs)) (f\<lparr>width := atoi (c # cs)\<rparr>))
      else parse_fmt cs (fmt_char c f))"
  by pat_completeness auto
termination
  by (relation "measure (\<lambda>(s, f). length s)")
    (auto simp: less_Suc_eq_le intro: le_trans [OF diff_le_self length_dropWhile_le])

text \<open>
  The conversion loop: digits are written from the end of the 24-byte buffer towards its start; the bound is
  the size of the buffer.
\<close>

fun i64_digits :: "('a \<Rightarrow> 'a \<Rightarrow> ('a \<times> 'a) option) \<Rightarrow> ('a \<Rightarrow> bool) \<Rightarrow> ('a \<Rightarrow> uint32) \<Rightarrow> string \<Rightarrow> 'a \<Rightarrow>
    nat \<Rightarrow> 'a \<Rightarrow> string \<Rightarrow> string option" where
  "i64_digits udivmod is_zero to_int32 tbl wbase 0 x raw = None"
| "i64_digits udivmod is_zero to_int32 tbl wbase (Suc n) x raw =
     (case udivmod x wbase of
        None \<Rightarrow> None
      | Some (q, digit) \<Rightarrow>
          (let raw = (tbl ! unat (to_int32 digit)) # raw
           in if \<not> is_zero q then i64_digits udivmod is_zero to_int32 tbl wbase n q raw
              else Some raw))"

text \<open>Laying out the digits \<open>raw\<close> of a number, negative if \<open>negative\<close>.\<close>

definition i64_layout :: "format \<Rightarrow> bool \<Rightarrow> string \<Rightarrow> string" where
  "i64_layout f negative raw =
     (let rawlen = length raw;
          rawlen = (if signedconv f \<and> (negative \<or> signstyle f \<noteq> CHR ''-'') then rawlen + 1 else rawlen);
          rawlen = (if alternate f \<and> base f = 8 then rawlen + 1
                    else if alternate f \<and> base f = 16 then rawlen + 2 else rawlen);
          pad = width f - rawlen
      in (if justify f = CHR ''+'' \<and> filler f = CHR '' '' then replicate pad (CHR '' '') else []) @
         (if signedconv f then if negative then ''-''
            else if signstyle f \<noteq> CHR ''-'' then [signstyle f] else [] else []) @
         (if alternate f \<and> base f = 8 then ''0'' else []) @
         (if alternate f \<and> base f = 16 then ''0x'' else []) @
         (if justify f = CHR ''+'' \<and> filler f = CHR ''0'' then replicate pad (CHR ''0'') else []) @
         raw @
         (if justify f = CHR ''-'' then replicate pad (CHR '' '') else []))"

definition i64_format_with :: "('a \<Rightarrow> 'a) \<Rightarrow> ('a \<Rightarrow> 'a \<Rightarrow> ('a \<times> 'a) option) \<Rightarrow> ('a \<Rightarrow> bool) \<Rightarrow> ('a \<Rightarrow> bool) \<Rightarrow>
    (uint32 \<Rightarrow> 'a) \<Rightarrow> ('a \<Rightarrow> uint32) \<Rightarrow> string \<Rightarrow> 'a \<Rightarrow> string option" where
  "i64_format_with neg udivmod is_zero is_negative of_int32 to_int32 fmt x =
     (case parse_fmt fmt format0 of
        None \<Rightarrow> None
      | Some f \<Rightarrow>
          (if base f = 0 then Some []
           else let negative = (signedconv f \<and> is_negative x);
                    x = (if negative then neg x else x)
                in map_option (i64_layout f negative)
                     (i64_digits udivmod is_zero to_int32 (cvtbl f) (of_int32 (word_of_nat (base f))) 24 x [])))"

definition I64_format :: "string \<Rightarrow> int64 \<Rightarrow> string option" where
  "I64_format = i64_format_with I64_neg I64_udivmod I64_is_zero I64_is_negative I64_of_int32 I64_to_int32"

subsection \<open>Reading numerals\<close>

text \<open>The end of the string is a zero byte: \<open>cur\<close> is \<^verbatim>\<open>*p\<close>.\<close>

definition cur :: "string \<Rightarrow> char" where
  "cur p = (case p of [] \<Rightarrow> CHR 0x00 | c # cs \<Rightarrow> c)"

definition parse_sign_and_base :: "string \<Rightarrow> string \<times> nat \<times> bool" where
  "parse_sign_and_base p =
     (let negative = (cur p = CHR ''-'');
          p = (if negative then tl p else p)
      in if cur p = CHR ''0''
         then let c = cur (tl p)
              in if c = CHR ''x'' \<or> c = CHR ''X'' then (drop 2 p, 16, negative)
                 else if c = CHR ''o'' \<or> c = CHR ''O'' then (drop 2 p, 8, negative)
                 else if c = CHR ''b'' \<or> c = CHR ''B'' then (drop 2 p, 2, negative)
                 else (p, 10, negative)
         else (p, 10, negative))"

definition parse_digit :: "char \<Rightarrow> int" where
  "parse_digit c =
     (let n = of_char c :: int
      in if 48 \<le> n \<and> n \<le> 57 then n - 48
         else if 65 \<le> n \<and> n \<le> 70 then n - 65 + 10
         else if 97 \<le> n \<and> n \<le> 102 then n - 97 + 10
         else - 1)"

text \<open>
  The loop over the digits after the first: \<open>f acc d\<close> is the new accumulator, the result is the
  rest of the string and the accumulator.
\<close>

fun parse_digits :: "nat \<Rightarrow> ('a \<Rightarrow> int \<Rightarrow> 'a) \<Rightarrow> string \<Rightarrow> 'a \<Rightarrow> string \<times> 'a" where
  "parse_digits b f [] acc = ([], acc)"
| "parse_digits b f (c # cs) acc =
     (if c = CHR ''_'' then parse_digits b f cs acc
      else let d = parse_digit c
           in if d < 0 \<or> int b \<le> d then (c # cs, acc) else parse_digits b f cs (f acc d))"

datatype parse_error = Failure string

definition parse_long :: "string \<Rightarrow> parse_error + uint32" where
  "parse_long p =
     (let (p, b, negative) = parse_sign_and_base p; d = parse_digit (cur p)
      in if d < 0 \<or> int b \<le> d then Inl (Failure ''int_of_string'')
         else let (p, res) = parse_digits b (\<lambda>res d. word_of_nat b * res + word_of_int d) (tl p) (word_of_int d)
              in if p \<noteq> [] then Inl (Failure ''int_of_string'')
                 else Inr (if negative then - res else res))"

definition parse_int64_with :: "('a \<Rightarrow> 'a) \<Rightarrow> ('a \<Rightarrow> 'a \<Rightarrow> 'a) \<Rightarrow> ('a \<Rightarrow> 'a \<Rightarrow> 'a) \<Rightarrow> (uint32 \<Rightarrow> 'a) \<Rightarrow>
    string \<Rightarrow> parse_error + 'a" where
  "parse_int64_with neg add mul of_int32 p =
     (let (p, b, negative) = parse_sign_and_base p; d = parse_digit (cur p)
      in if d < 0 \<or> int b \<le> d then Inl (Failure ''int_of_string'')
         else let (p, res) = parse_digits b
                    (\<lambda>res d. add (mul (of_int32 (word_of_nat b)) res) (of_int32 (word_of_int d)))
                    (tl p) (of_int32 (word_of_int d))
              in if p \<noteq> [] then Inl (Failure ''int_of_string'')
                 else Inr (if negative then neg res else res))"

definition parse_int64 :: "string \<Rightarrow> parse_error + int64" where
  "parse_int64 = parse_int64_with I64_neg I64_add I64_mul I64_of_int32"

subsection \<open>Positional notation\<close>

text \<open>The digits of \<open>n\<close> in base \<open>b\<close>, the most significant first.\<close>

function radix :: "nat \<Rightarrow> nat \<Rightarrow> nat list" where
  "radix b n = (if b < 2 \<or> n < b then [n] else radix b (n div b) @ [n mod b])"
  by auto
termination
  by (relation "measure snd") auto

declare radix.simps [simp del]

definition radix_val :: "nat \<Rightarrow> nat list \<Rightarrow> nat" where
  "radix_val b ds = foldl (\<lambda>a d. b * a + d) 0 ds"

lemma radix_val_radix: "radix_val b (radix b n) = n"
proof (induction b n rule: radix.induct)
  case (1 b n)
  show ?case
  proof (cases "b < 2 \<or> n < b")
    case True
    then show ?thesis by (simp add: radix.simps [of b n] radix_val_def)
  next
    case False
    then show ?thesis using 1 by (simp add: radix.simps [of b n] radix_val_def)
  qed
qed

lemma radix_digits: "2 \<le> b \<Longrightarrow> d \<in> set (radix b n) \<Longrightarrow> d < b"
proof (induction b n rule: radix.induct)
  case (1 b n)
  then show ?case
    by (cases "n < b") (auto simp: radix.simps [of b n])
qed

lemma radix_nonempty: "radix b n \<noteq> []"
  by (subst radix.simps) simp

lemma length_radix: "2 \<le> b \<Longrightarrow> n < b ^ k \<Longrightarrow> 0 < k \<Longrightarrow> length (radix b n) \<le> k"
proof (induction k arbitrary: n)
  case (Suc k)
  show ?case
  proof (cases "n < b")
    case False
    then have "0 < k" using Suc.prems by (cases k) auto
    moreover have "n div b < b ^ k" using Suc.prems by (simp add: less_mult_imp_div_less mult.commute)
    ultimately show ?thesis using Suc False by (simp add: radix.simps [of b n])
  qed (simp add: radix.simps [of b n])
qed simp

lemma hd_radix: "2 \<le> b \<Longrightarrow> 0 < n \<Longrightarrow> hd (radix b n) \<noteq> 0"
proof (induction b n rule: radix.induct)
  case (1 b n)
  show ?case
  proof (cases "n < b")
    case True
    then show ?thesis using 1 by (simp add: radix.simps [of b n])
  next
    case False
    then have "0 < n div b" using 1(2) by (simp add: div_greater_zero_iff)
    then show ?thesis using 1 False radix_nonempty [of b "n div b"]
      by (simp add: radix.simps [of b n])
  qed
qed

subsection \<open>Digit characters\<close>

lemma digit_chars:
  assumes "d < 16"
  shows "parse_digit (conv_lower ! d) = int d" and "conv_lower ! d \<noteq> CHR ''_''"
    and "conv_lower ! d \<noteq> CHR ''-''" and "conv_lower ! d = CHR ''0'' \<longleftrightarrow> d = 0"
proof -
  have "list_all (\<lambda>d. parse_digit (conv_lower ! d) = int d \<and> conv_lower ! d \<noteq> CHR ''_'' \<and>
      conv_lower ! d \<noteq> CHR ''-'' \<and> (conv_lower ! d = CHR ''0'' \<longleftrightarrow> d = 0)) [0..<16]"
    by code_simp
  then have "\<forall>d \<in> {0..<16}. parse_digit (conv_lower ! d) = int d \<and> conv_lower ! d \<noteq> CHR ''_'' \<and>
      conv_lower ! d \<noteq> CHR ''-'' \<and> (conv_lower ! d = CHR ''0'' \<longleftrightarrow> d = 0)"
    by (simp only: list_all_iff set_upt)
  then show "parse_digit (conv_lower ! d) = int d" "conv_lower ! d \<noteq> CHR ''_''"
    "conv_lower ! d \<noteq> CHR ''-''" "conv_lower ! d = CHR ''0'' \<longleftrightarrow> d = 0"
    using assms by auto
qed

abbreviation numeral_string :: "nat list \<Rightarrow> string" where
  "numeral_string ds \<equiv> map (\<lambda>d. conv_lower ! d) ds"

lemma parse_digits_all:
  assumes "\<forall>d \<in> set ds. d < b" and "b \<le> 16"
  shows "parse_digits b f (numeral_string ds) acc = ([], foldl (\<lambda>a d. f a (int d)) acc ds)"
  using assms(1)
proof (induction ds arbitrary: acc)
  case (Cons d ds)
  then have "d < 16" using assms(2) by auto
  then show ?case using Cons by (simp add: digit_chars Let_def)
qed simp

lemma unat_small64: "d < 2 ^ 64 \<Longrightarrow> unat (word_of_nat d :: uint64) = d"
  by (simp add: unsigned_of_nat take_bit_nat_eq_self)

lemma scast_small: "d < 2 ^ 31 \<Longrightarrow> scast (word_of_nat d :: uint32) = (word_of_nat d :: uint64)"
  by (simp add: scast_eq signed_of_nat signed_take_bit_int_eq_self)

subsection \<open>Printing and reading over any implementation of the operations\<close>

context int64_arith
begin

lemma v64_small: "d < 2 ^ 31 \<Longrightarrow> v64 (of_int32 (word_of_nat d)) = word_of_nat d"
  by (simp add: v64_of_int32 scast_small)

lemma digits_radix:
  assumes "2 \<le> b" "b \<le> 16" and "length (radix b (unat (v64 x))) \<le> n"
  shows "i64_digits udivmod is_zero to_int32 tbl (of_int32 (word_of_nat b)) n x raw =
    Some (map (\<lambda>d. tbl ! d) (radix b (unat (v64 x))) @ raw)"
  using assms(3)
proof (induction n arbitrary: x raw)
  case 0
  then show ?case using radix_nonempty by simp
next
  case (Suc n)
  let ?w = "of_int32 (word_of_nat b)"
  have w: "v64 ?w = word_of_nat b" "unat (v64 ?w) = b"
    using assms(1,2) by (simp_all add: v64_small unat_small64)
  then have "v64 ?w \<noteq> 0" using assms(1) by (metis unat_0 not_numeral_le_zero)
  then obtain q r where qr: "udivmod x ?w = Some (q, r)" "unat (v64 q) = unat (v64 x) div b"
    "unat (v64 r) = unat (v64 x) mod b"
    using udivmod_pos [of ?w x] w(2) by auto
  have "unat (v64 x) mod b < 16" using assms(1,2) mod_less_divisor [of b "unat (v64 x)"] by linarith
  then have r: "unat (to_int32 r) = unat (v64 x) mod b"
    using qr(3) by (simp add: v64_to_int32 unsigned_ucast_eq take_bit_nat_eq_self)
  have z: "is_zero q \<longleftrightarrow> unat (v64 x) < b"
    using qr(2) assms(1) by (simp add: v64_is_zero flip: unat_eq_zero) (simp add: div_eq_0_iff)
  show ?case
  proof (cases "unat (v64 x) < b")
    case True
    then show ?thesis using qr(1) r z by (simp add: radix.simps [of b "unat (v64 x)"] Let_def)
  next
    case False
    have rad: "radix b (unat (v64 x)) = radix b (unat (v64 q)) @ [unat (v64 x) mod b]"
      using False assms(1) by (simp add: radix.simps [of b "unat (v64 x)"] qr(2))
    then have "length (radix b (unat (v64 q))) \<le> n" using Suc.prems by simp
    from Suc.IH [OF this] show ?thesis using qr(1) r z False rad by (simp add: Let_def)
  qed
qed

lemma digits_fit:
  assumes "8 \<le> b" "b \<le> 16"
  shows "i64_digits udivmod is_zero to_int32 tbl (of_int32 (word_of_nat b)) 24 x raw =
    Some (map (\<lambda>d. tbl ! d) (radix b (unat (v64 x))) @ raw)"
proof (rule digits_radix)
  have "unat (v64 x) < 2 ^ 64" using unsigned_less [of "v64 x"] by simp
  also have "(2 :: nat) ^ 64 \<le> 8 ^ 22" by simp
  also have "(8 :: nat) ^ 22 \<le> b ^ 22" using assms(1) by (rule power_mono) simp
  finally have "length (radix b (unat (v64 x))) \<le> 22" using assms(1) by (intro length_radix) auto
  then show "length (radix b (unat (v64 x))) \<le> 24" by simp
qed (use assms in auto)

abbreviation accumulate :: "nat \<Rightarrow> 'a \<Rightarrow> int \<Rightarrow> 'a" where
  "accumulate b \<equiv> \<lambda>res d. add (mul (of_int32 (word_of_nat b)) res) (of_int32 (word_of_int d))"

lemma accumulate_value:
  assumes "b \<le> 16" and "\<forall>d \<in> set ds. d < b"
  shows "v64 (foldl (\<lambda>a d. accumulate b a (int d)) acc ds) =
    word_of_nat (foldl (\<lambda>a d. b * a + d) (unat (v64 acc)) ds)"
  using assms(2)
proof (induction ds rule: rev_induct)
  case (snoc d ds)
  then show ?case using assms(1) by (simp add: v64_add v64_mul v64_small)
qed simp

lemma of_string_radix:
  assumes "2 \<le> b" "b \<le> 16" and "parse_sign_and_base s = (numeral_string (radix b n), b, negative)"
  shows "\<exists>y. parse_int64_with neg add mul of_int32 s = Inr y \<and>
    v64 y = (if negative then - word_of_nat n else word_of_nat n)"
proof -
  obtain d ds where ds: "radix b n = d # ds" using radix_nonempty [of b n] by (cases "radix b n") auto
  have small: "\<forall>e \<in> set (d # ds). e < b" using radix_digits [OF assms(1)] ds by metis
  then have d: "d < b" "d < 16" using assms(2) by auto
  let ?res = "foldl (\<lambda>a e. accumulate b a (int e)) (of_int32 (word_of_int (int d))) ds"
  have "unat (v64 (of_int32 (word_of_int (int d)))) = d"
    using d(2) v64_small [of d] unat_small64 [of d] by simp
  then have "v64 ?res = word_of_nat (foldl (\<lambda>a e. b * a + e) d ds)"
    using accumulate_value [of b ds "of_int32 (word_of_int (int d))"] assms(2) small by simp
  also have "foldl (\<lambda>a e. b * a + e) d ds = n"
    using radix_val_radix [of b n] by (simp add: ds radix_val_def)
  finally have res: "v64 ?res = word_of_nat n" .
  have "parse_digits b (accumulate b) (numeral_string ds) (of_int32 (word_of_int (int d))) = ([], ?res)"
    using parse_digits_all [of ds b "accumulate b"] assms(2) small by simp
  then have "parse_int64_with neg add mul of_int32 s = Inr (if negative then neg ?res else ?res)"
    unfolding parse_int64_with_def assms(3) ds
    using d by (simp add: cur_def digit_chars Let_def)
  then show ?thesis using res by (auto simp: v64_neg)
qed

end

subsection \<open>The emulation prints what it reads\<close>

lemma parse_fmt_cases:
  "parse_fmt ''%d'' format0 = Some (format0\<lparr>signedconv := True, base := 10\<rparr>)"
  "parse_fmt ''%i'' format0 = Some (format0\<lparr>signedconv := True, base := 10\<rparr>)"
  "parse_fmt ''%u'' format0 = Some (format0\<lparr>base := 10\<rparr>)"
  "parse_fmt ''%#x'' format0 = Some (format0\<lparr>alternate := True, base := 16\<rparr>)"
  by (simp_all add: fmt_char_def is_digit_def)

text \<open>A printed numeral does not look like a base prefix or a sign.\<close>

lemma numeral_no_prefix:
  assumes "2 \<le> b" "b \<le> 16"
  shows "cur (numeral_string (radix b n)) \<noteq> CHR ''-''"
    and "cur (numeral_string (radix b n)) = CHR ''0'' \<Longrightarrow> tl (numeral_string (radix b n)) = []"
proof -
  obtain d ds where ds: "radix b n = d # ds" using radix_nonempty [of b n] by (cases "radix b n") auto
  have "d < 16" using radix_digits [OF assms(1), of d n] assms(2) by (simp add: ds)
  note d = digit_chars [OF this]
  show "cur (numeral_string (radix b n)) \<noteq> CHR ''-''" using d(3) by (simp add: ds cur_def)
  assume "cur (numeral_string (radix b n)) = CHR ''0''"
  then have "d = 0" using d(4) by (simp add: ds cur_def)
  then have "n = 0" using hd_radix [OF assms(1), of n] by (auto simp: ds)
  then show "tl (numeral_string (radix b n)) = []" using assms(1) by (simp add: radix.simps [of b 0])
qed

lemma sign_and_base_plain:
  "parse_sign_and_base (numeral_string (radix 10 n)) = (numeral_string (radix 10 n), 10, False)"
  using numeral_no_prefix [of 10 n] by (auto simp: parse_sign_and_base_def Let_def cur_def [of "[]"])

lemma sign_and_base_minus:
  "parse_sign_and_base (CHR ''-'' # numeral_string (radix 10 n)) = (numeral_string (radix 10 n), 10, True)"
  using numeral_no_prefix [of 10 n]
  by (auto simp: parse_sign_and_base_def Let_def cur_def [of "[]"] cur_def [of "CHR ''-'' # xs" for xs])

lemma sign_and_base_hex: "parse_sign_and_base (''0x'' @ s) = (s, 16, False)"
  by (simp add: parse_sign_and_base_def cur_def)

lemma parse_int64_radix:
  assumes "2 \<le> b" "b \<le> 16" and "parse_sign_and_base s = (numeral_string (radix b (unat (w64 z))), b, negative)"
    and "w64 x = (if negative then - w64 z else w64 z)"
  shows "parse_int64 s = Inr x"
proof -
  obtain y where y: "parse_int64 s = Inr y"
    "w64 y = (if negative then - word_of_nat (unat (w64 z)) else word_of_nat (unat (w64 z)))"
    using emul.of_string_radix [OF assms(1-3)] by (auto simp: parse_int64_def)
  then have "w64 y = w64 x" using assms(4) by simp
  then show ?thesis using y(1) by (simp add: w64_inj)
qed

declare parse_fmt.simps [simp del]

lemma format_with_base:
  assumes "parse_fmt fmt format0 = Some f" and "8 \<le> base f" "base f \<le> 16"
  shows "I64_format fmt x =
    (let negative = (signedconv f \<and> I64_is_negative x); z = (if negative then I64_neg x else x)
     in Some (i64_layout f negative (map (\<lambda>d. cvtbl f ! d) (radix (base f) (unat (w64 z))))))"
  using emul.digits_fit [OF assms(2,3), of "cvtbl f" _ "[]"] assms(2)
  by (simp add: I64_format_def i64_format_with_def assms(1) Let_def)

lemma layouts:
  "i64_layout (format0\<lparr>signedconv := True, base := 10\<rparr>) negative raw = (if negative then CHR ''-'' # raw else raw)"
  "i64_layout (format0\<lparr>base := 10\<rparr>) negative raw = raw"
  "i64_layout (format0\<lparr>alternate := True, base := 16\<rparr>) negative raw = ''0x'' @ raw"
  by (simp_all add: i64_layout_def format0_def)

lemma format0_sel: "cvtbl format0 = conv_lower" "signedconv format0 = False"
  by (simp_all add: format0_def)

lemma format_signed:
  assumes "fmt = ''%d'' \<or> fmt = ''%i''"
  shows "I64_format fmt x = Some (if I64_is_negative x then CHR ''-'' # numeral_string (radix 10 (unat (w64 (I64_neg x))))
    else numeral_string (radix 10 (unat (w64 x))))"
proof -
  have "parse_fmt fmt format0 = Some (format0\<lparr>signedconv := True, base := 10\<rparr>)"
    using assms parse_fmt_cases by blast
  from format_with_base [OF this, of x] show ?thesis
    by (simp add: layouts format0_sel Let_def del: format.update_convs)
qed

lemma format_unsigned: "I64_format ''%u'' x = Some (numeral_string (radix 10 (unat (w64 x))))"
  using format_with_base [OF parse_fmt_cases(3), of x] by (simp add: layouts format0_sel Let_def)

lemma format_hex: "I64_format ''%#x'' x = Some (''0x'' @ numeral_string (radix 16 (unat (w64 x))))"
  using format_with_base [OF parse_fmt_cases(4), of x] by (simp add: layouts format0_sel Let_def)

text \<open>
  C39.  A 64-bit integer printed in decimal, signed or unsigned, or in hexadecimal with its
  prefix, is read back as the same integer: neither the 24-byte buffer nor the accumulator of the
  reader ever loses a digit.
\<close>

theorem format_parse_round_trip:
  assumes "fmt \<in> {''%d'', ''%i'', ''%u'', ''%#x''}"
  shows "\<exists>s. I64_format fmt x = Some s \<and> parse_int64 s = Inr x"
proof -
  have neg: "w64 x = - w64 (I64_neg x)" by (simp add: emul.v64_neg)
  have "parse_int64 (CHR ''-'' # numeral_string (radix 10 (unat (w64 (I64_neg x))))) = Inr x"
    using neg by (intro parse_int64_radix [OF _ _ sign_and_base_minus]) auto
  moreover have "parse_int64 (numeral_string (radix 10 (unat (w64 x)))) = Inr x"
    by (rule parse_int64_radix [OF _ _ sign_and_base_plain]) auto
  moreover have "parse_int64 (''0x'' @ numeral_string (radix 16 (unat (w64 x)))) = Inr x"
    by (rule parse_int64_radix [OF _ _ sign_and_base_hex]) auto
  ultimately show ?thesis using assms by (auto simp: format_signed format_unsigned format_hex)
qed

theorem format_parse_round_trip_witness:
  "\<exists>s. I64_format ''%d'' (mk64 (- 1) (- 42)) = Some s \<and> parse_int64 s = Inr (mk64 (- 1) (- 42))"
  by (rule format_parse_round_trip) simp

text \<open>
  A field width swallows the conversion letter that follows it: \<^verbatim>\<open>"%5d"\<close> prints nothing.
\<close>

lemma format_width_loses_conversion: "I64_format ''%5d'' x = Some []"
proof -
  have "parse_fmt ''%5d'' format0 = Some (format0\<lparr>width := 5\<rparr>)" by code_simp
  then show ?thesis by (simp add: I64_format_def i64_format_with_def format0_def)
qed

end
