(* ===== verification/Ints.thy ===== *)
theory Ints
  imports Prims Int64_Format
begin

text \<open>
  The boxed integers (\<^verbatim>\<open>byterun/ints.c\<close>): custom blocks that hold a 32-bit, a 64-bit or a native integer,
  and the primitives on them.  A primitive reads its operands, computes and allocates the result with
  \<open>copy_int32\<close>, \<open>copy_int64\<close> or \<open>copy_nativeint\<close>; a division by zero raises.  The 64-bit operations are the
  emulated ones, and a native integer has 32 bits.
\<close>

subsection \<open>C strings in the heap\<close>

text \<open>\<^verbatim>\<open>String_val(s)\<close> as a C string: the characters before the first zero byte.\<close>

definition String_val :: "mem \<Rightarrow> val \<Rightarrow> string" where
  "String_val m v = map (\<lambda>b. char_of (unat b)) (takeWhile (\<lambda>b. b \<noteq> 0) (load_bytes m v 0 (unat (string_length m v) + 1)))"

text \<open>\<^verbatim>\<open>failwith\<close> of a parser's error value.\<close>

definition or_fail :: "fns \<Rightarrow> parse_error + 'a \<Rightarrow> machine \<Rightarrow> ('a \<Rightarrow> machine \<Rightarrow> 'b result) \<Rightarrow> 'b result" where
  "or_fail fns r s k = (case r of Inl (Failure msg) \<Rightarrow> failwith fns msg s | Inr x \<Rightarrow> k x s)"

text \<open>The bytes of a string value, as \<^verbatim>\<open>memmove\<close> of \<^verbatim>\<open>string_length(s)\<close> bytes copies them.\<close>

definition load_string :: "mem \<Rightarrow> val \<Rightarrow> string" where
  "load_string m v = map (\<lambda>b. char_of (unat b)) (load_bytes m v 0 (unat (string_length m v)))"

definition int_of_string :: "fns \<Rightarrow> val \<Rightarrow> machine \<Rightarrow> val result" where
  "int_of_string fns str s = or_fail fns (parse_long (String_val (mem s) str)) s (\<lambda>n s. Returns (Val_long n) s)"

subsection \<open>Formats\<close>

text \<open>
  \<open>parse_format\<close> copies the format, puts the suffix before its last letter and drops a size letter there;
  \<open>None\<close> is a format too short to have a letter before the last.  The second result is the length needed
  for the output.
\<close>

definition parse_format :: "string \<Rightarrow> string \<Rightarrow> (string + string \<times> nat) option" where
  "parse_format fmt suffix =
     (if 32 \<le> length fmt + length suffix + 1 then Some (Inl ''format_int: format too long'')
      else if length fmt < 2 then None
      else let p = length fmt - 1; lastletter = fmt ! p;
               p = (if fmt ! (p - 1) \<in> {CHR ''l'', CHR ''n'', CHR ''L''} then p - 1 else p);
               rest = dropWhile (\<lambda>c. \<not> is_digit c) (takeWhile (\<lambda>c. c \<noteq> CHR 0x00) fmt)
           in Some (Inr (take p fmt @ suffix @ [lastletter], if rest = [] then 22 + 5 else atoi rest + 5)))"

subsection \<open>Blocks\<close>

definition Int32_val :: "mem \<Rightarrow> val \<Rightarrow> uint32" where
  "Int32_val m v = Field m v 1"

definition Nativeint_val :: "mem \<Rightarrow> val \<Rightarrow> uint32" where
  "Nativeint_val m v = Field m v 1"

definition Int64_val :: "mem \<Rightarrow> val \<Rightarrow> int64" where
  "Int64_val m v = mk64 (Field m v 2) (Field m v 1)"

definition copy_int32 :: "fns \<Rightarrow> uint32 \<Rightarrow> machine \<Rightarrow> val result" where
  "copy_int32 fns i s =
     andThen (alloc_custom fns (int32_ops s) 4 0 1 s) (\<lambda>v s. Returns v (s\<lparr>mem := set_Field v 1 i (mem s)\<rparr>))"

definition copy_nativeint :: "fns \<Rightarrow> uint32 \<Rightarrow> machine \<Rightarrow> val result" where
  "copy_nativeint fns i s =
     andThen (alloc_custom fns (nativeint_ops s) 4 0 1 s) (\<lambda>v s. Returns v (s\<lparr>mem := set_Field v 1 i (mem s)\<rparr>))"

definition copy_int64 :: "fns \<Rightarrow> int64 \<Rightarrow> machine \<Rightarrow> val result" where
  "copy_int64 fns i s =
     andThen (alloc_custom fns (int64_ops s) 8 0 1 s)
       (\<lambda>v s. Returns v (s\<lparr>mem := set_Field v 2 (i64_h i) (set_Field v 1 (i64_l i) (mem s))\<rparr>))"

subsection \<open>32-bit integers\<close>

definition int32_compare :: "mem \<Rightarrow> val \<Rightarrow> val \<Rightarrow> int" where
  "int32_compare m v1 v2 = (let i1 = Int32_val m v1; i2 = Int32_val m v2 in if i1 = i2 then 0 else if slt i1 i2 then - 1 else 1)"

definition int32_hash :: "mem \<Rightarrow> val \<Rightarrow> uint32" where
  "int32_hash m v = Int32_val m v"

definition int32_neg :: "fns \<Rightarrow> val \<Rightarrow> machine \<Rightarrow> val result" where
  "int32_neg fns v s = copy_int32 fns (- Int32_val (mem s) v) s"

definition int32_add :: "fns \<Rightarrow> val \<Rightarrow> val \<Rightarrow> machine \<Rightarrow> val result" where
  "int32_add fns v1 v2 s = copy_int32 fns (Int32_val (mem s) v1 + Int32_val (mem s) v2) s"

definition int32_sub :: "fns \<Rightarrow> val \<Rightarrow> val \<Rightarrow> machine \<Rightarrow> val result" where
  "int32_sub fns v1 v2 s = copy_int32 fns (Int32_val (mem s) v1 - Int32_val (mem s) v2) s"

definition int32_mul :: "fns \<Rightarrow> val \<Rightarrow> val \<Rightarrow> machine \<Rightarrow> val result" where
  "int32_mul fns v1 v2 s = copy_int32 fns (Int32_val (mem s) v1 * Int32_val (mem s) v2) s"

definition int32_div :: "fns \<Rightarrow> val \<Rightarrow> val \<Rightarrow> machine \<Rightarrow> val result" where
  "int32_div fns v1 v2 s =
     (let divisor = Int32_val (mem s) v2
      in if divisor = 0 then raise_zero_divide fns s else copy_int32 fns (c_div (Int32_val (mem s) v1) divisor) s)"

definition int32_mod :: "fns \<Rightarrow> val \<Rightarrow> val \<Rightarrow> machine \<Rightarrow> val result" where
  "int32_mod fns v1 v2 s =
     (let divisor = Int32_val (mem s) v2
      in if divisor = 0 then raise_zero_divide fns s else copy_int32 fns (c_mod (Int32_val (mem s) v1) divisor) s)"

definition int32_and :: "fns \<Rightarrow> val \<Rightarrow> val \<Rightarrow> machine \<Rightarrow> val result" where
  "int32_and fns v1 v2 s = copy_int32 fns (Int32_val (mem s) v1 AND Int32_val (mem s) v2) s"

definition int32_or :: "fns \<Rightarrow> val \<Rightarrow> val \<Rightarrow> machine \<Rightarrow> val result" where
  "int32_or fns v1 v2 s = copy_int32 fns (Int32_val (mem s) v1 OR Int32_val (mem s) v2) s"

definition int32_xor :: "fns \<Rightarrow> val \<Rightarrow> val \<Rightarrow> machine \<Rightarrow> val result" where
  "int32_xor fns v1 v2 s = copy_int32 fns (Int32_val (mem s) v1 XOR Int32_val (mem s) v2) s"

definition int32_shift_left :: "fns \<Rightarrow> val \<Rightarrow> val \<Rightarrow> machine \<Rightarrow> val result" where
  "int32_shift_left fns v1 v2 s = copy_int32 fns (c_shl (Int32_val (mem s) v1) (Int_val v2)) s"

definition int32_shift_right :: "fns \<Rightarrow> val \<Rightarrow> val \<Rightarrow> machine \<Rightarrow> val result" where
  "int32_shift_right fns v1 v2 s = copy_int32 fns (c_sar (Int32_val (mem s) v1) (Int_val v2)) s"

definition int32_shift_right_unsigned :: "fns \<Rightarrow> val \<Rightarrow> val \<Rightarrow> machine \<Rightarrow> val result" where
  "int32_shift_right_unsigned fns v1 v2 s = copy_int32 fns (c_shr (Int32_val (mem s) v1) (Int_val v2)) s"

definition int32_of_int :: "fns \<Rightarrow> val \<Rightarrow> machine \<Rightarrow> val result" where
  "int32_of_int fns v s = copy_int32 fns (Long_val v) s"

definition int32_to_int :: "mem \<Rightarrow> val \<Rightarrow> val" where
  "int32_to_int m v = Val_long (Int32_val m v)"

definition int32_of_string :: "fns \<Rightarrow> val \<Rightarrow> machine \<Rightarrow> val result" where
  "int32_of_string fns str s = or_fail fns (parse_long (String_val (mem s) str)) s (copy_int32 fns)"

subsection \<open>64-bit integers\<close>

definition int64_compare :: "mem \<Rightarrow> val \<Rightarrow> val \<Rightarrow> int" where
  "int64_compare m v1 v2 = I64_compare (Int64_val m v1) (Int64_val m v2)"

definition int64_hash :: "mem \<Rightarrow> val \<Rightarrow> uint32" where
  "int64_hash m v = I64_to_int32 (Int64_val m v)"

definition int64_neg :: "fns \<Rightarrow> val \<Rightarrow> machine \<Rightarrow> val result" where
  "int64_neg fns v s = copy_int64 fns (I64_neg (Int64_val (mem s) v)) s"

definition int64_add :: "fns \<Rightarrow> val \<Rightarrow> val \<Rightarrow> machine \<Rightarrow> val result" where
  "int64_add fns v1 v2 s = copy_int64 fns (I64_add (Int64_val (mem s) v1) (Int64_val (mem s) v2)) s"

definition int64_sub :: "fns \<Rightarrow> val \<Rightarrow> val \<Rightarrow> machine \<Rightarrow> val result" where
  "int64_sub fns v1 v2 s = copy_int64 fns (I64_sub (Int64_val (mem s) v1) (Int64_val (mem s) v2)) s"

definition int64_mul :: "fns \<Rightarrow> val \<Rightarrow> val \<Rightarrow> machine \<Rightarrow> val result" where
  "int64_mul fns v1 v2 s = copy_int64 fns (I64_mul (Int64_val (mem s) v1) (Int64_val (mem s) v2)) s"

definition int64_and :: "fns \<Rightarrow> val \<Rightarrow> val \<Rightarrow> machine \<Rightarrow> val result" where
  "int64_and fns v1 v2 s = copy_int64 fns (I64_and (Int64_val (mem s) v1) (Int64_val (mem s) v2)) s"

definition int64_or :: "fns \<Rightarrow> val \<Rightarrow> val \<Rightarrow> machine \<Rightarrow> val result" where
  "int64_or fns v1 v2 s = copy_int64 fns (I64_or (Int64_val (mem s) v1) (Int64_val (mem s) v2)) s"

definition int64_xor :: "fns \<Rightarrow> val \<Rightarrow> val \<Rightarrow> machine \<Rightarrow> val result" where
  "int64_xor fns v1 v2 s = copy_int64 fns (I64_xor (Int64_val (mem s) v1) (Int64_val (mem s) v2)) s"

definition int64_div :: "fns \<Rightarrow> val \<Rightarrow> val \<Rightarrow> machine \<Rightarrow> val result" where
  "int64_div fns v1 v2 s =
     (let divisor = Int64_val (mem s) v2
      in if I64_is_zero divisor then raise_zero_divide fns s
         else case I64_div (Int64_val (mem s) v1) divisor of None \<Rightarrow> Loops | Some x \<Rightarrow> copy_int64 fns x s)"

definition int64_mod :: "fns \<Rightarrow> val \<Rightarrow> val \<Rightarrow> machine \<Rightarrow> val result" where
  "int64_mod fns v1 v2 s =
     (let divisor = Int64_val (mem s) v2
      in if I64_is_zero divisor then raise_zero_divide fns s
         else case I64_mod (Int64_val (mem s) v1) divisor of None \<Rightarrow> Loops | Some x \<Rightarrow> copy_int64 fns x s)"

definition int64_shift_left :: "fns \<Rightarrow> val \<Rightarrow> val \<Rightarrow> machine \<Rightarrow> val result" where
  "int64_shift_left fns v1 v2 s = copy_int64 fns (I64_lsl (Int64_val (mem s) v1) (Int_val v2)) s"

definition int64_shift_right :: "fns \<Rightarrow> val \<Rightarrow> val \<Rightarrow> machine \<Rightarrow> val result" where
  "int64_shift_right fns v1 v2 s = copy_int64 fns (I64_asr (Int64_val (mem s) v1) (Int_val v2)) s"

definition int64_shift_right_unsigned :: "fns \<Rightarrow> val \<Rightarrow> val \<Rightarrow> machine \<Rightarrow> val result" where
  "int64_shift_right_unsigned fns v1 v2 s = copy_int64 fns (I64_lsr (Int64_val (mem s) v1) (Int_val v2)) s"

definition int64_of_int :: "fns \<Rightarrow> val \<Rightarrow> machine \<Rightarrow> val result" where
  "int64_of_int fns v s = copy_int64 fns (I64_of_int32 (Long_val v)) s"

definition int64_to_int :: "mem \<Rightarrow> val \<Rightarrow> val" where
  "int64_to_int m v = Val_long (I64_to_int32 (Int64_val m v))"

definition int64_of_int32 :: "fns \<Rightarrow> val \<Rightarrow> machine \<Rightarrow> val result" where
  "int64_of_int32 fns v s = copy_int64 fns (I64_of_int32 (Int32_val (mem s) v)) s"

definition int64_to_int32 :: "fns \<Rightarrow> val \<Rightarrow> machine \<Rightarrow> val result" where
  "int64_to_int32 fns v s = copy_int32 fns (I64_to_int32 (Int64_val (mem s) v)) s"

definition int64_of_nativeint :: "fns \<Rightarrow> val \<Rightarrow> machine \<Rightarrow> val result" where
  "int64_of_nativeint fns v s = copy_int64 fns (I64_of_int32 (Nativeint_val (mem s) v)) s"

definition int64_to_nativeint :: "fns \<Rightarrow> val \<Rightarrow> machine \<Rightarrow> val result" where
  "int64_to_nativeint fns v s = copy_nativeint fns (I64_to_int32 (Int64_val (mem s) v)) s"

text \<open>The output buffer is allocated with \<open>stat_alloc\<close> when it does not fit the static one.\<close>

definition int64_format :: "fns \<Rightarrow> val \<Rightarrow> val \<Rightarrow> machine \<Rightarrow> val result" where
  "int64_format fns fmt arg s =
     (case parse_format (load_string (mem s) fmt) [] of
        None \<Rightarrow> Loops
      | Some (Inl msg) \<Rightarrow> invalid_argument fns msg s
      | Some (Inr (format_string, prec)) \<Rightarrow>
          andThen (if prec < 32 then Returns 0 s else stat_alloc fns (word_of_nat (prec + 1)) s)
            (\<lambda>buffer s. case I64_format (takeWhile (\<lambda>c. c \<noteq> CHR 0x00) format_string) (Int64_val (mem s) arg) of
                          None \<Rightarrow> Loops
                        | Some out \<Rightarrow> copy_string fns out s))"

definition int64_of_string :: "fns \<Rightarrow> val \<Rightarrow> machine \<Rightarrow> val result" where
  "int64_of_string fns str s = or_fail fns (parse_int64 (String_val (mem s) str)) s (copy_int64 fns)"

definition int64_bits_of_float :: "fns \<Rightarrow> val \<Rightarrow> machine \<Rightarrow> val result" where
  "int64_bits_of_float fns vd s =
     (let (l, h) = Double_val (mem s) vd in copy_int64 fns (mk64 h l) s)"

text \<open>\<open>copy_double\<close> of \<^verbatim>\<open>floats.c\<close>.\<close>

definition copy_double :: "fns \<Rightarrow> uint32 \<times> uint32 \<Rightarrow> machine \<Rightarrow> val result" where
  "copy_double fns d s =
     (let (res, s) = alloc_small fns Double_wosize Double_tag s in Returns res (s\<lparr>mem := Store_double_val res d (mem s)\<rparr>))"

definition int64_float_of_bits :: "fns \<Rightarrow> val \<Rightarrow> machine \<Rightarrow> val result" where
  "int64_float_of_bits fns vi s =
     (let i = Int64_val (mem s) vi in copy_double fns (i64_l i, i64_h i) s)"

subsection \<open>Native integers\<close>

definition nativeint_compare :: "mem \<Rightarrow> val \<Rightarrow> val \<Rightarrow> int" where
  "nativeint_compare m v1 v2 = (let i1 = Nativeint_val m v1; i2 = Nativeint_val m v2 in if i1 = i2 then 0 else if slt i1 i2 then - 1 else 1)"

definition nativeint_hash :: "mem \<Rightarrow> val \<Rightarrow> uint32" where
  "nativeint_hash m v = Nativeint_val m v"

definition nativeint_neg :: "fns \<Rightarrow> val \<Rightarrow> machine \<Rightarrow> val result" where
  "nativeint_neg fns v s = copy_nativeint fns (- Nativeint_val (mem s) v) s"

definition nativeint_add :: "fns \<Rightarrow> val \<Rightarrow> val \<Rightarrow> machine \<Rightarrow> val result" where
  "nativeint_add fns v1 v2 s = copy_nativeint fns (Nativeint_val (mem s) v1 + Nativeint_val (mem s) v2) s"

definition nativeint_sub :: "fns \<Rightarrow> val \<Rightarrow> val \<Rightarrow> machine \<Rightarrow> val result" where
  "nativeint_sub fns v1 v2 s = copy_nativeint fns (Nativeint_val (mem s) v1 - Nativeint_val (mem s) v2) s"

definition nativeint_mul :: "fns \<Rightarrow> val \<Rightarrow> val \<Rightarrow> machine \<Rightarrow> val result" where
  "nativeint_mul fns v1 v2 s = copy_nativeint fns (Nativeint_val (mem s) v1 * Nativeint_val (mem s) v2) s"

definition nativeint_div :: "fns \<Rightarrow> val \<Rightarrow> val \<Rightarrow> machine \<Rightarrow> val result" where
  "nativeint_div fns v1 v2 s =
     (let divisor = Nativeint_val (mem s) v2
      in if divisor = 0 then raise_zero_divide fns s else copy_nativeint fns (c_div (Nativeint_val (mem s) v1) divisor) s)"

definition nativeint_mod :: "fns \<Rightarrow> val \<Rightarrow> val \<Rightarrow> machine \<Rightarrow> val result" where
  "nativeint_mod fns v1 v2 s =
     (let divisor = Nativeint_val (mem s) v2
      in if divisor = 0 then raise_zero_divide fns s else copy_nativeint fns (c_mod (Nativeint_val (mem s) v1) divisor) s)"

definition nativeint_and :: "fns \<Rightarrow> val \<Rightarrow> val \<Rightarrow> machine \<Rightarrow> val result" where
  "nativeint_and fns v1 v2 s = copy_nativeint fns (Nativeint_val (mem s) v1 AND Nativeint_val (mem s) v2) s"

definition nativeint_or :: "fns \<Rightarrow> val \<Rightarrow> val \<Rightarrow> machine \<Rightarrow> val result" where
  "nativeint_or fns v1 v2 s = copy_nativeint fns (Nativeint_val (mem s) v1 OR Nativeint_val (mem s) v2) s"

definition nativeint_xor :: "fns \<Rightarrow> val \<Rightarrow> val \<Rightarrow> machine \<Rightarrow> val result" where
  "nativeint_xor fns v1 v2 s = copy_nativeint fns (Nativeint_val (mem s) v1 XOR Nativeint_val (mem s) v2) s"

definition nativeint_shift_left :: "fns \<Rightarrow> val \<Rightarrow> val \<Rightarrow> machine \<Rightarrow> val result" where
  "nativeint_shift_left fns v1 v2 s = copy_nativeint fns (c_shl (Nativeint_val (mem s) v1) (Int_val v2)) s"

definition nativeint_shift_right :: "fns \<Rightarrow> val \<Rightarrow> val \<Rightarrow> machine \<Rightarrow> val result" where
  "nativeint_shift_right fns v1 v2 s = copy_nativeint fns (c_sar (Nativeint_val (mem s) v1) (Int_val v2)) s"

definition nativeint_shift_right_unsigned :: "fns \<Rightarrow> val \<Rightarrow> val \<Rightarrow> machine \<Rightarrow> val result" where
  "nativeint_shift_right_unsigned fns v1 v2 s = copy_nativeint fns (c_shr (Nativeint_val (mem s) v1) (Int_val v2)) s"

definition nativeint_of_int :: "fns \<Rightarrow> val \<Rightarrow> machine \<Rightarrow> val result" where
  "nativeint_of_int fns v s = copy_nativeint fns (Long_val v) s"

definition nativeint_to_int :: "mem \<Rightarrow> val \<Rightarrow> val" where
  "nativeint_to_int m v = Val_long (Nativeint_val m v)"

definition nativeint_of_string :: "fns \<Rightarrow> val \<Rightarrow> machine \<Rightarrow> val result" where
  "nativeint_of_string fns str s = or_fail fns (parse_long (String_val (mem s) str)) s (copy_nativeint fns)"

definition nativeint_of_int32 :: "fns \<Rightarrow> val \<Rightarrow> machine \<Rightarrow> val result" where
  "nativeint_of_int32 fns v s = copy_nativeint fns (Int32_val (mem s) v) s"

definition nativeint_to_int32 :: "fns \<Rightarrow> val \<Rightarrow> machine \<Rightarrow> val result" where
  "nativeint_to_int32 fns v s = copy_int32 fns (Nativeint_val (mem s) v) s"

subsection \<open>Boxed results\<close>

definition boxed32 :: "val result \<Rightarrow> addr \<Rightarrow> uint32 \<Rightarrow> bool" where
  "boxed32 r ops x \<longleftrightarrow> (\<exists>v t. r = Returns v t \<and> Tag_val (mem t) v = Custom_tag \<and> Wosize_val (mem t) v = 2 \<and>
     Field (mem t) v 0 = ops \<and> Field (mem t) v 1 = x)"

definition boxed64 :: "val result \<Rightarrow> addr \<Rightarrow> uint64 \<Rightarrow> bool" where
  "boxed64 r ops x \<longleftrightarrow> (\<exists>v t. r = Returns v t \<and> Tag_val (mem t) v = Custom_tag \<and> Wosize_val (mem t) v = 3 \<and>
     Field (mem t) v 0 = ops \<and> w64 (Int64_val (mem t) v) = x)"

lemma alloc_small_header:
  assumes "header_ok wosize tag Caml_black"
  obtains v t where "alloc_small fns wosize tag s = (v, t)" "Wosize_hd (mem t (v - 4)) = wosize" "Tag_hd (mem t (v - 4)) = tag"
proof -
  obtain v t where e: "alloc_small fns wosize tag s = (v, t)" by fastforce
  then have "mem t (v - 4) = Make_header wosize tag Caml_black"
    by (auto simp: alloc_small_def Alloc_small_def Let_def Val_hp_def)
  then show thesis using that [OF e] Make_header_fields [OF assms] by simp
qed

lemma alloc_custom_young:
  assumes "mem s (ops + 4) = 0" and "sz = 4 \<and> w = 2 \<or> sz = 8 \<and> w = 3"
  obtains v t where "alloc_custom fns ops sz r n s = Returns v t" "Wosize_hd (mem t (v - 4)) = w"
    "Tag_hd (mem t (v - 4)) = Custom_tag" "mem t v = ops"
proof -
  have w: "1 + (sz + 4 - 1) div 4 = w" using assms(2) by auto
  have "header_ok w Custom_tag Caml_black"
    using assms(2) by (auto simp: header_ok_def Max_wosize_def Custom_tag_def)
  then obtain v t where a: "alloc_small fns w Custom_tag s = (v, t)" "Wosize_hd (mem t (v - 4)) = w"
    "Tag_hd (mem t (v - 4)) = Custom_tag" by (rule alloc_small_header)
  let ?t = "t\<lparr>mem := set_Field v 0 ops (mem t)\<rparr>"
  have "alloc_custom fns ops sz r n s = Returns v ?t"
    using assms a(1) w by (auto simp: alloc_custom_def Let_def Max_young_wosize_def)
  moreover have "v - 4 \<noteq> v" by simp
  ultimately show thesis using that [of v ?t] a(2,3) by (simp add: set_Field_def)
qed

lemma field_not_header: "v - 4 \<noteq> v + 4" "v - 4 \<noteq> v + (8 :: uint32)" "v + 4 \<noteq> v" "v + 8 \<noteq> v" "v + 4 \<noteq> v + (8 :: uint32)"
proof -
  show "v - 4 \<noteq> v + 4"
  proof
    assume "v - 4 = v + 4"
    then have "v + - 4 = v + 4" by simp
    then have "- 4 = (4 :: uint32)" by (rule add_left_imp_eq)
    then show False by simp
  qed
  show "v - 4 \<noteq> v + 8"
  proof
    assume "v - 4 = v + 8"
    then have "v + - 4 = v + 8" by simp
    then have "- 4 = (8 :: uint32)" by (rule add_left_imp_eq)
    then show False by simp
  qed
qed simp_all

lemma boxed32_alloc:
  assumes "mem s (ops + 4) = 0"
  shows "boxed32 (andThen (alloc_custom fns ops 4 0 1 s) (\<lambda>v s. Returns v (s\<lparr>mem := set_Field v 1 i (mem s)\<rparr>))) ops i"
proof -
  obtain v t where a: "alloc_custom fns ops 4 0 1 s = Returns v t" "Wosize_hd (mem t (v - 4)) = 2"
    "Tag_hd (mem t (v - 4)) = Custom_tag" "mem t v = ops"
    using assms by (rule alloc_custom_young [where sz = 4 and w = 2 and r = 0 and n = 1]) auto
  let ?t = "t\<lparr>mem := set_Field v 1 i (mem t)\<rparr>"
  have m: "mem ?t (v - 4) = mem t (v - 4)" "mem ?t v = ops" "mem ?t (v + 4) = i"
    using a(4) field_not_header [of v] by (simp_all add: set_Field_def)
  show ?thesis unfolding boxed32_def a(1) andThen_simps
    using a(2,3) m by (intro exI [of _ v] exI [of _ ?t] conjI refl)
      (simp_all only: Tag_val_def Wosize_val_def Hd_val_def Field_def mult_1_right mult_zero_right add_0_right)
qed

lemma boxed_copy_int32: "mem s (int32_ops s + 4) = 0 \<Longrightarrow> boxed32 (copy_int32 fns i s) (int32_ops s) i"
  unfolding copy_int32_def by (rule boxed32_alloc)

lemma boxed_copy_nativeint:
  "mem s (nativeint_ops s + 4) = 0 \<Longrightarrow> boxed32 (copy_nativeint fns i s) (nativeint_ops s) i"
  unfolding copy_nativeint_def by (rule boxed32_alloc)

lemma boxed_copy_int64:
  assumes "mem s (int64_ops s + 4) = 0"
  shows "boxed64 (copy_int64 fns i s) (int64_ops s) (w64 i)"
proof -
  obtain v t where a: "alloc_custom fns (int64_ops s) 8 0 1 s = Returns v t" "Wosize_hd (mem t (v - 4)) = 3"
    "Tag_hd (mem t (v - 4)) = Custom_tag" "mem t v = int64_ops s"
    using assms by (rule alloc_custom_young [where sz = 8 and w = 3 and r = 0 and n = 1]) auto
  let ?t = "t\<lparr>mem := set_Field v 2 (i64_h i) (set_Field v 1 (i64_l i) (mem t))\<rparr>"
  have m: "mem ?t (v - 4) = mem t (v - 4)" "mem ?t v = int64_ops s" "mem ?t (v + 4) = i64_l i" "mem ?t (v + 8) = i64_h i"
    using a(4) field_not_header [of v] by (simp_all add: set_Field_def)
  then have i: "Int64_val (mem ?t) v = i" by (simp add: Int64_val_def Field_def mk64_def)
  have c: "copy_int64 fns i s = Returns v ?t" unfolding copy_int64_def a(1) andThen_simps by simp
  show ?thesis unfolding boxed64_def c
    using a(2,3) m(1,2) i by (intro exI [of _ v] exI [of _ ?t] conjI refl)
      (simp_all only: Tag_val_def Wosize_val_def Hd_val_def Field_def mult_1_right mult_zero_right add_0_right)
qed

subsection \<open>Arithmetic on boxed words\<close>

text \<open>
  What \<open>copy_int32\<close> and \<open>copy_nativeint\<close> share: \<open>copy\<close> boxes an integer under the operations \<open>ops\<close>.
\<close>

locale boxed_word =
  fixes copy :: "fns \<Rightarrow> uint32 \<Rightarrow> machine \<Rightarrow> val result"
    and ops :: "machine \<Rightarrow> addr"
  assumes copy_boxed: "mem s (ops s + 4) = 0 \<Longrightarrow> boxed32 (copy fns i s) (ops s) i"
begin

lemma box_ring:
  assumes "mem s (ops s + 4) = 0"
  shows "boxed32 (copy fns (a + b) s) (ops s) (word_of_int (sint a + sint b))"
    and "boxed32 (copy fns (a - b) s) (ops s) (word_of_int (sint a - sint b))"
    and "boxed32 (copy fns (a * b) s) (ops s) (word_of_int (sint a * sint b))"
  using copy_boxed [OF assms] by (simp_all add: word_of_int_add_eq word_of_int_diff_eq word_of_int_mult_eq)

lemma box_neg: "mem s (ops s + 4) = 0 \<Longrightarrow> boxed32 (copy fns (- a) s) (ops s) (word_of_int (- sint a))"
  by (simp add: copy_boxed word_of_int_neg_eq)

lemma box_div:
  assumes "mem s (ops s + 4) = 0"
  shows "boxed32 (copy fns (c_div a b) s) (ops s) (word_of_int (sint a sdiv sint b))"
    and "boxed32 (copy fns (c_mod a b) s) (ops s) (word_of_int (sint a smod sint b))"
  using copy_boxed [OF assms] by (simp_all add: c_div_def c_mod_def)

lemma box_shift:
  assumes "mem s (ops s + 4) = 0" and "n < 32"
  shows "boxed32 (copy fns (c_shl a (Int_val (rep_int (int n)))) s) (ops s) (word_of_int (sint a * 2 ^ n))"
    and "boxed32 (copy fns (c_sar a (Int_val (rep_int (int n)))) s) (ops s) (word_of_int (sint a div 2 ^ n))"
    and "boxed32 (copy fns (c_shr a (Int_val (rep_int (int n)))) s) (ops s) (word_of_int (uint a div 2 ^ n))"
proof -
  have "Int_val (rep_int (int n)) = word_of_nat n" using index_word(1) [of "int n"] assms(2) by simp
  moreover have "unat (word_of_nat n :: uint32) = n" using assms(2) by (intro unat_word_of_nat_small) simp
  ultimately have u: "unat (Int_val (rep_int (int n))) = n" by simp
  have "c_shl a (Int_val (rep_int (int n))) = word_of_int (sint a * 2 ^ n)"
    by (simp add: c_shl_def u push_bit_eq_mult word_of_int_mult_eq of_int_power)
  then show "boxed32 (copy fns (c_shl a (Int_val (rep_int (int n)))) s) (ops s) (word_of_int (sint a * 2 ^ n))"
    using copy_boxed [OF assms(1)] by simp
  have "c_sar a (Int_val (rep_int (int n))) = word_of_int (sint a div 2 ^ n)"
    using word_of_int_sint_eq [of "signed_drop_bit n a"]
    by (simp only: c_sar_def u sint_signed_drop_bit_eq drop_bit_eq_div)
  then show "boxed32 (copy fns (c_sar a (Int_val (rep_int (int n)))) s) (ops s) (word_of_int (sint a div 2 ^ n))"
    using copy_boxed [OF assms(1)] by simp
  have "c_shr a (Int_val (rep_int (int n))) = word_of_int (uint a div 2 ^ n)"
  proof -
    have "uint (drop_bit n a) = drop_bit n (uint a)" by (simp only: unsigned_drop_bit_eq bintr_uint [OF order_refl])
    then have "uint (drop_bit n a) = uint a div 2 ^ n" by (simp only: drop_bit_eq_div [of n "uint a"])
    then show ?thesis using word_of_int_uint [of "drop_bit n a"] by (simp only: c_shr_def u)
  qed
  then show "boxed32 (copy fns (c_shr a (Int_val (rep_int (int n)))) s) (ops s) (word_of_int (uint a div 2 ^ n))"
    using copy_boxed [OF assms(1)] by simp
qed

end

interpretation box32: boxed_word copy_int32 int32_ops
  by unfold_locales (rule boxed_copy_int32)

interpretation boxn: boxed_word copy_nativeint nativeint_ops
  by unfold_locales (rule boxed_copy_nativeint)

lemma sint_same: "sint a = sint b \<longleftrightarrow> a = (b :: uint32)"
  by (metis word_of_int_sint_eq)

lemma int_val_compare: "(if a = b then 0 else if slt a b then - 1 else 1) = cmp3 (sint a) (sint (b :: uint32))"
  using sint_same [of a b] by (auto simp: cmp3_def slt_def)

subsection \<open>The properties\<close>

text \<open>
  32-bit and native integers.  The primitives return a new custom block of the right kind that holds the result
  of the integer operation modulo \<open>2 ^ 32\<close>: sums, differences, products, truncating quotients and remainders, and
  shifts by less than 32; division by zero raises \<open>Division_by_zero\<close>; comparison is that of the integers.
\<close>

theorem boxed_int32_primitives:
  assumes z: "mem s (int32_ops s + 4) = 0" "mem s (nativeint_ops s + 4) = 0" and n: "n < 32"
    and a: "a = sint (Int32_val (mem s) v1)" and b: "b = sint (Int32_val (mem s) v2)"
  shows "(\<forall>(op, opn, x) \<in> {(int32_add, nativeint_add, a + b), (int32_sub, nativeint_sub, a - b), (int32_mul, nativeint_mul, a * b)}.
      boxed32 (op fns v1 v2 s) (int32_ops s) (word_of_int x) \<and> boxed32 (opn fns v1 v2 s) (nativeint_ops s) (word_of_int x)) \<and>
    boxed32 (int32_neg fns v1 s) (int32_ops s) (word_of_int (- a)) \<and>
    (b \<noteq> 0 \<longrightarrow> boxed32 (int32_div fns v1 v2 s) (int32_ops s) (word_of_int (a sdiv b)) \<and>
      boxed32 (int32_mod fns v1 v2 s) (int32_ops s) (word_of_int (a smod b))) \<and>
    (b = 0 \<longrightarrow> int32_div fns v1 v2 s = raise_zero_divide fns s \<and> int32_mod fns v1 v2 s = raise_zero_divide fns s \<and>
      nativeint_div fns v1 v2 s = raise_zero_divide fns s \<and> nativeint_mod fns v1 v2 s = raise_zero_divide fns s) \<and>
    boxed32 (int32_shift_left fns v1 (rep_int (int n)) s) (int32_ops s) (word_of_int (a * 2 ^ n)) \<and>
    boxed32 (int32_shift_right fns v1 (rep_int (int n)) s) (int32_ops s) (word_of_int (a div 2 ^ n)) \<and>
    int32_compare (mem s) v1 v2 = cmp3 a b \<and> nativeint_compare (mem s) v1 v2 = cmp3 a b"
proof (intro conjI impI)
  let ?a = "Int32_val (mem s) v1" and ?b = "Int32_val (mem s) v2"
  have same: "Nativeint_val (mem s) v1 = ?a" "Nativeint_val (mem s) v2 = ?b" by (simp_all add: Int32_val_def Nativeint_val_def)
  note r32 = box32.box_ring [OF z(1), of fns ?a ?b, folded a b]
    and rn = boxn.box_ring [OF z(2), of fns ?a ?b, folded a b]
  show "\<forall>(op, opn, x) \<in> {(int32_add, nativeint_add, a + b), (int32_sub, nativeint_sub, a - b), (int32_mul, nativeint_mul, a * b)}.
      boxed32 (op fns v1 v2 s) (int32_ops s) (word_of_int x) \<and> boxed32 (opn fns v1 v2 s) (nativeint_ops s) (word_of_int x)"
    using r32(1-3) rn(1-3)
    by (simp only: ball_simps prod.case int32_add_def nativeint_add_def int32_sub_def nativeint_sub_def int32_mul_def
        nativeint_mul_def same simp_thms)
  show "boxed32 (int32_neg fns v1 s) (int32_ops s) (word_of_int (- a))"
    using box32.box_neg [OF z(1), of fns ?a, folded a] by (simp only: int32_neg_def)
  have zero: "?b = 0 \<longleftrightarrow> b = 0" using sint_same [of ?b 0] by (simp add: b)
  show "boxed32 (int32_div fns v1 v2 s) (int32_ops s) (word_of_int (a sdiv b))" if "b \<noteq> 0"
    using that zero box32.box_div(1) [OF z(1), of fns ?a ?b] by (simp only: int32_div_def Let_def if_False a b)
  show "boxed32 (int32_mod fns v1 v2 s) (int32_ops s) (word_of_int (a smod b))" if "b \<noteq> 0"
    using that zero box32.box_div(2) [OF z(1), of fns ?a ?b] by (simp only: int32_mod_def Let_def if_False a b)
  show "int32_div fns v1 v2 s = raise_zero_divide fns s" "int32_mod fns v1 v2 s = raise_zero_divide fns s"
    "nativeint_div fns v1 v2 s = raise_zero_divide fns s" "nativeint_mod fns v1 v2 s = raise_zero_divide fns s" if "b = 0"
    using that zero by (simp_all add: int32_div_def int32_mod_def nativeint_div_def nativeint_mod_def same)
  show "boxed32 (int32_shift_left fns v1 (rep_int (int n)) s) (int32_ops s) (word_of_int (a * 2 ^ n))"
    "boxed32 (int32_shift_right fns v1 (rep_int (int n)) s) (int32_ops s) (word_of_int (a div 2 ^ n))"
    unfolding int32_shift_left_def int32_shift_right_def a by (rule box32.box_shift [OF z(1) n])+
  show "int32_compare (mem s) v1 v2 = cmp3 a b" "nativeint_compare (mem s) v1 v2 = cmp3 a b"
    using int_val_compare [of ?a ?b] by (simp_all add: int32_compare_def nativeint_compare_def same a b)
qed

theorem boxed_int32_primitives_witness:
  "boxed32 (int32_add quiet_fns 8 16 (boot_machine\<lparr>mem := (\<lambda>_. 0)(12 := 2147483647, 20 := 1)\<rparr>)) 0 (word_of_int 2147483648)"
proof -
  let ?s = "boot_machine\<lparr>mem := (\<lambda>_. 0)(12 := 2147483647, 20 := 1)\<rparr>"
  have ops: "int32_ops ?s = 0" "nativeint_ops ?s = 0" by (simp_all add: boot_machine_def)
  have v: "sint (Int32_val (mem ?s) 8) = 2147483647" "sint (Int32_val (mem ?s) 16) = 1"
    by (simp_all add: Int32_val_def Field_def)
  show ?thesis using boxed_int32_primitives [of ?s 0 2147483647 8 1 16 quiet_fns, OF _ _ _ v(1) [symmetric] v(2) [symmetric]]
    by (simp add: ops)
qed

text \<open>
  C40.  64-bit integers.  Each primitive returns a new custom block that holds the 64-bit result of the operation on
  the 64-bit readings of its operands, although the integers are pairs of 32-bit words; a division by zero raises,
  every other division ends; conversions from 32 bits extend the sign, conversions to 32 bits truncate.
\<close>

theorem boxed_int64_primitives:
  assumes z: "mem s (int64_ops s + 4) = 0" "mem s (int32_ops s + 4) = 0"
    and x: "x = w64 (Int64_val (mem s) v1)" and y: "y = w64 (Int64_val (mem s) v2)"
  shows "boxed64 (int64_add fns v1 v2 s) (int64_ops s) (x + y) \<and> boxed64 (int64_sub fns v1 v2 s) (int64_ops s) (x - y) \<and>
    boxed64 (int64_mul fns v1 v2 s) (int64_ops s) (x * y) \<and> boxed64 (int64_neg fns v1 s) (int64_ops s) (- x) \<and>
    boxed64 (int64_and fns v1 v2 s) (int64_ops s) (x AND y) \<and> boxed64 (int64_or fns v1 v2 s) (int64_ops s) (x OR y) \<and>
    boxed64 (int64_xor fns v1 v2 s) (int64_ops s) (x XOR y) \<and>
    (y \<noteq> 0 \<longrightarrow> boxed64 (int64_div fns v1 v2 s) (int64_ops s) (word_of_int (sint x sdiv sint y)) \<and>
      boxed64 (int64_mod fns v1 v2 s) (int64_ops s) (word_of_int (sint x smod sint y))) \<and>
    (y = 0 \<longrightarrow> int64_div fns v1 v2 s = raise_zero_divide fns s \<and> int64_mod fns v1 v2 s = raise_zero_divide fns s) \<and>
    boxed64 (int64_of_int32 fns v s) (int64_ops s) (scast (Int32_val (mem s) v)) \<and>
    boxed32 (int64_to_int32 fns v1 s) (int32_ops s) (ucast x) \<and>
    int64_compare (mem s) v1 v2 = cmp3 (sint x) (sint y)"
proof -
  let ?x = "Int64_val (mem s) v1" and ?y = "Int64_val (mem s) v2"
  note c = boxed_copy_int64 [OF z(1), of fns]
  have div: "boxed64 (int64_div fns v1 v2 s) (int64_ops s) (word_of_int (sint x sdiv sint y)) \<and>
      boxed64 (int64_mod fns v1 v2 s) (int64_ops s) (word_of_int (sint x smod sint y))" if "y \<noteq> 0"
  proof -
    have nz: "w64 ?y \<noteq> 0" using that y by simp
    obtain q where q: "I64_div ?x ?y = Some q" "w64 q = word_of_int (sint x sdiv sint y)"
      using div_w64(1) [OF nz, of ?x] x y by auto
    obtain r where r: "I64_mod ?x ?y = Some r" "w64 r = word_of_int (sint x smod sint y)"
      using div_w64(2) [OF nz, of ?x] x y by auto
    show ?thesis using c [of q] c [of r] q r nz by (simp add: int64_div_def int64_mod_def is_zero_w64)
  qed
  have "y = 0 \<longrightarrow> int64_div fns v1 v2 s = raise_zero_divide fns s \<and> int64_mod fns v1 v2 s = raise_zero_divide fns s"
    using y by (simp add: int64_div_def int64_mod_def is_zero_w64)
  moreover have "boxed64 (int64_of_int32 fns v s) (int64_ops s) (scast (Int32_val (mem s) v))"
    using c [of "I64_of_int32 (Int32_val (mem s) v)"] by (simp add: int64_of_int32_def of_int32_w64)
  moreover have "boxed32 (int64_to_int32 fns v1 s) (int32_ops s) (ucast x)"
    using boxed_copy_int32 [OF z(2), of fns "I64_to_int32 ?x"] x by (simp add: int64_to_int32_def to_int32_w64)
  moreover have "int64_compare (mem s) v1 v2 = cmp3 (sint x) (sint y)" by (simp add: int64_compare_def compare_w64 x y)
  ultimately show ?thesis
    using div c [of "I64_add ?x ?y"] c [of "I64_sub ?x ?y"] c [of "I64_mul ?x ?y"] c [of "I64_neg ?x"] c [of "I64_and ?x ?y"]
      c [of "I64_or ?x ?y"] c [of "I64_xor ?x ?y"]
    by (simp add: x y int64_add_def int64_sub_def int64_mul_def int64_neg_def int64_and_def int64_or_def int64_xor_def
        w64_add w64_sub w64_mul w64_neg w64_bitwise)
qed

theorem boxed_int64_primitives_witness:
  "boxed64 (int64_mul quiet_fns 8 8 (boot_machine\<lparr>mem := (\<lambda>_. 0)(12 := 4294967295)\<rparr>)) 0
     (w64 (mk64 0 4294967295) * w64 (mk64 0 4294967295))"
proof -
  let ?s = "boot_machine\<lparr>mem := (\<lambda>_. 0)(12 := 4294967295)\<rparr>"
  have ops: "int32_ops ?s = 0" "int64_ops ?s = 0" by (simp_all add: boot_machine_def)
  have "Int64_val (mem ?s) 8 = mk64 0 4294967295" by (simp add: Int64_val_def Field_def)
  then show ?thesis using boxed_int64_primitives [of ?s _ 8 _ 8 quiet_fns 8, OF _ _ refl refl] by (simp add: ops)
qed

end
