(* ===== verification/Compare.thy ===== *)
theory Compare
  imports Ints
begin

text \<open>
  Polymorphic comparison (\<^verbatim>\<open>byterun/compare.c\<close>): the traversal of two values with an explicit stack
  of pending fields, which grows on demand, and the primitives behind \<^verbatim>\<open>compare\<close>, \<^verbatim>\<open>=\<close>, \<^verbatim>\<open><\<close>
  and the other polymorphic operators.
\<close>

subsection \<open>Doubles\<close>

text \<open>
  The comparison of IEEE doubles on their bits, the low word first: \<open>d_key\<close> is the magnitude with its sign, so that both
  zeros have the key 0, and no comparison with a NaN holds.
\<close>

definition d_nan :: "uint32 \<times> uint32 \<Rightarrow> bool" where
  "d_nan d \<longleftrightarrow> 0x7FF00000 < snd d AND 0x7FFFFFFF \<or> snd d AND 0x7FFFFFFF = 0x7FF00000 \<and> fst d \<noteq> 0"

definition d_key :: "uint32 \<times> uint32 \<Rightarrow> int" where
  "d_key d = (let k = uint (snd d AND 0x7FFFFFFF) * 2 ^ 32 + uint (fst d) in if bit (snd d) 31 then - k else k)"

definition d_less :: "uint32 \<times> uint32 \<Rightarrow> uint32 \<times> uint32 \<Rightarrow> bool" where
  "d_less a b \<longleftrightarrow> \<not> d_nan a \<and> \<not> d_nan b \<and> d_key a < d_key b"

subsection \<open>The stack of pending fields\<close>

text \<open>
  An item gives the addresses of the next two fields to compare and how many there are.  \<open>items\<close> are the items from
  \<open>sp\<close> down (slot 0 of the C array is never used), \<open>room\<close> is the number of slots, and \<open>malloced\<close> tells whether
  \<^verbatim>\<open>compare_stack\<close> is no longer \<^verbatim>\<open>compare_stack_init\<close>.
\<close>

record compare_item =
  ci_v1 :: addr
  ci_v2 :: addr
  ci_count :: uint32

record compare_stack =
  items :: "compare_item list"
  room :: nat
  malloced :: bool

text \<open>
  What the comparison calls: whether the C allocator can give so many bytes, and the functions of custom blocks by their address.
\<close>

record compare_fns =
  avail :: "nat \<Rightarrow> bool"
  compare_fun :: "addr \<Rightarrow> mem \<Rightarrow> val \<Rightarrow> val \<Rightarrow> uint32"
  hash_fun :: "addr \<Rightarrow> mem \<Rightarrow> val \<Rightarrow> uint32"

definition COMPARE_STACK_INIT_SIZE :: nat where "COMPARE_STACK_INIT_SIZE = 256"
definition COMPARE_STACK_MAX_SIZE :: nat where "COMPARE_STACK_MAX_SIZE = 1024 * 1024"

definition compare_stack_init :: compare_stack where
  "compare_stack_init = \<lparr>items = [], room = COMPARE_STACK_INIT_SIZE, malloced = False\<rparr>"

definition compare_free_stack :: "compare_stack \<Rightarrow> compare_stack" where
  "compare_free_stack c = (if malloced c then c\<lparr>malloced := False, room := COMPARE_STACK_INIT_SIZE\<rparr> else c)"

definition compare_stack_overflow :: "compare_stack \<Rightarrow> machine \<Rightarrow> 'a result \<times> compare_stack" where
  "compare_stack_overflow c s = (raise_out_of_memory s, compare_free_stack c)"

definition compare_resize_stack ::
  "compare_fns \<Rightarrow> compare_stack \<Rightarrow> machine \<Rightarrow> ('a result \<times> compare_stack) + compare_stack" where
  "compare_resize_stack cf c s =
     (let newsize = 2 * room c
      in if newsize \<ge> COMPARE_STACK_MAX_SIZE then Inl (compare_stack_overflow c s)
         else if \<not> avail cf (12 * newsize) then Inl (compare_stack_overflow c s)
         else Inr (c\<lparr>malloced := True, room := newsize\<rparr>))"

subsection \<open>The traversal\<close>

definition Oid_val :: "mem \<Rightarrow> val \<Rightarrow> uint32" where
  "Oid_val m v = Long_val (Field m v 1)"

definition Custom_ops_val :: "mem \<Rightarrow> val \<Rightarrow> addr" where
  "Custom_ops_val m v = m v"

text \<open>The third and the fourth word of a \<^verbatim>\<open>struct custom_operations\<close>.\<close>

definition ops_compare :: "mem \<Rightarrow> addr \<Rightarrow> addr" where "ops_compare m a = m (a + 8)"
definition ops_hash :: "mem \<Rightarrow> addr \<Rightarrow> addr" where "ops_hash m a = m (a + 12)"

definition managed :: "machine \<Rightarrow> val \<Rightarrow> bool" where
  "managed s v \<longleftrightarrow> Is_atom s v \<or> Is_young s v \<or> Is_in_heap s v"

text \<open>The loop on the bytes of two strings: the first difference, if there is one among the next \<open>len\<close> bytes.\<close>

fun compare_bytes :: "mem \<Rightarrow> val \<Rightarrow> val \<Rightarrow> nat \<Rightarrow> nat \<Rightarrow> uint32 option" where
  "compare_bytes m v1 v2 k 0 = None"
| "compare_bytes m v1 v2 k (Suc len) =
     (let b1 = Byte_u m v1 (word_of_nat k); b2 = Byte_u m v2 (word_of_nat k)
      in if b1 \<noteq> b2 then Some (ucast b1 - ucast b2) else compare_bytes m v1 v2 (Suc k) len)"

fun compare_doubles :: "mem \<Rightarrow> val \<Rightarrow> val \<Rightarrow> nat \<Rightarrow> nat \<Rightarrow> uint32 option" where
  "compare_doubles m v1 v2 i 0 = None"
| "compare_doubles m v1 v2 i (Suc n) =
     (let d1 = Double_field m v1 (word_of_nat i); d2 = Double_field m v2 (word_of_nat i)
      in if d_less d1 d2 then Some (- 1) else if d_less d2 d1 then Some 1 else compare_doubles m v1 v2 (Suc i) n)"

text \<open>One turn of the loop ends the comparison or goes on with two values.\<close>

type_synonym compare_turn = "(uint32 result \<times> compare_stack) + (val \<times> val \<times> compare_stack)"

definition next_item :: "compare_stack \<Rightarrow> machine \<Rightarrow> compare_turn" where
  "next_item c s =
     (case items c of
        [] \<Rightarrow> Inl (Returns 0 s, c)
      | it # rest \<Rightarrow>
          let n = ci_count it - 1;
              it' = \<lparr>ci_v1 = ci_v1 it + 4, ci_v2 = ci_v2 it + 4, ci_count = n\<rparr>
          in Inr (mem s (ci_v1 it), mem s (ci_v2 it), c\<lparr>items := if n = 0 then rest else it' # rest\<rparr>))"

definition push_fields :: "compare_fns \<Rightarrow> val \<Rightarrow> val \<Rightarrow> uint32 \<Rightarrow> compare_stack \<Rightarrow> machine
    \<Rightarrow> (uint32 result \<times> compare_stack) + compare_stack" where
  "push_fields cf v1 v2 sz1 c s =
     (let it = \<lparr>ci_v1 = v1 + 4, ci_v2 = v2 + 4, ci_count = sz1 - 1\<rparr>;
          r = (if room c \<le> length (items c) + 1 then compare_resize_stack cf c s else Inr c)
      in case r of Inl e \<Rightarrow> Inl e | Inr c \<Rightarrow> Inr (c\<lparr>items := it # items c\<rparr>))"

definition ret :: "uint32 \<Rightarrow> compare_stack \<Rightarrow> machine \<Rightarrow> compare_turn" where
  "ret n c s = Inl (Returns n s, c)"

text \<open>The \<^verbatim>\<open>switch\<close> on the tag of two blocks that have the same tag.\<close>

definition compare_switch :: "fns \<Rightarrow> compare_fns \<Rightarrow> uint32 \<Rightarrow> val \<Rightarrow> val \<Rightarrow> compare_stack \<Rightarrow> machine \<Rightarrow> compare_turn" where
  "compare_switch fns cf t1 v1 v2 c s =
     (let m = mem s
      in if t1 = String_tag
         then let len1 = string_length m v1; len2 = string_length m v2
              in (case compare_bytes m v1 v2 0 (unat (if len1 \<le> len2 then len1 else len2)) of
                    Some r \<Rightarrow> ret r c s
                  | None \<Rightarrow> if len1 \<noteq> len2 then ret (len1 - len2) c s else next_item c s)
         else if t1 = Double_tag
         then let d1 = Double_val m v1; d2 = Double_val m v2
              in if d_less d1 d2 then ret (- 1) c s else if d_less d2 d1 then ret 1 c s else next_item c s
         else if t1 = Double_array_tag
         then let sz1 = Wosize_val m v1 div Double_wosize; sz2 = Wosize_val m v2 div Double_wosize
              in if sz1 \<noteq> sz2 then ret (sz1 - sz2) c s
                 else (case compare_doubles m v1 v2 0 (unat sz1) of Some r \<Rightarrow> ret r c s | None \<Rightarrow> next_item c s)
         else if t1 = Abstract_tag then Inl (invalid_argument fns ''equal: abstract value'' s, compare_free_stack c)
         else if t1 = Closure_tag \<or> t1 = Infix_tag
         then Inl (invalid_argument fns ''equal: functional value'' s, compare_free_stack c)
         else if t1 = Object_tag
         then let oid1 = Oid_val m v1; oid2 = Oid_val m v2
              in if oid1 \<noteq> oid2 then ret (oid1 - oid2) c s else next_item c s
         else if t1 = Custom_tag
         then let f = ops_compare m (Custom_ops_val m v1)
              in if f = 0 then Inl (failwith fns ''equal: abstract value'' s, c)
                 else let res = compare_fun cf f m v1 v2
                      in if res \<noteq> 0 then ret res c s else next_item c s
         else let sz1 = Wosize_val m v1; sz2 = Wosize_val m v2
              in if sz1 \<noteq> sz2 then ret (sz1 - sz2) c s
                 else if sz1 = 0 then next_item c s
                 else if 1 < sz1
                 then (case push_fields cf v1 v2 sz1 c s of
                         Inl e \<Rightarrow> Inl e
                       | Inr c \<Rightarrow> Inr (Field m v1 0, Field m v2 0, c))
                 else Inr (Field m v1 0, Field m v2 0, c))"

text \<open>
  The difference of two addresses outside the heap is that of the shifted (signed) words.
\<close>

definition compare_turn :: "fns \<Rightarrow> compare_fns \<Rightarrow> val \<Rightarrow> val \<Rightarrow> compare_stack \<Rightarrow> machine \<Rightarrow> compare_turn" where
  "compare_turn fns cf v1 v2 c s =
     (let m = mem s
      in if v1 = v2 then next_item c s
         else if Is_long v1
         then if Is_long v2 then ret (Long_val v1 - Long_val v2) c s
              else if managed s v2 \<and> Tag_val m v2 = Forward_tag then Inr (v1, Forward_val m v2, c)
              else ret (- 1) c s
         else if Is_long v2
         then if managed s v1 \<and> Tag_val m v1 = Forward_tag then Inr (Forward_val m v1, v2, c) else ret 1 c s
         else if \<not> managed s v1 \<or> \<not> managed s v2 then ret (c_sar v1 1 - c_sar v2 1) c s
         else let t1 = Tag_val m v1; t2 = Tag_val m v2
              in if t1 = Forward_tag then Inr (Forward_val m v1, v2, c)
                 else if t2 = Forward_tag then Inr (v1, Forward_val m v2, c)
                 else if t1 \<noteq> t2 then ret (t1 - t2) c s
                 else compare_switch fns cf t1 v1 v2 c s)"

text \<open>Cyclic values may be compared for ever: the value is then \<open>None\<close>.\<close>

partial_function (option) compare_loop ::
  "fns \<Rightarrow> compare_fns \<Rightarrow> val \<Rightarrow> val \<Rightarrow> compare_stack \<Rightarrow> machine \<Rightarrow> (uint32 result \<times> compare_stack) option" where
  "compare_loop fns cf v1 v2 c s =
     (case compare_turn fns cf v1 v2 c s of
        Inl r \<Rightarrow> Some r
      | Inr (v1, v2, c) \<Rightarrow> compare_loop fns cf v1 v2 c s)"

definition compare_val ::
  "fns \<Rightarrow> compare_fns \<Rightarrow> val \<Rightarrow> val \<Rightarrow> compare_stack \<Rightarrow> machine \<Rightarrow> (uint32 result \<times> compare_stack) option" where
  "compare_val fns cf v1 v2 c s = compare_loop fns cf v1 v2 (c\<lparr>items := []\<rparr>) s"

subsection \<open>The primitives\<close>

definition compare_with :: "(uint32 \<Rightarrow> uint32) \<Rightarrow> fns \<Rightarrow> compare_fns \<Rightarrow> val \<Rightarrow> val \<Rightarrow> compare_stack \<Rightarrow> machine
    \<Rightarrow> val result \<times> compare_stack" where
  "compare_with answer fns cf v1 v2 c s =
     (case compare_val fns cf v1 v2 c s of
        None \<Rightarrow> (Loops, c)
      | Some (Returns res s, c) \<Rightarrow> (Returns (Val_int (answer res)) s, if malloced c then compare_free_stack c else c)
      | Some (Raises s, c) \<Rightarrow> (Raises s, c)
      | Some (Dies msg s, c) \<Rightarrow> (Dies msg s, c)
      | Some (Loops, c) \<Rightarrow> (Loops, c))"

definition compare_prim :: "fns \<Rightarrow> compare_fns \<Rightarrow> val \<Rightarrow> val \<Rightarrow> compare_stack \<Rightarrow> machine \<Rightarrow> val result \<times> compare_stack" where
  "compare_prim = compare_with (\<lambda>res. if slt res 0 then - 1 else if slt 0 res then 1 else 0)"

definition equal_prim :: "fns \<Rightarrow> compare_fns \<Rightarrow> val \<Rightarrow> val \<Rightarrow> compare_stack \<Rightarrow> machine \<Rightarrow> val result \<times> compare_stack" where
  "equal_prim = compare_with (\<lambda>res. of_bool (res = 0))"

definition notequal :: "fns \<Rightarrow> compare_fns \<Rightarrow> val \<Rightarrow> val \<Rightarrow> compare_stack \<Rightarrow> machine \<Rightarrow> val result \<times> compare_stack" where
  "notequal = compare_with (\<lambda>res. of_bool (res \<noteq> 0))"

definition lessthan :: "fns \<Rightarrow> compare_fns \<Rightarrow> val \<Rightarrow> val \<Rightarrow> compare_stack \<Rightarrow> machine \<Rightarrow> val result \<times> compare_stack" where
  "lessthan = compare_with (\<lambda>res. of_bool (slt res 0))"

definition lessequal :: "fns \<Rightarrow> compare_fns \<Rightarrow> val \<Rightarrow> val \<Rightarrow> compare_stack \<Rightarrow> machine \<Rightarrow> val result \<times> compare_stack" where
  "lessequal = compare_with (\<lambda>res. of_bool (sle res 0))"

definition greaterthan :: "fns \<Rightarrow> compare_fns \<Rightarrow> val \<Rightarrow> val \<Rightarrow> compare_stack \<Rightarrow> machine \<Rightarrow> val result \<times> compare_stack" where
  "greaterthan = compare_with (\<lambda>res. of_bool (slt 0 res))"

definition greaterequal :: "fns \<Rightarrow> compare_fns \<Rightarrow> val \<Rightarrow> val \<Rightarrow> compare_stack \<Rightarrow> machine \<Rightarrow> val result \<times> compare_stack" where
  "greaterequal = compare_with (\<lambda>res. of_bool (sle 0 res))"

end
