(* ===== verification/Compare_Trees.thy ===== *)
theory Compare_Trees
  imports Compare
begin

text \<open>
  The meaning of polymorphic comparison.  \<open>tree_of\<close> reads a value of the heap as a tree, following the
  \<^verbatim>\<open>Forward\<close> blocks of forced suspensions, and \<open>tcmp\<close> compares two trees by recursion.  The loop of
  \<^verbatim>\<open>compare_val\<close> gives exactly the result of \<open>tcmp\<close>, within the depth of stack that \<open>need\<close> states.
\<close>

subsection \<open>Values as trees\<close>

text \<open>
  A closure, a pointer into a closure or an abstract block is \<open>Opq\<close> with its tag and address; of an object only the
  identity counts.
\<close>

datatype tree = Lng int | Str "uint8 list" | Dbl "uint32 \<times> uint32" | Dbls "(uint32 \<times> uint32) list" | Obj int
  | Cus addr | Opq uint32 addr | Nd uint32 "tree list"

text \<open>
  The tree of a value, if at most \<open>n\<close> blocks (and at least the value itself) lie on any path and all of them are blocks that
  the runtime manages.
\<close>

definition tree_node :: "(val \<Rightarrow> bool) \<Rightarrow> mem \<Rightarrow> (val \<Rightarrow> tree option) \<Rightarrow> val \<Rightarrow> tree option" where
  [simp]: "tree_node mg m f v =
     (let tag = Tag_val m v
      in if Is_long v then Some (Lng (sint (Long_val v)))
         else if \<not> mg v then None
         else if tag = Forward_tag then f (Forward_val m v)
         else if tag = String_tag
         then if unat (string_length m v) < unat (Bosize_val m v)
              then Some (Str (load_bytes m v 0 (unat (string_length m v)))) else None
         else if tag = Double_tag then Some (Dbl (Double_val m v))
         else if tag = Double_array_tag
         then Some (Dbls (map (\<lambda>i. Double_field m v (word_of_nat i)) [0..<unat (Wosize_val m v div Double_wosize)]))
         else if tag = Object_tag then Some (Obj (sint (Oid_val m v)))
         else if tag = Custom_tag then Some (Cus v)
         else if tag \<in> {Abstract_tag, Closure_tag, Infix_tag} then Some (Opq tag v)
         else map_option (Nd tag) (those (map (\<lambda>i. f (Field m v (word_of_nat i))) [0..<unat (Wosize_val m v)])))"

fun tree_at :: "nat \<Rightarrow> (val \<Rightarrow> bool) \<Rightarrow> mem \<Rightarrow> val \<Rightarrow> tree option" where
  "tree_at 0 mg m v = None"
| "tree_at (Suc n) mg m v = tree_node mg m (tree_at n mg m) v"

abbreviation tree_of :: "nat \<Rightarrow> machine \<Rightarrow> val \<Rightarrow> tree option" where
  "tree_of n s v \<equiv> tree_at n (managed s) (mem s) v"

subsection \<open>The comparison of trees\<close>

datatype verdict = Diff int | Functional | Abstract | No_compare

fun then_cmp :: "verdict \<Rightarrow> verdict \<Rightarrow> verdict" where
  "then_cmp (Diff n) w = (if n = 0 then w else Diff n)"
| "then_cmp Functional w = Functional"
| "then_cmp Abstract w = Abstract"
| "then_cmp No_compare w = No_compare"

text \<open>Bytes as unsigned numbers, a proper prefix first.\<close>

fun bytes_cmp :: "uint8 list \<Rightarrow> uint8 list \<Rightarrow> int" where
  "bytes_cmp (x # xs) (y # ys) = (if x \<noteq> y then uint x - uint y else bytes_cmp xs ys)"
| "bytes_cmp xs ys = int (length xs) - int (length ys)"

definition d_cmp :: "uint32 \<times> uint32 \<Rightarrow> uint32 \<times> uint32 \<Rightarrow> int" where
  "d_cmp a b = (if d_less a b then - 1 else if d_less b a then 1 else 0)"

fun doubles_cmp :: "(uint32 \<times> uint32) list \<Rightarrow> (uint32 \<times> uint32) list \<Rightarrow> int" where
  "doubles_cmp (x # xs) (y # ys) = (if d_cmp x y \<noteq> 0 then d_cmp x y else doubles_cmp xs ys)"
| "doubles_cmp xs ys = 0"

text \<open>Integers come before blocks, and blocks in the order of their tags.\<close>

fun tree_tag :: "tree \<Rightarrow> int" where
  "tree_tag (Lng i) = 0"
| "tree_tag (Str bs) = uint String_tag"
| "tree_tag (Dbl d) = uint Double_tag"
| "tree_tag (Dbls ds) = uint Double_array_tag"
| "tree_tag (Obj i) = uint Object_tag"
| "tree_tag (Cus a) = uint Custom_tag"
| "tree_tag (Opq t a) = uint t"
| "tree_tag (Nd t ts) = uint t"

fun shape_cmp :: "tree \<Rightarrow> tree \<Rightarrow> verdict" where
  "shape_cmp (Lng i) u = Diff (- 1)"
| "shape_cmp t (Lng j) = Diff 1"
| "shape_cmp t u = Diff (tree_tag t - tree_tag u)"

definition opaque_cmp :: "uint32 \<Rightarrow> verdict" where
  "opaque_cmp t = (if t = Abstract_tag then Abstract else Functional)"

definition custom_cmp :: "compare_fns \<Rightarrow> mem \<Rightarrow> addr \<Rightarrow> addr \<Rightarrow> verdict" where
  "custom_cmp cf m a b =
     (if a = b then Diff 0
      else let f = ops_compare m (Custom_ops_val m a) in if f = 0 then No_compare else Diff (sint (compare_fun cf f m a b)))"

fun tcmp :: "compare_fns \<Rightarrow> mem \<Rightarrow> tree \<Rightarrow> tree \<Rightarrow> verdict"
  and tcmps :: "compare_fns \<Rightarrow> mem \<Rightarrow> tree list \<Rightarrow> tree list \<Rightarrow> verdict" where
  "tcmp cf m (Lng i) u = (case u of Lng j \<Rightarrow> Diff (i - j) | _ \<Rightarrow> shape_cmp (Lng i) u)"
| "tcmp cf m (Str bs) u = (case u of Str cs \<Rightarrow> Diff (bytes_cmp bs cs) | _ \<Rightarrow> shape_cmp (Str bs) u)"
| "tcmp cf m (Dbl d) u = (case u of Dbl e \<Rightarrow> Diff (d_cmp d e) | _ \<Rightarrow> shape_cmp (Dbl d) u)"
| "tcmp cf m (Dbls ds) u =
     (case u of
        Dbls es \<Rightarrow> if length ds \<noteq> length es then Diff (int (length ds) - int (length es)) else Diff (doubles_cmp ds es)
      | _ \<Rightarrow> shape_cmp (Dbls ds) u)"
| "tcmp cf m (Obj i) u = (case u of Obj j \<Rightarrow> Diff (i - j) | _ \<Rightarrow> shape_cmp (Obj i) u)"
| "tcmp cf m (Cus a) u = (case u of Cus b \<Rightarrow> custom_cmp cf m a b | _ \<Rightarrow> shape_cmp (Cus a) u)"
| "tcmp cf m (Opq t a) u =
     (case u of Opq t' b \<Rightarrow> if t \<noteq> t' then Diff (uint t - uint t') else if a = b then Diff 0 else opaque_cmp t
      | _ \<Rightarrow> shape_cmp (Opq t a) u)"
| "tcmp cf m (Nd t ts) u =
     (case u of
        Nd t' us \<Rightarrow> if t \<noteq> t' then Diff (uint t - uint t')
                     else if length ts \<noteq> length us then Diff (int (length ts) - int (length us))
                     else tcmps cf m ts us
      | _ \<Rightarrow> shape_cmp (Nd t ts) u)"
| "tcmps cf m (t # ts) us = (case us of u # us \<Rightarrow> then_cmp (tcmp cf m t u) (tcmps cf m ts us) | [] \<Rightarrow> Diff 0)"
| "tcmps cf m [] us = Diff 0"

text \<open>
  The depth of stack that a tree needs: while a field is compared the fields after it wait in one slot, but nothing waits while
  the last field is compared.
\<close>

fun need :: "tree \<Rightarrow> nat" and needs :: "tree list \<Rightarrow> nat" where
  "need (Nd t ts) = needs ts"
| "need t = 0"
| "needs [] = 0"
| "needs (t # ts) = (if ts = [] then need t else max (Suc (need t)) (needs ts))"

subsection \<open>The loops on bytes and doubles\<close>

lemma upt_Cons: "k < n \<Longrightarrow> [k..<n] = k # [Suc k..<n]"
  by (rule upt_conv_Cons)

lemma bytes_cmp_Nil: "xs = [] \<or> ys = [] \<Longrightarrow> bytes_cmp xs ys = int (length xs) - int (length ys)"
  by (cases xs; cases ys) auto

lemma byte_diff: "word_of_int (uint x - uint y) = (ucast x - ucast y :: uint32)" for x y :: uint8
  by (simp add: of_int_diff)

lemma uint_same: "uint x = uint y \<longleftrightarrow> x = y" for x y :: "'a::len word"
  by (simp add: word_uint_eq_iff)

lemma compare_bytes_spec:
  fixes m v1 v2
  defines "b \<equiv> \<lambda>v i. Byte_u m v (word_of_nat i)"
  assumes "k + len \<le> n1" and "k + len \<le> n2"
  shows "case compare_bytes m v1 v2 k len of
      Some r \<Rightarrow> r = word_of_int (bytes_cmp (map (b v1) [k..<n1]) (map (b v2) [k..<n2])) \<and>
                 bytes_cmp (map (b v1) [k..<n1]) (map (b v2) [k..<n2]) \<noteq> 0
    | None \<Rightarrow> bytes_cmp (map (b v1) [k..<n1]) (map (b v2) [k..<n2]) =
                bytes_cmp (map (b v1) [k + len..<n1]) (map (b v2) [k + len..<n2])"
  using assms(2-)
proof (induction len arbitrary: k)
  case 0
  then show ?case by simp
next
  case (Suc len)
  then have "[k..<n1] = k # [Suc k..<n1]" "[k..<n2] = k # [Suc k..<n2]" by (simp_all add: upt_Cons)
  then show ?case using Suc.IH [of "Suc k"] Suc.prems
    by (simp add: Let_def b_def byte_diff uint_same split: option.splits)
qed

lemma compare_doubles_spec:
  fixes m v1 v2
  defines "d \<equiv> \<lambda>v i. Double_field m v (word_of_nat i)"
  assumes "k + n = e"
  shows "case compare_doubles m v1 v2 k n of
      Some r \<Rightarrow> r = word_of_int (doubles_cmp (map (d v1) [k..<e]) (map (d v2) [k..<e])) \<and>
                 doubles_cmp (map (d v1) [k..<e]) (map (d v2) [k..<e]) \<noteq> 0
    | None \<Rightarrow> doubles_cmp (map (d v1) [k..<e]) (map (d v2) [k..<e]) = 0"
  using assms(2)
proof (induction n arbitrary: k)
  case 0
  then show ?case by simp
next
  case (Suc n)
  then have "[k..<e] = k # [Suc k..<e]" by (simp add: upt_Cons)
  then show ?case using Suc.IH [of "Suc k"] Suc.prems by (simp add: Let_def d_def d_cmp_def split: option.splits)
qed

subsection \<open>Reading trees\<close>

lemma tree_of_long: "Is_long v \<Longrightarrow> tree_of n s v = Some t \<Longrightarrow> t = Lng (sint (Long_val v))"
  by (cases n) auto

lemma tree_of_forward:
  assumes "\<not> Is_long v" and "Tag_val (mem s) v = Forward_tag" and "tree_of n s v = Some t"
  obtains k where "n = Suc k" "managed s v" "tree_of k s (Forward_val (mem s) v) = Some t"
  using assms by (cases n) (auto simp: Let_def split: if_splits)

text \<open>A block that is not a forwarded one gives a tree with its tag.\<close>

lemma tree_of_block:
  assumes "\<not> Is_long v" and "Tag_val (mem s) v \<noteq> Forward_tag" and "tree_of n s v = Some t"
  shows "managed s v" and "tree_tag t = uint (Tag_val (mem s) v)" and "t \<noteq> Lng i"
  using assms by (cases n; auto simp: Let_def split: if_splits)+

lemma those_mono:
  "those (map f xs) = Some ts \<Longrightarrow> (\<And>x t. x \<in> set xs \<Longrightarrow> f x = Some t \<Longrightarrow> g x = Some t) \<Longrightarrow> those (map g xs) = Some ts"
  by (induction xs arbitrary: ts) (auto split: option.splits)

lemma tree_node_mono:
  assumes le: "\<And>v t. f v = Some t \<Longrightarrow> g v = Some t" and t: "tree_node mg m f v = Some t"
  shows "tree_node mg m g v = Some t"
proof -
  let ?fs = "\<lambda>h. those (map (\<lambda>i. h (Field m v (word_of_nat i))) [0..<unat (Wosize_val m v)])"
  have "?fs g = Some ts" if "?fs f = Some ts" for ts using that by (rule those_mono) (rule le)
  then have "?fs g = ?fs f" if "?fs f \<noteq> None" using that by auto
  moreover have "g (Forward_val m v) = f (Forward_val m v)" if "f (Forward_val m v) \<noteq> None" using that le by auto
  ultimately have "tree_node mg m g v = tree_node mg m f v" if "tree_node mg m f v \<noteq> None"
    using that unfolding tree_node_def Let_def by (auto split: if_split_asm)
  then show ?thesis using t by simp
qed

lemma tree_of_Suc: "tree_of n s v = Some t \<Longrightarrow> tree_of (Suc n) s v = Some t"
proof (induction n arbitrary: v t)
  case (Suc n)
  show ?case using Suc.prems unfolding tree_at.simps(2) [of n _ _ v] tree_at.simps(2) [of "Suc n" _ _ v]
    by (rule tree_node_mono [rotated]) (rule Suc.IH)
qed simp

lemma tree_of_mono: "n \<le> k \<Longrightarrow> tree_of n s v = Some t \<Longrightarrow> tree_of k s v = Some t"
  by (induction k rule: dec_induct) (auto simp del: tree_at.simps intro: tree_of_Suc)

lemma tree_of_unique: "tree_of n s v = Some t \<Longrightarrow> tree_of k s v = Some u \<Longrightarrow> t = u"
  by (metis tree_of_mono nat_le_linear option.inject)

text \<open>The fields from the address \<open>p\<close> on.\<close>

fun fields_at :: "nat \<Rightarrow> machine \<Rightarrow> addr \<Rightarrow> tree list \<Rightarrow> bool" where
  "fields_at n s p [] \<longleftrightarrow> True"
| "fields_at n s p (t # ts) \<longleftrightarrow> tree_of n s (mem s p) = Some t \<and> fields_at n s (p + 4) ts"

lemma those_fields:
  "those (map (\<lambda>i. tree_of n s (mem s (p + 4 * word_of_nat i))) [0..<k]) = Some ts \<Longrightarrow> length ts = k \<and> fields_at n s p ts"
proof (induction k arbitrary: p ts)
  case 0
  then show ?case by simp
next
  case (Suc k)
  have "map (\<lambda>i. tree_of n s (mem s (p + 4 * word_of_nat i))) [0..<Suc k] =
      tree_of n s (mem s p) # map (\<lambda>i. tree_of n s (mem s (p + 4 + 4 * word_of_nat i))) [0..<k]"
    unfolding map_upt_Suc by (simp add: algebra_simps)
  then obtain t us where ts: "ts = t # us" "tree_of n s (mem s p) = Some t"
      "those (map (\<lambda>i. tree_of n s (mem s (p + 4 + 4 * word_of_nat i))) [0..<k]) = Some us"
    using Suc.prems by (auto split: option.splits)
  show ?case using Suc.IH [OF ts(3)] ts(1,2) by simp
qed

definition leaf_tag :: "uint32 \<Rightarrow> bool" where
  "leaf_tag t \<longleftrightarrow> t \<in> {String_tag, Double_tag, Double_array_tag, Object_tag, Custom_tag, Abstract_tag, Closure_tag, Infix_tag}"

lemma tree_of_node:
  assumes "\<not> Is_long v" and "Tag_val (mem s) v \<noteq> Forward_tag" and "\<not> leaf_tag (Tag_val (mem s) v)" and "tree_of n s v = Some t"
  obtains k ts where "t = Nd (Tag_val (mem s) v) ts" "length ts = unat (Wosize_val (mem s) v)" "fields_at k s v ts"
proof (cases n)
  case (Suc k)
  then obtain ts where "t = Nd (Tag_val (mem s) v) ts"
      "those (map (\<lambda>i. tree_of k s (mem s (v + 4 * word_of_nat i))) [0..<unat (Wosize_val (mem s) v)]) = Some ts"
    using assms by (auto simp: Let_def Field_def leaf_tag_def split: if_splits)
  then show ?thesis using that those_fields by blast
qed (use assms in simp)

subsection \<open>One turn of the loop\<close>

text \<open>How \<^verbatim>\<open>compare_val\<close> ends when the comparison of the trees has a verdict.\<close>

fun decide :: "fns \<Rightarrow> verdict \<Rightarrow> compare_stack \<Rightarrow> machine \<Rightarrow> uint32 result \<times> compare_stack" where
  "decide fns (Diff n) c s = (Returns (word_of_int n) s, c)"
| "decide fns Functional c s = (invalid_argument fns ''equal: functional value'' s, compare_free_stack c)"
| "decide fns Abstract c s = (invalid_argument fns ''equal: abstract value'' s, compare_free_stack c)"
| "decide fns No_compare c s = (failwith fns ''equal: abstract value'' s, c)"

definition settle :: "fns \<Rightarrow> verdict \<Rightarrow> compare_stack \<Rightarrow> machine \<Rightarrow> compare_turn" where
  "settle fns w c s = (if w = Diff 0 then next_item c s else Inl (decide fns w c s))"

lemma settle_ret: "n \<noteq> 0 \<Longrightarrow> word_of_int n = w \<Longrightarrow> settle fns (Diff n) c s = ret w c s"
  by (auto simp: settle_def ret_def)

lemma word_of_diff: "word_of_int (int (unat a) - int (unat b)) = (a - b :: uint32)"
  by (simp add: of_int_diff)

lemma switch_string:
  assumes "tree_of n1 s v1 = Some t1" and "tree_of n2 s v2 = Some t2" and "\<not> Is_long v1" and "\<not> Is_long v2"
    and "Tag_val (mem s) v1 = String_tag" and "Tag_val (mem s) v2 = String_tag"
  shows "compare_switch fns cf String_tag v1 v2 c s = settle fns (tcmp cf (mem s) t1 t2) c s"
proof -
  let ?l1 = "string_length (mem s) v1" and ?l2 = "string_length (mem s) v2"
  let ?b = "\<lambda>v. map (\<lambda>i. Byte_u (mem s) v (word_of_nat i))"
  have t: "t1 = Str (?b v1 [0..<unat ?l1])" "t2 = Str (?b v2 [0..<unat ?l2])"
    using assms by (cases n1; cases n2; auto simp: Let_def tag_defs load_bytes_def split: if_splits)+
  let ?k = "unat (if ?l1 \<le> ?l2 then ?l1 else ?l2)"
  have k: "?k \<le> unat ?l1" "?k \<le> unat ?l2" "?k = unat ?l1 \<or> ?k = unat ?l2" by (auto simp: word_le_nat_alt)
  note spec = compare_bytes_spec [of 0 ?k "unat ?l1" "unat ?l2" "mem s" v1 v2]
  show ?thesis
  proof (cases "compare_bytes (mem s) v1 v2 0 ?k")
    case None
    have "bytes_cmp (?b v1 [?k..<unat ?l1]) (?b v2 [?k..<unat ?l2]) = int (unat ?l1) - int (unat ?l2)"
      using k by (subst bytes_cmp_Nil) auto
    then have e: "bytes_cmp (?b v1 [0..<unat ?l1]) (?b v2 [0..<unat ?l2]) = int (unat ?l1) - int (unat ?l2)"
      using spec None k by simp
    show ?thesis
    proof (cases "?l1 = ?l2")
      case True
      then show ?thesis using None e unfolding t by (simp add: compare_switch_def settle_def)
    next
      case False
      then have n: "int (unat ?l1) - int (unat ?l2) \<noteq> 0" by (simp add: uint_same)
      show ?thesis using None False unfolding t tcmp.simps tree.simps e settle_ret [OF n word_of_diff]
        by (simp add: compare_switch_def Let_def)
    qed
  next
    case (Some r)
    then show ?thesis using spec k unfolding t
      by (simp add: compare_switch_def settle_def ret_def Let_def)
  qed
qed

lemma switch_double_array:
  assumes "tree_of n1 s v1 = Some t1" and "tree_of n2 s v2 = Some t2" and "\<not> Is_long v1" and "\<not> Is_long v2"
    and "Tag_val (mem s) v1 = Double_array_tag" and "Tag_val (mem s) v2 = Double_array_tag"
  shows "compare_switch fns cf Double_array_tag v1 v2 c s = settle fns (tcmp cf (mem s) t1 t2) c s"
proof -
  let ?l1 = "Wosize_val (mem s) v1 div Double_wosize" and ?l2 = "Wosize_val (mem s) v2 div Double_wosize"
  let ?d = "\<lambda>v. map (\<lambda>i. Double_field (mem s) v (word_of_nat i))"
  have t: "t1 = Dbls (?d v1 [0..<unat ?l1])" "t2 = Dbls (?d v2 [0..<unat ?l2])"
    using assms by (cases n1; cases n2; auto simp: Let_def tag_defs split: if_splits)+
  have tags: "Double_array_tag \<noteq> String_tag" "Double_array_tag \<noteq> Double_tag" by (simp_all add: tag_defs)
  show ?thesis
  proof (cases "?l1 = ?l2")
    case True
    show ?thesis
    proof (cases "compare_doubles (mem s) v1 v2 0 (unat ?l2)")
      case None
      then show ?thesis using compare_doubles_spec [of 0 "unat ?l2" "unat ?l2" "mem s" v1 v2] True tags unfolding t
        by (simp add: compare_switch_def settle_def)
    next
      case (Some r)
      then show ?thesis using compare_doubles_spec [of 0 "unat ?l2" "unat ?l2" "mem s" v1 v2] True tags unfolding t
        by (simp add: compare_switch_def settle_def ret_def Let_def)
    qed
  next
    case False
    then have u: "unat ?l1 \<noteq> unat ?l2" by (simp add: word_unat_eq_iff)
    then have n: "int (unat ?l1) - int (unat ?l2) \<noteq> 0" by linarith
    have "tcmp cf (mem s) t1 t2 = Diff (int (unat ?l1) - int (unat ?l2))" using u unfolding t by simp
    then show ?thesis using False tags settle_ret [OF n word_of_diff] by (simp add: compare_switch_def Let_def)
  qed
qed

text \<open>The leaves that are compared in one step.\<close>

lemma switch_simple:
  assumes "tree_of n1 s v1 = Some t1" and "tree_of n2 s v2 = Some t2" and "\<not> Is_long v1" and "\<not> Is_long v2"
    and "Tag_val (mem s) v1 = t" and "Tag_val (mem s) v2 = t" and "v1 \<noteq> v2"
    and "t \<in> {Double_tag, Object_tag, Custom_tag, Abstract_tag, Closure_tag, Infix_tag}"
  shows "compare_switch fns cf t v1 v2 c s = settle fns (tcmp cf (mem s) t1 t2) c s"
proof -
  have oid: "word_of_int (sint a - sint b) = (a - b :: uint32)" for a b by (simp add: of_int_diff)
  consider "t = Double_tag" | "t = Object_tag" | "t = Custom_tag" | "t \<in> {Abstract_tag, Closure_tag, Infix_tag}" using assms(8) by auto
  then show ?thesis
  proof cases
    case 1
    then have "t1 = Dbl (Double_val (mem s) v1)" "t2 = Dbl (Double_val (mem s) v2)"
      using assms by (cases n1; cases n2; auto simp: Let_def tag_defs split: if_splits)+
    with 1 show ?thesis by (simp add: compare_switch_def settle_def ret_def d_cmp_def tag_defs)
  next
    case 2
    then have "t1 = Obj (sint (Oid_val (mem s) v1))" "t2 = Obj (sint (Oid_val (mem s) v2))"
      using assms by (cases n1; cases n2; auto simp: Let_def tag_defs split: if_splits)+
    with 2 show ?thesis by (simp add: compare_switch_def settle_def ret_def tag_defs sint_same oid Let_def)
  next
    case 3
    then have "t1 = Cus v1" "t2 = Cus v2"
      using assms by (cases n1; cases n2; auto simp: Let_def tag_defs split: if_splits)+
    with 3 assms(7) show ?thesis
      by (simp add: compare_switch_def settle_def ret_def tag_defs custom_cmp_def Let_def)
        (metis word_of_int_sint_eq signed_0)
  next
    case 4
    then have "t1 = Opq t v1" "t2 = Opq t v2"
      using assms by (cases n1; cases n2; auto simp: Let_def tag_defs split: if_splits)+
    with 4 assms(7) show ?thesis
      by (auto simp: compare_switch_def settle_def tag_defs opaque_cmp_def)
  qed
qed

lemma tcmp_tags:
  "tree_tag t \<noteq> tree_tag u \<Longrightarrow> (\<And>i. t \<noteq> Lng i) \<Longrightarrow> (\<And>i. u \<noteq> Lng i) \<Longrightarrow> tcmp cf m t u = Diff (tree_tag t - tree_tag u)"
  by (cases t; cases u) auto

lemma tcmp_long: "(\<And>i. u \<noteq> Lng i) \<Longrightarrow> tcmp cf m (Lng j) u = Diff (- 1)" "(\<And>i. u \<noteq> Lng i) \<Longrightarrow> tcmp cf m u (Lng j) = Diff 1"
  by (cases u; auto)+

lemma d_cmp_refl: "d_cmp d d = 0"
  by (simp add: d_cmp_def d_less_def)

lemma doubles_cmp_refl: "doubles_cmp ds ds = 0"
  by (induction ds) (simp_all add: d_cmp_refl)

lemma bytes_cmp_refl: "bytes_cmp bs bs = 0"
  by (induction bs) simp_all

text \<open>A tree is equal to itself: the test \<^verbatim>\<open>v1 == v2\<close> is only a shortcut.\<close>

lemma tcmps_refl: "(\<And>t. t \<in> set ts \<Longrightarrow> tcmp cf m t t = Diff 0) \<Longrightarrow> tcmps cf m ts ts = Diff 0"
  by (induction ts) simp_all

lemma tcmp_refl: "tcmp cf m t t = Diff 0"
  by (induction t) (simp_all add: tcmps_refl bytes_cmp_refl d_cmp_refl doubles_cmp_refl custom_cmp_def)

text \<open>The trees that wait on the stack, each pair of lists for one item.\<close>

type_synonym pending = "(tree list \<times> tree list) list"

definition item_ok :: "machine \<Rightarrow> compare_item \<Rightarrow> tree list \<times> tree list \<Rightarrow> bool" where
  "item_ok s it p \<longleftrightarrow> fst p \<noteq> [] \<and> length (fst p) = length (snd p) \<and> unat (ci_count it) = length (fst p) \<and>
     (\<exists>n. fields_at n s (ci_v1 it) (fst p)) \<and> (\<exists>n. fields_at n s (ci_v2 it) (snd p))"

fun pending_cmp :: "compare_fns \<Rightarrow> mem \<Rightarrow> pending \<Rightarrow> verdict" where
  "pending_cmp cf m [] = Diff 0"
| "pending_cmp cf m ((ts, us) # ps) = then_cmp (tcmps cf m ts us) (pending_cmp cf m ps)"

fun weight :: "pending \<Rightarrow> nat" where
  "weight [] = 0"
| "weight ((ts, us) # ps) = size_list size ts + weight ps"

text \<open>No item below, together with what it is still to be compared, needs more than \<open>K\<close> slots.\<close>

fun shallow :: "nat \<Rightarrow> pending \<Rightarrow> bool" where
  "shallow K [] \<longleftrightarrow> True"
| "shallow K ((ts, us) # ps) \<longleftrightarrow> length ps + needs ts \<le> K \<and> shallow K ps"

definition stack_ok :: "compare_stack \<Rightarrow> bool" where
  "stack_ok c \<longleftrightarrow> (\<exists>j \<le> 11. room c = 256 * 2 ^ j) \<and> (\<not> malloced c \<longrightarrow> room c = 256)"

text \<open>There is place for \<open>K\<close> items, now or by growing.\<close>

definition fits :: "compare_fns \<Rightarrow> nat \<Rightarrow> compare_stack \<Rightarrow> bool" where
  "fits cf K c \<longleftrightarrow> stack_ok c \<and> (K < room c \<or> K < 524288 \<and> (\<forall>n \<le> 12 * 524288. avail cf n))"

lemma then_cmp_assoc: "then_cmp (then_cmp a b) w = then_cmp a (then_cmp b w)"
  by (cases a) simp_all

lemma then_cmp_stop: "a \<noteq> Diff 0 \<Longrightarrow> then_cmp a w = a"
  by (cases a) simp_all

lemma then_cmp_zero [simp]: "then_cmp (Diff 0) w = w"
  by simp

lemma resize_fits:
  assumes f: "fits cf K c" and r: "room c \<le> K"
  obtains c' where "compare_resize_stack cf c s = Inr c'" "fits cf K c'" "items c' = items c"
proof -
  obtain j where j: "j \<le> 11" "room c = 256 * 2 ^ j" using f by (auto simp: fits_def stack_ok_def)
  have K: "K < 524288" "\<forall>n \<le> 12 * 524288. avail cf n" using f r by (auto simp: fits_def)
  have "(2::nat) ^ j < 2 ^ 11" using j(2) r K(1) by simp
  then have "j < 11" by (rule power_less_imp_less_exp [rotated]) simp
  then have "(2::nat) ^ Suc j \<le> 2 ^ 11" by (intro power_increasing) auto
  then have le: "2 * room c \<le> 524288" using j(2) by simp
  moreover have "\<exists>i \<le> 11. 2 * room c = 256 * 2 ^ i" using j(2) \<open>j < 11\<close> by (intro exI [of _ "Suc j"]) simp
  ultimately show ?thesis using K
    by (intro that [of "c\<lparr>malloced := True, room := 2 * room c\<rparr>"])
      (simp_all add: compare_resize_stack_def COMPARE_STACK_MAX_SIZE_def fits_def stack_ok_def)
qed

lemma push_fits:
  assumes "fits cf K c" and "length (items c) + 1 \<le> K"
  obtains c' where "push_fields cf v1 v2 sz c s = Inr c'" "fits cf K c'"
    "items c' = \<lparr>ci_v1 = v1 + 4, ci_v2 = v2 + 4, ci_count = sz - 1\<rparr> # items c"
proof (cases "room c \<le> length (items c) + 1")
  case True
  then obtain c' where "compare_resize_stack cf c s = (Inr c' :: (uint32 result \<times> compare_stack) + _)" "fits cf K c'" "items c' = items c"
    using resize_fits [OF assms(1), of s] assms(2) by (metis le_trans)
  then show ?thesis using True
    by (intro that [of "c'\<lparr>items := \<lparr>ci_v1 = v1 + 4, ci_v2 = v2 + 4, ci_count = sz - 1\<rparr> # items c\<rparr>"])
      (simp_all add: push_fields_def fits_def stack_ok_def)
next
  case False
  then show ?thesis using assms(1)
    by (intro that [of "c\<lparr>items := \<lparr>ci_v1 = v1 + 4, ci_v2 = v2 + 4, ci_count = sz - 1\<rparr> # items c\<rparr>"])
      (simp_all add: push_fields_def fits_def stack_ok_def)
qed

subsection \<open>The loop\<close>

definition turn_ends :: "fns \<Rightarrow> compare_fns \<Rightarrow> machine \<Rightarrow> compare_turn \<Rightarrow> verdict \<Rightarrow> bool" where
  "turn_ends fns cf s r w \<longleftrightarrow>
     (\<exists>c'. (case r of Inl e \<Rightarrow> Some e | Inr (v1, v2, c) \<Rightarrow> compare_loop fns cf v1 v2 c s) = Some (decide fns w c' s) \<and> stack_ok c')"

definition loop_ends :: "fns \<Rightarrow> compare_fns \<Rightarrow> machine \<Rightarrow> val \<Rightarrow> val \<Rightarrow> compare_stack \<Rightarrow> verdict \<Rightarrow> bool" where
  "loop_ends fns cf s v1 v2 c w \<longleftrightarrow> turn_ends fns cf s (Inr (v1, v2, c)) w"

lemma loop_endsI: "turn_ends fns cf s (compare_turn fns cf v1 v2 c s) w \<Longrightarrow> loop_ends fns cf s v1 v2 c w"
  by (simp add: loop_ends_def turn_ends_def compare_loop.simps [of fns cf v1 v2 c s])

text \<open>Two values with their trees, and a stack with the pending trees.\<close>

definition waiting :: "compare_fns \<Rightarrow> machine \<Rightarrow> nat \<Rightarrow> compare_stack \<Rightarrow> pending \<Rightarrow> bool" where
  "waiting cf s K c ps \<longleftrightarrow> list_all2 (item_ok s) (items c) ps \<and> shallow K ps \<and> fits cf K c"

definition reads :: "machine \<Rightarrow> val \<Rightarrow> tree \<Rightarrow> bool" where
  "reads s v t \<longleftrightarrow> (\<exists>n. tree_of n s v = Some t)"

definition solved :: "fns \<Rightarrow> compare_fns \<Rightarrow> machine \<Rightarrow> nat \<Rightarrow> nat \<Rightarrow> bool" where
  "solved fns cf s K N \<longleftrightarrow> (\<forall>v1 v2 c t1 t2 ps. reads s v1 t1 \<longrightarrow> reads s v2 t2 \<longrightarrow> waiting cf s K c ps \<longrightarrow>
     length ps + need t1 \<le> K \<longrightarrow> size t1 + weight ps < N \<longrightarrow>
     loop_ends fns cf s v1 v2 c (then_cmp (tcmp cf (mem s) t1 t2) (pending_cmp cf (mem s) ps)))"

lemma solvedD:
  "solved fns cf s K N \<Longrightarrow> reads s v1 t1 \<Longrightarrow> reads s v2 t2 \<Longrightarrow> waiting cf s K c ps \<Longrightarrow> length ps + need t1 \<le> K \<Longrightarrow>
    size t1 + weight ps < N \<Longrightarrow> loop_ends fns cf s v1 v2 c (then_cmp (tcmp cf (mem s) t1 t2) (pending_cmp cf (mem s) ps))"
  by (simp add: solved_def)

lemma pop_ends:
  assumes sol: "solved fns cf s K N" and w: "waiting cf s K c ps" and N: "weight ps \<le> N"
  shows "turn_ends fns cf s (next_item c s) (pending_cmp cf (mem s) ps)"
proof (cases ps)
  case Nil
  then show ?thesis using w by (auto simp: turn_ends_def next_item_def waiting_def fits_def)
next
  case (Cons p qs)
  then obtain it its where it: "items c = it # its" "item_ok s it p" "list_all2 (item_ok s) its qs"
    using w by (auto simp: waiting_def list_all2_Cons2)
  obtain t ts u us where p: "p = (t # ts, u # us)" "length ts = length us" "unat (ci_count it) = Suc (length ts)"
    using it(2) by (cases p; cases "fst p"; cases "snd p") (auto simp: item_ok_def)
  have r: "reads s (mem s (ci_v1 it)) t" "reads s (mem s (ci_v2 it)) u"
      "\<exists>n. fields_at n s (ci_v1 it + 4) ts" "\<exists>n. fields_at n s (ci_v2 it + 4) us"
    using it(2) by (auto simp: item_ok_def p(1) reads_def)
  let ?n = "ci_count it - 1"
  have n: "unat ?n = length ts" using p(3) by (subst unat_minus_one) auto
  then have z: "?n = 0 \<longleftrightarrow> ts = []" by (metis length_0_conv unat_eq_zero)
  let ?c = "c\<lparr>items := if ?n = 0 then its else \<lparr>ci_v1 = ci_v1 it + 4, ci_v2 = ci_v2 it + 4, ci_count = ?n\<rparr> # its\<rparr>"
  let ?ps = "if ts = [] then qs else (ts, us) # qs"
  have "waiting cf s K ?c ?ps"
    using w it r n p z by (auto simp: waiting_def Cons item_ok_def fits_def stack_ok_def)
  moreover have "length ?ps + need t \<le> K" using w by (auto simp: waiting_def Cons p)
  moreover have "size t + weight ?ps < N" using N by (auto simp: Cons p)
  ultimately have "loop_ends fns cf s (mem s (ci_v1 it)) (mem s (ci_v2 it)) ?c
      (then_cmp (tcmp cf (mem s) t u) (pending_cmp cf (mem s) ?ps))"
    using solvedD [OF sol r(1,2)] by blast
  moreover have "pending_cmp cf (mem s) ps = then_cmp (tcmp cf (mem s) t u) (pending_cmp cf (mem s) ?ps)"
    by (simp add: Cons p then_cmp_assoc)
  ultimately show ?thesis by (simp add: loop_ends_def next_item_def it(1) Let_def)
qed

lemma settle_ends:
  assumes "solved fns cf s K N" and "waiting cf s K c ps" and "weight ps \<le> N"
  shows "turn_ends fns cf s (settle fns w c s) (then_cmp w (pending_cmp cf (mem s) ps))"
proof (cases "w = Diff 0")
  case True
  then show ?thesis using pop_ends [OF assms] by (simp add: settle_def)
next
  case False
  then show ?thesis using assms(2) by (auto simp: settle_def turn_ends_def then_cmp_stop waiting_def fits_def)
qed

lemma node_ends:
  assumes sol: "solved fns cf s K N" and w: "waiting cf s K c ps" and N: "size t1 + weight ps \<le> N"
    and t1: "t1 = Nd t ts" "length ts = unat (Wosize_val (mem s) v1)" "fields_at n1 s v1 ts"
    and t2: "t2 = Nd t us" "length us = unat (Wosize_val (mem s) v2)" "fields_at n2 s v2 us"
    and K: "length ps + need t1 \<le> K" and t: "\<not> leaf_tag t"
  shows "turn_ends fns cf s (compare_switch fns cf t v1 v2 c s) (then_cmp (tcmp cf (mem s) t1 t2) (pending_cmp cf (mem s) ps))"
proof -
  let ?sz1 = "Wosize_val (mem s) v1" and ?sz2 = "Wosize_val (mem s) v2"
  have tags: "t \<noteq> String_tag" "t \<noteq> Double_tag" "t \<noteq> Double_array_tag" "t \<noteq> Abstract_tag" "t \<noteq> Closure_tag" "t \<noteq> Infix_tag"
      "t \<noteq> Object_tag" "t \<noteq> Custom_tag" using t by (auto simp: leaf_tag_def)
  note sw = compare_switch_def Let_def tags
  note settled = settle_ends [OF sol w, of "tcmp cf (mem s) t1 t2"]
  have Nw: "weight ps \<le> N" using N by simp
  consider (sizes) "?sz1 \<noteq> ?sz2" | (none) "?sz1 = ?sz2" "ts = []" | (one) t' u' where "?sz1 = ?sz2" "ts = [t']" "us = [u']"
    | (more) t' ts' u' us' where "?sz1 = ?sz2" "ts = t' # ts'" "us = u' # us'" "ts' \<noteq> []" "length us' = length ts'"
    using t1(2) t2(2) by (cases ts; cases us; cases "tl ts"; cases "tl us") (auto simp: word_unat_eq_iff, metis Suc_inject)
  then show ?thesis
  proof cases
    case sizes
    then have u: "unat ?sz1 \<noteq> unat ?sz2" by (simp add: word_unat_eq_iff)
    then have n: "int (unat ?sz1) - int (unat ?sz2) \<noteq> 0" by linarith
    have "tcmp cf (mem s) t1 t2 = Diff (int (unat ?sz1) - int (unat ?sz2))" using u t1(2) t2(2) by (simp add: t1(1) t2(1))
    then show ?thesis using settled Nw settle_ret [OF n word_of_diff, of fns c s] sizes by (simp add: sw)
  next
    case none
    then have "?sz1 = 0" using t1(2) by (simp add: unat_eq_zero)
    moreover have "tcmp cf (mem s) t1 t2 = Diff 0" using none t1(2) t2(2) by (simp add: t1(1) t2(1))
    ultimately show ?thesis using settled Nw none by (simp add: sw settle_def)
  next
    case one
    then have sz: "?sz1 = 1" using t1(2) by (intro word_eq_by_unat) simp
    have "loop_ends fns cf s (Field (mem s) v1 0) (Field (mem s) v2 0) c
        (then_cmp (tcmp cf (mem s) t' u') (pending_cmp cf (mem s) ps))"
      using t1 t2 one by (intro solvedD [OF sol _ _ w]) (use N K in \<open>auto simp: Field_def reads_def\<close>)
    moreover have "tcmp cf (mem s) t1 t2 = tcmp cf (mem s) t' u'" using one by (cases "tcmp cf (mem s) t' u'") (auto simp: t1(1) t2(1))
    ultimately show ?thesis using sz one by (simp add: sw loop_ends_def)
  next
    case more
    then have "0 < length ts'" by simp
    then have "1 < unat ?sz1" using t1(2) more(2) unfolding t1(2) [symmetric] by simp
    then have sz: "?sz1 \<noteq> 0" "1 < ?sz1" by (auto simp: word_less_nat_alt)
    have cnt: "unat (?sz1 - 1) = length ts'" using t1(2) more by (subst unat_minus_one) (auto simp: sz)
    have len: "length (items c) = length ps" using w by (auto simp: waiting_def dest: list_all2_lengthD)
    have "length (items c) + 1 \<le> K" using K more by (simp add: t1(1) len)
    note push = push_fits [OF conjunct2 [OF conjunct2 [OF w [unfolded waiting_def]]] this]
    obtain c' where c': "push_fields cf v1 v2 ?sz1 c s = Inr c'" "fits cf K c'"
        "items c' = \<lparr>ci_v1 = v1 + 4, ci_v2 = v2 + 4, ci_count = ?sz1 - 1\<rparr> # items c"
      using push .
    have "waiting cf s K c' ((ts', us') # ps)"
      using w c' t1(3) t2(3) more cnt K by (auto simp: waiting_def item_ok_def t1(1))
    moreover have "Suc (length ps + need t') \<le> K" using K more by (simp add: t1(1))
    moreover have "size t' + weight ((ts', us') # ps) < N" using N more by (simp add: t1(1))
    moreover have "reads s (Field (mem s) v1 0) t'" "reads s (Field (mem s) v2 0) u'"
      using t1(3) t2(3) more by (auto simp: reads_def Field_def)
    ultimately have "loop_ends fns cf s (Field (mem s) v1 0) (Field (mem s) v2 0) c'
        (then_cmp (tcmp cf (mem s) t' u') (pending_cmp cf (mem s) ((ts', us') # ps)))"
      using solvedD [OF sol] by (metis add_Suc length_Cons)
    then show ?thesis using sz c'(1) more by (simp add: sw loop_ends_def t1(1) t2(1) then_cmp_assoc)
  qed
qed

lemma leaf_settles:
  assumes "tree_of n1 s v1 = Some t1" and "tree_of n2 s v2 = Some t2" and "\<not> Is_long v1" and "\<not> Is_long v2"
    and "Tag_val (mem s) v1 = t" and "Tag_val (mem s) v2 = t" and "v1 \<noteq> v2" and "leaf_tag t"
  shows "compare_switch fns cf t v1 v2 c s = settle fns (tcmp cf (mem s) t1 t2) c s"
proof -
  consider "t = String_tag" | "t = Double_array_tag"
    | "t \<in> {Double_tag, Object_tag, Custom_tag, Abstract_tag, Closure_tag, Infix_tag}" using assms(8) by (auto simp: leaf_tag_def)
  then show ?thesis
  proof cases
    case 1
    then show ?thesis using switch_string [OF assms(1-4)] assms(5,6) by simp
  next
    case 2
    then show ?thesis using switch_double_array [OF assms(1-4)] assms(5,6) by simp
  next
    case 3
    then show ?thesis using switch_simple [OF assms(1-7)] by simp
  qed
qed

lemma turn_ends_long:
  assumes sol: "solved fns cf s K N" and w: "waiting cf s K c ps" and N: "weight ps \<le> N"
    and r: "tree_of n1 s v1 = Some t1" "tree_of n2 s v2 = Some t2" and ne: "v1 \<noteq> v2" and l: "Is_long v1 \<or> Is_long v2"
    and nf: "Is_long v1 \<or> Tag_val (mem s) v1 \<noteq> Forward_tag" "Is_long v2 \<or> Tag_val (mem s) v2 \<noteq> Forward_tag"
  shows "turn_ends fns cf s (compare_turn fns cf v1 v2 c s) (then_cmp (tcmp cf (mem s) t1 t2) (pending_cmp cf (mem s) ps))"
proof -
  have "compare_turn fns cf v1 v2 c s = settle fns (tcmp cf (mem s) t1 t2) c s"
  proof (cases "Is_long v1 \<and> Is_long v2")
    case True
    then have t: "t1 = Lng (sint (Long_val v1))" "t2 = Lng (sint (Long_val v2))" using r tree_of_long by auto
    have "Long_val v1 \<noteq> Long_val v2" using True ne Val_long_Long_val by metis
    then have "sint (Long_val v1) - sint (Long_val v2) \<noteq> 0" by (metis eq_iff_diff_eq_0 word_of_int_sint_eq)
    then show ?thesis using True ne settle_ret [of "sint (Long_val v1) - sint (Long_val v2)" "Long_val v1 - Long_val v2"]
      by (simp add: compare_turn_def t of_int_diff)
  next
    case False
    show ?thesis
    proof (cases "Is_long v1")
      case True
      then have "t1 = Lng (sint (Long_val v1))" "\<And>i. t2 \<noteq> Lng i"
        using False r nf tree_of_long tree_of_block(3) by blast+
      then have "tcmp cf (mem s) t1 t2 = Diff (- 1)" using tcmp_long(1) by blast
      then show ?thesis using True False ne nf by (simp add: compare_turn_def settle_def ret_def)
    next
      case l1: False
      then have "t2 = Lng (sint (Long_val v2))" "\<And>i. t1 \<noteq> Lng i"
        using l r nf tree_of_long tree_of_block(3) by blast+
      then have "tcmp cf (mem s) t1 t2 = Diff 1" using tcmp_long(2) by blast
      then show ?thesis using l1 l ne nf by (simp add: compare_turn_def settle_def ret_def)
    qed
  qed
  then show ?thesis using settle_ends [OF sol w N] by simp
qed

lemma turn_ends_block:
  assumes sol: "solved fns cf s K N" and w: "waiting cf s K c ps" and N: "size t1 + weight ps \<le> N"
    and r: "tree_of n1 s v1 = Some t1" "tree_of n2 s v2 = Some t2" and ne: "v1 \<noteq> v2" and l: "\<not> Is_long v1" "\<not> Is_long v2"
    and nf: "Tag_val (mem s) v1 \<noteq> Forward_tag" "Tag_val (mem s) v2 \<noteq> Forward_tag" and K: "length ps + need t1 \<le> K"
  shows "turn_ends fns cf s (compare_turn fns cf v1 v2 c s) (then_cmp (tcmp cf (mem s) t1 t2) (pending_cmp cf (mem s) ps))"
proof -
  let ?a = "Tag_val (mem s) v1" and ?b = "Tag_val (mem s) v2"
  note b1 = tree_of_block [OF l(1) nf(1) r(1)] and b2 = tree_of_block [OF l(2) nf(2) r(2)]
  have Nw: "weight ps \<le> N" using N by simp
  have turn: "compare_turn fns cf v1 v2 c s = (if ?a \<noteq> ?b then ret (?a - ?b) c s else compare_switch fns cf ?b v1 v2 c s)"
    using ne l nf b1(1) b2(1) by (simp add: compare_turn_def Let_def)
  consider "?a \<noteq> ?b" | "?a = ?b" "leaf_tag ?b" | "?a = ?b" "\<not> leaf_tag ?b" by blast
  then show ?thesis
  proof cases
    case 1
    then have n: "uint ?a - uint ?b \<noteq> 0" by (simp add: uint_same)
    then have "tcmp cf (mem s) t1 t2 = Diff (uint ?a - uint ?b)" using tcmp_tags [of t1 t2] b1 b2 by simp
    then show ?thesis using settle_ends [OF sol w Nw, of "Diff (uint ?a - uint ?b)"] 1
      by (simp add: turn settle_ret [OF n, of "?a - ?b"] of_int_diff)
  next
    case 2
    then show ?thesis using settle_ends [OF sol w Nw] leaf_settles [OF r l _ _ ne] by (simp add: turn)
  next
    case 3
    obtain k1 ts where t1: "t1 = Nd ?a ts" "length ts = unat (Wosize_val (mem s) v1)" "fields_at k1 s v1 ts"
      using tree_of_node [OF l(1) nf(1) _ r(1)] 3 by metis
    obtain k2 us where t2: "t2 = Nd ?b us" "length us = unat (Wosize_val (mem s) v2)" "fields_at k2 s v2 us"
      using tree_of_node [OF l(2) nf(2) 3(2) r(2)] by metis
    show ?thesis using node_ends [OF sol w N t1 [unfolded 3(1)] t2 K 3(2)] 3 by (simp add: turn)
  qed
qed

lemma loop_solves:
  assumes sol: "solved fns cf s K N" and w: "waiting cf s K c ps" and N: "size t1 + weight ps \<le> N"
    and "tree_of n1 s v1 = Some t1" and "tree_of n2 s v2 = Some t2" and K: "length ps + need t1 \<le> K"
  shows "loop_ends fns cf s v1 v2 c (then_cmp (tcmp cf (mem s) t1 t2) (pending_cmp cf (mem s) ps))"
  using assms(4,5)
proof (induction "n1 + n2" arbitrary: n1 n2 v1 v2 rule: less_induct)
  case less
  let ?w = "then_cmp (tcmp cf (mem s) t1 t2) (pending_cmp cf (mem s) ps)"
  have Nw: "weight ps \<le> N" using N by simp
  have turn: "turn_ends fns cf s (compare_turn fns cf v1 v2 c s) ?w"
  proof (cases "v1 = v2")
    case True
    then have "t1 = t2" using less.prems tree_of_unique by metis
    then show ?thesis using pop_ends [OF sol w Nw] True by (simp add: compare_turn_def tcmp_refl)
  next
    case ne: False
    consider (f1) "\<not> Is_long v1" "Tag_val (mem s) v1 = Forward_tag" | (f2) "\<not> Is_long v2" "Tag_val (mem s) v2 = Forward_tag"
        "Is_long v1 \<or> Tag_val (mem s) v1 \<noteq> Forward_tag"
      | (no) "Is_long v1 \<or> Tag_val (mem s) v1 \<noteq> Forward_tag" "Is_long v2 \<or> Tag_val (mem s) v2 \<noteq> Forward_tag" by blast
    then show ?thesis
    proof cases
      case f1
      obtain k where k: "n1 = Suc k" "managed s v1" "tree_of k s (Forward_val (mem s) v1) = Some t1"
        using tree_of_forward [OF f1 less.prems(1)] .
      have m2: "Is_long v2 \<or> managed s v2" using less.prems(2) by (cases n2) (auto simp: Let_def split: if_splits)
      have "loop_ends fns cf s (Forward_val (mem s) v1) v2 c ?w" using less.hyps [OF _ k(3) less.prems(2)] k(1) by simp
      then show ?thesis using ne f1 k(2) m2 by (auto simp: compare_turn_def loop_ends_def Let_def)
    next
      case f2
      obtain k where k: "n2 = Suc k" "managed s v2" "tree_of k s (Forward_val (mem s) v2) = Some t2"
        using tree_of_forward [OF f2(1,2) less.prems(2)] .
      have m1: "Is_long v1 \<or> managed s v1" using less.prems(1) by (cases n1) (auto simp: Let_def split: if_splits)
      have "loop_ends fns cf s v1 (Forward_val (mem s) v2) c ?w" using less.hyps [OF _ less.prems(1) k(3)] k(1) by simp
      then show ?thesis using ne f2 k(2) m1 by (auto simp: compare_turn_def loop_ends_def Let_def)
    next
      case no
      then show ?thesis using turn_ends_long [OF sol w Nw less.prems ne _ no] turn_ends_block [OF sol w N less.prems ne _ _ _ _ K] by blast
    qed
  qed
  show ?case by (rule loop_endsI [OF turn])
qed

lemma all_solved: "solved fns cf s K N"
proof (induction N)
  case 0
  show ?case by (simp add: solved_def)
next
  case (Suc N)
  show ?case unfolding solved_def reads_def using loop_solves [OF Suc] by (auto simp: less_Suc_eq_le)
qed

lemma compare_val_ends:
  assumes "tree_of n1 s v1 = Some t1" and "tree_of n2 s v2 = Some t2" and "fits cf (need t1) c"
  shows "\<exists>c'. compare_val fns cf v1 v2 c s = Some (decide fns (tcmp cf (mem s) t1 t2) c' s) \<and> stack_ok c'"
proof -
  have "waiting cf s (need t1) (c\<lparr>items := []\<rparr>) []" using assms(3) by (simp add: waiting_def fits_def stack_ok_def)
  then have "loop_ends fns cf s v1 v2 (c\<lparr>items := []\<rparr>) (then_cmp (tcmp cf (mem s) t1 t2) (pending_cmp cf (mem s) []))"
    using assms(1,2) by (intro solvedD [OF all_solved]) (auto simp: reads_def)
  moreover have "then_cmp w (Diff 0) = w" for w by (cases w) auto
  ultimately show ?thesis by (simp add: loop_ends_def turn_ends_def compare_val_def)
qed

text \<open>
  C22: The loop of \<^verbatim>\<open>compare_val\<close> with its explicit stack ends and gives what the recursive comparison of the
  trees gives: the same number, or \<^verbatim>\<open>Invalid_argument\<close> or \<^verbatim>\<open>Failure\<close> for a closure, an abstract block or a custom block
  without comparison.  It needs only as many slots of the stack as \<open>need\<close> says, so that it neither runs out of memory nor stops for
  a structure such as a long list; forwarding blocks do not count.
\<close>

theorem compare_structural:
  assumes "tree_of n1 s v1 = Some t1" and "tree_of n2 s v2 = Some t2"
    and "stack_ok c" and "need t1 < room c \<or> need t1 < 524288 \<and> (\<forall>n \<le> 12 * 524288. avail cf n)"
  shows "\<exists>c'. compare_val fns cf v1 v2 c s = Some (decide fns (tcmp cf (mem s) t1 t2) c' s) \<and> stack_ok c'"
  using assms compare_val_ends by (simp add: fits_def)

text \<open>
  Three records of an integer, a string and a boxed 32-bit integer, at 4100, 4116 and 4204, and a forwarding block to the first.
\<close>

definition example_mem :: mem where
  "example_mem = (\<lambda>_. 0)(4096 := Make_header 3 0 0, 4100 := 3, 4104 := 4164, 4108 := 4180,
     4112 := Make_header 3 0 0, 4116 := 3, 4120 := 4172, 4124 := 4192,
     4128 := Make_header 1 Forward_tag 0, 4132 := 4100,
     4160 := Make_header 1 String_tag 0, 4164 := 0x01006261, 4168 := Make_header 1 String_tag 0, 4172 := 0x01006261,
     4176 := Make_header 2 Custom_tag 0, 4180 := 8000, 4184 := 5,
     4188 := Make_header 2 Custom_tag 0, 4192 := 8000, 4196 := 7,
     4200 := Make_header 3 0 0, 4204 := 3, 4208 := 4172, 4212 := 4220, 4216 := Make_header 2 Custom_tag 0, 4220 := 8000, 4224 := 5,
     8008 := 400, 8012 := 404)"

definition heap_machine :: "mem \<Rightarrow> machine" where
  "heap_machine m = boot_machine\<lparr>heap_start := 4096, heap_end := 8192, page_table := (\<lambda>_. True), mem := m\<rparr>"

definition compare_example :: machine where
  "compare_example = heap_machine example_mem"

lemma heap_machine_simps: "mem (heap_machine m) = m" "managed (heap_machine m) = (\<lambda>v. 4 \<le> v \<and> v \<le> 1024 \<or> 4096 \<le> v \<and> v < 8192)"
  by (auto simp: fun_eq_iff heap_machine_def managed_def Is_atom_def Atom_def Val_hp_def Is_young_def Is_in_heap_def boot_machine_def)

definition int32_fns :: compare_fns where
  "int32_fns = \<lparr>avail = (\<lambda>_. False), compare_fun = (\<lambda>f m a b. word_of_int (int32_compare m a b)), hash_fun = (\<lambda>f. int32_hash)\<rparr>"

lemma example_words:
  "example_mem 4096 = 3072" "example_mem 4100 = 3" "example_mem 4104 = 4164" "example_mem 4108 = 4180"
  "example_mem 4112 = 3072" "example_mem 4116 = 3" "example_mem 4120 = 4172" "example_mem 4124 = 4192"
  "example_mem 4128 = 1274" "example_mem 4132 = 4100" "example_mem 4160 = 1276" "example_mem 4164 = 0x01006261"
  "example_mem 4168 = 1276" "example_mem 4172 = 0x01006261" "example_mem 4176 = 2303" "example_mem 4188 = 2303"
  "example_mem 4216 = 2303" "example_mem 4200 = 3072" "example_mem 4204 = 3" "example_mem 4208 = 4172" "example_mem 4212 = 4220"
  "example_mem 4180 = 8000" "example_mem 4192 = 8000" "example_mem 4220 = 8000"
  "example_mem 4184 = 5" "example_mem 4196 = 7" "example_mem 4224 = 5" "example_mem 8008 = 400" "example_mem 8012 = 404"
  by (simp_all add: example_mem_def Make_header_def tag_defs)

lemmas node_eval = Let_def Is_long_def Tag_val_def Hd_val_def Tag_hd_def tag_defs Field_def Wosize_val_def Wosize_hd_def drop_bit_eq_div
  Long_val_def string_length_def Byte_def Bosize_val_def Bsize_wsize_def Byte_u_def load_bytes_def Forward_val_def upt_rec

lemma example_nodes:
  "tree_node (managed (heap_machine m)) example_mem f 3 = Some (Lng 1)"
  "tree_node (managed (heap_machine m)) example_mem f 4164 = Some (Str [0x61, 0x62])"
  "tree_node (managed (heap_machine m)) example_mem f 4172 = Some (Str [0x61, 0x62])"
  "tree_node (managed (heap_machine m)) example_mem f 4180 = Some (Cus 4180)"
  "tree_node (managed (heap_machine m)) example_mem f 4192 = Some (Cus 4192)"
  "tree_node (managed (heap_machine m)) example_mem f 4220 = Some (Cus 4220)"
  "tree_node (managed (heap_machine m)) example_mem f 4132 = f 4100"
  "tree_node (managed (heap_machine m)) example_mem f 4100 = map_option (Nd 0) (those [f 3, f 4164, f 4180])"
  "tree_node (managed (heap_machine m)) example_mem f 4116 = map_option (Nd 0) (those [f 3, f 4172, f 4192])"
  "tree_node (managed (heap_machine m)) example_mem f 4204 = map_option (Nd 0) (those [f 3, f 4172, f 4220])"
  by (simp_all add: heap_machine_simps example_words node_eval)

lemma example_trees:
  "tree_of 3 compare_example 4100 = Some (Nd 0 [Lng 1, Str [0x61, 0x62], Cus 4180])"
  "tree_of 3 compare_example 4132 = Some (Nd 0 [Lng 1, Str [0x61, 0x62], Cus 4180])"
  "tree_of 3 compare_example 4116 = Some (Nd 0 [Lng 1, Str [0x61, 0x62], Cus 4192])"
  "tree_of 3 compare_example 4204 = Some (Nd 0 [Lng 1, Str [0x61, 0x62], Cus 4220])"
  unfolding compare_example_def heap_machine_simps(1) by (simp_all add: eval_nat_numeral example_nodes del: tree_node_def)

lemma example_stack: "stack_ok compare_stack_init" "room compare_stack_init = 256"
  by (auto simp: stack_ok_def compare_stack_init_def COMPARE_STACK_INIT_SIZE_def intro: exI [of _ 0])

lemma example_fits: "n < 256 \<Longrightarrow> fits cf n compare_stack_init"
  by (simp add: fits_def example_stack)

lemma example_tcmp:
  "tcmp int32_fns (mem compare_example) (Nd 0 [Lng 1, Str [0x61, 0x62], Cus 4180]) (Nd 0 [Lng 1, Str [0x61, 0x62], Cus 4192]) = Diff (- 1)"
  unfolding compare_example_def heap_machine_simps(1)
  by (simp add: custom_cmp_def int32_fns_def ops_compare_def Custom_ops_val_def int32_compare_def Int32_val_def Field_def example_words slt_def)

theorem compare_structural_witness:
  "\<exists>c'. compare_val quiet_fns int32_fns 4132 4116 compare_stack_init compare_example = Some (Returns (- 1) compare_example, c') \<and> stack_ok c'"
  using compare_structural [OF example_trees(2,3) example_stack(1), of int32_fns quiet_fns] by (simp add: example_stack(2) example_tcmp del: tcmp.simps)

end
