(* ===== verification/Compare_Order.thy ===== *)
theory Compare_Order
  imports Compare_Trees
begin

text \<open>
  The order behind the polymorphic operators.  The locale \<open>comparison\<close> is the contract of a function that compares two
  values by the sign of its result.  It is interpreted on the comparison of bytes, of doubles that are numbers, and on the comparison functions of the
  boxed integers, and holds for the trees that contain no NaN, no closure and no abstract value, whatever custom blocks they contain whose
  own comparison meets the contract.
\<close>

subsection \<open>Comparisons\<close>

text \<open>
  The contract of a comparison function that gives a negative number, zero or a positive number: swapping its arguments swaps
  the sign, and it is transitive.
\<close>

locale comparison =
  fixes cmp :: "'a \<Rightarrow> 'a \<Rightarrow> int" and A :: "'a set"
  assumes swap: "x \<in> A \<Longrightarrow> y \<in> A \<Longrightarrow> sgn (cmp y x) = - sgn (cmp x y)"
    and le_trans: "x \<in> A \<Longrightarrow> y \<in> A \<Longrightarrow> z \<in> A \<Longrightarrow> cmp x y \<le> 0 \<Longrightarrow> cmp y z \<le> 0 \<Longrightarrow> cmp x z \<le> 0"
begin

lemma swap_le: "x \<in> A \<Longrightarrow> y \<in> A \<Longrightarrow> cmp y x \<le> 0 \<longleftrightarrow> 0 \<le> cmp x y"
  using swap [of x y] by (auto simp: sgn_if split: if_splits)

lemma swap_zero: "x \<in> A \<Longrightarrow> y \<in> A \<Longrightarrow> cmp y x = 0 \<longleftrightarrow> cmp x y = 0"
  using swap [of x y] by (auto simp: sgn_if split: if_splits)

lemma zero_trans:
  assumes "x \<in> A" "y \<in> A" "z \<in> A" "cmp x y \<le> 0" "cmp y z \<le> 0" "cmp x z = 0"
  shows "cmp x y = 0" "cmp y z = 0"
proof -
  have "cmp z x \<le> 0" using assms swap_zero [of x z] by simp
  then have "cmp y x \<le> 0" "cmp z y \<le> 0" using le_trans assms by meson+
  then show "cmp x y = 0" "cmp y z = 0" using assms swap_le by force+
qed

lemma same_self: "x \<in> A \<Longrightarrow> cmp x x = 0"
  using swap [of x x] by (auto simp: sgn_if split: if_splits)

end

text \<open>Lists of the same length, by their first difference.\<close>

fun lex_cmp :: "('a \<Rightarrow> 'a \<Rightarrow> int) \<Rightarrow> 'a list \<Rightarrow> 'a list \<Rightarrow> int" where
  "lex_cmp cmp (x # xs) (y # ys) = (if cmp x y \<noteq> 0 then cmp x y else lex_cmp cmp xs ys)"
| "lex_cmp cmp xs ys = 0"

context comparison
begin

lemma lex_swap:
  "length xs = length ys \<Longrightarrow> set xs \<subseteq> A \<Longrightarrow> set ys \<subseteq> A \<Longrightarrow> sgn (lex_cmp cmp ys xs) = - sgn (lex_cmp cmp xs ys)"
proof (induction xs ys rule: list_induct2)
  case (Cons x xs y ys)
  then show ?case using swap [of x y] swap_zero [of x y] by auto
qed simp

lemma lex_trans:
  "length xs = length ys \<Longrightarrow> length ys = length zs \<Longrightarrow> set xs \<subseteq> A \<Longrightarrow> set ys \<subseteq> A \<Longrightarrow> set zs \<subseteq> A \<Longrightarrow>
    lex_cmp cmp xs ys \<le> 0 \<Longrightarrow> lex_cmp cmp ys zs \<le> 0 \<Longrightarrow> lex_cmp cmp xs zs \<le> 0"
proof (induction xs ys zs rule: list_induct3)
  case (Cons x xs y ys z zs)
  have le: "cmp x y \<le> 0" "cmp y z \<le> 0" using Cons.prems by (auto split: if_splits)
  have A: "x \<in> A" "y \<in> A" "z \<in> A" using Cons.prems by auto
  have "cmp x z \<le> 0" using le_trans [OF A le] .
  moreover have "lex_cmp cmp xs zs \<le> 0" if "cmp x z = 0"
    using Cons zero_trans [OF A le that] by simp
  ultimately show ?case by simp
qed simp

lemma lex_comparison: "comparison (lex_cmp cmp) {xs. length xs = n \<and> set xs \<subseteq> A}"
proof
  fix xs ys zs assume xy: "xs \<in> {xs. length xs = n \<and> set xs \<subseteq> A}" "ys \<in> {xs. length xs = n \<and> set xs \<subseteq> A}"
  then show "sgn (lex_cmp cmp ys xs) = - sgn (lex_cmp cmp xs ys)" by (intro lex_swap) auto
  assume "zs \<in> {xs. length xs = n \<and> set xs \<subseteq> A}" "lex_cmp cmp xs ys \<le> 0" "lex_cmp cmp ys zs \<le> 0"
  then show "lex_cmp cmp xs zs \<le> 0" using lex_trans [of xs ys zs] xy by simp
qed

end

lemma comparison_key:
  assumes "\<And>x y. x \<in> A \<Longrightarrow> y \<in> A \<Longrightarrow> sgn (cmp x y) = sgn (f x - f y :: int)"
  shows "comparison cmp A"
proof
  have le: "cmp x y \<le> 0 \<longleftrightarrow> f x \<le> f y" if "x \<in> A" "y \<in> A" for x y
    using assms [OF that] by (auto simp: sgn_if split: if_splits)
  fix x y z assume xy: "x \<in> A" "y \<in> A"
  show "sgn (cmp y x) = - sgn (cmp x y)" using assms [OF xy] assms [OF xy(2,1)] by (simp add: sgn_if)
  assume "z \<in> A" "cmp x y \<le> 0" "cmp y z \<le> 0"
  then show "cmp x z \<le> 0" using le xy by fastforce
qed

lemma comparison_image:
  assumes "comparison cmp B" and "\<And>x. x \<in> A \<Longrightarrow> f x \<in> B" and "\<And>x y. x \<in> A \<Longrightarrow> y \<in> A \<Longrightarrow> c x y = cmp (f x) (f y)"
  shows "comparison c A"
  using assms unfolding comparison_def by (metis (full_types))

text \<open>A key that decides when it differs.\<close>

lemma comparison_classes:
  assumes k: "\<And>x y. x \<in> A \<Longrightarrow> y \<in> A \<Longrightarrow> f x \<noteq> f y \<Longrightarrow> sgn (cmp x y) = sgn (f x - f y :: int)"
    and cl: "\<And>i. comparison cmp {x \<in> A. f x = i}"
  shows "comparison cmp A"
proof
  have le: "f x \<le> f y" "f x < f y \<or> f x = f y" if "x \<in> A" "y \<in> A" "cmp x y \<le> 0" for x y
    using k [OF that(1,2)] that(3) by (cases "f x = f y"; auto simp: sgn_if split: if_splits)+
  fix x y z assume xy: "x \<in> A" "y \<in> A"
  show "sgn (cmp y x) = - sgn (cmp x y)"
  proof (cases "f x = f y")
    case True
    then show ?thesis using comparison.swap [OF cl [of "f y"], of x y] xy by simp
  next
    case False
    then show ?thesis using k [OF xy] k [OF xy(2,1)] by (simp add: sgn_if)
  qed
  assume z: "z \<in> A" "cmp x y \<le> 0" "cmp y z \<le> 0"
  show "cmp x z \<le> 0"
  proof (cases "f x = f z")
    case True
    then have "f x = f y" "f y = f z" using le xy z by fastforce+
    then show ?thesis using comparison.le_trans [OF cl [of "f z"], of x y z] xy z by simp
  next
    case False
    then have "f x < f z" using le(1) [OF xy z(2)] le(1) [OF xy(2) z(1,3)] by linarith
    then show ?thesis using k [OF xy(1) z(1)] by (auto simp: sgn_if split: if_splits)
  qed
qed

subsection \<open>The order of trees\<close>

text \<open>The trees that have a place in the order: no NaN, no closure or abstract block, and of the custom blocks only those of \<open>C\<close>.\<close>

fun ordered :: "addr set \<Rightarrow> tree \<Rightarrow> bool" where
  "ordered C (Dbl d) \<longleftrightarrow> \<not> d_nan d"
| "ordered C (Dbls ds) \<longleftrightarrow> (\<forall>d \<in> set ds. \<not> d_nan d)"
| "ordered C (Cus a) \<longleftrightarrow> a \<in> C"
| "ordered C (Opq t a) \<longleftrightarrow> False"
| "ordered C (Nd t ts) \<longleftrightarrow> \<not> leaf_tag t \<and> (\<forall>u \<in> set ts. ordered C u)"
| "ordered C t \<longleftrightarrow> True"

definition custom_diff :: "compare_fns \<Rightarrow> mem \<Rightarrow> addr \<Rightarrow> addr \<Rightarrow> int" where
  "custom_diff cf m a b = sint (compare_fun cf (ops_compare m (Custom_ops_val m a)) m a b)"

definition custom_order :: "compare_fns \<Rightarrow> mem \<Rightarrow> addr set \<Rightarrow> bool" where
  "custom_order cf m C \<longleftrightarrow> (\<forall>a \<in> C. ops_compare m (Custom_ops_val m a) \<noteq> 0) \<and> comparison (custom_diff cf m) C"

fun verdict_val :: "verdict \<Rightarrow> int" where
  "verdict_val (Diff n) = n"
| "verdict_val w = 0"

definition tree_cmp :: "compare_fns \<Rightarrow> mem \<Rightarrow> tree \<Rightarrow> tree \<Rightarrow> int" where
  "tree_cmp cf m t u = verdict_val (tcmp cf m t u)"

definition tree_key :: "tree \<Rightarrow> int" where
  "tree_key t = (case t of Lng i \<Rightarrow> - 1 | _ \<Rightarrow> tree_tag t)"

lemma custom_cmp_order:
  "custom_order cf m C \<Longrightarrow> a \<in> C \<Longrightarrow> b \<in> C \<Longrightarrow> custom_cmp cf m a b = Diff (custom_diff cf m a b)"
  using comparison.same_self [of "custom_diff cf m" C b] by (auto simp: custom_order_def custom_cmp_def custom_diff_def)

lemma tcmps_lex:
  "length ts = length us \<Longrightarrow> (\<And>t u. t \<in> set ts \<Longrightarrow> u \<in> set us \<Longrightarrow> tcmp cf m t u = Diff (tree_cmp cf m t u)) \<Longrightarrow>
    tcmps cf m ts us = Diff (lex_cmp (tree_cmp cf m) ts us)"
  by (induction ts us rule: list_induct2) auto

lemma ordered_decides:
  "custom_order cf m C \<Longrightarrow> ordered C t \<Longrightarrow> ordered C u \<Longrightarrow> tcmp cf m t u = Diff (tree_cmp cf m t u)"
proof (induction t arbitrary: u)
  case (Nd t ts)
  then show ?case using tcmps_lex [of ts _ cf m] by (cases u) (auto simp: tree_cmp_def)
next
  case (Cus a)
  then show ?case by (cases u) (auto simp: tree_cmp_def custom_cmp_order)
qed (case_tac u; auto simp: tree_cmp_def)+

lemma uint_not_neg: "\<not> uint (x :: 'a::len word) < - 1"
  using uint_ge_0 [of x] by linarith

lemma tree_cmp_key: "tree_key t \<noteq> tree_key u \<Longrightarrow> sgn (tree_cmp cf m t u) = sgn (tree_key t - tree_key u)"
  by (cases t; cases u) (auto simp: tree_cmp_def tree_key_def sgn_if tag_defs uint_not_neg)

lemma bytes_comparison: "comparison bytes_cmp UNIV"
proof
  fix xs ys zs
  show "sgn (bytes_cmp ys xs) = - sgn (bytes_cmp xs ys)"
    by (induction xs ys rule: bytes_cmp.induct) (auto simp: sgn_if uint_same bytes_cmp_Nil split: if_splits)
  show "bytes_cmp xs ys \<le> 0 \<Longrightarrow> bytes_cmp ys zs \<le> 0 \<Longrightarrow> bytes_cmp xs zs \<le> 0"
  proof (induction xs ys arbitrary: zs rule: bytes_cmp.induct)
    case (1 x xs y ys)
    then show ?case by (cases zs) (auto split: if_splits simp: uint_same)
  qed (simp_all add: bytes_cmp_Nil)
qed

lemma d_comparison: "comparison d_cmp {d. \<not> d_nan d}"
  by (rule comparison_key [where f = d_key]) (auto simp: d_cmp_def d_less_def sgn_if)

lemma doubles_cmp_lex: "doubles_cmp ds es = lex_cmp d_cmp ds es"
  by (induction ds es rule: doubles_cmp.induct) simp_all

lemma leaf_comparisons:
  "comparison (tree_cmp cf m) {t. \<exists>i. t = Lng i}" "comparison (tree_cmp cf m) {t. \<exists>bs. t = Str bs}"
  "comparison (tree_cmp cf m) {t. ordered C t \<and> (\<exists>d. t = Dbl d)}" "comparison (tree_cmp cf m) {t. \<exists>i. t = Obj i}"
proof -
  show "comparison (tree_cmp cf m) {t. \<exists>i. t = Lng i}"
    by (rule comparison_key [where f = "\<lambda>t. case t of Lng j \<Rightarrow> j | _ \<Rightarrow> 0"]) (auto simp: tree_cmp_def)
  show "comparison (tree_cmp cf m) {t. \<exists>bs. t = Str bs}"
    by (rule comparison_image [OF bytes_comparison, where f = "\<lambda>t. case t of Str b \<Rightarrow> b | _ \<Rightarrow> []"]) (auto simp: tree_cmp_def)
  show "comparison (tree_cmp cf m) {t. ordered C t \<and> (\<exists>d. t = Dbl d)}"
    by (rule comparison_image [OF d_comparison, where f = "\<lambda>t. case t of Dbl d \<Rightarrow> d | _ \<Rightarrow> (0, 0)"]) (auto simp: tree_cmp_def)
  show "comparison (tree_cmp cf m) {t. \<exists>i. t = Obj i}"
    by (rule comparison_key [where f = "\<lambda>t. case t of Obj j \<Rightarrow> j | _ \<Rightarrow> 0"]) (auto simp: tree_cmp_def)
qed

lemma custom_comparison:
  assumes c: "custom_order cf m C"
  shows "comparison (tree_cmp cf m) {t. ordered C t \<and> (\<exists>a. t = Cus a)}"
proof (rule comparison_image [where cmp = "custom_diff cf m" and B = C and f = "\<lambda>t. case t of Cus a \<Rightarrow> a | _ \<Rightarrow> 0"])
  show "comparison (custom_diff cf m) C" using c by (simp add: custom_order_def)
qed (auto simp: tree_cmp_def custom_cmp_order [OF c])

lemma dbls_comparison:
  "comparison (tree_cmp cf m) {t \<in> Collect (ordered C). \<exists>ds. t = Dbls ds}"
proof (rule comparison_classes [where f = "\<lambda>t. case t of Dbls ds \<Rightarrow> int (length ds) | _ \<Rightarrow> 0"])
  fix i :: int
  show "comparison (tree_cmp cf m) {t \<in> {t \<in> Collect (ordered C). \<exists>ds. t = Dbls ds}. (case t of Dbls ds \<Rightarrow> int (length ds) | _ \<Rightarrow> 0) = i}"
    by (rule comparison_image [OF comparison.lex_comparison [OF d_comparison, of "nat i"], where f = "\<lambda>t. case t of Dbls ds \<Rightarrow> ds | _ \<Rightarrow> []"])
      (auto simp: tree_cmp_def doubles_cmp_lex)
qed (auto simp: tree_cmp_def)

lemma nodes_comparison:
  assumes c: "custom_order cf m C" and IH: "comparison (tree_cmp cf m) {t. ordered C t \<and> size t < n}"
  shows "comparison (tree_cmp cf m) {t. ordered C t \<and> size t < Suc n \<and> (\<exists>ts. t = Nd a ts)}" (is "comparison _ ?A")
proof (rule comparison_classes [where f = "\<lambda>t. case t of Nd a ts \<Rightarrow> int (length ts) | _ \<Rightarrow> 0"])
  fix i :: int
  have sub: "size t < n" if "t \<in> set ts" "size (Nd a ts) < Suc n" for t ts
    using that size_list_estimation' [of t ts "size t" size] by auto
  have lex: "tree_cmp cf m (Nd a ts) (Nd a us) = lex_cmp (tree_cmp cf m) ts us"
    if "ordered C (Nd a ts)" "ordered C (Nd a us)" "length ts = length us" for ts us
    using tcmps_lex [of ts us cf m] ordered_decides [OF c] that by (simp add: tree_cmp_def [of cf m "Nd a ts"])
  show "comparison (tree_cmp cf m) {t \<in> ?A. (case t of Nd a ts \<Rightarrow> int (length ts) | _ \<Rightarrow> 0) = i}"
    by (rule comparison_image [OF comparison.lex_comparison [OF IH, of "nat i"], where f = "\<lambda>t. case t of Nd a ts \<Rightarrow> ts | _ \<Rightarrow> []"])
      (use sub lex in auto)
qed (auto simp: tree_cmp_def)

lemma comparison_subset: "comparison cmp A \<Longrightarrow> B \<subseteq> A \<Longrightarrow> comparison cmp B"
  unfolding comparison_def by blast

lemma tag_distinct:
  "distinct [String_tag, Double_tag, Double_array_tag, Object_tag, Custom_tag, Abstract_tag, Closure_tag, Infix_tag]"
  by (simp add: tag_defs)

lemma key_shape:
  assumes "ordered C t"
  shows "tree_key t = - 1 \<Longrightarrow> \<exists>i. t = Lng i" and "tree_key t = uint String_tag \<Longrightarrow> \<exists>bs. t = Str bs"
    and "tree_key t = uint Double_tag \<Longrightarrow> \<exists>d. t = Dbl d" and "tree_key t = uint Double_array_tag \<Longrightarrow> \<exists>ds. t = Dbls ds"
    and "tree_key t = uint Object_tag \<Longrightarrow> \<exists>i. t = Obj i" and "tree_key t = uint Custom_tag \<Longrightarrow> \<exists>a. t = Cus a"
    and "tree_key t \<notin> {- 1, uint String_tag, uint Double_tag, uint Double_array_tag, uint Object_tag, uint Custom_tag} \<Longrightarrow>
      \<exists>ts. t = Nd (word_of_int (tree_key t)) ts"
proof -
  have neg: "uint x \<noteq> - 1" for x :: uint32 using uint_ge_0 [of x] by linarith
  show "tree_key t = - 1 \<Longrightarrow> \<exists>i. t = Lng i" "tree_key t = uint String_tag \<Longrightarrow> \<exists>bs. t = Str bs"
    "tree_key t = uint Double_tag \<Longrightarrow> \<exists>d. t = Dbl d" "tree_key t = uint Double_array_tag \<Longrightarrow> \<exists>ds. t = Dbls ds"
    "tree_key t = uint Object_tag \<Longrightarrow> \<exists>i. t = Obj i" "tree_key t = uint Custom_tag \<Longrightarrow> \<exists>a. t = Cus a"
    "tree_key t \<notin> {- 1, uint String_tag, uint Double_tag, uint Double_array_tag, uint Object_tag, uint Custom_tag} \<Longrightarrow>
      \<exists>ts. t = Nd (word_of_int (tree_key t)) ts"
    using assms tag_distinct by (cases t; auto simp: tree_key_def leaf_tag_def uint_same neg neg [symmetric])+
qed

lemma trees_bounded:
  assumes c: "custom_order cf m C"
  shows "comparison (tree_cmp cf m) {t. ordered C t \<and> size t < n}"
proof (induction n)
  case 0
  show ?case by (simp add: comparison_def)
next
  case (Suc n)
  let ?A = "{t. ordered C t \<and> size t < Suc n}"
  show ?case
  proof (rule comparison_classes [where f = tree_key])
    fix i
    let ?B = "{t \<in> ?A. tree_key t = i}"
    have ord: "t \<in> ?B \<Longrightarrow> ordered C t \<and> tree_key t = i" for t by simp
    note shape = key_shape [OF conjunct1 [OF ord]]
    consider "i = - 1" | "i = uint String_tag" | "i = uint Double_tag" | "i = uint Double_array_tag" | "i = uint Object_tag"
      | "i = uint Custom_tag" | "i \<notin> {- 1, uint String_tag, uint Double_tag, uint Double_array_tag, uint Object_tag, uint Custom_tag}"
      by blast
    then show "comparison (tree_cmp cf m) ?B"
    proof cases
      case 1
      then show ?thesis using shape(1) by (intro comparison_subset [OF leaf_comparisons(1)]) blast
    next
      case 2
      then show ?thesis using shape(2) by (intro comparison_subset [OF leaf_comparisons(2)]) blast
    next
      case 3
      then show ?thesis using shape(3) ord by (intro comparison_subset [OF leaf_comparisons(3) [where C = C]]) blast
    next
      case 4
      then show ?thesis using shape(4) ord by (intro comparison_subset [OF dbls_comparison [of cf m C]]) blast
    next
      case 5
      then show ?thesis using shape(5) by (intro comparison_subset [OF leaf_comparisons(4)]) blast
    next
      case 6
      then show ?thesis using shape(6) ord by (intro comparison_subset [OF custom_comparison [OF c]]) blast
    next
      case 7
      then show ?thesis using shape(7) by (intro comparison_subset [OF nodes_comparison [OF c Suc, of "word_of_int i"]]) auto
    qed
  qed (rule tree_cmp_key)
qed

lemma trees_comparison:
  assumes "custom_order cf m C"
  shows "comparison (tree_cmp cf m) (Collect (ordered C))"
proof
  fix t u w :: tree assume tu: "t \<in> Collect (ordered C)" "u \<in> Collect (ordered C)"
  have lt: "size t < Suc (size t + size u + size w)" "size u < Suc (size t + size u + size w)" "size w < Suc (size t + size u + size w)" by auto
  note b = trees_bounded [OF assms, of "Suc (size t + size u + size w)"]
  show "sgn (tree_cmp cf m u t) = - sgn (tree_cmp cf m t u)" using comparison.swap [OF b, of t u] tu lt by blast
  assume "w \<in> Collect (ordered C)" "tree_cmp cf m t u \<le> 0" "tree_cmp cf m u w \<le> 0"
  then show "tree_cmp cf m t w \<le> 0" using comparison.le_trans [OF b, of t u w] tu lt by blast
qed

interpretation bytes: comparison bytes_cmp UNIV
  by (rule bytes_comparison)

interpretation doubles: comparison d_cmp "{d. \<not> d_nan d}"
  by (rule d_comparison)

interpretation int32: comparison "int32_compare m" UNIV for m
  by (rule comparison_key [where f = "\<lambda>v. sint (Int32_val m v)"])
    (auto simp: int32_compare_def Let_def sgn_if slt_def sint_same)

subsection \<open>The range of a difference\<close>

text \<open>No difference of two trees that are read from memory overflows a \<^verbatim>\<open>long\<close>.\<close>

fun small :: "tree \<Rightarrow> bool" where
  "small (Lng i) \<longleftrightarrow> - (2 ^ 30) \<le> i \<and> i < 2 ^ 30"
| "small (Obj i) \<longleftrightarrow> - (2 ^ 30) \<le> i \<and> i < 2 ^ 30"
| "small (Str bs) \<longleftrightarrow> length bs < 2 ^ 25"
| "small (Dbls ds) \<longleftrightarrow> length ds < 2 ^ 25"
| "small (Opq t a) \<longleftrightarrow> uint t < 256"
| "small (Nd t ts) \<longleftrightarrow> uint t < 256 \<and> length ts < 2 ^ 25 \<and> (\<forall>u \<in> set ts. small u)"
| "small t \<longleftrightarrow> True"

lemma Long_val_small: "- (2 ^ 30) \<le> sint (Long_val v)" "sint (Long_val v) < 2 ^ 30"
  using sint32_range [of v] by (simp_all add: sint_Long_val)

lemma Tag_val_small: "uint (Tag_val m v) < 256"
proof -
  have "Tag_val m v = take_bit 8 (Hd_val m v)" by (simp add: Tag_val_def Tag_hd_def take_bit_eq_mask mask_numeral)
  moreover have "uint (take_bit 8 (Hd_val m v)) < 2 ^ 8" unfolding unsigned_take_bit_eq by (rule take_bit_int_less_exp)
  ultimately show ?thesis by simp
qed

lemma fields_small: "fields_at n s p ts \<Longrightarrow> (\<And>v t. tree_of n s v = Some t \<Longrightarrow> small t) \<Longrightarrow> u \<in> set ts \<Longrightarrow> small u"
  by (induction ts arbitrary: p) auto

lemma tree_of_small: "tree_of n s v = Some t \<Longrightarrow> small t"
proof (induction n arbitrary: v t)
  case (Suc n)
  let ?m = "mem s"
  have w: "unat (Wosize_val ?m v) < 2 ^ 25" "unat (Wosize_val ?m v div Double_wosize) < 2 ^ 25"
    using Wosize_val_le [of ?m v] by (auto simp: Double_wosize_def unat_div)
  have b: "unat (Bosize_val ?m v) < 2 ^ 25"
    using Wosize_val_le [of ?m v] by (simp add: Bosize_val_def Bsize_wsize_def unat_word_ariths)
  have nodes: "length ts < 2 ^ 25 \<and> (\<forall>u \<in> set ts. small u)"
    if "those (map (\<lambda>i. tree_of n s (Field ?m v (word_of_nat i))) [0..<unat (Wosize_val ?m v)]) = Some ts" for ts
  proof -
    have "length ts = unat (Wosize_val ?m v) \<and> fields_at n s v ts" using that by (intro those_fields) (simp add: Field_def)
    then show ?thesis using w(1) fields_small [of n s v ts] Suc.IH by metis
  qed
  show ?case using Suc.prems Suc.IH w b nodes Tag_val_small [of ?m v]
    by (auto simp: Let_def load_bytes_def Long_val_small [simplified] Oid_val_def split: if_splits)
qed simp

lemma bytes_cmp_range: "\<bar>bytes_cmp bs cs\<bar> \<le> max 255 (int (max (length bs) (length cs)))"
proof (induction bs cs rule: bytes_cmp.induct)
  case (1 x xs y ys)
  have "uint x < 256" "uint y < 256" using uint_lt2p [of x] uint_lt2p [of y] by simp_all
  then have "\<bar>uint x - uint y\<bar> \<le> 255" using uint_ge_0 [of x] uint_ge_0 [of y] by linarith
  then show ?case using 1 by auto
qed auto

lemma doubles_cmp_range: "\<bar>doubles_cmp ds es\<bar> \<le> 1"
  by (induction ds es rule: doubles_cmp.induct) (auto simp: d_cmp_def)

definition long_range :: "int \<Rightarrow> bool" where
  "long_range n \<longleftrightarrow> - (2 ^ 31) \<le> n \<and> n < 2 ^ 31"

lemma tcmps_diff: "tcmps cf m ts us = Diff n \<Longrightarrow> n = 0 \<or> (\<exists>t \<in> set ts. \<exists>u \<in> set us. tcmp cf m t u = Diff n)"
proof (induction ts arbitrary: us)
  case (Cons t ts)
  show ?case
  proof (cases us)
    case Nil
    then show ?thesis using Cons.prems by simp
  next
    case us: (Cons u us')
    then have "then_cmp (tcmp cf m t u) (tcmps cf m ts us') = Diff n" using Cons.prems by simp
    then have "tcmp cf m t u = Diff n \<or> tcmps cf m ts us' = Diff n" by (cases "tcmp cf m t u") (auto split: if_splits)
    then show ?thesis using Cons.IH [of us'] us by auto
  qed
qed simp

lemma long_range_abs: "\<bar>n\<bar> < 256 \<or> \<bar>n\<bar> < 2 ^ 25 \<Longrightarrow> long_range n"
  by (auto simp: long_range_def)

lemma tag_range: "uint t < 256 \<Longrightarrow> uint u < 256 \<Longrightarrow> long_range (uint t - uint u)" for t u :: uint32
  by (rule long_range_abs) (use uint_ge_0 [of t] uint_ge_0 [of u] in linarith)

lemma tree_tag_range: assumes "small t" and "small u" shows "long_range (tree_tag t - tree_tag u)"
proof (rule long_range_abs)
  have "0 \<le> tree_tag t \<and> tree_tag t < 256" if "small t" for t using that by (cases t) (auto simp: tag_defs)
  then have "0 \<le> tree_tag t \<and> tree_tag t < 256" "0 \<le> tree_tag u \<and> tree_tag u < 256" using assms by blast+
  then show "\<bar>tree_tag t - tree_tag u\<bar> < 256 \<or> \<bar>tree_tag t - tree_tag u\<bar> < 2 ^ 25" by linarith
qed

lemma shape_range: "small t \<Longrightarrow> small u \<Longrightarrow> shape_cmp t u = Diff n \<Longrightarrow> long_range n"
  using tree_tag_range [of t u] by (cases t; cases u) (auto simp: long_range_def)

lemma tcmp_range: "small t \<Longrightarrow> small u \<Longrightarrow> tcmp cf m t u = Diff n \<Longrightarrow> long_range n"
proof (induction t arbitrary: u n)
  case (Nd a ts)
  show ?case
  proof (cases "\<exists>us. u = Nd a us \<and> length us = length ts")
    case True
    then obtain us where us: "u = Nd a us" "tcmps cf m ts us = Diff n" using Nd.prems(3) by auto
    show ?thesis using tcmps_diff [OF us(2)] Nd.IH Nd.prems us(1) by (auto simp: long_range_def)
  next
    case False
    then show ?thesis using Nd.prems shape_range [OF Nd.prems(1,2)] tag_range [of a]
      by (cases u) (auto simp: long_range_def split: if_splits)
  qed
next
  case (Str bs)
  show ?case
  proof (cases "\<exists>cs. u = Str cs")
    case True
    then obtain cs where "u = Str cs" "n = bytes_cmp bs cs" "length cs < 2 ^ 25" "length bs < 2 ^ 25" using Str.prems by auto
    then show ?thesis using bytes_cmp_range [of bs cs] by (intro long_range_abs) auto
  next
    case False
    then have "tcmp cf m (Str bs) u = shape_cmp (Str bs) u" by (cases u) auto
    then show ?thesis using shape_range [OF Str.prems(1,2)] Str.prems(3) by simp
  qed
next
  case (Dbls ds)
  show ?case
  proof (cases "\<exists>es. u = Dbls es")
    case True
    then obtain es where "u = Dbls es" "length es < 2 ^ 25" "length ds < 2 ^ 25"
        "n = (if length ds \<noteq> length es then int (length ds) - int (length es) else doubles_cmp ds es)"
      using Dbls.prems by (auto split: if_splits)
    then show ?thesis using doubles_cmp_range [of ds es] by (intro long_range_abs) auto
  next
    case False
    then have "tcmp cf m (Dbls ds) u = shape_cmp (Dbls ds) u" by (cases u) auto
    then show ?thesis using shape_range [OF Dbls.prems(1,2)] Dbls.prems(3) by simp
  qed
next
  case (Cus a)
  then show ?case using shape_range [OF Cus.prems(1,2)] sint32_range
    by (cases u) (auto simp: long_range_def custom_cmp_def Let_def split: if_splits)
next
  case (Opq t a)
  then show ?case using shape_range [OF Opq.prems(1,2)] tag_range [of t]
    by (cases u) (auto simp: long_range_def opaque_cmp_def split: if_splits)
next
  case (Lng i)
  then show ?case using shape_range [OF Lng.prems(1,2)] by (cases u) (auto simp: long_range_def)
next
  case (Obj i)
  then show ?case using shape_range [OF Obj.prems(1,2)] by (cases u) (auto simp: long_range_def)
next
  case (Dbl d)
  then show ?case using shape_range [OF Dbl.prems(1,2)] by (cases u) (auto simp: long_range_def d_cmp_def split: if_splits)
qed

subsection \<open>The operators\<close>

text \<open>\<open>k\<close> is the outcome of comparing \<open>x\<close> and \<open>y\<close> for all seven primitives.\<close>

definition ordered_as :: "fns \<Rightarrow> compare_fns \<Rightarrow> compare_stack \<Rightarrow> machine \<Rightarrow> val \<Rightarrow> val \<Rightarrow> int \<Rightarrow> bool" where
  "ordered_as fns cf c s x y k \<longleftrightarrow>
     fst (compare_prim fns cf x y c s) = Returns (rep_int k) s \<and>
     fst (equal_prim fns cf x y c s) = Returns (Val_bool (k = 0)) s \<and>
     fst (notequal fns cf x y c s) = Returns (Val_bool (k \<noteq> 0)) s \<and>
     fst (lessthan fns cf x y c s) = Returns (Val_bool (k < 0)) s \<and>
     fst (lessequal fns cf x y c s) = Returns (Val_bool (k \<le> 0)) s \<and>
     fst (greaterthan fns cf x y c s) = Returns (Val_bool (0 < k)) s \<and>
     fst (greaterequal fns cf x y c s) = Returns (Val_bool (0 \<le> k)) s"

lemma compare_with_returns:
  "compare_val fns cf x y c s = Some (Returns n s, c') \<Longrightarrow> fst (compare_with f fns cf x y c s) = Returns (Val_int (f n)) s"
  by (simp add: compare_with_def)

lemma ordered_asI:
  assumes v: "compare_val fns cf x y c s = Some (Returns (word_of_int n) s, c')" and n: "long_range n"
  shows "ordered_as fns cf c s x y (sgn n)"
proof -
  have s: "sint (word_of_int n :: uint32) = n" using n by (intro sint_word_of_int_in) (auto simp: long_range_def)
  then have z: "(word_of_int n :: uint32) = 0 \<longleftrightarrow> n = 0" by (metis signed_0 of_int_0)
  show ?thesis
    unfolding ordered_as_def compare_prim_def equal_prim_def notequal_def lessthan_def lessequal_def greaterthan_def greaterequal_def
      compare_with_returns [OF v]
    by (auto simp: slt_def sle_def s z rep_int_def Val_bool_def sgn_if)
qed

lemma ordered_values:
  assumes t: "tree_of n s x = Some t" "tree_of n s y = Some u" and o: "ordered C t" "ordered C u"
    and c: "custom_order cf (mem s) C" and f: "fits cf (need t) c"
  shows "ordered_as fns cf c s x y (sgn (tree_cmp cf (mem s) t u))"
proof -
  have d: "tcmp cf (mem s) t u = Diff (tree_cmp cf (mem s) t u)" by (rule ordered_decides [OF c o])
  obtain c' where "compare_val fns cf x y c s = Some (Returns (word_of_int (tree_cmp cf (mem s) t u)) s, c')"
    using compare_val_ends [OF t f, of fns] d by auto
  then show ?thesis using tcmp_range [OF tree_of_small [OF t(1)] tree_of_small [OF t(2)] d] by (rule ordered_asI)
qed

text \<open>
  C23: On values that can be read as trees without NaN, closures and abstract blocks, the operators
  \<^verbatim>\<open>compare\<close>, \<^verbatim>\<open>=\<close>, \<^verbatim>\<open><>\<close>, \<^verbatim>\<open><\<close>, \<^verbatim>\<open><=\<close>, \<^verbatim>\<open>>\<close> and \<^verbatim>\<open>>=\<close> all return, agree with
  each other, and describe a total preorder: exchanging the arguments exchanges the sign and the relation is transitive.  The custom
  blocks in the values have to come with comparison functions that have these properties themselves.
\<close>

theorem compare_total_order:
  assumes t: "tree_of n s x = Some t" "tree_of n s y = Some u" "tree_of n s z = Some w"
    and o: "ordered C t" "ordered C u" "ordered C w" and c: "custom_order cf (mem s) C"
    and f: "fits cf (need t) c" "fits cf (need u) c"
  shows "\<exists>k l i. ordered_as fns cf c s x y k \<and> ordered_as fns cf c s y x (- k) \<and> ordered_as fns cf c s y z l \<and>
    ordered_as fns cf c s x z i \<and> k \<in> {- 1, 0, 1} \<and> (k \<le> 0 \<and> l \<le> 0 \<longrightarrow> i \<le> 0 \<and> (i = 0 \<longrightarrow> k = 0 \<and> l = 0))"
proof -
  let ?c = "tree_cmp cf (mem s)" and ?A = "Collect (ordered C)"
  have tc: "comparison ?c ?A" by (rule trees_comparison [OF c])
  have A: "t \<in> ?A" "u \<in> ?A" "w \<in> ?A" using o by simp_all
  note val = ordered_values [OF _ _ _ _ c, where fns = fns]
  have "ordered_as fns cf c s x y (sgn (?c t u))" "ordered_as fns cf c s y z (sgn (?c u w))" "ordered_as fns cf c s x z (sgn (?c t w))"
    by (rule val t o f)+
  moreover have "ordered_as fns cf c s y x (- sgn (?c t u))"
    using val [OF t(2,1) o(2,1) f(2)] comparison.swap [OF tc A(1,2)] by simp
  moreover have "sgn (?c t u) \<le> 0 \<and> sgn (?c u w) \<le> 0 \<longrightarrow> sgn (?c t w) \<le> 0 \<and> (sgn (?c t w) = 0 \<longrightarrow> sgn (?c t u) = 0 \<and> sgn (?c u w) = 0)"
    using comparison.le_trans [OF tc A] comparison.zero_trans [OF tc A] by (auto simp: sgn_if split: if_splits)
  moreover have "sgn (?c t u) \<in> {- 1, 0, 1}" by (auto simp: sgn_if)
  ultimately show ?thesis by blast
qed

lemma int32_custom_order:
  assumes "\<And>a. a \<in> C \<Longrightarrow> ops_compare m (Custom_ops_val m a) \<noteq> 0"
  shows "custom_order int32_fns m C"
proof -
  have "sint (word_of_int (int32_compare m a b) :: uint32) = int32_compare m a b" for a b
    by (rule sint_word_of_int_in) (auto simp: int32_compare_def Let_def)
  then have "custom_diff int32_fns m = int32_compare m" by (intro ext) (simp add: custom_diff_def int32_fns_def)
  then have "comparison (custom_diff int32_fns m) UNIV" using int32.comparison_axioms [of m] by simp
  then have "comparison (custom_diff int32_fns m) C" by (rule comparison_subset) simp
  then show ?thesis using assms by (simp add: custom_order_def)
qed

lemma example_ops:
  "ops_compare (mem compare_example) (Custom_ops_val (mem compare_example) 4180) = 400"
  "ops_compare (mem compare_example) (Custom_ops_val (mem compare_example) 4192) = 400"
  unfolding compare_example_def heap_machine_simps(1) by (simp_all add: ops_compare_def Custom_ops_val_def example_words)

theorem compare_total_order_witness:
  "\<exists>k l i. ordered_as quiet_fns int32_fns compare_stack_init compare_example 4132 4116 k \<and>
    ordered_as quiet_fns int32_fns compare_stack_init compare_example 4116 4132 (- k) \<and>
    ordered_as quiet_fns int32_fns compare_stack_init compare_example 4116 4116 l \<and>
    ordered_as quiet_fns int32_fns compare_stack_init compare_example 4132 4116 i \<and> k \<in> {- 1, 0, 1} \<and>
    (k \<le> 0 \<and> l \<le> 0 \<longrightarrow> i \<le> 0 \<and> (i = 0 \<longrightarrow> k = 0 \<and> l = 0))"
proof (rule compare_total_order [OF example_trees(2,3,3), where C = "{4180, 4192}"])
  show "custom_order int32_fns (mem compare_example) {4180, 4192}"
    by (rule int32_custom_order) (auto simp: example_ops)
qed (use example_fits in \<open>simp_all add: leaf_tag_def tag_defs\<close>)

end
