(* ===== verification/Hash.thy ===== *)
theory Hash
  imports Compare_Order
begin

text \<open>
  The polymorphic hash function and the hash of variant tags (\<^verbatim>\<open>byterun/hash.c\<close>).  The traversal stops
  after a number of meaningful values (\<open>h_count\<close>) and after a number of calls (\<open>h_limit\<close>), so that it ends on cyclic values
  too.  Values that compare equal are hashed alike unless they contain floating-point numbers.
\<close>

subsection \<open>The traversal\<close>

record hash_state =
  h_accu :: uint32
  h_limit :: uint32
  h_count :: uint32

definition Combine :: "uint32 \<Rightarrow> hash_state \<Rightarrow> hash_state" where
  "Combine x st = st\<lparr>h_accu := h_accu st * 65599 + x\<rparr>"

definition Combine_small :: "uint32 \<Rightarrow> hash_state \<Rightarrow> hash_state" where
  "Combine_small x st = st\<lparr>h_accu := h_accu st * 19 + x\<rparr>"

definition counted :: "hash_state \<Rightarrow> hash_state" where
  "counted st = st\<lparr>h_count := h_count st - 1\<rparr>"

text \<open>\<open>n\<close> bytes from byte \<open>k\<close> on; the least significant byte of a double comes first in memory.\<close>

fun hash_bytes :: "mem \<Rightarrow> val \<Rightarrow> nat \<Rightarrow> nat \<Rightarrow> hash_state \<Rightarrow> hash_state" where
  "hash_bytes m v k 0 st = st"
| "hash_bytes m v k (Suc n) st = hash_bytes m v (Suc k) n (Combine_small (ucast (Byte_u m v (word_of_nat k))) st)"

fun hash_doubles :: "mem \<Rightarrow> val \<Rightarrow> nat \<Rightarrow> nat \<Rightarrow> hash_state \<Rightarrow> hash_state" where
  "hash_doubles m v j 0 st = st"
| "hash_doubles m v j (Suc n) st = hash_doubles m v (j + 8) n (hash_bytes m v j 8 st)"

text \<open>What a call does first; \<open>body\<close> is the rest of the function.\<close>

definition hash_enter :: "(hash_state \<Rightarrow> hash_state option) \<Rightarrow> hash_state \<Rightarrow> hash_state option" where
  "hash_enter body st =
     (let st = st\<lparr>h_limit := h_limit st - 1\<rparr> in if slt (h_count st) 0 \<or> slt (h_limit st) 0 then Some st else body st)"

fun hash_fields :: "(val \<Rightarrow> hash_state \<Rightarrow> hash_state option) \<Rightarrow> mem \<Rightarrow> val \<Rightarrow> nat \<Rightarrow> hash_state \<Rightarrow> hash_state option" where
  "hash_fields f m v 0 st = Some st"
| "hash_fields f m v (Suc i) st =
     (case f (Field m v (word_of_nat i)) st of None \<Rightarrow> None | Some st \<Rightarrow> hash_fields f m v i st)"

text \<open>
  The function from the label \<^verbatim>\<open>again\<close> on.  A forwarding block goes back to the label and a closure or a block with
  fields calls the function; the first argument bounds the depth of both, and the value is \<open>None\<close> when it is too small.
\<close>

fun hash_again :: "nat \<Rightarrow> compare_fns \<Rightarrow> machine \<Rightarrow> val \<Rightarrow> hash_state \<Rightarrow> hash_state option" where
  "hash_again 0 cf s obj st = None"
| "hash_again (Suc n) cf s obj st =
     (let m = mem s; tag = Tag_val m obj; call = (\<lambda>v. hash_enter (hash_again n cf s v))
      in if Is_long obj then Some (Combine (Long_val obj) (counted st))
         else if managed s obj
         then if tag = String_tag then Some (hash_bytes m obj 0 (unat (string_length m obj)) (counted st))
              else if tag = Double_tag then Some (hash_bytes m obj 0 8 (counted st))
              else if tag = Double_array_tag then Some (hash_doubles m obj 0 ((unat (Bosize_val m obj) + 7) div 8) (counted st))
              else if tag = Abstract_tag then Some st
              else if tag = Infix_tag then call (obj - Infix_offset_hd (Hd_val m obj)) st
              else if tag = Forward_tag then hash_again n cf s (Forward_val m obj) st
              else if tag = Object_tag then Some (Combine (Oid_val m obj) (counted st))
              else if tag = Custom_tag
              then let f = ops_hash m (Custom_ops_val m obj)
                   in Some (if f \<noteq> 0 then Combine (hash_fun cf f m obj) (counted st) else st)
              else hash_fields call m obj (unat (Wosize_val m obj)) (Combine_small tag (counted st))
         else Some (Combine obj st))"

definition hash_aux :: "nat \<Rightarrow> compare_fns \<Rightarrow> machine \<Rightarrow> val \<Rightarrow> hash_state \<Rightarrow> hash_state option" where
  "hash_aux n cf s obj st = hash_enter (hash_again n cf s obj) st"

definition hash_univ_param :: "nat \<Rightarrow> compare_fns \<Rightarrow> val \<Rightarrow> val \<Rightarrow> val \<Rightarrow> machine \<Rightarrow> val option" where
  "hash_univ_param n cf count lmt obj s =
     (case hash_aux n cf s obj \<lparr>h_accu = 0, h_limit = Long_val lmt, h_count = Long_val count\<rparr> of
        None \<Rightarrow> None
      | Some st \<Rightarrow> Some (Val_long (h_accu st AND 0x3FFFFFFF)))"

subsection \<open>Variant tags\<close>

text \<open>The characters of the tag, without the final zero.\<close>

fun hash_variant_loop :: "uint8 list \<Rightarrow> val \<Rightarrow> val" where
  "hash_variant_loop [] acc = acc"
| "hash_variant_loop (c # cs) acc = hash_variant_loop cs (Val_int (223 * Int_val acc + ucast c))"

definition hash_variant :: "uint8 list \<Rightarrow> val" where
  "hash_variant tag = hash_variant_loop tag (Val_int 0)"

subsection \<open>The hash of a tree\<close>

text \<open>Trees without floating-point numbers, closures and abstract blocks.\<close>

fun plain :: "tree \<Rightarrow> bool" where
  "plain (Dbl d) \<longleftrightarrow> False"
| "plain (Dbls ds) \<longleftrightarrow> False"
| "plain (Opq t a) \<longleftrightarrow> False"
| "plain (Nd t ts) \<longleftrightarrow> (\<forall>u \<in> set ts. plain u)"
| "plain t \<longleftrightarrow> True"

fun customs :: "tree \<Rightarrow> addr set" where
  "customs (Cus a) = {a}"
| "customs (Nd t ts) = (\<Union>u \<in> set ts. customs u)"
| "customs t = {}"

definition custom_hash :: "compare_fns \<Rightarrow> mem \<Rightarrow> addr \<Rightarrow> uint32 option" where
  "custom_hash cf m a =
     (let f = ops_hash m (Custom_ops_val m a) in if f \<noteq> 0 then Some (hash_fun cf f m a) else None)"

definition tree_enter :: "(hash_state \<Rightarrow> hash_state) \<Rightarrow> hash_state \<Rightarrow> hash_state" where
  "tree_enter body st =
     (let st = st\<lparr>h_limit := h_limit st - 1\<rparr> in if slt (h_count st) 0 \<or> slt (h_limit st) 0 then st else body st)"

fun tree_hash :: "(addr \<Rightarrow> uint32 option) \<Rightarrow> tree \<Rightarrow> hash_state \<Rightarrow> hash_state" where
  "tree_hash ch (Lng i) st = Combine (word_of_int i) (counted st)"
| "tree_hash ch (Str bs) st = fold (\<lambda>b. Combine_small (ucast b)) bs (counted st)"
| "tree_hash ch (Obj i) st = Combine (word_of_int i) (counted st)"
| "tree_hash ch (Cus a) st = (case ch a of None \<Rightarrow> st | Some h \<Rightarrow> Combine h (counted st))"
| "tree_hash ch (Nd t ts) st = foldr (\<lambda>u. tree_enter (tree_hash ch u)) ts (Combine_small t (counted st))"
| "tree_hash ch t st = st"

lemma hash_bytes_fold: "hash_bytes m v k n st = fold (\<lambda>b. Combine_small (ucast b)) (map (\<lambda>i. Byte_u m v (word_of_nat i)) [k..<k + n]) st"
proof (induction n arbitrary: k st)
  case (Suc n)
  have "[k..<k + Suc n] = k # [Suc k..<Suc k + n]" by (simp add: upt_conv_Cons del: upt_Suc)
  then show ?case using Suc [of "Suc k"] by (simp del: upt_Suc add_Suc_right)
qed simp

lemma hash_enter_tree: "(\<And>st. body st = Some (g st)) \<Longrightarrow> hash_enter body st = Some (tree_enter g st)"
  by (simp add: hash_enter_def tree_enter_def Let_def)

lemma fields_at_append:
  "fields_at n s p (ts @ us) \<longleftrightarrow> fields_at n s p ts \<and> fields_at n s (p + 4 * word_of_nat (length ts)) us"
proof (induction ts arbitrary: p)
  case (Cons t ts)
  have "p + 4 + 4 * word_of_nat (length ts) = p + 4 * word_of_nat (length (t # ts))" by (simp add: algebra_simps)
  then show ?case using Cons [of "p + 4"] by (simp add: add.assoc)
qed simp

text \<open>The fields are hashed from the last one to the first.\<close>

lemma hash_fields_foldr:
  assumes "\<And>v t st. tree_of n s v = Some t \<Longrightarrow> plain t \<Longrightarrow> f v st = Some (g t st)"
  shows "fields_at n s v ts \<Longrightarrow> (\<forall>t \<in> set ts. plain t) \<Longrightarrow> length ts = k \<Longrightarrow> hash_fields f (mem s) v k st = Some (foldr g ts st)"
proof (induction ts arbitrary: k st rule: rev_induct)
  case (snoc t ts)
  have "fields_at n s v ts" "tree_of n s (mem s (v + 4 * word_of_nat (length ts))) = Some t"
    using snoc.prems(1) by (simp_all add: fields_at_append)
  moreover have "f (Field (mem s) v (word_of_nat (length ts))) st = Some (g t st)"
    using assms calculation(2) snoc.prems(2) by (simp add: Field_def)
  ultimately show ?case using snoc.IH [of "length ts" "g t st"] snoc.prems by auto
qed simp

lemma hash_again_tree:
  "tree_of n s v = Some t \<Longrightarrow> plain t \<Longrightarrow> hash_again n cf s v st = Some (tree_hash (custom_hash cf (mem s)) t st)"
proof (induction n arbitrary: v t st)
  case (Suc n)
  let ?m = "mem s" and ?ch = "custom_hash cf (mem s)"
  let ?tag = "Tag_val ?m v"
  have call: "hash_enter (hash_again n cf s v) st = Some (tree_enter (tree_hash ?ch t) st)"
    if "tree_of n s v = Some t" "plain t" for v t st
    by (rule hash_enter_tree) (rule Suc.IH [OF that])
  consider (long) "Is_long v" | (fwd) "\<not> Is_long v" "?tag = Forward_tag" | (leaf) "\<not> Is_long v" "leaf_tag ?tag"
    | (node) "\<not> Is_long v" "?tag \<noteq> Forward_tag" "\<not> leaf_tag ?tag" by blast
  then show ?case
  proof cases
    case long
    then show ?thesis using Suc.prems(1) by auto
  next
    case fwd
    then show ?thesis using Suc.prems Suc.IH by (auto simp: Let_def tag_defs split: if_splits)
  next
    case leaf
    then show ?thesis using Suc.prems
      by (auto simp: Let_def tag_defs leaf_tag_def hash_bytes_fold load_bytes_def custom_hash_def split: if_splits)
  next
    case node
    have mg: "managed s v" using Suc.prems(1) node by (auto simp: Let_def split: if_splits)
    obtain ts where ts: "t = Nd ?tag ts"
        "those (map (\<lambda>i. tree_of n s (mem s (v + 4 * word_of_nat i))) [0..<unat (Wosize_val ?m v)]) = Some ts"
      using Suc.prems(1) node by (auto simp: Let_def Field_def leaf_tag_def split: if_splits)
    have f: "length ts = unat (Wosize_val ?m v)" "fields_at n s v ts" using those_fields [OF ts(2)] by auto
    have "hash_fields (\<lambda>v. hash_enter (hash_again n cf s v)) ?m v (unat (Wosize_val ?m v)) st =
        Some (foldr (\<lambda>u. tree_enter (tree_hash ?ch u)) ts st)" for st
      by (rule hash_fields_foldr [OF call f(2) _ f(1)]) (use Suc.prems(2) ts(1) in simp_all)
    then show ?thesis using node mg ts(1) by (simp add: Let_def leaf_tag_def)
  qed
qed simp

subsection \<open>Equal values\<close>

definition custom_hash_ok :: "compare_fns \<Rightarrow> mem \<Rightarrow> addr set \<Rightarrow> bool" where
  "custom_hash_ok cf m C \<longleftrightarrow>
     (\<forall>a \<in> C. \<forall>b \<in> C. custom_cmp cf m a b = Diff 0 \<longrightarrow> custom_hash cf m a = custom_hash cf m b)"

lemma bytes_cmp_zero: "bytes_cmp bs cs = 0 \<longleftrightarrow> bs = cs"
  by (induction bs cs rule: bytes_cmp.induct) (auto simp: uint_same)

lemma then_cmp_Diff0: "then_cmp a b = Diff 0 \<longleftrightarrow> a = Diff 0 \<and> b = Diff 0"
  by (cases a) auto

lemma tcmps_zero:
  "length ts = length us \<Longrightarrow> tcmps cf m ts us = Diff 0 \<Longrightarrow> list_all2 (\<lambda>t u. tcmp cf m t u = Diff 0) ts us"
  by (induction ts us rule: list_induct2) (auto simp: then_cmp_Diff0)

text \<open>In a tree that was read from memory the tag tells the kind of the node.\<close>

fun tags_ok :: "tree \<Rightarrow> bool" where
  "tags_ok (Opq t a) \<longleftrightarrow> t \<in> {Abstract_tag, Closure_tag, Infix_tag}"
| "tags_ok (Nd t ts) \<longleftrightarrow> \<not> leaf_tag t \<and> (\<forall>u \<in> set ts. tags_ok u)"
| "tags_ok t \<longleftrightarrow> True"

lemma fields_all: "fields_at n s p ts \<Longrightarrow> (\<And>v t. tree_of n s v = Some t \<Longrightarrow> P t) \<Longrightarrow> u \<in> set ts \<Longrightarrow> P u"
  by (induction ts arbitrary: p) auto

lemma tree_of_tags: "tree_of n s v = Some t \<Longrightarrow> tags_ok t"
proof (induction n arbitrary: v t)
  case (Suc n)
  have "\<forall>u \<in> set ts. tags_ok u"
    if "those (map (\<lambda>i. tree_of n s (Field (mem s) v (word_of_nat i))) [0..<k]) = Some ts" for ts k
  proof -
    have "length ts = k \<and> fields_at n s v ts" using that by (intro those_fields) (simp add: Field_def)
    then show ?thesis using fields_all [of n s v ts tags_ok] Suc.IH by metis
  qed
  then show ?case using Suc.prems Suc.IH by (auto simp: Let_def leaf_tag_def split: if_splits)
qed simp

lemma equal_trees_hash:
  assumes ok: "custom_hash_ok cf m C"
  shows "tcmp cf m t u = Diff 0 \<Longrightarrow> tags_ok t \<Longrightarrow> tags_ok u \<Longrightarrow> plain t \<Longrightarrow> customs t \<subseteq> C \<Longrightarrow> customs u \<subseteq> C \<Longrightarrow>
    plain u \<and> tree_hash (custom_hash cf m) t = tree_hash (custom_hash cf m) u"
proof (induction t arbitrary: u)
  case (Lng i)
  then show ?case by (cases u) auto
next
  case (Str bs)
  then show ?case using tag_distinct by (cases u) (auto simp: bytes_cmp_zero uint_same leaf_tag_def)
next
  case (Obj i)
  then show ?case using tag_distinct by (cases u) (auto simp: uint_same leaf_tag_def)
next
  case (Cus a)
  then show ?case using tag_distinct ok by (cases u) (auto simp: uint_same leaf_tag_def custom_hash_ok_def fun_eq_iff)
next
  case (Nd b ts)
  obtain us where us: "u = Nd b us" "length ts = length us" "tcmps cf m ts us = Diff 0"
    using Nd.prems(1-3) by (cases u) (auto simp: leaf_tag_def uint_same split: if_splits)
  have eq: "list_all2 (\<lambda>t u. plain u \<and> tree_hash (custom_hash cf m) t = tree_hash (custom_hash cf m) u) ts us"
    using tcmps_zero [OF us(2,3)]
  proof (rule list.rel_mono_strong)
    fix x y assume xy: "x \<in> set ts" "y \<in> set us" "tcmp cf m x y = Diff 0"
    have "customs x \<subseteq> C" "customs y \<subseteq> C" using Nd.prems(5,6) us(1) xy(1,2) by auto
    then show "plain y \<and> tree_hash (custom_hash cf m) x = tree_hash (custom_hash cf m) y"
      using Nd.IH [OF xy(1,3)] Nd.prems(2-4) us(1) xy(1,2) by simp
  qed
  then have "foldr (\<lambda>u. tree_enter (tree_hash (custom_hash cf m) u)) ts = foldr (\<lambda>u. tree_enter (tree_hash (custom_hash cf m) u)) us"
    by (induction rule: list_all2_induct) auto
  moreover have "\<forall>u \<in> set us. plain u" using eq by (auto simp: list_all2_conv_all_nth in_set_conv_nth)
  ultimately show ?case using us(1) by (simp add: fun_eq_iff)
qed auto

lemma hash_univ_tree:
  assumes "tree_of n s v = Some t" and "plain t"
  shows "hash_univ_param n cf count lmt v s =
    Some (Val_long (h_accu (tree_enter (tree_hash (custom_hash cf (mem s)) t)
      \<lparr>h_accu = 0, h_limit = Long_val lmt, h_count = Long_val count\<rparr>) AND 0x3FFFFFFF))"
  unfolding hash_univ_param_def hash_aux_def
  by (subst hash_enter_tree [OF hash_again_tree [OF assms]]) simp

lemma raise_with_string_not_Returns: "raise_with_string fns tag msg s \<noteq> Returns r z"
  by (auto simp: raise_with_string_def andThen_def raise_with_arg_def mlraise_def Let_def split: result.splits prod.splits if_splits)

lemma equal_prim_zero:
  assumes t: "tree_of n s x = Some t" "tree_of n s y = Some u" and f: "fits cf (need t) c"
    and e: "fst (equal_prim fns cf x y c s) = Returns Val_true s'"
  shows "tcmp cf (mem s) t u = Diff 0"
proof -
  obtain c' where c': "compare_val fns cf x y c s = Some (decide fns (tcmp cf (mem s) t u) c' s)"
    using compare_val_ends [OF t f, of fns] by blast
  show ?thesis
  proof (cases "tcmp cf (mem s) t u")
    case (Diff k)
    then have v: "compare_val fns cf x y c s = Some (Returns (word_of_int k) s, c')" using c' by simp
    have r: "long_range k" using tcmp_range [OF tree_of_small [OF t(1)] tree_of_small [OF t(2)] Diff] .
    have "Val_bool (sgn k = 0) = Val_true" using ordered_asI [OF v r] e by (simp add: ordered_as_def)
    then show ?thesis using Diff by (auto simp: Val_bool_def Val_true_def Val_long_def sgn_if split: if_splits)
  qed (use c' e in \<open>auto simp: raise_with_string_not_Returns equal_prim_def compare_with_def invalid_argument_def failwith_def split: result.splits\<close>)
qed

text \<open>
  C24: When \<^verbatim>\<open>=\<close> finds two values equal, the hash function gives the same number for both, whatever its
  bounds on the traversal are, and it returns.  This is the guarantee that \<^verbatim>\<open>stdlib/hashtbl.mli\<close> gives for \<^verbatim>\<open>Hashtbl.hash\<close>;
  it holds for values without floating-point numbers, closures and abstract blocks if the functions of the custom blocks are
  compatible.
\<close>

theorem equal_values_same_hash:
  assumes t: "tree_of n s x = Some t" "tree_of n s y = Some u" and p: "plain t"
    and c: "customs t \<union> customs u \<subseteq> C" "custom_hash_ok cf (mem s) C" and f: "fits cf (need t) c"
    and e: "fst (equal_prim fns cf x y c s) = Returns Val_true s"
  shows "\<exists>h. hash_univ_param n cf count lmt x s = Some h \<and> hash_univ_param n cf count lmt y s = Some h"
proof -
  have "tcmp cf (mem s) t u = Diff 0" by (rule equal_prim_zero [OF t f e])
  then have "plain u" "tree_hash (custom_hash cf (mem s)) t = tree_hash (custom_hash cf (mem s)) u"
    using equal_trees_hash [OF c(2) _ tree_of_tags [OF t(1)] tree_of_tags [OF t(2)] p] c(1) by auto
  then show ?thesis using hash_univ_tree [OF t(1) p] hash_univ_tree [OF t(2)] by simp
qed

lemma example_custom_hash: "custom_hash_ok int32_fns example_mem {4180, 4192, 4220}"
  by (simp add: custom_hash_ok_def custom_cmp_def custom_hash_def int32_fns_def ops_compare_def ops_hash_def Custom_ops_val_def int32_compare_def
      int32_hash_def Int32_val_def Field_def example_words slt_def)

theorem equal_values_same_hash_witness:
  "\<exists>h. hash_univ_param 3 int32_fns 21 201 4132 compare_example = Some h \<and> hash_univ_param 3 int32_fns 21 201 4204 compare_example = Some h"
proof (rule equal_values_same_hash [OF example_trees(2,4), where C = "{4180, 4192, 4220}" and fns = quiet_fns])
  let ?t = "Nd 0 [Lng 1, Str [0x61, 0x62], Cus 4180]" and ?u = "Nd 0 [Lng 1, Str [0x61, 0x62], Cus 4220]"
  show f: "fits int32_fns (need ?t) compare_stack_init" by (simp add: example_fits)
  have "tcmp int32_fns (mem compare_example) ?t ?u = Diff 0"
    unfolding compare_example_def heap_machine_simps(1)
    by (simp add: custom_cmp_def int32_fns_def ops_compare_def Custom_ops_val_def int32_compare_def Int32_val_def Field_def example_words slt_def)
  then obtain c' where "compare_val quiet_fns int32_fns 4132 4204 compare_stack_init compare_example = Some (Returns 0 compare_example, c')"
    using compare_val_ends [OF example_trees(2,4) f, of quiet_fns] by auto
  then show "fst (equal_prim quiet_fns int32_fns 4132 4204 compare_stack_init compare_example) = Returns Val_true compare_example"
    by (simp add: equal_prim_def compare_with_returns Val_true_def)
  show "custom_hash_ok int32_fns (mem compare_example) {4180, 4192, 4220}"
    by (simp add: compare_example_def heap_machine_simps(1) example_custom_hash)
qed simp_all

subsection \<open>Floating-point numbers\<close>

lemma sint_minus_one: "- (2 ^ 31) < sint x \<Longrightarrow> sint (x - 1) = sint x - 1" for x :: uint32
  using sint_word_of_int_in [of "sint x - 1"] sint32_range [of x] by (simp add: of_int_diff)

text \<open>A block with the double \<open>d\<close>, the lower word first.\<close>

definition boxed_double :: "machine \<Rightarrow> val \<Rightarrow> uint32 \<times> uint32 \<Rightarrow> bool" where
  "boxed_double s x d \<longleftrightarrow> \<not> Is_long x \<and> managed s x \<and> Tag_val (mem s) x = Double_tag \<and> x AND 3 = 0 \<and> Double_val (mem s) x = d"

lemma boxed_double_tree: "boxed_double s x d \<Longrightarrow> tree_of 1 s x = Some (Dbl d)"
  by (simp add: boxed_double_def tree_node_def Let_def tag_defs)

lemma zeros_equal: "tcmp cf m (Dbl (0, 0)) (Dbl (0, 0x80000000)) = Diff 0" "tcmp cf m (Dbl (0, 0x80000000)) (Dbl (0, 0)) = Diff 0"
  by (simp_all add: d_cmp_def d_less_def d_key_def)

text \<open>The bytes of a double in memory.\<close>

lemma double_bytes:
  assumes "boxed_double s x (l, h)" and "k < 4"
  shows "Byte_u (mem s) x (word_of_nat k) = ucast (drop_bit (8 * k) l)" and "Byte_u (mem s) x (word_of_nat (4 + k)) = ucast (drop_bit (8 * k) h)"
proof -
  have m: "mem s x = l" "mem s (x + 4) = h" and al: "x AND 3 = 0" "(x + 4) AND 3 = 0"
    using assms(1) aligned_add [of x 1] by (simp_all add: boxed_double_def Double_val_def)
  have k: "(word_of_nat k :: uint32) < 4" "unat (word_of_nat k :: uint32) = k" using assms(2) by (simp_all add: word_less_nat_alt unat_of_nat)
  show "Byte_u (mem s) x (word_of_nat k) = ucast (drop_bit (8 * k) l)" using aligned_low [OF al(1) k(1)] k(2) m by (simp add: Byte_u_def Let_def)
  have "x + word_of_nat (4 + k) = (x + 4) + word_of_nat k" by simp
  then show "Byte_u (mem s) x (word_of_nat (4 + k)) = ucast (drop_bit (8 * k) h)" using aligned_low [OF al(2) k(1)] k(2) m by (simp add: Byte_u_def Let_def add.assoc)
qed

lemma zero_bytes:
  assumes "boxed_double s x (0, h)" and "h = 0 \<or> h = 0x80000000" and "h_accu st = 0"
  shows "h_accu (hash_bytes (mem s) x 0 8 st) = drop_bit 24 h"
proof -
  have lo: "Byte_u (mem s) x (word_of_nat k) = 0" if "k < 4" for k using double_bytes(1) [OF assms(1) that] by simp
  have hi: "Byte_u (mem s) x (word_of_nat (4 + k)) = ucast (drop_bit (8 * k) h)" if "k < 4" for k using double_bytes(2) [OF assms(1) that] .
  have b: "map (\<lambda>i. Byte_u (mem s) x (word_of_nat i)) [0..<8] = [0, 0, 0, 0, 0, 0, 0, ucast (drop_bit 24 h)]"
    using lo [of 0] lo [of 1] lo [of 2] lo [of 3] hi [of 0] hi [of 1] hi [of 2] hi [of 3] assms(2) by (auto simp: upt_rec)
  show ?thesis unfolding hash_bytes_fold using b assms(2,3) by (auto simp: Combine_small_def)
qed

text \<open>
  C26: wherever the two floating-point zeros are boxed, they are equal for \<^verbatim>\<open>=\<close>, but their hash values are 0 and 128 if the function may look at them at all (its count is not
  negative and its limit is positive).  This is against the guarantee of \<^verbatim>\<open>stdlib/hashtbl.mli\<close>: a table keyed by 0.0 is not found by -0.0.
\<close>

theorem hash_of_zeros:
  assumes x: "boxed_double s x (0, 0)" and y: "boxed_double s y (0, 0x80000000)" and f: "fits cf 0 c" and b: "0 \<le> i" "in_long i" "0 < j" "in_long j"
  shows "fst (equal_prim fns cf x y c s) = Returns Val_true s \<and>
    hash_univ_param (Suc n) cf (rep_int i) (rep_int j) x s = Some (rep_int 0) \<and> hash_univ_param (Suc n) cf (rep_int i) (rep_int j) y s = Some (rep_int 128)"
proof -
  obtain c' where "compare_val fns cf x y c s = Some (Returns 0 s, c')"
    using compare_val_ends [OF boxed_double_tree [OF x] boxed_double_tree [OF y], of cf c fns] f zeros_equal by (auto simp del: tcmp.simps)
  then have eq: "fst (equal_prim fns cf x y c s) = Returns Val_true s" by (simp add: equal_prim_def compare_with_returns Val_true_def)
  let ?st = "\<lparr>h_accu = 0, h_limit = Long_val (rep_int j), h_count = Long_val (rep_int i)\<rparr>"
  have c: "sint (Long_val (rep_int i)) = i" "sint (Long_val (rep_int j)) = j" using b by (simp_all add: wrap31_in)
  then have "sint (Long_val (rep_int j) - 1) = j - 1" using sint_minus_one [of "Long_val (rep_int j)"] b by simp
  then have en: "hash_enter g ?st = g (?st\<lparr>h_limit := Long_val (rep_int j) - 1\<rparr>)" for g using c b by (simp add: hash_enter_def Let_def slt_def)
  have "hash_univ_param (Suc n) cf (rep_int i) (rep_int j) z s = Some (Val_long (drop_bit 24 h AND 0x3FFFFFFF))"
    if z: "boxed_double s z (0, h)" "h = 0 \<or> h = 0x80000000" for z h
  proof -
    let ?t = "counted (?st\<lparr>h_limit := Long_val (rep_int j) - 1\<rparr>)"
    have "hash_again (Suc n) cf s z (?st\<lparr>h_limit := Long_val (rep_int j) - 1\<rparr>) = Some (hash_bytes (mem s) z 0 8 ?t)"
      using z(1) by (simp add: boxed_double_def Let_def tag_defs)
    moreover have "h_accu (hash_bytes (mem s) z 0 8 ?t) = drop_bit 24 h" by (rule zero_bytes [OF z]) (simp add: counted_def)
    ultimately show ?thesis by (simp add: hash_univ_param_def hash_aux_def en del: hash_again.simps)
  qed
  from this [OF x] this [OF y] show ?thesis using eq by (simp add: rep_int_def)
qed

text \<open>The boxed numbers 0.0 at 4100 and -0.0 at 4112.\<close>

definition zeros_mem :: mem where
  "zeros_mem = (\<lambda>_. 0)(4096 := Make_header 2 Double_tag 0, 4108 := Make_header 2 Double_tag 0, 4116 := 0x80000000)"

theorem hash_of_zeros_witness:
  "boxed_double (heap_machine zeros_mem) 4100 (0, 0) \<and> boxed_double (heap_machine zeros_mem) 4112 (0, 0x80000000) \<and>
   fst (equal_prim quiet_fns int32_fns 4100 4112 compare_stack_init (heap_machine zeros_mem)) = Returns Val_true (heap_machine zeros_mem) \<and>
   hash_univ_param 1 int32_fns (rep_int 10) (rep_int 100) 4100 (heap_machine zeros_mem) = Some (rep_int 0) \<and>
   hash_univ_param 1 int32_fns (rep_int 10) (rep_int 100) 4112 (heap_machine zeros_mem) = Some (rep_int 128)"
proof -
  have z: "boxed_double (heap_machine zeros_mem) 4100 (0, 0)" "boxed_double (heap_machine zeros_mem) 4112 (0, 0x80000000)"
    unfolding boxed_double_def heap_machine_simps by code_simp+
  show ?thesis using hash_of_zeros [OF z, of int32_fns compare_stack_init 10 100 quiet_fns 0] z example_fits by (simp add: in_long_def)
qed

subsection \<open>Cyclic values\<close>




definition calls_left :: "hash_state \<Rightarrow> int" where
  "calls_left st = sint (h_limit st)"




lemma calls_left_same [simp]: "calls_left (Combine x st) = calls_left st" "calls_left (Combine_small x st) = calls_left st" "calls_left (counted st) = calls_left st"
  by (simp_all add: calls_left_def Combine_def Combine_small_def counted_def)


lemma calls_left_hash_bytes [simp]: "calls_left (hash_bytes m v k n st) = calls_left st"
  by (induction n arbitrary: k st) simp_all

lemma calls_left_hash_doubles [simp]: "calls_left (hash_doubles m v j n st) = calls_left st"
  by (induction n arbitrary: j st) simp_all








text \<open>The hash of a variant tag is the polynomial in 223 of its characters, modulo \<open>2 ^ 31\<close>.\<close>

lemma hash_variant_loop_poly:
  "hash_variant_loop cs (rep_int a) = rep_int (fold (\<lambda>c a. 223 * a + uint c) cs a)"
proof (induction cs arbitrary: a)
  case (Cons c cs)
  have "Val_long (223 * Long_val (rep_int a) + ucast c) = rep_int (223 * wrap31 a + uint c)"
    by (simp add: rep_int_def Long_val_rep_int [unfolded rep_int_def] of_int_add)
  also have "\<dots> = rep_int (223 * a + uint c)"
  proof -
    have "2 ^ 31 dvd wrap31 a - a" using wrap31_cong_iff [of "wrap31 a" a] by simp
    then have "2 ^ 31 dvd 223 * (wrap31 a - a)" by (rule dvd_mult)
    then show ?thesis unfolding rep_int_eq_iff wrap31_cong_iff by (simp add: algebra_simps)
  qed
  finally show ?case using Cons by simp
qed simp

lemma hash_variant_poly: "hash_variant tag = rep_int (fold (\<lambda>c a. 223 * a + uint c) tag 0)"
  using hash_variant_loop_poly [of tag 0] by (simp add: hash_variant_def rep_int_def)

end
