(* ===== verification/Md5.thy ===== *)
theory Md5
  imports Prims
begin

text \<open>
  The message digest of \<^verbatim>\<open>byterun/md5.c\<close>: a context that takes a message in pieces (\<open>MD5Update\<close>), the padding and the digest
  (\<open>MD5Final\<close>), and the transformation of a block (\<open>MD5Transform\<close>), whose straight-line code is a table with one row per line.
  A buffer of bytes is a list; a cast of a byte buffer to words reads it as little-endian.

  The reference definition \<open>md5\<close> follows RFC 1321: it pads the whole message, cuts it into blocks and runs the 64
  rounds with the rotating registers and the formulas of the document.
\<close>

subsection \<open>The transformation of a block\<close>

definition F1 :: "uint32 \<Rightarrow> uint32 \<Rightarrow> uint32 \<Rightarrow> uint32" where "F1 x y z = z XOR (x AND (y XOR z))"
definition F2 :: "uint32 \<Rightarrow> uint32 \<Rightarrow> uint32 \<Rightarrow> uint32" where "F2 x y z = F1 z x y"
definition F3 :: "uint32 \<Rightarrow> uint32 \<Rightarrow> uint32 \<Rightarrow> uint32" where "F3 x y z = x XOR y XOR z"
definition F4 :: "uint32 \<Rightarrow> uint32 \<Rightarrow> uint32 \<Rightarrow> uint32" where "F4 x y z = y XOR (x OR NOT z)"

text \<open>
  \<open>MD5STEP\<close> on the registers \<open>a\<close>, \<open>b\<close>, \<open>c\<close>, \<open>d\<close>, numbered from 0: the arguments of the macro are always \<open>w\<close> and the three
  registers that follow it cyclically.
\<close>

definition MD5STEP :: "(uint32 \<Rightarrow> uint32 \<Rightarrow> uint32 \<Rightarrow> uint32) \<Rightarrow> nat \<Rightarrow> uint32 \<Rightarrow> nat \<Rightarrow> uint32 list \<Rightarrow> uint32 list" where
  "MD5STEP f w d s r =
     (let x = r ! ((w + 1) mod 4); y = r ! ((w + 2) mod 4); z = r ! ((w + 3) mod 4);
          v = r ! w + (f x y z + d);
          v = push_bit s v OR drop_bit (32 - s) v
      in r[w := v + x])"

type_synonym md5_row = "(uint32 \<Rightarrow> uint32 \<Rightarrow> uint32 \<Rightarrow> uint32) \<times> nat \<times> nat \<times> uint32 \<times> nat"

definition md5_steps :: "md5_row list" where
  "md5_steps =
  [(F1, 0, 0, 0xd76aa478, 7), (F1, 3, 1, 0xe8c7b756, 12), (F1, 2, 2, 0x242070db, 17), (F1, 1, 3, 0xc1bdceee, 22),
   (F1, 0, 4, 0xf57c0faf, 7), (F1, 3, 5, 0x4787c62a, 12), (F1, 2, 6, 0xa8304613, 17), (F1, 1, 7, 0xfd469501, 22),
   (F1, 0, 8, 0x698098d8, 7), (F1, 3, 9, 0x8b44f7af, 12), (F1, 2, 10, 0xffff5bb1, 17), (F1, 1, 11, 0x895cd7be, 22),
   (F1, 0, 12, 0x6b901122, 7), (F1, 3, 13, 0xfd987193, 12), (F1, 2, 14, 0xa679438e, 17), (F1, 1, 15, 0x49b40821, 22),
   (F2, 0, 1, 0xf61e2562, 5), (F2, 3, 6, 0xc040b340, 9), (F2, 2, 11, 0x265e5a51, 14), (F2, 1, 0, 0xe9b6c7aa, 20),
   (F2, 0, 5, 0xd62f105d, 5), (F2, 3, 10, 0x02441453, 9), (F2, 2, 15, 0xd8a1e681, 14), (F2, 1, 4, 0xe7d3fbc8, 20),
   (F2, 0, 9, 0x21e1cde6, 5), (F2, 3, 14, 0xc33707d6, 9), (F2, 2, 3, 0xf4d50d87, 14), (F2, 1, 8, 0x455a14ed, 20),
   (F2, 0, 13, 0xa9e3e905, 5), (F2, 3, 2, 0xfcefa3f8, 9), (F2, 2, 7, 0x676f02d9, 14), (F2, 1, 12, 0x8d2a4c8a, 20),
   (F3, 0, 5, 0xfffa3942, 4), (F3, 3, 8, 0x8771f681, 11), (F3, 2, 11, 0x6d9d6122, 16), (F3, 1, 14, 0xfde5380c, 23),
   (F3, 0, 1, 0xa4beea44, 4), (F3, 3, 4, 0x4bdecfa9, 11), (F3, 2, 7, 0xf6bb4b60, 16), (F3, 1, 10, 0xbebfbc70, 23),
   (F3, 0, 13, 0x289b7ec6, 4), (F3, 3, 0, 0xeaa127fa, 11), (F3, 2, 3, 0xd4ef3085, 16), (F3, 1, 6, 0x04881d05, 23),
   (F3, 0, 9, 0xd9d4d039, 4), (F3, 3, 12, 0xe6db99e5, 11), (F3, 2, 15, 0x1fa27cf8, 16), (F3, 1, 2, 0xc4ac5665, 23),
   (F4, 0, 0, 0xf4292244, 6), (F4, 3, 7, 0x432aff97, 10), (F4, 2, 14, 0xab9423a7, 15), (F4, 1, 5, 0xfc93a039, 21),
   (F4, 0, 12, 0x655b59c3, 6), (F4, 3, 3, 0x8f0ccc92, 10), (F4, 2, 10, 0xffeff47d, 15), (F4, 1, 1, 0x85845dd1, 21),
   (F4, 0, 8, 0x6fa87e4f, 6), (F4, 3, 15, 0xfe2ce6e0, 10), (F4, 2, 6, 0xa3014314, 15), (F4, 1, 13, 0x4e0811a1, 21),
   (F4, 0, 4, 0xf7537e82, 6), (F4, 3, 11, 0xbd3af235, 10), (F4, 2, 2, 0x2ad7d2bb, 15), (F4, 1, 9, 0xeb86d391, 21)]"

definition MD5Transform :: "uint32 list \<Rightarrow> uint32 list \<Rightarrow> uint32 list" where
  "MD5Transform buf inp = map2 (+) buf (fold (\<lambda>(f, w, k, t, s) r. MD5STEP f w (inp ! k + t) s r) md5_steps buf)"

subsection \<open>The context\<close>

record MD5Context =
  md5_buf :: "uint32 list"
  md5_bits :: "uint32 \<times> uint32"
  md5_in :: "uint8 list"

definition MD5Init :: "MD5Context \<Rightarrow> MD5Context" where
  "MD5Init ctx = ctx\<lparr>md5_buf := [0x67452301, 0xefcdab89, 0x98badcfe, 0x10325476], md5_bits := (0, 0)\<rparr>"

definition word_le :: "uint8 list \<Rightarrow> uint32" where
  "word_le bs = ucast (bs ! 0) OR push_bit 8 (ucast (bs ! 1)) OR push_bit 16 (ucast (bs ! 2)) OR push_bit 24 (ucast (bs ! 3))"

definition bytes_le :: "uint32 \<Rightarrow> uint8 list" where
  "bytes_le w = [ucast w, ucast (drop_bit 8 w), ucast (drop_bit 16 w), ucast (drop_bit 24 w)]"

definition words_le :: "uint8 list \<Rightarrow> uint32 list" where
  "words_le bs = map (\<lambda>k. word_le (take 4 (drop (4 * k) bs))) [0..<length bs div 4]"

definition transform_in :: "MD5Context \<Rightarrow> MD5Context" where
  "transform_in ctx = ctx\<lparr>md5_buf := MD5Transform (md5_buf ctx) (words_le (md5_in ctx))\<rparr>"

function md5_chunks :: "uint8 list \<Rightarrow> MD5Context \<Rightarrow> MD5Context" where
  "md5_chunks buf ctx =
     (if 64 \<le> length buf then md5_chunks (drop 64 buf) (transform_in (ctx\<lparr>md5_in := blit (md5_in ctx) 0 (take 64 buf)\<rparr>))
      else ctx\<lparr>md5_in := blit (md5_in ctx) 0 buf\<rparr>)"
  by auto
termination
  by (relation "measure (\<lambda>(buf, ctx). length buf)") auto

definition MD5Update :: "MD5Context \<Rightarrow> uint8 list \<Rightarrow> MD5Context" where
  "MD5Update ctx buf =
     (let len = word_of_nat (length buf) :: uint32;
          t = fst (md5_bits ctx); b0 = t + push_bit 3 len;
          b1 = snd (md5_bits ctx) + (if b0 < t then 1 else 0) + drop_bit 29 len;
          ctx = ctx\<lparr>md5_bits := (b0, b1)\<rparr>;
          t = unat (drop_bit 3 t AND 0x3f)
      in if t \<noteq> 0
         then if length buf < 64 - t then ctx\<lparr>md5_in := blit (md5_in ctx) t buf\<rparr>
              else md5_chunks (drop (64 - t) buf) (transform_in (ctx\<lparr>md5_in := blit (md5_in ctx) t (take (64 - t) buf)\<rparr>))
         else md5_chunks buf ctx)"

definition MD5Final :: "MD5Context \<Rightarrow> uint8 list" where
  "MD5Final ctx =
     (let count = unat (drop_bit 3 (fst (md5_bits ctx)) AND 0x3F);
          ctx = ctx\<lparr>md5_in := (md5_in ctx)[count := 0x80]\<rparr>; p = count + 1;
          count = 64 - 1 - count;
          ctx = (if count < 8
                 then let ctx = transform_in (ctx\<lparr>md5_in := blit (md5_in ctx) p (replicate count 0)\<rparr>)
                      in ctx\<lparr>md5_in := blit (md5_in ctx) 0 (replicate 56 0)\<rparr>
                 else ctx\<lparr>md5_in := blit (md5_in ctx) p (replicate (count - 8) 0)\<rparr>);
          ctx = ctx\<lparr>md5_in := blit (md5_in ctx) 56 (bytes_le (fst (md5_bits ctx)) @ bytes_le (snd (md5_bits ctx)))\<rparr>;
          ctx = transform_in ctx
      in concat (map bytes_le (md5_buf ctx)))"

text \<open>The digest of a part of a string value; the context is an uninitialised local variable.\<close>

definition md5_string :: "fns \<Rightarrow> MD5Context \<Rightarrow> val \<Rightarrow> val \<Rightarrow> val \<Rightarrow> machine \<Rightarrow> val result" where
  "md5_string fns ctx str ofs len s =
     (let ctx = MD5Update (MD5Init ctx) (load_bytes (mem s) str (Long_val ofs) (unat (Long_val len)))
      in andThen (alloc_string fns 16 s) (\<lambda>res s. Returns res (s\<lparr>mem := store_bytes res 0 (MD5Final ctx) (mem s)\<rparr>)))"

subsection \<open>The reference definition\<close>

definition rfc_F :: "nat \<Rightarrow> uint32 \<Rightarrow> uint32 \<Rightarrow> uint32 \<Rightarrow> uint32" where
  "rfc_F i x y z =
     (if i < 16 then (x AND y) OR (NOT x AND z)
      else if i < 32 then (x AND z) OR (y AND NOT z)
      else if i < 48 then x XOR y XOR z
      else y XOR (x OR NOT z))"

definition rfc_index :: "nat \<Rightarrow> nat" where
  "rfc_index i = (if i < 16 then i else if i < 32 then (5 * i + 1) mod 16 else if i < 48 then (3 * i + 5) mod 16 else (7 * i) mod 16)"

definition rfc_shift :: "nat \<Rightarrow> nat" where
  "rfc_shift i = [[7, 12, 17, 22], [5, 9, 14, 20], [4, 11, 16, 23], [6, 10, 15, 21]] ! (i div 16) ! (i mod 4)"

text \<open>The table of \<open>\<lfloor>2 ^ 32 * \<bar>sin (i + 1)\<bar>\<rfloor>\<close>.\<close>

definition rfc_table :: "uint32 list" where
  "rfc_table =
  [0xd76aa478, 0xe8c7b756, 0x242070db, 0xc1bdceee, 0xf57c0faf, 0x4787c62a, 0xa8304613, 0xfd469501,
   0x698098d8, 0x8b44f7af, 0xffff5bb1, 0x895cd7be, 0x6b901122, 0xfd987193, 0xa679438e, 0x49b40821,
   0xf61e2562, 0xc040b340, 0x265e5a51, 0xe9b6c7aa, 0xd62f105d, 0x02441453, 0xd8a1e681, 0xe7d3fbc8,
   0x21e1cde6, 0xc33707d6, 0xf4d50d87, 0x455a14ed, 0xa9e3e905, 0xfcefa3f8, 0x676f02d9, 0x8d2a4c8a,
   0xfffa3942, 0x8771f681, 0x6d9d6122, 0xfde5380c, 0xa4beea44, 0x4bdecfa9, 0xf6bb4b60, 0xbebfbc70,
   0x289b7ec6, 0xeaa127fa, 0xd4ef3085, 0x04881d05, 0xd9d4d039, 0xe6db99e5, 0x1fa27cf8, 0xc4ac5665,
   0xf4292244, 0x432aff97, 0xab9423a7, 0xfc93a039, 0x655b59c3, 0x8f0ccc92, 0xffeff47d, 0x85845dd1,
   0x6fa87e4f, 0xfe2ce6e0, 0xa3014314, 0x4e0811a1, 0xf7537e82, 0xbd3af235, 0x2ad7d2bb, 0xeb86d391]"

definition rotl :: "nat \<Rightarrow> uint32 \<Rightarrow> uint32" where
  "rotl s w = push_bit s w OR drop_bit (32 - s) w"

fun rfc_round :: "uint32 list \<Rightarrow> nat \<Rightarrow> uint32 \<times> uint32 \<times> uint32 \<times> uint32 \<Rightarrow> uint32 \<times> uint32 \<times> uint32 \<times> uint32" where
  "rfc_round X i (a, b, c, d) = (d, b + rotl (rfc_shift i) (a + rfc_F i b c d + X ! rfc_index i + rfc_table ! i), b, c)"

definition rfc_block :: "uint32 list \<Rightarrow> uint8 list \<Rightarrow> uint32 list" where
  "rfc_block st block =
     (case fold (rfc_round (words_le block)) [0..<64] (st ! 0, st ! 1, st ! 2, st ! 3) of
        (a, b, c, d) \<Rightarrow> [st ! 0 + a, st ! 1 + b, st ! 2 + c, st ! 3 + d])"

fun rfc_blocks :: "nat \<Rightarrow> uint8 list \<Rightarrow> uint32 list \<Rightarrow> uint32 list" where
  "rfc_blocks 0 msg st = st"
| "rfc_blocks (Suc n) msg st = rfc_blocks n (drop 64 msg) (rfc_block st (take 64 msg))"

definition rfc_pad :: "uint8 list \<Rightarrow> uint8 list" where
  "rfc_pad msg = msg @ [0x80] @ replicate ((119 - length msg mod 64) mod 64) 0 @
     bytes_le (word_of_nat (8 * length msg)) @ bytes_le (word_of_nat (8 * length msg div 2 ^ 32))"

definition md5_start :: "uint32 list" where "md5_start = [0x67452301, 0xefcdab89, 0x98badcfe, 0x10325476]"

definition md5 :: "uint8 list \<Rightarrow> uint8 list" where
  "md5 msg = concat (map bytes_le (rfc_blocks (length (rfc_pad msg) div 64) (rfc_pad msg) md5_start))"

subsection \<open>The transformation is that of the document\<close>

lemma F1_rfc: "F1 x y z = (x AND y) OR (NOT x AND z)"
  by (rule bit_word_eqI) (auto simp: F1_def bit_simps)

lemma F2_rfc: "F2 x y z = (x AND z) OR (y AND NOT z)"
  by (rule bit_word_eqI) (auto simp: F2_def F1_def bit_simps)

definition F_of :: "nat \<Rightarrow> uint32 \<Rightarrow> uint32 \<Rightarrow> uint32 \<Rightarrow> uint32" where
  "F_of i = (if i < 16 then F1 else if i < 32 then F2 else if i < 48 then F3 else F4)"

lemma F_of_rfc: "F_of i = rfc_F i"
  by (intro ext) (simp add: F_of_def rfc_F_def F1_rfc F2_rfc F3_def F4_def)

definition reg :: "nat \<Rightarrow> nat" where "reg i = (4 - i mod 4) mod 4"

lemma md5_rows: "md5_steps = map (\<lambda>i. (F_of i, reg i, rfc_index i, rfc_table ! i, rfc_shift i)) [0..<64]"
  by (simp add: md5_steps_def F_of_def reg_def rfc_index_def rfc_table_def rfc_shift_def upt_rec)

text \<open>The registers after \<open>i\<close> steps, in the order of the document.\<close>

definition view :: "nat \<Rightarrow> uint32 list \<Rightarrow> uint32 \<times> uint32 \<times> uint32 \<times> uint32" where
  "view i r = (r ! reg i, r ! ((reg i + 1) mod 4), r ! ((reg i + 2) mod 4), r ! ((reg i + 3) mod 4))"

lemma length_4: "length r = 4 \<Longrightarrow> \<exists>a b c d. r = [a, b, c, d]"
  by (auto simp: length_Suc_conv eval_nat_numeral)

lemma step_view:
  assumes "length r = 4"
  shows "view (Suc i) (MD5STEP (F_of i) (reg i) (X ! rfc_index i + rfc_table ! i) (rfc_shift i) r) = rfc_round X i (view i r)"
proof -
  obtain a b c d where r: "r = [a, b, c, d]" using length_4 [OF assms] by blast
  have m: "Suc i mod 4 = (if i mod 4 = 3 then 0 else Suc (i mod 4))" by (simp add: mod_Suc)
  consider "i mod 4 = 0" | "i mod 4 = 1" | "i mod 4 = 2" | "i mod 4 = 3" by linarith
  then show ?thesis
    by cases (simp_all add: view_def reg_def m MD5STEP_def Let_def r F_of_rfc rotl_def nth_Cons' algebra_simps)
qed

lemma length_MD5STEP [simp]: "length (MD5STEP f w d s r) = length r"
  by (simp add: MD5STEP_def Let_def)

lemma fold_view:
  assumes "length r = 4"
  shows "view n (fold (\<lambda>(f, w, k, t, s) r. MD5STEP f w (X ! k + t) s r)
      (map (\<lambda>i. (F_of i, reg i, rfc_index i, rfc_table ! i, rfc_shift i)) [0..<n]) r) = fold (rfc_round X) [0..<n] (view 0 r) \<and>
    length (fold (\<lambda>(f, w, k, t, s) r. MD5STEP f w (X ! k + t) s r)
      (map (\<lambda>i. (F_of i, reg i, rfc_index i, rfc_table ! i, rfc_shift i)) [0..<n]) r) = 4"
proof (induction n)
  case (Suc n)
  then show ?case using step_view [of "fold (\<lambda>(f, w, k, t, s) r. MD5STEP f w (X ! k + t) s r)
      (map (\<lambda>i. (F_of i, reg i, rfc_index i, rfc_table ! i, rfc_shift i)) [0..<n]) r" n X] by simp
qed (use assms in simp)

lemma MD5Transform_rfc:
  assumes "length st = 4"
  shows "MD5Transform st (words_le block) = rfc_block st block"
proof -
  let ?r = "fold (\<lambda>(f, w, k, t, s) r. MD5STEP f w (words_le block ! k + t) s r) md5_steps st"
  have v: "view 64 ?r = fold (rfc_round (words_le block)) [0..<64] (view 0 st)" and l: "length ?r = 4"
    using fold_view [OF assms, of 64 "words_le block"] unfolding md5_rows by auto
  obtain a b c d where r: "?r = [a, b, c, d]" using length_4 [OF l] by blast
  obtain p q u w where s: "st = [p, q, u, w]" using length_4 [OF assms] by blast
  have e: "view 64 [a, b, c, d] = (a, b, c, d)" "view 0 [p, q, u, w] = (p, q, u, w)" by (simp_all add: view_def reg_def)
  have "fold (rfc_round (words_le block)) [0..<64] (p, q, u, w) = (a, b, c, d)"
    using v unfolding r e(1) unfolding s e(2) by (rule sym)
  then show ?thesis unfolding MD5Transform_def rfc_block_def r by (simp only: s) simp
qed

lemma length_rfc_block [simp]: "length (rfc_block st b) = 4"
  by (simp add: rfc_block_def split: prod.split)

subsection \<open>Blocks\<close>

lemma rfc_blocks_add: "rfc_blocks (a + b) m st = rfc_blocks b (drop (64 * a) m) (rfc_blocks a m st)"
  by (induction a m st rule: rfc_blocks.induct) (simp_all add: add.commute)

lemma rfc_blocks_prefix: "64 * n \<le> length m \<Longrightarrow> rfc_blocks n (m @ x) st = rfc_blocks n m st"
  by (induction n m st rule: rfc_blocks.induct) auto

lemma length_rfc_blocks: "length st = 4 \<Longrightarrow> length (rfc_blocks n m st) = 4"
  by (induction n m st rule: rfc_blocks.induct) simp_all

text \<open>The context holds the message \<open>m\<close>: the whole blocks are digested, the rest is in the buffer.\<close>

definition holds :: "uint8 list \<Rightarrow> MD5Context \<Rightarrow> bool" where
  "holds m ctx \<longleftrightarrow> length (md5_in ctx) = 64 \<and> md5_buf ctx = rfc_blocks (length m div 64) m md5_start \<and>
     take (length m mod 64) (md5_in ctx) = drop (64 * (length m div 64)) m"

lemma md5_start_4: "length md5_start = 4" by (simp add: md5_start_def)

lemma ctx_simps:
  "md5_in (c\<lparr>md5_in := x\<rparr>) = x" "md5_buf (c\<lparr>md5_in := x\<rparr>) = md5_buf c" "md5_bits (c\<lparr>md5_in := x\<rparr>) = md5_bits c"
  "c\<lparr>md5_in := x, md5_in := y\<rparr> = c\<lparr>md5_in := y\<rparr>"
  by simp_all

lemma transform_in_sel:
  "md5_in (transform_in c) = md5_in c" "md5_bits (transform_in c) = md5_bits c"
  "md5_buf (transform_in c) = MD5Transform (md5_buf c) (words_le (md5_in c))"
  by (simp_all add: transform_in_def)

lemma block_split:
  fixes a :: nat
  obtains q r where "a = 64 * q + r" "r < 64" "a div 64 = q" "a mod 64 = r"
  by (rule that [of "a div 64" "a mod 64"]) simp_all

lemma block_fill:
  fixes a b :: nat
  assumes "a mod 64 + b < 64"
  shows "(a + b) div 64 = a div 64 \<and> (a + b) mod 64 = a mod 64 + b"
proof (rule block_split [of a])
  fix q r
  assume s: "a = 64 * q + r" "r < 64" "a div 64 = q" "a mod 64 = r"
  then have "(64 * q + (r + b)) div 64 = q" "(64 * q + (r + b)) mod 64 = r + b" using assms by simp_all
  then show ?thesis using s by (simp add: add.assoc)
qed

lemma block_full:
  fixes a b :: nat
  assumes "a mod 64 + b = 64"
  shows "a + b = 64 * Suc (a div 64)"
  by (rule block_split [of a]) (use assms in simp)

lemma holds_fill:
  assumes "holds m ctx" and "length m mod 64 + length x < 64"
  shows "holds (m @ x) (ctx\<lparr>md5_in := blit (md5_in ctx) (length m mod 64) x\<rparr>)"
proof -
  have d: "length (m @ x) div 64 = length m div 64" "length (m @ x) mod 64 = length m mod 64 + length x"
    using block_fill [OF assms(2)] by simp_all
  have "take (length m mod 64 + length x) (blit (md5_in ctx) (length m mod 64) x) = take (length m mod 64) (md5_in ctx) @ x"
    using assms by (intro take_blit_after) (simp add: holds_def)
  then show ?thesis using assms unfolding holds_def d by (simp add: rfc_blocks_prefix)
qed

lemma holds_block:
  assumes "holds m ctx" and "length m mod 64 + length x = 64"
  shows "holds (m @ x) (transform_in (ctx\<lparr>md5_in := blit (md5_in ctx) (length m mod 64) x\<rparr>))"
proof -
  let ?n = "length m div 64"
  have l: "length (m @ x) = 64 * Suc ?n" using block_full [OF assms(2)] by simp
  then have d: "length (m @ x) div 64 = Suc ?n" "length (m @ x) mod 64 = 0" by simp_all
  have i: "length (md5_in ctx) = 64" "take (length m mod 64) (md5_in ctx) = drop (64 * ?n) m"
    using assms(1) unfolding holds_def by blast+
  have b: "blit (md5_in ctx) (length m mod 64) x = drop (64 * ?n) m @ x"
    using take_blit_after [of "length m mod 64" x "md5_in ctx"] i assms(2) by simp
  have t: "length (drop (64 * ?n) m @ x) = 64" using assms(2) by (simp add: minus_mult_div_eq_mod)
  have len: "length (blit (md5_in ctx) (length m mod 64) x) = 64" unfolding b by (rule t)
  have st: "length (md5_buf ctx) = 4" "md5_buf ctx = rfc_blocks ?n m md5_start"
    using assms(1) by (simp_all add: holds_def length_rfc_blocks md5_start_4)
  have "rfc_blocks (Suc ?n) (m @ x) md5_start = rfc_block (rfc_blocks ?n m md5_start) (drop (64 * ?n) m @ x)"
    using rfc_blocks_add [of ?n 1 "m @ x" md5_start] t by (simp add: rfc_blocks_prefix)
  moreover have "drop (64 * Suc ?n) (m @ x) = []" unfolding l [symmetric] by (rule drop_all) simp
  ultimately show ?thesis unfolding holds_def d
    using len st by (simp only: ctx_simps transform_in_sel MD5Transform_rfc take_0 b simp_thms)
qed

lemma holds_chunks:
  "holds m ctx \<Longrightarrow> 64 dvd length m \<Longrightarrow> holds (m @ buf) (md5_chunks buf ctx) \<and> md5_bits (md5_chunks buf ctx) = md5_bits ctx"
proof (induction buf ctx arbitrary: m rule: md5_chunks.induct)
  case (1 buf ctx)
  have z: "length m mod 64 = 0" using 1(3) by simp
  show ?case
  proof (cases "64 \<le> length buf")
    case True
    let ?ctx = "transform_in (ctx\<lparr>md5_in := blit (md5_in ctx) 0 (take 64 buf)\<rparr>)"
    have h: "holds (m @ take 64 buf) ?ctx" using holds_block [OF 1(2), of "take 64 buf"] True z by simp
    have "64 dvd length (m @ take 64 buf)" using 1(3) True by simp
    from 1(1) [OF True h this] True show ?thesis by (subst (1 2) md5_chunks.simps) (simp add: transform_in_def)
  next
    case False
    then show ?thesis using holds_fill [OF 1(2), of buf] z by (subst (1 2) md5_chunks.simps) simp
  qed
qed

subsection \<open>The length in bits\<close>

lemma drop_bit3_mod: "unat (drop_bit 3 (word_of_nat (8 * n) :: uint32) AND 0x3f) = n mod 64"
proof -
  have "unat (drop_bit 3 (word_of_nat (8 * n) :: uint32)) = (8 * n mod 2 ^ 32) div 8"
    by (simp only: unat_drop_bit_eq unat_of_nat) (simp add: drop_bit_eq_div)
  also have "\<dots> = n mod 2 ^ 29" using mult_mod_right [of 8 n "2 ^ 29"] by simp
  finally have u: "unat (drop_bit 3 (word_of_nat (8 * n) :: uint32)) = n mod 2 ^ 29" .
  show ?thesis by (simp only: unat_and_63 u) (simp add: mod_mod_cancel)
qed

lemma div_add_carry: "(a + b) div w = a div w + b div w + (if (a + b) mod w < a mod w then 1 else 0)" for a b w :: nat
proof (cases "w = 0")
  case False
  let ?s = "a mod w + b mod w"
  have c: "?s < 2 * w" using False mod_less_divisor [of w a] mod_less_divisor [of w b] by linarith
  have "(a + b) div w = a div w + b div w + ?s div w" by (rule div_add1_eq)
  moreover have "(a + b) mod w = ?s mod w" by (simp add: mod_add_eq)
  moreover have "?s div w = (if ?s mod w < a mod w then 1 else 0)"
  proof (cases "?s < w")
    case False
    then have "?s div w = 1" "?s mod w = ?s - w" using c by (simp_all add: le_mod_geq div_nat_eqI)
    then show ?thesis using False mod_less_divisor [of w b] \<open>w \<noteq> 0\<close> by (simp del: mod_less_divisor)
  qed simp
  ultimately show ?thesis by simp
qed simp

definition represents :: "uint8 list \<Rightarrow> MD5Context \<Rightarrow> bool" where
  "represents m ctx \<longleftrightarrow> holds m ctx \<and> md5_bits ctx = (word_of_nat (8 * length m), word_of_nat (8 * length m div 2 ^ 32))"

lemma bits_add:
  assumes "n < 2 ^ 32"
  shows "(word_of_nat (8 * l) :: uint32) + push_bit 3 (word_of_nat n) = word_of_nat (8 * (l + n))" (is ?lo)
    and "word_of_nat (8 * l div 2 ^ 32) + (if word_of_nat (8 * (l + n)) < (word_of_nat (8 * l) :: uint32) then 1 else 0)
      + drop_bit 29 (word_of_nat n :: uint32) = (word_of_nat (8 * (l + n) div 2 ^ 32) :: uint32)" (is ?hi)
proof -
  show ?lo by (simp add: push_bit_eq_mult algebra_simps)
  have d: "drop_bit 29 (word_of_nat n :: uint32) = word_of_nat (8 * n div 2 ^ 32)"
    using assms by (intro word_unat_eq_iff [THEN iffD2]) (simp only: unat_drop_bit_eq unat_of_nat, simp add: drop_bit_eq_div unat_of_nat)
  have c: "word_of_nat (8 * (l + n)) < (word_of_nat (8 * l) :: uint32) \<longleftrightarrow> (8 * l + 8 * n) mod 2 ^ 32 < 8 * l mod 2 ^ 32"
    unfolding word_less_nat_alt unat_of_nat distrib_left by simp
  have "8 * (l + n) div 2 ^ 32 = 8 * l div 2 ^ 32 + 8 * n div 2 ^ 32 + (if (8 * l + 8 * n) mod 2 ^ 32 < 8 * l mod 2 ^ 32 then 1 else 0)"
    unfolding distrib_left by (rule div_add_carry)
  then show ?hi unfolding c d by (simp only: of_nat_add) simp
qed

lemma represents_init:
  assumes "length (md5_in ctx) = 64"
  shows "represents [] (MD5Init ctx)"
  using assms by (simp add: represents_def holds_def MD5Init_def md5_start_def)

lemma holds_bits [simp]: "holds m (md5_bits_update f ctx) = holds m ctx"
  by (simp add: holds_def)

lemma represents_update:
  assumes "represents m ctx" and "length buf < 2 ^ 32"
  shows "represents (m @ buf) (MD5Update ctx buf)"
proof -
  let ?t = "length m mod 64" and ?b = "(word_of_nat (8 * length (m @ buf)), word_of_nat (8 * length (m @ buf) div 2 ^ 32)) :: uint32 \<times> uint32"
  let ?ctx = "ctx\<lparr>md5_bits := ?b\<rparr>"
  have h: "holds m ?ctx" and b: "md5_bits ctx = (word_of_nat (8 * length m), word_of_nat (8 * length m div 2 ^ 32))"
    using assms(1) by (simp_all add: represents_def)
  have u: "MD5Update ctx buf = (if ?t \<noteq> 0
      then if length buf < 64 - ?t then ?ctx\<lparr>md5_in := blit (md5_in ?ctx) ?t buf\<rparr>
           else md5_chunks (drop (64 - ?t) buf) (transform_in (?ctx\<lparr>md5_in := blit (md5_in ?ctx) ?t (take (64 - ?t) buf)\<rparr>))
      else md5_chunks buf ?ctx)"
    by (simp only: MD5Update_def Let_def b fst_conv snd_conv bits_add [OF assms(2)] drop_bit3_mod length_append)
  consider (whole) "?t = 0" | (small) "?t \<noteq> 0" "length buf < 64 - ?t" | (fill) "?t \<noteq> 0" "64 - ?t \<le> length buf" by linarith
  then show ?thesis
  proof cases
    case whole
    then show ?thesis using holds_chunks [OF h, of buf] by (simp add: u represents_def mod_eq_0_iff_dvd)
  next
    case small
    then show ?thesis using holds_fill [OF h, of buf] by (simp add: u represents_def)
  next
    case fill
    let ?x = "take (64 - ?t) buf"
    have t: "?t + length ?x = 64" using fill(2) by simp
    have hx: "holds (m @ ?x) (transform_in (?ctx\<lparr>md5_in := blit (md5_in ?ctx) ?t ?x\<rparr>))" by (rule holds_block [OF h t])
    have "64 dvd length (m @ ?x)" using block_full [OF t] by simp
    from holds_chunks [OF hx this, of "drop (64 - ?t) buf"] show ?thesis
      using fill by (simp add: u represents_def transform_in_def)
  qed
qed

subsection \<open>The padding\<close>

lemma blit_blit: "i + length x + length y \<le> length d \<Longrightarrow> blit (blit d i x) (i + length x) y = blit d i (x @ y)"
  by (simp add: blit_def add.commute add.left_commute)

lemma blit_whole: "i + length x = length d \<Longrightarrow> blit d i x = take i d @ x"
  by (simp add: blit_def)

lemma blit_pad:
  assumes "t + 1 + z + length w = length d"
  shows "blit (blit (blit d t [c]) (t + 1) (replicate z e)) (t + 1 + z) w = take t d @ [c] @ replicate z e @ w"
  using blit_blit [of t "[c]" "replicate z e" d] blit_blit [of t "c # replicate z e" w d] assms by (simp add: blit_whole)

lemma blocks_pad:
  assumes "length m mod 64 + length x = 64 * k"
  shows "length (m @ x) div 64 = length m div 64 + k"
proof (rule block_split [of "length m"])
  fix q r
  assume s: "length m = 64 * q + r" "r < 64" "length m div 64 = q" "length m mod 64 = r"
  then have "length (m @ x) = 64 * (q + k)" using assms by simp
  then show ?thesis using s(3) by (simp del: length_append)
qed

lemma rfc_blocks_two:
  assumes "length x = 64" and "length y = 64"
  shows "rfc_blocks 2 (x @ y) st = rfc_block (rfc_block st x) y"
  using assms by (simp add: numeral_2_eq_2)

lemma digest_pad:
  assumes "length m mod 64 + length x = 64 * k"
  shows "rfc_blocks (length (m @ x) div 64) (m @ x) md5_start =
    rfc_blocks k (drop (64 * (length m div 64)) m @ x) (rfc_blocks (length m div 64) m md5_start)"
  unfolding blocks_pad [OF assms] rfc_blocks_add by (simp add: rfc_blocks_prefix)

lemma MD5Final_rfc:
  assumes "represents m ctx"
  shows "MD5Final ctx = md5 m"
proof -
  let ?t = "length m mod 64" and ?r = "drop (64 * (length m div 64)) m" and ?st = "rfc_blocks (length m div 64) m md5_start"
  let ?b0 = "word_of_nat (8 * length m) :: uint32" and ?b1 = "word_of_nat (8 * length m div 2 ^ 32) :: uint32"
  have h: "length (md5_in ctx) = 64" "md5_buf ctx = ?st" "take ?t (md5_in ctx) = ?r" "md5_bits ctx = (?b0, ?b1)"
    using assms unfolding represents_def holds_def by blast+
  have t: "?t < 64" and r: "length ?r = ?t" by (simp_all add: minus_mult_div_eq_mod)
  have st: "length ?st = 4" by (simp add: length_rfc_blocks md5_start_4)
  have u: "(md5_in ctx)[?t := 0x80] = blit (md5_in ctx) ?t [0x80]"
    using t h(1) by (simp add: blit_def upd_conv_take_nth_drop)
  note unfold = MD5Final_def Let_def h(2,4) fst_conv snd_conv drop_bit3_mod ctx_simps transform_in_sel u
  show ?thesis
  proof (cases "?t < 56")
    case True
    let ?x = "[0x80] @ replicate (55 - ?t) 0 @ bytes_le ?b0 @ bytes_le ?b1"
    have "119 - ?t = (55 - ?t) + 64" using True by simp
    then have z: "(119 - ?t) mod 64 = 55 - ?t" by (simp only: mod_add_self2) simp
    have k: "?t + length ?x = 64 * 1" using True by (simp add: bytes_le_def)
    have b: "blit (blit (blit (md5_in ctx) ?t [0x80]) (?t + 1) (replicate (55 - ?t) 0)) 56 (bytes_le ?b0 @ bytes_le ?b1) = ?r @ ?x"
      using blit_pad [of ?t "55 - ?t" "bytes_le ?b0 @ bytes_le ?b1" "md5_in ctx" "0x80" 0] True h(1,3) by (simp add: bytes_le_def)
    have c: "\<not> 64 - 1 - ?t < 8" "64 - 1 - ?t - 8 = 55 - ?t" using True by simp_all
    have "rfc_blocks 1 (?r @ ?x) ?st = rfc_block ?st (?r @ ?x)"
      using k r by (simp only: One_nat_def rfc_blocks.simps length_append take_all order_refl mult_1_right)
    then show ?thesis unfolding md5_def rfc_pad_def z digest_pad [OF k]
      by (simp only: unfold c if_False b MD5Transform_rfc [OF st])
  next
    case False
    let ?y = "[0x80] @ replicate (63 - ?t) 0" and ?l = "replicate 56 0 @ bytes_le ?b0 @ bytes_le ?b1"
    have z: "(119 - ?t) mod 64 = (63 - ?t) + 56" using False t by simp
    have k: "?t + length (?y @ ?l) = 64 * 2" using t by (simp add: bytes_le_def)
    have b1: "blit (blit (md5_in ctx) ?t [0x80]) (?t + 1) (replicate (63 - ?t) 0) = ?r @ ?y" (is "?d = _")
      using blit_blit [of ?t "[0x80]" "replicate (63 - ?t) 0" "md5_in ctx"] t h(1,3) blit_whole [of ?t ?y "md5_in ctx"] by simp
    have l: "length (?r @ ?y) = 64" "length ?l = 64" using t r by (simp_all add: bytes_le_def)
    have b2: "blit (blit (?r @ ?y) 0 (replicate 56 0)) 56 (bytes_le ?b0 @ bytes_le ?b1) = ?l"
      using blit_blit [of 0 "replicate 56 0" "bytes_le ?b0 @ bytes_le ?b1" "?r @ ?y"] l blit_whole [of 0 ?l "?r @ ?y"]
      by (simp only: length_replicate length_append add_0 take_0 append_Nil order_refl)
    have "rfc_blocks 2 (?r @ ?y @ ?l) ?st = rfc_block (rfc_block ?st (?r @ ?y)) ?l"
      using rfc_blocks_two [OF l] by (simp only: append_assoc)
    moreover have c: "64 - 1 - ?t < 8" "64 - 1 - ?t = 63 - ?t" using False by simp_all
    moreover have "[0x80] @ replicate (63 - ?t + 56) 0 @ bytes_le ?b0 @ bytes_le ?b1 = ?y @ ?l" by (simp only: replicate_add append_assoc)
    ultimately show ?thesis unfolding md5_def rfc_pad_def z using digest_pad [OF k]
      by (simp only: unfold b1 b2 if_True c MD5Transform_rfc [OF st] MD5Transform_rfc [OF length_rfc_block])
  qed
qed

lemma represents_pieces:
  "represents m ctx \<Longrightarrow> \<forall>x \<in> set pieces. length x < 2 ^ 32 \<Longrightarrow> represents (m @ concat pieces) (foldl MD5Update ctx pieces)"
proof (induction pieces arbitrary: m ctx)
  case (Cons x pieces)
  then show ?case using Cons.IH [OF represents_update [OF Cons.prems(1), of x]] by simp
qed simp

text \<open>
  C31. A message given to the digest in any number of pieces of any lengths, through \<open>MD5Init\<close>, a sequence of \<open>MD5Update\<close> and
  \<open>MD5Final\<close>, has the digest that RFC 1321 defines on the whole message, whatever the context's memory held before: partial blocks, the
  carry of the two-word bit count and both shapes of the padding included.
\<close>

theorem md5_digest:
  assumes "length (md5_in ctx) = 64" and "\<forall>x \<in> set pieces. length x < 2 ^ 32"
  shows "MD5Final (foldl MD5Update (MD5Init ctx) pieces) = md5 (concat pieces)"
  using MD5Final_rfc [OF represents_pieces [OF represents_init [OF assms(1)] assms(2)]] by simp

theorem md5_digest_witness:
  "MD5Final (foldl MD5Update (MD5Init \<lparr>md5_buf = [], md5_bits = (7, 7), md5_in = replicate 64 0xff\<rparr>)
     [replicate 63 0x61, [], [0x62, 0x63], replicate 200 0]) = md5 (replicate 63 0x61 @ [0x62, 0x63] @ replicate 200 0)"
  using md5_digest [of "\<lparr>md5_buf = [], md5_bits = (7, 7), md5_in = replicate 64 0xff\<rparr>"
      "[replicate 63 0x61, [], [0x62, 0x63], replicate 200 0]"]
  by (simp only: MD5Context.simps list.set ball_simps length_replicate concat.simps append_Nil append_Nil2) simp

end
