(* ===== verification/Io.thy ===== *)
theory Io
  imports Prelude
begin

text \<open>
  Buffered input and output, \<^verbatim>\<open>byterun/io.c\<close> and \<^verbatim>\<open>byterun/io.h\<close>.  A \<open>channel\<close> is the structure of that name; its pointers into the
  buffer are indices, and \<open>max\<close> is \<open>None\<close> on an output channel, where the code has a null pointer.  The operating system is the
  parameter \<open>os\<close> on a state of its own: its calls return \<open>Inl errno\<close> where the C functions return \<open>-1\<close>.  A function returns \<open>None\<close> when it
  does not return, \<open>Inl\<close> an exception, or \<open>Inr\<close> a value, and in both cases the channel and the state of the system.
  \<open>Overrun\<close> stands for a write behind the end of the buffer, which C leaves undefined.  A signal handler that runs when a blocking section is
  entered may raise an exception; it is assumed not to use the channel.
\<close>

subsection \<open>Channels and the operating system\<close>

datatype errno = EINTR | EAGAIN | EWOULDBLOCK | EBADF | EOVERFLOW | Errno int

datatype io_exn = Sys_blocked_io | Sys_error errno | End_of_file | Failure string | Raised uint32 | Overrun

record channel =
  fd :: int
  offset :: int
  chan_end :: nat
  curr :: nat
  chan_max :: "nat option"
  mutex :: uint32
  revealed :: int
  old_revealed :: int
  refcount :: int
  buff :: "uint8 list"

record 'w os =
  os_write :: "int \<Rightarrow> uint8 list \<Rightarrow> 'w \<Rightarrow> (errno + nat) \<times> 'w"
  os_read :: "int \<Rightarrow> nat \<Rightarrow> 'w \<Rightarrow> (errno + uint8 list) \<times> 'w"
  os_lseek :: "int \<Rightarrow> int \<Rightarrow> nat \<Rightarrow> 'w \<Rightarrow> (errno + int) \<times> 'w"
  os_close :: "int \<Rightarrow> 'w \<Rightarrow> 'w"
  os_enter :: "'w \<Rightarrow> uint32 option \<times> 'w"
  os_leave :: "'w \<Rightarrow> 'w"

type_synonym ('w, 'a) io = "channel \<times> 'w \<Rightarrow> ((io_exn + 'a) \<times> channel \<times> 'w) option"

definition io_return :: "'a \<Rightarrow> ('w, 'a) io" where "io_return a s = Some (Inr a, s)"

definition io_raise :: "io_exn \<Rightarrow> ('w, 'a) io" where "io_raise e s = Some (Inl e, s)"

definition io_bind :: "('w, 'a) io \<Rightarrow> ('a \<Rightarrow> ('w, 'b) io) \<Rightarrow> ('w, 'b) io" where
  "io_bind m f s = Option.bind (m s) (\<lambda>(r, s'). case r of Inl e \<Rightarrow> Some (Inl e, s') | Inr a \<Rightarrow> f a s')"

definition upd :: "(channel \<Rightarrow> channel) \<Rightarrow> ('w, unit) io" where "upd f = (\<lambda>(c, w). Some (Inr (), f c, w))"

definition IO_BUFFER_SIZE :: nat where "IO_BUFFER_SIZE = 4096"

definition INT_MAX :: nat where "INT_MAX = 2147483647"

text \<open>The conversion of a \<^verbatim>\<open>file_offset\<close> to a \<^verbatim>\<open>long\<close> of 32 bits keeps the low bits.\<close>

definition to_long :: "int \<Rightarrow> int" where "to_long x = signed_take_bit 31 x"

lemma to_long_small: "- (2 ^ 31) \<le> x \<Longrightarrow> x < 2 ^ 31 \<Longrightarrow> to_long x = x"
  by (simp add: to_long_def signed_take_bit_int_eq_self)

definition SEEK_SET :: nat where "SEEK_SET = 0"
definition SEEK_END :: nat where "SEEK_END = 2"

text \<open>\<open>sys_error (NO_ARG)\<close> of \<^verbatim>\<open>byterun/sys.c\<close>, the message being determined by the error number;
  \<open>Errno 0\<close> stands for whatever an earlier call left there when \<open>lseek\<close> returns a position that was not asked for.\<close>

definition sys_error :: "errno \<Rightarrow> io_exn" where
  "sys_error e = (if e = EAGAIN \<or> e = EWOULDBLOCK then Sys_blocked_io else Sys_error e)"

text \<open>The structure that \<open>open_descriptor_in\<close> fills; \<open>junk\<close> is what the fresh memory holds.\<close>

definition open_descriptor_in :: "uint8 list \<Rightarrow> int \<Rightarrow> channel" where
  "open_descriptor_in junk n =
     \<lparr>fd = n, offset = 0, chan_end = IO_BUFFER_SIZE, curr = 0, chan_max = Some 0, mutex = 0, revealed = 0, old_revealed = 0, refcount = 0,
      buff = junk\<rparr>"

definition open_descriptor_out :: "uint8 list \<Rightarrow> int \<Rightarrow> channel" where
  "open_descriptor_out junk n = (open_descriptor_in junk n)\<lparr>chan_max := None\<rparr>"

definition channel_size :: "'w os \<Rightarrow> ('w, int) io" where
  "channel_size os = (\<lambda>(c, w).
     case os_lseek os (fd c) 0 SEEK_END w of
       (Inl e, w) \<Rightarrow> Some (Inl (sys_error e), c, w)
     | (Inr e, w) \<Rightarrow> (case os_lseek os (fd c) (offset c) SEEK_SET w of
           (Inl x, w) \<Rightarrow> Some (Inl (sys_error x), c, w)
         | (Inr p, w) \<Rightarrow> if p \<noteq> offset c then Some (Inl (sys_error (Errno 0)), c, w) else Some (Inr e, c, w)))"

definition channel_binary_mode :: "channel \<Rightarrow> bool" where "channel_binary_mode c = True"

text \<open>\<open>caml_close_channel\<close> after the lookup of the structure.\<close>

definition caml_close_channel :: "'w os \<Rightarrow> ('w, unit) io" where
  "caml_close_channel os = (\<lambda>(c, w).
     Some (Inr (), c\<lparr>fd := -1, curr := chan_end c, chan_max := Some (chan_end c)\<rparr>, os_close os (fd c) w))"

subsection \<open>Output\<close>

partial_function (option) do_write :: "'w os \<Rightarrow> int \<Rightarrow> uint8 list \<Rightarrow> 'w \<Rightarrow> ((io_exn + nat) \<times> 'w) option" where
  "do_write os n p w =
     (case os_enter os w of
        (Some e, w) \<Rightarrow> Some (Inl (Raised e), w)
      | (None, w) \<Rightarrow>
          let (r, w) = os_write os n p w; w = os_leave os w
          in case r of
               Inr k \<Rightarrow> Some (Inr k, w)
             | Inl e \<Rightarrow> if e = EINTR then do_write os n p w
                        else if (e = EAGAIN \<or> e = EWOULDBLOCK) \<and> 1 < length p then do_write os n (take 1 p) w
                        else Some (Inl (sys_error e), w))"

text \<open>What remains in the buffer moves to its beginning.\<close>

definition shift_out :: "nat \<Rightarrow> nat \<Rightarrow> uint8 list \<Rightarrow> uint8 list" where
  "shift_out towrite written b = (if written < towrite then blit b 0 (take (towrite - written) (drop written b)) else b)"

definition flush_partial :: "'w os \<Rightarrow> ('w, bool) io" where
  "flush_partial os = (\<lambda>(c, w).
     if fd c = -1 then Some (Inr True, c, w)
     else if 0 < curr c
     then Option.bind (do_write os (fd c) (take (curr c) (buff c)) w) (\<lambda>(r, w).
            case r of Inl e \<Rightarrow> Some (Inl e, c, w)
            | Inr written \<Rightarrow>
                let towrite = curr c;
                    c = c\<lparr>offset := offset c + int written,
                          buff := shift_out towrite written (buff c),
                          curr := towrite - written\<rparr>
                in Some (Inr (curr c = 0), c, w))
     else Some (Inr (curr c = 0), c, w))"

partial_function (option) flush :: "'w os \<Rightarrow> channel \<times> 'w \<Rightarrow> ((io_exn + unit) \<times> channel \<times> 'w) option" where
  "flush os s = Option.bind (flush_partial os s) (\<lambda>(r, s).
     case r of Inl e \<Rightarrow> Some (Inl e, s) | Inr b \<Rightarrow> if b then Some (Inr (), s) else flush os s)"

definition putch :: "'w os \<Rightarrow> uint8 \<Rightarrow> ('w, unit) io" where
  "putch os ch =
     io_bind (\<lambda>(c, w). if chan_end c \<le> curr c then flush_partial os (c, w) else Some (Inr True, c, w))
       (\<lambda>_ (c, w). if curr c < length (buff c) then Some (Inr (), c\<lparr>buff := (buff c)[curr c := ch], curr := curr c + 1\<rparr>, w)
                   else Some (Inl Overrun, c, w))"

definition putword :: "'w os \<Rightarrow> uint32 \<Rightarrow> ('w, unit) io" where
  "putword os v = (\<lambda>(c, w).
     if \<not> channel_binary_mode c then Some (Inl (Failure ''output_binary_int: not a binary channel''), c, w)
     else io_bind (putch os (ucast (drop_bit 24 v))) (\<lambda>_.
          io_bind (putch os (ucast (drop_bit 16 v))) (\<lambda>_.
          io_bind (putch os (ucast (drop_bit 8 v))) (\<lambda>_.
          putch os (ucast v)))) (c, w))"

definition putblock :: "'w os \<Rightarrow> uint8 list \<Rightarrow> ('w, nat) io" where
  "putblock os p = (\<lambda>(c, w).
     let n = (if INT_MAX \<le> length p then INT_MAX else length p); free = chan_end c - curr c
     in if n < free then Some (Inr n, c\<lparr>buff := blit (buff c) (curr c) (take n p), curr := curr c + n\<rparr>, w)
        else let c = c\<lparr>buff := blit (buff c) (curr c) (take free p)\<rparr>; towrite = chan_end c
             in Option.bind (do_write os (fd c) (take towrite (buff c)) w) (\<lambda>(r, w).
                  case r of Inl e \<Rightarrow> Some (Inl e, c, w)
                  | Inr written \<Rightarrow>
                      let c = c\<lparr>buff := shift_out towrite written (buff c),
                                offset := offset c + int written, curr := chan_end c - written\<rparr>
                      in Some (Inr free, c, w)))"

partial_function (option) really_putblock :: "'w os \<Rightarrow> uint8 list \<Rightarrow> channel \<times> 'w \<Rightarrow> ((io_exn + unit) \<times> channel \<times> 'w) option" where
  "really_putblock os p s =
     (if p = [] then Some (Inr (), s)
      else Option.bind (putblock os p s) (\<lambda>(r, s).
        case r of Inl e \<Rightarrow> Some (Inl e, s) | Inr written \<Rightarrow> really_putblock os (drop written p) s))"

definition seek_out :: "'w os \<Rightarrow> int \<Rightarrow> ('w, unit) io" where
  "seek_out os dest = io_bind (flush os) (\<lambda>_ (c, w).
     case os_lseek os (fd c) dest 0 w of
       (Inl e, w) \<Rightarrow> Some (Inl (sys_error e), c, w)
     | (Inr p, w) \<Rightarrow> if p \<noteq> dest then Some (Inl (sys_error (Errno 0)), c, w) else Some (Inr (), c\<lparr>offset := dest\<rparr>, w))"

text \<open>The position is a \<^verbatim>\<open>file_offset\<close> of 64 bits, but it is returned as a \<^verbatim>\<open>long\<close>.\<close>

definition pos_out :: "channel \<Rightarrow> int" where "pos_out c = to_long (offset c + int (curr c))"

text \<open>The primitives \<^verbatim>\<open>pos_out\<close> and \<^verbatim>\<open>LargeFile.pos_out\<close>, with the numbers of the language as integers.\<close>

definition caml_pos_out :: "channel \<Rightarrow> io_exn + int" where
  "caml_pos_out c = (let pos = pos_out c in if 2 ^ 30 - 1 < pos then Inl (sys_error EOVERFLOW) else Inr pos)"

definition caml_pos_out_64 :: "channel \<Rightarrow> int" where "caml_pos_out_64 c = pos_out c"

subsection \<open>Input\<close>

partial_function (option) read_again :: "'w os \<Rightarrow> int \<Rightarrow> nat \<Rightarrow> 'w \<Rightarrow> ((errno + uint8 list) \<times> 'w) option" where
  "read_again os f n w =
     (let (r, w) = os_read os f n w in if r = Inl EINTR then read_again os f n w else Some (r, w))"

definition do_read :: "'w os \<Rightarrow> int \<Rightarrow> nat \<Rightarrow> 'w \<Rightarrow> ((io_exn + uint8 list) \<times> 'w) option" where
  "do_read os f n w =
     (case os_enter os w of
        (Some e, w) \<Rightarrow> Some (Inl (Raised e), w)
      | (None, w) \<Rightarrow> Option.bind (read_again os f n w) (\<lambda>(r, w).
          case r of Inl e \<Rightarrow> Some (Inl (sys_error e), os_leave os w) | Inr bs \<Rightarrow> Some (Inr bs, os_leave os w)))"

text \<open>The limit of the data in the buffer; a null \<open>max\<close> lies below every position.\<close>

definition chan_lim :: "channel \<Rightarrow> nat" where "chan_lim c = (case chan_max c of None \<Rightarrow> 0 | Some m \<Rightarrow> m)"

definition refill :: "'w os \<Rightarrow> ('w, uint8) io" where
  "refill os = (\<lambda>(c, w). Option.bind (do_read os (fd c) (chan_end c) w) (\<lambda>(r, w).
     case r of Inl e \<Rightarrow> Some (Inl e, c, w)
     | Inr bs \<Rightarrow>
         let c = c\<lparr>buff := blit (buff c) 0 bs\<rparr>; n = length bs
         in if n = 0 then Some (Inl End_of_file, c, w)
            else let c = c\<lparr>offset := offset c + int n, chan_max := Some n, curr := 1\<rparr> in Some (Inr (buff c ! 0), c, w)))"

definition getch :: "'w os \<Rightarrow> ('w, uint8) io" where
  "getch os = (\<lambda>(c, w). if chan_lim c \<le> curr c then refill os (c, w) else Some (Inr (buff c ! curr c), c\<lparr>curr := curr c + 1\<rparr>, w))"

definition getword :: "'w os \<Rightarrow> ('w, uint32) io" where
  "getword os = (\<lambda>(c, w).
     if \<not> channel_binary_mode c then Some (Inl (Failure ''input_binary_int: not a binary channel''), c, w)
     else foldr (\<lambda>_ k res. io_bind (getch os) (\<lambda>b. k (push_bit 8 res + ucast b))) [0..<4] io_return 0 (c, w))"

definition getblock :: "'w os \<Rightarrow> nat \<Rightarrow> ('w, uint8 list) io" where
  "getblock os len = (\<lambda>(c, w).
     let n = (if INT_MAX \<le> len then INT_MAX else len); avail = chan_lim c - curr c
     in if n \<le> avail then Some (Inr (take n (drop (curr c) (buff c))), c\<lparr>curr := curr c + n\<rparr>, w)
        else if 0 < avail then Some (Inr (take avail (drop (curr c) (buff c))), c\<lparr>curr := curr c + avail\<rparr>, w)
        else Option.bind (do_read os (fd c) (chan_end c) w) (\<lambda>(r, w).
          case r of Inl e \<Rightarrow> Some (Inl e, c, w)
          | Inr bs \<Rightarrow>
              let nread = length bs; n = (if nread < n then nread else n);
                  c = c\<lparr>buff := blit (buff c) 0 bs, offset := offset c + int nread, chan_max := Some nread, curr := n\<rparr>
              in Some (Inr (take n (buff c)), c, w)))"

partial_function (option) really_getblock ::
  "'w os \<Rightarrow> uint8 list \<Rightarrow> nat \<Rightarrow> channel \<times> 'w \<Rightarrow> ((io_exn + uint8 list \<times> bool) \<times> channel \<times> 'w) option" where
  "really_getblock os p n s =
     (if 0 < n then Option.bind (getblock os n s) (\<lambda>(r, s).
          case r of Inl e \<Rightarrow> Some (Inl e, s)
          | Inr bs \<Rightarrow> if length bs = 0 then Some (Inr (p, n = 0), s) else really_getblock os (p @ bs) (n - length bs) s)
      else Some (Inr (p, n = 0), s))"

definition seek_in :: "'w os \<Rightarrow> int \<Rightarrow> ('w, unit) io" where
  "seek_in os dest = (\<lambda>(c, w).
     if offset c - int (chan_lim c) \<le> dest \<and> dest \<le> offset c
     then Some (Inr (), c\<lparr>curr := nat (int (chan_lim c) - (offset c - dest))\<rparr>, w)
     else case os_lseek os (fd c) dest SEEK_SET w of
            (Inl e, w) \<Rightarrow> Some (Inl (sys_error e), c, w)
          | (Inr p, w) \<Rightarrow> if p \<noteq> dest then Some (Inl (sys_error (Errno 0)), c, w)
                          else Some (Inr (), c\<lparr>offset := dest, curr := 0, chan_max := Some 0\<rparr>, w))"

definition pos_in :: "channel \<Rightarrow> int" where "pos_in c = to_long (offset c - (int (chan_lim c) - int (curr c)))"

definition caml_pos_in :: "channel \<Rightarrow> io_exn + int" where
  "caml_pos_in c = (let pos = pos_in c in if 2 ^ 30 - 1 < pos then Inl (sys_error EOVERFLOW) else Inr pos)"

definition caml_pos_in_64 :: "channel \<Rightarrow> int" where "caml_pos_in_64 c = pos_in c"

text \<open>
  The body of the loop of \<open>input_scan_line\<close> up to the test of the character: it makes room and reads when the position \<open>p\<close> is at the limit,
  and gives the result of the function (\<open>Inl\<close>) or the position of the next character (\<open>Inr\<close>).
\<close>

definition make_room :: "channel \<Rightarrow> channel" where
  "make_room c = c\<lparr>buff := blit (buff c) 0 (take (chan_lim c - curr c) (drop (curr c) (buff c))), curr := 0,
     chan_max := Some (chan_lim c - curr c)\<rparr>"

definition scan_fill :: "'w os \<Rightarrow> nat \<Rightarrow> ('w, int + nat) io" where
  "scan_fill os p = (\<lambda>(c, w).
     if p < chan_lim c then Some (Inr (Inr p), c, w)
     else let n = curr c; c = (if 0 < n then make_room c else c); p = p - n
          in if chan_end c \<le> chan_lim c then Some (Inr (Inl (- (int (chan_lim c) - int (curr c)))), c, w)
             else Option.bind (do_read os (fd c) (chan_end c - chan_lim c) w) (\<lambda>(r, w).
               case r of Inl e \<Rightarrow> Some (Inl e, c, w)
               | Inr bs \<Rightarrow>
                   let c' = c\<lparr>buff := blit (buff c) (chan_lim c) bs\<rparr>
                   in if length bs = 0 then Some (Inr (Inl (- (int (chan_lim c) - int (curr c)))), c', w)
                      else Some (Inr (Inr p), c'\<lparr>offset := offset c + int (length bs), chan_max := Some (chan_lim c + length bs)\<rparr>, w)))"

partial_function (option) scan_loop :: "'w os \<Rightarrow> nat \<Rightarrow> channel \<times> 'w \<Rightarrow> ((io_exn + int) \<times> channel \<times> 'w) option" where
  "scan_loop os p s = Option.bind (scan_fill os p s) (\<lambda>(r, s).
     case r of Inl e \<Rightarrow> Some (Inl e, s)
     | Inr q \<Rightarrow> (case q of Inl res \<Rightarrow> Some (Inr res, s)
         | Inr p \<Rightarrow> if buff (fst s) ! p = 10 then Some (Inr (int (p + 1) - int (curr (fst s))), s) else scan_loop os (p + 1) s))"

definition input_scan_line :: "'w os \<Rightarrow> ('w, int) io" where "input_scan_line os s = scan_loop os (curr (fst s)) s"

declare do_write.simps [code] flush.simps [code] really_putblock.simps [code] read_again.simps [code] really_getblock.simps [code]
  scan_loop.simps [code]

end
