(* ===== verification/Io_Output.thy ===== *)
theory Io_Output
  imports Io
begin

text \<open>
  Output through a channel refines an append-only stream of bytes: the bytes that have arrived followed by those in the buffer.  Every
  operation of \<^verbatim>\<open>byterun/io.c\<close> appends to the stream, whatever the system does with the single writes, and it ends on a system that does not
  fail for good.
\<close>

subsection \<open>What an output channel promises\<close>

text \<open>
  The documented behaviour of \<open>write\<close> on a descriptor, \<open>out\<close> being the bytes that have arrived there: a successful call takes a nonempty
  prefix, a failing one takes nothing, and no handler writes to the descriptor.
\<close>

definition write_law :: "'w os \<Rightarrow> int \<Rightarrow> ('w \<Rightarrow> uint8 list) \<Rightarrow> bool" where
  "write_law os n out \<longleftrightarrow>
     (\<forall>w. out (snd (os_enter os w)) = out w) \<and> (\<forall>w. out (os_leave os w) = out w) \<and>
     (\<forall>p w. case os_write os n p w of (r, w') \<Rightarrow>
        (case r of Inl e \<Rightarrow> out w' = out w | Inr k \<Rightarrow> k \<le> length p \<and> (p \<noteq> [] \<longrightarrow> 0 < k) \<and> out w' = out w @ take k p))"

definition out_ok :: "channel \<Rightarrow> bool" where
  "out_ok c \<longleftrightarrow> fd c \<noteq> -1 \<and> 0 < chan_end c \<and> length (buff c) = chan_end c \<and> curr c \<le> chan_end c"

text \<open>The bytes that the program has written to a channel: those that have arrived, then those in the buffer.\<close>

definition stream :: "('w \<Rightarrow> uint8 list) \<Rightarrow> channel \<times> 'w \<Rightarrow> uint8 list" where
  "stream out s = out (snd s) @ take (curr (fst s)) (buff (fst s))"

definition position :: "channel \<Rightarrow> int" where "position c = offset c + int (curr c)"

definition wrote :: "('w \<Rightarrow> uint8 list) \<Rightarrow> channel \<times> 'w \<Rightarrow> channel \<times> 'w \<Rightarrow> uint8 list \<Rightarrow> bool" where
  "wrote out s s' bs \<longleftrightarrow> out_ok (fst s') \<and> fd (fst s') = fd (fst s) \<and> stream out s' = stream out s @ bs \<and>
     position (fst s') = position (fst s) + int (length bs)"

lemma wrote_refl [simp]: "wrote out s s [] \<longleftrightarrow> out_ok (fst s)"
  by (simp add: wrote_def)

lemma wrote_trans: "wrote out s s' xs \<Longrightarrow> wrote out s' s'' ys \<Longrightarrow> wrote out s s'' (xs @ ys)"
  by (simp add: wrote_def)

lemma wrote_ok: "wrote out s s' bs \<Longrightarrow> out_ok (fst s') \<and> fd (fst s') = fd (fst s)"
  by (simp add: wrote_def)

lemma do_write_arrives:
  assumes "write_law os n out" and "do_write os n p w = Some (r, w')"
  shows "case r of Inl e \<Rightarrow> out w' = out w \<and> e \<noteq> Overrun | Inr k \<Rightarrow> k \<le> length p \<and> (p \<noteq> [] \<longrightarrow> 0 < k) \<and> out w' = out w @ take k p"
  using assms(1)
proof (induction os n p w "(r, w')" arbitrary: r w' rule: do_write.raw_induct)
  case (1 dw os n p w)
  obtain x w1 where e: "os_enter os w = (x, w1)" by (cases "os_enter os w")
  obtain y w2 where v: "os_write os n p w1 = (y, w2)" by (cases "os_write os n p w1")
  have o1: "out w1 = out w" and o2: "out (os_leave os w2) = out w2"
    using 1(3) e unfolding write_law_def by (metis snd_conv)+
  have o3: "case y of Inl e \<Rightarrow> out w2 = out w1 | Inr k \<Rightarrow> k \<le> length p \<and> (p \<noteq> [] \<longrightarrow> 0 < k) \<and> out w2 = out w1 @ take k p"
    using 1(3) v unfolding write_law_def by (metis (mono_tags, lifting) case_prod_conv)
  have sys: "sys_error e \<noteq> Overrun" for e by (simp add: sys_error_def)
  show ?case
  proof (cases x)
    case None
    show ?thesis
    proof (cases y)
      case (Inr k)
      then show ?thesis using 1(2) e v o1 o2 o3 None by (auto simp: Let_def)
    next
      case (Inl er)
      consider (again) "er = EINTR" "dw os n p (os_leave os w2) = Some (r, w')"
        | (one) "1 < length p" "dw os n (take 1 p) (os_leave os w2) = Some (r, w')"
        | (fail) "r = Inl (sys_error er)" "w' = os_leave os w2"
        using 1(2) None Inl e v by (auto simp: Let_def split: if_splits)
      then show ?thesis
      proof cases
        case again
        from 1(1) [OF again(2) 1(3)] show ?thesis using o1 o2 o3 Inl by (cases r) simp_all
      next
        case one
        from 1(1) [OF one(2) 1(3)] show ?thesis using o1 o2 o3 Inl one(1) by (auto split: sum.splits simp: min_def)
      next
        case fail
        then show ?thesis using o1 o2 o3 Inl sys by simp
      qed
    qed
  qed (use 1(2) e o1 in auto)
qed (rule assms(2))

lemma shift_out [simp]:
  assumes "k \<le> t" "t \<le> length b"
  shows "take (t - k) (shift_out t k b) = drop k (take t b)" and "length (shift_out t k b) = length b"
  using assms by (auto simp: shift_out_def blit_def drop_take)

lemma flush_partial_wrote:
  assumes law: "write_law os (fd c) out" and ok: "out_ok c" and f: "flush_partial os (c, w) = Some (r, s')"
  shows "wrote out (c, w) s' []"
    and "r \<noteq> Inl Overrun"
    and "r = Inr b \<Longrightarrow> (b \<longleftrightarrow> curr (fst s') = 0) \<and> curr (fst s') < chan_end (fst s') \<and> (0 < curr c \<longrightarrow> curr (fst s') < curr c)"
proof -
  have "wrote out (c, w) s' [] \<and> r \<noteq> Inl Overrun \<and>
    (\<forall>b. r = Inr b \<longrightarrow> (b \<longleftrightarrow> curr (fst s') = 0) \<and> curr (fst s') < chan_end (fst s') \<and> (0 < curr c \<longrightarrow> curr (fst s') < curr c))"
  proof (cases "0 < curr c")
    case False
    then show ?thesis using ok f by (auto simp: flush_partial_def out_ok_def)
  next
    case True
    let ?p = "take (curr c) (buff c)"
    obtain d w1 where d: "do_write os (fd c) ?p w = Some (d, w1)" using f ok True
      by (cases "do_write os (fd c) ?p w") (auto simp: flush_partial_def out_ok_def)
    have l: "length ?p = curr c" using ok by (simp add: out_ok_def)
    show ?thesis
    proof (cases d)
      case (Inl e)
      then show ?thesis using do_write_arrives [OF law d] f ok True d
        by (auto simp: flush_partial_def out_ok_def wrote_def stream_def)
    next
      case (Inr k)
      have k: "k \<le> curr c" "0 < k" "out w1 = out w @ take k ?p" using do_write_arrives [OF law d] Inr l True by auto
      let ?b = "shift_out (curr c) k (buff c)"
      have "take (curr c - k) ?b = drop k ?p" using k ok by (simp add: out_ok_def)
      then have "out w @ take k ?p @ take (curr c - k) ?b = out w @ ?p" by (metis append_take_drop_id)
      moreover have "length ?b = chan_end c" using k ok by (simp add: out_ok_def)
      moreover have "r = Inr (curr c - k = 0)" "s' = (c\<lparr>offset := offset c + int k, buff := ?b, curr := curr c - k\<rparr>, w1)"
        using f ok True d Inr by (auto simp: flush_partial_def out_ok_def Let_def)
      ultimately show ?thesis using k ok by (auto simp: wrote_def stream_def out_ok_def position_def)
    qed
  qed
  then show "wrote out (c, w) s' []" and "r \<noteq> Inl Overrun"
    and "r = Inr b \<Longrightarrow> (b \<longleftrightarrow> curr (fst s') = 0) \<and> curr (fst s') < chan_end (fst s') \<and> (0 < curr c \<longrightarrow> curr (fst s') < curr c)" by blast+
qed

lemma flush_wrote:
  assumes "write_law os (fd (fst s)) out" and "out_ok (fst s)" and "flush os s = Some (r, s')"
  shows "wrote out s s' [] \<and> r \<noteq> Inl Overrun \<and> (r = Inr () \<longrightarrow> curr (fst s') = 0)"
  using assms(1,2)
proof (induction os s "(r, s')" arbitrary: r s' rule: flush.raw_induct)
  case (1 fl os s)
  obtain x s1 where x: "flush_partial os s = Some (x, s1)" using 1(2) by (cases "flush_partial os s") auto
  obtain c w where s: "s = (c, w)" by (cases s)
  have law: "write_law os (fd c) out" and ok: "out_ok c" using 1(3,4) s by simp_all
  note w = flush_partial_wrote [OF law ok x [unfolded s]]
  have s1: "write_law os (fd (fst s1)) out" "out_ok (fst s1)" using wrote_ok [OF w(1)] law by simp_all
  show ?case
  proof (cases x)
    case (Inr b)
    show ?thesis
    proof (cases b)
      case False
      then have "fl os s1 = Some (r, s')" using 1(2) x Inr by simp
      from 1(1) [OF this s1] show ?thesis using wrote_trans [OF w(1), of s' "[]"] s by simp
    next
      case True
      then show ?thesis using 1(2) x Inr w s by auto
    qed
  qed (use 1(2) x w s in auto)
qed (rule assms(3))

lemma io_bind_cases:
  assumes "io_bind m f s = Some (r, s')"
  obtains (raised) e where "m s = Some (Inl e, s')" "r = Inl e" | (next_step) a s1 where "m s = Some (Inr a, s1)" "f a s1 = Some (r, s')"
proof (cases "m s")
  case None
  with assms show thesis by (simp add: io_bind_def)
next
  case (Some p)
  obtain x s1 where "p = (x, s1)" by (cases p)
  with Some assms that show thesis by (cases x) (auto simp: io_bind_def)
qed

text \<open>An operation that writes \<open>bs\<close>: it may stop in the middle, but what it wrote is then a prefix.\<close>

definition writes :: "'w os \<Rightarrow> ('w \<Rightarrow> uint8 list) \<Rightarrow> ('w, unit) io \<Rightarrow> uint8 list \<Rightarrow> bool" where
  "writes os out m bs \<longleftrightarrow> (\<forall>s r s'. write_law os (fd (fst s)) out \<longrightarrow> out_ok (fst s) \<longrightarrow> m s = Some (r, s') \<longrightarrow>
     r \<noteq> Inl Overrun \<and> (\<exists>k. wrote out s s' (take k bs)) \<and> (r = Inr () \<longrightarrow> wrote out s s' bs))"

lemma writesD:
  assumes "writes os out m bs" "write_law os (fd (fst s)) out" "out_ok (fst s)" "m s = Some (r, s')"
  shows "r \<noteq> Inl Overrun" "\<exists>k. wrote out s s' (take k bs)" "r = Inr () \<Longrightarrow> wrote out s s' bs"
  using assms unfolding writes_def by blast+

lemma writes_bind:
  assumes m: "writes os out m xs" and f: "writes os out f ys"
  shows "writes os out (io_bind m (\<lambda>_. f)) (xs @ ys)"
  unfolding writes_def
proof (intro allI impI)
  fix s r s'
  assume law: "write_law os (fd (fst s)) out" and ok: "out_ok (fst s)" and b: "io_bind m (\<lambda>_. f) s = Some (r, s')"
  from b show "r \<noteq> Inl Overrun \<and> (\<exists>k. wrote out s s' (take k (xs @ ys))) \<and> (r = Inr () \<longrightarrow> wrote out s s' (xs @ ys))"
  proof (cases rule: io_bind_cases)
    case (raised e)
    obtain k where "wrote out s s' (take k xs)" using writesD(2) [OF m law ok raised(1)] by blast
    then have "wrote out s s' (take (min k (length xs)) (xs @ ys))" by (cases "k \<le> length xs") (simp_all add: min_def)
    then show ?thesis using writesD(1) [OF m law ok raised(1)] raised(2) by blast
  next
    case (next_step a s1)
    have w: "wrote out s s1 xs" using writesD(3) [OF m law ok next_step(1)] by simp
    have s1: "write_law os (fd (fst s1)) out" "out_ok (fst s1)" using wrote_ok [OF w] law by simp_all
    obtain k where "wrote out s1 s' (take k ys)" using writesD(2) [OF f s1 next_step(2)] by blast
    from wrote_trans [OF w this] have "wrote out s s' (take (length xs + k) (xs @ ys))" by simp
    then show ?thesis using writesD(1,3) [OF f s1 next_step(2)] wrote_trans [OF w, of s' ys] by blast
  qed
qed

lemma writes_flush: "writes os out (flush os) []"
  unfolding writes_def using flush_wrote by fastforce

lemma writes_putch: "writes os out (putch os ch) [ch]"
  unfolding writes_def
proof (intro allI impI)
  fix s :: "channel \<times> 'a" and r s'
  assume law: "write_law os (fd (fst s)) out" and ok: "out_ok (fst s)" and p: "putch os ch s = Some (r, s')"
  obtain c w where s: "s = (c, w)" by (cases s)
  have push: "wrote out (c1, w1) (c1\<lparr>buff := (buff c1)[curr c1 := ch], curr := curr c1 + 1\<rparr>, w1) [ch]"
    if "out_ok c1" "curr c1 < chan_end c1" for c1 w1
    using that by (auto simp: wrote_def stream_def out_ok_def position_def take_Suc_conv_app_nth)
  show "r \<noteq> Inl Overrun \<and> (\<exists>k. wrote out s s' (take k [ch])) \<and> (r = Inr () \<longrightarrow> wrote out s s' [ch])"
  proof (cases "chan_end c \<le> curr c")
    case False
    then have "r = Inr ()" "s' = (c\<lparr>buff := (buff c)[curr c := ch], curr := curr c + 1\<rparr>, w)"
      using p ok s by (auto simp: putch_def io_bind_def out_ok_def)
    then show ?thesis using push [of c w] False ok s by (auto intro: exI [of _ 1])
  next
    case True
    obtain x c1 w1 where x: "flush_partial os (c, w) = Some (x, c1, w1)" using p s True
      by (cases "flush_partial os (c, w)") (auto simp: putch_def io_bind_def)
    have lo: "write_law os (fd c) out" "out_ok c" using law ok s by simp_all
    note fp = flush_partial_wrote [OF lo x]
    show ?thesis
    proof (cases x)
      case (Inl e)
      then have "r = Inl e" "s' = (c1, w1)" using p s True x by (auto simp: putch_def io_bind_def)
      then show ?thesis using fp(1,2) Inl s by (auto intro: exI [of _ 0])
    next
      case (Inr b)
      have ok1: "out_ok c1" "curr c1 < chan_end c1" using wrote_ok [OF fp(1)] fp(3) Inr by auto
      then have "r = Inr ()" "s' = (c1\<lparr>buff := (buff c1)[curr c1 := ch], curr := curr c1 + 1\<rparr>, w1)"
        using p s True x Inr by (auto simp: putch_def io_bind_def out_ok_def)
      moreover have "wrote out (c, w) (c1\<lparr>buff := (buff c1)[curr c1 := ch], curr := curr c1 + 1\<rparr>, w1) [ch]"
        using wrote_trans [OF fp(1) push [OF ok1]] by simp
      ultimately show ?thesis using s by (auto intro: exI [of _ 1])
    qed
  qed
qed

definition word_be :: "uint32 \<Rightarrow> uint8 list" where
  "word_be v = [ucast (drop_bit 24 v), ucast (drop_bit 16 v), ucast (drop_bit 8 v), ucast v]"

lemma putword_bind:
  "putword os v = io_bind (putch os (ucast (drop_bit 24 v))) (\<lambda>_. io_bind (putch os (ucast (drop_bit 16 v))) (\<lambda>_.
     io_bind (putch os (ucast (drop_bit 8 v))) (\<lambda>_. putch os (ucast v))))"
  by (auto simp: putword_def channel_binary_mode_def fun_eq_iff)

lemma writes_putword: "writes os out (putword os v) (word_be v)"
  using writes_bind [OF writes_putch writes_bind [OF writes_putch writes_bind [OF writes_putch writes_putch]]]
  unfolding putword_bind word_be_def by simp

lemma putblock_wrote:
  assumes law: "write_law os (fd c) out" and ok: "out_ok c" and f: "putblock os p (c, w) = Some (r, s')"
  shows "r \<noteq> Inl Overrun \<and> (case r of Inl e \<Rightarrow> wrote out (c, w) s' [] | Inr k \<Rightarrow> k \<le> length p \<and> wrote out (c, w) s' (take k p) \<and>
    chan_end (fst s') = chan_end c \<and> curr (fst s') < chan_end c \<and> (curr c < chan_end c \<longrightarrow> p \<noteq> [] \<longrightarrow> 0 < k))"
proof -
  define n where "n = (if INT_MAX \<le> length p then INT_MAX else length p)"
  let ?free = "chan_end c - curr c"
  have n: "n \<le> length p" "p \<noteq> [] \<Longrightarrow> 0 < n" by (auto simp: n_def INT_MAX_def)
  show ?thesis
  proof (cases "n < ?free")
    case True
    have "take (curr c + n) (blit (buff c) (curr c) (take n p)) = take (curr c) (buff c) @ take n p"
      using take_blit_after [of "curr c" "take n p" "buff c"] True n(1) ok by (simp add: out_ok_def min_absorb2)
    moreover have "length (blit (buff c) (curr c) (take n p)) = chan_end c" using True ok n(1) by (simp add: out_ok_def)
    moreover have "r = Inr n" "s' = (c\<lparr>buff := blit (buff c) (curr c) (take n p), curr := curr c + n\<rparr>, w)"
      using f True unfolding putblock_def Let_def prod.case n_def [symmetric] by simp_all
    ultimately show ?thesis using True ok n by (auto simp: wrote_def stream_def out_ok_def position_def)
  next
    case False
    let ?b = "blit (buff c) (curr c) (take ?free p)"
    have b: "?b = take (curr c) (buff c) @ take ?free p" "length ?b = chan_end c" "?free \<le> length p"
      using False ok n(1) by (auto simp: out_ok_def blit_def)
    have f2: "Option.bind (do_write os (fd c) ?b w) (\<lambda>(r, w). case r of Inl e \<Rightarrow> Some (Inl e, c\<lparr>buff := ?b\<rparr>, w)
      | Inr k \<Rightarrow> Some (Inr ?free, c\<lparr>buff := shift_out (chan_end c) k ?b,
          offset := offset c + int k, curr := chan_end c - k\<rparr>, w)) = Some (r, s')"
      using f False b(2) unfolding putblock_def Let_def prod.case n_def [symmetric] by (simp cong: sum.case_cong option.case_cong)
    then obtain d w1 where d: "do_write os (fd c) ?b w = Some (d, w1)" by (cases "do_write os (fd c) ?b w") auto
    show ?thesis
    proof (cases d)
      case (Inl e)
      then have "r = Inl e" "s' = (c\<lparr>buff := ?b\<rparr>, w1)" using f2 d by auto
      moreover have "out w1 = out w" "e \<noteq> Overrun" using do_write_arrives [OF law d] Inl by simp_all
      ultimately show ?thesis using ok b by (auto simp: wrote_def stream_def out_ok_def position_def)
    next
      case (Inr k)
      have "?b \<noteq> []" using b(2) ok by (auto simp: out_ok_def)
      then have k: "k \<le> chan_end c" "0 < k" "out w1 = out w @ take k ?b" using do_write_arrives [OF law d] Inr b(2) by auto
      let ?b2 = "shift_out (chan_end c) k ?b"
      have "take (chan_end c - k) ?b2 = drop k ?b" using shift_out(1) [OF k(1), of ?b] b(2) by simp
      then have "out w @ take k ?b @ take (chan_end c - k) ?b2 = out w @ ?b" by (metis append_take_drop_id)
      moreover have "length ?b2 = chan_end c" using shift_out(2) [OF k(1), of ?b] b(2) by simp
      moreover have "r = Inr ?free" "s' = (c\<lparr>buff := ?b2, offset := offset c + int k, curr := chan_end c - k\<rparr>, w1)"
        using f2 d Inr by auto
      ultimately show ?thesis using k ok b by (simp add: wrote_def stream_def out_ok_def position_def)
    qed
  qed
qed

lemma writes_really_putblock: "writes os out (really_putblock os p) p"
  unfolding writes_def
proof (intro allI impI)
  fix s :: "channel \<times> 'a" and r s'
  assume law: "write_law os (fd (fst s)) out" and ok: "out_ok (fst s)" and f: "really_putblock os p s = Some (r, s')"
  show "r \<noteq> Inl Overrun \<and> (\<exists>k. wrote out s s' (take k p)) \<and> (r = Inr () \<longrightarrow> wrote out s s' p)"
    using law ok
  proof (induction os p s "(r, s')" arbitrary: r s' rule: really_putblock.raw_induct)
    case (1 rp os p s)
    obtain c w where s: "s = (c, w)" by (cases s)
    show ?case
    proof (cases "p = []")
      case True
      then show ?thesis using 1(2,4) by auto
    next
      case False
      then obtain x s1 where x: "putblock os p s = Some (x, s1)" using 1(2) by (cases "putblock os p s") auto
      have lo: "write_law os (fd c) out" "out_ok c" using 1(3,4) s by simp_all
      note b = putblock_wrote [OF lo x [unfolded s]]
      show ?thesis
      proof (cases x)
        case (Inl e)
        then show ?thesis using 1(2) False x b s by (auto intro: exI [of _ 0])
      next
        case (Inr k)
        then have rp: "rp os (drop k p) s1 = Some (r, s')" using 1(2) False x by simp
        have w: "wrote out s s1 (take k p)" using b Inr s by simp
        have s1: "write_law os (fd (fst s1)) out" "out_ok (fst s1)" using wrote_ok [OF w] 1(3) by simp_all
        note ih = 1(1) [OF rp s1]
        obtain j where "wrote out s1 s' (take j (drop k p))" using ih by blast
        from wrote_trans [OF w this] have "wrote out s s' (take (k + j) p)" by (simp add: take_add)
        moreover have "r = Inr () \<Longrightarrow> wrote out s s' p" using wrote_trans [OF w, of s' "drop k p"] ih by simp
        ultimately show ?thesis using ih by blast
      qed
    qed
  qed (rule f)
qed

subsection \<open>Sequences of output operations\<close>

datatype out_op = Out_char uint8 | Out_word uint32 | Out_block "uint8 list" | Out_flush

fun out_bytes :: "out_op \<Rightarrow> uint8 list" where
  "out_bytes (Out_char b) = [b]"
| "out_bytes (Out_word v) = word_be v"
| "out_bytes (Out_block p) = p"
| "out_bytes Out_flush = []"

fun run_out :: "'w os \<Rightarrow> out_op \<Rightarrow> ('w, unit) io" where
  "run_out os (Out_char b) = putch os b"
| "run_out os (Out_word v) = putword os v"
| "run_out os (Out_block p) = really_putblock os p"
| "run_out os Out_flush = flush os"

fun run_outs :: "'w os \<Rightarrow> out_op list \<Rightarrow> ('w, unit) io" where
  "run_outs os [] = io_return ()"
| "run_outs os (x # xs) = io_bind (run_out os x) (\<lambda>_. run_outs os xs)"

lemma writes_run_out: "writes os out (run_out os x) (out_bytes x)"
  by (cases x) (simp_all add: writes_putch writes_putword writes_really_putblock writes_flush)

lemma writes_run_outs: "writes os out (run_outs os xs) (concat (map out_bytes xs))"
proof (induction xs)
  case Nil
  show ?case by (auto simp: writes_def io_return_def)
next
  case (Cons x xs)
  then show ?case using writes_bind [OF writes_run_out] by simp
qed

text \<open>
  A system that lets the program go on: no handler raises, and a call that fails does so for a reason that the runtime handles, each time
  spending some of its patience.
\<close>

definition write_live :: "'w os \<Rightarrow> int \<Rightarrow> ('w \<Rightarrow> nat) \<Rightarrow> bool" where
  "write_live os n patience \<longleftrightarrow>
     (\<forall>w. fst (os_enter os w) = None) \<and>
     (\<forall>p w. case os_write os n p (snd (os_enter os w)) of (r, w') \<Rightarrow>
        (case r of Inl e \<Rightarrow> (e = EINTR \<or> (e = EAGAIN \<or> e = EWOULDBLOCK) \<and> 1 < length p) \<and> patience (os_leave os w') < patience w
         | Inr k \<Rightarrow> True))"

lemma do_write_ends:
  assumes live: "write_live os n patience"
  shows "\<exists>k w'. do_write os n p w = Some (Inr k, w')"
proof (induction "patience w" arbitrary: p w rule: less_induct)
  case less
  obtain w1 where e: "os_enter os w = (None, w1)" using live unfolding write_live_def by (metis prod.collapse)
  obtain y w2 where v: "os_write os n p w1 = (y, w2)" by (cases "os_write os n p w1")
  have "case os_write os n p (snd (os_enter os w)) of (r, w') \<Rightarrow> (case r of
      Inl e \<Rightarrow> (e = EINTR \<or> (e = EAGAIN \<or> e = EWOULDBLOCK) \<and> 1 < length p) \<and> patience (os_leave os w') < patience w | Inr k \<Rightarrow> True)"
    by (rule live [unfolded write_live_def, THEN conjunct2, THEN spec, THEN spec])
  then have c: "case os_write os n p w1 of (r, w') \<Rightarrow> (case r of Inl e \<Rightarrow> (e = EINTR \<or> (e = EAGAIN \<or> e = EWOULDBLOCK) \<and> 1 < length p) \<and>
      patience (os_leave os w') < patience w | Inr k \<Rightarrow> True)"
    by (simp add: e)
  show ?case
  proof (cases y)
    case (Inr k)
    then show ?thesis using e v by (subst do_write.simps) simp
  next
    case (Inl er)
    then have "er = EINTR \<or> (er = EAGAIN \<or> er = EWOULDBLOCK) \<and> 1 < length p" and lt: "patience (os_leave os w2) < patience w"
      using c v by simp_all
    then show ?thesis using e v Inl less [OF lt] by (subst do_write.simps) (auto simp: Let_def)
  qed
qed

definition ends :: "'w os \<Rightarrow> ('w \<Rightarrow> uint8 list) \<Rightarrow> int \<Rightarrow> ('w, unit) io \<Rightarrow> bool" where
  "ends os out n m \<longleftrightarrow> (\<forall>c w. out_ok c \<longrightarrow> fd c = n \<longrightarrow> (\<exists>s'. m (c, w) = Some (Inr (), s')))"

lemma flush_partial_ends:
  assumes "write_live os (fd c) patience" and "out_ok c"
  shows "\<exists>b s'. flush_partial os (c, w) = Some (Inr b, s')"
  using do_write_ends [OF assms(1), of "take (curr c) (buff c)" w] assms(2) by (auto simp: flush_partial_def out_ok_def Let_def)

lemma flush_ends:
  assumes law: "write_law os n out" and live: "write_live os n patience"
  shows "ends os out n (flush os)"
  unfolding ends_def
proof (intro allI impI)
  fix c w
  assume "out_ok c" "fd c = n"
  then show "\<exists>s'. flush os (c, w) = Some (Inr (), s')"
  proof (induction "curr c" arbitrary: c w rule: less_induct)
    case less
    have lw: "write_law os (fd c) out" "write_live os (fd c) patience" using law live less.prems(2) by simp_all
    obtain b c1 w1 where b: "flush_partial os (c, w) = Some (Inr b, c1, w1)"
      using flush_partial_ends [OF lw(2) less.prems(1)] by (metis prod.collapse)
    note f = flush_partial_wrote [OF lw(1) less.prems(1) b]
    show ?case
    proof (cases b)
      case False
      then have lt: "curr c1 < curr c" using f(3) less.prems(1) b by (cases "0 < curr c") (auto simp: flush_partial_def split: if_splits)
      have "out_ok c1" "fd c1 = n" using wrote_ok [OF f(1)] less.prems(2) by simp_all
      from less.hyps [OF lt this] show ?thesis using b False by (subst flush.simps) simp
    qed (use b in \<open>subst flush.simps, simp\<close>)
  qed
qed

lemma putch_ends:
  assumes law: "write_law os n out" and live: "write_live os n patience"
  shows "ends os out n (putch os ch)"
  unfolding ends_def
proof (intro allI impI)
  fix c :: channel and w :: 'a
  assume ok: "out_ok c" "fd c = n"
  have l: "write_law os (fd (fst (c, w))) out" "out_ok (fst (c, w))" using law ok by simp_all
  obtain b s1 where "flush_partial os (c, w) = Some (Inr b, s1)" using flush_partial_ends [of os c patience w] live ok by auto
  then have "\<exists>r s'. putch os ch (c, w) = Some (r, s') \<and> (\<forall>e. r = Inl e \<longrightarrow> e = Overrun)"
    by (cases s1) (auto simp: putch_def io_bind_def)
  then obtain r s' where r: "putch os ch (c, w) = Some (r, s')" "\<forall>e. r = Inl e \<longrightarrow> e = Overrun" by blast
  then show "\<exists>s'. putch os ch (c, w) = Some (Inr (), s')" using writesD(1) [OF writes_putch l r(1)] by (cases r) auto
qed

lemma ends_bind:
  assumes law: "write_law os n out" and w: "writes os out m bs" and m: "ends os out n m" and f: "ends os out n f"
  shows "ends os out n (io_bind m (\<lambda>_. f))"
  unfolding ends_def
proof (intro allI impI)
  fix c w
  assume ok: "out_ok c" "fd c = n"
  then obtain c1 w1 where m1: "m (c, w) = Some (Inr (), c1, w1)" using m unfolding ends_def by (metis prod.collapse)
  have "out_ok c1" "fd c1 = n" using wrote_ok [OF writesD(3) [OF w _ _ m1]] law ok by simp_all
  then show "\<exists>s'. io_bind m (\<lambda>_. f) (c, w) = Some (Inr (), s')" using f m1 by (auto simp: ends_def io_bind_def)
qed

lemma putblock_ends:
  assumes "write_live os (fd c) patience"
  shows "\<exists>k s'. putblock os p (c, w) = Some (Inr k, s')"
  using do_write_ends [OF assms, of "take (chan_end c) (blit (buff c) (curr c) (take (chan_end c - curr c) p))" w]
  by (auto simp: putblock_def Let_def)

lemma really_putblock_ends:
  assumes law: "write_law os n out" and live: "write_live os n patience"
  shows "ends os out n (really_putblock os p)"
  unfolding ends_def
proof (intro allI impI)
  fix c w
  assume "out_ok c" "fd c = n"
  then show "\<exists>s'. really_putblock os p (c, w) = Some (Inr (), s')"
  proof (induction "2 * length p + (if curr c = chan_end c then 1 else 0)" arbitrary: p c w rule: less_induct)
    case less
    show ?case
    proof (cases "p = []")
      case False
      have lw: "write_law os (fd c) out" "write_live os (fd c) patience" using law live less.prems(2) by simp_all
      obtain k c1 w1 where b: "putblock os p (c, w) = Some (Inr k, c1, w1)"
        using putblock_ends [OF lw(2)] by (metis prod.collapse)
      note f = putblock_wrote [OF lw(1) less.prems(1) b]
      have w: "wrote out (c, w) (c1, w1) (take k p)" using f by simp
      have "k = 0 \<longrightarrow> curr c = chan_end c" using f False less.prems(1) by (auto simp: out_ok_def)
      then have lt: "2 * length (drop k p) + (if curr c1 = chan_end c1 then 1 else 0) < 2 * length p + (if curr c = chan_end c then 1 else 0)"
        using f False by (cases k) auto
      have "out_ok c1" "fd c1 = n" using wrote_ok [OF w] less.prems(2) by simp_all
      from less.hyps [OF lt this] show ?thesis using b False by (subst really_putblock.simps) simp
    qed (subst really_putblock.simps, simp)
  qed
qed

lemma run_outs_ends:
  assumes law: "write_law os n out" and live: "write_live os n patience"
  shows "ends os out n (run_outs os xs)"
proof (induction xs)
  case Nil
  show ?case by (simp add: ends_def io_return_def)
next
  case (Cons x xs)
  note pc = putch_ends [OF law live] and b = ends_bind [OF law writes_putch]
  have "ends os out n (run_out os x)"
    by (cases x) (simp_all add: pc b putword_bind flush_ends [OF law live] really_putblock_ends [OF law live])
  then show ?case using ends_bind [OF law writes_run_out _ Cons] by simp
qed

subsection \<open>An example system\<close>

text \<open>
  A system for the examples: the bytes that have arrived, the position in a file, and a count of interruptions still to come.  It writes
  at most three bytes and reads at most two at a time.
\<close>

definition demo_file :: "uint8 list" where "demo_file = [1, 2, 3, 4, 10, 6, 7]"

definition demo_os :: "(uint8 list \<times> nat \<times> nat) os" where
  "demo_os = \<lparr>
     os_write = (\<lambda>n p (out, pos, t). if n = -1 then (Inl EBADF, out, pos, t)
        else if 0 < t then (Inl EINTR, out, pos, t - 1) else (Inr (min 3 (length p)), out @ take (min 3 (length p)) p, pos, t)),
     os_read = (\<lambda>n k (out, pos, t). if n = -1 then (Inl EBADF, out, pos, t)
        else let bs = take (min (min k 2) (length demo_file - pos)) (drop pos demo_file) in (Inr bs, out, pos + length bs, t)),
     os_lseek = (\<lambda>n d wh (out, pos, t). if d < 0 then (Inl (Errno 22), out, pos, t) else (Inr d, out, nat d, t)),
     os_close = (\<lambda>n w. w), os_enter = (\<lambda>w. (None, w)), os_leave = (\<lambda>w. w)\<rparr>"

definition demo_out :: channel where
  "demo_out = \<lparr>fd = 1, offset = 3, chan_end = 4, curr = 2, chan_max = None, mutex = 0, revealed = 0, old_revealed = 0, refcount = 1,
     buff = [4, 5, 0, 0]\<rparr>"

definition demo_in :: channel where
  "demo_in = \<lparr>fd = 0, offset = 2, chan_end = 4, curr = 1, chan_max = Some 2, mutex = 0, revealed = 0, old_revealed = 0, refcount = 1,
     buff = [1, 2, 0, 0]\<rparr>"

lemma demo_write_law: "n \<noteq> -1 \<Longrightarrow> write_law demo_os n fst"
  by (auto simp: write_law_def demo_os_def)

lemma demo_write_live: "n \<noteq> -1 \<Longrightarrow> write_live demo_os n (\<lambda>w. snd (snd w))"
  by (auto simp: write_live_def demo_os_def)

lemma demo_ok: "out_ok demo_out" "fd demo_out = 1" "fd demo_in = 0"
  by (simp_all add: out_ok_def demo_out_def demo_in_def)

subsection \<open>The properties\<close>

text \<open>
  C11. Through any sequence of output operations the bytes on their way to the file are the bytes that the program wrote, in
  order, none lost or doubled, however the system cuts and refuses the writes: what has arrived followed by what is in the buffer is what was
  there before followed by the bytes of the operations, all of them if no exception is raised and a prefix of them otherwise.  The position of the
  channel advances by as much; \<open>pos_out\<close> returns the low 32 bits of it as a signed number.  The buffer is never overrun.
\<close>

theorem output_stream:
  assumes "write_law os (fd c) out" and "out_ok c" and "run_outs os xs (c, w) = Some (r, c', w')"
  shows "out_ok c' \<and> r \<noteq> Inl Overrun \<and>
    (\<exists>k. stream out (c', w') = stream out (c, w) @ take k (concat (map out_bytes xs)) \<and>
      offset c' + int (curr c') = offset c + int (curr c) + int (length (take k (concat (map out_bytes xs)))) \<and>
      pos_out c' = to_long (offset c + int (curr c) + int (length (take k (concat (map out_bytes xs))))) \<and>
      (r = Inr () \<longrightarrow> length (concat (map out_bytes xs)) \<le> k))"
proof -
  let ?bs = "concat (map out_bytes xs)"
  have l: "write_law os (fd (fst (c, w))) out" "out_ok (fst (c, w))" using assms(1,2) by simp_all
  note w = writesD [OF writes_run_outs l assms(3)]
  show ?thesis
  proof (cases "r = Inr ()")
    case True
    then have "wrote out (c, w) (c', w') (take (length ?bs) ?bs)" using w(3) by simp
    then show ?thesis using w(1) unfolding wrote_def position_def pos_out_def by (intro conjI exI [of _ "length ?bs"]) auto
  next
    case False
    obtain k where "wrote out (c, w) (c', w') (take k ?bs)" using w(2) by blast
    then show ?thesis using w(1) False unfolding wrote_def position_def pos_out_def by auto
  qed
qed

theorem output_stream_witness:
  "\<exists>r c' w'. run_outs demo_os [Out_char 6, Out_word 0x07080908, Out_char 7] (demo_out, [1, 2, 3], 0, 2) = Some (r, c', w') \<and>
     out_ok c' \<and> stream fst (c', w') = [1, 2, 3, 4, 5, 6, 7, 8, 9, 8, 7]"
proof -
  let ?xs = "[Out_char 6, Out_word 0x07080908, Out_char 7]"
  have "map_option fst (run_outs demo_os ?xs (demo_out, [1, 2, 3], 0, 2)) = Some (Inr ())" by code_simp
  then obtain c' w' where r: "run_outs demo_os ?xs (demo_out, [1, 2, 3], 0, 2) = Some (Inr (), c', w')" by auto
  have "stream fst (demo_out, [1, 2, 3], 0, 2) = [1, 2, 3, 4, 5 :: uint8]" "concat (map out_bytes ?xs) = [6, 7, 8, 9, 8, 7]"
    by (simp_all add: stream_def demo_out_def word_be_def)
  then show ?thesis using output_stream [OF demo_write_law demo_ok(1) r] r demo_ok(2) by auto
qed

text \<open>
  C12. On a system that does not fail for good, any sequence of output operations followed by a flush returns normally, and
  everything that was in the buffer and everything that was written has then arrived, in order.
\<close>

theorem output_arrives:
  assumes "write_law os (fd c) out" and "write_live os (fd c) patience" and "out_ok c"
  shows "\<exists>c' w'. run_outs os (xs @ [Out_flush]) (c, w) = Some (Inr (), c', w') \<and> curr c' = 0 \<and>
    out w' = out w @ take (curr c) (buff c) @ concat (map out_bytes xs)"
proof -
  have l: "write_law os (fd (fst (c, w))) out" "out_ok (fst (c, w))" using assms(1,3) by simp_all
  have app: "run_outs os (xs @ [Out_flush]) s = io_bind (run_outs os xs) (\<lambda>_. flush os) s" for s
    by (induction xs arbitrary: s) (auto simp: io_bind_def io_return_def fun_eq_iff split: Option.bind_split sum.splits)
  obtain c1 w1 where r: "run_outs os xs (c, w) = Some (Inr (), c1, w1)"
    using run_outs_ends [OF assms(1,2), of xs] assms(3) unfolding ends_def by (metis prod.collapse)
  have w: "wrote out (c, w) (c1, w1) (concat (map out_bytes xs))" using writesD(3) [OF writes_run_outs l r] by simp
  have l1: "write_law os (fd (fst (c1, w1))) out" "out_ok (fst (c1, w1))" using wrote_ok [OF w] assms(1) by simp_all
  obtain c2 w2 where f: "flush os (c1, w1) = Some (Inr (), c2, w2)"
    using flush_ends [OF assms(1,2)] wrote_ok [OF w] unfolding ends_def by (metis fst_conv prod.collapse)
  have "wrote out (c1, w1) (c2, w2) []" "curr c2 = 0" using flush_wrote [OF l1 f] by simp_all
  with wrote_trans [OF w this(1)] show ?thesis using r f app [of "(c, w)"] by (simp add: io_bind_def wrote_def stream_def)
qed

theorem output_arrives_witness:
  "\<exists>c' w'. run_outs demo_os ([Out_block [6, 7, 8, 9, 10, 11], Out_char 12] @ [Out_flush]) (demo_out, [1, 2, 3], 0, 2) = Some (Inr (), c', w') \<and>
     curr c' = 0 \<and> fst w' = [1, 2, 3, 4, 5, 6, 7, 8, 9, 10, 11, 12]"
  using output_arrives [of demo_os demo_out fst "\<lambda>w. snd (snd w)" "[Out_block [6, 7, 8, 9, 10, 11], Out_char 12]" "([1, 2, 3], 0, 2)"]
    demo_write_law [of 1] demo_write_live [of 1] demo_ok by (simp add: demo_out_def)

text \<open>
  C27. On a closed channel reading a character and writing a block raise \<open>Sys_error\<close> for a bad descriptor and flushing does
  nothing, but writing a character is no error: it stores the character behind the end of the buffer.
\<close>

theorem closed_channel:
  assumes "\<forall>w. fst (os_enter os w) = None" and "\<forall>p w. fst (os_write os (-1) p w) = Inl EBADF" and "\<forall>k w. fst (os_read os (-1) k w) = Inl EBADF"
    and "length (buff c) = chan_end c" and "caml_close_channel os (c, w) = Some (Inr (), c', w')"
  shows "flush os (c', w') = Some (Inr (), c', w') \<and>
    putch os b (c', w') = Some (Inl Overrun, c', w') \<and>
    (\<exists>w''. putblock os p (c', w') = Some (Inl (Sys_error EBADF), c', w'')) \<and>
    (\<exists>w''. getch os (c', w') = Some (Inl (Sys_error EBADF), c', w''))"
proof -
  have c': "c' = c\<lparr>fd := -1, curr := chan_end c, chan_max := Some (chan_end c)\<rparr>" using assms(5) by (simp add: caml_close_channel_def)
  have f: "flush_partial os (c', w') = Some (Inr True, c', w')" by (simp add: flush_partial_def c')
  obtain w1 where e: "os_enter os w' = (None, w1)" using assms(1) by (metis prod.collapse)
  have w: "\<exists>w''. do_write os (-1) q w' = Some (Inl (Sys_error EBADF), w'')" for q
  proof -
    obtain w2 where "os_write os (-1) q w1 = (Inl EBADF, w2)" using assms(2) by (metis prod.collapse)
    then show ?thesis using e by (subst do_write.simps) (simp add: sys_error_def Let_def)
  qed
  have r: "\<exists>w''. do_read os (-1) k w' = Some (Inl (Sys_error EBADF), w'')" for k
  proof -
    obtain w2 where "os_read os (-1) k w1 = (Inl EBADF, w2)" using assms(3) by (metis prod.collapse)
    then show ?thesis using e by (simp add: do_read_def read_again.simps [of os "-1" k w1] sys_error_def)
  qed
  have 1: "flush os (c', w') = Some (Inr (), c', w')" by (subst flush.simps) (simp add: f)
  have 2: "putch os b (c', w') = Some (Inl Overrun, c', w')" using assms(4) f by (simp add: putch_def io_bind_def c')
  have 3: "\<exists>w''. putblock os p (c', w') = Some (Inl (Sys_error EBADF), c', w'')"
    using w [of "take (chan_end c) (buff c)"] assms(4) by (auto simp: putblock_def Let_def c' blit_def)
  have 4: "\<exists>w''. getch os (c', w') = Some (Inl (Sys_error EBADF), c', w'')"
    using r [of "chan_end c"] by (auto simp: getch_def refill_def chan_lim_def c')
  show ?thesis using 1 2 3 4 by blast
qed

theorem closed_channel_witness:
  "caml_close_channel demo_os (demo_out, [], 0, 0) = Some (Inr (), demo_out\<lparr>fd := -1, curr := 4, chan_max := Some 4\<rparr>, [], 0, 0) \<and>
   putch demo_os 65 (demo_out\<lparr>fd := -1, curr := 4, chan_max := Some 4\<rparr>, [], 0, 0) =
     Some (Inl Overrun, demo_out\<lparr>fd := -1, curr := 4, chan_max := Some 4\<rparr>, [], 0, 0)"
proof -
  have c: "caml_close_channel demo_os (demo_out, [], 0, 0) = Some (Inr (), demo_out\<lparr>fd := -1, curr := 4, chan_max := Some 4\<rparr>, [], 0, 0)"
    by (simp add: caml_close_channel_def demo_os_def demo_out_def)
  have "length (buff demo_out) = chan_end demo_out" by (simp add: demo_out_def)
  from closed_channel [OF _ _ _ this c, of 65] show ?thesis using c by (simp add: demo_os_def split_beta)
qed

end
