(* ===== verification/Io_Input.thy ===== *)
theory Io_Input
  imports Io_Output
begin

text \<open>
  Input through a channel refines reading a file byte after byte: the state is a position in the file, from which every operation of
  \<^verbatim>\<open>byterun/io.c\<close> reads, and the invariant \<open>in_at\<close> says what the buffer holds of the file.
\<close>

subsection \<open>What an input channel promises\<close>

text \<open>
  The documented behaviour of \<open>read\<close> and \<open>lseek\<close> on a descriptor that stands at position \<open>ofs\<close> of a file with the contents \<open>F\<close>.
\<close>

definition read_law :: "'w os \<Rightarrow> int \<Rightarrow> uint8 list \<Rightarrow> ('w \<Rightarrow> nat) \<Rightarrow> bool" where
  "read_law os n F ofs \<longleftrightarrow>
     (\<forall>w. ofs (snd (os_enter os w)) = ofs w) \<and> (\<forall>w. ofs (os_leave os w) = ofs w) \<and>
     (\<forall>k w. case os_read os n k w of (r, w') \<Rightarrow>
        (case r of Inl e \<Rightarrow> ofs w' = ofs w
         | Inr bs \<Rightarrow> length bs \<le> k \<and> bs = take (length bs) (drop (ofs w) F) \<and> (bs = [] \<longrightarrow> k = 0 \<or> length F \<le> ofs w) \<and>
             ofs w' = ofs w + length bs)) \<and>
     (\<forall>d w. case os_lseek os n d SEEK_SET w of (r, w') \<Rightarrow>
        (case r of Inl e \<Rightarrow> ofs w' = ofs w | Inr p \<Rightarrow> p = d \<and> 0 \<le> d \<and> ofs w' = nat d))"

lemma read_lawD:
  assumes "read_law os n F ofs"
  shows "ofs (snd (os_enter os w)) = ofs w" and "ofs (os_leave os w) = ofs w"
    and "os_read os n k w = (Inl e, w') \<Longrightarrow> ofs w' = ofs w"
    and "os_read os n k w = (Inr bs, w') \<Longrightarrow> length bs \<le> k \<and> bs = take (length bs) (drop (ofs w) F) \<and>
      (bs = [] \<longrightarrow> k = 0 \<or> length F \<le> ofs w) \<and> ofs w' = ofs w + length bs"
    and "os_lseek os n d SEEK_SET w = (Inl e, w') \<Longrightarrow> ofs w' = ofs w"
    and "os_lseek os n d SEEK_SET w = (Inr p, w') \<Longrightarrow> p = d \<and> 0 \<le> d \<and> ofs w' = nat d"
proof -
  note l = assms [unfolded read_law_def]
  show "ofs (snd (os_enter os w)) = ofs w" and "ofs (os_leave os w) = ofs w" using l by blast+
  note r = l [THEN conjunct2, THEN conjunct2, THEN conjunct1, THEN spec [of _ k], THEN spec [of _ w]]
    and k = l [THEN conjunct2, THEN conjunct2, THEN conjunct2, THEN spec [of _ d], THEN spec [of _ w]]
  show "os_read os n k w = (Inl e, w') \<Longrightarrow> ofs w' = ofs w"
    and "os_read os n k w = (Inr bs, w') \<Longrightarrow> length bs \<le> k \<and> bs = take (length bs) (drop (ofs w) F) \<and>
      (bs = [] \<longrightarrow> k = 0 \<or> length F \<le> ofs w) \<and> ofs w' = ofs w + length bs" using r by auto
  show "os_lseek os n d SEEK_SET w = (Inl e, w') \<Longrightarrow> ofs w' = ofs w"
    and "os_lseek os n d SEEK_SET w = (Inr p, w') \<Longrightarrow> p = d \<and> 0 \<le> d \<and> ofs w' = nat d" using k by auto
qed

lemma read_again_law:
  assumes "read_law os n F ofs" and "read_again os n k w = Some (r, w')"
  shows "case r of Inl e \<Rightarrow> ofs w' = ofs w
    | Inr bs \<Rightarrow> length bs \<le> k \<and> bs = take (length bs) (drop (ofs w) F) \<and> (bs = [] \<longrightarrow> k = 0 \<or> length F \<le> ofs w) \<and> ofs w' = ofs w + length bs"
  using assms(1)
proof (induction os n k w "(r, w')" arbitrary: r w' rule: read_again.raw_induct)
  case (1 ra os n k w)
  obtain y w1 where v: "os_read os n k w = (y, w1)" by (cases "os_read os n k w")
  note law = read_lawD [OF 1(3)]
  show ?case
  proof (cases "y = Inl EINTR")
    case True
    then have "ra os n k w1 = Some (r, w')" using 1(2) v by simp
    from 1(1) [OF this 1(3)] show ?thesis using law(3) v True by (cases r) auto
  next
    case False
    then have "r = y" "w' = w1" using 1(2) v by simp_all
    then show ?thesis using law(3,4) v by (cases y) auto
  qed
qed (rule assms(2))

lemma do_read_law:
  assumes law: "read_law os n F ofs" and d: "do_read os n k w = Some (r, w')"
  shows "case r of Inl e \<Rightarrow> ofs w' = ofs w \<and> e \<noteq> End_of_file
    | Inr bs \<Rightarrow> length bs \<le> k \<and> bs = take (length bs) (drop (ofs w) F) \<and> (bs = [] \<longrightarrow> k = 0 \<or> length F \<le> ofs w) \<and> ofs w' = ofs w + length bs"
proof -
  obtain x w1 where e: "os_enter os w = (x, w1)" by (cases "os_enter os w")
  have a: "ofs w1 = ofs w" using read_lawD(1) [OF law, of w] e by simp
  show ?thesis
  proof (cases x)
    case None
    obtain y w2 where y: "read_again os n k w1 = Some (y, w2)" using d e None
      by (cases "read_again os n k w1") (auto simp: do_read_def)
    show ?thesis using read_again_law [OF law y] d e None y a read_lawD(2) [OF law]
      by (cases y) (auto simp: do_read_def sys_error_def)
  qed (use d e a in \<open>auto simp: do_read_def\<close>)
qed

text \<open>The channel reads the file \<open>F\<close> from position \<open>p\<close> on.\<close>

definition in_at :: "'w os \<Rightarrow> uint8 list \<Rightarrow> ('w \<Rightarrow> nat) \<Rightarrow> channel \<times> 'w \<Rightarrow> nat \<Rightarrow> bool" where
  "in_at os F ofs s p \<longleftrightarrow> (case s of (c, w) \<Rightarrow>
     read_law os (fd c) F ofs \<and> chan_max c \<noteq> None \<and> curr c \<le> chan_lim c \<and> chan_lim c \<le> chan_end c \<and> 0 < chan_end c \<and>
     length (buff c) = chan_end c \<and> offset c = int (ofs w) \<and> chan_lim c \<le> ofs w \<and>
     take (chan_lim c) (buff c) = take (chan_lim c) (drop (ofs w - chan_lim c) F) \<and> ofs w + curr c = p + chan_lim c)"

lemma in_at_pos: "in_at os F ofs (c, w) p \<Longrightarrow> pos_in c = to_long (int p)"
  unfolding pos_in_def by (rule arg_cong [of _ _ to_long]) (auto simp: in_at_def)

lemma in_at_moved: "in_at os F ofs (c, w) p \<Longrightarrow> ofs w' = ofs w \<Longrightarrow> in_at os F ofs (c, w') p"
  by (simp add: in_at_def)

text \<open>What is in the buffer is what the file holds at the position.\<close>

lemma in_at_slice:
  assumes "in_at os F ofs (c, w) p" and "k \<le> chan_lim c - curr c"
  shows "take k (drop (curr c) (buff c)) = take k (drop p F)" and "k \<le> length (drop p F)"
proof -
  let ?m = "chan_lim c"
  have e: "take ?m (buff c) = take ?m (drop (ofs w - ?m) F)"
    and m: "?m \<le> ofs w" "curr c \<le> ?m" "ofs w + curr c = p + ?m" "?m \<le> length (buff c)" using assms(1) unfolding in_at_def by auto
  have "drop (curr c) (take ?m (buff c)) = take (?m - curr c) (drop p F)"
    unfolding e drop_take drop_drop by (rule arg_cong [where f = "\<lambda>i. take (?m - curr c) (drop i F)"]) (use m in linarith)
  then have d: "take (?m - curr c) (drop (curr c) (buff c)) = take (?m - curr c) (drop p F)" by (simp add: drop_take)
  then show "take k (drop (curr c) (buff c)) = take k (drop p F)" using arg_cong [OF d, of "take k"] unfolding take_take min_absorb1 [OF assms(2)] by simp
  have "?m \<le> length (drop (ofs w - ?m) F)" using arg_cong [OF e, of length] m(4) by simp
  then show "k \<le> length (drop p F)" using m assms(2) unfolding length_drop by linarith
qed

lemma in_at_advance: "in_at os F ofs (c, w) p \<Longrightarrow> k \<le> chan_lim c - curr c \<Longrightarrow> in_at os F ofs (c\<lparr>curr := curr c + k\<rparr>, w) (p + k)"
  by (auto simp: in_at_def chan_lim_def)

lemma in_at_refilled:
  assumes "in_at os F ofs (c, w) p" and "curr c = chan_lim c" and "length bs \<le> chan_end c" and "bs = take (length bs) (drop (ofs w) F)"
    and "ofs w' = ofs w + length bs" and "j \<le> length bs"
  shows "in_at os F ofs (c\<lparr>buff := blit (buff c) 0 bs, offset := offset c + int (length bs), chan_max := Some (length bs), curr := j\<rparr>, w') (p + j)"
proof -
  have "take (length bs) (blit (buff c) 0 bs) = bs" "length (blit (buff c) 0 bs) = chan_end c"
    using assms(1,3) by (auto simp: blit_def in_at_def)
  then show ?thesis using assms by (simp add: in_at_def chan_lim_def)
qed

lemma nth_slice: "k = length xs \<Longrightarrow> xs = take k (drop p F) \<Longrightarrow> i < k \<Longrightarrow> p + i < length F \<and> F ! (p + i) = xs ! i"
proof -
  assume k: "k = length xs" "xs = take k (drop p F)" "i < k"
  from arg_cong [OF k(2), of length] k(1,3) have "p + i < length F" by simp
  moreover have "xs ! i = drop p F ! i" using k by (metis nth_take)
  ultimately show ?thesis by simp
qed

lemma getch_reads:
  assumes "in_at os F ofs s p" and "getch os s = Some (r, s')"
  shows "case r of Inl e \<Rightarrow> in_at os F ofs s' p \<and> (e = End_of_file \<longrightarrow> length F \<le> p)
    | Inr b \<Rightarrow> p < length F \<and> b = F ! p \<and> in_at os F ofs s' (p + 1)"
proof -
  obtain c w where s: "s = (c, w)" by (cases s)
  have i: "in_at os F ofs (c, w) p" using assms(1) s by simp
  show ?thesis
  proof (cases "chan_lim c \<le> curr c")
    case False
    have "take 1 (drop (curr c) (buff c)) = take 1 (drop p F)" "1 \<le> length (drop p F)" using in_at_slice [OF i, of 1] False by auto
    moreover have "curr c < length (buff c)" using i False by (auto simp: in_at_def)
    ultimately have "p < length F" "buff c ! curr c = F ! p"
      by (simp_all add: take_Suc_conv_app_nth [of 0 "drop _ _", simplified])
    moreover have "r = Inr (buff c ! curr c)" "s' = (c\<lparr>curr := curr c + 1\<rparr>, w)" using assms(2) s False by (simp_all add: getch_def)
    ultimately show ?thesis using in_at_advance [OF i, of 1] False by simp
  next
    case True
    then have e: "curr c = chan_lim c" "ofs w = p" and law: "read_law os (fd c) F ofs" using i by (auto simp: in_at_def)
    obtain d w1 where d: "do_read os (fd c) (chan_end c) w = Some (d, w1)" using assms(2) s True
      by (cases "do_read os (fd c) (chan_end c) w") (auto simp: getch_def refill_def)
    note l = do_read_law [OF law d]
    show ?thesis
    proof (cases d)
      case (Inl x)
      then show ?thesis using l assms(2) s True d i by (auto simp: getch_def refill_def intro: in_at_moved)
    next
      case (Inr bs)
      show ?thesis
      proof (cases "bs = []")
        case True
        then have "r = Inl End_of_file" "s' = (c, w1)" using assms(2) s \<open>chan_lim c \<le> curr c\<close> d Inr by (simp_all add: getch_def refill_def)
        moreover have "length F \<le> p" "ofs w1 = ofs w" using l Inr True i e by (auto simp: in_at_def)
        ultimately show ?thesis using i by (auto intro: in_at_moved)
      next
        case False
        have n: "bs = take (length bs) (drop (ofs w) F)" "length bs \<le> chan_end c" "ofs w1 = ofs w + length bs" using l Inr by auto
        let ?c = "c\<lparr>buff := blit (buff c) 0 bs, offset := offset c + int (length bs), chan_max := Some (length bs), curr := 1\<rparr>"
        have "in_at os F ofs (?c, w1) (p + 1)" using in_at_refilled [OF i e(1) n(2,1,3), of 1] False by (simp add: Suc_le_eq)
        moreover have "r = Inr (blit (buff c) 0 bs ! 0)" "s' = (?c, w1)"
          using assms(2) s \<open>chan_lim c \<le> curr c\<close> d Inr False by (simp_all add: getch_def refill_def Let_def)
        moreover have "blit (buff c) 0 bs ! 0 = bs ! 0" using False by (simp add: blit_def nth_append)
        moreover have "p < length F" "F ! p = bs ! 0" using nth_slice [OF refl n(1), of 0] e(2) False by auto
        ultimately show ?thesis by simp
      qed
    qed
  qed
qed

lemma getblock_reads:
  assumes "in_at os F ofs s p" and "getblock os len s = Some (r, s')"
  shows "case r of Inl e \<Rightarrow> in_at os F ofs s' p \<and> e \<noteq> End_of_file
    | Inr bs \<Rightarrow> length bs \<le> len \<and> bs = take (length bs) (drop p F) \<and> (bs = [] \<longrightarrow> len = 0 \<or> length F \<le> p) \<and> in_at os F ofs s' (p + length bs)"
proof -
  obtain c w where s: "s = (c, w)" by (cases s)
  have i: "in_at os F ofs (c, w) p" using assms(1) s by simp
  define n where "n = (if INT_MAX \<le> len then INT_MAX else len)"
  have n: "n \<le> len" "n = 0 \<longrightarrow> len = 0" by (auto simp: n_def INT_MAX_def)
  note g = assms(2) [unfolded s getblock_def prod.case Let_def, folded n_def]
  have have_k: ?thesis if "k \<le> chan_lim c - curr c" "k \<le> n" "k = 0 \<longrightarrow> n = 0"
    "r = Inr (take k (drop (curr c) (buff c)))" "s' = (c\<lparr>curr := curr c + k\<rparr>, w)" for k
    using in_at_slice [OF i that(1)] in_at_advance [OF i that(1)] that(2-) n by (auto simp: min_absorb2)
  consider (small) "n \<le> chan_lim c - curr c" | (some) "\<not> n \<le> chan_lim c - curr c" "0 < chan_lim c - curr c"
    | (none) "\<not> n \<le> chan_lim c - curr c" "\<not> 0 < chan_lim c - curr c" by blast
  then show ?thesis
  proof cases
    case small
    then show ?thesis using g by (intro have_k [of n]) auto
  next
    case some
    then show ?thesis using g by (intro have_k [of "chan_lim c - curr c"]) auto
  next
    case none
    then have e: "curr c = chan_lim c" "ofs w = p" and law: "read_law os (fd c) F ofs" using i by (auto simp: in_at_def)
    obtain d w1 where d: "do_read os (fd c) (chan_end c) w = Some (d, w1)" using g none
      by (cases "do_read os (fd c) (chan_end c) w") auto
    note l = do_read_law [OF law d]
    show ?thesis
    proof (cases d)
      case (Inl x)
      then show ?thesis using l g none d i by (auto intro: in_at_moved)
    next
      case (Inr bs)
      have b: "bs = take (length bs) (drop (ofs w) F)" "length bs \<le> chan_end c" "ofs w1 = ofs w + length bs"
        "bs = [] \<longrightarrow> length F \<le> ofs w" using l Inr i by (auto simp: in_at_def)
      define k where "k = (if length bs < n then length bs else n)"
      let ?c = "c\<lparr>buff := blit (buff c) 0 bs, offset := offset c + int (length bs), chan_max := Some (length bs), curr := k\<rparr>"
      have k: "k \<le> length bs" "k \<le> n" "k = 0 \<longrightarrow> n = 0 \<or> bs = []" by (auto simp: k_def)
      have r: "r = Inr (take k (blit (buff c) 0 bs))" "s' = (?c, w1)"
        using g none d Inr by (simp_all add: k_def [symmetric])
      have t: "take k (blit (buff c) 0 bs) = take k bs" using k(1) by (simp add: blit_def)
      have "take k bs = take k (drop p F)" using arg_cong [OF b(1), of "take k"] k(1) e(2) by (simp add: min_absorb1)
      moreover have "min (length F - p) k = k" using arg_cong [OF b(1), of length] k(1) e(2) by simp
      ultimately show ?thesis using in_at_refilled [OF i e(1) b(2,1,3) k(1)] r t k b(4) n e(2) by auto
    qed
  qed
qed

lemma really_getblock_reads:
  assumes "in_at os F ofs s p" and "really_getblock os q n s = Some (r, s')"
  shows "case r of Inl e \<Rightarrow> (\<exists>k \<le> n. in_at os F ofs s' (p + k)) \<and> e \<noteq> End_of_file
    | Inr (bs, ok) \<Rightarrow> \<exists>k \<le> n. bs = q @ take k (drop p F) \<and> (if ok then k = n \<and> p + n \<le> max p (length F) else length F \<le> p + k) \<and> in_at os F ofs s' (p + k)"
  using assms(1)
proof (induction os q n s "(r, s')" arbitrary: p r s' rule: really_getblock.raw_induct)
  case (1 rg os q n s)
  show ?case
  proof (cases "0 < n")
    case False
    then show ?thesis using 1(2,3) by auto
  next
    case True
    then obtain d s1 where d: "getblock os n s = Some (d, s1)" using 1(2) by (cases "getblock os n s") auto
    note g = getblock_reads [OF 1(3) d]
    show ?thesis
    proof (cases d)
      case (Inl e)
      then have "r = Inl e" "in_at os F ofs s' (p + 0)" "e \<noteq> End_of_file" using 1(2) True d g by auto
      then show ?thesis by (simp only: sum.case) blast
    next
      case (Inr bs)
      have b: "length bs \<le> n" "bs = take (length bs) (drop p F)" "in_at os F ofs s1 (p + length bs)" using g Inr by auto
      have lF: "length bs \<le> length F - p" using arg_cong [OF b(2), of length] by simp
      show ?thesis
      proof (cases "bs = []")
        case True
        then have "r = Inr (q, n = 0)" "s' = s1" using 1(2) \<open>0 < n\<close> d Inr by simp_all
        then show ?thesis using g Inr True \<open>0 < n\<close> by (auto intro: exI [of _ 0])
      next
        case False
        then have rg: "rg os (q @ bs) (n - length bs) s1 = Some (r, s')" using 1(2) \<open>0 < n\<close> d Inr by simp
        have app: "(q @ bs) @ take k (drop (p + length bs) F) = q @ take (length bs + k) (drop p F)" for k
          unfolding take_add drop_drop by (simp add: b(2) [symmetric] add.commute)
        show ?thesis
        proof (cases r)
          case (Inl e)
          then obtain k where "k \<le> n - length bs" "in_at os F ofs s' (p + length bs + k)" "e \<noteq> End_of_file"
            using 1(1) [OF rg b(3)] by auto
          then show ?thesis using Inl b(1) by (auto simp: add.assoc intro: exI [of _ "length bs + k"])
        next
          case (Inr x)
          obtain ys ok where x: "x = (ys, ok)" by (cases x)
          then obtain k where k: "k \<le> n - length bs" "ys = (q @ bs) @ take k (drop (p + length bs) F)"
            "if ok then k = n - length bs \<and> p + length bs + (n - length bs) \<le> max (p + length bs) (length F) else length F \<le> p + length bs + k"
            "in_at os F ofs s' (p + length bs + k)" using 1(1) [OF rg b(3)] Inr by auto
          have "length bs + k \<le> n" using k(1) b(1) by simp
          moreover have "if ok then length bs + k = n \<and> p + n \<le> max p (length F) else length F \<le> p + (length bs + k)"
            using k(3) b(1) lF by (auto split: if_splits)
          ultimately show ?thesis unfolding Inr x sum.case prod.case using k(2,4) app [of k] by (intro exI [of _ "length bs + k"]) (simp add: add.assoc)
        qed
      qed
    qed
  qed
qed (rule assms(2))

lemma seek_in_moves:
  assumes "in_at os F ofs s p" and "seek_in os d s = Some (r, s')"
  shows "case r of Inl e \<Rightarrow> in_at os F ofs s' p | Inr u \<Rightarrow> 0 \<le> d \<and> in_at os F ofs s' (nat d)"
proof -
  obtain c w where s: "s = (c, w)" by (cases s)
  have i: "in_at os F ofs (c, w) p" using assms(1) s by simp
  show ?thesis
  proof (cases "offset c - int (chan_lim c) \<le> d \<and> d \<le> offset c")
    case True
    then have "r = Inr ()" "s' = (c\<lparr>curr := nat (int (chan_lim c) - (offset c - d))\<rparr>, w)" using assms(2) s by (simp_all add: seek_in_def)
    then show ?thesis using i True by (auto simp: in_at_def chan_lim_def split: option.splits)
  next
    case False
    obtain x w1 where x: "os_lseek os (fd c) d SEEK_SET w = (x, w1)" by (cases "os_lseek os (fd c) d SEEK_SET w")
    have law: "read_law os (fd c) F ofs" using i by (auto simp: in_at_def)
    show ?thesis
    proof (cases x)
      case (Inl e)
      then have "r = Inl (sys_error e)" "s' = (c, w1)" using assms(2) s False x by (auto simp: seek_in_def)
      then show ?thesis using read_lawD(5) [OF law x [unfolded Inl]] i by (auto intro: in_at_moved)
    next
      case (Inr q)
      note q = read_lawD(6) [OF law x [unfolded Inr]]
      then have "r = Inr ()" "s' = (c\<lparr>offset := d, curr := 0, chan_max := Some 0\<rparr>, w1)" using assms(2) s False x Inr by (auto simp: seek_in_def)
      then show ?thesis using i q by (auto simp: in_at_def chan_lim_def)
    qed
  qed
qed

lemma getword_bind:
  "getword os = io_bind (getch os) (\<lambda>a. io_bind (getch os) (\<lambda>b. io_bind (getch os) (\<lambda>c. io_bind (getch os) (\<lambda>d.
     io_return (push_bit 8 (push_bit 8 (push_bit 8 (push_bit 8 0 + ucast a) + ucast b) + ucast c) + ucast d)))))"
  by (auto simp: getword_def channel_binary_mode_def fun_eq_iff upt_rec)

lemma word_be_join:
  fixes a b c d :: uint8
  shows "word_be (push_bit 8 (push_bit 8 (push_bit 8 (push_bit 8 0 + ucast a) + ucast b) + ucast c) + ucast d) = [a, b, c, d]"
proof -
  have add_or: "push_bit 8 x + ucast y = push_bit 8 x OR ucast y" for x :: uint32 and y :: uint8
    by (rule disjunctive_add) (auto simp: bit_simps dest: bit_imp_le_length)
  have "\<not> bit y (8 + n)" "\<not> bit y (16 + n)" "\<not> bit y (24 + n)" for y :: uint8 and n by (auto dest: bit_imp_le_length)
  then show ?thesis unfolding word_be_def add_or by (auto intro!: bit_word_eqI simp: bit_simps)
qed

lemma getword_reads:
  assumes "in_at os F ofs s p" and "getword os s = Some (r, s')"
  shows "case r of Inl e \<Rightarrow> \<exists>k < 4. in_at os F ofs s' (p + k) \<and> (e = End_of_file \<longrightarrow> length F \<le> p + k)
    | Inr v \<Rightarrow> p + 4 \<le> length F \<and> word_be v = take 4 (drop p F) \<and> in_at os F ofs s' (p + 4)"
proof -
  have stop: ?thesis if "r = Inl e" "k < 4" "in_at os F ofs s' (p + k)" "e = End_of_file \<longrightarrow> length F \<le> p + k" for e k
    using that by auto
  from assms(2) [unfolded getword_bind] show ?thesis
  proof (cases rule: io_bind_cases)
    case (raised e)
    then show ?thesis using getch_reads [OF assms(1) raised(1)] by (intro stop [of e 0]) auto
  next
    case (next_step a s1)
    note g1 = getch_reads [OF assms(1) next_step(1), unfolded sum.case]
    from next_step(2) show ?thesis
    proof (cases rule: io_bind_cases)
      case (raised e)
      then show ?thesis using getch_reads [OF _ raised(1), of F ofs "p + 1"] g1 by (intro stop [of e 1]) auto
    next
      case (next_step b s2)
      have g2: "p + 1 < length F \<and> b = F ! (p + 1) \<and> in_at os F ofs s2 (p + 2)"
        using getch_reads [OF _ next_step(1), of F ofs "p + 1"] g1 by simp
      from next_step(2) show ?thesis
      proof (cases rule: io_bind_cases)
        case (raised e)
        then show ?thesis using getch_reads [OF _ raised(1), of F ofs "p + 2"] g2 by (intro stop [of e 2]) auto
      next
        case (next_step c s3)
        have g3: "p + 2 < length F \<and> c = F ! (p + 2) \<and> in_at os F ofs s3 (p + 3)"
          using getch_reads [OF _ next_step(1), of F ofs "p + 2"] g2 by (simp add: numeral_3_eq_3)
        from next_step(2) show ?thesis
        proof (cases rule: io_bind_cases)
          case (raised e)
          then show ?thesis using getch_reads [OF _ raised(1), of F ofs "p + 3"] g3 by (intro stop [of e 3]) auto
        next
          case (next_step d s4)
          have g4: "p + 3 < length F \<and> d = F ! (p + 3) \<and> in_at os F ofs s4 (p + 4)"
            using getch_reads [OF _ next_step(1), of F ofs "p + 3"] g3 by (simp add: numeral_eq_Suc)
          have "take 4 (drop p F) = [a, b, c, d]"
            using g1 g2 g3 g4 by (intro nth_equalityI) (auto simp: nth_Cons' numeral_eq_Suc less_Suc_eq)
          then show ?thesis using next_step(2) g4 word_be_join [of a b c d] by (auto simp: io_return_def)
        qed
      qed
    qed
  qed
qed

lemma in_at_make_room:
  assumes "in_at os F ofs (c, w) p"
  defines "c1 \<equiv> if 0 < curr c then make_room c else c"
  shows "in_at os F ofs (c1, w) p" "curr c1 = 0" "chan_lim c1 = chan_lim c - curr c" "chan_end c1 = chan_end c" "fd c1 = fd c"
proof -
  let ?k = "chan_lim c - curr c"
  have s: "take ?k (drop (curr c) (buff c)) = take ?k (drop p F)" using in_at_slice [OF assms(1), of ?k] by simp
  have l: "length (take ?k (drop (curr c) (buff c))) = ?k" "?k \<le> length (buff c)" using assms(1) by (auto simp: in_at_def)
  have b: "take ?k (blit (buff c) 0 (take ?k (drop (curr c) (buff c)))) = take ?k (drop p F)"
    using take_blit_after [of 0 "take ?k (drop (curr c) (buff c))" "buff c"] l s by simp
  have lb: "length (blit (buff c) 0 (take ?k (drop (curr c) (buff c)))) = length (buff c)" using l by (intro length_blit) simp
  have e: "ofs w - ?k = p" using assms(1) by (auto simp: in_at_def)
  show "curr c1 = 0" "chan_lim c1 = ?k" "chan_end c1 = chan_end c" "fd c1 = fd c"
    by (simp_all add: c1_def make_room_def chan_lim_def)
  show "in_at os F ofs (c1, w) p"
  proof (cases "0 < curr c")
    case True
    then have c1: "c1 = make_room c" by (simp add: c1_def)
    have m: "chan_lim (make_room c) = ?k" "curr (make_room c) = 0" "fd (make_room c) = fd c" "chan_end (make_room c) = chan_end c"
      "offset (make_room c) = offset c" "chan_max (make_room c) = Some ?k" "buff (make_room c) = blit (buff c) 0 (take ?k (drop (curr c) (buff c)))"
      by (simp_all add: make_room_def chan_lim_def)
    show ?thesis using assms(1) unfolding c1 in_at_def prod.case m e b lb by auto
  qed (use assms(1) in \<open>simp add: c1_def\<close>)
qed

lemma in_at_appended:
  assumes "in_at os F ofs (c, w) p" and "curr c = 0" and "length bs \<le> chan_end c - chan_lim c"
    and "bs = take (length bs) (drop (ofs w) F)" and "ofs w' = ofs w + length bs"
  shows "in_at os F ofs (c\<lparr>buff := blit (buff c) (chan_lim c) bs, offset := offset c + int (length bs), chan_max := Some (chan_lim c + length bs)\<rparr>, w') p"
proof -
  let ?m = "chan_lim c"
  have i: "take ?m (buff c) = take ?m (drop p F)" "ofs w = p + ?m" "?m \<le> chan_end c" "length (buff c) = chan_end c"
    using assms(1,2) by (auto simp: in_at_def)
  have f: "?m + length bs \<le> length (buff c)" using i assms(3) by simp
  have "take (?m + length bs) (blit (buff c) ?m bs) = take ?m (drop p F) @ take (length bs) (drop (?m + p) F)"
    using take_blit_after [OF f] i assms(4) by (simp add: add.commute)
  then have "take (?m + length bs) (blit (buff c) ?m bs) = take (?m + length bs) (drop p F)" by (simp add: take_add)
  then show ?thesis using assms(1,2,5) f i by (simp add: in_at_def chan_lim_def split: option.splits)
qed

lemma scan_fill_at:
  assumes i: "in_at os F ofs (c, w) p" and k: "curr c \<le> j" "j \<le> chan_lim c" and f: "scan_fill os j (c, w) = Some (r, s')"
  shows "in_at os F ofs s' p" and "chan_end (fst s') = chan_end c"
    and "r = Inr (Inl res) \<Longrightarrow> res = - int (j - curr c) \<and> (length F \<le> p + (j - curr c) \<or> j - curr c = chan_end c) \<and>
      j - curr c = chan_lim (fst s') - curr (fst s')"
    and "r = Inr (Inr i) \<Longrightarrow> i = curr (fst s') + (j - curr c) \<and> i < chan_lim (fst s')"
proof -
  define P where "P \<longleftrightarrow> in_at os F ofs s' p \<and> chan_end (fst s') = chan_end c \<and>
    (\<forall>res. r = Inr (Inl res) \<longrightarrow> res = - int (j - curr c) \<and> (length F \<le> p + (j - curr c) \<or> j - curr c = chan_end c) \<and>
       j - curr c = chan_lim (fst s') - curr (fst s')) \<and>
    (\<forall>i. r = Inr (Inr i) \<longrightarrow> i = curr (fst s') + (j - curr c) \<and> i < chan_lim (fst s'))"
  have P
  proof (cases "j < chan_lim c")
    case True
    then show ?thesis using f i k by (auto simp: scan_fill_def P_def)
  next
    case False
    define c1 where "c1 = (if 0 < curr c then make_room c else c)"
    note m = in_at_make_room [OF i, folded c1_def]
    have j: "j - curr c = chan_lim c1" "chan_lim c1 \<le> chan_end c1" using False k m(1,3) by (auto simp: in_at_def)
    have o: "ofs w = p + chan_lim c1" using m(1,2) by (simp add: in_at_def)
    note g = f [unfolded scan_fill_def prod.case Let_def, folded c1_def]
    show ?thesis
    proof (cases "chan_end c1 \<le> chan_lim c1")
      case True
      then show ?thesis using g False m j unfolding P_def by auto
    next
      case room: False
      have law: "read_law os (fd c1) F ofs" using m(1) by (auto simp: in_at_def)
      obtain d w1 where d: "do_read os (fd c1) (chan_end c1 - chan_lim c1) w = Some (d, w1)" using g False room
        by (cases "do_read os (fd c1) (chan_end c1 - chan_lim c1) w") auto
      note l = do_read_law [OF law d]
      show ?thesis
      proof (cases d)
        case (Inl e)
        then show ?thesis using g False room d l m by (auto simp: P_def intro: in_at_moved)
      next
        case (Inr bs)
        have b: "length bs \<le> chan_end c1 - chan_lim c1" "bs = take (length bs) (drop (ofs w) F)" "ofs w1 = ofs w + length bs"
          "bs = [] \<longrightarrow> length F \<le> ofs w" using l Inr room by auto
        show ?thesis
        proof (cases "bs = []")
          case True
          then have "r = Inr (Inl (- int (chan_lim c1)))" "s' = (c1, w1)" using g False room d Inr m(2) by auto
          then show ?thesis using b True in_at_moved [OF m(1), of w1] j m o unfolding P_def by auto
        next
          case ne: False
          let ?c2 = "c1\<lparr>buff := blit (buff c1) (chan_lim c1) bs, offset := offset c1 + int (length bs), chan_max := Some (chan_lim c1 + length bs)\<rparr>"
          have "r = Inr (Inr (j - curr c))" "s' = (?c2, w1)" using g False room d Inr ne by auto
          moreover have "chan_lim ?c2 = chan_lim c1 + length bs" by (simp add: chan_lim_def)
          ultimately show ?thesis using in_at_appended [OF m(1,2) b(1-3)] ne m j unfolding P_def by auto
        qed
      qed
    qed
  qed
  then show "in_at os F ofs s' p" and "chan_end (fst s') = chan_end c"
    and "r = Inr (Inl res) \<Longrightarrow> res = - int (j - curr c) \<and> (length F \<le> p + (j - curr c) \<or> j - curr c = chan_end c) \<and>
      j - curr c = chan_lim (fst s') - curr (fst s')"
    and "r = Inr (Inr i) \<Longrightarrow> i = curr (fst s') + (j - curr c) \<and> i < chan_lim (fst s')" unfolding P_def by blast+
qed

lemma take_Suc_newline:
  "10 \<notin> set (take k xs) \<Longrightarrow> k < length xs \<Longrightarrow> xs ! k \<noteq> 10 \<Longrightarrow> 10 \<notin> set (take (Suc k) xs)" for xs :: "uint8 list"
  by (simp add: take_Suc_conv_app_nth)

lemma scan_loop_line:
  assumes "in_at os F ofs s p" and "curr (fst s) \<le> j" and "j \<le> chan_lim (fst s)"
    and "10 \<notin> set (take (j - curr (fst s)) (drop p F))" and "scan_loop os j s = Some (r, s')"
  shows "in_at os F ofs s' p \<and> (\<forall>n. r = Inr n \<longrightarrow> nat \<bar>n\<bar> \<le> chan_lim (fst s') - curr (fst s') \<and>
    (0 < n \<longrightarrow> drop p F ! (nat n - 1) = 10 \<and> 10 \<notin> set (take (nat n - 1) (drop p F))) \<and>
    (n \<le> 0 \<longrightarrow> 10 \<notin> set (take (nat (- n)) (drop p F)) \<and> (length F \<le> p + nat (- n) \<or> nat (- n) = chan_end (fst s))))"
  using assms(1-4)
proof (induction os j s "(r, s')" arbitrary: r s' rule: scan_loop.raw_induct)
  case (1 sl os j s)
  obtain c w where s: "s = (c, w)" by (cases s)
  obtain d s1 where d: "scan_fill os j s = Some (d, s1)" using 1(2) by (cases "scan_fill os j s") auto
  have k: "curr c \<le> j" "j \<le> chan_lim c" and i: "in_at os F ofs (c, w) p" and nl: "10 \<notin> set (take (j - curr c) (drop p F))"
    using 1(3-) s by simp_all
  note f = scan_fill_at [OF i k d [unfolded s]]
  show ?case
  proof (cases d)
    case (Inl e)
    then show ?thesis using 1(2) d f by auto
  next
    case (Inr q)
    show ?thesis
    proof (cases q)
      case (Inl res)
      then have "r = Inr res" "s' = s1" using 1(2) d Inr by auto
      then show ?thesis using f(1,3) Inr Inl nl s by auto
    next
      case (Inr j1)
      have j1: "j1 = curr (fst s1) + (j - curr c)" "j1 < chan_lim (fst s1)" using f(4) Inr \<open>d = Inr q\<close> by simp_all
      let ?n = "j1 + 1 - curr (fst s1)"
      have n: "?n = Suc (j - curr c)" using j1(1) by simp
      have s1: "in_at os F ofs (fst s1, snd s1) p" using f(1) by simp
      have sl: "take ?n (drop (curr (fst s1)) (buff (fst s1))) = take ?n (drop p F)" "?n \<le> length (drop p F)"
        by (rule in_at_slice [OF s1], use j1 in simp)+
      have lb: "j1 < length (buff (fst s1))" using s1 j1(2) by (auto simp: in_at_def)
      have ch: "buff (fst s1) ! j1 = drop p F ! (j - curr c)"
        using arg_cong [OF sl(1), of "\<lambda>xs. xs ! (j - curr c)"] lb j1(1) by (simp add: n)
      show ?thesis
      proof (cases "buff (fst s1) ! j1 = 10")
        case True
        then have "r = Inr (int (j1 + 1) - int (curr (fst s1)))" "s' = s1" using 1(2) d \<open>d = Inr q\<close> Inr by auto
        moreover have "int (j1 + 1) - int (curr (fst s1)) = int (Suc (j - curr c))" unfolding j1(1) by simp
        ultimately have r: "r = Inr (int (Suc (j - curr c)))" "s' = s1" by (simp_all only:)
        have "Suc (j - curr c) \<le> chan_lim (fst s1) - curr (fst s1)" using j1 by simp
        then show ?thesis using f(1) True ch nl unfolding r by (simp del: of_nat_Suc)
      next
        case False
        then have l: "sl os (j1 + 1) s1 = Some (r, s')" using 1(2) d \<open>d = Inr q\<close> Inr by simp
        have "10 \<notin> set (take ?n (drop p F))" unfolding n using take_Suc_newline [OF nl] sl(2) n False ch by simp
        then have h: "curr (fst s1) \<le> j1 + 1" "j1 + 1 \<le> chan_lim (fst s1)" "10 \<notin> set (take (j1 + 1 - curr (fst s1)) (drop p F))"
          using j1 by simp_all
        from 1(1) [OF l f(1) h] show ?thesis using f(2) s by simp
      qed
    qed
  qed
qed (rule assms(5))

subsection \<open>The properties\<close>

lemma demo_read_law: "n \<noteq> -1 \<Longrightarrow> read_law demo_os n demo_file (\<lambda>w. fst (snd w))"
  by (auto simp: read_law_def demo_os_def Let_def)

lemma demo_in_at: "in_at demo_os demo_file (\<lambda>w. fst (snd w)) (demo_in, [], 2, 0) 1"
  using demo_read_law [of 0] by (simp add: in_at_def demo_in_def demo_file_def chan_lim_def)

text \<open>
  C13. A channel reads its file as if it read byte after byte from a position, whatever amounts the system returns: each operation that
  succeeds returns the bytes of the file at the position, which it moves behind them; the end of the file is raised or reported only there; an
  operation that fails leaves a position that it has reached; seeking moves the position.  \<open>pos_in\<close> returns the low 32 bits of the position as a signed number, which
  is the position if it is below \<open>2 ^ 31\<close>.
\<close>

theorem input_file:
  assumes "in_at os F ofs s p"
  shows "pos_in (fst s) = to_long (int p) \<and> (p < 2 ^ 31 \<longrightarrow> pos_in (fst s) = int p) \<and>
    (\<forall>r s'. getch os s = Some (r, s') \<longrightarrow> (case r of Inl e \<Rightarrow> in_at os F ofs s' p \<and> (e = End_of_file \<longrightarrow> length F \<le> p)
      | Inr b \<Rightarrow> p < length F \<and> b = F ! p \<and> in_at os F ofs s' (p + 1))) \<and>
    (\<forall>r s'. getword os s = Some (r, s') \<longrightarrow> (case r of Inl e \<Rightarrow> \<exists>k < 4. in_at os F ofs s' (p + k) \<and> (e = End_of_file \<longrightarrow> length F \<le> p + k)
      | Inr v \<Rightarrow> p + 4 \<le> length F \<and> word_be v = take 4 (drop p F) \<and> in_at os F ofs s' (p + 4))) \<and>
    (\<forall>len r s'. getblock os len s = Some (r, s') \<longrightarrow> (case r of Inl e \<Rightarrow> in_at os F ofs s' p \<and> e \<noteq> End_of_file
      | Inr bs \<Rightarrow> length bs \<le> len \<and> bs = take (length bs) (drop p F) \<and> (bs = [] \<longrightarrow> len = 0 \<or> length F \<le> p) \<and>
          in_at os F ofs s' (p + length bs))) \<and>
    (\<forall>n r s'. really_getblock os [] n s = Some (r, s') \<longrightarrow> (case r of Inl e \<Rightarrow> (\<exists>k \<le> n. in_at os F ofs s' (p + k)) \<and> e \<noteq> End_of_file
      | Inr (bs, ok) \<Rightarrow> \<exists>k \<le> n. bs = [] @ take k (drop p F) \<and> (if ok then k = n \<and> p + n \<le> max p (length F) else length F \<le> p + k) \<and>
          in_at os F ofs s' (p + k))) \<and>
    (\<forall>d r s'. seek_in os d s = Some (r, s') \<longrightarrow> (case r of Inl e \<Rightarrow> in_at os F ofs s' p | Inr u \<Rightarrow> 0 \<le> d \<and> in_at os F ofs s' (nat d)))"
proof -
  have pos: "pos_in (fst s) = to_long (int p)" using in_at_pos [of os F ofs "fst s" "snd s" p] assms unfolding prod.collapse by blast
  moreover have "pos_in (fst s) = int p" if "p < 2 ^ 31" using pos that to_long_small [of "int p"] by simp
  ultimately show ?thesis using getch_reads [OF assms] getword_reads [OF assms] getblock_reads [OF assms]
    really_getblock_reads [OF assms, of "[]"] seek_in_moves [OF assms] by blast
qed

theorem input_file_witness:
  "pos_in demo_in = 1 \<and> (\<exists>v s'. getword demo_os (demo_in, [], 2, 0) = Some (Inr v, s') \<and> word_be v = [2, 3, 4, 10] \<and>
     in_at demo_os demo_file (\<lambda>w. fst (snd w)) s' 5)"
proof -
  have "map_option fst (getword demo_os (demo_in, [], 2, 0)) = Some (Inr 0x0203040a)" by code_simp
  then obtain v s' where g: "getword demo_os (demo_in, [], 2, 0) = Some (Inr v, s')" by auto
  have "take 4 (drop 1 demo_file) = [2, 3, 4, 10]" by (simp add: demo_file_def)
  then show ?thesis using input_file [OF demo_in_at, THEN conjunct2, THEN conjunct2, THEN conjunct2, THEN conjunct1, THEN spec, THEN spec, THEN mp, OF g]
      input_file [OF demo_in_at, THEN conjunct2, THEN conjunct1] g by simp
qed

text \<open>
  The scan for a line leaves the position where it is.  A positive result is the length of the line with its newline,
  which is the first one; otherwise the result counts the bytes in the buffer, which hold no newline and either reach the end of the file or
  fill the buffer.  In both cases the bytes counted are in the buffer, so that reading them does not block.
\<close>

theorem scan_line_finds:
  assumes "in_at os F ofs s p" and "input_scan_line os s = Some (r, s')"
  shows "in_at os F ofs s' p \<and> (\<forall>n. r = Inr n \<longrightarrow> nat \<bar>n\<bar> \<le> chan_lim (fst s') - curr (fst s') \<and>
    (0 < n \<longrightarrow> drop p F ! (nat n - 1) = 10 \<and> 10 \<notin> set (take (nat n - 1) (drop p F))) \<and>
    (n \<le> 0 \<longrightarrow> 10 \<notin> set (take (nat (- n)) (drop p F)) \<and> (length F \<le> p + nat (- n) \<or> nat (- n) = chan_end (fst s))))"
proof -
  have "curr (fst s) \<le> chan_lim (fst s)" using assms(1) by (auto simp: in_at_def)
  then show ?thesis using assms(2) unfolding input_scan_line_def by (intro scan_loop_line [OF assms(1) order_refl]) simp_all
qed

theorem scan_line_finds_witness:
  "\<exists>s'. input_scan_line demo_os (demo_in, [], 2, 0) = Some (Inr 4, s') \<and> drop 1 demo_file ! 3 = 10 \<and>
     in_at demo_os demo_file (\<lambda>w. fst (snd w)) s' 1"
proof -
  have "map_option fst (input_scan_line demo_os (demo_in, [], 2, 0)) = Some (Inr 4)" by code_simp
  then obtain s' where g: "input_scan_line demo_os (demo_in, [], 2, 0) = Some (Inr 4, s')" by auto
  show ?thesis using scan_line_finds [OF demo_in_at g] g by auto
qed

end
