(* ===== verification/Md5_Chan.thy ===== *)
theory Md5_Chan
  imports Md5 Io_Input
begin

text \<open>
  The digest of a channel, \<open>md5_chan\<close> of \<^verbatim>\<open>byterun/md5.c\<close>, which joins the buffered input with the message digest.  The blocks that
  \<open>getblock\<close> returns are the pieces of the message; the result is the digest that the code stores into a fresh string.
\<close>

definition md5_buffer :: nat where "md5_buffer = 4096"

partial_function (option) md5_rest ::
  "'w os \<Rightarrow> MD5Context \<Rightarrow> channel \<times> 'w \<Rightarrow> ((io_exn + MD5Context) \<times> channel \<times> 'w) option" where
  "md5_rest os ctx s = Option.bind (getblock os md5_buffer s) (\<lambda>(r, s).
     case r of Inl e \<Rightarrow> Some (Inl e, s)
     | Inr bs \<Rightarrow> if length bs = 0 then Some (Inr ctx, s) else md5_rest os (MD5Update ctx bs) s)"

partial_function (option) md5_read ::
  "'w os \<Rightarrow> nat \<Rightarrow> MD5Context \<Rightarrow> channel \<times> 'w \<Rightarrow> ((io_exn + MD5Context) \<times> channel \<times> 'w) option" where
  "md5_read os toread ctx s =
     (if 0 < toread
      then Option.bind (getblock os (if md5_buffer < toread then md5_buffer else toread) s) (\<lambda>(r, s).
        case r of Inl e \<Rightarrow> Some (Inl e, s)
        | Inr bs \<Rightarrow> if length bs = 0 then Some (Inl End_of_file, s) else md5_read os (toread - length bs) (MD5Update ctx bs) s)
      else Some (Inr ctx, s))"

definition md5_chan :: "'w os \<Rightarrow> MD5Context \<Rightarrow> int \<Rightarrow> ('w, uint8 list) io" where
  "md5_chan os ctx len s =
     Option.bind (if len < 0 then md5_rest os (MD5Init ctx) s else md5_read os (nat len) (MD5Init ctx) s) (\<lambda>(r, s).
       case r of Inl e \<Rightarrow> Some (Inl e, s) | Inr ctx \<Rightarrow> Some (Inr (MD5Final ctx), s))"

declare md5_rest.simps [code] md5_read.simps [code]

lemma represents_block:
  assumes "represents (take k (drop p F)) ctx" and "bs = take (length bs) (drop (p + k) F)" and "length bs \<le> 4096"
  shows "represents (take (k + length bs) (drop p F)) (MD5Update ctx bs)"
proof -
  have "take (k + length bs) (drop p F) = take k (drop p F) @ bs" unfolding take_add drop_drop add.commute [of k p] assms(2) [symmetric] by (rule refl)
  then show ?thesis using represents_update [OF assms(1), of bs] assms(3) by simp
qed

lemma md5_rest_digests:
  assumes "in_at os F ofs s (p + k)" and "represents (take k (drop p F)) ctx" and "md5_rest os ctx s = Some (r, s')"
  shows "\<exists>j. in_at os F ofs s' (p + j) \<and> (case r of Inl e \<Rightarrow> e \<noteq> End_of_file | Inr ctx' \<Rightarrow> length F \<le> p + j \<and> represents (take j (drop p F)) ctx')"
  using assms(1,2)
proof (induction os ctx s "(r, s')" arbitrary: k r s' rule: md5_rest.raw_induct)
  case (1 mr os ctx s)
  obtain d s1 where d: "getblock os md5_buffer s = Some (d, s1)" using 1(2) by (cases "getblock os md5_buffer s") auto
  note g = getblock_reads [OF 1(3) d]
  show ?case
  proof (cases d)
    case (Inl e)
    then show ?thesis using 1(2) d g by auto
  next
    case (Inr bs)
    show ?thesis
    proof (cases "bs = []")
      case True
      then have "r = Inr ctx" "s' = s1" "length F \<le> p + k" "in_at os F ofs s1 (p + k)" using 1(2) d g Inr by (auto simp: md5_buffer_def)
      then show ?thesis using 1(4) by (intro exI [of _ k]) simp
    next
      case False
      then have m: "mr os (MD5Update ctx bs) s1 = Some (r, s')" using 1(2) d Inr by simp
      have b: "bs = take (length bs) (drop (p + k) F)" "length bs \<le> 4096" "in_at os F ofs s1 (p + (k + length bs))"
        using g Inr by (auto simp: md5_buffer_def add.assoc)
      show ?thesis by (rule 1(1) [OF m b(3) represents_block [OF 1(4) b(1,2)]])
    qed
  qed
qed (rule assms(3))

lemma md5_read_digests:
  assumes "in_at os F ofs s (p + k)" and "represents (take k (drop p F)) ctx" and "k \<le> length F - p" and "md5_read os n ctx s = Some (r, s')"
  shows "case r of Inl e \<Rightarrow> (\<exists>j. in_at os F ofs s' (p + j)) \<and> (e = End_of_file \<longrightarrow> length F < p + k + n)
    | Inr ctx' \<Rightarrow> in_at os F ofs s' (p + k + n) \<and> k + n \<le> length F - p \<and> represents (take (k + n) (drop p F)) ctx'"
  using assms(1-3)
proof (induction os n ctx s "(r, s')" arbitrary: k r s' rule: md5_read.raw_induct)
  case (1 mr os n ctx s)
  show ?case
  proof (cases "0 < n")
    case False
    then show ?thesis using 1(2-) by auto
  next
    case True
    let ?n = "if md5_buffer < n then md5_buffer else n"
    obtain d s1 where d: "getblock os ?n s = Some (d, s1)" using 1(2) True by (cases "getblock os ?n s") auto
    note g = getblock_reads [OF 1(3) d]
    show ?thesis
    proof (cases d)
      case (Inl e)
      then show ?thesis using 1(2) d g True by auto
    next
      case (Inr bs)
      have n: "?n \<le> n" "?n \<noteq> 0" "?n \<le> 4096" using True by (auto simp: md5_buffer_def)
      show ?thesis
      proof (cases "bs = []")
        case True
        then have "r = Inl End_of_file" "s' = s1" using 1(2) \<open>0 < n\<close> d Inr by auto
        then show ?thesis using g Inr True n \<open>0 < n\<close> by auto
      next
        case False
        then have m: "mr os (n - length bs) (MD5Update ctx bs) s1 = Some (r, s')" using 1(2) d Inr \<open>0 < n\<close> by simp
        have b: "bs = take (length bs) (drop (p + k) F)" "length bs \<le> ?n" "in_at os F ofs s1 (p + (k + length bs))"
          using g Inr by (simp_all add: add.assoc)
        have l: "k + length bs \<le> length F - p" using arg_cong [OF b(1), of length] 1(5) False by (cases bs) auto
        have ls: "length bs \<le> n" "length bs \<le> 4096" using b(2) n by linarith+
        from 1(1) [OF m b(3) represents_block [OF 1(4) b(1) ls(2)] l] show ?thesis using ls(1) by (cases r) (auto simp: add.assoc)
      qed
    qed
  qed
qed (rule assms(4))

text \<open>
  C34. The digest of a channel is the RFC 1321 digest of the next \<open>len\<close> bytes of its file, or of all that remain when \<open>len\<close>
  is negative, and the channel stands behind them, however the system cuts the reads; \<open>End_of_file\<close> is raised only when fewer bytes remain.
\<close>

theorem md5_chan_digest:
  assumes "in_at os F ofs s p" and "length (md5_in ctx) = 64" and "md5_chan os ctx len s = Some (r, s')"
  shows "case r of Inl e \<Rightarrow> e = End_of_file \<longrightarrow> 0 \<le> len \<and> length F < p + nat len
    | Inr d \<Rightarrow> if len < 0 then d = md5 (drop p F) \<and> (\<exists>q. in_at os F ofs s' q \<and> length F \<le> q)
                else d = md5 (take (nat len) (drop p F)) \<and> in_at os F ofs s' (p + nat len) \<and> (p + nat len \<le> max p (length F))"
proof -
  have i: "in_at os F ofs s (p + 0)" and re: "represents (take 0 (drop p F)) (MD5Init ctx)" using assms(1) represents_init [OF assms(2)] by simp_all
  show ?thesis
  proof (cases "len < 0")
    case True
    then obtain x s1 where x: "md5_rest os (MD5Init ctx) s = Some (x, s1)" using assms(3)
      by (cases "md5_rest os (MD5Init ctx) s") (auto simp: md5_chan_def)
    obtain j where j: "in_at os F ofs s1 (p + j)" "case x of Inl e \<Rightarrow> e \<noteq> End_of_file | Inr ctx' \<Rightarrow> length F \<le> p + j \<and> represents (take j (drop p F)) ctx'"
      using md5_rest_digests [OF i re x] by blast
    show ?thesis
    proof (cases x)
      case (Inr c)
      then have "r = Inr (MD5Final c)" "s' = s1" using assms(3) True x by (simp_all add: md5_chan_def)
      then show ?thesis using j Inr True MD5Final_rfc [of "take j (drop p F)" c] by auto
    next
      case (Inl e)
      then have "r = Inl e" using assms(3) True x by (simp add: md5_chan_def)
      then show ?thesis using j(2) Inl by simp
    qed
  next
    case False
    then obtain x s1 where x: "md5_read os (nat len) (MD5Init ctx) s = Some (x, s1)" using assms(3)
      by (cases "md5_read os (nat len) (MD5Init ctx) s") (auto simp: md5_chan_def)
    note j = md5_read_digests [OF i re _ x]
    show ?thesis
    proof (cases x)
      case (Inr c)
      then have "r = Inr (MD5Final c)" "s' = s1" using assms(3) False x by (simp_all add: md5_chan_def)
      then show ?thesis using j Inr False MD5Final_rfc [of "take (nat len) (drop p F)" c] by auto
    next
      case (Inl e)
      then have "r = Inl e" using assms(3) False x by (simp add: md5_chan_def)
      then show ?thesis using j Inl False by auto
    qed
  qed
qed

theorem md5_chan_digest_witness:
  "\<exists>d s'. md5_chan demo_os \<lparr>md5_buf = [], md5_bits = (0, 0), md5_in = replicate 64 0\<rparr> 1 (demo_in, [], 2, 0) = Some (Inr d, s') \<and>
     d = md5 [2] \<and> in_at demo_os demo_file (\<lambda>w. fst (snd w)) s' 2"
proof -
  let ?ctx = "\<lparr>md5_buf = [], md5_bits = (0, 0), md5_in = replicate 64 0\<rparr> :: MD5Context"
  have 1: "md5_read demo_os 1 c (demo_in, [], 2, 0) = md5_read demo_os 0 (MD5Update c [2]) (demo_in\<lparr>curr := 2\<rparr>, [], 2, 0)" for c
    by (subst md5_read.simps) (simp add: getblock_def INT_MAX_def md5_buffer_def demo_in_def chan_lim_def numeral_2_eq_2)
  have 2: "md5_read demo_os 0 c t = Some (Inr c, t)" for c t by (subst md5_read.simps) simp
  have g: "md5_chan demo_os ?ctx 1 (demo_in, [], 2, 0) =
      Some (Inr (MD5Final (MD5Update (MD5Init ?ctx) [2])), demo_in\<lparr>curr := 2\<rparr>, [], 2, 0)"
    unfolding md5_chan_def using 1 2 by simp
  have f: "take 1 (drop 1 demo_file) = [2]" by (simp add: demo_file_def)
  show ?thesis using md5_chan_digest [OF demo_in_at _ g] g f by (simp add: numeral_2_eq_2)
qed

end
