(* ===== verification/Mark_Cycle.thy ===== *)
theory Mark_Cycle
  imports Stacks
begin

text \<open>
  What a marking phase achieves.  The collector's iterations are interleaved with stores of the program through the
  write barrier; a block that could be reached when marking began is black when it ends, and the main subphase of marking ends.
\<close>

subsection \<open>The position of a traversal\<close>

text \<open>
  \<open>mark_pos cs s hs ds\<close>: a traversal of the heap is under way and has the headers \<open>hs\<close> of the current chunk and the chunks \<open>ds\<close>
  before it; without a traversal both are empty.
\<close>

definition mark_pos :: "layout \<Rightarrow> 'a gc_scheme \<Rightarrow> addr list \<Rightarrow> layout \<Rightarrow> bool" where
  "mark_pos cs s hs ds \<longleftrightarrow>
     (if markhp s = 0 then hs = [] \<and> ds = []
      else chunk_walk (mem s) (markhp s) (limit s) hs \<and> heap_walk (mem s) (Chunk_next (mem s) (chunk s)) ds \<and>
        set hs \<union> heads ds \<subseteq> heads cs \<and> chunk s - 4 \<in> chunk_words cs \<and> chunk_words ds \<subseteq> chunk_words cs)"

lemma mark_pos_shape:
  assumes "mark_pos cs s hs ds" and "same_gc s t" and sh: "same_shape cs B J s t"
  shows "mark_pos cs t hs ds"
proof (cases "markhp s = 0")
  case False
  have w: "Wosize_hd (mem t h) = Wosize_hd (mem s h)" if "h \<in> heads cs" for h using sh that by (simp add: same_shape_def)
  have c: "mem t a = mem s a" if "a \<in> chunk_words cs" for a using sh that by (simp add: same_shape_def)
  have p: "chunk_walk (mem s) (markhp s) (limit s) hs" "heap_walk (mem s) (Chunk_next (mem s) (chunk s)) ds"
    "set hs \<union> heads ds \<subseteq> heads cs" "chunk s - 4 \<in> chunk_words cs" "chunk_words ds \<subseteq> chunk_words cs"
    using assms(1) False by (simp_all add: mark_pos_def)
  have "chunk_walk (mem t) (markhp s) (limit s) hs" using chunk_walk_shape [OF _ p(1)] w p(3) by blast
  moreover have "heap_walk (mem t) (Chunk_next (mem s) (chunk s)) ds" using heap_walk_shape [OF _ _ p(2)] w c p(3,5) by blast
  moreover have "Chunk_next (mem t) (chunk s) = Chunk_next (mem s) (chunk s)" using c [OF p(4)] by (simp add: Chunk_next_def)
  ultimately show ?thesis using p(3,4,5) False assms(2) by (simp add: mark_pos_def same_gc_def)
qed (use assms in \<open>simp add: mark_pos_def same_gc_def\<close>)

subsection \<open>Weak arrays and finalised values\<close>

definition weak_ok :: "val set \<Rightarrow> val set \<Rightarrow> 'a gc_scheme \<Rightarrow> bool" where
  "weak_ok B W s \<longleftrightarrow> W \<subseteq> B \<and> (\<forall>w \<in> W. \<not> scans s w \<and> 0 < wsz s w \<and> mem s w \<in> insert 0 W) \<and>
     weak_list_head s \<in> insert 0 W \<and> (\<forall>a. weak_prev s = Some a \<longrightarrow> a \<in> W)"

definition finals :: "val set \<Rightarrow> 'a gc_scheme \<Rightarrow> bool" where
  "finals B s \<longleftrightarrow> final_old s \<le> final_active s \<and> final_active s \<le> length (final_table s) \<and>
     (\<forall>i < final_old s. final_val (final_table s ! i) \<in> B \<and> Tag_val (mem s) (final_val (final_table s ! i)) \<noteq> Forward_tag)"

lemma weak_ok_same:
  assumes "heap_ok cs B J s" and "weak_ok B W s" and "same_gc s t" and "same_shape cs B J s t" and "\<And>w. w \<in> W \<Longrightarrow> mem t w = mem s w"
  shows "weak_ok B W t"
  using assms(2,3,5) same_shape_blocks(1,3) [OF assms(1,4)] by (auto simp: weak_ok_def same_gc_def)

lemma finals_same: "heap_ok cs B J s \<Longrightarrow> finals B s \<Longrightarrow> same_gc s t \<Longrightarrow> same_shape cs B J s t \<Longrightarrow> finals B t"
  using same_shape_blocks(2) [of cs B J s t] by (auto simp: finals_def same_gc_def)

text \<open>What a step may do to memory for the weak arrays: their fields only.\<close>

lemma weak_field_put:
  assumes "weak_field cur i cf s = Some t"
  shows "t = s \<or> (\<exists>x. t = put (fld cur i) x s)"
proof (rule weak_field.raw_induct [OF _ assms, where P = "\<lambda>cur i cf s t. t = s \<or> (\<exists>x. t = put (fld cur i) x s)"])
  fix wf cur i cf t and s :: "'a rt_scheme"
  assume IH: "\<And>cur i cf s y. wf cur i cf s = Some y \<Longrightarrow> y = s \<or> (\<exists>x. y = put (fld cur i) x s)"
    and eq: "(if cf \<noteq> 0 \<and> Is_block cf \<and> Is_in_heap s cf
       then if Tag_val (mem s) cf = Forward_tag
            then wf cur i (Forward_val (mem s) cf) (s\<lparr>mem := set_Field cur (word_of_nat i) (Forward_val (mem s) cf) (mem s)\<rparr>)
            else if Color_hd (Hd_val (mem s) cf) = Caml_white then Some (s\<lparr>mem := set_Field cur (word_of_nat i) 0 (mem s)\<rparr>) else Some s
       else Some s) = Some t"
  let ?s = "put (fld cur i) (Forward_val (mem s) cf) s"
  have "s\<lparr>mem := set_Field cur (word_of_nat i) (Forward_val (mem s) cf) (mem s)\<rparr> = ?s" by (simp add: put_def set_Field_def)
  then have "t = s \<or> t = put (fld cur i) 0 s \<or> t = ?s \<or> (\<exists>x. t = put (fld cur i) x ?s)"
    using eq IH [of cur i "Forward_val (mem s) cf" ?s t] by (auto simp: put_def set_Field_def split: if_splits)
  then show "t = s \<or> (\<exists>x. t = put (fld cur i) x s)" by (auto simp: put_def)
qed

lemma not_inner:
  assumes ok: "heap_ok cs B J s" and w: "w \<in> B" "\<not> scans s w" "i < wsz s w"
  shows "fld w i + 4 \<notin> J"
proof
  assume "fld w i + 4 \<in> J"
  then obtain b k where b: "b \<in> B" "scans s b" "k < wsz s b" "fld w i = fld b k"
    using inner_okD(2,3,4) [OF ok] by fastforce
  then show False using heap_okD(8) [OF ok w(1) b(1) w(3) b(3,4)] w(2) by simp
qed

definition weakly :: "val set \<Rightarrow> 'a rt_scheme \<Rightarrow> mem \<Rightarrow> bool" where
  "weakly W s m \<longleftrightarrow> (\<forall>a. m a = mem s a \<or> (\<exists>w \<in> W. \<exists>i < wsz s w. a = fld w i))"

lemma weakly_keeps:
  assumes ok: "heap_ok cs B J s" and W: "W \<subseteq> B" "\<forall>w \<in> W. \<not> scans s w" and m: "weakly W s m" and t: "t = s\<lparr>mem := m\<rparr>"
  shows "same_shape cs B J s t" "heap_ok cs B J t" "b \<in> B \<Longrightarrow> Hd_val m b = Hd_val (mem s) b"
    "b \<in> B \<Longrightarrow> scans s b \<Longrightarrow> k < wsz s b \<Longrightarrow> m (fld b k) = mem s (fld b k)"
    "gray_ok B P s \<Longrightarrow> gray_ok B P t"
proof -
  have out: "m a = mem s a" if "\<And>w i. w \<in> W \<Longrightarrow> i < wsz s w \<Longrightarrow> a \<noteq> fld w i" for a using m that unfolding weakly_def by blast
  have nh: "fld w i \<notin> heads cs \<union> chunk_words cs" if "w \<in> W" "i < wsz s w" for w i
    using heap_okD(6,7) [OF ok, of w i] that W(1) by auto
  have oh: "m a = mem s a" if "a \<in> heads cs \<union> chunk_words cs" for a using out nh that by metis
  show h: "Hd_val m b = Hd_val (mem s) b" if "b \<in> B" for b
    using oh heap_okD(1) [OF ok that] by (simp add: Hd_val_def)
  show f: "m (fld b k) = mem s (fld b k)" if "b \<in> B" "scans s b" "k < wsz s b" for b k
  proof (rule out, rule notI)
    fix w i assume w: "w \<in> W" "i < wsz s w" "fld b k = fld w i"
    then have "b = w" using heap_okD(8) [OF ok that(1) _ that(3) w(2,3)] W(1) by blast
    then show False using bspec [OF W(2) w(1)] that(2) by simp
  qed
  have "m (c - 4) = mem s (c - 4)" if "c \<in> J" for c
  proof (rule out, rule notI)
    fix w i assume w: "w \<in> W" "i < wsz s w" "c - 4 = fld w i"
    then have "fld w i + 4 = c" by (simp flip: w(3))
    then show False using not_inner [OF ok _ bspec [OF W(2) w(1)] w(2)] w(1) W(1) that by auto
  qed
  then show sh: "same_shape cs B J s t" using oh t by (simp add: same_shape_def)
  show "heap_ok cs B J t"
  proof (rule heap_ok_shape [OF ok sh])
    show "colour t b \<noteq> Caml_blue" if "b \<in> B" for b using h [OF that] heap_okD(4) [OF ok that] t by simp
    show "mem t (fld b k) \<in> B \<union> J" if "b \<in> B" "scans s b" "k < wsz s b" "in_heap s (mem t (fld b k))" for b k
      using that f [OF that(1,2,3)] heap_okD(12) [OF ok that(1,2,3)] t by simp
  qed
  show "gray_ok B P t" if "gray_ok B P s" using that h t by (auto simp: gray_ok_def)
qed

lemma weakly_safe:
  assumes ok: "heap_ok cs B J s" and W: "W \<subseteq> B" "\<forall>w \<in> W. \<not> scans s w" and m: "weakly W s m" and t: "t = s\<lparr>mem := m\<rparr>"
    and b: "safe B s b"
  shows "safe B t b"
proof -
  note k = weakly_keeps [OF ok W m t]
  have c: "colour t a = colour s a" if "a \<in> B" for a using k(3) [OF that] t by simp
  have e: "edge t a x" if "a \<in> B" "edge s a x" for a x
  proof -
    have "scans s a" using that(2) by (simp add: edge_def)
    then show ?thesis using edge_same [OF ok k(1) that(1)] k(4) [OF that(1)] that(2) t by simp
  qed
  show ?thesis by (rule safe_mono [OF _ _ _ b]) (use c e heap_okD(4) [OF ok] in auto)
qed

lemma weak_fields_put:
  "weak_fields cur is s = Some t \<Longrightarrow> \<exists>m. t = s\<lparr>mem := m\<rparr> \<and> (\<forall>a. m a = mem s a \<or> (\<exists>i \<in> set is. a = fld cur i))"
proof (induction "is" arbitrary: s)
  case (Cons i "is")
  obtain u where u: "weak_field cur i (Field (mem s) cur (word_of_nat i)) s = Some u" "weak_fields cur is u = Some t"
    using Cons.prems by (auto split: option.splits)
  obtain m where m: "t = u\<lparr>mem := m\<rparr>" "\<And>a. m a = mem u a \<or> (\<exists>i \<in> set is. a = fld cur i)" using Cons.IH [OF u(2)] by blast
  have "u = s \<or> (\<exists>x. u = put (fld cur i) x s)" by (rule weak_field_put [OF u(1)])
  then have "t = s\<lparr>mem := m\<rparr>" "\<And>a. mem u a = mem s a \<or> a = fld cur i" using m(1) by (auto simp: put_def)
  then show ?case using m(2) by (intro exI [of _ m]) (metis list.set_intros)
next
  case Nil
  then show ?case by (intro exI [of _ "mem s"]) simp
qed

lemma weak_head: "fld w 0 = w" by simp

subsection \<open>Finalised values\<close>

definition refiled :: "val set \<Rightarrow> 'a gc_scheme \<Rightarrow> 'a gc_scheme \<Rightarrow> bool" where
  "refiled B s t \<longleftrightarrow> t = s\<lparr>final_table := final_table t, final_old := final_old t, final_active := final_active t\<rparr> \<and>
     finals B t \<and> final_active t \<le> final_active s \<and>
     (\<forall>k. final_active t \<le> k \<and> k < final_active s \<longrightarrow> final_val (final_table t ! k) \<in> B) \<and>
     (\<forall>k \<ge> final_active s. final_table t ! k = final_table s ! k)"

lemma final_scan_ok:
  assumes "finals B s"
  shows "\<exists>t. final_scan i s = Some t \<and> refiled B s t"
  using assms
proof (induction "final_old s - i" arbitrary: i s rule: less_induct)
  case less
  show ?case
  proof (cases "i < final_old s")
    case False
    then have "final_scan i s = Some s" by (subst final_scan.simps) simp
    then show ?thesis using less.prems by (auto simp: refiled_def)
  next
    case True
    let ?f = "final_table s ! i"
    have F: "final_val ?f \<in> B" "Tag_val (mem s) (final_val ?f) \<noteq> Forward_tag" "final_old s \<le> final_active s"
      "final_active s \<le> length (final_table s)" using less.prems True by (auto simp: finals_def)
    show ?thesis
    proof (cases "colour s (final_val ?f) = Caml_white")
      case False
      then have "final_scan i s = final_scan (i + 1) s" using True by (subst final_scan.simps) (simp add: Let_def)
      then show ?thesis using less.hyps [of s "i + 1"] True less.prems by auto
    next
      case w: True
      let ?T = "(final_table s)[i := final_table s ! (final_old s - 1), final_active s - 1 := ?f]"
      let ?u = "s\<lparr>final_table := ?T, final_old := final_old s - 1, final_active := final_active s - 1\<rparr>"
      have eq: "final_scan i s = final_scan i ?u" using True w F(2) by (subst final_scan.simps) (simp add: Let_def)
      have u: "finals B ?u" unfolding finals_def
      proof (intro conjI allI impI)
        fix k assume k: "k < final_old ?u"
        then have "?T ! k = final_table s ! k \<or> ?T ! k = final_table s ! (final_old s - 1)" using True F(3,4) by (auto simp: nth_list_update)
        then show "final_val (final_table ?u ! k) \<in> B" "Tag_val (mem ?u) (final_val (final_table ?u ! k)) \<noteq> Forward_tag"
          using less.prems k True by (auto simp: finals_def)
      qed (use F(3,4) in auto)
      have "final_old ?u - i < final_old s - i" using True by simp
      then obtain t where t: "final_scan i ?u = Some t" "refiled B ?u t" using less.hyps u by blast
      have last: "final_table t ! (final_active s - 1) = ?f" and old: "\<forall>k \<ge> final_active s. final_table t ! k = final_table s ! k"
        using t(2) F(3,4) True by (auto simp: refiled_def nth_list_update)
      have new: "final_val (final_table t ! k) \<in> B" if "final_active t \<le> k" "k < final_active s" for k
        using that t(2) last F(1) by (cases "k = final_active s - 1") (auto simp: refiled_def)
      have "t = ?u\<lparr>final_table := final_table t, final_old := final_old t, final_active := final_active t\<rparr>"
        using t(2) unfolding refiled_def by (rule conjunct1)
      moreover have "?u\<lparr>final_table := x, final_old := y, final_active := z\<rparr> = s\<lparr>final_table := x, final_old := y, final_active := z\<rparr>" for x y z
        by simp
      ultimately have "t = s\<lparr>final_table := final_table t, final_old := final_old t, final_active := final_active t\<rparr>" by metis
      then show ?thesis using t eq old new by (auto simp: refiled_def)
    qed
  qed
qed

lemma fold_darken:
  assumes "heap_ok cs B J t" and "gray_ok B P t" and "\<forall>i \<in> set is. final_val (final_table t ! i) \<in> B"
  shows "darkens B t (fold (\<lambda>i u. darken (final_val (final_table u ! i)) u) is t) \<and>
    gray_ok B P (fold (\<lambda>i u. darken (final_val (final_table u ! i)) u) is t)"
  using assms
proof (induction "is" arbitrary: t)
  case (Cons i "is")
  let ?v = "final_val (final_table t ! i)"
  have v: "in_heap t ?v \<longrightarrow> darken_base (mem t) ?v \<in> B" using base_block [OF Cons.prems(1)] Cons.prems(3) by simp
  note d = darken_keeps [OF v]
  have "final_table (darken ?v t) = final_table t" using d(1) by (simp add: darkens_def same_gc_def)
  then show ?case using Cons.IH [OF heap_ok_darkens [OF Cons.prems(1) d(1)] d(2) [OF Cons.prems(2)]] Cons.prems(3) darkens_trans [OF d(1)] by simp
qed simp

subsection \<open>The invariant of marking\<close>

definition mark_inv :: "layout \<Rightarrow> val set \<Rightarrow> val set \<Rightarrow> val set \<Rightarrow> 'a gc_scheme \<Rightarrow> addr list \<Rightarrow> layout \<Rightarrow> bool" where
  "mark_inv cs B J W s hs ds \<longleftrightarrow> gc_phase s = Phase_mark \<and> heap_ok cs B J s \<and> weak_ok B W s \<and> finals B s \<and>
     mark_pos cs s hs ds \<and> gray_ok B (set hs \<union> heads ds) s"

text \<open>A step within marking keeps the invariant and everything that is safe.\<close>

definition kept :: "layout \<Rightarrow> val set \<Rightarrow> val set \<Rightarrow> val set \<Rightarrow> 'a gc_scheme \<Rightarrow> 'a gc_scheme \<Rightarrow> bool" where
  "kept cs B J W s t \<longleftrightarrow> (\<exists>hs ds. mark_inv cs B J W t hs ds) \<and> (\<forall>b. safe B s b \<longrightarrow> safe B t b)"

lemma inv_same:
  assumes "mark_inv cs B J W s hs ds" and "same_gc s t" and "same_shape cs B J s t" and "heap_ok cs B J t"
    and "gray_ok B (set hs \<union> heads ds) t" and "\<And>w. w \<in> W \<Longrightarrow> mem t w = mem s w"
  shows "mark_inv cs B J W t hs ds"
  using assms(1) assms(2,4,5) weak_ok_same [OF _ _ assms(2,3,6), of W] finals_same [OF _ _ assms(2,3)] mark_pos_shape [OF _ assms(2,3)]
  by (auto simp: mark_inv_def same_gc_def)

lemma weak_fld: "heap_ok cs B J s \<Longrightarrow> weak_ok B W s \<Longrightarrow> w \<in> W \<Longrightarrow> w \<in> B \<and> \<not> scans s w \<and> 0 < wsz s w"
  by (auto simp: weak_ok_def)

lemma weak_unchanged:
  assumes ok: "heap_ok cs B J s" and "weak_ok B W s" and "w \<in> W" and "b \<in> B" and "i < wsz s b" and "fld b i \<noteq> w \<or> scans s b"
    and "\<And>a. a \<noteq> fld b i \<Longrightarrow> m a = mem s a"
  shows "m w = mem s w"
proof -
  have w: "w \<in> B" "\<not> scans s w" "0 < wsz s w" using weak_fld [OF assms(1,2,3)] by auto
  have "fld b i \<noteq> w"
  proof
    assume "fld b i = w"
    then have "b = w" using heap_okD(8) [OF ok assms(4) w(1) assms(5) w(3)] by simp
    then show False using assms(6) w(2) \<open>fld b i = w\<close> by simp
  qed
  then show ?thesis using assms(7) by metis
qed

lemma iter_pop:
  assumes inv: "mark_inv cs B J W s hs ds" and ne: "gray_vals s \<noteq> []"
  shows "kept cs B J W s (mark_block (last (gray_vals s)) (s\<lparr>gray_vals := butlast (gray_vals s)\<rparr>))"
proof -
  have ok: "heap_ok cs B J s" and st: "gray_ok B (set hs \<union> heads ds) s" and w: "weak_ok B W s" using inv by (auto simp: mark_inv_def)
  note k = mark_block_keeps [OF ok st ne refl refl]
  have "mem (mark_block (last (gray_vals s)) (s\<lparr>gray_vals := butlast (gray_vals s)\<rparr>)) v = mem s v" if "v \<in> W" for v
    using k(10) [of v 0] weak_fld [OF ok w that] by simp
  then have "mark_inv cs B J W (mark_block (last (gray_vals s)) (s\<lparr>gray_vals := butlast (gray_vals s)\<rparr>)) hs ds"
    by (intro inv_same [OF inv k(3,4,1,2)])
  then show ?thesis using k(5) unfolding kept_def by blast
qed

lemma safe_mem:
  assumes "heap_ok cs B J s" and m: "mem t = mem s" "Is_in_heap t = Is_in_heap s" and b: "safe B s b"
  shows "safe B t b"
proof -
  have "edge t = edge s" by (intro ext) (simp add: edge_def scans_def in_heap_def m)
  then show ?thesis by (intro safe_mono [OF _ _ _ b]) (use heap_okD(4) [OF assms(1)] m in auto)
qed

text \<open>What is left of a traversal: blocks, chunks and the end.\<close>

definition todo :: "'a gc_scheme \<Rightarrow> addr list \<Rightarrow> layout \<Rightarrow> nat" where
  "todo s hs ds = length hs + length (concat (map snd ds)) + length ds + (if markhp s = 0 then 0 else 1)"

lemma iter_traverse:
  assumes inv: "mark_inv cs B J W s hs ds" and e: "gray_vals s = []" and m: "markhp s \<noteq> 0" and it: "mark_iter s w = Some (t, w')"
  shows "kept cs B J W s t \<and> w' = w \<and> (\<exists>hs' ds'. mark_inv cs B J W t hs' ds' \<and> mem t = mem s \<and> gc_subphase t = gc_subphase s \<and>
    heap_is_pure t = heap_is_pure s \<and> todo t hs' ds' < todo s hs ds)"
proof -
  have pos: "chunk_walk (mem s) (markhp s) (limit s) hs" "heap_walk (mem s) (Chunk_next (mem s) (chunk s)) ds"
    "set hs \<union> heads ds \<subseteq> heads cs" "chunk s - 4 \<in> chunk_words cs" "chunk_words ds \<subseteq> chunk_words cs"
    using inv m by (auto simp: mark_inv_def mark_pos_def)
  have st: "gray_ok B (set hs \<union> heads ds) s" using inv by (simp add: mark_inv_def)
  have ok: "heap_ok cs B J s" using inv by (simp add: mark_inv_def)
  have pres: "kept cs B J W s u" if "mark_inv cs B J W u hs' ds'" "mem u = mem s" "Is_in_heap u = Is_in_heap s" for u hs' ds'
    using that safe_mem [OF ok that(2,3)] unfolding kept_def by blast
  show ?thesis
  proof (cases "markhp s = limit s")
    case True
    have hs: "hs = []" using pos(1) True by (cases hs) auto
    let ?c = "Chunk_next (mem s) (chunk s)"
    show ?thesis
    proof (cases "?c = 0")
      case c: True
      then have ds: "ds = []" using pos(2) by (cases ds) auto
      have t: "t = s\<lparr>chunk := 0, markhp := 0\<rparr>" "w' = w" using it e m True c by (auto simp: mark_iter_def Let_def)
      have i: "mark_inv cs B J W t [] []"
        using inv hs ds t(1) by (auto simp: mark_inv_def mark_pos_def heap_ok_def block_ok_def inner_ok_def scans_def in_heap_def
            weak_ok_def finals_def gray_ok_def Is_in_heap_def)
      have "todo t [] [] < todo s hs ds" using t(1) m by (simp add: todo_def)
      moreover have "kept cs B J W s t" using pres [OF i] t(1) by (simp add: Is_in_heap_def fun_eq_iff)
      ultimately show ?thesis using i t by (intro conjI exI [of _ "[]"]) simp_all
    next
      case c: False
      obtain d k ds' where ds: "ds = (d, k) # ds'" using pos(2) c by (cases ds) auto
      have t: "t = s\<lparr>chunk := ?c, markhp := ?c, limit := ?c + Chunk_size (mem s) ?c\<rparr>" "w' = w"
        using it e m True c by (auto simp: mark_iter_def Let_def)
      have i: "mark_inv cs B J W t k ds'"
        using inv hs ds t(1) c pos by (auto simp: mark_inv_def mark_pos_def heap_ok_def block_ok_def inner_ok_def scans_def in_heap_def
            weak_ok_def finals_def gray_ok_def Is_in_heap_def)
      have "todo t k ds' < todo s hs ds" using t(1) m c ds hs by (simp add: todo_def)
      moreover have "kept cs B J W s t" using pres [OF i] t(1) by (simp add: Is_in_heap_def fun_eq_iff)
      ultimately show ?thesis using i t by (intro conjI exI [of _ k] exI [of _ ds']) simp_all
    qed
  next
    case False
    obtain hs' where hs: "hs = markhp s # hs'" "chunk_walk (mem s) (markhp s + Bhsize_hd (mem s (markhp s))) (limit s) hs'"
      using pos(1) False by (cases hs) auto
    let ?v = "Val_hp (markhp s)"
    let ?g = "if colour s ?v = Caml_gray then [?v] else []"
    have t: "t = s\<lparr>gray_vals := ?g, markhp := markhp s + Bhsize_hd (mem s (markhp s))\<rparr>" "w' = w"
      using it e m False by (auto simp: mark_iter_def Let_def)
    have v: "?v - 4 = markhp s" by (simp add: Val_hp_def)
    have inB: "?v \<in> B" if "colour s ?v = Caml_gray"
      using heap_okD(13) [OF ok, of "markhp s"] that pos(3) hs by (simp add: Val_hp_def Hd_val_def)
    have stt: "gray_ok B (set hs' \<union> heads ds) t"
    proof -
      have "b \<in> set ?g \<or> \<not> heap_is_pure s \<or> b - 4 \<in> set hs' \<union> heads ds" if "b \<in> B" "colour s b = Caml_gray" for b
      proof (cases "b = ?v")
        case False
        then have "b - 4 \<noteq> markhp s" by (auto simp: Val_hp_def diff_eq_eq)
        then show ?thesis using st that e hs by (auto simp: gray_ok_def)
      qed (use that in simp)
      then show ?thesis using st inB t(1) by (auto simp: gray_ok_def)
    qed
    have nz: "markhp t \<noteq> 0" using hs(2) t(1) by (cases hs') auto
    have i: "mark_inv cs B J W t hs' ds"
      using inv hs t(1) pos nz stt by (auto simp: mark_inv_def mark_pos_def heap_ok_def block_ok_def inner_ok_def scans_def in_heap_def
            weak_ok_def finals_def Is_in_heap_def)
    have "todo t hs' ds < todo s hs ds" using m nz hs by (simp add: todo_def)
    moreover have "kept cs B J W s t" using pres [OF i] t(1) by (simp add: Is_in_heap_def fun_eq_iff)
    ultimately show ?thesis using i t by (intro conjI exI [of _ hs'] exI [of _ ds]) simp_all
  qed
qed

lemmas inv_unfold = mark_inv_def mark_pos_def heap_ok_def block_ok_def inner_ok_def scans_def in_heap_def weak_ok_def finals_def
  gray_ok_def Is_in_heap_def

lemma iter_restart:
  assumes inv: "mark_inv cs B J W s hs ds" and e: "gray_vals s = []" and m: "markhp s = 0" and p: "\<not> heap_is_pure s"
    and it: "mark_iter s w = Some (t, w')"
  shows "kept cs B J W s t \<and> w' = w \<and> (\<exists>hs' ds'. mark_inv cs B J W t hs' ds') \<and> mem t = mem s \<and> gc_subphase t = gc_subphase s \<and>
    heap_is_pure t"
proof -
  have ok: "heap_ok cs B J s" using inv by (simp add: mark_inv_def)
  let ?h = "heap_start s"
  have t: "t = s\<lparr>heap_is_pure := True, chunk := ?h, markhp := ?h, limit := ?h + Chunk_size (mem s) ?h\<rparr>" "w' = w"
    using it e m p by (auto simp: mark_iter_def)
  have gray: "b - 4 \<in> heads cs" if "b \<in> B" for b using heap_okD(1) [OF ok that] .
  obtain hs' ds' where i: "mark_inv cs B J W t hs' ds'"
  proof (cases cs)
    case Nil
    then have "?h = 0" using heap_okD(10) [OF ok] by simp
    then have "mark_inv cs B J W t [] []" using inv gray t(1) Nil e by (auto simp: inv_unfold)
    then show thesis by (rule that)
  next
    case (Cons c ds')
    obtain d hs' where c: "c = (d, hs')" by fastforce
    have "mark_inv cs B J W t hs' ds'"
      using inv gray t(1) Cons c heap_okD(10) [OF ok] by (auto simp: inv_unfold)
    then show thesis by (rule that)
  qed
  have "safe B t b" if "safe B s b" for b
    by (rule safe_mem [OF ok _ _ that]) (simp_all add: t(1) Is_in_heap_def fun_eq_iff)
  then show ?thesis using i t unfolding kept_def by auto
qed

lemma weak_iter:
  assumes inv: "mark_inv cs B J W s hs ds" and c: "cur = weak_cur s" "cur \<noteq> 0" and t: "weak_array cur (Hd_val (mem s) cur) s = Some t"
  shows "kept cs B J W s t"
proof -
  have ok: "heap_ok cs B J s" and w: "weak_ok B W s" using inv by (auto simp: mark_inv_def)
  have W: "W \<subseteq> B" "\<forall>w \<in> W. \<not> scans s w" "cur \<in> W" using w c by (auto simp: weak_ok_def weak_cur_def split: option.splits)
  have cur: "mem s cur \<in> insert 0 W" using w W(3) by (auto simp: weak_ok_def)
  obtain m u where m: "weakly W s m" "\<And>x. x \<in> W \<Longrightarrow> m x \<in> insert 0 W" and u: "u = s\<lparr>mem := m\<rparr>"
    and t': "t = u \<or> t = u\<lparr>weak_list_head := mem s cur\<rparr> \<or> t = u\<lparr>weak_prev := Some cur\<rparr>"
  proof (cases "colour s cur = Caml_white")
    case True
    then have t1: "t = set_weak_cur (mem s cur) s" using t by (simp add: weak_array_def Field_def)
    show thesis
    proof (cases "weak_prev s")
      case None
      then have "t = (s\<lparr>mem := mem s\<rparr>)\<lparr>weak_list_head := mem s cur\<rparr>" using t1 by (simp add: set_weak_cur_def)
      moreover have "\<forall>x \<in> W. mem s x \<in> insert 0 W" using w by (simp add: weak_ok_def)
      ultimately show thesis by (intro that [of "mem s" "s\<lparr>mem := mem s\<rparr>"]) (auto simp: weakly_def)
    next
      case (Some a)
      then have a: "a \<in> W" "t = s\<lparr>mem := (mem s)(a := mem s cur)\<rparr>" using t1 w by (auto simp: set_weak_cur_def weak_ok_def)
      then have "a = fld a 0" "0 < wsz s a" using w by (auto simp: weak_ok_def)
      then have "weakly W s ((mem s)(a := mem s cur))" using a(1) unfolding weakly_def by (metis fun_upd_apply)
      moreover have "\<forall>x \<in> W. ((mem s)(a := mem s cur)) x \<in> insert 0 W" using w cur by (simp add: weak_ok_def)
      ultimately show thesis using a(2) by (intro that [of "(mem s)(a := mem s cur)" t]) auto
    qed
  next
    case False
    let ?is = "[1..<unat (Wosize_hd (Hd_val (mem s) cur))]"
    obtain v where v: "weak_fields cur ?is s = Some v" "t = v\<lparr>weak_prev := Some cur\<rparr>"
      using t False by (auto simp: weak_array_def split: option.splits)
    obtain m where m: "v = s\<lparr>mem := m\<rparr>" "\<And>a. m a = mem s a \<or> (\<exists>i \<in> set ?is. a = fld cur i)" using weak_fields_put [OF v(1)] by blast
    have wk: "weakly W s m" unfolding weakly_def using m(2) W(3) by (fastforce simp: Wosize_val_def)
    have "m x = mem s x" if x: "x \<in> W" for x
    proof -
      have "x \<noteq> fld cur i" if "i \<in> set ?is" for i
      proof
        assume "x = fld cur i"
        moreover have "i < wsz s cur" "0 < wsz s x" using that w x by (auto simp: Wosize_val_def weak_ok_def)
        ultimately have "0 = i" using heap_okD(8) [OF ok, of x cur 0 i] x W by auto
        then show False using that by simp
      qed
      then show ?thesis using m(2) by blast
    qed
    then have "\<And>x. x \<in> W \<Longrightarrow> m x \<in> insert 0 W" using w by (simp add: weak_ok_def)
    then show thesis using that [OF wk _ m(1)] v(2) by blast
  qed
  note k = weakly_keeps [OF ok W(1,2) m(1) u]
  have g: "same_gc s u" using u by (simp add: same_gc_def)
  have bl: "\<And>b. b \<in> B \<Longrightarrow> wsz u b = wsz s b" "\<And>b. b \<in> B \<Longrightarrow> scans u b = scans s b" using same_shape_blocks(1,3) [OF ok k(1)] by auto
  have wk: "weak_ok B W u" "weak_ok B W (u\<lparr>weak_list_head := mem s cur\<rparr>)" "weak_ok B W (u\<lparr>weak_prev := Some cur\<rparr>)"
    using w m(2) bl W cur u by (auto simp: weak_ok_def scans_def subset_iff)
  have i: "heap_ok cs B J u" "finals B u" "mark_pos cs u hs ds" "gray_ok B (set hs \<union> heads ds) u" "gc_phase u = Phase_mark"
    using inv k(2,5) finals_same [OF ok _ g k(1)] mark_pos_shape [OF _ g k(1)] g by (auto simp: mark_inv_def same_gc_def)
  have mt: "mem t = mem u" "Is_in_heap t = Is_in_heap u" using t' by (auto simp: Is_in_heap_def fun_eq_iff)
  have "mark_inv cs B J W t hs ds" using t' i wk by (elim disjE) (auto simp: inv_unfold)
  moreover have "safe B t b" if "safe B s b" for b
    by (rule safe_mem [OF k(2) mt weakly_safe [OF ok W(1,2) m(1) u that]])
  ultimately show ?thesis unfolding kept_def by blast
qed

lemma final_iter:
  assumes inv: "mark_inv cs B J W s hs ds" and t: "final_update s = Some t"
  shows "kept cs B J W s (t\<lparr>gc_subphase := Subphase_final\<rparr>)"
proof -
  have ok: "heap_ok cs B J s" and f: "finals B s" using inv by (auto simp: mark_inv_def)
  obtain u where u: "final_scan 0 s = Some u" "refiled B s u" using final_scan_ok [OF f] by blast
  let ?u = "u\<lparr>final_young := final_old u\<rparr>"
  let ?is = "[final_active u..<final_active s]"
  obtain T old act where ueq: "u = s\<lparr>final_table := T, final_old := old, final_active := act\<rparr>" using u(2) unfolding refiled_def by blast
  have teq: "t = fold (\<lambda>i u. darken (final_val (final_table u ! i)) u) ?is ?u"
    using t u(1) by (simp add: final_update_def Let_def)
  have i: "mark_inv cs B J W ?u hs ds"
  proof -
    have "finals B u" using u(2) by (simp add: refiled_def)
    then show ?thesis using inv ueq by (auto simp: inv_unfold)
  qed
  have oku: "heap_ok cs B J ?u" and st: "gray_ok B (set hs \<union> heads ds) ?u" using i by (auto simp: mark_inv_def)
  have v: "\<forall>i \<in> set ?is. final_val (final_table ?u ! i) \<in> B" using u(2) by (simp add: refiled_def)
  note d = fold_darken [OF oku st v, folded teq]
  have d1: "darkens B ?u t" and d2: "gray_ok B (set hs \<union> heads ds) t" using d by auto
  have wf: "mem t w = mem ?u w" if "w \<in> W" for w
    using darkens_fields [OF oku d1, of w 0] that i by (auto simp: mark_inv_def weak_ok_def)
  have gt: "same_gc ?u t" using d1 by (simp add: darkens_def)
  have it: "mark_inv cs B J W t hs ds" by (rule inv_same [OF i gt darkens_shape [OF oku d1] heap_ok_darkens [OF oku d1] d2 wf])
  then have "mark_inv cs B J W (t\<lparr>gc_subphase := Subphase_final\<rparr>) hs ds" by (auto simp: inv_unfold)
  moreover have "safe B (t\<lparr>gc_subphase := Subphase_final\<rparr>) b" if "safe B s b" for b
  proof -
    have m: "mem ?u = mem s" "Is_in_heap ?u = Is_in_heap s" by (simp_all add: ueq Is_in_heap_def fun_eq_iff)
    have "safe B t b" by (rule safe_darkens [OF oku d1 safe_mem [OF ok m that]])
    then show ?thesis by (rule safe_mem [OF heap_ok_darkens [OF oku d1], rotated 2]) (simp_all add: Is_in_heap_def fun_eq_iff)
  qed
  ultimately show ?thesis unfolding kept_def by blast
qed

subsection \<open>Iterations\<close>

definition swept_ready :: "val set \<Rightarrow> 'a gc_scheme \<Rightarrow> 'a gc_scheme \<Rightarrow> bool" where
  "swept_ready B s t \<longleftrightarrow> gc_phase t = Phase_sweep \<and> (\<forall>b. safe B s b \<longrightarrow> colour t b = Caml_black)"

lemma no_gray_left:
  assumes "mark_inv cs B J W s hs ds" and "gray_vals s = []" and "markhp s = 0" and "heap_is_pure s" and "b \<in> B"
  shows "colour s b \<noteq> Caml_gray"
  using assms by (auto simp: mark_inv_def mark_pos_def gray_ok_def)

lemma mark_iter_kept:
  assumes inv: "mark_inv cs B J W s hs ds" and it: "mark_iter s w = Some (t, w')"
  shows "kept cs B J W s t \<or> swept_ready B s t"
proof (cases "gray_vals s = []")
  case False
  then have "t = mark_block (last (gray_vals s)) (s\<lparr>gray_vals := butlast (gray_vals s)\<rparr>)"
    using it by (auto simp: mark_iter_def Let_def)
  then show ?thesis using iter_pop [OF inv False] by simp
next
  case e: True
  have ok: "heap_ok cs B J s" using inv by (simp add: mark_inv_def)
  consider "markhp s \<noteq> 0" | "markhp s = 0" "\<not> heap_is_pure s" | "markhp s = 0" "heap_is_pure s" by blast
  then show ?thesis
  proof cases
    case 1 then show ?thesis using iter_traverse [OF inv e _ it] by blast
  next
    case 2 then show ?thesis using iter_restart [OF inv e 2 it] by blast
  next
    case 3
    show ?thesis
    proof (cases "gc_subphase s")
      case Subphase_main
      then have t: "t = s\<lparr>gc_subphase := Subphase_weak, weak_prev := None\<rparr>" using it e 3 by (simp add: mark_iter_def)
      have "mark_inv cs B J W t hs ds" using inv t by (auto simp: inv_unfold)
      moreover have "safe B t b" if "safe B s b" for b
        by (rule safe_mem [OF ok _ _ that]) (simp_all add: t Is_in_heap_def fun_eq_iff)
      ultimately show ?thesis unfolding kept_def by blast
    next
      case Subphase_weak
      then show ?thesis using it e 3 weak_iter [OF inv refl] final_iter [OF inv]
        by (auto simp: mark_iter_def Let_def split: option.splits if_splits)
    next
      case Subphase_final
      then have t: "mem t = mem s" "gc_phase t = Phase_sweep" using it e 3 by (auto simp: mark_iter_def Let_def fl_init_merge_def)
      have "colour s b = Caml_black" if "safe B s b" for b
        by (rule no_gray_black [OF that]) (use no_gray_left [OF inv e 3] heap_okD(4) [OF ok] in auto)
      then show ?thesis using t by (simp add: swept_ready_def)
    qed
  qed
qed

subsection \<open>Stores of the program\<close>

lemma add_to_ref_table_gc:
  "same_gc s (add_to_ref_table fp s)" "gray_vals (add_to_ref_table fp s) = gray_vals s"
  "gray_vals_size (add_to_ref_table fp s) = gray_vals_size s" "heap_is_pure (add_to_ref_table fp s) = heap_is_pure s"
  by (auto simp: add_to_ref_table_def Let_def realloc_ref_table_def urge_major_slice_def same_gc_def Is_in_heap_def)

lemma inv_ref_table:
  assumes "mark_inv cs B J W s hs ds" shows "mark_inv cs B J W (add_to_ref_table fp s) hs ds"
proof -
  let ?t = "add_to_ref_table fp s"
  have sh: "same_shape cs B J s ?t" using add_to_ref_table_gc(1) [of s fp] by (simp add: same_shape_def same_gc_def)
  have ok: "heap_ok cs B J s" using assms by (simp add: mark_inv_def)
  have "heap_ok cs B J ?t" by (rule heap_ok_shape [OF ok sh]) (use heap_okD(4,12) [OF ok] in auto)
  moreover have "gray_ok B (set hs \<union> heads ds) ?t" using assms by (simp add: mark_inv_def gray_ok_def add_to_ref_table_gc)
  ultimately show ?thesis using inv_same [OF assms add_to_ref_table_gc(1) sh] by simp
qed

lemma modify_kept:
  assumes inv: "mark_inv cs B J W s hs ds" and b: "b \<in> B" "scans s b" "i < wsz s b" "Is_in_heap s (fld b i)"
    and j: "fld b i + 4 \<notin> J" and x: "in_heap s x \<longrightarrow> x \<in> B \<union> J"
  shows "kept cs B J W s (Modify (fld b i) x s)"
proof -
  have ok: "heap_ok cs B J s" and st: "gray_ok B (set hs \<union> heads ds) s" and w: "weak_ok B W s" and ph: "gc_phase s = Phase_mark"
    using inv by (auto simp: mark_inv_def)
  let ?old = "mem s (fld b i)" and ?s1 = "put (fld b i) x s"
  note p = put_keeps [OF ok b(1,3) j] x
  have ok1: "heap_ok cs B J ?s1" and sh1: "same_shape cs B J s ?s1" using put_keeps(1,2) [OF ok b(1,3) j] x by auto
  have base: "darken_base (mem ?s1) ?old = darken_base (mem s) ?old" "darken_base (mem s) ?old \<in> B" if "in_heap s ?old"
    using heap_okD(12) [OF ok b(1,2,3) that] same_shape_blocks(5) [OF ok sh1] base_in [OF ok] by blast+
  let ?s2 = "darken ?old ?s1"
  have inB: "in_heap ?s1 ?old \<longrightarrow> darken_base (mem ?s1) ?old \<in> B" using base by simp
  note d = darken_keeps [OF inB]
  have h1: "Hd_val (mem ?s1) a = Hd_val (mem s) a" if "a \<in> B" for a using put_keeps(3) [OF ok b(1,3) j _ that] x by blast
  have f1: "mem ?s1 (fld a k) = (if a = b \<and> k = i then x else mem s (fld a k))" if "a \<in> B" "k < wsz s a" for a k
    using put_keeps(4) [OF ok b(1,3) j _ that] x by blast
  have st1: "gray_ok B (set hs \<union> heads ds) ?s1" using put_keeps(5) [OF ok b(1,3) j _ st] x by blast
  have w1: "mem ?s1 v = mem s v" if "v \<in> W" for v
    by (rule weak_unchanged [OF ok w that b(1,3)]) (use b(2) in auto)
  have i1: "mark_inv cs B J W ?s1 hs ds" by (rule inv_same [OF inv put_same_gc sh1 ok1 st1 w1])
  have w2: "mem ?s2 v = mem ?s1 v" if "v \<in> W" for v
    using darkens_fields [OF ok1 d(1), of v 0] weak_fld [OF ok1 _ that] i1 by (auto simp: mark_inv_def)
  have g2: "same_gc ?s1 ?s2" using d(1) by (simp add: darkens_def)
  have i2: "mark_inv cs B J W ?s2 hs ds"
    by (rule inv_same [OF i1 g2 darkens_shape [OF ok1 d(1)] heap_ok_darkens [OF ok1 d(1)] d(2) [OF st1] w2])
  have M: "Modify (fld b i) x s = ?s2 \<or> Modify (fld b i) x s = add_to_ref_table (fld b i) ?s2"
    using b(4) ph by (simp add: Modify_def Let_def put_def)
  have s2: "safe B ?s2 c" if "safe B s c" for c
  proof (rule safe_mono [OF _ _ _ that])
    show "colour ?s2 b \<noteq> Caml_blue" if "b \<in> B" for b using heap_okD(4) [OF heap_ok_darkens [OF ok1 d(1)] that] .
    show "colour ?s2 b \<noteq> Caml_white" if "b \<in> B" "colour s b \<noteq> Caml_white" for b
      using darkens_color [OF d(1) that(1)] that h1 [OF that(1)] not_gray_white(1) by auto
    fix a c assume a: "a \<in> B" "c \<in> B" "colour s a \<noteq> Caml_black" "edge s a c"
    obtain k where k: "scans s a" "k < wsz s a" "in_heap s (mem s (fld a k))" "c = darken_base (mem s) (mem s (fld a k))"
      using a(4) by (auto simp: edge_def)
    have col: "colour ?s2 a \<noteq> Caml_black" using darkens_color [OF d(1) a(1)] a(3) h1 [OF a(1)] not_gray_white by auto
    show "edge ?s2 a c \<and> colour ?s2 a \<noteq> Caml_black \<or> colour ?s2 c \<noteq> Caml_white"
    proof (cases "a = b \<and> k = i")
      case True
      then show ?thesis using d(3) k(3,4) base(1) by simp
    next
      case False
      then have m: "mem ?s1 (fld a k) = mem s (fld a k)" using f1 [OF a(1) k(2)] by (auto simp del: put_simps(1))
      have "mem s (fld a k) \<in> B \<union> J" using heap_okD(12) [OF ok a(1) k(1,2,3)] .
      then have "edge ?s1 a c" unfolding edge_def
        using k m same_shape_blocks [OF ok sh1] a(1) by (intro conjI exI [of _ k]) auto
      then show ?thesis using edge_darkens [OF ok1 d(1) a(1)] col by simp
    qed
  qed
  have "safe B (add_to_ref_table fp ?s2) c" if "safe B ?s2 c" for c fp
    by (rule safe_mem [OF heap_ok_darkens [OF ok1 d(1)] _ _ that]) simp_all
  then show ?thesis using M i2 inv_ref_table [OF i2] s2 unfolding kept_def by metis
qed

subsection \<open>Marking interleaved with the program\<close>

text \<open>
  During marking the collector takes an iteration, or the program stores a value in a field of a block through the write barrier.
\<close>

inductive gc_step :: "val set \<Rightarrow> val set \<Rightarrow> 'a gc_scheme \<Rightarrow> 'a gc_scheme \<Rightarrow> bool" for B J where
  iter: "gc_phase s = Phase_mark \<Longrightarrow> mark_iter s w = Some (t, w') \<Longrightarrow> gc_step B J s t"
| store: "gc_phase s = Phase_mark \<Longrightarrow> b \<in> B \<Longrightarrow> scans s b \<Longrightarrow> i < wsz s b \<Longrightarrow> Is_in_heap s (fld b i) \<Longrightarrow> fld b i + 4 \<notin> J \<Longrightarrow>
    in_heap s x \<longrightarrow> x \<in> B \<union> J \<Longrightarrow> gc_step B J s (Modify (fld b i) x s)"

inductive_cases gc_stepE: "gc_step B J s t"

lemma gc_step_kept:
  assumes "mark_inv cs B J W s hs ds" and "gc_step B J s t"
  shows "kept cs B J W s t \<or> swept_ready B s t"
  using assms(2) by (rule gc_stepE) (use mark_iter_kept [OF assms(1)] modify_kept [OF assms(1)] in blast)+

lemma gc_steps_safe:
  assumes "(gc_step B J)\<^sup>*\<^sup>* s t" and "mark_inv cs B J W s hs ds" and "safe B s b"
  shows "(\<exists>hs ds. mark_inv cs B J W t hs ds) \<and> safe B t b \<or> gc_phase t = Phase_sweep \<and> colour t b = Caml_black"
  using assms(1)
proof induction
  case base then show ?case using assms(2,3) by blast
next
  case (step t u)
  have "gc_phase t = Phase_mark" using step.hyps(2) by (auto elim: gc_stepE)
  then obtain hs ds where i: "mark_inv cs B J W t hs ds" "safe B t b" using step.IH by auto
  then show ?case using gc_step_kept [OF i(1) step.hyps(2)] by (auto simp: kept_def swept_ready_def)
qed

subsection \<open>Marking ends\<close>

primrec mark_iters :: "nat \<Rightarrow> 'a gc_scheme \<Rightarrow> 'a gc_scheme option" where
  "mark_iters 0 s = Some s"
| "mark_iters (Suc n) s = (case mark_iter s 1 of None \<Rightarrow> None | Some (t, w) \<Rightarrow> mark_iters n t)"

definition whites :: "val set \<Rightarrow> 'a rt_scheme \<Rightarrow> val set" where "whites B s = {b \<in> B. colour s b = Caml_white}"
definition grays :: "val set \<Rightarrow> 'a rt_scheme \<Rightarrow> val set" where "grays B s = {b \<in> B. colour s b = Caml_gray}"

text \<open>A measure of the marking that is left.\<close>

definition mark_left :: "val set \<Rightarrow> (('a gc_scheme \<times> addr list \<times> layout) \<times> ('a gc_scheme \<times> addr list \<times> layout)) set" where
  "mark_left B = measures [\<lambda>(s, hs, ds). card (whites B s), \<lambda>(s, hs, ds). card (grays B s),
     \<lambda>(s, hs, ds). if heap_is_pure s then 0 else 1, \<lambda>(s, hs, ds). todo s hs ds]"

lemma wf_mark_left: "wf (mark_left B)" by (simp add: mark_left_def)

lemma pop_decreases:
  assumes inv: "mark_inv cs B J W s hs ds" and ne: "gray_vals s \<noteq> []"
    and t: "t = mark_block (last (gray_vals s)) (s\<lparr>gray_vals := butlast (gray_vals s)\<rparr>)"
  shows "((t, hs', ds'), (s, hs, ds)) \<in> mark_left B"
proof -
  have ok: "heap_ok cs B J s" and st: "gray_ok B (set hs \<union> heads ds) s" using inv by (auto simp: mark_inv_def)
  have fin: "finite (whites B s)" "finite (grays B s)" using heap_okD(11) [OF ok] by (auto simp: whites_def grays_def)
  let ?v = "last (gray_vals s)"
  note k = mark_block_keeps [OF ok st ne refl t]
  have w: "whites B t \<subseteq> whites B s" using k(7,8,9) not_gray_white by (auto simp: whites_def) metis
  have g: "grays B t \<subset> grays B s" if "whites B t = whites B s"
  proof -
    have "c \<in> grays B s" if "c \<in> grays B t" for c
    proof -
      have c: "c \<in> B" "colour t c = Caml_gray" "c \<noteq> ?v" using that k(8) not_gray_white by (auto simp: grays_def)
      moreover have "c \<notin> whites B t" using c(2) not_gray_white by (simp add: whites_def)
      then have "colour s c \<noteq> Caml_white" using c(1) \<open>whites B t = whites B s\<close> unfolding whites_def by blast
      ultimately show ?thesis using k(9) [OF c(1,3)] by (auto simp: grays_def)
    qed
    moreover have "?v \<in> grays B s" "?v \<notin> grays B t" using k(6,7,8) not_gray_white by (auto simp: grays_def)
    ultimately show ?thesis by blast
  qed
  show ?thesis
  proof (cases "whites B t = whites B s")
    case True then show ?thesis using psubset_card_mono [OF fin(2) g [OF True]] by (simp add: mark_left_def)
  next
    case False then show ?thesis using psubset_card_mono [OF fin(1)] w by (auto simp: mark_left_def)
  qed
qed

lemma same_mem_sets: "mem t = mem s \<Longrightarrow> whites B t = whites B s \<and> grays B t = grays B s"
  by (simp add: whites_def grays_def)

lemma mark_iter_main:
  assumes inv: "mark_inv cs B J W s hs ds" and sub: "gc_subphase s = Subphase_main"
  obtains (weak) t w where "mark_iter s 1 = Some (t, w)" "gc_subphase t = Subphase_weak" "gray_vals t = []"
      "\<And>b. b \<in> B \<Longrightarrow> colour t b \<noteq> Caml_gray"
    | (main) t w hs' ds' where "mark_iter s 1 = Some (t, w)" "gc_subphase t = Subphase_main" "mark_inv cs B J W t hs' ds'"
      "((t, hs', ds'), (s, hs, ds)) \<in> mark_left B"
proof (cases "gray_vals s = []")
  case False
  let ?t = "mark_block (last (gray_vals s)) (s\<lparr>gray_vals := butlast (gray_vals s)\<rparr>)"
  have it: "\<exists>w. mark_iter s 1 = Some (?t, w)" using False by (simp add: mark_iter_def Let_def)
  have "heap_ok cs B J s" "gray_ok B (set hs \<union> heads ds) s" using inv by (auto simp: mark_inv_def)
  then have "gc_subphase ?t = Subphase_main" using mark_block_keeps(3) [OF _ _ False refl refl] sub by (simp add: same_gc_def)
  moreover obtain hs' ds' where "mark_inv cs B J W ?t hs' ds'" using iter_pop [OF inv False] by (auto simp: kept_def)
  ultimately show thesis using main it pop_decreases [OF inv False refl] by blast
next
  case e: True
  consider "markhp s \<noteq> 0" | "markhp s = 0" "\<not> heap_is_pure s" | "markhp s = 0" "heap_is_pure s" by blast
  then show thesis
  proof cases
    case 1
    then have "mark_iter s 1 \<noteq> None" using e by (simp add: mark_iter_def Let_def)
    then obtain t w where it: "mark_iter s 1 = Some (t, w)" by auto
    obtain hs' ds' where h: "mark_inv cs B J W t hs' ds'" "mem t = mem s" "gc_subphase t = gc_subphase s" "heap_is_pure t = heap_is_pure s"
      "todo t hs' ds' < todo s hs ds" using iter_traverse [OF inv e 1 it] by blast
    show thesis using h same_mem_sets [OF h(2), of B] sub by (intro main [OF it _ h(1)]) (simp_all add: mark_left_def)
  next
    case 2
    then have "mark_iter s 1 \<noteq> None" using e by (simp add: mark_iter_def Let_def)
    then obtain t w where it: "mark_iter s 1 = Some (t, w)" by auto
    show thesis using iter_restart [OF inv e 2 it] it sub same_mem_sets [of t s B] 2 main [OF it] by (auto simp: mark_left_def)
  next
    case 3
    then have it: "mark_iter s 1 = Some (s\<lparr>gc_subphase := Subphase_weak, weak_prev := None\<rparr>, 1)" using e sub by (simp add: mark_iter_def)
    show thesis by (rule weak [OF it]) (use no_gray_left [OF inv e 3] e in auto)
  qed
qed

lemma marking_ends_aux:
  "mark_inv cs B J W (fst x) (fst (snd x)) (snd (snd x)) \<Longrightarrow> gc_subphase (fst x) = Subphase_main \<Longrightarrow>
    \<exists>n t. mark_iters n (fst x) = Some t \<and> gc_subphase t = Subphase_weak \<and> gray_vals t = [] \<and> (\<forall>b \<in> B. colour t b \<noteq> Caml_gray)"
proof (induction x rule: wf_induct_rule [OF wf_mark_left [of B]])
  case (1 x)
  obtain s hs ds where x: "x = (s, hs, ds)" using prod_cases3 by blast
  have inv: "mark_inv cs B J W s hs ds" and sub: "gc_subphase s = Subphase_main" using 1(2,3) x by auto
  show ?case using inv sub
  proof (cases rule: mark_iter_main)
    case (weak t w)
    then show ?thesis by (intro exI [of _ "Suc 0"] exI [of _ t]) (simp add: x)
  next
    case (main t w hs' ds')
    then obtain n u where "mark_iters n t = Some u" "gc_subphase u = Subphase_weak" "gray_vals u = []" "\<forall>b \<in> B. colour u b \<noteq> Caml_gray"
      using 1(1) [of "(t, hs', ds')"] x by auto
    then show ?thesis using main(1) by (intro exI [of _ "Suc n"] exI [of _ u]) (simp add: x)
  qed
qed

subsection \<open>The properties\<close>

text \<open>
  C7.  Marking keeps what was reachable.  Let marking begin with the roots gray and nothing black.  However the iterations of the
  collector and the stores of the program through the write barrier interleave, when the collector moves
  on to sweeping, every block that could be reached from a gray block when marking began is black.  This covers
  overflow of the stack of gray values, forwarded values that are short-cut, weak arrays and finalised values.
\<close>

theorem marking_snapshot:
  assumes "mark_inv cs B J W s hs ds" and "\<forall>b \<in> B. colour s b \<noteq> Caml_black"
    and "r \<in> B" and "colour s r = Caml_gray" and "(edge s)\<^sup>*\<^sup>* r b"
    and "(gc_step B J)\<^sup>*\<^sup>* s t" and "gc_phase t = Phase_sweep"
  shows "colour t b = Caml_black"
proof -
  have ok: "heap_ok cs B J s" using assms(1) by (simp add: mark_inv_def)
  have "safe B s b" using reachable_safe [OF assms(5,3,4) ok] assms(2) by blast
  from gc_steps_safe [OF assms(6,1) this] show ?thesis using assms(7) by (auto simp: mark_inv_def)
qed

text \<open>
  C8.  Marking ends.  From any state of the main subphase finitely many iterations lead to the next subphase, with an empty stack and no gray block left,
  however often the stack overflowed and the heap has to be traversed again.
\<close>

theorem marking_ends:
  assumes "mark_inv cs B J W s hs ds" and "gc_subphase s = Subphase_main"
  shows "\<exists>n t. mark_iters n s = Some t \<and> gc_subphase t = Subphase_weak \<and> gray_vals t = [] \<and> (\<forall>b \<in> B. colour t b \<noteq> Caml_gray)"
  using marking_ends_aux [of cs B J W "(s, hs, ds)"] assms by simp

text \<open>A chunk at 8192 with a gray block of one field at 8196, which points to a white string at 8204.\<close>

definition mark_example :: machine where
  "mark_example = boot_machine\<lparr>mem := (\<lambda>_. 0)(8188 := 0, 8184 := 16, 8192 := Make_header 1 0 Caml_gray, 8196 := 8204,
     8200 := Make_header 1 String_tag Caml_white, 8204 := 1), heap_start := 8192, heap_end := 8208, page_table := (\<lambda>p. p = 2),
     gc_phase := Phase_mark, gray_vals := [8196], gray_vals_size := 4, heap_is_pure := True\<rparr>"

lemma mark_example_headers:
  "Wosize_hd (Make_header 1 0 Caml_gray) = 1" "Tag_hd (Make_header 1 0 Caml_gray) = 0" "Color_hd (Make_header 1 0 Caml_gray) = Caml_gray"
  "Wosize_hd (Make_header 1 String_tag Caml_white) = 1" "Tag_hd (Make_header 1 String_tag Caml_white) = String_tag"
  "Color_hd (Make_header 1 String_tag Caml_white) = Caml_white"
  "\<not> String_tag < No_scan_tag" "String_tag \<noteq> Infix_tag" "String_tag \<noteq> Forward_tag" "0 < No_scan_tag" "Infix_tag \<noteq> 0" "Forward_tag \<noteq> 0"
  by (simp_all add: Make_header_fields header_ok_def Max_wosize_def tag_defs)

lemma mark_example_simps:
  "mem mark_example 8192 = Make_header 1 0 Caml_gray" "mem mark_example 8196 = 8204" "mem mark_example 8200 = Make_header 1 String_tag Caml_white"
  "mem mark_example 8204 = 1" "mem mark_example 8188 = 0" "mem mark_example 8184 = 16"
  "Is_in_heap mark_example 8196" "Is_in_heap mark_example 8204" "heap_start mark_example = 8192" "gc_phase mark_example = Phase_mark"
  "gray_vals mark_example = [8196]" "gray_vals_size mark_example = 4" "heap_is_pure mark_example" "markhp mark_example = 0"
  "gc_subphase mark_example = Subphase_main" "weak_list_head mark_example = 0" "weak_prev mark_example = None"
  "final_old mark_example = 0" "final_active mark_example = 0" "final_table mark_example = []"
  by (simp_all add: mark_example_def Is_in_heap_def Page_def drop_bit_eq_div) (simp_all add: boot_machine_def)

lemma mark_example_inv: "mark_inv [(8192, [8192, 8200])] {8196, 8204} {} {} mark_example [] []"
  by (simp add: mark_inv_def mark_pos_def heap_ok_def block_ok_def in_heap_def weak_ok_def finals_def gray_ok_def mark_example_simps
      mark_example_headers Wosize_val_def Tag_val_def Hd_val_def scans_def Chunk_next_def Chunk_size_def Bhsize_hd_def Whsize_hd_def
      Whsize_wosize_def Bsize_wsize_def not_gray_white not_gray_white [symmetric] Is_block_def)


lemma mark_example_runs: "map_option gc_phase (mark_iters 5 mark_example) = Some Phase_sweep"
  by code_simp

lemma mark_iters_steps:
  "mark_iters n s = Some t \<Longrightarrow> (\<forall>k < n. \<forall>u. mark_iters k s = Some u \<longrightarrow> gc_phase u = Phase_mark) \<Longrightarrow> (gc_step B J)\<^sup>*\<^sup>* s t"
proof (induction n arbitrary: s)
  case (Suc n)
  obtain u w where u: "mark_iter s 1 = Some (u, w)" "mark_iters n u = Some t" using Suc.prems(1) by (auto split: option.splits)
  have "gc_phase s = Phase_mark" using Suc.prems(2) by force
  then have "gc_step B J s u" using u(1) by (rule gc_step.iter)
  moreover have "(gc_step B J)\<^sup>*\<^sup>* u t"
  proof (rule Suc.IH [OF u(2)], intro allI impI)
    fix k x assume "k < n" "mark_iters k u = Some x"
    then show "gc_phase x = Phase_mark" using spec [OF Suc.prems(2), of "Suc k"] u(1) by simp
  qed
  ultimately show ?case by simp
qed simp

lemma mark_example_marking: "map (\<lambda>k. map_option gc_phase (mark_iters k mark_example)) [0..<5] = replicate 5 (Some Phase_mark)"
  by code_simp

theorem marking_snapshot_witness: "\<exists>t. mark_iters 5 mark_example = Some t \<and> colour t 8204 = Caml_black"
proof -
  obtain t where t: "mark_iters 5 mark_example = Some t" "gc_phase t = Phase_sweep" using mark_example_runs by auto
  have "map_option gc_phase (mark_iters k mark_example) = Some Phase_mark" if "k < 5" for k
    using arg_cong [OF mark_example_marking, of "\<lambda>xs. xs ! k"] that by (simp del: mark_iters.simps upt_rec_numeral)
  then have "(gc_step {8196, 8204} {})\<^sup>*\<^sup>* mark_example t" by (intro mark_iters_steps [OF t(1)]) fastforce
  moreover have "edge mark_example 8196 8204"
    by (simp add: edge_def scans_def in_heap_def darken_base_def mark_example_simps mark_example_headers Wosize_val_def Tag_val_def Hd_val_def
        Is_block_def)
  ultimately show ?thesis
    using marking_snapshot [OF mark_example_inv, of 8196 8204 t] t
    by (auto simp: mark_example_simps mark_example_headers Hd_val_def not_gray_white not_gray_white [symmetric])
qed

theorem marking_ends_witness:
  "\<exists>n t. mark_iters n mark_example = Some t \<and> gc_subphase t = Subphase_weak \<and> colour t 8204 \<noteq> Caml_gray"
  using marking_ends [OF mark_example_inv] by (auto simp: mark_example_simps)

end
