(* ===== verification/Major_GC.thy ===== *)
theory Major_GC
  imports Alloc Mark_Cycle
begin

text \<open>
  The rest of the major collector (\<^verbatim>\<open>byterun/major_gc.c\<close>): the start of a cycle, sweeping, the amount of work of a slice and the
  initial heap; the walks over the roots (\<^verbatim>\<open>byterun/roots.c\<close>); and the table of finalised values
  (\<^verbatim>\<open>byterun/finalise.c\<close>).  A walk over roots calls a scanning action with the value and the location of every root.
\<close>

subsection \<open>Locations\<close>

definition loc_set :: "loc \<Rightarrow> val \<Rightarrow> machine \<Rightarrow> machine" where
  "loc_set p v s =
     (case p of
        Mem a \<Rightarrow> s\<lparr>mem := (mem s)(a := v)\<rparr>
      | Stk a \<Rightarrow> s\<lparr>stk := (stk s)(a := v)\<rparr>
      | Global_data \<Rightarrow> s\<lparr>global_data := v\<rparr>
      | Local i \<Rightarrow> s\<lparr>local_roots := (local_roots s)[i := v]\<rparr>
      | Final_fun i \<Rightarrow> s\<lparr>final_table := (final_table s)[i := (final_table s ! i)\<lparr>final_fun := v\<rparr>]\<rparr>
      | Final_val i \<Rightarrow> s\<lparr>final_table := (final_table s)[i := (final_table s ! i)\<lparr>final_val := v\<rparr>]\<rparr>)"

primrec for_each :: "'a list \<Rightarrow> ('a \<Rightarrow> machine \<Rightarrow> unit result) \<Rightarrow> machine \<Rightarrow> unit result" where
  "for_each [] k s = Returns () s"
| "for_each (x # xs) k s = andThen (k x s) (\<lambda>_ s. for_each xs k s)"

subsection \<open>Finalised values\<close>

definition scan_final_fun :: "scanning_action \<Rightarrow> nat \<Rightarrow> machine \<Rightarrow> unit result" where
  "scan_final_fun f i s = f (final_fun (final_table s ! i)) (Final_fun i) s"

definition scan_final_val :: "scanning_action \<Rightarrow> nat \<Rightarrow> machine \<Rightarrow> unit result" where
  "scan_final_val f i s = f (final_val (final_table s ! i)) (Final_val i) s"

definition final_do_strong_roots :: "scanning_action \<Rightarrow> machine \<Rightarrow> unit result" where
  "final_do_strong_roots f s =
     andThen (for_each [0..<final_old s] (scan_final_fun f) s)
       (\<lambda>_ s. for_each [final_active s..<length (final_table s)]
                (\<lambda>i s. andThen (scan_final_fun f i s) (\<lambda>_ s. scan_final_val f i s)) s)"

definition final_do_weak_roots :: "scanning_action \<Rightarrow> machine \<Rightarrow> unit result" where
  "final_do_weak_roots f s = for_each [0..<final_old s] (scan_final_val f) s"

definition final_do_young_roots :: "scanning_action \<Rightarrow> machine \<Rightarrow> unit result" where
  "final_do_young_roots f s =
     for_each [final_old s..<final_young s] (\<lambda>i s. andThen (scan_final_fun f i s) (\<lambda>_ s. scan_final_val f i s)) s"

definition final_empty_young :: "'a gc_scheme \<Rightarrow> 'a gc_scheme" where
  "final_empty_young s = s\<lparr>final_old := final_young s\<rparr>"

text \<open>\<open>final_do_calls\<close> is re-entrant: it looks at the table again after every call.\<close>

fun final_do_calls :: "nat \<Rightarrow> fns \<Rightarrow> machine \<Rightarrow> unit result" where
  "final_do_calls fuel fns s =
     (if final_active s < length (final_table s)
      then case fuel of
             0 \<Rightarrow> Loops
           | Suc n \<Rightarrow>
               (let f = final_table s ! final_active s
                in andThen (callback fns (final_fun f) (final_val f) (s\<lparr>final_active := final_active s + 1\<rparr>))
                     (\<lambda>_ s. final_do_calls n fns s))
      else Returns () s)"

text \<open>
  The move of the finalising set when the table is doubled: \<^verbatim>\<open>for (i = size-1; i >= active; i--)\<close> on unsigned numbers, which
  does not end when \<^verbatim>\<open>active\<close> is 0.
\<close>

fun move_finalising :: "nat \<Rightarrow> nat \<Rightarrow> nat \<Rightarrow> final list \<Rightarrow> final list option" where
  "move_finalising active shift i T =
     (if active \<le> i
      then let T = T[i + shift := T ! i]
           in (case i of 0 \<Rightarrow> None | Suc j \<Rightarrow> move_finalising active shift j T)
      else Some T)"

definition final_register :: "fns \<Rightarrow> val \<Rightarrow> val \<Rightarrow> machine \<Rightarrow> val result" where
  "final_register fns f v s =
     (if \<not> (Is_block v \<and> (Is_in_heap s v \<or> Is_young s v)) then invalid_argument fns ''Gc.finalise'' s
      else andThen
        (if final_active s \<le> final_young s
         then if final_table s = []
              then andThen (stat_alloc fns (30 * 8) s)
                (\<lambda>_ s. Returns () (s\<lparr>final_table := replicate 30 \<lparr>final_fun = 0, final_val = 0\<rparr>, final_active := 30\<rparr>))
              else let size = length (final_table s); new_size = 2 * size
                   in andThen (stat_alloc fns (word_of_nat (new_size * 8)) s)
                        (\<lambda>_ s. case move_finalising (final_active s) (new_size - size) (size - 1)
                                      (final_table s @ replicate size \<lparr>final_fun = 0, final_val = 0\<rparr>) of
                                 None \<Rightarrow> Loops
                               | Some T \<Rightarrow> Returns () (s\<lparr>final_table := T, final_active := final_active s + (new_size - size)\<rparr>))
         else Returns () s)
        (\<lambda>_ s. let v = (if Tag_val (mem s) v = Infix_tag then v - Infix_offset_val (mem s) v else v)
               in Returns Val_unit (s\<lparr>final_table := (final_table s)[final_young s := \<lparr>final_fun = f, final_val = v\<rparr>],
                                       final_young := final_young s + 1\<rparr>)))"

subsection \<open>Roots\<close>

text \<open>The addresses of the words from \<open>low\<close> up to \<open>high\<close>.\<close>

definition stack_words :: "addr \<Rightarrow> addr \<Rightarrow> addr list" where
  "stack_words low high = map (\<lambda>i. low + 4 * word_of_nat i) [0..<(if low < high then (unat (high - low) + 3) div 4 else 0)]"

definition do_local_roots :: "scanning_action \<Rightarrow> addr \<Rightarrow> addr \<Rightarrow> machine \<Rightarrow> unit result" where
  "do_local_roots f low high s =
     andThen (for_each (stack_words low high) (\<lambda>p s. f (stk s p) (Stk p) s) s)
       (\<lambda>_ s. for_each [0..<length (local_roots s)] (\<lambda>i s. f (local_roots s ! i) (Local i) s) s)"

text \<open>
  The nodes of the skip list of global roots, along the links of level 0.  A scanning action does not change the
  links, which are outside the heap, so the list is taken before the action runs.
\<close>

partial_function (option) global_nodes :: "mem \<Rightarrow> addr \<Rightarrow> addr list option" where
  "global_nodes m e =
     (if e = 0 then Some [] else Option.bind (global_nodes m (m (e + 4))) (\<lambda>es. Some (e # es)))"

declare global_nodes.simps [code]

definition do_global_roots :: "scanning_action \<Rightarrow> machine \<Rightarrow> unit result" where
  "do_global_roots f s =
     (case global_nodes (mem s) (mem s (caml_global_roots s + 4)) of
        None \<Rightarrow> Loops
      | Some es \<Rightarrow> for_each es (\<lambda>e s. let r = mem s e in f (mem s r) (Mem r) s) s)"

definition do_hook :: "fns \<Rightarrow> scanning_action \<Rightarrow> machine \<Rightarrow> unit result" where
  "do_hook fns f s = (case scan_roots_hook fns of None \<Rightarrow> Returns () s | Some h \<Rightarrow> h f s)"

definition do_roots :: "fns \<Rightarrow> scanning_action \<Rightarrow> machine \<Rightarrow> unit result" where
  "do_roots fns f s =
     andThen (f (global_data s) Global_data s)
       (\<lambda>_ s. andThen (do_local_roots f (extern_sp s) (stack_high s) s)
         (\<lambda>_ s. andThen (do_global_roots f s)
           (\<lambda>_ s. andThen (final_do_strong_roots f s)
             (\<lambda>_ s. do_hook fns f s))))"

definition darken_action :: scanning_action where
  "darken_action v p s = Returns () (darken v s)"

definition darken_all_roots :: "fns \<Rightarrow> machine \<Rightarrow> unit result" where
  "darken_all_roots fns s = do_roots fns darken_action s"

subsection \<open>The cycle\<close>

definition start_cycle :: "fns \<Rightarrow> machine \<Rightarrow> unit result" where
  "start_cycle fns s =
     andThen (darken_all_roots fns s)
       (\<lambda>_ s. Returns () (s\<lparr>gc_phase := Phase_mark, gc_subphase := Subphase_main, markhp := 0\<rparr>))"

text \<open>One iteration of the loop of \<open>sweep_slice\<close>.\<close>

definition sweep_iter :: "fns \<Rightarrow> machine \<Rightarrow> int \<Rightarrow> machine \<times> int" where
  "sweep_iter fns s work =
     (if gc_sweep_hp s < limit s
      then let hp = gc_sweep_hp s; h = mem s hp; work = work - uint (Whsize_hd h);
               s = s\<lparr>gc_sweep_hp := gc_sweep_hp s + Bhsize_hd h\<rparr>
           in (if Color_hd h = Caml_white
               then let s = (if Tag_hd h = Custom_tag
                             then let final_fun = mem s (mem s (Val_hp hp) + 4)
                                  in if final_fun \<noteq> 0 then custom_finalize fns final_fun (Val_hp hp) s else s
                             else s);
                        (adj, s) = fl_merge_block (Val_hp hp) s
                    in s\<lparr>gc_sweep_hp := adj\<rparr>
               else if Color_hd h = Caml_blue then s\<lparr>fl_merge := Val_hp hp\<rparr>
               else s\<lparr>mem := (mem s)(hp := Whitehd_hd h)\<rparr>, work)
      else let c = Chunk_next (mem s) (chunk s); s = s\<lparr>chunk := c\<rparr>
           in if c = 0
              then (s\<lparr>stat_major_collections := stat_major_collections s + 1, gc_phase := Phase_idle\<rparr>, 0)
              else (s\<lparr>gc_sweep_hp := c, limit := c + Chunk_size (mem s) c\<rparr>, work))"

partial_function (option) sweep_slice :: "fns \<Rightarrow> int \<Rightarrow> machine \<Rightarrow> machine option" where
  "sweep_slice fns work s =
     (if 0 < work then case sweep_iter fns s work of (s, work) \<Rightarrow> sweep_slice fns work s else Some s)"

declare sweep_slice.simps [code]

text \<open>The proportion of the cycle's work that the allocation since the last slice calls for; the operations are those of doubles.\<close>

definition slice_share :: "'a gc_scheme \<Rightarrow> rat" where
  "slice_share s =
     (let p = rnd (rnd (rnd (rnd (rnd (of_nat (unat (allocated_words s)) * 3) * of_nat (unat (100 + percent_free s)))
                / of_nat (stat_heap_size s div 4)) / of_nat (unat (percent_free s))) / 2)
      in if p < extra_heap_memory s then extra_heap_memory s else p)"

definition slice_work :: "'a gc_scheme \<Rightarrow> uint32" where
  "slice_work s =
     (let w = rnd (slice_share s * of_nat (stat_heap_size s div 4))
      in if gc_phase s = Phase_mark
         then 2 * word_of_int \<lfloor>rnd (rnd (w * 100) / of_nat (unat (100 + percent_free s)))\<rfloor>
         else 2 * word_of_int \<lfloor>w\<rfloor>)"

definition or_loops :: "machine option \<Rightarrow> unit result" where
  "or_loops r = (case r of None \<Rightarrow> Loops | Some s \<Rightarrow> Returns () s)"

definition major_collection_slice :: "fns \<Rightarrow> uint32 \<Rightarrow> machine \<Rightarrow> uint32 result" where
  "major_collection_slice fns howmuch s =
     andThen (if gc_phase s = Phase_idle then start_cycle fns s else Returns () s)
       (\<lambda>_ s. let computed_work = slice_work s;
                  howmuch = (if howmuch = 0 then computed_work else howmuch)
              in andThen (or_loops (if gc_phase s = Phase_mark then mark_slice (sint howmuch) s else sweep_slice fns (sint howmuch) s))
                   (\<lambda>_ s. let s = (if gc_phase s = Phase_idle then compact_heap_maybe fns s else s)
                          in Returns computed_work
                               (s\<lparr>stat_major_words := rnd (stat_major_words s + of_nat (unat (allocated_words s))),
                                  allocated_words := 0, extra_heap_memory := 0\<rparr>)))"

partial_function (option) finish_marking :: "machine \<Rightarrow> machine option" where
  "finish_marking s =
     (if gc_phase s = Phase_mark
      then case mark_slice 2147483647 s of None \<Rightarrow> None | Some s \<Rightarrow> finish_marking s
      else Some s)"

partial_function (option) finish_sweeping :: "fns \<Rightarrow> machine \<Rightarrow> machine option" where
  "finish_sweeping fns s =
     (if gc_phase s = Phase_sweep
      then case sweep_slice fns 2147483647 s of None \<Rightarrow> None | Some s \<Rightarrow> finish_sweeping fns s
      else Some s)"

declare finish_marking.simps [code] finish_sweeping.simps [code]

definition finish_major_cycle :: "fns \<Rightarrow> machine \<Rightarrow> unit result" where
  "finish_major_cycle fns s =
     andThen (if gc_phase s = Phase_idle then start_cycle fns s else Returns () s)
       (\<lambda>_ s. andThen (or_loops (finish_marking s))
         (\<lambda>_ s. andThen (or_loops (finish_sweeping fns s))
           (\<lambda>_ s. Returns () (s\<lparr>stat_major_words := rnd (stat_major_words s + of_nat (unat (allocated_words s))),
                                allocated_words := 0\<rparr>))))"

definition init_major_heap :: "fns \<Rightarrow> uint32 \<Rightarrow> machine \<Rightarrow> unit result" where
  "init_major_heap fns heap_size s =
     (let sz = clip_heap_chunk_size heap_size;
          s = s\<lparr>stat_heap_size := unat sz, stat_top_heap_size := unat sz\<rparr>
      in case alloc_for_heap fns sz s of
           (None, s) \<Rightarrow> Dies ''Fatal error: not enough memory for the initial heap.'' (s\<lparr>heap_start := 0\<rparr>)
         | (Some start, s) \<Rightarrow>
             (let s = s\<lparr>heap_start := start, mem := (mem s)(start - 4 := 0), heap_end := start + sz,
                        stat_heap_chunks := 1, page_low := Page start, page_high := Page (start + sz)\<rparr>
              in case malloc fns (page_high s - page_low s) s of
                   (None, s) \<Rightarrow> Dies ''Fatal error: not enough memory for the initial heap.'' s
                 | (Some block, s) \<Rightarrow>
                     (let s = s\<lparr>page_table := (\<lambda>i. if page_low s \<le> i \<and> i < page_high s then True else page_table s i),
                                mem := (mem s)(start := Make_header (Wosize_bhsize sz) 0 Caml_blue)\<rparr>;
                          (adj, s) = fl_merge_block (Val_hp start) (fl_init_merge s);
                          s = s\<lparr>gc_phase := Phase_idle, gray_vals_size := 2048\<rparr>
                      in case malloc fns (2048 * 4) s of
                           (None, s) \<Rightarrow> Dies ''Fatal error: not enough memory for the initial heap.'' s
                         | (Some block, s) \<Rightarrow>
                             Returns () (s\<lparr>gray_vals := [], heap_is_pure := True, allocated_words := 0, extra_heap_memory := 0\<rparr>))))"

subsection \<open>Marking the roots\<close>

definition global_values :: "machine \<Rightarrow> val list" where
  "global_values s =
     (case global_nodes (mem s) (mem s (caml_global_roots s + 4)) of None \<Rightarrow> [] | Some es \<Rightarrow> map (\<lambda>e. mem s (mem s e)) es)"

text \<open>The values that the walk over the roots meets.\<close>

definition roots :: "machine \<Rightarrow> val list" where
  "roots s = [global_data s] @ map (stk s) (stack_words (extern_sp s) (stack_high s)) @ local_roots s @ global_values s @
     map final_fun (take (final_old s) (final_table s)) @
     concat (map (\<lambda>f. [final_fun f, final_val f]) (drop (final_active s) (final_table s)))"

text \<open>The list of global roots ends, and neither its nodes nor the roots are headers of the heap.\<close>

definition globals_ok :: "val set \<Rightarrow> machine \<Rightarrow> bool" where
  "globals_ok B s \<longleftrightarrow> caml_global_roots s + 4 \<notin> hdrs B \<and>
     (\<exists>es. global_nodes (mem s) (mem s (caml_global_roots s + 4)) = Some es \<and>
       (\<forall>e \<in> set es. e \<notin> hdrs B \<and> e + 4 \<notin> hdrs B \<and> mem s e \<notin> hdrs B))"

definition marks :: "val set \<Rightarrow> machine \<Rightarrow> machine \<Rightarrow> bool" where
  "marks B s t \<longleftrightarrow> (\<exists>m g n p. t = s\<lparr>mem := m, gray_vals := g, gray_vals_size := n, heap_is_pure := p\<rparr>) \<and>
     (\<forall>a. a \<notin> hdrs B \<longrightarrow> mem t a = mem s a)"

lemma marks_refl [simp]: "marks B s s"
  unfolding marks_def by (intro conjI exI [of _ "mem s"] exI [of _ "gray_vals s"] exI [of _ "gray_vals_size s"] exI [of _ "heap_is_pure s"]) simp_all

lemma marks_trans: "marks B s t \<Longrightarrow> marks B t u \<Longrightarrow> marks B s u"
  by (fastforce simp: marks_def)

lemma darken_touches: "\<exists>m g n p. darken v s = s\<lparr>mem := m, gray_vals := g, gray_vals_size := n, heap_is_pure := p\<rparr>"
proof -
  have r: "\<exists>g n p. realloc_gray_vals s = s\<lparr>gray_vals := g, gray_vals_size := n, heap_is_pure := p\<rparr>" for s :: "'a rt_scheme"
  proof -
    have "realloc_gray_vals s = s\<lparr>gray_vals := gray_vals (realloc_gray_vals s), gray_vals_size := gray_vals_size (realloc_gray_vals s),
        heap_is_pure := heap_is_pure (realloc_gray_vals s)\<rparr>"
      by (simp add: realloc_gray_vals_def)
    then show ?thesis by blast
  qed
  show ?thesis
  proof (cases "in_heap s v \<and> colour s (darken_base (mem s) v) = Caml_white")
    case True
    let ?b = "darken_base (mem s) v"
    let ?u = "s\<lparr>mem := set_Hd_val ?b (Grayhd_hd (Hd_val (mem s) ?b)) (mem s), gray_vals := gray_vals s @ [?b]\<rparr>"
    obtain g n p where g: "realloc_gray_vals ?u = ?u\<lparr>gray_vals := g, gray_vals_size := n, heap_is_pure := p\<rparr>" using r [of ?u] by blast
    have "darken v s = realloc_gray_vals ?u \<or> darken v s = ?u\<lparr>gray_vals_size := gray_vals_size s, heap_is_pure := heap_is_pure s\<rparr>"
      using True by (simp add: darken_push push_gray_def Let_def)
    then show ?thesis
    proof
      assume "darken v s = realloc_gray_vals ?u"
      then have "darken v s = s\<lparr>mem := mem ?u, gray_vals := g, gray_vals_size := n, heap_is_pure := p\<rparr>" unfolding g by simp
      then show ?thesis by blast
    next
      assume "darken v s = ?u\<lparr>gray_vals_size := gray_vals_size s, heap_is_pure := heap_is_pure s\<rparr>"
      then show ?thesis by blast
    qed
  next
    case False
    then have "darken v s = s\<lparr>mem := mem s, gray_vals := gray_vals s, gray_vals_size := gray_vals_size s, heap_is_pure := heap_is_pure s\<rparr>"
      by (auto simp: darken_push)
    then show ?thesis by blast
  qed
qed

lemma darken_marks_only:
  assumes "in_heap s v \<longrightarrow> darken_base (mem s) v \<in> B"
  shows "marks B s (darken v s)"
  using darken_touches [of v s] darken_keeps(1) [OF assms] unfolding marks_def darkens_def by blast

definition heap_vals :: "val set \<Rightarrow> val set \<Rightarrow> machine \<Rightarrow> val list \<Rightarrow> bool" where
  "heap_vals B J s vs \<longleftrightarrow> (\<forall>v \<in> set vs. in_heap s v \<longrightarrow> v \<in> B \<union> J)"

lemma fold_darken_roots:
  assumes "heap_ok cs B J s" and "gray_ok B P s" and "heap_vals B J s vs"
  shows "darkens B s (fold darken vs s)" "gray_ok B P (fold darken vs s)" "marks B s (fold darken vs s)"
    "\<forall>v \<in> set vs. in_heap s v \<longrightarrow> colour (fold darken vs s) (darken_base (mem s) v) \<noteq> Caml_white"
proof -
  have "darkens B s (fold darken vs s) \<and> gray_ok B P (fold darken vs s) \<and> marks B s (fold darken vs s) \<and>
    (\<forall>v \<in> set vs. in_heap s v \<longrightarrow> colour (fold darken vs s) (darken_base (mem s) v) \<noteq> Caml_white)"
    using assms
  proof (induction vs arbitrary: s)
    case (Cons v vs)
    let ?u = "darken v s" and ?t = "fold darken vs (darken v s)"
    have v: "in_heap s v \<longrightarrow> v \<in> B \<union> J" using Cons.prems(3) by (simp add: heap_vals_def)
    have inB: "in_heap s v \<longrightarrow> darken_base (mem s) v \<in> B" using v base_in [OF Cons.prems(1)] by blast
    note d = darken_keeps [OF inB]
    note sh = same_shape_blocks [OF Cons.prems(1) darkens_shape [OF Cons.prems(1) d(1)]]
    have "heap_vals B J ?u vs" using Cons.prems(3) sh(4) by (simp add: heap_vals_def)
    then have IH: "darkens B ?u ?t" "gray_ok B P ?t" "marks B ?u ?t"
      "\<forall>v \<in> set vs. in_heap ?u v \<longrightarrow> colour ?t (darken_base (mem ?u) v) \<noteq> Caml_white"
      using Cons.IH [OF heap_ok_darkens [OF Cons.prems(1) d(1)] d(2) [OF Cons.prems(2)]] by auto
    have "colour ?t (darken_base (mem s) x) \<noteq> Caml_white" if "x \<in> set (v # vs)" "in_heap s x" for x
    proof (cases "x = v")
      case True
      have "darken_base (mem s) v \<in> B" using inB that True by simp
      from darkens_color [OF IH(1) this] show ?thesis using d(3) that True not_gray_white(1) by auto
    next
      case False
      then have "x \<in> B \<union> J" "x \<in> set vs" using that Cons.prems(3) by (auto simp: heap_vals_def)
      then show ?thesis using IH(4) that(2) sh(4) sh(5) [of x] by auto
    qed
    then show ?case using darkens_trans [OF d(1) IH(1)] IH(2) marks_trans [OF darken_marks_only [OF inB] IH(3)] by simp
  qed simp
  then show "darkens B s (fold darken vs s)" "gray_ok B P (fold darken vs s)" "marks B s (fold darken vs s)"
    "\<forall>v \<in> set vs. in_heap s v \<longrightarrow> colour (fold darken vs s) (darken_base (mem s) v) \<noteq> Caml_white" by auto
qed

text \<open>A part of the walk over the roots of \<open>s0\<close>: in every state that marking has reached from \<open>s0\<close>, it darkens the values \<open>vs\<close>.\<close>

definition walks :: "layout \<Rightarrow> val set \<Rightarrow> val set \<Rightarrow> addr set \<Rightarrow> machine \<Rightarrow> (machine \<Rightarrow> unit result) \<Rightarrow> val list \<Rightarrow> bool" where
  "walks cs B J P s0 w vs \<longleftrightarrow>
     (\<forall>s. marks B s0 s \<longrightarrow> heap_ok cs B J s \<longrightarrow> gray_ok B P s \<longrightarrow> heap_vals B J s vs \<longrightarrow> w s = Returns () (fold darken vs s))"

lemma walks_andThen:
  assumes a: "walks cs B J P s0 v xs" and b: "walks cs B J P s0 w ys"
  shows "walks cs B J P s0 (\<lambda>s. andThen (v s) (\<lambda>_. w)) (xs @ ys)"
  unfolding walks_def
proof (intro allI impI)
  fix s assume m: "marks B s0 s" and ok: "heap_ok cs B J s" and g: "gray_ok B P s" and h: "heap_vals B J s (xs @ ys)"
  have hx: "heap_vals B J s xs" "heap_vals B J s ys" using h by (auto simp: heap_vals_def)
  let ?t = "fold darken xs s"
  note f = fold_darken_roots [OF ok g hx(1)]
  have v: "v s = Returns () ?t" using a m ok g hx(1) by (simp add: walks_def)
  have "in_heap ?t = in_heap s" by (rule same_shape_blocks(4) [OF ok darkens_shape [OF ok f(1)]])
  then have "heap_vals B J ?t ys" using hx(2) by (simp add: heap_vals_def)
  then have "w ?t = Returns () (fold darken ys ?t)"
    using b heap_ok_darkens [OF ok f(1)] f(2) marks_trans [OF m f(3)] by (simp add: walks_def)
  then show "andThen (v s) (\<lambda>_. w) = Returns () (fold darken (xs @ ys) s)" by (simp add: v)
qed

lemma walks_each:
  assumes "\<And>x. x \<in> set is \<Longrightarrow> walks cs B J P s0 (k x) (vs x)"
  shows "walks cs B J P s0 (for_each is k) (concat (map vs is))"
  using assms
proof (induction "is")
  case (Cons x "is")
  have "walks cs B J P s0 (k x) (vs x)" "walks cs B J P s0 (for_each is k) (concat (map vs is))" using Cons by auto
  from walks_andThen [OF this] show ?case by (simp add: walks_def)
qed (simp add: walks_def)

lemma walks_action: "(\<And>s. marks B s0 s \<Longrightarrow> g s = v) \<Longrightarrow> walks cs B J P s0 (\<lambda>s. darken_action (g s) p s) [v]"
  by (simp add: walks_def darken_action_def)

lemma walks_cong: "(\<And>s. marks B s0 s \<Longrightarrow> w s = w' s) \<Longrightarrow> walks cs B J P s0 w' vs \<Longrightarrow> walks cs B J P s0 w vs"
  by (simp add: walks_def)

lemma marks_fields:
  assumes "marks B s t"
  shows "global_data t = global_data s" "stk t = stk s" "extern_sp t = extern_sp s" "stack_high t = stack_high s"
    "local_roots t = local_roots s" "final_table t = final_table s" "final_old t = final_old s" "final_active t = final_active s"
    "caml_global_roots t = caml_global_roots s" "a \<notin> hdrs B \<Longrightarrow> mem t a = mem s a" "heap_start t = heap_start s" "gc_phase t = gc_phase s"
  using assms by (auto simp: marks_def)

lemma walks_values:
  assumes "\<And>x s. x \<in> set is \<Longrightarrow> marks B s0 s \<Longrightarrow> g x s = v x"
  shows "walks cs B J P s0 (for_each is (\<lambda>x s. darken_action (g x s) (p x) s)) (map v is)"
proof -
  have "concat (map (\<lambda>x. [v x]) is) = map v is" by (induction "is") simp_all
  then show ?thesis using walks_each [of "is" cs B J P s0 "\<lambda>x s. darken_action (g x s) (p x) s" "\<lambda>x. [v x]"] walks_action assms by simp
qed

lemma walks_local:
  "walks cs B J P s0 (\<lambda>s. do_local_roots darken_action (extern_sp s) (stack_high s) s)
     (map (stk s0) (stack_words (extern_sp s0) (stack_high s0)) @ local_roots s0)"
proof -
  let ?ws = "stack_words (extern_sp s0) (stack_high s0)" and ?l = "\<lambda>i s. darken_action (local_roots s ! i) (Local i) s"
  have a: "walks cs B J P s0 (for_each ?ws (\<lambda>p s. darken_action (stk s p) (Stk p) s)) (map (stk s0) ?ws)"
    by (rule walks_values) (simp add: marks_fields)
  have "walks cs B J P s0 (for_each [0..<length (local_roots s0)] ?l) (map (\<lambda>i. local_roots s0 ! i) [0..<length (local_roots s0)])"
    by (rule walks_values) (simp add: marks_fields)
  then have c: "walks cs B J P s0 (for_each [0..<length (local_roots s0)] ?l) (local_roots s0)" by (simp only: map_nth)
  have b: "walks cs B J P s0 (\<lambda>s. for_each [0..<length (local_roots s)] ?l s) (local_roots s0)"
  proof (rule walks_cong [OF _ c])
    fix s assume m: "marks B s0 s"
    show "for_each [0..<length (local_roots s)] ?l s = for_each [0..<length (local_roots s0)] ?l s" by (simp only: marks_fields(5) [OF m])
  qed
  show ?thesis
  proof (rule walks_cong [OF _ walks_andThen [OF a b]])
    fix s assume m: "marks B s0 s"
    show "do_local_roots darken_action (extern_sp s) (stack_high s) s =
      andThen (for_each ?ws (\<lambda>p s. darken_action (stk s p) (Stk p) s) s) (\<lambda>_ s. for_each [0..<length (local_roots s)] ?l s)"
      by (simp only: do_local_roots_def marks_fields(3,4) [OF m])
  qed
qed

lemma global_nodes_frame:
  "global_nodes m e = Some es \<Longrightarrow> (\<And>d. d \<in> set es \<Longrightarrow> m' (d + 4) = m (d + 4)) \<Longrightarrow> global_nodes m' e = Some es"
proof (induction es arbitrary: e)
  case Nil
  then have "e = 0" by (subst (asm) global_nodes.simps) (auto split: if_splits bind_splits)
  then show ?case by (subst global_nodes.simps) simp
next
  case (Cons d es)
  have e: "e \<noteq> 0" "d = e" "global_nodes m (m (e + 4)) = Some es"
    using Cons.prems(1) by (subst (asm) global_nodes.simps, auto split: if_splits bind_splits)+
  then have "global_nodes m' (m (e + 4)) = Some es" using Cons by auto
  then show ?case using e Cons.prems(2) [of e] by (subst global_nodes.simps) simp
qed

lemma walks_global:
  assumes "globals_ok B s0"
  shows "walks cs B J P s0 (do_global_roots darken_action) (global_values s0)"
proof -
  have h: "caml_global_roots s0 + 4 \<notin> hdrs B" using assms by (simp add: globals_ok_def)
  obtain es where es: "global_nodes (mem s0) (mem s0 (caml_global_roots s0 + 4)) = Some es"
    "\<forall>e \<in> set es. e \<notin> hdrs B \<and> e + 4 \<notin> hdrs B \<and> mem s0 e \<notin> hdrs B"
    using assms by (auto simp: globals_ok_def)
  have "walks cs B J P s0 (for_each es (\<lambda>e s. darken_action (mem s (mem s e)) (Mem 0) s)) (map (\<lambda>e. mem s0 (mem s0 e)) es)"
    by (rule walks_values) (use es(2) in \<open>simp add: marks_fields(10)\<close>)
  moreover have "do_global_roots darken_action s = for_each es (\<lambda>e s. darken_action (mem s (mem s e)) (Mem 0) s) s" if m: "marks B s0 s" for s
  proof -
    have "global_nodes (mem s) (mem s (caml_global_roots s + 4)) = Some es"
      using global_nodes_frame [OF es(1), of "mem s"] marks_fields(9,10) [OF m] es(2) h by simp
    then show ?thesis by (simp add: do_global_roots_def darken_action_def Let_def)
  qed
  ultimately show ?thesis using es(1) walks_cong [of B s0 "do_global_roots darken_action"] by (simp add: global_values_def)
qed

lemma walks_finals:
  assumes "final_old s0 \<le> length (final_table s0)"
  shows "walks cs B J P s0 (final_do_strong_roots darken_action)
     (map final_fun (take (final_old s0) (final_table s0)) @
      concat (map (\<lambda>f. [final_fun f, final_val f]) (drop (final_active s0) (final_table s0))))"
proof -
  let ?T = "final_table s0"
  have a: "walks cs B J P s0 (for_each [0..<final_old s0] (scan_final_fun darken_action)) (map (\<lambda>i. final_fun (?T ! i)) [0..<final_old s0])"
    unfolding scan_final_fun_def [abs_def] by (rule walks_values) (simp add: marks_fields)
  have a': "map (\<lambda>i. final_fun (?T ! i)) [0..<final_old s0] = map final_fun (take (final_old s0) ?T)"
    using assms by (auto intro: nth_equalityI)
  have "walks cs B J P s0 (\<lambda>s. andThen (scan_final_fun darken_action i s) (\<lambda>_. scan_final_val darken_action i))
      ([final_fun (?T ! i)] @ [final_val (?T ! i)])" for i
    unfolding scan_final_fun_def scan_final_val_def [abs_def] by (intro walks_andThen walks_action) (simp_all add: marks_fields)
  then have b0: "walks cs B J P s0 (for_each [final_active s0..<length ?T]
      (\<lambda>i s. andThen (scan_final_fun darken_action i s) (\<lambda>_. scan_final_val darken_action i)))
      (concat (map (\<lambda>i. [final_fun (?T ! i), final_val (?T ! i)]) [final_active s0..<length ?T]))"
    by (intro walks_each) simp
  have b: "walks cs B J P s0 (\<lambda>s. for_each [final_active s..<length (final_table s)]
      (\<lambda>i s. andThen (scan_final_fun darken_action i s) (\<lambda>_. scan_final_val darken_action i)) s)
      (concat (map (\<lambda>i. [final_fun (?T ! i), final_val (?T ! i)]) [final_active s0..<length ?T]))"
  proof (rule walks_cong [OF _ b0])
    fix s assume m: "marks B s0 s"
    show "for_each [final_active s..<length (final_table s)] (\<lambda>i s. andThen (scan_final_fun darken_action i s) (\<lambda>_. scan_final_val darken_action i)) s =
      for_each [final_active s0..<length ?T] (\<lambda>i s. andThen (scan_final_fun darken_action i s) (\<lambda>_. scan_final_val darken_action i)) s"
      by (simp only: marks_fields(6,8) [OF m])
  qed
  have b': "map (\<lambda>i. [final_fun (?T ! i), final_val (?T ! i)]) [final_active s0..<length ?T] =
      map (\<lambda>f. [final_fun f, final_val f]) (drop (final_active s0) ?T)"
    by (auto intro!: nth_equalityI)
  show ?thesis using walks_andThen [OF a b] unfolding a' b'
  proof (rule walks_cong [rotated])
    fix s assume m: "marks B s0 s"
    show "final_do_strong_roots darken_action s = andThen (for_each [0..<final_old s0] (scan_final_fun darken_action) s)
      (\<lambda>_ s. for_each [final_active s..<length (final_table s)]
         (\<lambda>i s. andThen (scan_final_fun darken_action i s) (\<lambda>_. scan_final_val darken_action i)) s)"
      by (simp only: final_do_strong_roots_def marks_fields(7) [OF m])
  qed
qed

lemma walks_roots:
  assumes "globals_ok B s" and "final_old s \<le> length (final_table s)" and "scan_roots_hook fns = None"
  shows "walks cs B J P s (darken_all_roots fns) (roots s)"
proof -
  have a: "walks cs B J P s (\<lambda>t. darken_action (global_data t) Global_data t) [global_data s]"
    by (rule walks_action) (rule marks_fields(1))
  have h: "walks cs B J P s (do_hook fns darken_action) []" using assms(3) by (simp add: walks_def do_hook_def)
  note w = walks_andThen [OF a walks_andThen [OF walks_local walks_andThen [OF walks_global [OF assms(1)] walks_andThen [OF walks_finals [OF assms(2)] h]]]]
  show ?thesis using w unfolding darken_all_roots_def [abs_def] do_roots_def roots_def by simp
qed

subsection \<open>The properties\<close>

text \<open>A heap between two cycles: nothing is marked, and the roots that point into the heap point to the blocks \<open>B\<close> or into closures.\<close>

definition idle_heap :: "layout \<Rightarrow> val set \<Rightarrow> val set \<Rightarrow> val set \<Rightarrow> machine \<Rightarrow> bool" where
  "idle_heap cs B J W s \<longleftrightarrow> heap_ok cs B J s \<and> weak_ok B W s \<and> finals B s \<and> globals_ok B s \<and> gray_vals s = [] \<and> 2 \<le> gray_vals_size s \<and>
     (\<forall>b \<in> B. colour s b = Caml_white) \<and> heap_vals B J s (roots s)"

lemma idle_gray: "idle_heap cs B J W s \<Longrightarrow> gray_ok B {} s"
  using not_gray_white by (auto simp: idle_heap_def gray_ok_def)

lemma start_cycle_marks:
  assumes idle: "idle_heap cs B J W s" and hook: "scan_roots_hook fns = None"
  obtains t where "start_cycle fns s = Returns () t" "mark_inv cs B J W t [] []" "\<forall>b \<in> B. colour t b \<noteq> Caml_black"
    "\<forall>a \<in> B. \<forall>b. edge t a b = edge s a b" "\<forall>r \<in> set (roots s). in_heap s r \<longrightarrow> colour t (darken_base (mem s) r) = Caml_gray"
proof -
  have ok: "heap_ok cs B J s" and w: "weak_ok B W s" and f: "finals B s" and g: "globals_ok B s" and white: "\<forall>b \<in> B. colour s b = Caml_white"
    and vals: "heap_vals B J s (roots s)" using idle by (auto simp: idle_heap_def)
  let ?u = "fold darken (roots s) s"
  let ?t = "?u\<lparr>gc_phase := Phase_mark, gc_subphase := Subphase_main, markhp := 0\<rparr>"
  note d = fold_darken_roots [OF ok idle_gray [OF idle] vals]
  have "final_old s \<le> length (final_table s)" using f by (simp add: finals_def)
  then have "darken_all_roots fns s = Returns () ?u"
    using walks_roots [OF g _ hook, of cs J "{}"] ok idle_gray [OF idle] vals by (simp add: walks_def)
  then have st: "start_cycle fns s = Returns () ?t" by (simp add: start_cycle_def)
  have gc: "same_gc s ?u" using d(1) by (simp add: darkens_def)
  have sh: "same_shape cs B J s ?u" by (rule darkens_shape [OF ok d(1)])
  have "weak_ok B W ?u"
    by (rule weak_ok_same [OF ok w gc sh]) (use darkens_fields [OF ok d(1), of _ 0] w in \<open>auto simp: weak_ok_def\<close>)
  moreover have "heap_ok cs B J ?u" "gray_ok B {} ?u" "finals B ?u"
    using heap_ok_darkens [OF ok d(1)] d(2) finals_same [OF ok f gc sh] by auto
  ultimately have inv: "mark_inv cs B J W ?t [] []" by (auto simp: inv_unfold)
  have col: "colour ?t b = Caml_white \<or> colour ?t b = Caml_gray" if "b \<in> B" for b
    using darkens_color [OF d(1) that] white that by auto
  have nb: "\<forall>b \<in> B. colour ?t b \<noteq> Caml_black" using col not_gray_white by metis
  have ed: "\<forall>a \<in> B. \<forall>b. edge ?t a b = edge s a b"
  proof (intro ballI allI)
    fix a b assume that: "a \<in> B"
    have "edge ?t a b = edge ?u a b" by (simp add: edge_def scans_def in_heap_def Is_in_heap_def)
    then show "edge ?t a b = edge s a b" using edge_darkens [OF ok d(1) that] by simp
  qed
  have gr: "\<forall>r \<in> set (roots s). in_heap s r \<longrightarrow> colour ?t (darken_base (mem s) r) = Caml_gray"
  proof (intro ballI impI)
    fix r assume r: "r \<in> set (roots s)" "in_heap s r"
    then have "darken_base (mem s) r \<in> B" using vals base_in [OF ok] by (auto simp: heap_vals_def)
    then show "colour ?t (darken_base (mem s) r) = Caml_gray" using col d(4) r by fastforce
  qed
  show thesis by (rule that [OF st inv nb ed gr])
qed

lemma reach_transfer:
  assumes "heap_ok cs B J s" and "r \<in> B" and "(edge s)\<^sup>*\<^sup>* r b" and "\<forall>a \<in> B. \<forall>b. edge t a b = edge s a b"
  shows "(edge t)\<^sup>*\<^sup>* r b \<and> b \<in> B"
  using assms(3)
proof induction
  case (step a b)
  then show ?case using assms(4) edge_target [OF assms(1)] by (meson rtranclp.rtrancl_into_rtrancl)
qed (use assms(2) in simp)

text \<open>
  C1.  A cycle of the major collector keeps what the program can reach.  Between two cycles nothing in the heap is marked.  Starting a cycle
  returns; from then on the collector's iterations and the program's stores interleave in any way; and when the
  collector begins to sweep, every block that was reachable, when the cycle started, from a global variable, the
  stack, a local or global C root or a finalisation function or value that is due is black, so that the sweep
  does not free it.
\<close>

theorem cycle_keeps_reachable:
  assumes "idle_heap cs B J W s" and "scan_roots_hook fns = None"
    and "r \<in> set (roots s)" and "in_heap s r" and "(edge s)\<^sup>*\<^sup>* (darken_base (mem s) r) b"
  shows "\<exists>t. start_cycle fns s = Returns () t \<and> gc_phase t = Phase_mark \<and>
    (\<forall>u. (gc_step B J)\<^sup>*\<^sup>* t u \<and> gc_phase u = Phase_sweep \<longrightarrow> colour u b = Caml_black)"
proof -
  have ok: "heap_ok cs B J s" and vals: "heap_vals B J s (roots s)" using assms(1) by (auto simp: idle_heap_def)
  obtain t where t: "start_cycle fns s = Returns () t" "mark_inv cs B J W t [] []" "\<forall>b \<in> B. colour t b \<noteq> Caml_black"
    "\<forall>a \<in> B. \<forall>b. edge t a b = edge s a b" "\<forall>r \<in> set (roots s). in_heap s r \<longrightarrow> colour t (darken_base (mem s) r) = Caml_gray"
    by (rule start_cycle_marks [OF assms(1,2)])
  have rB: "darken_base (mem s) r \<in> B" using vals assms(3,4) base_in [OF ok] by (auto simp: heap_vals_def)
  have reach: "(edge t)\<^sup>*\<^sup>* (darken_base (mem s) r) b" using reach_transfer [OF ok rB assms(5) t(4)] by simp
  have "heap_ok cs B J t" using t(2) by (simp add: mark_inv_def)
  then have safe: "safe B t b" using reachable_safe [OF reach rB] t(3,5) assms(3,4) by blast
  have "colour u b = Caml_black" if "(gc_step B J)\<^sup>*\<^sup>* t u" "gc_phase u = Phase_sweep" for u
    using gc_steps_safe [OF that(1) t(2) safe] that(2) by (auto simp: mark_inv_def)
  then show ?thesis using t(1,2) by (auto simp: mark_inv_def)
qed

definition cycle_example :: machine where
  "cycle_example = mark_example\<lparr>mem := (mem mark_example)(8192 := Make_header 1 0 Caml_white), gray_vals := [], gc_phase := Phase_idle,
     global_data := 8196\<rparr>"

lemma cycle_example_simps:
  "mem cycle_example 8192 = Make_header 1 0 Caml_white" "mem cycle_example 8196 = 8204" "mem cycle_example 8200 = Make_header 1 String_tag Caml_white"
  "mem cycle_example 8204 = 1" "mem cycle_example 8188 = 0" "mem cycle_example 8184 = 16" "mem cycle_example 4 = 0"
  "Is_in_heap cycle_example 8196" "Is_in_heap cycle_example 8204" "heap_start cycle_example = 8192"
  "gray_vals cycle_example = []" "gray_vals_size cycle_example = 4" "heap_is_pure cycle_example"
  "weak_list_head cycle_example = 0" "weak_prev cycle_example = None" "final_old cycle_example = 0" "final_active cycle_example = 0"
  "final_table cycle_example = []" "caml_global_roots cycle_example = 0" "roots cycle_example = [8196]"
  by (simp_all add: cycle_example_def mark_example_def boot_machine_def Is_in_heap_def Page_def drop_bit_eq_div roots_def
      global_values_def stack_words_def global_nodes.simps)

lemma cycle_example_idle: "idle_heap [(8192, [8192, 8200])] {8196, 8204} {} {} cycle_example"
proof -
  have h: "Wosize_hd (Make_header 1 0 Caml_white) = 1" "Tag_hd (Make_header 1 0 Caml_white) = 0" "Color_hd (Make_header 1 0 Caml_white) = Caml_white"
    by (simp_all add: Make_header_fields header_ok_def Max_wosize_def)
  show ?thesis
    by (simp add: idle_heap_def heap_ok_def block_ok_def in_heap_def weak_ok_def finals_def globals_ok_def hdrs_def cycle_example_simps heap_vals_def
        mark_example_headers h Wosize_val_def Tag_val_def Hd_val_def scans_def Chunk_next_def Chunk_size_def Bhsize_hd_def Whsize_hd_def
        Whsize_wosize_def Bsize_wsize_def not_gray_white not_gray_white [symmetric] Is_block_def global_nodes.simps)
qed

theorem cycle_keeps_reachable_witness:
  "\<exists>t. start_cycle quiet_fns cycle_example = Returns () t \<and>
     (\<forall>u. (gc_step {8196, 8204} {})\<^sup>*\<^sup>* t u \<and> gc_phase u = Phase_sweep \<longrightarrow> colour u 8196 = Caml_black)"
proof -
  have "darken_base (mem cycle_example) 8196 = 8196" by (rule base_block [OF conjunct1 [OF cycle_example_idle [unfolded idle_heap_def]]]) simp
  moreover have "in_heap cycle_example 8196" by (simp add: in_heap_def cycle_example_simps Is_block_def)
  ultimately show ?thesis
    using cycle_keeps_reachable [OF cycle_example_idle, of quiet_fns 8196 8196] by (auto simp: quiet_fns_def cycle_example_simps)
qed

end
