(* ===== verification/Minor_GC.thy ===== *)
theory Minor_GC
  imports Major_GC Prims
begin

text \<open>
  The minor collector (\<^verbatim>\<open>byterun/minor_gc.c\<close>) and the weak arrays (\<^verbatim>\<open>byterun/weak.c\<close>).  \<open>oldify_one\<close> copies a block of the
  minor heap to the major heap and leaves a forward pointer; the fields of the copy, but the first,
  are filled by \<open>oldify_mopup\<close>, which works through the list of copied blocks that is threaded through their second fields.

  The loops that the code writes with \<^verbatim>\<open>goto\<close> and \<^verbatim>\<open>while\<close> are bounded by the number of words of the minor heap: every round either
  forwards a block of the minor heap or follows a forwarding block there.
\<close>

subsection \<open>Copying\<close>

definition loc_get :: "loc \<Rightarrow> machine \<Rightarrow> val" where
  "loc_get p s =
     (case p of
        Mem a \<Rightarrow> mem s a
      | Stk a \<Rightarrow> stk s a
      | Global_data \<Rightarrow> global_data s
      | Local i \<Rightarrow> local_roots s ! i
      | Final_fun i \<Rightarrow> final_fun (final_table s ! i)
      | Final_val i \<Rightarrow> final_val (final_table s ! i))"

definition copy_words :: "val \<Rightarrow> val \<Rightarrow> uint32 \<Rightarrow> mem \<Rightarrow> mem" where
  "copy_words dst src n m = fold (\<lambda>i m. set_Field dst (word_of_nat i) (Field m src (word_of_nat i)) m) [0..<unat n] m"

definition set_forward :: "val \<Rightarrow> val \<Rightarrow> machine \<Rightarrow> machine" where
  "set_forward v result s = s\<lparr>mem := set_Field v 0 result (set_Hd_val v 0 (mem s))\<rparr>"

fun oldify_one :: "nat \<Rightarrow> fns \<Rightarrow> val \<Rightarrow> loc \<Rightarrow> machine \<Rightarrow> unit result" where
  "oldify_one fuel fns v p s =
     (if Is_block v \<and> Is_young s v
      then let h = Hd_val (mem s) v
           in if h = 0 then Returns () (loc_set p (Field (mem s) v 0) s)
              else let tag = Tag_hd h
                   in if tag < Infix_tag
                      then andThen (alloc_shr fns (Wosize_hd h) tag s)
                        (\<lambda>result s.
                           let s = loc_set p result s; field0 = Field (mem s) v 0; s = set_forward v result s
                           in if 1 < Wosize_hd h
                              then Returns () (s\<lparr>mem := set_Field result 1 (oldify_todo_list s) (set_Field result 0 field0 (mem s)),
                                                 oldify_todo_list := v\<rparr>)
                              else (case fuel of 0 \<Rightarrow> Loops | Suc n \<Rightarrow> oldify_one n fns field0 (Mem result) s))
                      else if No_scan_tag \<le> tag
                      then andThen (alloc_shr fns (Wosize_hd h) tag s)
                        (\<lambda>result s. Returns () (loc_set p result
                           (set_forward v result (s\<lparr>mem := copy_words result v (Wosize_hd h) (mem s)\<rparr>))))
                      else (case fuel of
                              0 \<Rightarrow> Loops
                            | Suc n \<Rightarrow>
                                if tag = Infix_tag
                                then andThen (oldify_one n fns (v - Infix_offset_hd h) p s)
                                       (\<lambda>_ s. Returns () (loc_set p (loc_get p s + Infix_offset_hd h) s))
                                else oldify_one n fns (Forward_val (mem s) v) p s)
      else Returns () (loc_set p v s))"

definition young_words :: "'a rt_scheme \<Rightarrow> nat" where
  "young_words s = unat (young_end s - young_start s)"

definition mopup_field :: "fns \<Rightarrow> val \<Rightarrow> val \<Rightarrow> nat \<Rightarrow> machine \<Rightarrow> unit result" where
  "mopup_field fns v new_v i s =
     (let f = Field (mem s) v (word_of_nat i)
      in if Is_block f \<and> Is_young s f then oldify_one (young_words s) fns f (Mem (fld new_v i)) s
         else Returns () (s\<lparr>mem := set_Field new_v (word_of_nat i) f (mem s)\<rparr>))"

fun oldify_mopup :: "nat \<Rightarrow> fns \<Rightarrow> machine \<Rightarrow> unit result" where
  "oldify_mopup fuel fns s =
     (if oldify_todo_list s \<noteq> 0
      then case fuel of
             0 \<Rightarrow> Loops
           | Suc n \<Rightarrow>
               (let v = oldify_todo_list s; new_v = Field (mem s) v 0;
                    s = s\<lparr>oldify_todo_list := Field (mem s) new_v 1\<rparr>;
                    f = Field (mem s) new_v 0
                in andThen (if Is_block f \<and> Is_young s f then oldify_one (young_words s) fns f (Mem new_v) s else Returns () s)
                     (\<lambda>_ s. andThen (for_each [1..<unat (Wosize_val (mem s) new_v)] (mopup_field fns v new_v) s)
                       (\<lambda>_ s. oldify_mopup n fns s)))
      else Returns () s)"

definition oldify_action :: "fns \<Rightarrow> scanning_action" where
  "oldify_action fns v p s = oldify_one (young_words s) fns v p s"

definition oldify_local_roots :: "fns \<Rightarrow> machine \<Rightarrow> unit result" where
  "oldify_local_roots fns s =
     andThen (do_local_roots (oldify_action fns) (extern_sp s) (stack_high s) s)
       (\<lambda>_ s. andThen (do_global_roots (oldify_action fns) s)
         (\<lambda>_ s. andThen (final_do_young_roots (oldify_action fns) s)
           (\<lambda>_ s. do_hook fns (oldify_action fns) s)))"

subsection \<open>Collections\<close>

definition empty_minor_heap :: "fns \<Rightarrow> machine \<Rightarrow> unit result" where
  "empty_minor_heap fns s =
     andThen
       (if young_ptr s \<noteq> young_end s
        then andThen (oldify_local_roots fns (s\<lparr>in_minor_collection := True\<rparr>))
          (\<lambda>_ s. andThen (for_each (ref_table s) (\<lambda>r s. oldify_one (young_words s) fns (mem s r) (Mem r) s) s)
            (\<lambda>_ s. andThen (oldify_mopup (young_words s) fns s)
              (\<lambda>_ s. let s = (if young_ptr s < young_start s then s\<lparr>young_ptr := young_start s\<rparr> else s)
                     in Returns () (s\<lparr>stat_minor_words := rnd (stat_minor_words s + of_nat (unat (Wsize_bsize (young_end s - young_ptr s)))),
                                      young_ptr := young_end s, young_limit := young_start s, ref_table := [],
                                      ref_table_limit := ref_table_size s, in_minor_collection := False\<rparr>))))
        else Returns () s)
       (\<lambda>_ s. Returns () (final_empty_young s))"

text \<open>\<open>calls\<close> bounds the number of finalisation functions that run.\<close>

definition minor_collection_full :: "nat \<Rightarrow> fns \<Rightarrow> machine \<Rightarrow> unit result" where
  "minor_collection_full calls fns s =
     (let prev_alloc_words = allocated_words s
      in andThen (empty_minor_heap fns s)
        (\<lambda>_ s. let s = s\<lparr>stat_promoted_words := rnd (stat_promoted_words s + of_nat (unat (allocated_words s - prev_alloc_words))),
                         stat_minor_collections := stat_minor_collections s + 1\<rparr>
               in andThen (major_collection_slice fns 0 s)
                    (\<lambda>_ s. andThen (final_do_calls calls fns (s\<lparr>force_major_slice := False\<rparr>))
                      (\<lambda>_ s. empty_minor_heap fns s))))"

definition set_minor_heap_size :: "nat \<Rightarrow> fns \<Rightarrow> uint32 \<Rightarrow> machine \<Rightarrow> unit result" where
  "set_minor_heap_size calls fns sz s =
     andThen (if young_ptr s \<noteq> young_end s then minor_collection_full calls fns s else Returns () s)
       (\<lambda>_ s. andThen (stat_alloc fns sz s)
         (\<lambda>new_heap s.
            let s = s\<lparr>young_start := new_heap, young_end := new_heap + sz, young_limit := new_heap, young_ptr := new_heap + sz,
                      minor_heap_size := sz, ref_table_size := unat sz div 4 div 8, ref_table_reserve := 256\<rparr>
            in andThen (stat_alloc fns (word_of_nat ((ref_table_size s + ref_table_reserve s) * 4)) s)
                 (\<lambda>_ s. Returns () (s\<lparr>ref_table := [], ref_table_limit := ref_table_size s\<rparr>))))"

subsection \<open>Weak arrays\<close>

definition None_val :: val where "None_val = Val_int 0"
definition Some_tag :: uint32 where "Some_tag = 0"

definition clear_weak :: "val \<Rightarrow> uint32 \<Rightarrow> mem \<Rightarrow> mem" where
  "clear_weak res n m = fold (\<lambda>i m. set_Field res (word_of_nat i) 0 m) [1..<unat n] m"

definition weak_create :: "fns \<Rightarrow> val \<Rightarrow> machine \<Rightarrow> val result" where
  "weak_create fns len s =
     (let sz = Long_val len + 1
      in if sz = 0 \<or> Max_wosize < sz then invalid_argument fns ''Weak.create'' s
         else andThen (alloc_shr fns sz Abstract_tag s)
           (\<lambda>res s. Returns res (s\<lparr>mem := set_Field res 0 (weak_list_head s) (clear_weak res sz (mem s)), weak_list_head := res\<rparr>)))"

definition weak_set :: "fns \<Rightarrow> val \<Rightarrow> val \<Rightarrow> val \<Rightarrow> machine \<Rightarrow> val result" where
  "weak_set fns ar n el s =
     (let offset = Long_val n + 1
      in if offset < 1 \<or> Wosize_val (mem s) ar \<le> offset then invalid_argument fns ''Weak.set'' s
         else let s = s\<lparr>mem := set_Field ar offset 0 (mem s)\<rparr>
              in Returns Val_unit (if el \<noteq> None_val then Modify (ar + 4 * offset) (Field (mem s) el 0) s else s))"

definition weak_get :: "fns \<Rightarrow> val \<Rightarrow> val \<Rightarrow> machine \<Rightarrow> val result" where
  "weak_get fns ar n s =
     (let offset = Long_val n + 1; s = push_roots [0, 0, ar, n] s
      in if offset < 1 \<or> Wosize_val (mem s) ar \<le> offset then invalid_argument fns ''Weak.get'' s
         else if Field (mem s) ar offset = 0 then Returns None_val (pop_roots 4 s)
         else let s = set_root 1 (Field (mem s) ar offset) s;
                  s = (if gc_phase s = Phase_mark then darken (root s 1) s else s);
                  (res, s) = alloc_small fns 1 Some_tag s;
                  s = s\<lparr>mem := set_Field res 0 (root s 1) (mem s)\<rparr>
              in Returns res (pop_roots 4 s))"

definition modify_copy :: "val \<Rightarrow> val \<Rightarrow> uint32 \<Rightarrow> machine \<Rightarrow> machine" where
  "modify_copy dst src n s = fold (\<lambda>i s. Modify (fld dst i) (Field (mem s) src (word_of_nat i)) s) [0..<unat n] s"

definition weak_get_copy :: "fns \<Rightarrow> val \<Rightarrow> val \<Rightarrow> machine \<Rightarrow> val result" where
  "weak_get_copy fns ar n s =
     (let offset = Long_val n + 1; s = push_roots [0, 0, ar, n] s
      in if offset < 1 \<or> Wosize_val (mem s) ar \<le> offset then invalid_argument fns ''Weak.get'' s
         else let v = Field (mem s) ar offset
              in if v = 0 then Returns None_val (pop_roots 4 s)
                 else andThen (alloc fns (Wosize_val (mem s) v) (Tag_val (mem s) v) s)
                   (\<lambda>elt s. let s = set_root 1 elt s; v = Field (mem s) (root s 2) offset
                            in if v = 0 then Returns None_val (pop_roots 4 s)
                               else let s = (if Tag_val (mem s) v < No_scan_tag then modify_copy (root s 1) v (Wosize_val (mem s) v) s
                                             else s\<lparr>mem := copy_words (root s 1) v (Wosize_val (mem s) v) (mem s)\<rparr>);
                                        (res, s) = alloc_small fns 1 Some_tag s;
                                        s = s\<lparr>mem := set_Field res 0 (root s 1) (mem s)\<rparr>
                                    in Returns res (pop_roots 4 s)))"

definition weak_check :: "fns \<Rightarrow> val \<Rightarrow> val \<Rightarrow> machine \<Rightarrow> val result" where
  "weak_check fns ar n s =
     (let offset = Long_val n + 1
      in if offset < 1 \<or> Wosize_val (mem s) ar \<le> offset then invalid_argument fns ''Weak.get'' s
         else Returns (Val_bool (Field (mem s) ar offset \<noteq> 0)) s)"

end
