(* ===== verification/Bignum.thy ===== *)
theory Bignum
  imports Prelude
begin

text \<open>
  The kernel of the arbitrary-precision library (\<^verbatim>\<open>otherlibs/num/bignum/c/KerN.c\<close> and its directory \<^verbatim>\<open>bn\<close>): natural numbers
  as digits of 32 bits, the least significant one first, in a memory of digits.  A \<^verbatim>\<open>BigNum\<close> is the index of its first digit, so that
  numbers may overlap as they do in the code; an operation that changes digits returns the memory.  \<open>num m p n\<close> is the number of \<open>n\<close>
  digits at \<open>p\<close>.
\<close>

type_synonym dmem = "nat \<Rightarrow> uint32"

definition Base :: nat where "Base = 4294967296"

primrec num :: "dmem \<Rightarrow> nat \<Rightarrow> nat \<Rightarrow> nat" where
  "num m p 0 = 0"
| "num m p (Suc n) = unat (m p) + Base * num m (Suc p) n"

subsection \<open>Access to digits\<close>

primrec BnnSetToZero :: "dmem \<Rightarrow> nat \<Rightarrow> nat \<Rightarrow> dmem" where
  "BnnSetToZero m nn 0 = m"
| "BnnSetToZero m nn (Suc nl) = BnnSetToZero (m(nn := 0)) (Suc nn) nl"

primrec copy_up :: "dmem \<Rightarrow> nat \<Rightarrow> nat \<Rightarrow> nat \<Rightarrow> dmem" where
  "copy_up m mm nn 0 = m"
| "copy_up m mm nn (Suc nl) = copy_up (m(mm := m nn)) (Suc mm) (Suc nn) nl"

primrec copy_down :: "dmem \<Rightarrow> nat \<Rightarrow> nat \<Rightarrow> nat \<Rightarrow> dmem" where
  "copy_down m mm nn 0 = m"
| "copy_down m mm nn (Suc nl) = copy_down (m(mm + nl := m (nn + nl))) mm nn nl"

definition BnnAssign :: "dmem \<Rightarrow> nat \<Rightarrow> nat \<Rightarrow> nat \<Rightarrow> dmem" where
  "BnnAssign m mm nn nl =
     (if nl = 0 then m
      else if mm < nn \<or> nn + nl < mm then copy_up m mm nn nl
      else if nn < mm then copy_down m mm nn nl
      else m)"

definition BnnSetDigit :: "dmem \<Rightarrow> nat \<Rightarrow> uint32 \<Rightarrow> dmem" where "BnnSetDigit m nn d = m(nn := d)"

definition BnnGetDigit :: "dmem \<Rightarrow> nat \<Rightarrow> uint32" where "BnnGetDigit m nn = m nn"

fun strip_zeros :: "dmem \<Rightarrow> nat \<Rightarrow> nat \<Rightarrow> nat" where
  "strip_zeros m nn 0 = 0"
| "strip_zeros m nn (Suc nl) = (if m (nn + nl) = 0 then strip_zeros m nn nl else Suc nl)"

definition BnnNumDigits :: "dmem \<Rightarrow> nat \<Rightarrow> nat \<Rightarrow> nat" where
  "BnnNumDigits m nn nl = (let nl = strip_zeros m nn nl in if nl = 0 then 1 else nl)"

text \<open>The loop of \<open>BnnNumLeadingZeroBitsInDigit\<close> halves the width of the mask until it is zero.\<close>

function lead_loop :: "uint32 \<Rightarrow> uint32 \<Rightarrow> nat \<Rightarrow> nat \<Rightarrow> nat" where
  "lead_loop d msk maskl p =
     (if maskl = 0 then p
      else let (p, d) = (if d AND msk = 0 then (p + maskl, push_bit maskl d) else (p, d))
           in lead_loop d (push_bit (maskl div 2) msk) (maskl div 2) p)"
  by auto
termination
  by (relation "measure (\<lambda>(d, msk, maskl, p). maskl)") auto

definition BnnNumLeadingZeroBitsInDigit :: "uint32 \<Rightarrow> nat" where
  "BnnNumLeadingZeroBitsInDigit d = (if d = 0 then 32 else lead_loop d (push_bit 16 (NOT 0)) 16 0)"

definition BN_DIGIT_SIZE :: nat where "BN_DIGIT_SIZE = 32"
definition BN_WORD_SIZE :: nat where "BN_WORD_SIZE = 30"

definition BnnDoesDigitFitInWord :: "uint32 \<Rightarrow> bool" where
  "BnnDoesDigitFitInWord d = (if BN_WORD_SIZE < BN_DIGIT_SIZE then \<not> push_bit BN_WORD_SIZE 1 \<le> d else True)"

definition BnnIsDigitZero :: "uint32 \<Rightarrow> bool" where "BnnIsDigitZero d = (d = 0)"

definition BnnIsDigitNormalized :: "uint32 \<Rightarrow> bool" where "BnnIsDigitNormalized d = (d AND push_bit 31 1 \<noteq> 0)"

definition BnnIsDigitOdd :: "uint32 \<Rightarrow> bool" where "BnnIsDigitOdd d = (d AND 1 \<noteq> 0)"

datatype BigNumCmp = BN_LT | BN_EQ | BN_GT

definition BnnCompareDigits :: "uint32 \<Rightarrow> uint32 \<Rightarrow> BigNumCmp" where
  "BnnCompareDigits d1 d2 = (if d2 < d1 then BN_GT else if d1 = d2 then BN_EQ else BN_LT)"

subsection \<open>Logical operations and shifts\<close>

primrec BnnComplement :: "dmem \<Rightarrow> nat \<Rightarrow> nat \<Rightarrow> dmem" where
  "BnnComplement m nn 0 = m"
| "BnnComplement m nn (Suc nl) = BnnComplement (m(nn := NOT (m nn))) (Suc nn) nl"

definition BnnAndDigits :: "dmem \<Rightarrow> nat \<Rightarrow> uint32 \<Rightarrow> dmem" where "BnnAndDigits m n d = m(n := m n AND d)"
definition BnnOrDigits :: "dmem \<Rightarrow> nat \<Rightarrow> uint32 \<Rightarrow> dmem" where "BnnOrDigits m n d = m(n := m n OR d)"
definition BnnXorDigits :: "dmem \<Rightarrow> nat \<Rightarrow> uint32 \<Rightarrow> dmem" where "BnnXorDigits m n d = m(n := m n XOR d)"

primrec shl_loop :: "dmem \<Rightarrow> nat \<Rightarrow> nat \<Rightarrow> nat \<Rightarrow> uint32 \<Rightarrow> dmem \<times> uint32" where
  "shl_loop m mm 0 nbits res = (m, res)"
| "shl_loop m mm (Suc ml) nbits res =
     (let save = m mm in shl_loop (m(mm := push_bit nbits save OR res)) (Suc mm) ml nbits (drop_bit (32 - nbits) save))"

definition BnnShiftLeft :: "dmem \<Rightarrow> nat \<Rightarrow> nat \<Rightarrow> nat \<Rightarrow> dmem \<times> uint32" where
  "BnnShiftLeft m mm ml nbits = (if nbits \<noteq> 0 then shl_loop m mm ml nbits 0 else (m, 0))"

primrec shr_loop :: "dmem \<Rightarrow> nat \<Rightarrow> nat \<Rightarrow> nat \<Rightarrow> uint32 \<Rightarrow> dmem \<times> uint32" where
  "shr_loop m mm 0 nbits res = (m, res)"
| "shr_loop m mm (Suc ml) nbits res =
     (let save = m (mm + ml) in shr_loop (m(mm + ml := drop_bit nbits save OR res)) mm ml nbits (push_bit (32 - nbits) save))"

definition BnnShiftRight :: "dmem \<Rightarrow> nat \<Rightarrow> nat \<Rightarrow> nat \<Rightarrow> dmem \<times> uint32" where
  "BnnShiftRight m mm ml nbits = (if nbits \<noteq> 0 then shr_loop m mm ml nbits 0 else (m, 0))"

subsection \<open>Addition and subtraction\<close>

primrec carry_loop :: "dmem \<Rightarrow> nat \<Rightarrow> nat \<Rightarrow> dmem \<times> uint32" where
  "carry_loop m nn 0 = (m, 1)"
| "carry_loop m nn (Suc nl) =
     (let m = m(nn := m nn + 1) in if m nn = 0 then carry_loop m (Suc nn) nl else (m, 0))"

definition BnnAddCarry :: "dmem \<Rightarrow> nat \<Rightarrow> nat \<Rightarrow> uint32 \<Rightarrow> dmem \<times> uint32" where
  "BnnAddCarry m nn nl carryin = (if carryin = 0 then (m, 0) else if nl = 0 then (m, 1) else carry_loop m nn nl)"

primrec add_loop :: "dmem \<Rightarrow> nat \<Rightarrow> nat \<Rightarrow> nat \<Rightarrow> uint32 \<Rightarrow> dmem \<times> uint32" where
  "add_loop m mm nn 0 c = (m, c)"
| "add_loop m mm nn (Suc nl) c =
     (let save = m mm; c = c + save
      in if c < save then add_loop (m(mm := m nn)) (Suc mm) (Suc nn) nl 1
         else let save = m nn; c = c + save in add_loop (m(mm := c)) (Suc mm) (Suc nn) nl (if c < save then 1 else 0))"

definition BnnAdd :: "dmem \<Rightarrow> nat \<Rightarrow> nat \<Rightarrow> nat \<Rightarrow> nat \<Rightarrow> uint32 \<Rightarrow> dmem \<times> uint32" where
  "BnnAdd m mm ml nn nl carryin = (let (m, c) = add_loop m mm nn nl carryin in BnnAddCarry m (mm + nl) (ml - nl) c)"

primrec borrow_loop :: "dmem \<Rightarrow> nat \<Rightarrow> nat \<Rightarrow> dmem \<times> uint32" where
  "borrow_loop m nn 0 = (m, 0)"
| "borrow_loop m nn (Suc nl) =
     (let old = m nn; m = m(nn := old - 1) in if old = 0 then borrow_loop m (Suc nn) nl else (m, 1))"

definition BnnSubtractBorrow :: "dmem \<Rightarrow> nat \<Rightarrow> nat \<Rightarrow> uint32 \<Rightarrow> dmem \<times> uint32" where
  "BnnSubtractBorrow m nn nl carryin = (if carryin = 1 then (m, 1) else if nl = 0 then (m, 0) else borrow_loop m nn nl)"

primrec sub_loop :: "dmem \<Rightarrow> nat \<Rightarrow> nat \<Rightarrow> nat \<Rightarrow> uint32 \<Rightarrow> dmem \<times> uint32" where
  "sub_loop m mm nn 0 c = (m, c)"
| "sub_loop m mm nn (Suc nl) c =
     (let save = m mm; invn = m nn XOR (- 1); c = c + save
      in if c < save then sub_loop (m(mm := invn)) (Suc mm) (Suc nn) nl 1
         else let c = c + invn in sub_loop (m(mm := c)) (Suc mm) (Suc nn) nl (if c < invn then 1 else 0))"

definition BnnSubtract :: "dmem \<Rightarrow> nat \<Rightarrow> nat \<Rightarrow> nat \<Rightarrow> nat \<Rightarrow> uint32 \<Rightarrow> dmem \<times> uint32" where
  "BnnSubtract m mm ml nn nl carryin = (let (m, c) = sub_loop m mm nn nl carryin in BnnSubtractBorrow m (mm + nl) (ml - nl) c)"

subsection \<open>Comparison\<close>

definition BnnIsZero :: "dmem \<Rightarrow> nat \<Rightarrow> nat \<Rightarrow> bool" where
  "BnnIsZero m nn nl = (BnnNumDigits m nn nl = 1 \<and> (nl = 0 \<or> BnnIsDigitZero (m nn)))"

primrec cmp_loop :: "dmem \<Rightarrow> nat \<Rightarrow> nat \<Rightarrow> nat \<Rightarrow> BigNumCmp" where
  "cmp_loop m mm nn 0 = BN_EQ"
| "cmp_loop m mm nn (Suc ml) =
     (let result = BnnCompareDigits (m (mm + ml)) (m (nn + ml)) in if result = BN_EQ then cmp_loop m mm nn ml else result)"

definition BnnCompare :: "dmem \<Rightarrow> nat \<Rightarrow> nat \<Rightarrow> nat \<Rightarrow> nat \<Rightarrow> BigNumCmp" where
  "BnnCompare m mm ml nn nl =
     (let ml = BnnNumDigits m mm ml; nl = BnnNumDigits m nn nl
      in if ml \<noteq> nl then (if nl < ml then BN_GT else BN_LT) else cmp_loop m mm nn ml)"

subsection \<open>Multiplication\<close>

definition mul_digit :: "uint32 \<Rightarrow> uint32 \<Rightarrow> uint32 \<Rightarrow> uint32 \<Rightarrow> uint32 \<Rightarrow> uint32 \<times> uint32" where
  "mul_digit Ld Hd m_digit p c =
     (let Lm = m_digit AND 0xffff; Hm = drop_bit 16 m_digit;
          X0 = Ld * Lm; X2 = Hd * Lm; X3 = Hd * Hm; X1 = Ld * Hm;
          c = c + X0; X3 = (if c < X0 then X3 + 1 else X3);
          X1 = X1 + X2; X3 = (if X1 < X2 then X3 + push_bit 16 1 else X3);
          X3 = X3 + drop_bit 16 X1; X1 = push_bit 16 X1;
          c = c + X1; X3 = (if c < X1 then X3 + 1 else X3);
          p = p + c; X3 = (if p < c then X3 + 1 else X3)
      in (p, X3))"

primrec mul_loop :: "dmem \<Rightarrow> nat \<Rightarrow> nat \<Rightarrow> nat \<Rightarrow> uint32 \<Rightarrow> uint32 \<Rightarrow> uint32 \<Rightarrow> dmem \<times> uint32" where
  "mul_loop m pp mm 0 Ld Hd c = (m, c)"
| "mul_loop m pp mm (Suc ml) Ld Hd c =
     (let (p, c) = mul_digit Ld Hd (m mm) (m pp) c in mul_loop (m(pp := p)) (Suc pp) (Suc mm) ml Ld Hd c)"

definition BnnMultiplyDigit :: "dmem \<Rightarrow> nat \<Rightarrow> nat \<Rightarrow> nat \<Rightarrow> nat \<Rightarrow> uint32 \<Rightarrow> dmem \<times> uint32" where
  "BnnMultiplyDigit m pp pl mm ml d =
     (if d = 0 then (m, 0)
      else if d = 1 then BnnAdd m pp pl mm ml 0
      else let Ld = d AND 0xffff; Hd = drop_bit 16 d;
               (m, c) = mul_loop m pp mm ml Ld Hd 0;
               pp = pp + ml; X0 = m pp; c = c + X0; m = m(pp := c)
           in if X0 \<le> c then (m, 0) else carry_loop m (Suc pp) (pl - ml - 1))"

primrec mult_loop :: "dmem \<Rightarrow> nat \<Rightarrow> nat \<Rightarrow> nat \<Rightarrow> nat \<Rightarrow> nat \<Rightarrow> nat \<Rightarrow> uint32 \<Rightarrow> dmem \<times> uint32" where
  "mult_loop m pp pl mm ml nn 0 c = (m, c)"
| "mult_loop m pp pl mm ml nn (Suc nl) c =
     (let (m, c1) = BnnMultiplyDigit m pp pl mm ml (m nn) in mult_loop m (Suc pp) (pl - 1) mm ml (Suc nn) nl (c + c1))"

text \<open>The loop for squaring; \<open>n_prev\<close> is the bit that doubling the previous digit lost.\<close>

primrec square_loop :: "dmem \<Rightarrow> nat \<Rightarrow> nat \<Rightarrow> nat \<Rightarrow> nat \<Rightarrow> uint32 \<Rightarrow> uint32 \<Rightarrow> dmem \<times> uint32" where
  "square_loop m pp pl nn 0 n_prev c = (m, c)"
| "square_loop m pp pl nn (Suc nl) n_prev c =
     (let n = m nn;
          (m, c1) = BnnMultiplyDigit m pp pl nn 1 n; c = c + c1;
          (m, c2) = (if n_prev \<noteq> 0 then BnnAdd m pp pl nn 1 0 else (m, 0)); c = c + c2;
          nn = nn + 1; pp = pp + 2; pl = pl - 2;
          (m, c3) = BnnMultiplyDigit m (pp - 1) (pl + 1) nn nl (n + n + n_prev)
      in square_loop m pp pl nn nl (if slt n 0 then 1 else 0) (c + c3))"

definition BnnMultiply :: "dmem \<Rightarrow> nat \<Rightarrow> nat \<Rightarrow> nat \<Rightarrow> nat \<Rightarrow> nat \<Rightarrow> nat \<Rightarrow> dmem \<times> uint32" where
  "BnnMultiply m pp pl mm ml nn nl =
     (if mm = nn \<and> ml = nl \<and> 6 < nl then square_loop m pp pl nn nl 0 0 else mult_loop m pp pl mm ml nn nl 0)"

section \<open>Correctness\<close>

text \<open>A memory is compared as a whole: an update is only evaluated at a known index.\<close>

declare fun_upd_apply [simp del] fun_upd_same [simp] fun_upd_other [simp]

subsection \<open>Numbers\<close>

lemma digit_bound: "unat (d :: uint32) < Base"
  using unsigned_less [of d] by (simp add: Base_def)

lemma Base_pos [simp]: "0 < Base" "Base \<noteq> 0" "1 < Base" "Suc 0 \<le> Base" by (simp_all add: Base_def)

lemma num_cong: "(\<And>i. p \<le> i \<Longrightarrow> i < p + n \<Longrightarrow> m i = m' i) \<Longrightarrow> num m p n = num m' p n"
proof (induction n arbitrary: p)
  case (Suc n)
  have "num m (Suc p) n = num m' (Suc p) n" by (rule Suc.IH) (use Suc.prems in auto)
  then show ?case using Suc.prems [of p] by simp
qed simp

lemma num_add: "num m p (a + b) = num m p a + Base ^ a * num m (p + a) b"
  by (induction a arbitrary: p) (simp_all add: algebra_simps)

lemma num_bound: "num m p n < Base ^ n"
proof (induction n arbitrary: p)
  case (Suc n)
  have "num m (Suc p) n + 1 \<le> Base ^ n" using Suc [of "Suc p"] by simp
  then have "Base * (num m (Suc p) n + 1) \<le> Base * Base ^ n" by (rule mult_le_mono2)
  then show ?case using digit_bound [of "m p"] by simp
qed simp

lemma num_Suc_top: "num m p (Suc n) = num m p n + Base ^ n * unat (m (p + n))"
  using num_add [of m p n 1] by simp

lemma num_other [simp]: "i < p \<or> p + n \<le> i \<Longrightarrow> num (m(i := d)) p n = num m p n"
  by (rule num_cong) auto

definition keeps :: "dmem \<Rightarrow> dmem \<Rightarrow> nat \<Rightarrow> nat \<Rightarrow> bool" where
  "keeps m m' p n \<longleftrightarrow> (\<forall>i. i < p \<or> p + n \<le> i \<longrightarrow> m' i = m i)"

lemma keepsD: "keeps m m' p n \<Longrightarrow> i < p \<or> p + n \<le> i \<Longrightarrow> m' i = m i" by (auto simp: keeps_def)

lemma keeps_refl [simp]: "keeps m m p n" by (simp add: keeps_def)

lemma keeps_num: "keeps m m' p n \<Longrightarrow> q + k \<le> p \<or> p + n \<le> q \<Longrightarrow> num m' q k = num m q k"
  by (rule num_cong) (auto simp: keeps_def)

lemma keeps_trans: "keeps m m' p n \<Longrightarrow> keeps m' m'' q k \<Longrightarrow> r \<le> p \<Longrightarrow> r \<le> q \<Longrightarrow> p + n \<le> r + j \<Longrightarrow> q + k \<le> r + j \<Longrightarrow> keeps m m'' r j"
  by (auto simp: keeps_def)

lemma keeps_upd: "keeps (m(p := d)) m' (Suc p) n \<Longrightarrow> keeps m m' p (Suc n)"
  by (auto simp: keeps_def)

lemma keeps_upd_top: "keeps (m(p + n := d)) m' p n \<Longrightarrow> keeps m m' p (Suc n)"
  by (auto simp: keeps_def fun_upd_apply)

subsection \<open>Digits and carries\<close>

lemma add_carry: "unat x + unat y = unat (x + y) + Base * (if x + y < y then 1 else 0)" for x y :: uint32
proof -
  have b: "unat x < 4294967296" "unat y < 4294967296" using digit_bound by (simp_all add: Base_def)
  have s: "unat (x + y) = (unat x + unat y) mod 4294967296" by (simp add: unat_word_ariths)
  show ?thesis
  proof (cases "unat x + unat y < 4294967296")
    case True
    then have "unat (x + y) = unat x + unat y" using s by simp
    then show ?thesis by (simp add: word_less_nat_alt)
  next
    case False
    then have "unat (x + y) = unat x + unat y - 4294967296" using s b by (simp add: le_mod_geq)
    then show ?thesis using False b by (simp add: word_less_nat_alt Base_def)
  qed
qed

lemma add_carry': "unat x + unat y = unat (x + y) + Base * (if x + y < x then 1 else 0)" for x y :: uint32
  using add_carry [of y x] by (simp add: add.commute)

lemma inc_carry: "unat (x + 1) + Base * (if x + 1 = 0 then 1 else 0) = unat x + 1" for x :: uint32
proof -
  have "x + 1 < 1 \<longleftrightarrow> x + 1 = 0" using word_gt_0 [of "x + 1"] by (auto simp: word_less_nat_alt unat_eq_zero)
  then show ?thesis using add_carry [of x 1] by simp
qed

lemma dec_borrow: "unat (x - 1) + 1 = unat x + Base * (if x = 0 then 1 else 0)" for x :: uint32
proof (cases "x = 0")
  case True
  then show ?thesis by (simp add: Base_def unsigned_minus_1_eq_mask mask_eq_exp_minus_1)
next
  case False
  then show ?thesis by (simp add: unat_minus_one Suc_leI unat_gt_0)
qed

lemma bit_carry: "unat (c :: uint32) \<le> 1 \<longleftrightarrow> c = 0 \<or> c = 1"
  by (auto simp: le_Suc_eq word_unat_eq_iff)

subsection \<open>Addition and subtraction\<close>

lemma carry_loop_adds:
  "carry_loop m nn nl = (m', c) \<Longrightarrow> num m' nn nl + Base ^ nl * unat c = num m nn nl + 1 \<and> unat c \<le> 1 \<and> keeps m m' nn nl"
proof (induction nl arbitrary: m nn m' c)
  case (Suc nl)
  let ?m = "m(nn := m nn + 1)"
  note i = inc_carry [of "m nn"]
  show ?case
  proof (cases "m nn + 1 = 0")
    case True
    then have r: "carry_loop ?m (Suc nn) nl = (m', c)" using Suc.prems by (simp add: Let_def)
    note ih = Suc.IH [OF r]
    have "m' nn = m nn + 1" using keepsD [of ?m m' "Suc nn" nl nn] ih by simp
    moreover have "num m' (Suc nn) nl + Base ^ nl * unat c = num m (Suc nn) nl + 1" using ih by simp
    ultimately have "num m' nn (Suc nl) + Base ^ Suc nl * unat c = unat (m nn + 1) + Base * (num m (Suc nn) nl + 1)"
      by (metis (no_types, lifting) add.assoc distrib_left mult.assoc num.simps(2) power_Suc)
    then show ?thesis using i True ih keeps_upd by auto
  next
    case False
    then have "m' = ?m" "c = 0" using Suc.prems by (auto simp: Let_def)
    then show ?thesis using i False by (simp add: keeps_def)
  qed
qed auto

lemma BnnAddCarry_adds:
  assumes "BnnAddCarry m nn nl c = (m', c')" and "unat c \<le> 1"
  shows "num m' nn nl + Base ^ nl * unat c' = num m nn nl + unat c \<and> unat c' \<le> 1 \<and> keeps m m' nn nl"
  using assms(1) assms(2) [unfolded bit_carry] carry_loop_adds [of m nn nl m' c'] by (auto simp: BnnAddCarry_def split: if_splits)

lemma add_loop_adds:
  assumes "add_loop m mm nn nl c = (m', c')" and "unat c \<le> 1" and "mm \<le> nn \<or> nn + nl \<le> mm"
  shows "num m' mm nl + Base ^ nl * unat c' = num m mm nl + num m nn nl + unat c \<and> unat c' \<le> 1 \<and> keeps m m' mm nl"
  using assms
proof (induction nl arbitrary: m mm nn c m' c')
  case (Suc nl)
  have step: ?case if r: "add_loop (m(mm := d)) (Suc mm) (Suc nn) nl k = (m', c')" and k: "unat k \<le> 1"
    and d: "unat d + Base * unat k = unat (m mm) + unat (m nn) + unat c" for d k
  proof -
    have o: "Suc mm \<le> Suc nn \<or> Suc nn + nl \<le> Suc mm" using Suc.prems(3) by auto
    note ih = Suc.IH [OF r k o]
    have "m' mm = d" using keepsD [of "m(mm := d)" m' "Suc mm" nl mm] ih by simp
    moreover have "num m' (Suc mm) nl + Base ^ nl * unat c' = num m (Suc mm) nl + num m (Suc nn) nl + unat k"
      using ih Suc.prems(3) by auto
    ultimately have "num m' mm (Suc nl) + Base ^ Suc nl * unat c' = unat d + Base * (num m (Suc mm) nl + num m (Suc nn) nl + unat k)"
      by (metis (no_types, lifting) add.assoc distrib_left mult.assoc num.simps(2) power_Suc)
    then show ?thesis using d ih keeps_upd by (auto simp: algebra_simps)
  qed
  show ?case
  proof (cases "c + m mm < m mm")
    case True
    then have e: "unat c + unat (m mm) = unat (c + m mm) + Base" using add_carry [of c "m mm"] by simp
    then have "unat (c + m mm) = 0" using digit_bound [of "m mm"] Suc.prems(2) by simp
    then show ?thesis using True Suc.prems(1) e by (intro step [of "m nn" 1]) (simp_all add: Let_def)
  next
    case False
    then have e: "unat c + unat (m mm) = unat (c + m mm)" using add_carry [of c "m mm"] by simp
    show ?thesis using False Suc.prems(1) e add_carry [of "c + m mm" "m nn"]
      by (intro step [of "c + m mm + m nn" "if c + m mm + m nn < m nn then 1 else 0"]) (auto simp: Let_def)
  qed
qed auto

lemma BnnAdd_adds:
  assumes "BnnAdd m mm ml nn nl c = (m', c')" and "unat c \<le> 1" and "mm \<le> nn \<or> nn + nl \<le> mm" and "nl \<le> ml"
  shows "num m' mm ml + Base ^ ml * unat c' = num m mm ml + num m nn nl + unat c \<and> unat c' \<le> 1 \<and> keeps m m' mm ml"
proof -
  obtain m1 c1 where a: "add_loop m mm nn nl c = (m1, c1)" by (cases "add_loop m mm nn nl c")
  then have b: "BnnAddCarry m1 (mm + nl) (ml - nl) c1 = (m', c')" using assms(1) by (simp add: BnnAdd_def)
  note l = add_loop_adds [OF a assms(2,3)]
  note h = BnnAddCarry_adds [OF b] 
  have e: "ml = nl + (ml - nl)" using assms(4) by simp
  have lo: "num m' mm nl = num m1 mm nl" and hi: "num m1 (mm + nl) (ml - nl) = num m (mm + nl) (ml - nl)"
    using h l by (auto intro: keeps_num)
  have "num m' mm ml + Base ^ ml * unat c' = num m1 mm nl + Base ^ nl * (num m' (mm + nl) (ml - nl) + Base ^ (ml - nl) * unat c')"
    by (subst (1 2) e) (simp add: num_add lo power_add algebra_simps)
  also have "\<dots> = num m1 mm nl + Base ^ nl * unat c1 + Base ^ nl * num m (mm + nl) (ml - nl)" using h l hi by (simp add: algebra_simps)
  also have "\<dots> = num m mm ml + num m nn nl + unat c"
    using l by (subst (2) e) (simp add: num_add)
  finally show ?thesis using h l assms(4) by (auto intro: keeps_trans)
qed

lemma borrow_loop_subtracts:
  "borrow_loop m nn nl = (m', c) \<Longrightarrow> num m' nn nl + 1 = num m nn nl + Base ^ nl * (1 - unat c) \<and> unat c \<le> 1 \<and> keeps m m' nn nl"
proof (induction nl arbitrary: m nn m' c)
  case (Suc nl)
  let ?m = "m(nn := m nn - 1)"
  note d = dec_borrow [of "m nn"]
  show ?case
  proof (cases "m nn = 0")
    case True
    then have r: "borrow_loop ?m (Suc nn) nl = (m', c)" using Suc.prems by (simp add: Let_def)
    note ih = Suc.IH [OF r]
    have "m' nn = m nn - 1" using keepsD [of ?m m' "Suc nn" nl nn] ih by simp
    moreover have "Base * (num m' (Suc nn) nl + 1) = Base * (num m (Suc nn) nl + Base ^ nl * (1 - unat c))" using ih by simp
    ultimately show ?thesis using d True ih keeps_upd by (auto simp: algebra_simps)
  next
    case False
    then have "m' = ?m" "c = 1" using Suc.prems by (auto simp: Let_def)
    then show ?thesis using d False by (simp add: keeps_def)
  qed
qed auto

lemma BnnSubtractBorrow_subtracts:
  assumes "BnnSubtractBorrow m nn nl c = (m', c')" and "unat c \<le> 1"
  shows "num m' nn nl + (1 - unat c) = num m nn nl + Base ^ nl * (1 - unat c') \<and> unat c' \<le> 1 \<and> keeps m m' nn nl"
  using assms(1) assms(2) [unfolded bit_carry] borrow_loop_subtracts [of m nn nl m' c'] by (auto simp: BnnSubtractBorrow_def split: if_splits)

lemma not_digit: "unat (d XOR (- 1)) + unat d + 1 = Base" for d :: uint32
proof -
  have "d XOR (- 1) = - 1 - d" by (simp add: not_eq_complement)
  moreover have "unat (- 1 - d) = unat (- 1 :: uint32) - unat d" by (rule unat_sub) (use unat32_lt [of d] in \<open>simp add: word_le_nat_alt unsigned_minus_1_eq_mask mask_eq_exp_minus_1\<close>)
  ultimately show ?thesis using digit_bound [of d] by (simp add: unsigned_minus_1_eq_mask mask_eq_exp_minus_1 Base_def)
qed

lemma sub_loop_subtracts:
  assumes "sub_loop m mm nn nl c = (m', c')" and "unat c \<le> 1" and "mm \<le> nn \<or> nn + nl \<le> mm"
  shows "num m' mm nl + num m nn nl + 1 + Base ^ nl * unat c' = num m mm nl + Base ^ nl + unat c \<and> unat c' \<le> 1 \<and> keeps m m' mm nl"
  using assms
proof (induction nl arbitrary: m mm nn c m' c')
  case (Suc nl)
  let ?inv = "m nn XOR (- 1)"
  have step: ?case if r: "sub_loop (m(mm := d)) (Suc mm) (Suc nn) nl k = (m', c')" and k: "unat k \<le> 1"
    and d: "unat d + Base * unat k = unat (m mm) + unat ?inv + unat c" for d k
  proof -
    have o: "Suc mm \<le> Suc nn \<or> Suc nn + nl \<le> Suc mm" using Suc.prems(3) by auto
    note ih = Suc.IH [OF r k o]
    have "m' mm = d" using keepsD [of "m(mm := d)" m' "Suc mm" nl mm] ih by simp
    moreover have "num m' (Suc mm) nl + num m (Suc nn) nl + 1 + Base ^ nl * unat c' = num m (Suc mm) nl + Base ^ nl + unat k"
      using ih Suc.prems(3) by auto
    then have "Base * num m' (Suc mm) nl + Base * num m (Suc nn) nl + Base + Base * Base ^ nl * unat c' =
        Base * num m (Suc mm) nl + Base * Base ^ nl + Base * unat k"
      by (metis (no_types, lifting) add_mult_distrib2 mult.assoc mult.right_neutral)
    ultimately show ?thesis using d ih keeps_upd not_digit [of "m nn"] by (auto simp: mult.assoc)
  qed
  show ?case
  proof (cases "c + m mm < m mm")
    case True
    then have e: "unat c + unat (m mm) = unat (c + m mm) + Base" using add_carry [of c "m mm"] by simp
    then have "unat (c + m mm) = 0" using digit_bound [of "m mm"] Suc.prems(2) by simp
    then show ?thesis using True Suc.prems(1) e by (intro step [of "?inv" 1]) (simp_all add: Let_def)
  next
    case False
    then have e: "unat c + unat (m mm) = unat (c + m mm)" using add_carry [of c "m mm"] by simp
    show ?thesis using False Suc.prems(1) e add_carry [of "c + m mm" "?inv"]
      by (intro step [of "c + m mm + ?inv" "if c + m mm + ?inv < ?inv then 1 else 0"]) (auto simp: Let_def)
  qed
qed auto

text \<open>The carry of a subtraction is 1 when nothing is borrowed.\<close>

lemma BnnSubtract_subtracts:
  assumes "BnnSubtract m mm ml nn nl c = (m', c')" and "unat c \<le> 1" and "mm \<le> nn \<or> nn + nl \<le> mm" and "nl \<le> ml"
  shows "num m' mm ml + num m nn nl + 1 + Base ^ ml * unat c' = num m mm ml + Base ^ ml + unat c \<and> unat c' \<le> 1 \<and> keeps m m' mm ml"
proof -
  obtain m1 c1 where a: "sub_loop m mm nn nl c = (m1, c1)" by (cases "sub_loop m mm nn nl c")
  then have b: "BnnSubtractBorrow m1 (mm + nl) (ml - nl) c1 = (m', c')" using assms(1) by (simp add: BnnSubtract_def)
  note l = sub_loop_subtracts [OF a assms(2,3)]
  note h = BnnSubtractBorrow_subtracts [OF b]
  define k where "k = ml - nl"
  have e: "ml = nl + k" using assms(4) by (simp add: k_def)
  have lo: "num m' mm nl = num m1 mm nl" and hi: "num m1 (mm + nl) k = num m (mm + nl) k"
    using h l by (auto simp: k_def intro: keeps_num)
  have c: "unat c1 \<le> 1" "unat c' \<le> 1" using h l by auto
  have "num m' (mm + nl) k + (1 - unat c1) = num m (mm + nl) k + Base ^ k * (1 - unat c')" using h c hi by (simp add: k_def)
  then have q: "num m' (mm + nl) k + 1 + Base ^ k * unat c' = num m (mm + nl) k + Base ^ k + unat c1"
    using c by (cases "unat c1"; cases "unat c'") (auto simp: le_Suc_eq)
  have "Base ^ nl * num m' (mm + nl) k + Base ^ nl + Base ^ ml * unat c' = Base ^ nl * num m (mm + nl) k + Base ^ ml + Base ^ nl * unat c1"
    using arg_cong [OF q, of "\<lambda>x. Base ^ nl * x"] by (simp add: e power_add algebra_simps)
  moreover have "num m' mm ml = num m1 mm nl + Base ^ nl * num m' (mm + nl) k" "num m mm ml = num m mm nl + Base ^ nl * num m (mm + nl) k"
    by (simp_all add: e num_add lo)
  ultimately show ?thesis using l h c assms(4) by (auto intro: keeps_trans)
qed

subsection \<open>Multiplication\<close>

text \<open>The product of two digits from their halves, in numbers: \<open>B\<close> is half of a digit's range.\<close>

lemma halves_split: "unat (d AND 0xffff) + 65536 * unat (drop_bit 16 d) = unat d" "unat (d AND 0xffff) < 65536" "unat (drop_bit 16 d) < 65536"
  for d :: uint32
proof -
  have "unat (d AND 0xffff) = unat d mod 65536" using unat_take_bit [of 16 d] by (simp add: take_bit_eq_mask mask_eq_exp_minus_1)
  moreover have "unat (drop_bit 16 d) = unat d div 65536" by (simp only: unat_drop_bit_eq) (simp add: drop_bit_eq_div)
  ultimately show "unat (d AND 0xffff) + 65536 * unat (drop_bit 16 d) = unat d" "unat (d AND 0xffff) < 65536" "unat (drop_bit 16 d) < 65536"
    using unat32_lt [of d] by (simp_all add: less_mult_imp_div_less)
qed

lemma unat_mult_half: "unat a < 65536 \<Longrightarrow> unat b < 65536 \<Longrightarrow> unat (a * b) = unat a * unat b" for a b :: uint32
proof -
  assume a: "unat a < 65536" "unat b < 65536"
  then have "unat a * unat b < 65536 * 65536" by (intro mult_strict_mono) auto
  then show ?thesis by (simp add: unat_word_ariths)
qed

lemma mul_digit_correct:
  assumes "mul_digit (d AND 0xffff) (drop_bit 16 d) x p c = (p', c')"
  shows "unat p' + Base * unat c' = unat p + unat d * unat x + unat c"
proof -
  define ld hd lx hx where "ld = d AND 0xffff" and "hd = drop_bit 16 d" and "lx = x AND 0xffff" and "hx = drop_bit 16 x"
  note h = halves_split [of d, folded ld_def hd_def] halves_split [of x, folded lx_def hx_def]
  have prods: "unat (ld * lx) = unat ld * unat lx" "unat (hd * lx) = unat hd * unat lx" "unat (hd * hx) = unat hd * unat hx" "unat (ld * hx) = unat ld * unat hx"
    using h by (simp_all add: unat_mult_half)
  define X1 where "X1 = ld * hx + hd * lx"
  define k1 k2 k3 k4 :: nat where "k1 = (if c + ld * lx < ld * lx then 1 else 0)" and "k2 = (if X1 < hd * lx then 1 else 0)"
    and "k3 = (if c + ld * lx + push_bit 16 X1 < push_bit 16 X1 then 1 else 0)"
    and "k4 = (if p + (c + ld * lx + push_bit 16 X1) < c + ld * lx + push_bit 16 X1 then 1 else 0)"
  have s: "unat c + unat (ld * lx) = unat (c + ld * lx) + Base * k1" "unat (ld * hx) + unat (hd * lx) = unat X1 + Base * k2"
    "unat (c + ld * lx) + unat (push_bit 16 X1) = unat (c + ld * lx + push_bit 16 X1) + Base * k3"
    "unat p + unat (c + ld * lx + push_bit 16 X1) = unat (p + (c + ld * lx + push_bit 16 X1)) + Base * k4"
    unfolding k1_def k2_def k3_def k4_def X1_def by (rule add_carry)+
  have sh: "unat (push_bit 16 X1) + Base * unat (drop_bit 16 X1) = 65536 * unat X1"
  proof -
    have "unat (push_bit 16 X1) = 65536 * unat X1 mod 4294967296" by (simp add: push_bit_eq_mult unat_word_ariths mult.commute)
    moreover have "unat (drop_bit 16 X1) = 65536 * unat X1 div 4294967296" by (simp only: unat_drop_bit_eq) (simp add: drop_bit_eq_div div_mult2_eq [of _ 65536 65536, simplified])
    ultimately show ?thesis by (simp only: Base_def mod_mult_div_eq)
  qed
  define N where "N = unat (hd * hx) + k1 + 65536 * k2 + unat (drop_bit 16 X1) + k3 + k4"
  have total: "unat (p + (c + ld * lx + push_bit 16 X1)) + Base * N = unat p + unat d * unat x + unat c"
  proof -
    have "unat p + unat d * unat x + unat c = unat p + unat c + unat ld * unat lx + 65536 * (unat ld * unat hx + unat hd * unat lx) + Base * (unat hd * unat hx)"
      unfolding h(1) [symmetric] h(4) [symmetric] by (simp add: Base_def algebra_simps)
    then show ?thesis using s sh prods unfolding N_def by (simp add: Base_def algebra_simps)
  qed
  have "unat p + unat d * unat x + unat c < Base * Base"
  proof -
    have "unat d * unat x \<le> (Base - 1) * (Base - 1)" using digit_bound [of d] digit_bound [of x] by (intro mult_le_mono) auto
    then show ?thesis using digit_bound [of p] digit_bound [of c] by (simp add: Base_def)
  qed
  then have "N < Base" using total by (metis Base_pos(1) add_lessD1 add.commute nat_mult_less_cancel1)
  have w: "unat (hd * hx + of_nat k1 + 65536 * of_nat k2 + drop_bit 16 X1 + of_nat k3 + of_nat k4) = N"
  proof -
    have "hd * hx + of_nat k1 + 65536 * of_nat k2 + drop_bit 16 X1 + of_nat k3 + of_nat k4 = (of_nat N :: uint32)" unfolding N_def by simp
    then show ?thesis using \<open>N < Base\<close> by (simp add: unat_of_nat Base_def)
  qed
  have "p' = p + (c + ld * lx + push_bit 16 X1)"
    "c' = hd * hx + of_nat k1 + 65536 * of_nat k2 + drop_bit 16 X1 + of_nat k3 + of_nat k4"
    using assms unfolding mul_digit_def Let_def k1_def k2_def k3_def k4_def X1_def ld_def hd_def lx_def hx_def by (auto split: if_splits)
  then show ?thesis using total w by simp
qed

lemma times_eq: "a = b \<Longrightarrow> k * a = k * b" for a b k :: nat
  by simp

lemma mul_loop_adds:
  assumes "mul_loop m pp mm ml (d AND 0xffff) (drop_bit 16 d) c = (m', c')" and "pp \<le> mm \<or> mm + ml \<le> pp"
  shows "num m' pp ml + Base ^ ml * unat c' = num m pp ml + num m mm ml * unat d + unat c \<and> keeps m m' pp ml"
  using assms
proof (induction ml arbitrary: m pp mm c m' c')
  case (Suc ml)
  obtain p1 c1 where s: "mul_digit (d AND 0xffff) (drop_bit 16 d) (m mm) (m pp) c = (p1, c1)" by (cases "mul_digit (d AND 0xffff) (drop_bit 16 d) (m mm) (m pp) c")
  then have r: "mul_loop (m(pp := p1)) (Suc pp) (Suc mm) ml (d AND 0xffff) (drop_bit 16 d) c1 = (m', c')" using Suc.prems(1) by simp
  have o: "Suc pp \<le> Suc mm \<or> Suc mm + ml \<le> Suc pp" using Suc.prems(2) by auto
  note ih = Suc.IH [OF r o]
  have "m' pp = p1" using keepsD [of "m(pp := p1)" m' "Suc pp" ml pp] ih by simp
  moreover have e: "num m' (Suc pp) ml + Base ^ ml * unat c' = num m (Suc pp) ml + num m (Suc mm) ml * unat d + unat c1" using ih Suc.prems(2) by auto
  ultimately have "num m' pp (Suc ml) + Base ^ Suc ml * unat c' = unat p1 + Base * unat c1 + Base * num m (Suc pp) ml + Base * num m (Suc mm) ml * unat d"
    using times_eq [OF e, of Base, unfolded distrib_left] by (simp add: algebra_simps)
  then show ?case using mul_digit_correct [OF s] ih keeps_upd by (auto simp: algebra_simps)
qed auto

lemma BnnMultiplyDigit_adds:
  assumes "BnnMultiplyDigit m pp pl mm ml d = (m', c)" and "pp \<le> mm \<or> mm + ml \<le> pp" and "ml < pl"
  shows "num m' pp pl + Base ^ pl * unat c = num m pp pl + num m mm ml * unat d \<and> unat c \<le> 1 \<and> keeps m m' pp pl"
proof -
  consider (zero) "d = 0" | (one) "d = 1" | (more) "d \<noteq> 0" "d \<noteq> 1" by blast
  then show ?thesis
  proof cases
    case zero
    then show ?thesis using assms(1) by (simp add: BnnMultiplyDigit_def)
  next
    case one
    then have "BnnAdd m pp pl mm ml 0 = (m', c)" using assms(1) by (simp add: BnnMultiplyDigit_def)
    from BnnAdd_adds [OF this _ assms(2)] show ?thesis using assms(3) one by simp
  next
    case more
    obtain m1 c1 where l: "mul_loop m pp mm ml (d AND 0xffff) (drop_bit 16 d) 0 = (m1, c1)" by (cases "mul_loop m pp mm ml (d AND 0xffff) (drop_bit 16 d) 0")
    let ?q = "pp + ml"
    let ?m2 = "m1(?q := c1 + m1 ?q)"
    note i = mul_loop_adds [OF l assms(2)]
    have r: "(if m1 ?q \<le> c1 + m1 ?q then (?m2, 0) else carry_loop ?m2 (Suc ?q) (pl - ml - 1)) = (m', c)"
      using assms(1) more l by (simp add: BnnMultiplyDigit_def Let_def)
    have a: "unat c1 + unat (m1 ?q) = unat (c1 + m1 ?q) + Base * (if c1 + m1 ?q < m1 ?q then 1 else 0)" by (rule add_carry)
    define k where "k = pl - ml - 1"
    have pl: "pl = ml + Suc k" using assms(3) by (simp add: k_def)
    have split: "num x pp pl = num x pp ml + Base ^ ml * (unat (x ?q) + Base * num x (Suc ?q) k)" for x unfolding pl num_add by simp
    have hi: "num m1 (Suc ?q) k = num m (Suc ?q) k" using i by (intro keeps_num [of m m1 pp ml]) auto
    have t: "num m' (Suc ?q) k + Base ^ k * unat c = num m (Suc ?q) k + (if c1 + m1 ?q < m1 ?q then 1 else 0) \<and> unat c \<le> 1 \<and> keeps ?m2 m' (Suc ?q) k"
    proof (cases "c1 + m1 ?q < m1 ?q")
      case True
      then have "carry_loop ?m2 (Suc ?q) k = (m', c)" using r True [unfolded not_le [symmetric]] by (simp add: k_def)
      from carry_loop_adds [OF this] show ?thesis using True hi by simp
    next
      case False
      then show ?thesis using r False [unfolded not_less] hi by auto
    qed
    have k0: "keeps m ?m2 pp (Suc ml)" using i by (auto simp: keeps_def fun_upd_apply)
    have keep: "keeps m m' pp pl" using k0 t pl by (intro keeps_trans [of m ?m2 pp "Suc ml" m' "Suc ?q" k]) auto
    have lo: "num m' pp ml = num m1 pp ml" "m' ?q = c1 + m1 ?q"
      using t keepsD [of ?m2 m' "Suc ?q" k ?q] by (auto simp: keeps_num [of ?m2 m'])
    have m1q: "m1 ?q = m ?q" using i by (intro keepsD [of m m1 pp ml]) auto
    have t1: "Base * num m' (Suc ?q) k + Base * Base ^ k * unat c = Base * num m (Suc ?q) k + Base * (if c1 + m1 ?q < m1 ?q then 1 else 0)"
      using times_eq [OF conjunct1 [OF t], of Base, unfolded distrib_left] by (simp add: mult.assoc)
    have "unat (m' ?q) + Base * num m' (Suc ?q) k + Base ^ Suc k * unat c = unat (m ?q) + Base * num m (Suc ?q) k + unat c1"
      using t1 a lo(2) m1q by simp
    from times_eq [OF this, of "Base ^ ml", unfolded distrib_left]
    have "num m' pp pl + Base ^ pl * unat c = num m pp pl + num m mm ml * unat d"
      using i unfolding split lo(1) by (simp add: pl power_add algebra_simps)
    then show ?thesis using t keep by blast
  qed
qed

lemma mult_loop_adds:
  assumes "mult_loop m pp pl mm ml nn nl c = (m', c')" and "ml + nl \<le> pl" and "mm + ml \<le> pp \<or> pp + pl \<le> mm" and "nn + nl \<le> pp \<or> pp + pl \<le> nn"
  shows "\<exists>k. c' = c + of_nat k \<and> num m' pp pl + Base ^ pl * k = num m pp pl + num m mm ml * num m nn nl \<and> keeps m m' pp pl"
  using assms
proof (induction nl arbitrary: m pp pl nn c m' c')
  case 0
  then show ?case by (auto intro: exI [of _ 0])
next
  case (Suc nl)
  obtain m1 c1 where d: "BnnMultiplyDigit m pp pl mm ml (m nn) = (m1, c1)" by (cases "BnnMultiplyDigit m pp pl mm ml (m nn)")
  then have r: "mult_loop m1 (Suc pp) (pl - 1) mm ml (Suc nn) nl (c + c1) = (m', c')" using Suc.prems(1) by simp
  obtain j where pl: "pl = Suc j" using Suc.prems(2) by (cases pl) auto
  have i: "num m1 pp pl + Base ^ pl * unat c1 = num m pp pl + num m mm ml * unat (m nn) \<and> unat c1 \<le> 1 \<and> keeps m m1 pp pl"
    using Suc.prems by (intro BnnMultiplyDigit_adds [OF d]) auto
  obtain k where k: "c' = c + c1 + of_nat k" "num m' (Suc pp) j + Base ^ j * k = num m1 (Suc pp) j + num m1 mm ml * num m1 (Suc nn) nl" "keeps m1 m' (Suc pp) j"
    using Suc.IH [OF r] Suc.prems(2-4) pl by fastforce
  have same: "num m1 mm ml = num m mm ml" "num m1 (Suc nn) nl = num m (Suc nn) nl" using Suc.prems(3,4) i by (auto intro!: keeps_num [of m m1 pp pl])
  have p: "m' pp = m1 pp" using keepsD [OF k(3), of pp] by simp
  have "num m' pp pl + Base ^ pl * (unat c1 + k) = num m pp pl + num m mm ml * num m nn (Suc nl)"
    using times_eq [OF k(2), of Base, unfolded distrib_left] i unfolding same by (simp add: pl p algebra_simps)
  moreover have "keeps m m' pp pl" using i k(3) pl by (intro keeps_trans [of m m1 pp pl m' "Suc pp" j]) auto
  ultimately show ?case using k(1) by (intro exI [of _ "unat c1 + k"]) (simp add: add.assoc)
qed

lemma double_digit: "unat t \<le> 1 \<Longrightarrow> 2 * unat n + unat t = unat (n + n + t) + Base * unat ((if slt n 0 then 1 else 0) :: uint32)" for n t :: uint32
proof -
  assume t: "unat t \<le> 1"
  have s: "slt n 0 \<longleftrightarrow> 2147483648 \<le> unat n" 
  proof -
    have z: "slt n 0 \<longleftrightarrow> sint n < 0" by (simp add: slt_def)
    have "sint n = int (unat n) - (if bit n 31 then 4294967296 else 0)" using sint_as_uint [of n] unfolding uint_nat by simp
    then have "sint n = int (unat n) - 4294967296 \<or> sint n = int (unat n)" by (cases "bit n 31") simp_all
    moreover have "- 2147483648 \<le> sint n" "sint n < 2147483648" using sint32_range [of n] by simp_all
    ultimately show ?thesis unfolding z using unat32_lt [of n] by linarith
  qed
  have u: "unat (n + n + t) = (2 * unat n + unat t) mod 4294967296"
  proof -
    have "n + n + t = (of_nat (2 * unat n + unat t) :: uint32)" by simp
    then have "unat (n + n + t) = unat (of_nat (2 * unat n + unat t) :: uint32)" by (rule arg_cong)
    then show ?thesis unfolding unat_of_nat by simp
  qed
  show ?thesis
  proof (cases "slt n 0")
    case True
    then show ?thesis using s u t unat32_lt [of n] by (simp add: Base_def le_mod_geq)
  next
    case False
    then show ?thesis using s u t by (simp add: Base_def)
  qed
qed

lemma square_loop_adds:
  assumes "square_loop m pp pl nn nl t c = (m', c')" and "2 * nl \<le> pl" and "nn + nl \<le> pp \<or> pp + pl \<le> nn" and "unat t \<le> 1"
  shows "\<exists>k. c' = c + of_nat k \<and> num m' pp pl + Base ^ pl * k = num m pp pl + num m nn nl * num m nn nl + unat t * num m nn nl \<and> keeps m m' pp pl"
  using assms
proof (induction nl arbitrary: m pp pl nn t c m' c')
  case 0
  then show ?case by (auto intro: exI [of _ 0])
next
  case (Suc nl)
  define n where "n = m nn"
  define t' :: uint32 where "t' = (if slt n 0 then 1 else 0)"
  obtain j where pl: "pl = Suc (Suc j)" using Suc.prems(2) by (cases pl; cases "pl - 1") auto
  obtain m1 c1 where d1: "BnnMultiplyDigit m pp pl nn 1 n = (m1, c1)" by (cases "BnnMultiplyDigit m pp pl nn 1 n")
  obtain m2 c2 where d2: "(if t \<noteq> 0 then BnnAdd m1 pp pl nn 1 0 else (m1, 0)) = (m2, c2)" by (cases "if t \<noteq> 0 then BnnAdd m1 pp pl nn 1 0 else (m1, 0)")
  obtain m3 c3 where d3: "BnnMultiplyDigit m2 (Suc pp) (Suc j) (Suc nn) nl (n + n + t) = (m3, c3)" by (cases "BnnMultiplyDigit m2 (Suc pp) (Suc j) (Suc nn) nl (n + n + t)")
  have r: "square_loop m3 (Suc (Suc pp)) j (Suc nn) nl t' (c + c1 + c2 + c3) = (m', c')"
    using Suc.prems(1) d1 d2 d3 by (simp add: n_def [symmetric] t'_def pl Let_def split: prod.splits if_splits)
  have i1: "num m1 pp pl + Base ^ pl * unat c1 = num m pp pl + unat n * unat n \<and> keeps m m1 pp pl"
    using BnnMultiplyDigit_adds [OF d1] Suc.prems(2,3) pl by (auto simp: n_def)
  have n1: "m1 nn = n" using i1 Suc.prems(3) by (auto simp: n_def intro!: keepsD [of m m1 pp pl])
  have i2: "num m2 pp pl + Base ^ pl * unat c2 = num m1 pp pl + unat t * unat n \<and> keeps m1 m2 pp pl"
  proof (cases "t = 0")
    case True
    then show ?thesis using d2 by simp
  next
    case False
    then have "BnnAdd m1 pp pl nn 1 0 = (m2, c2)" "t = 1" using d2 Suc.prems(4) [unfolded bit_carry] by auto
    from BnnAdd_adds [OF this(1)] show ?thesis using Suc.prems(2,3) pl n1 \<open>t = 1\<close> by auto
  qed
  have k12: "keeps m m2 pp pl" using i1 i2 by (auto simp: keeps_def)
  define R where "R = num m (Suc nn) nl"
  have R2: "num m2 (Suc nn) nl = R" using Suc.prems(3) k12 by (auto simp: R_def intro!: keeps_num [of m m2 pp pl])
  have i3: "num m3 (Suc pp) (Suc j) + Base ^ Suc j * unat c3 = num m2 (Suc pp) (Suc j) + R * unat (n + n + t) \<and> keeps m2 m3 (Suc pp) (Suc j)"
    using BnnMultiplyDigit_adds [OF d3] Suc.prems(2,3) pl R2 by auto
  have R3: "num m3 (Suc nn) nl = R" using R2 Suc.prems(3) i3 pl by (auto intro!: trans [OF keeps_num [of m2 m3 "Suc pp" "Suc j"]])
  have t': "unat t' \<le> 1" by (simp add: t'_def)
  obtain k where k: "c' = c + c1 + c2 + c3 + of_nat k"
    "num m' (Suc (Suc pp)) j + Base ^ j * k = num m3 (Suc (Suc pp)) j + R * R + unat t' * R" "keeps m3 m' (Suc (Suc pp)) j"
    using Suc.IH [OF r _ _ t'] Suc.prems(2,3) pl R3 by auto
  have same: "m' pp = m2 pp" "m' (Suc pp) = m3 (Suc pp)" "m3 pp = m2 pp"
    using keepsD [OF k(3), of pp] keepsD [OF k(3), of "Suc pp"] keepsD [of m2 m3 "Suc pp" "Suc j" pp] i3 by simp_all
  have N: "num m nn (Suc nl) = unat n + Base * R" by (simp add: n_def R_def)
  note dd = double_digit [OF Suc.prems(4), of n, folded t'_def]
  have e4: "Base * num m' (Suc pp) (Suc j) + Base ^ pl * k = Base * num m3 (Suc pp) (Suc j) + Base * Base * (R * R) + Base * Base * (unat t' * R)"
    using times_eq [OF k(2), of "Base * Base", unfolded distrib_left] same by (simp add: pl algebra_simps)
  have e3: "Base * num m3 (Suc pp) (Suc j) + Base ^ pl * unat c3 = Base * num m2 (Suc pp) (Suc j) + Base * (R * unat (n + n + t))"
    using times_eq [OF conjunct1 [OF i3], of Base, unfolded distrib_left] by (simp add: pl algebra_simps)
  have m': "num m' pp pl = unat (m2 pp) + Base * num m' (Suc pp) (Suc j)" "num m2 pp pl = unat (m2 pp) + Base * num m2 (Suc pp) (Suc j)"
    using same by (simp_all add: pl)
  have xR: "Base * (R * unat (n + n + t)) + Base * Base * (unat t' * R) = Base * (R * (2 * unat n + unat t))" unfolding dd by (simp add: algebra_simps)
  have "num m' pp pl + Base ^ pl * (unat c1 + unat c2 + unat c3 + k) =
      num m pp pl + unat n * unat n + unat t * unat n + Base * (R * (2 * unat n + unat t)) + Base * Base * (R * R)"
    using e4 e3 xR m' i1 i2 unfolding distrib_left by linarith
  also have "\<dots> = num m pp pl + num m nn (Suc nl) * num m nn (Suc nl) + unat t * num m nn (Suc nl)" unfolding N by (simp add: algebra_simps)
  finally have v: "num m' pp pl + Base ^ pl * (unat c1 + unat c2 + unat c3 + k) = \<dots>" .
  have "keeps m m' pp pl" using k12 i3 k(3) pl by (auto simp: keeps_def)
  then show ?case using v k(1) by (intro exI [of _ "unat c1 + unat c2 + unat c3 + k"]) (simp add: add.assoc)
qed

lemma BnnMultiply_adds:
  assumes "BnnMultiply m pp pl mm ml nn nl = (m', c)" and "ml + nl \<le> pl" and "mm + ml \<le> pp \<or> pp + pl \<le> mm" and "nn + nl \<le> pp \<or> pp + pl \<le> nn"
  shows "num m' pp pl + Base ^ pl * unat c = num m pp pl + num m mm ml * num m nn nl \<and> unat c \<le> 1 \<and> keeps m m' pp pl"
proof -
  obtain k where k: "c = of_nat k" "num m' pp pl + Base ^ pl * k = num m pp pl + num m mm ml * num m nn nl" "keeps m m' pp pl"
  proof (cases "mm = nn \<and> ml = nl \<and> 6 < nl")
    case True
    then have "square_loop m pp pl nn nl 0 0 = (m', c)" using assms(1) by (simp add: BnnMultiply_def)
    from square_loop_adds [OF this] show thesis using that True assms(2,4) by auto
  next
    case False
    then have "mult_loop m pp pl mm ml nn nl 0 = (m', c)" using assms(1) unfolding BnnMultiply_def by auto
    from mult_loop_adds [OF this assms(2-)] show thesis using that by auto
  qed
  have "num m mm ml * num m nn nl < Base ^ ml * Base ^ nl" using num_bound by (intro mult_strict_mono) auto
  also have "\<dots> \<le> Base ^ pl" using assms(2) unfolding power_add [symmetric] by (intro power_increasing) simp_all
  finally have "Base ^ pl * k < Base ^ pl * 2" using k(2) num_bound [of m pp pl] by linarith
  then have "k \<le> 1" by simp
  then have "unat c = k" using k(1) by (cases k) auto
  then show ?thesis using k \<open>k \<le> 1\<close> by simp
qed

subsection \<open>Comparison, copying and shifting\<close>

lemma strip_zeros_num: "num m nn (strip_zeros m nn nl) = num m nn nl \<and> strip_zeros m nn nl \<le> nl \<and>
    (0 < strip_zeros m nn nl \<longrightarrow> m (nn + strip_zeros m nn nl - 1) \<noteq> 0)"
  by (induction nl) (auto simp del: num.simps simp: num_Suc_top)

lemma num_lower: "m (nn + k - 1) \<noteq> 0 \<Longrightarrow> 0 < k \<Longrightarrow> Base ^ (k - 1) \<le> num m nn k"
proof -
  assume a: "m (nn + k - 1) \<noteq> 0" "0 < k"
  then obtain j where k: "k = Suc j" by (cases k) auto
  have "1 \<le> unat (m (nn + j))" using a k by (simp add: Suc_le_eq unat_gt_0)
  then have "Base ^ j * 1 \<le> Base ^ j * unat (m (nn + j))" by (rule mult_le_mono2)
  then show ?thesis unfolding k num_Suc_top diff_Suc_1 by linarith
qed

text \<open>The number of digits that are significant: no more digits than that are needed, and no fewer.\<close>

lemma BnnNumDigits_num:
  assumes "0 < nl"
  shows "num m nn (BnnNumDigits m nn nl) = num m nn nl" and "1 \<le> BnnNumDigits m nn nl" and "BnnNumDigits m nn nl \<le> nl"
    and "BnnNumDigits m nn nl = 1 \<or> Base ^ (BnnNumDigits m nn nl - 1) \<le> num m nn nl"
proof -
  let ?k = "strip_zeros m nn nl"
  note s = strip_zeros_num [of m nn nl]
  have z: "num m nn 1 = num m nn nl" if "?k = 0"
  proof -
    have "num m nn nl = 0" using s that by simp
    moreover have "num m nn nl = num m nn 1 + Base ^ 1 * num m (nn + 1) (nl - 1)" using num_add [of m nn 1 "nl - 1"] assms by simp
    ultimately show ?thesis by simp
  qed
  show "num m nn (BnnNumDigits m nn nl) = num m nn nl" using s z by (auto simp: BnnNumDigits_def Let_def)
  show "1 \<le> BnnNumDigits m nn nl" "BnnNumDigits m nn nl \<le> nl" using s assms by (auto simp: BnnNumDigits_def Let_def)
  show "BnnNumDigits m nn nl = 1 \<or> Base ^ (BnnNumDigits m nn nl - 1) \<le> num m nn nl"
    using s num_lower [of m nn ?k] by (auto simp: BnnNumDigits_def Let_def)
qed

lemma cmp_loop_num: "cmp_loop m mm nn l = (if num m nn l < num m mm l then BN_GT else if num m mm l = num m nn l then BN_EQ else BN_LT)"
proof (induction l)
  case (Suc l)
  let ?a = "m (mm + l)" and ?b = "m (nn + l)"
  have n: "num m mm (Suc l) = num m mm l + Base ^ l * unat ?a" "num m nn (Suc l) = num m nn l + Base ^ l * unat ?b" by (rule num_Suc_top)+
  have lt: "x + Base ^ l * i < y + Base ^ l * j" if "x < Base ^ l" "i < j" for x y i j
  proof -
    have "Base ^ l * (i + 1) \<le> Base ^ l * j" using that(2) by (intro mult_le_mono2) simp
    then show ?thesis using that(1) by simp
  qed
  consider "?b < ?a" | "?a < ?b" | "?a = ?b" by (rule linorder_cases)
  then show ?case
  proof cases
    case 1
    then have "num m nn (Suc l) < num m mm (Suc l)" unfolding n by (intro lt num_bound) (simp add: word_less_nat_alt)
    then show ?thesis using 1 by (simp del: num.simps add: BnnCompareDigits_def)
  next
    case 2
    then have "num m mm (Suc l) < num m nn (Suc l)" unfolding n by (intro lt num_bound) (simp add: word_less_nat_alt)
    then show ?thesis using 2 by (auto simp del: num.simps simp: BnnCompareDigits_def)
  next
    case 3
    then show ?thesis using Suc unfolding n by (simp del: num.simps add: BnnCompareDigits_def)
  qed
qed simp

lemma BnnCompare_num:
  assumes "0 < ml" and "0 < nl"
  shows "BnnCompare m mm ml nn nl = (if num m nn nl < num m mm ml then BN_GT else if num m mm ml = num m nn nl then BN_EQ else BN_LT)"
proof -
  define a b where "a = BnnNumDigits m mm ml" and "b = BnnNumDigits m nn nl"
  note a = BnnNumDigits_num [OF assms(1), of m mm, folded a_def] and b = BnnNumDigits_num [OF assms(2), of m nn, folded b_def]
  have lt: "num m p k < num m q l" if "k < l" "1 \<le> k" "l = 1 \<or> Base ^ (l - 1) \<le> num m q l" for p k q l
  proof -
    have "num m p k < Base ^ k" by (rule num_bound)
    also have "\<dots> \<le> Base ^ (l - 1)" using that(1) by (intro power_increasing) simp_all
    also have "\<dots> \<le> num m q l" using that by auto
    finally show ?thesis .
  qed
  consider "b < a" | "a < b" | "a = b" by linarith
  then show ?thesis
  proof cases
    case 1
    then show ?thesis using lt [of b a mm nn] a b by (simp add: BnnCompare_def Let_def a_def [symmetric] b_def [symmetric])
  next
    case 2
    then show ?thesis using lt [of a b nn mm] a b by (simp add: BnnCompare_def Let_def a_def [symmetric] b_def [symmetric])
  next
    case 3
    then show ?thesis using a b by (simp add: BnnCompare_def Let_def a_def [symmetric] b_def [symmetric] cmp_loop_num)
  qed
qed

lemma copy_up_digits:
  "mm \<le> nn \<or> nn + nl \<le> mm \<Longrightarrow> (\<forall>i < nl. copy_up m mm nn nl (mm + i) = m (nn + i)) \<and> keeps m (copy_up m mm nn nl) mm nl"
proof (induction nl arbitrary: m mm nn)
  case (Suc nl)
  let ?m = "m(mm := m nn)"
  have ih: "(\<forall>i < nl. copy_up ?m (Suc mm) (Suc nn) nl (Suc mm + i) = ?m (Suc nn + i)) \<and> keeps ?m (copy_up ?m (Suc mm) (Suc nn) nl) (Suc mm) nl"
    using Suc.prems by (intro Suc.IH) auto
  have "copy_up ?m (Suc mm) (Suc nn) nl (mm + i) = m (nn + i)" if "i < Suc nl" for i
  proof (cases i)
    case 0
    then show ?thesis using keepsD [OF conjunct2 [OF ih], of mm] by simp
  next
    case (Suc j)
    then have "?m (Suc nn + j) = m (Suc nn + j)" using that Suc.prems by (intro fun_upd_other) auto
    then show ?thesis using conjunct1 [OF ih, rule_format, of j] that Suc by simp
  qed
  then show ?case using ih keeps_upd by auto
qed simp

lemma copy_down_digits:
  "nn \<le> mm \<Longrightarrow> (\<forall>i < nl. copy_down m mm nn nl (mm + i) = m (nn + i)) \<and> keeps m (copy_down m mm nn nl) mm nl"
proof (induction nl arbitrary: m)
  case (Suc nl)
  let ?m = "m(mm + nl := m (nn + nl))"
  note ih = Suc.IH [OF Suc.prems, of ?m]
  have "copy_down ?m mm nn nl (mm + i) = m (nn + i)" if "i < Suc nl" for i
    using ih that Suc.prems keepsD [OF conjunct2 [OF ih], of "mm + nl"] by (cases "i = nl") auto
  moreover have "keeps m (copy_down ?m mm nn nl) mm (Suc nl)" using ih keeps_upd_top by blast
  ultimately show ?case by simp
qed simp

text \<open>Copying is right for overlapping numbers too.\<close>

lemma BnnAssign_digits: "(\<forall>i < nl. BnnAssign m mm nn nl (mm + i) = m (nn + i)) \<and> keeps m (BnnAssign m mm nn nl) mm nl"
  using copy_up_digits [of mm nn nl m] copy_down_digits [of nn mm nl m] by (auto simp: BnnAssign_def)

lemma BnnSetToZero_num: "num (BnnSetToZero m nn nl) nn nl = 0 \<and> keeps m (BnnSetToZero m nn nl) nn nl"
proof (induction nl arbitrary: m nn)
  case (Suc nl)
  note ih = Suc.IH [of "m(nn := 0)" "Suc nn"]
  show ?case using ih keepsD [OF conjunct2 [OF ih], of nn] keeps_upd [OF conjunct2 [OF ih]] by simp
qed simp

lemma BnnComplement_num: "num (BnnComplement m nn nl) nn nl + num m nn nl + 1 = Base ^ nl \<and> keeps m (BnnComplement m nn nl) nn nl"
proof (induction nl arbitrary: m nn)
  case (Suc nl)
  let ?m = "m(nn := NOT (m nn))"
  note ih = Suc.IH [of ?m "Suc nn"]
  have "Base * num (BnnComplement ?m (Suc nn) nl) (Suc nn) nl + Base * num m (Suc nn) nl + Base = Base * Base ^ nl"
    using times_eq [OF conjunct1 [OF ih], of Base, unfolded distrib_left] by simp
  moreover have "unat (NOT (m nn)) + unat (m nn) + 1 = Base" using not_digit [of "m nn"] by simp
  moreover have "BnnComplement ?m (Suc nn) nl nn = NOT (m nn)" using keepsD [OF conjunct2 [OF ih], of nn] by simp
  ultimately show ?case using keeps_upd [OF conjunct2 [OF ih]] by simp
qed simp

lemma unat_or_disjoint: "(\<And>n. \<not> bit a n \<or> \<not> bit b n) \<Longrightarrow> unat (a OR b) = unat a + unat b" for a b :: uint32
  using disjunctive_add [of "unat a" "unat b"] by (simp add: unsigned_or_eq bit_unsigned_iff)

lemma bit_small: "unat a < 2 ^ k \<Longrightarrow> k \<le> n \<Longrightarrow> \<not> bit a n" for a :: uint32
proof -
  assume a: "unat a < 2 ^ k" "k \<le> n"
  then have "unat a < 2 ^ n" by (meson less_le_trans one_le_numeral power_increasing)
  then have "take_bit n (unat a) = unat a" by (simp add: take_bit_nat_eq_self)
  then have "\<not> bit (unat a) n" by (metis bit_take_bit_iff less_irrefl)
  then show ?thesis by (simp add: bit_unsigned_iff)
qed

lemma unat_push: "unat (push_bit k s) = unat s * 2 ^ k mod Base" for s :: uint32
  by (simp only: unsigned_push_bit_eq) (simp add: take_bit_eq_mod push_bit_eq_mult Base_def)

lemma unat_drop: "unat (drop_bit k s) = unat s div 2 ^ k" for s :: uint32
  by (simp only: unat_drop_bit_eq) (simp add: drop_bit_eq_div)

lemma Base_split: "k \<le> 32 \<Longrightarrow> Base = 2 ^ (32 - k) * 2 ^ k"
  by (simp add: Base_def power_add [symmetric])

lemma Base_mult: "k \<le> 32 \<Longrightarrow> Base * r = 2 ^ k * (2 ^ (32 - k) * r)"
  by (simp add: Base_split [of k])

lemma shl_digit:
  fixes s res :: uint32
  assumes "k \<le> 32" and "unat res < 2 ^ k"
  shows "unat (push_bit k s OR res) + Base * unat (drop_bit (32 - k) s) = unat s * 2 ^ k + unat res" and "unat (drop_bit (32 - k) s) < 2 ^ k"
proof -
  have o: "unat (push_bit k s OR res) = unat (push_bit k s) + unat res"
    by (rule unat_or_disjoint) (use bit_small [OF assms(2)] in \<open>auto simp: bit_simps\<close>)
  have d: "unat (drop_bit (32 - k) s) = unat s * 2 ^ k div Base" unfolding unat_drop Base_split [OF assms(1)] by simp
  show "unat (push_bit k s OR res) + Base * unat (drop_bit (32 - k) s) = unat s * 2 ^ k + unat res"
    unfolding o d unat_push using mod_mult_div_eq [of "unat s * 2 ^ k" Base] by linarith
  have "unat s < 2 ^ k * 2 ^ (32 - k)" using digit_bound [of s] unfolding Base_split [OF assms(1)] by (simp add: mult.commute)
  then show "unat (drop_bit (32 - k) s) < 2 ^ k" unfolding unat_drop by (simp add: less_mult_imp_div_less)
qed

lemma shl_loop_shifts:
  assumes "shl_loop m mm ml k res = (m', res')" and "k \<le> 32" and "unat res < 2 ^ k"
  shows "num m' mm ml + Base ^ ml * unat res' = num m mm ml * 2 ^ k + unat res \<and> keeps m m' mm ml"
  using assms
proof (induction ml arbitrary: m mm res m' res')
  case (Suc ml)
  let ?d = "push_bit k (m mm) OR res" and ?r = "drop_bit (32 - k) (m mm)"
  have r: "shl_loop (m(mm := ?d)) (Suc mm) ml k ?r = (m', res')" using Suc.prems(1) by (simp add: Let_def)
  note d = shl_digit [OF Suc.prems(2,3), of "m mm"]
  note ih = Suc.IH [OF r Suc.prems(2) d(2)]
  have "m' mm = ?d" using keepsD [of "m(mm := ?d)" m' "Suc mm" ml mm] ih by simp
  moreover have "num m' (Suc mm) ml + Base ^ ml * unat res' = num m (Suc mm) ml * 2 ^ k + unat ?r" using ih by simp
  note times_eq [OF this, of Base, unfolded distrib_left]
  ultimately show ?case using d(1) ih keeps_upd by (auto simp: algebra_simps)
qed auto

lemma BnnShiftLeft_shifts:
  assumes "BnnShiftLeft m mm ml k = (m', res)" and "k < 32"
  shows "num m' mm ml + Base ^ ml * unat res = num m mm ml * 2 ^ k \<and> keeps m m' mm ml"
  using assms shl_loop_shifts [of m mm ml k 0 m' res] by (auto simp: BnnShiftLeft_def split: if_splits)

lemma shr_digit:
  fixes s res :: uint32
  assumes "k \<le> 32" and "r < 2 ^ k" and "unat res = r * 2 ^ (32 - k)"
  shows "unat (drop_bit k s OR res) = (unat s + Base * r) div 2 ^ k" and "unat (push_bit (32 - k) s) = unat s mod 2 ^ k * 2 ^ (32 - k)"
proof -
  have "unat (drop_bit k s) < 2 ^ (32 - k)"
    using digit_bound [of s] unfolding unat_drop Base_split [OF assms(1)] by (simp add: less_mult_imp_div_less mult.commute)
  then have small: "32 - k \<le> n \<Longrightarrow> \<not> bit (drop_bit k s) n" for n by (rule bit_small)
  have "\<not> bit res n" if "n < 32 - k" for n
  proof -
    have "take_bit (32 - k) (unat res) = 0" unfolding take_bit_eq_mod assms(3) by simp
    then have "\<not> bit (unat res) n" using bit_take_bit_iff [of "32 - k" "unat res" n] that by simp
    then show ?thesis by (simp add: bit_unsigned_iff)
  qed
  with small have "unat (drop_bit k s OR res) = unat (drop_bit k s) + unat res" by (intro unat_or_disjoint) (meson not_le)
  also have "\<dots> = (unat s + Base * r) div 2 ^ k" unfolding unat_drop assms(3) Base_mult [OF assms(1)] by (simp add: mult.commute)
  finally show "unat (drop_bit k s OR res) = (unat s + Base * r) div 2 ^ k" .
  show "unat (push_bit (32 - k) s) = unat s mod 2 ^ k * 2 ^ (32 - k)"
    unfolding unat_push Base_split [OF assms(1)] by (simp add: mult.commute mult_mod_right)
qed

lemma div_times_add: "(x + 2 ^ k * y) div 2 ^ k = x div 2 ^ k + y" for x y :: nat
  by (simp add: div_mult_self2 add.commute)

lemma shr_loop_shifts:
  assumes "shr_loop m mm ml k res = (m', res')" and "k \<le> 32" and "r < 2 ^ k" and "unat res = r * 2 ^ (32 - k)"
  shows "num m' mm ml = (num m mm ml + Base ^ ml * r) div 2 ^ k \<and> keeps m m' mm ml"
  using assms
proof (induction ml arbitrary: m res r m' res')
  case (Suc ml)
  let ?s = "m (mm + ml)"
  let ?d = "drop_bit k ?s OR res" and ?T = "unat ?s + Base * r"
  have l: "shr_loop (m(mm + ml := ?d)) mm ml k (push_bit (32 - k) ?s) = (m', res')" using Suc.prems(1) by (simp add: Let_def)
  note d = shr_digit [OF Suc.prems(2-4), of ?s]
  have r': "unat ?s mod 2 ^ k < 2 ^ k" by simp
  note ih = Suc.IH [OF l Suc.prems(2) r' d(2)]
  have "m' (mm + ml) = ?d" using keepsD [of "m(mm + ml := ?d)" m' mm ml "mm + ml"] ih by simp
  moreover have "?T mod 2 ^ k = unat ?s mod 2 ^ k"
    unfolding Base_mult [OF Suc.prems(2)] by simp
  then have T: "?T = 2 ^ k * (?T div 2 ^ k) + unat ?s mod 2 ^ k" using mult_div_mod_eq [of "2 ^ k" ?T] by simp
  have "num m mm ml + Base ^ ml * ?T = num m mm ml + Base ^ ml * (unat ?s mod 2 ^ k) + 2 ^ k * (Base ^ ml * (?T div 2 ^ k))"
    using times_eq [OF T, of "Base ^ ml", unfolded distrib_left [of _ "2 ^ k * (?T div 2 ^ k)"]] by (simp only: mult.left_commute)
  then have "(num m mm ml + Base ^ ml * ?T) div 2 ^ k = (num m mm ml + Base ^ ml * (unat ?s mod 2 ^ k)) div 2 ^ k + Base ^ ml * (?T div 2 ^ k)"
    by (simp only: div_times_add)
  moreover have "num m mm (Suc ml) + Base ^ Suc ml * r = num m mm ml + Base ^ ml * ?T" unfolding num_Suc_top by (simp add: algebra_simps)
  ultimately have "num m' mm (Suc ml) = (num m mm (Suc ml) + Base ^ Suc ml * r) div 2 ^ k" using ih d(1) by (simp only: num_Suc_top num_other) simp
  moreover have "keeps m m' mm (Suc ml)" using ih keeps_upd_top by blast
  ultimately show ?case by blast
qed auto

lemma BnnShiftRight_shifts:
  assumes "BnnShiftRight m mm ml k = (m', res)" and "k < 32"
  shows "num m' mm ml = num m mm ml div 2 ^ k \<and> keeps m m' mm ml"
  using assms shr_loop_shifts [of m mm ml k 0 m' res 0] by (auto simp: BnnShiftRight_def split: if_splits)


lemma num_2: "num m p 2 = unat (m p) + Base * unat (m (p + 1))"
  by (simp add: numeral_2_eq_2)

lemma num_3: "num m p 3 = unat (m p) + Base * (unat (m (p + 1)) + Base * unat (m (p + 2)))"
  by (simp add: numeral_3_eq_3)

section \<open>Properties\<close>

text \<open>
  \<open>BnnAdd\<close> gives the sum and its carry, with a number that is disjoint from the accumulator or starts at or above it, and
  \<open>BnnSubtract\<close> of the same number (no borrow is carry 1) gives back the first number and the same carry as addition's.
\<close>

theorem bignum_add_subtract:
  assumes "nl \<le> ml" and "nn + nl \<le> mm \<or> mm + ml \<le> nn" and "BnnAdd m mm ml nn nl 0 = (m1, c1)" and "BnnSubtract m1 mm ml nn nl 1 = (m2, c2)"
  shows "num m1 mm ml + Base ^ ml * unat c1 = num m mm ml + num m nn nl \<and> num m2 mm ml = num m mm ml \<and> unat c2 + unat c1 = 1 \<and> keeps m m2 mm ml"
proof -
  have a: "num m1 mm ml + Base ^ ml * unat c1 = num m mm ml + num m nn nl" "unat c1 \<le> 1" "keeps m m1 mm ml"
    using BnnAdd_adds [OF assms(3)] assms(1,2) by auto
  have n: "num m1 nn nl = num m nn nl" using keeps_num [OF a(3)] assms(2) by simp
  have s: "num m2 mm ml + num m nn nl + Base ^ ml * unat c2 = num m1 mm ml + Base ^ ml" "unat c2 \<le> 1" "keeps m1 m2 mm ml"
    using BnnSubtract_subtracts [OF assms(4)] assms(1,2) n by auto
  then have e: "num m2 mm ml + Base ^ ml * (unat c1 + unat c2) = num m mm ml + Base ^ ml * 1" using a(1) by (simp add: algebra_simps)
  have b: "num m2 mm ml < Base ^ ml" "num m mm ml < Base ^ ml" by (rule num_bound)+
  have "unat c1 + unat c2 = 1"
    using arg_cong [OF e, of "\<lambda>x. x div Base ^ ml"] b by (simp only: div_mult_self2 Base_pos power_not_zero not_False_eq_True div_less add_0_left)
  then show ?thesis using a(1) e keeps_trans [OF a(3) s(3), of mm ml] by simp
qed

theorem bignum_add_subtract_witness:
  "let m = ((\<lambda>_. 0)(0 := 5, 1 := 4294967295, 2 := 4294967295, 3 := 8) :: dmem); (m1, c1) = BnnAdd m 0 2 2 2 0
   in num m1 0 2 + Base ^ 2 * unat c1 = num m 0 2 + num m 2 2"
  using bignum_add_subtract [of 2 2 2 0 "(\<lambda>_. 0)(0 := 5, 1 := 4294967295, 2 := 4294967295, 3 := 8)"]
  by (simp add: split_def Let_def prod_eq_iff)

text \<open>
  C33: \<open>BnnMultiply\<close> adds the product of two numbers to the accumulator, whichever of its two loops it takes (the product digit by
  digit, or the loop for the square of a number of more than six digits, which multiplies each pair of digits once), and returns the carry.
\<close>

theorem bignum_multiply:
  assumes "ml + nl \<le> pl" and "mm + ml \<le> pp \<or> pp + pl \<le> mm" and "nn + nl \<le> pp \<or> pp + pl \<le> nn" and "BnnMultiply m pp pl mm ml nn nl = (m', c)"
  shows "num m' pp pl + Base ^ pl * unat c = num m pp pl + num m mm ml * num m nn nl \<and> unat c \<le> 1 \<and> keeps m m' pp pl"
  using BnnMultiply_adds [OF assms(4,1-3)] .

theorem bignum_multiply_witness:
  "let m = ((\<lambda>i. if i < 7 then 4294967295 else 0) :: dmem); (m', c) = BnnMultiply m 7 14 0 7 0 7
   in num m' 7 14 + Base ^ 14 * unat c = num m 7 14 + num m 0 7 * num m 0 7"
  using bignum_multiply [of 7 7 14 0 7 0 "\<lambda>i. if i < 7 then 4294967295 else 0"] by (simp add: split_def Let_def prod_eq_iff)

text \<open>
  \<open>BnnCompare\<close> compares the numbers, not their lengths: leading zeros do not count.
\<close>

theorem bignum_compare:
  assumes "0 < ml" and "0 < nl"
  shows "BnnCompare m mm ml nn nl = (if num m nn nl < num m mm ml then BN_GT else if num m mm ml = num m nn nl then BN_EQ else BN_LT)"
  using BnnCompare_num [OF assms] .

theorem bignum_compare_witness: "BnnCompare ((\<lambda>_. 0)(0 := 5, 2 := 5)) 0 2 2 1 = BN_EQ"
  using bignum_compare [of 2 1 "(\<lambda>_. 0)(0 := 5, 2 := 5)" 0 2] by (simp add: num_2)

end
