(* ===== verification/Bignum_Div.thy ===== *)
theory Bignum_Div
  imports Bignum
begin

text \<open>
  Division in the arbitrary-precision library: \<open>BnnDivideDigit\<close> of \<^verbatim>\<open>otherlibs/num/bignum/c/KerN.c\<close> (long division by one digit, whose
  quotient digits are found by halves) and \<open>BnnDivide\<close> of \<^verbatim>\<open>bn/bnDivide.c\<close> (long division by several digits, in place).  The loops that
  correct an approximate quotient are not bounded by a counter: they are partial functions and the theorems show that they end.
\<close>

section \<open>Division\<close>

definition LOW :: "uint32 \<Rightarrow> uint32" where "LOW x = x AND 0xffff"
definition HIGH :: "uint32 \<Rightarrow> uint32" where "HIGH x = drop_bit 16 x"
definition L2H :: "uint32 \<Rightarrow> uint32" where "L2H x = push_bit 16 x"

definition SUB :: "uint32 \<times> uint32 \<Rightarrow> uint32 \<times> uint32 \<Rightarrow> uint32 \<times> uint32" where
  "SUB x y = (case x of (xh, xl) \<Rightarrow> case y of (yh, yl) \<Rightarrow>
     if xl < yl then (xh - (yh + 1), xl - yl) else (xh - yh, xl - yl))"

text \<open>The loop that decrements an approximate quotient while its product \<open>ph:pl\<close> is greater than \<open>rh:rl\<close>.\<close>

partial_function (option) adjust :: "uint32 \<times> uint32 \<Rightarrow> uint32 \<times> uint32 \<Rightarrow> uint32 \<Rightarrow> uint32 \<times> uint32 \<Rightarrow> (uint32 \<times> uint32 \<times> uint32) option" where
  "adjust y r qa p =
     (if fst r < fst p \<or> fst p = fst r \<and> snd r < snd p then adjust y r (qa - 1) (SUB p y) else Some (qa, p))"

text \<open>One round of the main loop: the digit of the quotient and the remainder.\<close>

definition div_step :: "uint32 \<Rightarrow> uint32 \<Rightarrow> uint32 \<Rightarrow> (uint32 \<times> uint32) option" where
  "div_step d rh rl =
     (let ch = HIGH d; cl = LOW d; qa = rh div ch;
          pl = cl * qa; ph = ch * qa; ph = ph + HIGH pl; pl = L2H pl
      in Option.bind (adjust (ch, L2H cl) (rh, rl) qa (ph, pl)) (\<lambda>(qa, ph, pl).
           let (rh, rl) = SUB (rh, rl) (ph, pl); q = L2H qa; qa = (L2H rh OR HIGH rl) div ch;
               pl = cl * qa; ph = ch * qa; ph = ph + HIGH pl; pl = LOW pl OR L2H (LOW ph); ph = HIGH ph
           in Option.bind (adjust (0, d) (rh, rl) qa (ph, pl)) (\<lambda>(qa, ph, pl). Some (q OR qa, rl - pl))))"

primrec div_loop :: "dmem \<Rightarrow> nat \<Rightarrow> nat \<Rightarrow> nat \<Rightarrow> uint32 \<Rightarrow> uint32 \<Rightarrow> (dmem \<times> uint32) option" where
  "div_loop m qq nn 0 d rl = Some (m, rl)"
| "div_loop m qq nn (Suc nl) d rl =
     Option.bind (div_step d rl (m (nn + nl))) (\<lambda>(q, r). div_loop (m(qq + nl := q)) qq nn nl d r)"

definition BnnDivideDigit :: "dmem \<Rightarrow> nat \<Rightarrow> nat \<Rightarrow> nat \<Rightarrow> uint32 \<Rightarrow> (dmem \<times> uint32) option" where
  "BnnDivideDigit m qq nn nl d =
     (let k = BnnNumLeadingZeroBitsInDigit d; prev_qq = m (qq - 1);
          (m, d) = (if k \<noteq> 0 then (fst (BnnShiftLeft m nn nl k), push_bit k d) else (m, d))
      in Option.bind (div_loop m qq nn (nl - 1) d (m (nn + nl - 1))) (\<lambda>(m, rl).
           let m = (if k \<noteq> 0
                    then if nn < qq \<and> qq < nn + nl
                         then (fst (BnnShiftRight m nn (qq - nn) k))(nn + (qq - nn) - 1 := prev_qq)
                         else if qq = nn then fst (BnnShiftRight m (nn + nl - 1) 1 k)
                         else fst (BnnShiftRight m nn nl k)
                    else m)
           in Some (m, drop_bit k rl)))"

text \<open>
  The loops of \<open>divide_bn\<close>; \<open>qapp\<close> is the address of its local variable \<open>QApp\<close>.  The divisor has been replaced by its complement.
\<close>

partial_function (option) correct_loop :: "dmem \<Rightarrow> nat \<Rightarrow> nat \<Rightarrow> nat \<Rightarrow> nat \<Rightarrow> nat \<Rightarrow> dmem option" where
  "correct_loop m qapp n ni dd dl =
     (if BnnCompareDigits (m n) (m qapp) \<noteq> BN_EQ
      then let m = fst (BnnSubtract m ni (dl + 1) dd dl 1); m = fst (BnnSubtractBorrow m qapp 1 0) in correct_loop m qapp n ni dd dl
      else Some m)"

primrec divide_loop :: "dmem \<Rightarrow> nat \<Rightarrow> nat \<Rightarrow> nat \<Rightarrow> nat \<Rightarrow> nat \<Rightarrow> uint32 \<Rightarrow> dmem option" where
  "divide_loop m qapp nn 0 dd dl DDigit = Some m"
| "divide_loop m qapp nn (Suc ni) dd dl DDigit =
     (let nl = ni + dl
      in Option.bind (if BnnCompareDigits (m (nn + nl)) DDigit = BN_EQ then Some (m(qapp := NOT 0))
                      else map_option fst (BnnDivideDigit m qapp (nn + nl - 1) 2 DDigit)) (\<lambda>m.
         let m = fst (BnnMultiplyDigit m (nn + ni) (dl + 1) dd dl (m qapp))
         in Option.bind (correct_loop m qapp (nn + nl) (nn + ni) dd dl) (\<lambda>m. divide_loop m qapp nn ni dd dl DDigit)))"

definition divide_bn :: "dmem \<Rightarrow> nat \<Rightarrow> nat \<Rightarrow> nat \<Rightarrow> nat \<Rightarrow> nat \<Rightarrow> dmem option" where
  "divide_bn m qapp nn nl dd dl =
     (let DDigit = m (dd + dl - 1); m = BnnComplement m dd dl; m = fst (BnnAddCarry m dd dl 1)
      in Option.bind (divide_loop m qapp nn (nl + 1 - dl) dd dl DDigit) (\<lambda>m.
           let m = BnnComplement m dd dl in Some (fst (BnnAddCarry m dd dl 1))))"

definition BnnDivide :: "dmem \<Rightarrow> nat \<Rightarrow> nat \<Rightarrow> nat \<Rightarrow> nat \<Rightarrow> nat \<Rightarrow> dmem option" where
  "BnnDivide m qapp nn nl dd dl =
     (case BnnCompare m nn nl dd dl of
        BN_LT \<Rightarrow> Some (BnnSetToZero m (nn + dl) (nl - dl))
      | BN_EQ \<Rightarrow> Some (BnnSetDigit (BnnSetToZero m nn nl) (nn + dl) 1)
      | BN_GT \<Rightarrow>
          if dl = 1 then map_option (\<lambda>(m, r). m(nn := r)) (BnnDivideDigit m (nn + 1) nn nl (m dd))
          else let nshift = BnnNumLeadingZeroBitsInDigit (m (dd + dl - 1));
                   m = fst (BnnShiftLeft m dd dl nshift); m = fst (BnnShiftLeft m nn nl nshift)
               in Option.bind (divide_bn m qapp nn (nl - 1) dd dl) (\<lambda>m.
                    let m = fst (BnnShiftRight m dd dl nshift) in Some (fst (BnnShiftRight m nn dl nshift))))"

declare adjust.simps [code] correct_loop.simps [code]

section \<open>Correctness\<close>

subsection \<open>Leading zeros\<close>

declare lead_loop.simps [simp del]

lemma top_mask_zero: "w \<le> 32 \<Longrightarrow> d AND push_bit (32 - w) (NOT 0) = 0 \<longleftrightarrow> unat d < 2 ^ (32 - w)" for d :: uint32
proof -
  assume w: "w \<le> 32"
  have b: "\<not> bit d n" if "32 \<le> n" for n using bit_imp_le_length [of d n] that by auto
  have "d AND push_bit (32 - w) (NOT 0) = 0 \<longleftrightarrow> (\<forall>n. 32 - w \<le> n \<longrightarrow> \<not> bit d n)"
    by (auto simp: bit_eq_iff bit_simps) (metis b not_less, metis not_less)
  also have "\<dots> \<longleftrightarrow> drop_bit (32 - w) d = 0"
  proof
    assume "\<forall>n. 32 - w \<le> n \<longrightarrow> \<not> bit d n"
    then show "drop_bit (32 - w) d = 0" by (intro bit_word_eqI) (simp add: bit_drop_bit_eq)
  next
    assume z: "drop_bit (32 - w) d = 0"
    show "\<forall>n. 32 - w \<le> n \<longrightarrow> \<not> bit d n"
    proof (intro allI impI)
      fix n assume "32 - w \<le> n"
      then show "\<not> bit d n" using arg_cong [OF z, of "\<lambda>x. bit x (n - (32 - w))"] by (simp add: bit_drop_bit_eq)
    qed
  qed
  also have "\<dots> \<longleftrightarrow> unat d div 2 ^ (32 - w) = 0" by (simp add: unat_drop [symmetric] unat_eq_zero)
  finally show ?thesis by (simp add: div_eq_0_iff)
qed

lemma lead_step:
  assumes "w = 2 * h" and "0 < h" and "w \<le> 16"
  shows "lead_loop d (push_bit (32 - w) (NOT 0)) w p =
    (if unat d < 2 ^ (32 - w) then lead_loop (push_bit w d) (push_bit (32 - h) (NOT 0)) h (p + w) else lead_loop d (push_bit (32 - h) (NOT 0)) h p)"
proof -
  have "h + (32 - w) = 32 - h" using assms by simp
  then have msk: "push_bit h (push_bit (32 - w) (NOT 0)) = (push_bit (32 - h) (NOT 0) :: uint32)" unfolding push_bit_push_bit by simp
  have "w \<noteq> 0" "w div 2 = h" "w \<le> 32" using assms by simp_all
  then show ?thesis by (subst lead_loop.simps) (simp only: top_mask_zero msk if_False prod.case Let_def split: if_split, simp)
qed

lemma lead_last:
  "lead_loop d (push_bit 31 (NOT 0)) 1 p = (if unat d < 2 ^ 31 then p + 1 else p)"
  using top_mask_zero [of 1 d] by (subst lead_loop.simps) (simp add: lead_loop.simps [of _ _ 0])

lemma unat_push_small: "unat d * 2 ^ k < Base \<Longrightarrow> unat (push_bit k d) = unat d * 2 ^ k" for d :: uint32
  by (simp add: unat_push)

lemma lead_loop_normal:
  assumes "2 ^ (32 - 2 * 2 ^ j) \<le> unat d" and "j \<le> 4"
  shows "\<exists>k. lead_loop d (push_bit (32 - 2 ^ j) (NOT 0)) (2 ^ j) p = p + k \<and> k < 2 * 2 ^ j \<and> 2 ^ 31 \<le> unat d * 2 ^ k \<and> unat d * 2 ^ k < Base"
  using assms
proof (induction j arbitrary: d p)
  case 0
  then show ?case using digit_bound [of d] lead_last [of d p]
    by (cases "unat d < 2 ^ 31") (auto simp: Base_def intro: exI [of _ 1] exI [of _ 0])
next
  case (Suc j)
  define h w where "h = (2 ^ j :: nat)" and "w = 2 * h"
  have hw: "w = 2 * h" "0 < h" "w \<le> 16" using power_increasing [of "Suc j" 4 "2 :: nat"] Suc.prems(2) by (simp_all add: w_def h_def)
  have IH: "\<exists>k. lead_loop d (push_bit (32 - h) (NOT 0)) h p = p + k \<and> k < w \<and> 2 ^ 31 \<le> unat d * 2 ^ k \<and> unat d * 2 ^ k < Base"
    if "2 ^ (32 - w) \<le> unat d" for d p using Suc.IH [of d p] Suc.prems(2) that by (simp add: h_def w_def)
  have lo: "2 ^ (32 - 2 * w) \<le> unat d" using Suc.prems(1) by (simp add: w_def h_def)
  have "\<exists>k. lead_loop d (push_bit (32 - w) (NOT 0)) w p = p + k \<and> k < 2 * w \<and> 2 ^ 31 \<le> unat d * 2 ^ k \<and> unat d * 2 ^ k < Base"
  proof (cases "unat d < 2 ^ (32 - w)")
    case True
    let ?d = "push_bit w d"
    have e: "2 ^ (32 - w) * 2 ^ w = Base" using Base_split [of w] hw(3) by simp
    have "unat d * 2 ^ w < 2 ^ (32 - w) * 2 ^ w" using True by simp
    then have u: "unat ?d = unat d * 2 ^ w" unfolding e by (rule unat_push_small)
    have "2 ^ (32 - 2 * w) * 2 ^ w \<le> unat ?d" using lo unfolding u by (rule mult_le_mono1)
    moreover have "32 - 2 * w + w = 32 - w" using hw(3) by simp
    ultimately have "2 ^ (32 - w) \<le> unat ?d" by (simp only: power_add [symmetric])
    then obtain k where k: "lead_loop ?d (push_bit (32 - h) (NOT 0)) h (p + w) = p + w + k" "k < w"
        "2 ^ 31 \<le> unat ?d * 2 ^ k" "unat ?d * 2 ^ k < Base" using IH by blast
    have "lead_loop d (push_bit (32 - w) (NOT 0)) w p = p + (w + k)" unfolding lead_step [OF hw] using True k(1) by simp
    moreover have "2 ^ 31 \<le> unat d * 2 ^ (w + k)" "unat d * 2 ^ (w + k) < Base" using k(3,4) unfolding u power_add by (simp_all only: mult.assoc)
    ultimately show ?thesis using k(2) by (intro exI [of _ "w + k"]) simp
  next
    case False
    then obtain k where k: "lead_loop d (push_bit (32 - h) (NOT 0)) h p = p + k" "k < w"
        "2 ^ 31 \<le> unat d * 2 ^ k" "unat d * 2 ^ k < Base" using IH [of d p] by auto
    have "lead_loop d (push_bit (32 - w) (NOT 0)) w p = p + k" unfolding lead_step [OF hw] using False k(1) by simp
    then show ?thesis using k(2-4) by (intro exI [of _ k]) simp
  qed
  then show ?case by (simp add: w_def h_def)
qed

lemma leading_zeros:
  assumes "d \<noteq> 0" defines "k \<equiv> BnnNumLeadingZeroBitsInDigit d"
  shows "k < 32" and "2 ^ 31 \<le> unat d * 2 ^ k" and "unat d * 2 ^ k < Base"
proof -
  have "1 \<le> unat d" using assms(1) by (simp add: Suc_leI unat_gt_0)
  then have "\<exists>k. lead_loop d (push_bit 16 (NOT 0)) 16 0 = k \<and> k < 32 \<and> 2 ^ 31 \<le> unat d * 2 ^ k \<and> unat d * 2 ^ k < Base"
    using lead_loop_normal [of 4 d 0] by simp
  then show "k < 32" "2 ^ 31 \<le> unat d * 2 ^ k" "unat d * 2 ^ k < Base"
    unfolding k_def BnnNumLeadingZeroBitsInDigit_def using assms(1) by auto
qed

subsection \<open>One digit of the quotient\<close>

definition dval :: "uint32 \<times> uint32 \<Rightarrow> nat" where "dval x = unat (fst x) * Base + unat (snd x)"

lemma dval_less: "fst r < fst p \<or> fst p = fst r \<and> snd r < snd p \<longleftrightarrow> dval r < dval p"
proof -
  have h: "unat (fst r) < unat (fst p) \<Longrightarrow> dval r < dval p" for r p
    using digit_bound [of "snd r"] mult_le_mono1 [of "Suc (unat (fst r))" "unat (fst p)" Base] by (simp add: dval_def)
  consider "unat (fst r) < unat (fst p)" | "unat (fst p) < unat (fst r)" | "unat (fst r) = unat (fst p)" by linarith
  then show ?thesis using h [of r p] h [of p r] by cases (auto simp: word_less_nat_alt word_unat_eq_iff, simp_all add: dval_def)
qed

lemma SUB_dval:
  assumes "dval y \<le> dval x"
  shows "dval (SUB x y) = dval x - dval y"
proof -
  obtain xh xl yh yl where [simp]: "x = (xh, xl)" "y = (yh, yl)" by (metis surj_pair)
  have le: "\<not> dval x < dval y" using assms by simp
  have b: "unat xl < Base" "unat yl < Base" by (rule digit_bound)+
  show ?thesis
  proof (cases "xl < yl")
    case True
    then have h: "yh < xh" using le unfolding dval_less [symmetric] by auto
    then have "unat yh + 1 < Base" using digit_bound [of xh] by (simp add: word_less_nat_alt)
    then have "unat (yh + 1) = unat yh + 1" using inc_carry [of yh] by (auto split: if_splits)
    then have "unat (xh - (yh + 1)) = unat xh - (unat yh + 1)" using h by (simp add: unat_sub word_le_nat_alt word_less_nat_alt)
    moreover have "unat (xl - yl) = Base + unat xl - unat yl"
      using add_carry [of "xl - yl" yl] True b by simp
    moreover have "Base * Suc (unat yh) \<le> Base * unat xh" using h by (intro mult_le_mono2) (simp add: word_less_nat_alt Suc_leI)
    ultimately show ?thesis using True b by (simp add: SUB_def dval_def diff_mult_distrib) (simp add: algebra_simps)
  next
    case False
    then have "yh \<le> xh" using le unfolding dval_less [symmetric] by auto
    then show ?thesis using False by (simp add: SUB_def dval_def unat_sub word_le_nat_alt word_less_nat_alt not_less diff_mult_distrib algebra_simps)
  qed
qed

lemma adjust_ends:
  assumes "unat qa = n" and "dval p = n * dval y"
  shows "\<exists>qa' p'. adjust y r qa p = Some (qa', p') \<and> unat qa' \<le> n \<and> dval p' = unat qa' * dval y \<and> dval p' \<le> dval r \<and>
           (dval r < (n + 1) * dval y \<longrightarrow> dval r < (unat qa' + 1) * dval y)"
  using assms
proof (induction n arbitrary: qa p)
  case 0
  then show ?case by (subst adjust.simps) (simp add: dval_less)
next
  case (Suc n)
  show ?case
  proof (cases "dval r < dval p")
    case True
    have "qa \<noteq> 0" using Suc.prems(1) by auto
    then have "unat (qa - 1) = n" using Suc.prems(1) by (simp add: unat_minus_one)
    moreover have "dval (SUB p y) = n * dval y" using SUB_dval [of y p] Suc.prems(2) by simp
    ultimately have ih: "\<exists>qa' p'. adjust y r (qa - 1) (SUB p y) = Some (qa', p') \<and> unat qa' \<le> n \<and> dval p' = unat qa' * dval y \<and> dval p' \<le> dval r \<and>
           (dval r < (n + 1) * dval y \<longrightarrow> dval r < (unat qa' + 1) * dval y)" by (rule Suc.IH)
    have "adjust y r qa p = adjust y r (qa - 1) (SUB p y)" using True by (subst adjust.simps) (simp add: dval_less)
    then show ?thesis using ih True Suc.prems(2) by (auto simp: le_Suc_eq)
  next
    case False
    then have "adjust y r qa p = Some (qa, p)" by (subst adjust.simps) (simp add: dval_less)
    then show ?thesis using False Suc.prems by (cases p) auto
  qed
qed

lemma quotient_bound:
  fixes C c x D :: nat
  assumes "D = 65536 * C + c" and "32768 \<le> C" and "C < 65536" and "c < 65536" and "x < D"
  shows "x div C \<le> 65537" and "x div C * D < 281474976710656"
proof -
  let ?q = "x div C"
  have q: "?q * C \<le> x" by simp
  show le: "?q \<le> 65537"
  proof (rule ccontr)
    assume "\<not> ?q \<le> 65537"
    then have "65538 * C \<le> ?q * C" by (intro mult_le_mono1) simp
    then show False using q assms by linarith
  qed
  show "?q * D < 281474976710656"
  proof (cases "C = 65535")
    case True
    have "?q \<le> 65536"
    proof (rule ccontr)
      assume "\<not> ?q \<le> 65536"
      then have "65537 * 65535 \<le> ?q * C" using True by (intro mult_le_mono) simp_all
      then show False using q assms True by linarith
    qed
    then have "?q * D \<le> 65536 * D" by (rule mult_le_mono1)
    then show ?thesis using assms by linarith
  next
    case False
    have "?q * D \<le> 65537 * D" using le by (rule mult_le_mono1)
    then show ?thesis using assms False by linarith
  qed
qed

lemma halves_LOW_HIGH: "unat (LOW d) + 65536 * unat (HIGH d) = unat d" "unat (LOW d) < 65536" "unat (HIGH d) < 65536"
  using halves_split [of d] by (simp_all add: LOW_def HIGH_def)

lemma unat_L2H: "unat d < 65536 \<Longrightarrow> unat (L2H d) = unat d * 65536"
  using unat_push_small [of d 16] by (simp add: L2H_def Base_def)

lemma unat_L2H_mod: "unat (L2H d) = unat (LOW d) * 65536"
proof -
  have "unat d * 65536 = unat (LOW d) * 65536 + unat (HIGH d) * 4294967296" using halves_LOW_HIGH(1) [of d] by linarith
  then have "unat (L2H d) = (unat (LOW d) * 65536 + unat (HIGH d) * 4294967296) mod 4294967296" by (simp add: L2H_def unat_push Base_def)
  then show ?thesis using halves_LOW_HIGH(2) [of d] by simp
qed

lemma unat_LOW_mod: "unat (LOW d) = unat d mod 65536" and unat_HIGH_div: "unat (HIGH d) = unat d div 65536"
proof -
  note h = halves_LOW_HIGH [of d]
  have "unat d mod 65536 = (unat (LOW d) + 65536 * unat (HIGH d)) mod 65536" "unat d div 65536 = (unat (LOW d) + 65536 * unat (HIGH d)) div 65536"
    using h(1) by simp_all
  then show "unat (LOW d) = unat d mod 65536" "unat (HIGH d) = unat d div 65536" using h(2) by simp_all
qed

lemma unat_L2H_or: "unat b < 65536 \<Longrightarrow> unat (L2H a OR b) = unat (L2H a) + unat b"
  by (rule unat_or_disjoint) (use bit_small [of b 16] in \<open>auto simp: L2H_def bit_simps\<close>)

lemma unat_plus_small: "unat a + unat b < Base \<Longrightarrow> unat (a + b) = unat a + unat b" for a b :: uint32
  using add_carry [of a b] by (auto split: if_splits)

lemma unat_times_small: "unat a * unat b < Base \<Longrightarrow> unat (a * b) = unat a * unat b" for a b :: uint32
  by (simp add: unat_word_ariths Base_def)

lemma less_half: "n = 65536 * x + y \<Longrightarrow> n < 281474976710656 \<Longrightarrow> x < 4294967296" for n x y :: nat
  by linarith

lemma Base_word: "(of_nat Base :: uint32) = 0"
  by (simp add: Base_def)

text \<open>The product of the divisor and an approximate digit, by the halves of the divisor.\<close>

lemma product_halves:
  fixes qa d :: uint32
  assumes "unat qa \<le> 65537" and "unat qa * unat d < 281474976710656"
  defines "pl \<equiv> LOW d * qa" defines "ph \<equiv> HIGH d * qa + HIGH pl"
  shows "dval (ph, L2H pl) = 65536 * (unat qa * unat d)" and "dval (HIGH ph, LOW pl OR L2H (LOW ph)) = unat qa * unat d"
proof -
  have "unat (LOW d) * unat qa \<le> 65535 * 65537" using halves_LOW_HIGH(2) [of d] assms(1) by (intro mult_le_mono) simp_all
  then have pl: "unat pl = unat (LOW d) * unat qa" unfolding pl_def by (intro unat_times_small) (simp add: Base_def)
  have sum: "unat qa * unat d = 65536 * (unat (HIGH d) * unat qa) + unat pl"
    unfolding pl halves_LOW_HIGH(1) [of d, symmetric] by (simp add: algebra_simps)
  then have hs: "unat qa * unat d = 65536 * (unat (HIGH d) * unat qa + unat (HIGH pl)) + unat (LOW pl)"
    using halves_LOW_HIGH(1) [of pl] by simp
  then have lt: "unat (HIGH d) * unat qa + unat (HIGH pl) < Base" using less_half [OF _ assms(2)] by (simp add: Base_def)
  then have "unat (HIGH d * qa) = unat (HIGH d) * unat qa" by (intro unat_times_small) simp
  then have ph: "unat ph = unat (HIGH d) * unat qa + unat (HIGH pl)" unfolding ph_def using lt by (simp add: unat_plus_small)
  show "dval (ph, L2H pl) = 65536 * (unat qa * unat d)"
    unfolding hs by (simp add: dval_def unat_L2H_mod ph[symmetric] Base_def)
  have "unat (LOW pl OR L2H (LOW ph)) = unat (LOW pl) + unat (LOW ph) * 65536"
    using unat_L2H_or [of "LOW pl" "LOW ph"] halves_LOW_HIGH [of pl] halves_LOW_HIGH [of ph] by (simp add: or.commute unat_L2H)
  then show "dval (HIGH ph, LOW pl OR L2H (LOW ph)) = unat qa * unat d"
    unfolding hs ph [symmetric] using halves_LOW_HIGH(1) [of ph] by (simp add: dval_def Base_def)
qed

lemma quotient_step:
  fixes C c D x q :: nat
  assumes "D = 65536 * C + c" and "0 < C"
  shows "x < (x div (65536 * C) + 1) * D"
proof -
  have "x < (x div (65536 * C) + 1) * (65536 * C)" using assms(2) by (simp add: dividend_less_div_times) 
  also have "\<dots> \<le> (x div (65536 * C) + 1) * D" using assms(1) by (intro mult_le_mono2) simp
  finally show ?thesis .
qed

lemma high_digit:
  fixes B D e h q :: nat
  assumes "h * B + l = q * e + r" and "l < B" and "h < D" and "D * B = k * e"
  shows "q * e < k * e"
proof -
  have "Suc h * B \<le> D * B" using assms(3) by (intro mult_le_mono1) simp
  then show ?thesis using assms unfolding mult_Suc by linarith
qed

lemma div_step_divides:
  assumes "2 ^ 31 \<le> unat d" and "unat rh < unat d"
  shows "\<exists>q r. div_step d rh rl = Some (q, r) \<and> unat rh * Base + unat rl = unat q * unat d + unat r \<and> unat r < unat d"
proof -
  define C c D where "C = unat (HIGH d)" and "c = unat (LOW d)" and "D = unat d"
  have D: "D = 65536 * C + c" using halves_LOW_HIGH(1) [of d] by (simp add: C_def c_def D_def)
  have C: "32768 \<le> C" "C < 65536" "c < 65536" "0 < C" using assms(1) halves_LOW_HIGH [of d] D by (simp_all add: C_def c_def D_def)
  have db: "D < Base" unfolding D_def by (rule digit_bound)
  define R where "R = dval (rh, rl)"
  let ?qa = "rh div HIGH d"
  have qa: "unat ?qa = unat rh div C" by (simp add: unat_div C_def)
  note b1 = quotient_bound [OF D C(1-3) assms(2) [folded D_def], folded qa]
  note p1 = product_halves(1) [OF b1(1) b1(2) [unfolded D_def]]
  have y1: "dval (HIGH d, L2H (LOW d)) = 65536 * D"
    using halves_LOW_HIGH [of d] by (simp add: dval_def unat_L2H D Base_def C_def c_def)
  obtain q1 P1 where a1: "adjust (HIGH d, L2H (LOW d)) (rh, rl) ?qa (HIGH d * ?qa + HIGH (LOW d * ?qa), L2H (LOW d * ?qa)) = Some (q1, P1)"
      "dval P1 = unat q1 * (65536 * D)" "dval P1 \<le> R" "R < (unat ?qa + 1) * (65536 * D) \<longrightarrow> R < (unat q1 + 1) * (65536 * D)"
    using adjust_ends [OF refl, of "(HIGH d * ?qa + HIGH (LOW d * ?qa), L2H (LOW d * ?qa))" ?qa "(HIGH d, L2H (LOW d))" "(rh, rl)"]
    unfolding y1 p1 R_def D_def by auto
  have "unat rh + 1 \<le> (unat ?qa + 1) * C" using dividend_less_div_times [OF C(4), of "unat rh"] by (simp add: qa)
  then have "(unat rh + 1) * Base \<le> (unat ?qa + 1) * C * Base" by (rule mult_le_mono1)
  also have "\<dots> \<le> (unat ?qa + 1) * (65536 * D)" unfolding mult.assoc by (intro mult_le_mono2) (simp add: D Base_def)
  finally have R1: "R < (unat q1 + 1) * (65536 * D)" using a1(4) digit_bound [of rl] by (simp add: R_def dval_def)
  obtain rh1 rl1 where s: "SUB (rh, rl) P1 = (rh1, rl1)" by (metis surj_pair)
  define r1 where "r1 = dval (rh1, rl1)"
  have r1: "R = unat q1 * (65536 * D) + r1" "r1 < 65536 * D"
    using SUB_dval [of P1 "(rh, rl)"] a1(2,3) R1 by (simp_all add: s r1_def R_def)
  have rh1: "unat rh1 < 65536" using r1(2) db by (simp add: r1_def dval_def Base_def)
  let ?x = "L2H rh1 OR HIGH rl1"
  let ?qb = "?x div HIGH d"
  have x: "unat ?x = r1 div 65536"
    using unat_L2H_or [OF halves_LOW_HIGH(3), of rh1 rl1] rh1 by (simp add: r1_def dval_def Base_def unat_L2H unat_HIGH_div)
  then have xb: "unat ?x < D" using r1(2) by simp
  have qb: "unat ?qb = unat ?x div C" by (simp add: unat_div C_def)
  note b2 = quotient_bound [OF D C(1-3) xb, folded qb]
  note p2 = product_halves(2) [OF b2(1) b2(2) [unfolded D_def]]
  define ph where "ph = HIGH d * ?qb + HIGH (LOW d * ?qb)"
  obtain q2 P2 where a2: "adjust (0, d) (rh1, rl1) ?qb (HIGH ph, LOW (LOW d * ?qb) OR L2H (LOW ph)) = Some (q2, P2)"
      "dval P2 = unat q2 * D" "dval P2 \<le> r1" "r1 < (unat ?qb + 1) * D \<longrightarrow> r1 < (unat q2 + 1) * D"
    using adjust_ends [OF refl, of "(HIGH ph, LOW (LOW d * ?qb) OR L2H (LOW ph))" ?qb "(0, d)" "(rh1, rl1)"]
    unfolding p2 [folded ph_def] r1_def D_def by (auto simp: dval_def)
  have "unat ?qb = r1 div (65536 * C)" unfolding qb x by (simp add: div_mult2_eq)
  then have r2: "r1 < (unat q2 + 1) * D" using a2(4) quotient_step [OF D C(4), of r1] by simp
  obtain ph2 pl2 where P2: "P2 = (ph2, pl2)" by (cases P2)
  have m1: "r1 = unat q2 * D + (r1 - unat q2 * D)" "r1 - unat q2 * D < D" using a2(2,3) r2 by simp_all
  have "unat rh1 * Base + unat rl1 = unat ph2 * Base + unat pl2 + (r1 - unat q2 * D)" using m1(1) a2(2) by (simp add: r1_def dval_def P2)
  then have "of_nat (unat rh1 * Base + unat rl1) = (of_nat (unat ph2 * Base + unat pl2 + (r1 - unat q2 * D)) :: uint32)" by simp
  then have "rl1 - pl2 = of_nat (r1 - unat q2 * D)" by (simp add: Base_word)
  then have rem: "unat (rl1 - pl2) = r1 - unat q2 * D" using m1(2) db by (simp add: unsigned_of_nat take_bit_eq_mod Base_def)
  have "unat q1 * (65536 * D) < 65536 * (65536 * D)"
    using high_digit [OF _ digit_bound [of rl] assms(2), of "unat q1" "65536 * D" r1 65536] r1(1) by (simp add: R_def dval_def D_def Base_def)
  then have q1: "unat q1 < 65536" by (simp add: mult_less_cancel2)
  have "unat q2 * D < 65536 * D" using r1(2) a2(2,3) by linarith
  then have q2: "unat q2 < 65536" by (simp add: mult_less_cancel2)
  have q: "unat (L2H q1 OR q2) = unat q1 * 65536 + unat q2" using unat_L2H_or [OF q2, of q1] q1 by (simp add: unat_L2H)
  have "div_step d rh rl = Some (L2H q1 OR q2, rl1 - pl2)"
    using a1(1) a2(1) by (simp add: div_step_def Let_def s P2 ph_def)
  moreover have "R = unat (L2H q1 OR q2) * D + unat (rl1 - pl2)" unfolding q rem using r1(1) m1(1) by (simp add: algebra_simps)
  ultimately show ?thesis using m1(2) rem by (auto simp: R_def dval_def D_def)
qed

subsection \<open>Division by a digit\<close>

lemma num_mod: "num m p (a + b) mod Base ^ a = num m p a"
  using num_bound [of m p a] by (simp add: num_add)

lemma num_inj: "num m p n = num m' p n \<Longrightarrow> i < n \<Longrightarrow> m (p + i) = m' (p + i)"
proof (induction n arbitrary: p i)
  case (Suc n)
  have "unat (m p) = num m p (Suc n) mod Base" "unat (m' p) = num m' p (Suc n) mod Base" using digit_bound by simp_all
  then have d: "m p = m' p" unfolding Suc.prems(1) by (simp only: word_unat_eq_iff)
  then have "num m (Suc p) n = num m' (Suc p) n" using Suc.prems(1) by simp
  then show ?case using Suc.IH [of "Suc p" "i - 1"] Suc.prems(2) d by (cases i) auto
qed simp

lemma div_mod_step:
  fixes d :: nat
  assumes "r < d" and "N = B * (q * d + r) + n"
  shows "N div d = B * q + (r * B + n) div d" and "N mod d = (r * B + n) mod d"
proof -
  have "N = B * q * d + (r * B + n)" using assms(2) by (simp add: algebra_simps)
  then show "N div d = B * q + (r * B + n) div d" "N mod d = (r * B + n) mod d" using assms(1) by simp_all
qed

lemma div_loop_divides:
  assumes "2 ^ 31 \<le> unat d" and "unat rl < unat d" and "nn \<le> qq \<or> qq + nl \<le> nn"
  shows "\<exists>m' r. div_loop m qq nn nl d rl = Some (m', r) \<and> num m' qq nl = (unat rl * Base ^ nl + num m nn nl) div unat d \<and>
           unat r = (unat rl * Base ^ nl + num m nn nl) mod unat d \<and> keeps m m' qq nl"
  using assms
proof (induction nl arbitrary: m rl)
  case (Suc nl)
  obtain q r where q: "div_step d rl (m (nn + nl)) = Some (q, r)" "unat rl * Base + unat (m (nn + nl)) = unat q * unat d + unat r" "unat r < unat d"
    using div_step_divides [OF Suc.prems(1,2)] by blast
  let ?m = "m(qq + nl := q)"
  have n: "num ?m nn nl = num m nn nl" using Suc.prems(3) by (intro num_other) auto
  obtain m' s where h: "div_loop ?m qq nn nl d r = Some (m', s)" "num m' qq nl = (unat r * Base ^ nl + num m nn nl) div unat d"
      "unat s = (unat r * Base ^ nl + num m nn nl) mod unat d" "keeps ?m m' qq nl"
    using Suc.IH [of r ?m] Suc.prems q(3) unfolding n by auto
  have "m' (qq + nl) = q" using keepsD [OF h(4), of "qq + nl"] by simp
  moreover have N: "unat rl * Base ^ Suc nl + num m nn (Suc nl) = Base ^ nl * (unat q * unat d + unat r) + num m nn nl"
    unfolding num_Suc_top q(2) [symmetric] by (simp add: algebra_simps)
  ultimately have "num m' qq (Suc nl) = (unat rl * Base ^ Suc nl + num m nn (Suc nl)) div unat d"
    "unat s = (unat rl * Base ^ Suc nl + num m nn (Suc nl)) mod unat d"
    using h(2,3) div_mod_step [OF q(3) N] by (simp_all only: num_Suc_top)
  moreover have "keeps m m' qq (Suc nl)" using h(4) by (rule keeps_upd_top)
  ultimately show ?case using h(1) q(1) by auto
qed simp

text \<open>The digits of the dividend that are not overwritten by the quotient get back their values.\<close>

lemma shift_back:
  assumes "num m1 nn nl = num m nn nl * 2 ^ k" and "0 < k" and "k < 32" and "num m2 nn nl = num m1 nn nl" and "BnnShiftRight m2 nn nl k = (m3, r)"
  shows "num m3 nn nl = num m nn nl" and "keeps m2 m3 nn nl"
  using BnnShiftRight_shifts [OF assms(5,3)] assms(1,4) by simp_all

lemma shift_back_low:
  assumes "num m1 nn nl = num m nn nl * 2 ^ k" and "k < 32" and "Suc j \<le> nl"
    and "num m2 nn (Suc j) = num m1 nn (Suc j)" and "BnnShiftRight m2 nn (Suc j) k = (m3, r)"
  shows "num m3 nn j = num m nn j" and "keeps m2 m3 nn (Suc j)"
proof -
  obtain b where b: "nl = Suc j + b" using assms(3) le_Suc_ex by blast
  have "num m1 nn (Suc j) = (num m nn nl * 2 ^ k) mod Base ^ Suc j" using num_mod [of m1 nn "Suc j" b] assms(1) b by simp
  also have "\<dots> = (num m nn (Suc j) * 2 ^ k) mod Base ^ Suc j" using num_mod [of m nn "Suc j" b] b by (metis mod_mult_left_eq)
  also have "Base ^ Suc j = (Base ^ j * 2 ^ (32 - k)) * 2 ^ k" using Base_split [of k] assms(2) by simp
  finally have "num m1 nn (Suc j) div 2 ^ k = num m nn (Suc j) mod (Base ^ j * 2 ^ (32 - k))" by (simp add: mult_mod_left)
  then have "num m3 nn (Suc j) = num m nn (Suc j) mod (Base ^ j * 2 ^ (32 - k))" using BnnShiftRight_shifts [OF assms(5,2)] assms(4) by simp
  then have "num m3 nn (Suc j) mod Base ^ j = num m nn (Suc j) mod Base ^ j" by (simp add: mod_mod_cancel)
  then show "num m3 nn j = num m nn j" using num_mod [of m3 nn j 1] num_mod [of m nn j 1] by simp
  show "keeps m2 m3 nn (Suc j)" using BnnShiftRight_shifts [OF assms(5,2)] by simp
qed

lemma shift_left_fits:
  assumes "BnnShiftLeft m nn nl k = (m', c)" and "k < 32" and "num m nn nl * 2 ^ k < Base ^ nl"
  shows "num m' nn nl = num m nn nl * 2 ^ k" and "keeps m m' nn nl"
proof -
  note s = BnnShiftLeft_shifts [OF assms(1,2)]
  then have "Base ^ nl * unat c < Base ^ nl * 1" using assms(3) by linarith
  then have "unat c = 0" by (simp only: mult_less_cancel1) simp
  then show "num m' nn nl = num m nn nl * 2 ^ k" "keeps m m' nn nl" using s by simp_all
qed

lemma num_top_less:
  assumes "unat (m (nn + nl - 1)) < t" and "0 < nl"
  shows "num m nn nl < t * Base ^ (nl - 1)"
proof -
  obtain j where j: "nl = Suc j" using assms(2) gr0_implies_Suc by blast
  have "Base ^ j * (unat (m (nn + j)) + 1) \<le> Base ^ j * t" using assms(1) j by (intro mult_le_mono2) simp
  then show ?thesis using num_bound [of m nn j] unfolding j num_Suc_top by (simp add: mult.commute)
qed

lemma num_top_shift:
  assumes "unat (m (nn + nl - 1)) < t" and "0 < nl" and "t * 2 ^ k \<le> Base"
  shows "num m nn nl * 2 ^ k < Base ^ nl"
proof -
  have "num m nn nl * 2 ^ k < t * Base ^ (nl - 1) * 2 ^ k" using num_top_less [of m nn nl t] assms(1,2) by simp
  also have "\<dots> = (t * 2 ^ k) * Base ^ (nl - 1)" by simp
  also have "\<dots> \<le> Base * Base ^ (nl - 1)" using assms(3) by (rule mult_le_mono1)
  finally show ?thesis using assms(2) by (simp add: power_eq_if)
qed

lemma keeps_digits: "keeps m m' p n" if "\<And>i. i < p \<or> p + n \<le> i \<Longrightarrow> m' i = m i"
  using that by (simp add: keeps_def)

text \<open>The end of \<open>BnnDivideDigit\<close>: \<open>m1\<close> is the memory after the dividend was shifted, \<open>m2\<close> after the quotient was stored.\<close>

lemma denormalize:
  assumes "num m1 nn nl = num m nn nl * 2 ^ k" and "keeps m m1 nn nl" and "keeps m1 m2 qq (nl - 1)" and "0 < k" and "k < 32" and "0 < nl"
    and "nn \<le> qq \<or> qq + nl - 1 \<le> nn"
  defines "m3 \<equiv> (if nn < qq \<and> qq < nn + nl then (fst (BnnShiftRight m2 nn (qq - nn) k))(nn + (qq - nn) - 1 := m (qq - 1))
                  else if qq = nn then fst (BnnShiftRight m2 (nn + nl - 1) 1 k) else fst (BnnShiftRight m2 nn nl k))"
  shows "num m3 qq (nl - 1) = num m2 qq (nl - 1)" and "keeps m m3 qq (nl - 1)"
proof -
  have "num m3 qq (nl - 1) = num m2 qq (nl - 1) \<and> keeps m m3 qq (nl - 1)"
  proof (cases "nn < qq \<and> qq < nn + nl")
    case True
    obtain j where j: "qq = Suc (nn + j)" using True less_iff_Suc_add by auto
    obtain m4 r where s: "BnnShiftRight m2 nn (Suc j) k = (m4, r)" by (metis surj_pair)
    have m3: "m3 = m4(nn + j := m (nn + j))" using True s by (simp add: m3_def j)
    have "num m2 nn (Suc j) = num m1 nn (Suc j)" using keeps_num [OF assms(3), of nn "Suc j"] by (simp add: j)
    note b = shift_back_low [OF assms(1,5) _ this s]
    have jl: "Suc j \<le> nl" using True j by simp
    have "num m3 qq (nl - 1) = num m2 qq (nl - 1)" unfolding m3 using keeps_num [OF b(2) [OF jl], of qq "nl - 1"] by (simp add: j)
    moreover have "keeps m m3 qq (nl - 1)"
    proof (rule keeps_digits)
      fix i assume i: "i < qq \<or> qq + (nl - 1) \<le> i"
      consider "i < nn" | "nn \<le> i" "i < nn + j" | "i = nn + j" | "nn + nl \<le> i" "qq + (nl - 1) \<le> i" using i j by linarith
      then show "m3 i = m i"
      proof cases
        case 2
        then show ?thesis using num_inj [OF b(1) [OF jl], of "i - nn"] by (simp add: m3)
      qed (use keepsD [OF assms(2), of i] keepsD [OF assms(3), of i] keepsD [OF b(2) [OF jl], of i] jl j in \<open>auto simp: m3\<close>)
    qed
    ultimately show ?thesis ..
  next
    case no: False
    show ?thesis
    proof (cases "qq = nn")
      case True
      obtain j where j: "nl = Suc j" using assms(6) gr0_implies_Suc by blast
      obtain m4 r where s: "BnnShiftRight m2 (nn + j) 1 k = (m4, r)" by (metis surj_pair)
      have m3: "m3 = m4" using True s by (simp add: m3_def j)
      note b = BnnShiftRight_shifts [OF s assms(5)]
      have "unat (m1 (nn + j)) = num m1 nn nl div Base ^ j" "unat (m (nn + j)) = num m nn nl div Base ^ j"
        using num_bound [of _ nn j] unfolding j num_Suc_top by simp_all
      then have "unat (m1 (nn + j)) div 2 ^ k = unat (m (nn + j))" using assms(1) by (metis div_mult2_eq mult.commute nonzero_mult_div_cancel_right power_not_zero zero_neq_numeral)
      then have t: "m4 (nn + j) = m (nn + j)" using b keepsD [OF assms(3), of "nn + j"] True j by (simp add: word_unat_eq_iff)
      have "num m3 qq (nl - 1) = num m2 qq (nl - 1)" unfolding m3 using keeps_num [of m2 m4 "nn + j" 1 qq "nl - 1"] b True j by simp
      moreover have "keeps m m3 qq (nl - 1)"
      proof (rule keeps_digits)
        fix i assume i: "i < qq \<or> qq + (nl - 1) \<le> i"
        then show "m3 i = m i" using t keepsD [OF assms(2), of i] keepsD [OF assms(3), of i] keepsD [of m2 m4 "nn + j" 1 i] b True j
          by (cases "i = nn + j") (auto simp: m3)
      qed
      ultimately show ?thesis ..
    next
      case False
      then have d: "nn + nl \<le> qq \<or> qq + (nl - 1) \<le> nn" using no assms(7) by linarith
      obtain m4 r where s: "BnnShiftRight m2 nn nl k = (m4, r)" by (metis surj_pair)
      have m3: "m3 = m4" using False no s by (auto simp: m3_def)
      have "num m2 nn nl = num m1 nn nl" using keeps_num [OF assms(3)] d by auto
      note b = shift_back [OF assms(1,4,5) this s]
      have "num m3 qq (nl - 1) = num m2 qq (nl - 1)" unfolding m3 using keeps_num [OF b(2)] d by auto
      moreover have "keeps m m3 qq (nl - 1)"
      proof (rule keeps_digits)
        fix i assume i: "i < qq \<or> qq + (nl - 1) \<le> i"
        then show "m3 i = m i" using num_inj [OF b(1), of "i - nn"] keepsD [OF assms(2), of i] keepsD [OF assms(3), of i] keepsD [OF b(2), of i]
          by (cases "nn \<le> i \<and> i < nn + nl") (auto simp: m3)
      qed
      ultimately show ?thesis ..
    qed
  qed
  then show "num m3 qq (nl - 1) = num m2 qq (nl - 1)" "keeps m m3 qq (nl - 1)" by simp_all
qed

lemma BnnDivideDigit_divides:
  assumes "unat (m (nn + nl - 1)) < unat d" and "0 < nl" and "nn \<le> qq \<or> qq + nl - 1 \<le> nn"
  shows "\<exists>m' r. BnnDivideDigit m qq nn nl d = Some (m', r) \<and> num m' qq (nl - 1) = num m nn nl div unat d \<and>
           unat r = num m nn nl mod unat d \<and> keeps m m' qq (nl - 1)"
proof -
  define k where "k = BnnNumLeadingZeroBitsInDigit d"
  have d0: "d \<noteq> 0" using assms(1) by auto
  note k = leading_zeros [OF d0, folded k_def]
  define d' where "d' = push_bit k d"
  have d': "unat d' = unat d * 2 ^ k" unfolding d'_def using k(3) by (rule unat_push_small)
  obtain m1 c where s: "BnnShiftLeft m nn nl k = (m1, c)" by (metis surj_pair)
  have fit: "num m nn nl * 2 ^ k < Base ^ nl" by (rule num_top_shift [of m nn nl "unat d"]) (use assms(1,2) k(3) in simp_all)
  note s1 = shift_left_fits [OF s k(1) fit]
  obtain j where j: "nl = Suc j" using assms(2) gr0_implies_Suc by blast
  have N: "unat (m1 (nn + j)) * Base ^ j + num m1 nn j = num m nn nl * 2 ^ k" using s1(1) unfolding j num_Suc_top by (simp add: mult.commute)
  have "num m nn nl * 2 ^ k < unat d * Base ^ j * 2 ^ k" using num_top_less [of m nn nl "unat d"] assms(1,2) j by simp
  then have "unat (m1 (nn + j)) * Base ^ j < unat d' * Base ^ j" using N unfolding d' mult.assoc mult.commute [of "2 ^ k"] by linarith
  then have lt: "unat (m1 (nn + j)) < unat d'" by (simp add: mult_less_cancel2)
  obtain m2 r where l: "div_loop m1 qq nn j d' (m1 (nn + j)) = Some (m2, r)" "num m2 qq j = (num m nn nl * 2 ^ k) div unat d'"
      "unat r = (num m nn nl * 2 ^ k) mod unat d'" "keeps m1 m2 qq j"
    using div_loop_divides [of d' "m1 (nn + j)" nn qq j m1] k(2) d' lt assms(3) j unfolding N by auto
  have q: "num m2 qq (nl - 1) = num m nn nl div unat d" "unat (drop_bit k r) = num m nn nl mod unat d"
    using l(2,3) unfolding d' by (simp_all add: j unat_drop flip: mult_mod_left)
  let ?m3 = "if nn < qq \<and> qq < nn + nl then (fst (BnnShiftRight m2 nn (qq - nn) k))(nn + (qq - nn) - 1 := m (qq - 1))
             else if qq = nn then fst (BnnShiftRight m2 (nn + nl - 1) 1 k) else fst (BnnShiftRight m2 nn nl k)"
  show ?thesis
  proof (cases "k = 0")
    case True
    then have "m1 = m" "d' = d" using s by (simp_all add: BnnShiftLeft_def d'_def)
    then have "BnnDivideDigit m qq nn nl d = Some (m2, drop_bit k r)"
      using l(1) True by (simp add: BnnDivideDigit_def k_def [symmetric] j)
    then show ?thesis using q l(4) \<open>m1 = m\<close> j by auto
  next
    case False
    then have "BnnDivideDigit m qq nn nl d = Some (?m3, drop_bit k r)"
      using l(1) s unfolding BnnDivideDigit_def k_def [symmetric] Let_def d'_def by (simp add: j)
    moreover have "num ?m3 qq (nl - 1) = num m2 qq (nl - 1)" "keeps m ?m3 qq (nl - 1)"
      by (rule denormalize [OF s1 _ _ k(1) assms(2,3)]; use False l(4) j in simp)+
    ultimately show ?thesis using q by auto
  qed
qed

subsection \<open>Division of a number\<close>

text \<open>The memory outside the dividend and the variable \<open>QApp\<close> is kept.\<close>

definition keeps_but :: "nat \<Rightarrow> dmem \<Rightarrow> dmem \<Rightarrow> nat \<Rightarrow> nat \<Rightarrow> bool" where
  "keeps_but x m m' p n \<longleftrightarrow> (\<forall>i. i \<noteq> x \<and> (i < p \<or> p + n \<le> i) \<longrightarrow> m' i = m i)"

definition apart :: "nat \<Rightarrow> nat \<Rightarrow> nat \<Rightarrow> nat \<Rightarrow> bool" where "apart p n q k \<longleftrightarrow> p + n \<le> q \<or> q + k \<le> p"

lemma keeps_but_num: "keeps_but x m m' p n \<Longrightarrow> apart q k p n \<Longrightarrow> apart q k x 1 \<Longrightarrow> num m' q k = num m q k"
  by (rule num_cong) (auto simp: keeps_but_def apart_def)

lemma keeps_but_mono: "keeps_but x m m' p n \<Longrightarrow> q \<le> p \<Longrightarrow> p + n \<le> q + k \<Longrightarrow> keeps_but x m m' q k"
  by (auto simp: keeps_but_def)

lemma keeps_but_trans: "keeps_but x m m' p n \<Longrightarrow> keeps_but x m' m'' p n \<Longrightarrow> keeps_but x m m'' p n"
  by (auto simp: keeps_but_def)

lemma keeps_keeps_but: "keeps m m' p n \<Longrightarrow> keeps_but x m m' p n" "keeps m m' x 1 \<Longrightarrow> keeps_but x m m' p n"
  by (auto simp: keeps_def keeps_but_def Suc_le_eq linorder_neq_iff)

lemma correct_step:
  assumes "apart dd dl ni (dl + 1)" and "apart dd dl qapp 1" and "apart ni (dl + 1) qapp 1"
    and "num m dd dl + D = Base ^ dl" and "unat (m qapp) = Suc (q + e)" and "num m ni (dl + 1) + Suc e * D = Suc (q + e) * Base ^ dl + R"
  defines "m1 \<equiv> fst (BnnSubtract m ni (dl + 1) dd dl 1)" defines "m2 \<equiv> fst (BnnSubtractBorrow m1 qapp 1 0)"
  shows "num m2 dd dl + D = Base ^ dl" and "unat (m2 qapp) = q + e" and "num m2 ni (dl + 1) + e * D = (q + e) * Base ^ dl + R"
    and "keeps_but qapp m m2 ni (dl + 1)"
proof -
  obtain c where s: "BnnSubtract m ni (dl + 1) dd dl 1 = (m1, c)" unfolding m1_def by (metis prod.collapse)
  have "ni \<le> dd \<or> dd + dl \<le> ni" using assms(1) by (auto simp: apart_def)
  then have b: "num m1 ni (dl + 1) + num m dd dl + 1 + Base ^ (dl + 1) * unat c = num m ni (dl + 1) + Base ^ (dl + 1) + 1" "unat c \<le> 1" "keeps m m1 ni (dl + 1)"
    using BnnSubtract_subtracts [OF s] by simp_all
  have ge: "num m dd dl \<le> num m ni (dl + 1)"
    using assms(4,6) mult_le_mono2 [of D "Base ^ dl" e] unfolding mult_Suc add_mult_distrib by linarith
  have "unat c \<noteq> 0"
  proof
    assume "unat c = 0"
    then show False using b(1) ge num_bound [of m1 ni "dl + 1"] by simp
  qed
  then have c: "unat c = 1" using b(2) by simp
  have V: "num m1 ni (dl + 1) + num m dd dl = num m ni (dl + 1)" using b(1) unfolding c by simp
  obtain c' where s': "BnnSubtractBorrow m1 qapp 1 0 = (m2, c')" unfolding m2_def by (metis prod.collapse)
  note b' = BnnSubtractBorrow_subtracts [OF s']
  have q1: "m1 qapp = m qapp" using keepsD [OF b(3), of qapp] assms(3) by (auto simp: apart_def)
  have "unat (m2 qapp) + 1 = Suc (q + e) + Base * (1 - unat c')" using b' by (simp add: q1 assms(5))
  then show "unat (m2 qapp) = q + e" using digit_bound [of "m2 qapp"] by (cases "unat c'") auto
  have k2: "keeps m1 m2 qapp 1" using b' by simp
  have "num m2 ni (dl + 1) = num m1 ni (dl + 1)" using assms(3) by (intro keeps_num [OF k2]) (auto simp: apart_def)
  then show "num m2 ni (dl + 1) + e * D = (q + e) * Base ^ dl + R" using V assms(4,6) unfolding mult_Suc by linarith
  show kb: "keeps_but qapp m m2 ni (dl + 1)" using keeps_but_trans [OF keeps_keeps_but(1) [OF b(3)] keeps_keeps_but(2) [OF k2]] .
  show "num m2 dd dl + D = Base ^ dl" using keeps_but_num [OF kb assms(1,2)] assms(4) by simp
qed

lemma top_digit:
  assumes "num m p (n + 1) + e * D = (q + e) * Base ^ n + R" and "R < D" and "D \<le> Base ^ n"
  shows "unat (m (p + n)) = q + e \<longleftrightarrow> e = 0"
proof
  have t: "num m p n + Base ^ n * unat (m (p + n)) = num m p (n + 1)" by (simp add: num_Suc_top del: num.simps)
  show "e = 0" if "unat (m (p + n)) = q + e"
  proof (rule ccontr)
    assume "e \<noteq> 0"
    then have "D \<le> e * D" by simp
    moreover have "num m p n + (q + e) * Base ^ n = num m p (n + 1)" using t unfolding that by (simp only: mult.commute)
    ultimately show False using assms(1,2) by linarith
  qed
  show "unat (m (p + n)) = q + e" if "e = 0"
  proof -
    have "unat (m (p + n)) = num m p (n + 1) div Base ^ n" unfolding t [symmetric] using num_bound [of m p n] by simp
    then show ?thesis using assms that by simp
  qed
qed

lemma correct_loop_ends:
  assumes "apart dd dl ni (dl + 1)" and "apart dd dl qapp 1" and "apart ni (dl + 1) qapp 1"
    and "num m dd dl + D = Base ^ dl" and "unat (m qapp) = q + e" and "num m ni (dl + 1) + e * D = (q + e) * Base ^ dl + R" and "R < D"
  shows "\<exists>m'. correct_loop m qapp (ni + dl) ni dd dl = Some m' \<and> unat (m' (ni + dl)) = q \<and> num m' ni dl = R \<and> keeps_but qapp m m' ni (dl + 1)"
  using assms(4-6)
proof (induction e arbitrary: m)
  case 0
  have "unat (m (ni + dl)) = q" using top_digit [OF 0(3) assms(7)] 0(1) by simp
  moreover have "num m ni dl = num m ni (dl + 1) mod Base ^ dl" using num_mod [of m ni dl 1] by simp
  then have "num m ni dl = R" using 0(1,3) assms(7) by simp
  moreover have "m (ni + dl) = m qapp" using calculation(1) 0(2) by (simp add: word_unat_eq_iff)
  ultimately show ?case by (subst correct_loop.simps) (simp add: BnnCompareDigits_def keeps_but_def)
next
  case (Suc e)
  have "m (ni + dl) \<noteq> m qapp" using top_digit [OF Suc.prems(3) assms(7)] Suc.prems(1,2) by auto
  then have step: "correct_loop m qapp (ni + dl) ni dd dl =
      correct_loop (fst (BnnSubtractBorrow (fst (BnnSubtract m ni (dl + 1) dd dl 1)) qapp 1 0)) qapp (ni + dl) ni dd dl"
    by (subst correct_loop.simps) (auto simp: BnnCompareDigits_def Let_def)
  note s = correct_step [OF assms(1-3) Suc.prems(1) Suc.prems(2) [unfolded add_Suc_right] Suc.prems(3) [unfolded add_Suc_right]]
  show ?case using Suc.IH [OF s(1-3)] keeps_but_trans [OF s(4)] unfolding step by blast
qed

lemma approx_quotient:
  assumes "num m p (dl + 1) = q * D + R" and "0 < dl" and "T * Base ^ (dl - 1) \<le> D" and "0 < T"
  shows "q \<le> (unat (m (p + dl)) * Base + unat (m (p + dl - 1))) div T"
proof -
  obtain j where j: "dl = Suc j" using assms(2) gr0_implies_Suc by blast
  let ?h = "unat (m (p + dl)) * Base + unat (m (p + dl - 1))"
  have "num m p (dl + 1) = num m p j + Base ^ j * ?h" using num_add [of m p j 2] by (simp add: j numeral_2_eq_2 algebra_simps)
  then have "num m p (dl + 1) < Base ^ j * (?h + 1)" using num_bound [of m p j] by simp
  moreover have "q * (T * Base ^ j) \<le> q * D" using assms(3) j by (intro mult_le_mono2) simp
  moreover have "Base ^ j * (q * T) = q * (T * Base ^ j)" by simp
  ultimately have "Base ^ j * (q * T) < Base ^ j * (?h + 1)" using assms(1) by linarith
  then have "q * T \<le> ?h" by (simp only: mult_less_cancel1) simp
  then show ?thesis using assms(4) by (simp add: less_eq_div_iff_mult_less_eq)
qed

lemma qapp_over:
  assumes "num m (nn + ni) (dl + 1) = q * D + R" and "q < Base" and "0 < dl" and "T = unat DDigit" and "T * Base ^ (dl - 1) \<le> D"
    and "unat (m (nn + (ni + dl))) \<le> T" and "0 < T" and "apart (nn + ni) (dl + 1) qapp 1"
  shows "\<exists>m1. (if BnnCompareDigits (m (nn + (ni + dl))) DDigit = BN_EQ then Some (m(qapp := NOT 0))
               else map_option fst (BnnDivideDigit m qapp (nn + (ni + dl) - 1) 2 DDigit)) = Some m1 \<and> q \<le> unat (m1 qapp) \<and> keeps m m1 qapp 1"
proof (cases "m (nn + (ni + dl)) = DDigit")
  case True
  have "unat (NOT 0 :: uint32) = Base - 1" by (simp add: Base_def unsigned_minus_1_eq_mask mask_eq_exp_minus_1)
  then show ?thesis using True assms(2) by (auto simp: BnnCompareDigits_def keeps_def)
next
  case False
  define p where "p = nn + (ni + dl) - 1"
  have p: "nn + (ni + dl) = p + 1" using assms(3) by (simp add: p_def)
  have "unat (m (p + 2 - 1)) < unat DDigit" using assms(4,6) False by (simp add: p le_less word_unat_eq_iff)
  moreover have al: "p \<le> qapp \<or> qapp + 2 - 1 \<le> p" by linarith
  ultimately obtain m1 r where d: "BnnDivideDigit m qapp p 2 DDigit = Some (m1, r)" "num m1 qapp 1 = num m p 2 div T" "keeps m m1 qapp 1"
    using BnnDivideDigit_divides [of m p 2 DDigit qapp, OF _ _ al] assms(4) by auto
  have "q \<le> (unat (m (nn + ni + dl)) * Base + unat (m (nn + ni + dl - 1))) div T" by (rule approx_quotient [OF assms(1,3,5,7)])
  moreover have "nn + ni + dl = p + 1" using p by simp
  ultimately have "q \<le> num m p 2 div T" by (simp add: numeral_2_eq_2 algebra_simps)
  then show ?thesis using d False by (auto simp: BnnCompareDigits_def p p_def [symmetric])
qed

text \<open>One round of the main loop of \<open>divide_bn\<close>: a digit of the quotient replaces the leading digit, the remainder the digits below it.\<close>

lemma divide_round:
  assumes "apart dd dl (nn + ni) (dl + 1)" and "apart dd dl qapp 1" and "apart (nn + ni) (dl + 1) qapp 1"
    and "num m dd dl + D = Base ^ dl" and "num m (nn + ni) (dl + 1) = q * D + R" and "R < D" and "q < Base" and "0 < dl"
    and "T = unat DDigit" and "T * Base ^ (dl - 1) \<le> D" and "unat (m (nn + (ni + dl))) \<le> T" and "0 < T"
  shows "\<exists>m'. divide_loop m qapp nn (Suc ni) dd dl DDigit = divide_loop m' qapp nn ni dd dl DDigit \<and>
           unat (m' (nn + ni + dl)) = q \<and> num m' (nn + ni) dl = R \<and> keeps_but qapp m m' (nn + ni) (dl + 1)"
proof -
  obtain m1 where m1: "(if BnnCompareDigits (m (nn + (ni + dl))) DDigit = BN_EQ then Some (m(qapp := NOT 0))
               else map_option fst (BnnDivideDigit m qapp (nn + (ni + dl) - 1) 2 DDigit)) = Some m1" "q \<le> unat (m1 qapp)" "keeps m m1 qapp 1"
    using qapp_over [OF assms(5,7-12,3)] by blast
  obtain e where e: "unat (m1 qapp) = q + e" using m1(2) le_Suc_ex by blast
  have "num m1 (nn + ni) (dl + 1) = num m (nn + ni) (dl + 1)" by (rule keeps_num [OF m1(3)]) (use assms(3) in \<open>auto simp: apart_def\<close>)
  then have n1: "num m1 (nn + ni) (dl + 1) = q * D + R" "num m1 dd dl = num m dd dl"
    using keeps_num [OF m1(3), of dd dl] assms(2,5) by (auto simp: apart_def)
  obtain m2 c where s: "BnnMultiplyDigit m1 (nn + ni) (dl + 1) dd dl (m1 qapp) = (m2, c)" by (metis surj_pair)
  have "nn + ni \<le> dd \<or> dd + dl \<le> nn + ni" using assms(1) by (auto simp: apart_def)
  then have b: "num m2 (nn + ni) (dl + 1) + Base ^ (dl + 1) * unat c = q * D + R + num m dd dl * (q + e)" "keeps m1 m2 (nn + ni) (dl + 1)"
    using BnnMultiplyDigit_adds [OF s, unfolded n1 e] by simp_all
  have V: "q * D + R + num m dd dl * (q + e) + e * D = (q + e) * Base ^ dl + R" using assms(4) [symmetric] by (simp add: algebra_simps)
  have eb: "q + e \<le> Base - 1" using digit_bound [of "m1 qapp"] e by simp
  have "unat c = 0"
  proof (rule ccontr)
    assume "unat c \<noteq> 0"
    then have "Base ^ (dl + 1) * 1 \<le> Base ^ (dl + 1) * unat c" by (intro mult_le_mono2) simp
    moreover have "(q + e) * Base ^ dl \<le> (Base - 1) * Base ^ dl" using eb by (rule mult_le_mono1)
    moreover have "(Base - 1) * Base ^ dl + Base ^ dl = Base ^ (dl + 1)" by (simp add: algebra_simps)
    moreover have "R < Base ^ dl" using assms(4,6) by simp
    ultimately show False using b(1) V by linarith
  qed
  then have V2: "num m2 (nn + ni) (dl + 1) + e * D = (q + e) * Base ^ dl + R" using b(1) V by simp
  have d2: "num m2 dd dl + D = Base ^ dl" using keeps_num [OF b(2), of dd dl] assms(1,4) n1(2) by (auto simp: apart_def)
  have q2: "unat (m2 qapp) = q + e" using keepsD [OF b(2), of qapp] assms(3) e by (auto simp: apart_def)
  obtain m3 where m3: "correct_loop m2 qapp (nn + ni + dl) (nn + ni) dd dl = Some m3" "unat (m3 (nn + ni + dl)) = q" "num m3 (nn + ni) dl = R"
      "keeps_but qapp m2 m3 (nn + ni) (dl + 1)"
    using correct_loop_ends [OF assms(1-3) d2 q2 V2 assms(6)] by blast
  have "divide_loop m qapp nn (Suc ni) dd dl DDigit = divide_loop m3 qapp nn ni dd dl DDigit"
    using m1(1) s m3(1) by (simp add: Let_def add.assoc)
  moreover have "keeps_but qapp m m3 (nn + ni) (dl + 1)"
    using keeps_but_trans [OF keeps_but_trans [OF keeps_keeps_but(2) [OF m1(3)] keeps_keeps_but(1) [OF b(2)]] m3(4)] .
  ultimately show ?thesis using m3(2,3) by blast
qed

lemma divide_loop_divides:
  assumes "apart dd dl nn (n + dl)" and "apart dd dl qapp 1" and "apart nn (n + dl) qapp 1"
    and "num m dd dl + D = Base ^ dl" and "num m (nn + n) dl < D" and "0 < dl" and "T = unat DDigit" and "0 < T"
    and "T * Base ^ (dl - 1) \<le> D" and "D < (T + 1) * Base ^ (dl - 1)"
  shows "\<exists>m'. divide_loop m qapp nn n dd dl DDigit = Some m' \<and> num m' (nn + dl) n = num m nn (n + dl) div D \<and>
           num m' nn dl = num m nn (n + dl) mod D \<and> keeps_but qapp m m' nn (n + dl)"
  using assms(1,3-5)
proof (induction n arbitrary: m)
  case 0
  then show ?case by (simp add: keeps_but_def)
next
  case (Suc ni)
  let ?W = "num m (nn + ni) (dl + 1)"
  define q R where "q = ?W div D" and "R = ?W mod D"
  have D: "0 < D" using Suc.prems(4) by simp
  have W: "?W = q * D + R" "R < D" using D by (simp_all add: q_def R_def)
  have "?W = unat (m (nn + ni)) + Base * num m (nn + Suc ni) dl" by simp
  moreover have "Base * (num m (nn + Suc ni) dl + 1) \<le> Base * D" using Suc.prems(4) by (intro mult_le_mono2) simp
  ultimately have "?W < Base * D" using digit_bound [of "m (nn + ni)"] by simp
  then have qb: "q < Base" unfolding q_def using D by (simp add: less_mult_imp_div_less)
  obtain j where j: "dl = Suc j" using assms(6) gr0_implies_Suc by blast
  have "Base ^ j * unat (m (nn + (ni + dl))) < (T + 1) * Base ^ j"
    using Suc.prems(4) assms(10) num_Suc_top [of m "nn + Suc ni" j] by (simp add: j add.assoc)
  then have "unat (m (nn + (ni + dl))) * Base ^ j < (T + 1) * Base ^ j" by (simp only: mult.commute [of "Base ^ j"])
  then have tb: "unat (m (nn + (ni + dl))) \<le> T" by (simp only: mult_less_cancel2) simp
  have ap: "apart dd dl (nn + ni) (dl + 1)" "apart (nn + ni) (dl + 1) qapp 1" "apart dd dl nn (ni + dl)" "apart nn (ni + dl) qapp 1"
    using Suc.prems(1,2) by (auto simp: apart_def)
  obtain m1 where m1: "divide_loop m qapp nn (Suc ni) dd dl DDigit = divide_loop m1 qapp nn ni dd dl DDigit"
      "unat (m1 (nn + ni + dl)) = q" "num m1 (nn + ni) dl = R" "keeps_but qapp m m1 (nn + ni) (dl + 1)"
    using divide_round [OF ap(1) assms(2) ap(2) Suc.prems(3) W qb assms(6,7,9) tb assms(8)] by blast
  have d1: "num m1 dd dl + D = Base ^ dl" using keeps_but_num [OF m1(4) ap(1) assms(2)] Suc.prems(3) by simp
  have "num m1 nn ni = num m nn ni" using keeps_but_num [OF m1(4), of nn ni] ap(4) by (auto simp: apart_def)
  then have n1: "num m1 nn (ni + dl) = R * Base ^ ni + num m nn ni" using num_add [of m1 nn ni dl] m1(3) by simp
  obtain m2 where m2: "divide_loop m1 qapp nn ni dd dl DDigit = Some m2" "num m2 (nn + dl) ni = (R * Base ^ ni + num m nn ni) div D"
      "num m2 nn dl = (R * Base ^ ni + num m nn ni) mod D" "keeps_but qapp m1 m2 nn (ni + dl)"
    using Suc.IH [OF ap(3,4) d1] m1(3) W(2) unfolding n1 by auto
  have N: "num m nn (Suc ni + dl) = Base ^ ni * (q * D + R) + num m nn ni" using num_add [of m nn ni "dl + 1"] W(1) by (simp add: add.commute del: num.simps)
  have "m2 (nn + dl + ni) = m1 (nn + ni + dl)" using m2(4) ap(2) by (auto simp: keeps_but_def apart_def add.commute add.left_commute)
  then have "num m2 (nn + dl) (Suc ni) = num m nn (Suc ni + dl) div D" "num m2 nn dl = num m nn (Suc ni + dl) mod D"
    unfolding num_Suc_top using m2(2,3) m1(2) div_mod_step [OF W(2) N] by simp_all
  moreover have "keeps_but qapp m m2 nn (Suc ni + dl)"
    by (rule keeps_but_trans; rule keeps_but_mono [OF m1(4)] keeps_but_mono [OF m2(4)]) simp_all
  ultimately show ?case using m1(1) m2(1) by auto
qed

text \<open>The complement of a number and its restoration.\<close>

lemma negate:
  assumes "0 < num m dd dl"
  defines "m' \<equiv> fst (BnnAddCarry (BnnComplement m dd dl) dd dl 1)"
  shows "num m' dd dl + num m dd dl = Base ^ dl" and "keeps m m' dd dl"
proof -
  note c = BnnComplement_num [of m dd dl]
  obtain b where a: "BnnAddCarry (BnnComplement m dd dl) dd dl 1 = (m', b)" unfolding m'_def by (metis prod.collapse)
  have s: "num m' dd dl + Base ^ dl * unat b = num (BnnComplement m dd dl) dd dl + 1" "keeps (BnnComplement m dd dl) m' dd dl"
    using BnnAddCarry_adds [OF a] by simp_all
  have "unat b = 0"
  proof (rule ccontr)
    assume "unat b \<noteq> 0"
    then have "Base ^ dl * 1 \<le> Base ^ dl * unat b" by (intro mult_le_mono2) simp
    then show False using conjunct1 [OF c] s(1) assms(1) by linarith
  qed
  then show "num m' dd dl + num m dd dl = Base ^ dl" using c s by simp
  show "keeps m m' dd dl" using c s by (auto simp: keeps_def)
qed

lemma num_restored: "num m' p n = num m p n \<Longrightarrow> p \<le> i \<Longrightarrow> i < p + n \<Longrightarrow> m' i = m i"
  using num_inj [of m' p n m "i - p"] by simp

lemma divide_bn_divides:
  assumes "apart dd dl nn (nl + 1)" and "apart dd dl qapp 1" and "apart nn (nl + 1) qapp 1"
    and "0 < dl" and "dl \<le> nl" and "num m (nn + (nl + 1 - dl)) dl < num m dd dl" and "m (dd + dl - 1) \<noteq> 0"
  shows "\<exists>m'. divide_bn m qapp nn nl dd dl = Some m' \<and> num m' (nn + dl) (nl + 1 - dl) = num m nn (nl + 1) div num m dd dl \<and>
           num m' nn dl = num m nn (nl + 1) mod num m dd dl \<and> num m' dd dl = num m dd dl \<and> keeps_but qapp m m' nn (nl + 1)"
proof -
  define D n T where "D = num m dd dl" and "n = nl + 1 - dl" and "T = unat (m (dd + dl - 1))"
  have nl: "nl + 1 = n + dl" using assms(5) by (simp add: n_def)
  obtain j where j: "dl = Suc j" using assms(4) gr0_implies_Suc by blast
  have D0: "0 < num m dd dl" using assms(6) by simp
  define m1 where "m1 = fst (BnnAddCarry (BnnComplement m dd dl) dd dl 1)"
  note g1 = negate [OF D0, folded m1_def D_def]
  have same: "num m1 p k = num m p k" if "apart dd dl p k" for p k using keeps_num [OF g1(2)] that by (auto simp: apart_def)
  have ap: "apart dd dl (nn + n) dl" "apart dd dl nn (n + dl)" using assms(1) nl by (auto simp: apart_def)
  have T: "T * Base ^ (dl - 1) \<le> D" "D < (T + 1) * Base ^ (dl - 1)" "0 < T"
    using num_Suc_top [of m dd j] num_bound [of m dd j] assms(7) by (simp_all add: D_def T_def j unat_gt_0 mult.commute)
  obtain m2 where m2: "divide_loop m1 qapp nn n dd dl (m (dd + dl - 1)) = Some m2" "num m2 (nn + dl) n = num m nn (n + dl) div D"
      "num m2 nn dl = num m nn (n + dl) mod D" "keeps_but qapp m1 m2 nn (n + dl)"
    using divide_loop_divides [OF ap(2) assms(2) assms(3) [unfolded nl] g1(1) _ assms(4) T_def T(3,1,2), unfolded same [OF ap(1)] same [OF ap(2)]]
      assms(6) [folded n_def D_def] by blast
  define m3 where "m3 = fst (BnnAddCarry (BnnComplement m2 dd dl) dd dl 1)"
  have d2: "num m2 dd dl = num m1 dd dl" using keeps_but_num [OF m2(4) ap(2) assms(2)] .
  have "0 < num m1 dd dl" using g1(1) num_bound [of m dd dl] by (simp add: D_def)
  then have g3: "num m3 dd dl + num m1 dd dl = Base ^ dl" "keeps m2 m3 dd dl" using negate [of m2 dd dl] d2 by (simp_all add: m3_def)
  have D3: "num m3 dd dl = num m dd dl" using g1(1) g3(1) by (simp add: D_def)
  have same3: "num m3 p k = num m2 p k" if "apart dd dl p k" for p k using keeps_num [OF g3(2)] that by (auto simp: apart_def)
  have "apart dd dl nn dl" "apart dd dl (nn + dl) n" using ap(2) by (auto simp: apart_def)
  then have "num m3 nn dl = num m nn (n + dl) mod D" "num m3 (nn + dl) n = num m nn (n + dl) div D" using same3 m2(2,3) by simp_all
  moreover have "keeps_but qapp m m3 nn (n + dl)" unfolding keeps_but_def
  proof (intro allI impI)
    fix i assume i: "i \<noteq> qapp \<and> (i < nn \<or> nn + (n + dl) \<le> i)"
    show "m3 i = m i"
    proof (cases "dd \<le> i \<and> i < dd + dl")
      case True
      then show ?thesis using num_restored [OF D3] by simp
    next
      case False
      then show ?thesis using i keepsD [OF g1(2), of i] keepsD [OF g3(2), of i] m2(4) by (auto simp: keeps_but_def)
    qed
  qed
  moreover have "divide_bn m qapp nn nl dd dl = Some m3" using m2(1) by (simp add: divide_bn_def m1_def m3_def n_def Let_def)
  ultimately show ?thesis using D3 unfolding nl by (auto simp: D_def)
qed

lemma num_less_times:
  assumes "unat (m (nn + nl - 1)) < unat (m (dd + dl - 1))" and "0 < dl" and "dl \<le> nl"
  shows "num m nn nl < num m dd dl * Base ^ (nl - dl)"
proof -
  let ?T = "unat (m (dd + dl - 1))"
  obtain j where j: "dl = Suc j" using assms(2) gr0_implies_Suc by blast
  have "nl - 1 = j + (nl - dl)" using assms(3) j by simp
  then have "?T * Base ^ (nl - 1) = ?T * Base ^ j * Base ^ (nl - dl)" by (simp add: power_add)
  moreover have "num m nn nl < ?T * Base ^ (nl - 1)" using num_top_less [of m nn nl ?T] assms by simp
  moreover have "?T * Base ^ j \<le> num m dd dl" unfolding j num_Suc_top by simp
  then have "?T * Base ^ j * Base ^ (nl - dl) \<le> num m dd dl * Base ^ (nl - dl)" by (rule mult_le_mono1)
  ultimately show ?thesis by linarith
qed

text \<open>The case of a divisor of several digits.\<close>

lemma BnnDivide_long:
  assumes "apart dd dl nn nl" and "apart dd dl qapp 1" and "apart nn nl qapp 1" and "1 < dl" and "dl < nl"
    and "unat (m (nn + nl - 1)) < unat (m (dd + dl - 1))"
  defines "k \<equiv> BnnNumLeadingZeroBitsInDigit (m (dd + dl - 1))"
  defines "m1 \<equiv> fst (BnnShiftLeft (fst (BnnShiftLeft m dd dl k)) nn nl k)"
  shows "\<exists>m2. divide_bn m1 qapp nn (nl - 1) dd dl = Some m2 \<and>
           (let m' = fst (BnnShiftRight (fst (BnnShiftRight m2 dd dl k)) nn dl k)
            in num m' nn dl = num m nn nl mod num m dd dl \<and> num m' (nn + dl) (nl - dl) = num m nn nl div num m dd dl \<and> keeps_but qapp m m' nn nl)"
proof -
  have "m (dd + dl - 1) \<noteq> 0" using assms(6) by auto
  note k = leading_zeros [OF this, folded k_def]
  let ?T = "unat (m (dd + dl - 1))" and ?D = "num m dd dl" and ?N = "num m nn nl"
  obtain md c where sd: "BnnShiftLeft m dd dl k = (md, c)" by (metis surj_pair)
  have "(?T + 1) * 2 ^ k \<le> Base"
  proof -
    have "?T * 2 ^ k < 2 ^ (32 - k) * 2 ^ k" using k(3) Base_split [of k] k(1) by simp
    then have "?T + 1 \<le> 2 ^ (32 - k)" by (simp only: mult_less_cancel2) simp
    then have "(?T + 1) * 2 ^ k \<le> 2 ^ (32 - k) * 2 ^ k" by (rule mult_le_mono1)
    then show ?thesis using Base_split [of k] k(1) by simp
  qed
  then have fd: "?D * 2 ^ k < Base ^ dl" using assms(4) by (intro num_top_shift [of m dd dl "?T + 1"]) simp_all
  note d = shift_left_fits [OF sd k(1) fd]
  have nd: "num md nn nl = ?N" using keeps_num [OF d(2)] assms(1) by (auto simp: apart_def)
  obtain c' where sn: "BnnShiftLeft md nn nl k = (m1, c')" unfolding m1_def sd by (metis prod.collapse fst_conv)
  have fn: "num md nn nl * 2 ^ k < Base ^ nl" unfolding nd using assms(5,6) k(3) by (intro num_top_shift [of m nn nl ?T]) simp_all
  note n = shift_left_fits [OF sn k(1) fn, unfolded nd]
  have D1: "num m1 dd dl = ?D * 2 ^ k" using keeps_num [OF n(2), of dd dl] d(1) assms(1) by (auto simp: apart_def)
  have "?N * 2 ^ k < ?D * Base ^ (nl - dl) * 2 ^ k" using num_less_times [OF assms(6)] assms(4,5) by simp
  moreover have "num m1 nn nl = num m1 nn (nl - dl) + Base ^ (nl - dl) * num m1 (nn + (nl - dl)) dl" using num_add [of m1 nn "nl - dl" dl] assms(5) by simp
  moreover have "Base ^ (nl - dl) * (?D * 2 ^ k) = ?D * Base ^ (nl - dl) * 2 ^ k" by simp
  ultimately have "Base ^ (nl - dl) * num m1 (nn + (nl - dl)) dl < Base ^ (nl - dl) * (?D * 2 ^ k)" using n(1) by linarith
  then have lt: "num m1 (nn + (nl - dl)) dl < num m1 dd dl" unfolding D1 by (simp only: mult_less_cancel1)
  have "?T * 2 ^ k * Base ^ (dl - 1) \<le> num m1 dd dl"
    using num_Suc_top [of m dd "dl - 1"] assms(4) unfolding D1 by (simp add: algebra_simps)
  moreover have "num m1 dd dl < Base ^ (dl - 1)" if "m1 (dd + dl - 1) = 0"
    using num_Suc_top [of m1 dd "dl - 1"] num_bound [of m1 dd "dl - 1"] assms(4) that by (simp del: num.simps)
  moreover have "Base ^ (dl - 1) \<le> ?T * 2 ^ k * Base ^ (dl - 1)" using assms(6) by (simp add: Suc_le_eq)
  ultimately have t1: "m1 (dd + dl - 1) \<noteq> 0" by linarith
  have nl: "nl - 1 + 1 = nl" and le: "dl \<le> nl - 1" using assms(5) by simp_all
  obtain m2 where m2: "divide_bn m1 qapp nn (nl - 1) dd dl = Some m2" "num m2 (nn + dl) (nl - dl) = ?N div ?D" "num m2 nn dl = ?N mod ?D * 2 ^ k"
      "num m2 dd dl = ?D * 2 ^ k" "keeps_but qapp m1 m2 nn nl"
    using divide_bn_divides [of dd dl nn "nl - 1" qapp m1, unfolded nl] assms(1-5) le lt t1 n(1) D1 by (auto simp flip: mult_mod_left)
  obtain m3 b where s3: "BnnShiftRight m2 dd dl k = (m3, b)" by (metis surj_pair)
  have r3: "num m3 dd dl = ?D" "keeps m2 m3 dd dl" using BnnShiftRight_shifts [OF s3 k(1)] m2(4) by simp_all
  obtain m4 b' where s4: "BnnShiftRight m3 nn dl k = (m4, b')" by (metis surj_pair)
  have "num m3 nn dl = ?N mod ?D * 2 ^ k" using keeps_num [OF r3(2), of nn dl] assms(1,5) m2(3) by (auto simp: apart_def)
  then have r4: "num m4 nn dl = ?N mod ?D" "keeps m3 m4 nn dl" using BnnShiftRight_shifts [OF s4 k(1)] by simp_all
  have "num m3 (nn + dl) (nl - dl) = num m2 (nn + dl) (nl - dl)" using keeps_num [OF r3(2), of "nn + dl" "nl - dl"] assms(1,5) by (auto simp: apart_def)
  then have Q: "num m4 (nn + dl) (nl - dl) = ?N div ?D" using keeps_num [OF r4(2), of "nn + dl" "nl - dl"] m2(2) by simp
  have "keeps_but qapp m m4 nn nl" unfolding keeps_but_def
  proof (intro allI impI)
    fix i assume i: "i \<noteq> qapp \<and> (i < nn \<or> nn + nl \<le> i)"
    have "m4 i = m3 i" using keepsD [OF r4(2), of i] i assms(5) by auto
    then show "m4 i = m i" using i num_restored [OF r3(1), of i] keepsD [OF r3(2), of i] m2(5) keepsD [OF n(2), of i] keepsD [OF d(2), of i]
      by (cases "dd \<le> i \<and> i < dd + dl") (auto simp: keeps_but_def)
  qed
  then show ?thesis using m2(1) r4(1) Q by (auto simp: Let_def s3 s4)
qed

lemma BnnDivide_divides:
  assumes "apart dd dl nn nl" and "apart dd dl qapp 1" and "apart nn nl qapp 1" and "0 < dl" and "dl < nl" and "0 < num m dd dl"
    and "num m dd dl < num m nn nl \<Longrightarrow> m (nn + nl - 1) < m (dd + dl - 1)"
  shows "\<exists>m'. BnnDivide m qapp nn nl dd dl = Some m' \<and> num m' nn dl = num m nn nl mod num m dd dl \<and>
           num m' (nn + dl) (nl - dl) = num m nn nl div num m dd dl \<and> keeps_but qapp m m' nn nl"
proof -
  let ?D = "num m dd dl" and ?N = "num m nn nl"
  have cmp: "BnnCompare m nn nl dd dl = (if ?D < ?N then BN_GT else if ?N = ?D then BN_EQ else BN_LT)" using BnnCompare_num assms(4,5) by simp
  have split: "num m' nn nl = num m' nn dl + Base ^ dl * num m' (nn + dl) (nl - dl)" for m' using num_add [of m' nn dl "nl - dl"] assms(5) by simp
  consider "?N < ?D" | "?N = ?D" | "?D < ?N" by linarith
  then show ?thesis
  proof cases
    case 1
    let ?m = "BnnSetToZero m (nn + dl) (nl - dl)"
    note z = BnnSetToZero_num [of m "nn + dl" "nl - dl"]
    have "?N < Base ^ dl" using 1 num_bound [of m dd dl] by simp
    then have "num m nn dl = ?N" using num_mod [of m nn dl "nl - dl"] assms(5) by simp
    moreover have "num ?m nn dl = num m nn dl" using z keeps_num [of m ?m "nn + dl" "nl - dl" nn dl] by simp
    ultimately show ?thesis using z 1 cmp assms(5) by (auto simp: BnnDivide_def keeps_def keeps_but_def)
  next
    case 2
    let ?m = "BnnSetToZero m nn nl"
    note z = BnnSetToZero_num [of m nn nl]
    have zz: "num ?m nn dl = 0" "num ?m (nn + dl) (nl - dl) = 0" using z split [of ?m] by simp_all
    obtain j where j: "nl - dl = Suc j" using assms(5) less_imp_Suc_add by (metis Suc_diff_Suc)
    have "num (?m(nn + dl := 1)) nn dl = 0" "num (?m(nn + dl := 1)) (nn + dl) (nl - dl) = 1" using zz by (simp_all add: j)
    then show ?thesis using z 2 cmp assms(5,6) by (auto simp: BnnDivide_def BnnSetDigit_def keeps_def keeps_but_def)
  next
    case 3
    then have t: "unat (m (nn + nl - 1)) < unat (m (dd + dl - 1))" using assms(7) by (simp add: word_less_nat_alt)
    show ?thesis
    proof (cases "dl = 1")
      case True
      obtain m' r where d: "BnnDivideDigit m (nn + 1) nn nl (m dd) = Some (m', r)" "num m' (nn + 1) (nl - 1) = ?N div unat (m dd)"
          "unat r = ?N mod unat (m dd)" "keeps m m' (nn + 1) (nl - 1)"
        using BnnDivideDigit_divides [of m nn nl "m dd" "nn + 1"] t True assms(5) by auto
      then show ?thesis using 3 cmp True assms(5) by (auto simp: BnnDivide_def keeps_def keeps_but_def)
    next
      case False
      then have "1 < dl" using assms(4) by simp
      from BnnDivide_long [OF assms(1-3) this assms(5) t] show ?thesis
        using 3 cmp False by (auto simp: BnnDivide_def Let_def)
    qed
  qed
qed

section \<open>Properties\<close>

text \<open>
  C32: \<open>BnnDivide\<close> ends and leaves the remainder in the low digits of the dividend and the quotient in the digits above them,
  under the assumptions that the comment of the function states; the divisor is complemented and shifted on the way, but it and
  all other digits have their old values at the end.  The variable \<open>QApp\<close> at \<open>qapp\<close> is a digit outside the two numbers.
\<close>

theorem bignum_divide:
  assumes "dd + dl \<le> nn \<or> nn + nl \<le> dd" and "qapp < dd \<or> dd + dl \<le> qapp" and "qapp < nn \<or> nn + nl \<le> qapp"
    and "0 < dl" and "dl < nl" and "0 < num m dd dl" and "num m dd dl < num m nn nl \<Longrightarrow> m (nn + nl - 1) < m (dd + dl - 1)"
  shows "\<exists>m'. BnnDivide m qapp nn nl dd dl = Some m' \<and> num m' nn dl = num m nn nl mod num m dd dl \<and>
           num m' (nn + dl) (nl - dl) = num m nn nl div num m dd dl \<and> (\<forall>i. i \<noteq> qapp \<and> (i < nn \<or> nn + nl \<le> i) \<longrightarrow> m' i = m i)"
  using BnnDivide_divides [of dd dl nn nl qapp m] assms by (auto simp: apart_def keeps_but_def)

theorem bignum_divide_witness:
  "let m = ((\<lambda>_. 0)(0 := 5, 1 := 7, 2 := 9, 3 := 8, 4 := 3) :: dmem)
   in num m 0 2 < num m 2 3 \<and> m 4 < m 1 \<and>
      (\<exists>m'. BnnDivide m 10 2 3 0 2 = Some m' \<and> num m' 2 2 = num m 2 3 mod num m 0 2 \<and> num m' 4 1 = num m 2 3 div num m 0 2)"
  using bignum_divide [of 0 2 2 3 10 "(\<lambda>_. 0)(0 := 5, 1 := 7, 2 := 9, 3 := 8, 4 := 3)"] by (simp add: Let_def num_2 num_3 Base_def) blast

text \<open>
  \<open>BnnDivideDigit\<close> ends and gives the quotient and the remainder by one digit when the leading digit of the dividend is less
  than the divisor, also when the quotient overlaps the dividend from above; every digit outside the quotient keeps its value.
\<close>

theorem bignum_divide_digit:
  assumes "m (nn + nl - 1) < d" and "0 < nl" and "nn \<le> qq \<or> qq + nl - 1 \<le> nn"
  shows "\<exists>m' r. BnnDivideDigit m qq nn nl d = Some (m', r) \<and> num m' qq (nl - 1) = num m nn nl div unat d \<and>
           unat r = num m nn nl mod unat d \<and> (\<forall>i. i < qq \<or> qq + (nl - 1) \<le> i \<longrightarrow> m' i = m i)"
  using BnnDivideDigit_divides [of m nn nl d qq] assms by (auto simp: keeps_def word_less_nat_alt)

theorem bignum_divide_digit_witness:
  "\<exists>m' r. BnnDivideDigit ((\<lambda>_. 0)(0 := 5, 1 := 7, 2 := 9)) 1 0 3 10 = Some (m', r) \<and>
     unat r = num ((\<lambda>_. 0)(0 := 5, 1 := 7, 2 := 9)) 0 3 mod 10 \<and> m' 0 = 5"
  using bignum_divide_digit [of "(\<lambda>_. 0)(0 := 5, 1 := 7, 2 := 9)" 0 3 10 1] by auto

end
