(* ===== verification/Bigz.thy ===== *)
theory Bigz
  imports Bignum_Div
begin

text \<open>
  Signed numbers of arbitrary size (\<^verbatim>\<open>otherlibs/num/bignum/c/bz.c\<close>, \<^verbatim>\<open>bzf.c\<close>, \<^verbatim>\<open>BigZ.h\<close>) on top of the kernel of \<^verbatim>\<open>Bignum\<close> and \<^verbatim>\<open>Bignum_Div\<close>.  A \<^verbatim>\<open>BigZ\<close> is the index of its first digit in the memory of
  digits; its header is in the two functions \<open>Size\<close> and \<open>Sign\<close>.  \<open>live\<close> has the objects that are allocated, and \<open>stack\<close> is the place of the local variable \<open>QApp\<close> of the division.
  \<^verbatim>\<open>malloc\<close> is a parameter: from the number of bytes, which is a 32-bit word, the place of the new digits, or \<open>None\<close> for a null pointer.  Numbers of digits are natural numbers; the number of bytes of an
  object is computed in a 32-bit word and wraps around from \<open>2 ^ 30 - 2\<close> digits on, so that an object can be smaller than its \<open>Size\<close> says.
\<close>

record bz =
  digits :: dmem
  Size :: "nat \<Rightarrow> nat"
  Sign :: "nat \<Rightarrow> int"
  live :: "nat set"
  stack :: nat

type_synonym malloc = "bz \<Rightarrow> uint32 \<Rightarrow> nat option"

text \<open>A call returns, with the new state, or its behaviour is undefined because a pointer that is null or was never set is followed.\<close>

datatype 'a bz_result = Done 'a bz | Undefined

definition BzSetSign :: "nat \<Rightarrow> int \<Rightarrow> bz \<Rightarrow> bz" where "BzSetSign z sg s = s\<lparr>Sign := (Sign s)(z := sg)\<rparr>"

definition BzGetOppositeSign :: "bz \<Rightarrow> nat \<Rightarrow> int" where "BzGetOppositeSign s z = - Sign s z"

text \<open>The header has two words.  With a number of bytes that has wrapped around, the loop that sets the digits to zero runs past the object.\<close>

definition object_bytes :: "nat \<Rightarrow> uint32" where "object_bytes sz = 8 + of_nat sz * 4"

definition BzCreate :: "malloc \<Rightarrow> nat \<Rightarrow> bz \<Rightarrow> nat option \<times> bz" where
  "BzCreate malloc sz s =
     (case malloc s (object_bytes sz) of
        None \<Rightarrow> (None, s)
      | Some z \<Rightarrow> (Some z, s\<lparr>digits := BnnSetToZero (digits s) z sz, Size := (Size s)(z := sz), Sign := (Sign s)(z := 0), live := insert z (live s)\<rparr>))"

definition BzFree :: "nat option \<Rightarrow> bz \<Rightarrow> bz" where
  "BzFree z s = (case z of None \<Rightarrow> s | Some z \<Rightarrow> s\<lparr>live := live s - {z}\<rparr>)"

definition BzNumDigits :: "bz \<Rightarrow> nat \<Rightarrow> nat" where "BzNumDigits s z = BnnNumDigits (digits s) z (Size s z)"

definition BzCopy :: "malloc \<Rightarrow> nat \<Rightarrow> bz \<Rightarrow> nat option bz_result" where
  "BzCopy malloc z s =
     (let zl = BzNumDigits s z
      in case BzCreate malloc zl s of
           (None, s) \<Rightarrow> Done None s
         | (Some y, s) \<Rightarrow> Done (Some y) (BzSetSign y (Sign s z) (s\<lparr>digits := BnnAssign (digits s) y z zl\<rparr>)))"

text \<open>\<open>BzNegate\<close> and \<open>BzAbs\<close> set the sign of the copy without a test for null.\<close>

definition BzNegate :: "malloc \<Rightarrow> nat \<Rightarrow> bz \<Rightarrow> nat option bz_result" where
  "BzNegate malloc z s =
     (case BzCopy malloc z s of Done (Some y) s \<Rightarrow> Done (Some y) (BzSetSign y (BzGetOppositeSign s z) s) | _ \<Rightarrow> Undefined)"

definition BzAbs :: "malloc \<Rightarrow> nat \<Rightarrow> bz \<Rightarrow> nat option bz_result" where
  "BzAbs malloc z s =
     (case BzCopy malloc z s of Done (Some y) s \<Rightarrow> Done (Some y) (BzSetSign y \<bar>Sign s z\<bar> s) | _ \<Rightarrow> Undefined)"

definition BzCompare :: "bz \<Rightarrow> nat \<Rightarrow> nat \<Rightarrow> BigNumCmp" where
  "BzCompare s y z =
     (if Sign s z < Sign s y then BN_GT
      else if Sign s y < Sign s z then BN_LT
      else if 0 < Sign s y then BnnCompare (digits s) y (Size s y) z (Size s z)
      else if Sign s y < 0 then BnnCompare (digits s) z (Size s z) y (Size s y)
      else BN_EQ)"

text \<open>The two ways to combine magnitudes: the larger one is copied, then the smaller one is added or subtracted.\<close>

definition add_magnitudes :: "malloc \<Rightarrow> nat \<Rightarrow> nat \<Rightarrow> nat \<Rightarrow> nat \<Rightarrow> bz \<Rightarrow> nat option bz_result" where
  "add_magnitudes malloc y yl z zl s =
     (case BzCreate malloc (yl + 1) s of
        (None, s) \<Rightarrow> Done None s
      | (Some n, s) \<Rightarrow>
          let m = BnnAssign (digits s) n y yl; m = fst (BnnAdd m n (yl + 1) z zl 0)
          in Done (Some n) (BzSetSign n (Sign s y) (s\<lparr>digits := m\<rparr>)))"

definition sub_magnitudes :: "malloc \<Rightarrow> nat \<Rightarrow> nat \<Rightarrow> nat \<Rightarrow> nat \<Rightarrow> bz \<Rightarrow> nat option bz_result" where
  "sub_magnitudes malloc y yl z zl s =
     (case BzCreate malloc yl s of
        (None, s) \<Rightarrow> Done None s
      | (Some n, s) \<Rightarrow>
          let m = BnnAssign (digits s) n y yl; m = fst (BnnSubtract m n yl z zl 1)
          in Done (Some n) (BzSetSign n (Sign s y) (s\<lparr>digits := m\<rparr>)))"

definition BzAdd :: "malloc \<Rightarrow> nat \<Rightarrow> nat \<Rightarrow> bz \<Rightarrow> nat option bz_result" where
  "BzAdd malloc y z s =
     (let yl = BzNumDigits s y; zl = BzNumDigits s z; c = BnnCompare (digits s) y yl z zl
      in if Sign s y = Sign s z
         then if c = BN_LT then add_magnitudes malloc z zl y yl s else add_magnitudes malloc y yl z zl s
         else (case c of
                 BN_EQ \<Rightarrow> (case BzCreate malloc 1 s of (n, s) \<Rightarrow> Done n s)
               | BN_GT \<Rightarrow> sub_magnitudes malloc y yl z zl s
               | BN_LT \<Rightarrow> sub_magnitudes malloc z zl y yl s))"

text \<open>\<open>BzSubtract\<close> turns the sign of its argument around while it adds.\<close>

definition BzSubtract :: "malloc \<Rightarrow> nat \<Rightarrow> nat \<Rightarrow> bz \<Rightarrow> nat option bz_result" where
  "BzSubtract malloc y z s =
     (if y = z then (case BzCreate malloc 1 s of (n, s) \<Rightarrow> Done n s)
      else case BzAdd malloc y z (BzSetSign z (BzGetOppositeSign s z) s) of
             Done diff s \<Rightarrow> Done diff (BzSetSign z (BzGetOppositeSign s z) s)
           | Undefined \<Rightarrow> Undefined)"

definition BzMultiply :: "malloc \<Rightarrow> nat \<Rightarrow> nat \<Rightarrow> bz \<Rightarrow> nat option bz_result" where
  "BzMultiply malloc y z s =
     (let yl = BzNumDigits s y; zl = BzNumDigits s z
      in case BzCreate malloc (yl + zl) s of
           (None, s) \<Rightarrow> Done None s
         | (Some n, s) \<Rightarrow>
             Done (Some n) (BzSetSign n (Sign s y * Sign s z) (s\<lparr>digits := fst (BnnMultiply (digits s) n (yl + zl) y yl z zl)\<rparr>)))"

text \<open>
  \<open>BzDivide\<close> also returns what it stores in \<open>*r\<close>: nothing when the divisor is zero, else a pointer, which may be null.
\<close>

definition correct_signs :: "nat \<Rightarrow> nat \<Rightarrow> nat \<Rightarrow> nat \<Rightarrow> nat \<Rightarrow> nat \<Rightarrow> bz \<Rightarrow> bz" where
  "correct_signs y z zl q ql r s =
     (let rl = zl; rnotnul = \<not> BnnIsZero (digits s) r rl;
          s = (if Sign s y = - 1 \<and> rnotnul
               then let m = fst (BnnAddCarry (digits s) q ql 1); m = BnnComplement m r rl; m = fst (BnnAdd m r rl z zl 1)
                    in BzSetSign q (BzGetOppositeSign s z) (s\<lparr>digits := m\<rparr>)
               else BzSetSign q (Sign s y * Sign s z) s);
          s = (if BnnIsZero (digits s) q ql then BzSetSign q 0 s else s)
      in if rnotnul then BzSetSign r 1 s else s)"

definition BzDivide :: "malloc \<Rightarrow> nat \<Rightarrow> nat \<Rightarrow> bz \<Rightarrow> (nat option \<times> nat option option) bz_result" where
  "BzDivide malloc y z s =
     (if Sign s z = 0 then Done (None, None) s
      else
        let yl = BzNumDigits s y; zl = BzNumDigits s z; ql = max (yl + 1 - zl) 1 + 1; rl = max zl yl + 1;
            (q, s) = BzCreate malloc ql s; (r, s) = BzCreate malloc rl s
        in case (q, r) of
             (Some q, Some r) \<Rightarrow>
               (case BnnDivide (BnnAssign (digits s) r y yl) (stack s) r rl z zl of
                  None \<Rightarrow> Undefined
                | Some m \<Rightarrow>
                    let m = BnnAssign m q (r + zl) (rl - zl); m = BnnSetToZero m (r + zl) (rl - zl)
                    in Done (Some q, Some (Some r)) (correct_signs y z zl q ql r (s\<lparr>digits := m\<rparr>)))
           | _ \<Rightarrow> Done (None, Some r) s)"

definition BzDiv :: "malloc \<Rightarrow> nat \<Rightarrow> nat \<Rightarrow> bz \<Rightarrow> nat option bz_result" where
  "BzDiv malloc y z s =
     (case BzDivide malloc y z s of
        Done (q, Some r) s \<Rightarrow> Done q (BzFree r s)
      | _ \<Rightarrow> Undefined)"

definition BzMod :: "malloc \<Rightarrow> nat \<Rightarrow> nat \<Rightarrow> bz \<Rightarrow> nat option bz_result" where
  "BzMod malloc y z s =
     (case BzDivide malloc y z s of
        Done (q, Some r) s \<Rightarrow> Done r (BzFree q s)
      | _ \<Rightarrow> Undefined)"

definition BzFromInteger :: "malloc \<Rightarrow> uint32 \<Rightarrow> bz \<Rightarrow> nat option bz_result" where
  "BzFromInteger malloc i s =
     (case BzCreate malloc 1 s of
        (None, s) \<Rightarrow> Undefined
      | (Some z, s) \<Rightarrow>
          Done (Some z) (BzSetSign z (if slt 0 i then 1 else if slt i 0 then - 1 else 0) (s\<lparr>digits := (digits s)(z := if slt i 0 then - i else i)\<rparr>)))"

definition MAXINT :: uint32 where "MAXINT = NOT (push_bit 31 1)"

definition BzToInteger :: "nat \<Rightarrow> bz \<Rightarrow> uint32" where
  "BzToInteger z s = (if 1 < BzNumDigits s z then MAXINT else if Sign s z = - 1 then - digits s z else digits s z)"

definition BzFromBigNum :: "malloc \<Rightarrow> nat \<Rightarrow> nat \<Rightarrow> bz \<Rightarrow> nat option bz_result" where
  "BzFromBigNum malloc n nl s =
     (case BzCreate malloc nl s of
        (None, s) \<Rightarrow> Undefined
      | (Some z, s) \<Rightarrow>
          let s = BzSetSign z (if BnnIsZero (digits s) n nl then 0 else 1) s
          in Done (Some z) (s\<lparr>digits := copy_up (digits s) z n nl\<rparr>))"

text \<open>The product \<open>f\<close> takes a factor by adding \<open>f\<close> times one less than it.\<close>

function factorial_loop :: "nat \<Rightarrow> nat \<Rightarrow> uint32 \<Rightarrow> dmem \<Rightarrow> dmem" where
  "factorial_loop f fl zval m =
     (if 1 < zval
      then let zval = zval - 1; m = fst (BnnMultiplyDigit m f (fl + 1) f fl zval) in factorial_loop f (BnnNumDigits m f (fl + 1)) zval m
      else m)"
  by auto
termination
  by (relation "measure (\<lambda>(f, fl, zval, m). unat zval)") (auto intro!: measure_unat)

declare factorial_loop.simps [simp del]

definition BzFactorial :: "malloc \<Rightarrow> nat \<Rightarrow> bz \<Rightarrow> nat option bz_result" where
  "BzFactorial malloc z s =
     (let zval = BnnGetDigit (digits s) z
      in case BzCreate malloc (unat (zval + 1)) s of
           (None, s) \<Rightarrow> Undefined
         | (Some f, s) \<Rightarrow>
             let s = BzSetSign f (Sign s z) (s\<lparr>digits := BnnSetDigit (digits s) f 1\<rparr>)
             in Done (Some f) (s\<lparr>digits := factorial_loop f 1 zval (digits s)\<rparr>))"

section \<open>Well-formed numbers\<close>

text \<open>
  The objects lie apart from each other and from the stack, each has at least one digit, and its sign is zero exactly if its digits are.  The documented behaviour of \<^verbatim>\<open>malloc\<close> is that the bytes of a
  new object lie apart from all others; after the header there is room for \<open>room b\<close> digits in \<open>b\<close> bytes.
\<close>

definition val :: "bz \<Rightarrow> nat \<Rightarrow> int" where "val s z = Sign s z * int (num (digits s) z (Size s z))"

definition bz_ok :: "bz \<Rightarrow> bool" where
  "bz_ok s \<longleftrightarrow> finite (live s) \<and>
     (\<forall>z \<in> live s. 0 < Size s z \<and> Sign s z \<in> {- 1, 0, 1} \<and> (Sign s z = 0 \<longleftrightarrow> num (digits s) z (Size s z) = 0) \<and> (stack s < z \<or> z + Size s z \<le> stack s)) \<and>
     (\<forall>y \<in> live s. \<forall>z \<in> live s. y \<noteq> z \<longrightarrow> y + Size s y \<le> z \<or> z + Size s z \<le> y)"

definition fresh :: "bz \<Rightarrow> nat \<Rightarrow> nat \<Rightarrow> bool" where
  "fresh s n z \<longleftrightarrow> z \<notin> live s \<and> (stack s < z \<or> z + n \<le> stack s) \<and> (\<forall>q \<in> live s. q + Size s q \<le> z \<or> z + n \<le> q)"

definition room :: "uint32 \<Rightarrow> nat" where "room b = (unat b - 8) div 4"

definition malloc_ok :: "malloc \<Rightarrow> bool" where
  "malloc_ok malloc \<longleftrightarrow> (\<forall>s b z. finite (live s) \<longrightarrow> malloc s b = Some z \<longrightarrow> fresh s (room b) z)"

text \<open>An object of \<open>n\<close> digits whose number of bytes does not wrap around; and a list of requests that \<^verbatim>\<open>malloc\<close> grants one after the other.\<close>

definition fits_bytes :: "nat \<Rightarrow> bool" where "fits_bytes n \<longleftrightarrow> 8 + 4 * n < 2 ^ 32"

primrec granted :: "malloc \<Rightarrow> nat list \<Rightarrow> bz \<Rightarrow> bool" where
  "granted malloc [] s = True"
| "granted malloc (n # ns) s = (case BzCreate malloc n s of (None, _) \<Rightarrow> False | (Some _, s) \<Rightarrow> granted malloc ns s)"

text \<open>The objects of \<open>s\<close> are still there in \<open>s'\<close>, unchanged.\<close>

definition same :: "bz \<Rightarrow> bz \<Rightarrow> bool" where
  "same s s' \<longleftrightarrow> live s \<subseteq> live s' \<and> stack s' = stack s \<and>
     (\<forall>q \<in> live s. Size s' q = Size s q \<and> Sign s' q = Sign s q \<and> num (digits s') q (Size s q) = num (digits s) q (Size s q))"

text \<open>The contract of the operations: a new object with a given value, unless an allocation of this call fails, which \<open>ok\<close> excludes.\<close>

definition yields :: "bool \<Rightarrow> bz \<Rightarrow> nat option bz_result \<Rightarrow> int \<Rightarrow> bool" where
  "yields ok s res v \<longleftrightarrow>
     (case res of
        Undefined \<Rightarrow> \<not> ok
      | Done x s' \<Rightarrow> bz_ok s' \<and> same s s' \<and> (case x of None \<Rightarrow> \<not> ok | Some z \<Rightarrow> z \<in> live s' \<and> z \<notin> live s \<and> val s' z = v))"

lemma same_refl [simp]: "same s s" by (simp add: same_def)

lemma same_trans: "same s s' \<Longrightarrow> same s' s'' \<Longrightarrow> same s s''"
  unfolding same_def by (metis (no_types, lifting) subset_iff)

lemma same_val: "same s s' \<Longrightarrow> z \<in> live s \<Longrightarrow> val s' z = val s z"
  by (simp add: same_def val_def)

lemma bz_okD:
  assumes "bz_ok s" and "z \<in> live s"
  shows "0 < Size s z" and "Sign s z \<in> {- 1, 0, 1}" and "Sign s z = 0 \<longleftrightarrow> num (digits s) z (Size s z) = 0" and "stack s < z \<or> z + Size s z \<le> stack s"
  using assms unfolding bz_ok_def by blast+

lemma bz_apart: "bz_ok s \<Longrightarrow> y \<in> live s \<Longrightarrow> z \<in> live s \<Longrightarrow> y \<noteq> z \<Longrightarrow> y + Size s y \<le> z \<or> z + Size s z \<le> y"
  unfolding bz_ok_def by blast

lemma BzNumDigits_num:
  assumes "bz_ok s" and "z \<in> live s"
  shows "num (digits s) z (BzNumDigits s z) = num (digits s) z (Size s z)" and "1 \<le> BzNumDigits s z" and "BzNumDigits s z \<le> Size s z"
  using BnnNumDigits_num [OF bz_okD(1) [OF assms]] by (simp_all add: BzNumDigits_def)

lemma room_fits_bytes: "fits_bytes n \<Longrightarrow> room (object_bytes n) = n"
proof -
  assume f: "fits_bytes n"
  have "object_bytes n = of_nat (8 + 4 * n)" by (simp add: object_bytes_def mult.commute)
  then have "unat (object_bytes n) = 8 + 4 * n" using f by (simp only: unat_of_nat fits_bytes_def) simp
  then show ?thesis by (simp add: room_def)
qed

lemma malloc_fresh: "malloc_ok malloc \<Longrightarrow> bz_ok s \<Longrightarrow> malloc s (object_bytes n) = Some z \<Longrightarrow> fits_bytes n \<Longrightarrow> fresh s n z"
  unfolding malloc_ok_def bz_ok_def using room_fits_bytes by metis

text \<open>All operations fill the digits of a new object and set its sign.\<close>

definition with_object :: "bz \<Rightarrow> nat \<Rightarrow> nat \<Rightarrow> int \<Rightarrow> dmem \<Rightarrow> bz" where
  "with_object s z n sg m = s\<lparr>digits := m, Size := (Size s)(z := n), Sign := (Sign s)(z := sg), live := insert z (live s)\<rparr>"

lemma with_object_sel [simp]:
  "digits (with_object s z n sg m) = m" "Size (with_object s z n sg m) = (Size s)(z := n)" "Sign (with_object s z n sg m) = (Sign s)(z := sg)"
  "live (with_object s z n sg m) = insert z (live s)" "stack (with_object s z n sg m) = stack s"
  "BzSetSign z sg' (with_object s z n sg m) = with_object s z n sg' m" "digits_update (\<lambda>_. m') (with_object s z n sg m) = with_object s z n sg m'"
  by (simp_all add: with_object_def BzSetSign_def)

lemma BzCreate_eq: "BzCreate malloc n s = (case malloc s (object_bytes n) of None \<Rightarrow> (None, s) | Some z \<Rightarrow> (Some z, with_object s z n 0 (BnnSetToZero (digits s) z n)))"
  by (simp add: BzCreate_def with_object_def split: option.split)

lemma granted_one [simp]: "granted malloc [n] s \<longleftrightarrow> malloc s (object_bytes n) \<noteq> None"
  by (simp add: BzCreate_eq split: option.split)

lemma new_object:
  assumes "bz_ok s" and "fresh s n z" and "0 < n" and "sg \<in> {- 1, 0, 1}" and "sg = 0 \<longleftrightarrow> num m z n = 0" and num: "\<And>q. q \<in> live s \<Longrightarrow> num m q (Size s q) = num (digits s) q (Size s q)"
  shows "bz_ok (with_object s z n sg m) \<and> same s (with_object s z n sg m) \<and> val (with_object s z n sg m) z = sg * int (num m z n)"
proof -
  have a: "z \<notin> live s" "stack s < z \<or> z + n \<le> stack s" "q \<in> live s \<Longrightarrow> q + Size s q \<le> z \<or> z + n \<le> q" for q
    using assms(2) unfolding fresh_def by blast+
  have "bz_ok (with_object s z n sg m)" unfolding bz_ok_def
  proof (intro conjI ballI impI)
    fix q assume q: "q \<in> live (with_object s z n sg m)"
    show "0 < Size (with_object s z n sg m) q" "Sign (with_object s z n sg m) q \<in> {- 1, 0, 1}"
      "Sign (with_object s z n sg m) q = 0 \<longleftrightarrow> num (digits (with_object s z n sg m)) q (Size (with_object s z n sg m) q) = 0"
      "stack (with_object s z n sg m) < q \<or> q + Size (with_object s z n sg m) q \<le> stack (with_object s z n sg m)"
      using q assms(3-5) a(2) bz_okD [OF assms(1), of q] num [of q] by (cases "q = z"; simp)+
  next
    fix y q assume "y \<in> live (with_object s z n sg m)" "q \<in> live (with_object s z n sg m)" "y \<noteq> q"
    then show "y + Size (with_object s z n sg m) y \<le> q \<or> q + Size (with_object s z n sg m) q \<le> y"
      using a(3) [of q] a(3) [of y] bz_apart [OF assms(1), of y q] by (cases "y = z"; cases "q = z") auto
  qed (use assms(1) in \<open>simp add: bz_ok_def\<close>)
  moreover have "same s (with_object s z n sg m)" unfolding same_def using num a(1) by (auto simp: fun_upd_apply)
  ultimately show ?thesis by (simp add: val_def)
qed

lemma yields_keeps:
  assumes "malloc_ok malloc" and "bz_ok s" and "malloc s (object_bytes n) = Some z" and "fits_bytes n" and "0 < n" and "sg \<in> {- 1, 0, 1}" and "sg = 0 \<longleftrightarrow> num m z n = 0"
    and "keeps (digits s) m z n" and "sg * int (num m z n) = v"
  shows "yields ok s (Done (Some z) (with_object s z n sg m)) v"
proof -
  note fr = malloc_fresh [OF assms(1-4)]
  have "num m q (Size s q) = num (digits s) q (Size s q)" if "q \<in> live s" for q using keeps_num [OF assms(8), of q "Size s q"] that fr by (auto simp: fresh_def)
  then show ?thesis using new_object [OF assms(2) fr assms(5-7)] fr assms(9) by (simp add: yields_def fresh_def)
qed

lemma set_sign_ok: "bz_ok s \<Longrightarrow> sg \<in> {- 1, 0, 1} \<Longrightarrow> sg = 0 \<longleftrightarrow> num (digits s) z (Size s z) = 0 \<Longrightarrow> bz_ok (BzSetSign z sg s)"
  unfolding bz_ok_def BzSetSign_def by (auto simp: fun_upd_apply)

lemma yields_null: "bz_ok s \<Longrightarrow> \<not> ok \<Longrightarrow> yields ok s (Done None s) v"
  by (auto simp: yields_def)

section \<open>The operations\<close>

lemma num_digits: "(\<And>i. i < n \<Longrightarrow> m (p + i) = m' (q + i)) \<Longrightarrow> num m p n = num m' q n"
proof (induction n arbitrary: p q)
  case (Suc n)
  have "num m (Suc p) n = num m' (Suc q) n" by (rule Suc.IH) (use Suc.prems [of "Suc _"] in simp)
  then show ?case using Suc.prems [of 0] by simp
qed simp

text \<open>A number copied to the low digits of an object that is zero.\<close>

lemma assign_zero:
  assumes "num d n l = 0" and "y + yl \<le> n \<or> n + l \<le> y" and "yl \<le> l"
  shows "num (BnnAssign d n y yl) n l = num d y yl" and "keeps d (BnnAssign d n y yl) n l"
proof -
  note a = BnnAssign_digits [of yl d n y]
  have k: "keeps d (BnnAssign d n y yl) n yl" using a by blast
  then show "keeps d (BnnAssign d n y yl) n l" using keeps_trans [of d d n l _ n yl n l] assms(3) by simp
  have lo: "num (BnnAssign d n y yl) n yl = num d y yl" by (rule num_digits) (use a in blast)
  have "num (BnnAssign d n y yl) (n + yl) (l - yl) = num d (n + yl) (l - yl)" using k by (rule keeps_num) simp
  moreover have "num d n (yl + (l - yl)) = 0" using assms(1,3) by simp
  ultimately have "num (BnnAssign d n y yl) (n + yl) (l - yl) = 0" by (simp add: num_add Base_def)
  then show "num (BnnAssign d n y yl) n l = num d y yl" using num_add [of "BnnAssign d n y yl" n yl "l - yl"] lo assms(3) by simp
qed

lemma assign_fresh:
  assumes "y + yl \<le> n \<or> n + l \<le> y" and "yl \<le> l"
  shows "num (BnnAssign (BnnSetToZero d n l) n y yl) n l = num d y yl" and "keeps d (BnnAssign (BnnSetToZero d n l) n y yl) n l"
proof -
  note z = BnnSetToZero_num [of d n l]
  note a = assign_zero [OF conjunct1 [OF z] assms]
  have "num (BnnSetToZero d n l) y yl = num d y yl" using z assms by (intro keeps_num) auto
  then show "num (BnnAssign (BnnSetToZero d n l) n y yl) n l = num d y yl" using a(1) by simp
  show "keeps d (BnnAssign (BnnSetToZero d n l) n y yl) n l" using keeps_trans [OF conjunct2 [OF z] a(2), of n l] by simp
qed

lemma live_apart:
  assumes "malloc_ok malloc" and "bz_ok s" and "malloc s (object_bytes n) = Some z" and "fits_bytes n" and "y \<in> live s"
  shows "y + BzNumDigits s y \<le> z \<or> z + n \<le> y" and "y \<noteq> z"
  using malloc_fresh [OF assms(1-4)] assms(5) BzNumDigits_num(3) [OF assms(2,5)] by (auto simp: fresh_def)

lemma BzCopy_yields:
  assumes "malloc_ok malloc" and "bz_ok s" and "z \<in> live s" and "fits_bytes (BzNumDigits s z)"
  shows "yields (granted malloc [BzNumDigits s z] s) s (BzCopy malloc z s) (val s z)"
proof (cases "malloc s (object_bytes (BzNumDigits s z))")
  case None
  then show ?thesis using assms(2) by (simp add: BzCopy_def BzCreate_eq Let_def yields_null)
next
  case (Some y)
  note ap = live_apart [OF assms(1,2) Some assms(4,3)] and nz = BzNumDigits_num [OF assms(2,3)] and ok = bz_okD [OF assms(2,3)]
  note f = assign_fresh [OF ap(1), of "digits s"]
  have e: "BzCopy malloc z s = Done (Some y) (with_object s y (BzNumDigits s z) (Sign s z) (BnnAssign (BnnSetToZero (digits s) y (BzNumDigits s z)) y z (BzNumDigits s z)))"
    using ap(2) by (simp add: BzCopy_def BzCreate_eq Let_def Some)
  show ?thesis unfolding e by (rule yields_keeps [OF assms(1,2) Some assms(4)]) (use f ok nz in \<open>auto simp: val_def\<close>)
qed

lemma set_sign_yields:
  assumes "yields ok s (BzCopy malloc z s) (val s z)" and "bz_ok s" and "z \<in> live s" and "\<And>x. f x \<in> {- 1, 0, 1 :: int} \<longleftrightarrow> x \<in> {- 1, 0, 1}" and "\<And>x. f x = 0 \<longleftrightarrow> x = 0"
    and "\<And>x n. x \<in> {- 1, 0, 1} \<Longrightarrow> f x * int n = h (x * int n)"
  shows "yields ok s (case BzCopy malloc z s of Done (Some y) s \<Rightarrow> Done (Some y) (BzSetSign y (f (Sign s z)) s) | _ \<Rightarrow> Undefined) (h (val s z))"
proof (cases "BzCopy malloc z s")
  case Undefined
  then show ?thesis using assms(1) by (simp add: yields_def)
next
  case (Done x s')
  show ?thesis
  proof (cases x)
    case None
    then show ?thesis using assms(1) Done by (simp add: yields_def)
  next
    case (Some y)
    have y: "bz_ok s'" "same s s'" "y \<in> live s'" "y \<notin> live s" "val s' y = val s z" using assms(1) Done Some by (auto simp: yields_def)
    have sg: "Sign s' z = Sign s z" "Sign s z \<in> {- 1, 0, 1}" using y(2) assms(3) bz_okD [OF assms(2,3)] by (auto simp: same_def)
    note oy = bz_okD [OF y(1,3)] and oz = bz_okD [OF assms(2,3)]
    have ny: "int (num (digits s') y (Size s' y)) = \<bar>val s z\<bar>" "Sign s z = sgn (val s z)"
      using y(5) oy(2,3) oz(2,3) by (auto simp: val_def abs_mult sgn_mult)
    have z0: "num (digits s') y (Size s' y) = 0 \<longleftrightarrow> Sign s z = 0" using ny by (metis abs_eq_0_iff of_nat_eq_0_iff sgn_0_0)
    let ?t = "BzSetSign y (f (Sign s' z)) s'"
    have "bz_ok ?t" by (rule set_sign_ok [OF y(1)]) (use sg z0 assms(4,5) in simp_all)
    moreover have "same s ?t" using y(2,4) by (auto simp: same_def BzSetSign_def fun_upd_apply)
    moreover have "val ?t y = h (val s z)"
    proof -
      have "val ?t y = f (Sign s z) * int (num (digits s') y (Size s' y))" using sg by (simp add: val_def BzSetSign_def)
      also have "\<dots> = h (Sign s z * int (num (digits s') y (Size s' y)))" by (rule assms(6) [OF sg(2)])
      also have "\<dots> = h (val s z)" unfolding ny(1) using ny(2) by (simp add: sgn_mult_abs)
      finally show ?thesis .
    qed
    ultimately show ?thesis using y(3,4) by (simp add: Done Some yields_def BzSetSign_def)
  qed
qed

lemma BzNegate_yields:
  "malloc_ok malloc \<Longrightarrow> bz_ok s \<Longrightarrow> z \<in> live s \<Longrightarrow> fits_bytes (BzNumDigits s z) \<Longrightarrow> yields (granted malloc [BzNumDigits s z] s) s (BzNegate malloc z s) (- val s z)"
  unfolding BzNegate_def BzGetOppositeSign_def by (rule set_sign_yields [OF BzCopy_yields, where f = uminus]) auto

lemma BzAbs_yields:
  "malloc_ok malloc \<Longrightarrow> bz_ok s \<Longrightarrow> z \<in> live s \<Longrightarrow> fits_bytes (BzNumDigits s z) \<Longrightarrow> yields (granted malloc [BzNumDigits s z] s) s (BzAbs malloc z s) \<bar>val s z\<bar>"
  unfolding BzAbs_def by (rule set_sign_yields [OF BzCopy_yields, where f = abs]) (auto simp: abs_mult)

abbreviation mag :: "bz \<Rightarrow> nat \<Rightarrow> nat" where "mag s z \<equiv> num (digits s) z (Size s z)"

lemma BzCompare_val:
  assumes "bz_ok s" and "y \<in> live s" and "z \<in> live s"
  shows "BzCompare s y z = (if val s z < val s y then BN_GT else if val s y = val s z then BN_EQ else BN_LT)"
proof -
  note oy = bz_okD [OF assms(1,2)] and oz = bz_okD [OF assms(1,3)]
  note c = BnnCompare_num [OF oy(1) oz(1), of "digits s" y z] BnnCompare_num [OF oz(1) oy(1), of "digits s" z y]
  consider "Sign s y = Sign s z" | "Sign s z < Sign s y" | "Sign s y < Sign s z" by linarith
  then show ?thesis using oy(2,3) oz(2,3) c by cases (auto simp: BzCompare_def val_def)
qed

lemma digits_mono:
  assumes "bz_ok s" and "y \<in> live s" and "z \<in> live s" and "mag s z \<le> mag s y"
  shows "BzNumDigits s z \<le> BzNumDigits s y"
proof (rule ccontr)
  assume "\<not> BzNumDigits s z \<le> BzNumDigits s y"
  then have lt: "BzNumDigits s y \<le> BzNumDigits s z - 1" "BzNumDigits s z \<noteq> 1" using BzNumDigits_num(2) [OF assms(1,2)] by auto
  have "mag s y < Base ^ BzNumDigits s y" using num_bound [of "digits s" y "BzNumDigits s y"] BzNumDigits_num(1) [OF assms(1,2)] by simp
  also have "\<dots> \<le> Base ^ (BzNumDigits s z - 1)" using lt(1) by (intro power_increasing) (simp_all add: Base_def)
  also have "\<dots> \<le> mag s z" using BnnNumDigits_num(4) [OF bz_okD(1) [OF assms(1,3)]] lt(2) by (auto simp: BzNumDigits_def)
  finally show False using assms(4) by simp
qed

lemma mag_bound: "bz_ok s \<Longrightarrow> z \<in> live s \<Longrightarrow> mag s z < Base ^ BzNumDigits s z"
  using num_bound [of "digits s" z "BzNumDigits s z"] BzNumDigits_num(1) by simp

lemma add_magnitudes_yields:
  assumes "malloc_ok malloc" and "bz_ok s" and "y \<in> live s" and "z \<in> live s" and "mag s z \<le> mag s y" and "Sign s y = Sign s z" and "fits_bytes (BzNumDigits s y + 1)"
  shows "yields (granted malloc [BzNumDigits s y + 1] s) s (add_magnitudes malloc y (BzNumDigits s y) z (BzNumDigits s z) s) (val s y + val s z)"
proof (cases "malloc s (object_bytes (BzNumDigits s y + 1))")
  case None
  then show ?thesis using assms(2) by (simp add: add_magnitudes_def BzCreate_eq yields_null)
next
  case (Some n)
  define l where "l = BzNumDigits s y + 1"
  note Some = Some [folded l_def] and fit = assms(7) [folded l_def]
  let ?yl = "BzNumDigits s y" and ?zl = "BzNumDigits s z"
  let ?m = "BnnAssign (BnnSetToZero (digits s) n l) n y ?yl"
  obtain m' c where a: "BnnAdd ?m n l z ?zl 0 = (m', c)" by (metis surj_pair)
  note apy = live_apart [OF assms(1,2) Some fit assms(3)] and apz = live_apart [OF assms(1,2) Some fit assms(4)]
  have le: "?zl \<le> ?yl" by (rule digits_mono [OF assms(2-5)])
  have yl: "?yl \<le> l" "?yl < l" by (simp_all add: l_def)
  note f = assign_fresh [OF apy(1) yl(1), of "digits s"]
  have z: "num ?m z ?zl = mag s z" using keeps_num [OF f(2), of z ?zl] apz(1) BzNumDigits_num(1) [OF assms(2,4)] by auto
  have y: "num ?m n l = mag s y" using f(1) BzNumDigits_num(1) [OF assms(2,3)] by simp
  have r: "num m' n l + Base ^ l * unat c = mag s y + mag s z" "keeps ?m m' n l"
    using BnnAdd_adds [OF a] le yl apz(1) y z by auto
  have "mag s y + mag s z < Base ^ l"
    using mag_bound [OF assms(2,3)] assms(5) by (simp add: Base_def l_def)
  then have r1: "num m' n l = mag s y + mag s z" using r(1) by (cases "unat c") auto
  have k: "keeps (digits s) m' n l" using f(2) r(2) keeps_trans [of "digits s" ?m n "l" m' n "l" n "l"] by simp
  note ok = bz_okD [OF assms(2,3)] bz_okD [OF assms(2,4)]
  have e: "add_magnitudes malloc y ?yl z ?zl s = Done (Some n) (with_object s n l (Sign s y) m')"
    using apy(2) a unfolding add_magnitudes_def l_def [symmetric] by (simp add: BzCreate_eq Some Let_def)
  show ?thesis unfolding e by (rule yields_keeps [OF assms(1,2) Some fit]) (use ok k r1 yl assms(6) in \<open>auto simp: val_def algebra_simps\<close>)
qed

lemma sub_magnitudes_yields:
  assumes "malloc_ok malloc" and "bz_ok s" and "y \<in> live s" and "z \<in> live s" and "mag s z < mag s y" and "Sign s y \<noteq> Sign s z" and "fits_bytes (BzNumDigits s y)"
  shows "yields (granted malloc [BzNumDigits s y] s) s (sub_magnitudes malloc y (BzNumDigits s y) z (BzNumDigits s z) s) (val s y + val s z)"
proof (cases "malloc s (object_bytes (BzNumDigits s y))")
  case None
  then show ?thesis using assms(2) by (simp add: sub_magnitudes_def BzCreate_eq yields_null)
next
  case (Some n)
  let ?yl = "BzNumDigits s y" and ?zl = "BzNumDigits s z"
  let ?m = "BnnAssign (BnnSetToZero (digits s) n ?yl) n y ?yl"
  obtain m' c where a: "BnnSubtract ?m n ?yl z ?zl 1 = (m', c)" by (metis surj_pair)
  note apy = live_apart [OF assms(1,2) Some assms(7,3)] and apz = live_apart [OF assms(1,2) Some assms(7,4)]
  have le: "?zl \<le> ?yl" by (rule digits_mono [OF assms(2-4)]) (use assms(5) in simp)
  note f = assign_fresh [OF apy(1) order_refl, of "digits s"]
  have z: "num ?m z ?zl = mag s z" using keeps_num [OF f(2), of z ?zl] apz(1) BzNumDigits_num(1) [OF assms(2,4)] by auto
  have y: "num ?m n ?yl = mag s y" using f(1) BzNumDigits_num(1) [OF assms(2,3)] by simp
  have r: "num m' n ?yl + mag s z + Base ^ ?yl * unat c = mag s y + Base ^ ?yl" "unat c \<le> 1" "keeps ?m m' n ?yl"
    using BnnSubtract_subtracts [OF a] le apz(1) y z by auto
  have "unat c = 1" using r(1,2) num_bound [of m' n ?yl] assms(5) by (cases "unat c") auto
  then have r1: "num m' n ?yl = mag s y - mag s z" using r(1) by simp
  have k: "keeps (digits s) m' n ?yl" using f(2) r(3) keeps_trans [of "digits s" ?m n ?yl m' n ?yl n ?yl] by simp
  note ok = bz_okD [OF assms(2,3)] bz_okD [OF assms(2,4)]
  have "Sign s y \<noteq> 0" using ok(3) assms(5) by auto
  then have v: "Sign s y * int (mag s y - mag s z) = val s y + val s z" using ok(2,3,6,7) assms(5,6) by (auto simp: val_def of_nat_diff)
  have e: "sub_magnitudes malloc y ?yl z ?zl s = Done (Some n) (with_object s n ?yl (Sign s y) m')"
    using apy(2) a by (simp add: sub_magnitudes_def BzCreate_eq Some Let_def)
  show ?thesis unfolding e by (rule yields_keeps [OF assms(1,2) Some assms(7)]) (use ok k r1 v assms(5) BzNumDigits_num(2) [OF assms(2,3)] in auto)
qed

lemma BzCreate_yields:
  assumes "malloc_ok malloc" and "bz_ok s" and "fits_bytes n" and "0 < n"
  shows "yields (granted malloc [n] s) s (case BzCreate malloc n s of (x, s) \<Rightarrow> Done x s) 0"
proof (cases "malloc s (object_bytes n)")
  case (Some z)
  show ?thesis using yields_keeps [OF assms(1,2) Some assms(3,4), where sg = 0] BnnSetToZero_num [of "digits s" z n] by (simp add: BzCreate_eq Some)
qed (use assms(2) in \<open>simp add: BzCreate_eq yields_null\<close>)

text \<open>The digits that the sum needs.\<close>

definition add_len :: "bz \<Rightarrow> nat \<Rightarrow> nat \<Rightarrow> bool \<Rightarrow> nat" where
  "add_len s y z alike =
     (let l = max (BzNumDigits s y) (BzNumDigits s z) in if alike then l + 1 else if mag s y = mag s z then 1 else l)"

lemma BzAdd_yields:
  assumes "malloc_ok malloc" and "bz_ok s" and "y \<in> live s" and "z \<in> live s" and "fits_bytes (add_len s y z (Sign s y = Sign s z))"
  shows "yields (granted malloc [add_len s y z (Sign s y = Sign s z)] s) s (BzAdd malloc y z s) (val s y + val s z)"
proof -
  note oy = bz_okD [OF assms(2,3)] and oz = bz_okD [OF assms(2,4)]
  have c: "BnnCompare (digits s) y (BzNumDigits s y) z (BzNumDigits s z) = (if mag s z < mag s y then BN_GT else if mag s y = mag s z then BN_EQ else BN_LT)"
    using BnnCompare_num [of "BzNumDigits s y" "BzNumDigits s z" "digits s" y z] BzNumDigits_num [OF assms(2,3)] BzNumDigits_num [OF assms(2,4)] by simp
  have eq: "val s y + val s z = 0" if "Sign s y \<noteq> Sign s z" "mag s y = mag s z" using that oy(2,3) oz(2,3) by (auto simp: val_def)
  have l: "max (BzNumDigits s y) (BzNumDigits s z) = (if mag s z \<le> mag s y then BzNumDigits s y else BzNumDigits s z)"
    using digits_mono [OF assms(2-4)] digits_mono [OF assms(2,4,3)] by auto
  have n: "add_len s y z (Sign s y = Sign s z) = (if Sign s y = Sign s z then if mag s y < mag s z then BzNumDigits s z + 1 else BzNumDigits s y + 1
      else if mag s y = mag s z then 1 else if mag s z < mag s y then BzNumDigits s y else BzNumDigits s z)"
    unfolding add_len_def Let_def l by auto
  note fit = assms(5) [unfolded n]
  show ?thesis
  proof (cases "Sign s y = Sign s z")
    case True
    then show ?thesis using add_magnitudes_yields [OF assms(1-4)] add_magnitudes_yields [OF assms(1,2,4,3)] fit unfolding n
      by (auto simp: BzAdd_def c Let_def add.commute split: if_splits simp del: granted.simps)
  next
    case False
    then show ?thesis using sub_magnitudes_yields [OF assms(1-4)] sub_magnitudes_yields [OF assms(1,2,4,3)] BzCreate_yields [OF assms(1,2), of 1] eq fit unfolding n
      by (auto simp: BzAdd_def c Let_def add.commute split: if_splits simp del: granted.simps)
  qed
qed

lemma BzMultiply_yields:
  assumes "malloc_ok malloc" and "bz_ok s" and "y \<in> live s" and "z \<in> live s" and "fits_bytes (BzNumDigits s y + BzNumDigits s z)"
  shows "yields (granted malloc [BzNumDigits s y + BzNumDigits s z] s) s (BzMultiply malloc y z s) (val s y * val s z)"
proof (cases "malloc s (object_bytes (BzNumDigits s y + BzNumDigits s z))")
  case None
  then show ?thesis using assms(2) by (simp add: BzMultiply_def BzCreate_eq Let_def yields_null)
next
  case (Some n)
  let ?yl = "BzNumDigits s y" and ?zl = "BzNumDigits s z"
  define m where "m = BnnSetToZero (digits s) n (?yl + ?zl)"
  obtain m' c where a: "BnnMultiply m n (?yl + ?zl) y ?yl z ?zl = (m', c)" by (metis surj_pair)
  note apy = live_apart [OF assms(1,2) Some assms(5,3)] and apz = live_apart [OF assms(1,2) Some assms(5,4)]
  have zr: "num m n (?yl + ?zl) = 0" "keeps (digits s) m n (?yl + ?zl)" using BnnSetToZero_num by (simp_all add: m_def)
  have "num m y ?yl = mag s y" "num m z ?zl = mag s z"
    using keeps_num [OF zr(2)] apy(1) apz(1) BzNumDigits_num(1) [OF assms(2,3)] BzNumDigits_num(1) [OF assms(2,4)] by auto
  then have r: "num m' n (?yl + ?zl) + Base ^ (?yl + ?zl) * unat c = mag s y * mag s z" "keeps m m' n (?yl + ?zl)"
    using BnnMultiply_adds [OF a order_refl] apy(1) apz(1) zr(1) by auto
  have "mag s y * mag s z < Base ^ ?yl * Base ^ ?zl" by (intro mult_strict_mono mag_bound assms) (simp_all add: Base_def)
  then have r1: "num m' n (?yl + ?zl) = mag s y * mag s z" using r(1) by (cases "unat c") (auto simp: power_add)
  have k: "keeps (digits s) m' n (?yl + ?zl)" using keeps_trans [OF zr(2) r(2)] by simp
  note ok = bz_okD [OF assms(2,3)] bz_okD [OF assms(2,4)]
  have e: "BzMultiply malloc y z s = Done (Some n) (with_object s n (?yl + ?zl) (Sign s y * Sign s z) m')"
    using apy(2) apz(2) a by (simp add: BzMultiply_def BzCreate_eq Some Let_def m_def)
  show ?thesis unfolding e by (rule yields_keeps [OF assms(1,2) Some assms(5)]) (use ok k r1 BzNumDigits_num(2) [OF assms(2,3)] in \<open>auto simp: val_def\<close>)
qed

text \<open>The digits that the difference needs, and the state in which they are requested.\<close>

definition sub_len :: "bz \<Rightarrow> nat \<Rightarrow> nat \<Rightarrow> nat" where
  "sub_len s y z = (if y = z then 1 else add_len s y z (Sign s y = - Sign s z))"

definition sub_state :: "bz \<Rightarrow> nat \<Rightarrow> nat \<Rightarrow> bz" where
  "sub_state s y z = (if y = z then s else BzSetSign z (BzGetOppositeSign s z) s)"

lemma BzSubtract_yields:
  assumes "malloc_ok malloc" and "bz_ok s" and "y \<in> live s" and "z \<in> live s" and "fits_bytes (sub_len s y z)"
  shows "yields (granted malloc [sub_len s y z] (sub_state s y z)) s (BzSubtract malloc y z s) (val s y - val s z)"
proof (cases "y = z")
  case True
  then show ?thesis using BzCreate_yields [OF assms(1,2,5)] by (simp add: BzSubtract_def sub_len_def sub_state_def del: granted.simps)
next
  case False
  let ?t = "BzSetSign z (BzGetOppositeSign s z) s"
  note oz = bz_okD [OF assms(2,4)]
  have t: "bz_ok ?t" "live ?t = live s" "val ?t y = val s y" "val ?t z = - val s z"
    using set_sign_ok [OF assms(2)] oz False by (auto simp: BzGetOppositeSign_def BzSetSign_def val_def)
  have l: "add_len ?t y z (Sign ?t y = Sign ?t z) = sub_len s y z" using False by (simp add: sub_len_def add_len_def BzNumDigits_def BzSetSign_def BzGetOppositeSign_def Let_def)
  have y: "yields (granted malloc [sub_len s y z] ?t) ?t (BzAdd malloc y z ?t) (val s y - val s z)" 
    using BzAdd_yields [OF assms(1) t(1), of y z] assms(3-5) t unfolding l by (simp del: granted.simps)
  have g: "sub_state s y z = ?t" using False by (simp add: sub_state_def)
  show ?thesis
  proof (cases "BzAdd malloc y z ?t")
    case Undefined
    then show ?thesis using y False unfolding g by (simp add: BzSubtract_def yields_def del: granted.simps)
  next
    case (Done x u)
    have u: "bz_ok u" "same ?t u" "case x of None \<Rightarrow> \<not> granted malloc [sub_len s y z] ?t | Some n \<Rightarrow> n \<in> live u \<and> n \<notin> live s \<and> val u n = val s y - val s z"
      using y t(2) by (auto simp: Done yields_def simp del: granted.simps split: option.splits)
    let ?v = "BzSetSign z (BzGetOppositeSign u z) u"
    have sg: "BzGetOppositeSign u z = Sign s z" "mag u z = mag s z" "z \<in> live u" using u(2) assms(4) by (auto simp: same_def BzSetSign_def BzGetOppositeSign_def)
    have "bz_ok ?v" by (rule set_sign_ok [OF u(1)]) (use oz sg in simp_all)
    moreover have "same s ?v" using u(2) sg(1) by (auto simp: same_def BzSetSign_def fun_upd_apply)
    moreover have "val ?v n = val u n" if "n \<notin> live s" for n using that assms(4) by (auto simp: val_def BzSetSign_def fun_upd_apply)
    moreover have "live ?v = live u" by (simp add: BzSetSign_def)
    ultimately show ?thesis using u(3) False unfolding g by (auto simp: BzSubtract_def Done yields_def simp del: granted.simps split: option.splits)
  qed
qed

lemma signed_abs:
  fixes i :: uint32
  shows "int (unat (if slt i 0 then - i else i)) = \<bar>sint i\<bar>"
proof (cases "sint i < 0")
  case True
  have "uint (- i) = (- uint i) mod 2 ^ 32" by (simp add: uint_word_ariths)
  moreover have "sint i = uint i - 2 ^ 32" using True uint_ge_0 [of i] unfolding sint_as_uint by (auto split: if_splits)
  moreover have "uint i < 2 ^ 32" using uint_lt2p [of i] by simp
  moreover have "uint i \<noteq> 0" using True by (auto simp: uint_0_iff)
  ultimately have "uint (- i) = - sint i" using uint_ge_0 [of i] by (simp add: zmod_zminus1_eq_if)
  then show ?thesis using True by (simp add: slt_def)
next
  case False
  then show ?thesis using uint_lt2p [of i] by (simp add: slt_def sint_as_uint split: if_splits)
qed

lemma fits_bytes_one: "fits_bytes 1"
  by (simp add: fits_bytes_def)

lemma BzFromInteger_yields:
  assumes "malloc_ok malloc" and "bz_ok s"
  shows "yields (granted malloc [1] s) s (BzFromInteger malloc i s) (sint i)"
proof (cases "malloc s (object_bytes 1)")
  case None
  then show ?thesis by (auto simp: BzFromInteger_def BzCreate_eq yields_def)
next
  case (Some z)
  let ?sg = "if slt 0 i then 1 else if slt i 0 then - 1 else 0 :: int"
  define m where "m = (BnnSetToZero (digits s) z 1)(z := if slt i 0 then - i else i)"
  have e: "BzFromInteger malloc i s = Done (Some z) (with_object s z 1 ?sg m)" by (simp add: BzFromInteger_def BzCreate_eq Some [simplified] m_def)
  have n: "int (num m z 1) = \<bar>sint i\<bar>" using signed_abs [of i] by (simp add: m_def)
  have sg: "?sg = sgn (sint i)" by (simp add: slt_def sgn_if)
  have k: "keeps (digits s) m z 1" by (simp add: keeps_def fun_upd_apply m_def)
  have z: "sint i = 0 \<longleftrightarrow> num m z 1 = 0" using n by (metis abs_eq_0 of_nat_eq_0_iff)
  show ?thesis unfolding e sg
    by (rule yields_keeps [OF assms Some _ _ _ _ k]) (use z in \<open>simp_all only: n sgn_mult_abs sgn_0_0 zero_less_one fits_bytes_one\<close>, simp add: sgn_if)
qed

lemma copy_up_num: "n + nl \<le> z \<or> z + nl \<le> n \<Longrightarrow> num (copy_up d z n nl) z nl = num d n nl \<and> keeps d (copy_up d z n nl) z nl"
  using copy_up_digits [of z n nl d] by (intro conjI num_digits) auto

lemma BnnIsZero_num: "0 < nl \<Longrightarrow> BnnIsZero m n nl \<longleftrightarrow> num m n nl = 0"
proof -
  assume nl: "0 < nl"
  note d = BnnNumDigits_num [OF nl, of m n]
  show ?thesis
  proof
    assume "BnnIsZero m n nl"
    then show "num m n nl = 0" using d(1) nl by (simp add: BnnIsZero_def BnnIsDigitZero_def)
  next
    assume z: "num m n nl = 0"
    then have "BnnNumDigits m n nl = 1" using d(4) by (simp add: Base_def)
    then show "BnnIsZero m n nl" using d(1) z by (simp add: BnnIsZero_def BnnIsDigitZero_def unat_eq_zero)
  qed
qed

text \<open>The number that is given may be anywhere but in the way of the new object.\<close>

lemma BzFromBigNum_yields:
  assumes "malloc_ok malloc" and "bz_ok s" and "0 < nl" and "\<And>z. malloc s (object_bytes nl) = Some z \<Longrightarrow> n + nl \<le> z \<or> z + nl \<le> n" and "fits_bytes nl"
  shows "yields (granted malloc [nl] s) s (BzFromBigNum malloc n nl s) (int (num (digits s) n nl))"
proof (cases "malloc s (object_bytes nl)")
  case None
  then show ?thesis by (auto simp: BzFromBigNum_def BzCreate_eq yields_def)
next
  case (Some z)
  define d where "d = BnnSetToZero (digits s) z nl"
  have kd: "keeps (digits s) d z nl" using BnnSetToZero_num by (simp add: d_def)
  have n: "num d n nl = num (digits s) n nl" using keeps_num [OF kd] assms(4) [OF Some] by simp
  note c = copy_up_num [OF assms(4) [OF Some], of d]
  have e: "BzFromBigNum malloc n nl s = Done (Some z) (with_object s z nl (if num (digits s) n nl = 0 then 0 else 1) (copy_up d z n nl))"
    using BnnIsZero_num [OF assms(3), of d n] n by (simp add: BzFromBigNum_def BzCreate_eq Some Let_def flip: d_def)
  show ?thesis unfolding e
    by (rule yields_keeps [OF assms(1,2) Some assms(5,3)]) (use c n keeps_trans [OF kd conjunct2 [OF c], of z nl] in auto)
qed

lemma many_digits:
  assumes "bz_ok s" and "z \<in> live s"
  shows "1 < BzNumDigits s z \<longleftrightarrow> Base \<le> mag s z"
proof
  assume a: "1 < BzNumDigits s z"
  then have "Base ^ 1 \<le> Base ^ (BzNumDigits s z - 1)" by (intro power_increasing) (simp_all add: Base_def)
  also have "\<dots> \<le> mag s z" using BnnNumDigits_num(4) [OF bz_okD(1) [OF assms], of "digits s" z] a by (auto simp: BzNumDigits_def)
  finally show "Base \<le> mag s z" by simp
next
  assume a: "Base \<le> mag s z"
  show "1 < BzNumDigits s z"
  proof (rule ccontr)
    assume "\<not> 1 < BzNumDigits s z"
    then have "BzNumDigits s z = 1" using BzNumDigits_num(2) [OF assms] by simp
    then show False using mag_bound [OF assms] a by simp
  qed
qed

lemma BzToInteger_val:
  assumes "bz_ok s" and "z \<in> live s"
  shows "BzToInteger z s = (if Base \<le> nat \<bar>val s z\<bar> then MAXINT else word_of_int (val s z))"
proof -
  note ok = bz_okD [OF assms] and n = BzNumDigits_num [OF assms]
  have v: "nat \<bar>val s z\<bar> = mag s z" using ok(2,3) by (auto simp: val_def abs_mult)
  have "word_of_int (val s z) = (if Sign s z = - 1 then - digits s z else digits s z)" if "BzNumDigits s z = 1"
  proof -
    have "mag s z = unat (digits s z)" using n(1) that by simp
    then show ?thesis using ok(2,3) by (auto simp: val_def unat_eq_zero)
  qed
  then show ?thesis using n(2) many_digits [OF assms] by (auto simp: BzToInteger_def v)
qed

end
