(* ===== verification/Bigz_Div.thy ===== *)
theory Bigz_Div
  imports Bigz
begin

text \<open>
  Division and factorials of the signed numbers of \<^verbatim>\<open>Bigz\<close>: the digits that \<open>BzDivide\<close> computes, the correction of the signs, and the products of \<open>BzFactorial\<close>.
\<close>

subsection \<open>Division\<close>

lemma num_zero_digit: "num d p n = 0 \<Longrightarrow> i < n \<Longrightarrow> d (p + i) = 0"
proof (induction n arbitrary: p i)
  case (Suc n)
  then have "d p = 0" "num d (Suc p) n = 0" by (simp_all add: unat_eq_zero Base_def)
  then show ?case using Suc.IH [of "Suc p" "i - 1"] Suc.prems(2) by (cases i) auto
qed simp

lemma num_high_zero: "num d (p + a) (n - a) = 0 \<Longrightarrow> a \<le> n \<Longrightarrow> num d p n = num d p a"
  using num_add [of d p a "n - a"] by simp

text \<open>The digits after the division: the quotient in \<open>q\<close>, the remainder in \<open>r\<close>.\<close>

lemma divide_digits:
  assumes zero: "num d q ql = 0" "num d r rl = 0" and ap: "apart q ql r rl" "apart y yl r rl" "apart z zl q ql" "apart z zl r rl" "apart z zl stk 1" "apart r rl stk 1" "apart q ql stk 1"
    and len: "yl < rl" "zl < rl" "rl - zl \<le> ql" and z: "0 < zl" "d (z + zl - 1) \<noteq> 0"
  shows "\<exists>m2. BnnDivide (BnnAssign d r y yl) stk r rl z zl = Some m2 \<and>
    (let m = BnnSetToZero (BnnAssign m2 q (r + zl) (rl - zl)) (r + zl) (rl - zl)
     in num m q ql = num d y yl div num d z zl \<and> num d y yl div num d z zl < Base ^ (rl - zl) \<and> num m r zl = num d y yl mod num d z zl \<and> num m (r + zl) (rl - zl) = 0 \<and>
        (\<forall>i. i \<noteq> stk \<and> (i < q \<or> q + ql \<le> i) \<and> (i < r \<or> r + rl \<le> i) \<longrightarrow> m i = d i))"
proof -
  let ?Y = "num d y yl" and ?Z = "num d z zl"
  define m1 where "m1 = BnnAssign d r y yl"
  have a1: "num m1 r rl = ?Y" "keeps d m1 r rl" unfolding m1_def by (rule assign_zero [OF zero(2)]; use ap(2) len(1) in \<open>auto simp: apart_def\<close>)+
  have "z + zl - 1 < r \<or> r + rl \<le> z + zl - 1" using ap(4) z(1) unfolding apart_def by linarith
  then have Z: "num m1 z zl = ?Z" "m1 (z + zl - 1) = d (z + zl - 1)" using keeps_num [OF a1(2), of z zl] keepsD [OF a1(2), of "z + zl - 1"] ap(4) by (simp_all add: apart_def)
  have "keeps d m1 r yl" unfolding m1_def using BnnAssign_digits by blast
  then have "m1 (r + (rl - 1)) = d (r + (rl - 1))" using len(1) by (intro keepsD [of d m1 r yl]) auto
  then have top: "m1 (r + rl - 1) = 0" using num_zero_digit [OF zero(2), of "rl - 1"] len(1) by simp
  have Z0: "0 < ?Z" using num_lower [of d z zl] z by (simp add: Base_def) (metis gr0I not_one_le_zero power_eq_0_iff zero_neq_numeral le_zero_eq)
  obtain m2 where m2: "BnnDivide m1 stk r rl z zl = Some m2" "num m2 r zl = ?Y mod ?Z" "num m2 (r + zl) (rl - zl) = ?Y div ?Z" "keeps_but stk m1 m2 r rl"
    using BnnDivide_divides [OF ap(4-6) z(1) len(2), of m1] Z Z0 a1(1) top z(2) by (auto simp: word_gt_0)
  define m3 where "m3 = BnnAssign m2 q (r + zl) (rl - zl)"
  have q2: "num m2 q ql = 0"
  proof -
    have "num m2 q ql = num d q ql" by (rule num_cong) (use m2(4) a1(2) ap(1,7) in \<open>auto simp: keeps_but_def keeps_def apart_def\<close>)
    then show ?thesis using zero(1) by simp
  qed
  have a3: "num m3 q ql = ?Y div ?Z" "keeps m2 m3 q ql"
    using assign_zero [OF q2, of "r + zl" "rl - zl"] ap(1) len m2(3) by (auto simp: m3_def apart_def)
  define m where "m = BnnSetToZero m3 (r + zl) (rl - zl)"
  have a4: "num m (r + zl) (rl - zl) = 0" "keeps m3 m (r + zl) (rl - zl)" using BnnSetToZero_num by (simp_all add: m_def)
  have "num m q ql = ?Y div ?Z" using keeps_num [OF a4(2), of q ql] a3(1) ap(1) len(2) by (auto simp: apart_def)
  moreover have "num m r zl = ?Y mod ?Z" using keeps_num [OF a4(2), of r zl] keeps_num [OF a3(2), of r zl] m2(2) ap(1) len(2) by (auto simp: apart_def)
  moreover have "?Y div ?Z < Base ^ (rl - zl)" using num_bound [of m2 "r + zl" "rl - zl"] m2(3) by simp
  moreover have "m i = d i" if "i \<noteq> stk" "i < q \<or> q + ql \<le> i" "i < r \<or> r + rl \<le> i" for i
    using that keepsD [OF a4(2), of i] keepsD [OF a3(2), of i] keepsD [OF a1(2), of i] m2(4) len(2) by (auto simp: keeps_but_def)
  ultimately show ?thesis using m2(1) a4(1) by (auto simp: Let_def m_def m3_def m1_def)
qed

text \<open>The correction for a negative dividend: the quotient grows by one and the remainder is taken from the divisor.\<close>

lemma correct_digits:
  assumes "num m r zl = R" and "0 < R" and "R < num m z zl" and "num m q ql + 1 < Base ^ ql" and ap: "apart q ql r zl" "apart z zl q ql" "apart z zl r zl"
    and m': "m' = fst (BnnAdd (BnnComplement (fst (BnnAddCarry m q ql 1)) r zl) r zl z zl 1)"
  shows "num m' q ql = num m q ql + 1" and "num m' r zl = num m z zl - R" and "(i < q \<or> q + ql \<le> i) \<Longrightarrow> (i < r \<or> r + zl \<le> i) \<Longrightarrow> m' i = m i"
proof -
  let ?Z = "num m z zl"
  obtain m1 c1 where c: "BnnAddCarry m q ql 1 = (m1, c1)" by (metis surj_pair)
  have a1: "num m1 q ql + Base ^ ql * unat c1 = num m q ql + 1" "keeps m m1 q ql" using BnnAddCarry_adds [OF c] by auto
  then have q1: "num m1 q ql = num m q ql + 1" using assms(4) by (cases "unat c1") auto
  define m2 where "m2 = BnnComplement m1 r zl"
  have a2: "num m2 r zl + num m1 r zl + 1 = Base ^ zl" "keeps m1 m2 r zl" using BnnComplement_num by (simp_all add: m2_def)
  have r1: "num m1 r zl = R" using keeps_num [OF a1(2), of r zl] ap(1) assms(1) by (auto simp: apart_def)
  obtain m3 c3 where d: "BnnAdd m2 r zl z zl 1 = (m3, c3)" by (metis surj_pair)
  have z2: "num m2 z zl = ?Z" using keeps_num [OF a2(2), of z zl] keeps_num [OF a1(2), of z zl] ap(2,3) by (auto simp: apart_def)
  have a3: "num m3 r zl + Base ^ zl * unat c3 = num m2 r zl + ?Z + 1" "unat c3 \<le> 1" "keeps m2 m3 r zl"
    using BnnAdd_adds [OF d] z2 ap(3) by (auto simp: apart_def)
  have "unat c3 = 1" using a3(1,2) a2(1) r1 assms(3) num_bound [of m3 r zl] by (cases "unat c3") auto
  then have r3: "num m3 r zl = ?Z - R" using a3(1) a2(1) r1 assms(3) by simp
  have e: "m' = m3" using m' c d by (simp add: m2_def)
  show "num m' q ql = num m q ql + 1" using keeps_num [OF a3(3), of q ql] keeps_num [OF a2(2), of q ql] q1 ap(1) by (auto simp: e apart_def)
  show "num m' r zl = ?Z - R" using r3 e by simp
  show "m' i = m i" if "i < q \<or> q + ql \<le> i" "i < r \<or> r + zl \<le> i"
    using that keepsD [OF a3(3), of i] keepsD [OF a2(2), of i] keepsD [OF a1(2), of i] by (simp add: e)
qed

text \<open>Two new objects at once.\<close>

definition with_two :: "bz \<Rightarrow> nat \<Rightarrow> nat \<Rightarrow> int \<Rightarrow> nat \<Rightarrow> nat \<Rightarrow> int \<Rightarrow> dmem \<Rightarrow> bz" where
  "with_two s q ql sq r rl sr m = with_object (with_object s q ql sq m) r rl sr m"

lemma with_two_simps:
  "with_object (with_object s q ql sq m0) r rl sr m = with_two s q ql sq r rl sr m" "digits (with_two s q ql sq r rl sr m) = m" "digits_update (\<lambda>_. m') (with_two s q ql sq r rl sr m) = with_two s q ql sq r rl sr m'"
  "BzSetSign r sr' (with_two s q ql sq r rl sr m) = with_two s q ql sq r rl sr' m" "Sign (with_two s q ql sq r rl sr m) = (Sign s)(q := sq, r := sr)"
  "Size (with_two s q ql sq r rl sr m) = (Size s)(q := ql, r := rl)" "live (with_two s q ql sq r rl sr m) = insert r (insert q (live s))" "stack (with_two s q ql sq r rl sr m) = stack s"
  by (simp_all add: with_two_def with_object_def BzSetSign_def)

lemma with_two_sign_q: "q \<noteq> r \<Longrightarrow> BzSetSign q sq' (with_two s q ql sq r rl sr m) = with_two s q ql sq' r rl sr m"
  by (simp add: with_two_def with_object_def BzSetSign_def fun_upd_twist)

lemma two_objects:
  assumes "bz_ok s" and "fresh s ql q" and "fresh (with_object s q ql 0 m0) rl r" and "0 < ql" and "0 < rl" and "sq \<in> {- 1, 0, 1}" "sq = 0 \<longleftrightarrow> num m q ql = 0" "sr \<in> {- 1, 0, 1}" "sr = 0 \<longleftrightarrow> num m r rl = 0"
    and num: "\<And>p. p \<in> live s \<Longrightarrow> num m p (Size s p) = num (digits s) p (Size s p)"
  shows "bz_ok (with_two s q ql sq r rl sr m) \<and> same s (with_two s q ql sq r rl sr m) \<and> val (with_two s q ql sq r rl sr m) q = sq * int (num m q ql) \<and> val (with_two s q ql sq r rl sr m) r = sr * int (num m r rl)"
proof -
  note a = new_object [OF assms(1,2,4,6,7) num]
  have f: "fresh (with_object s q ql sq m) rl r" using assms(3) by (simp add: fresh_def)
  have b: "bz_ok (with_two s q ql sq r rl sr m) \<and> same (with_object s q ql sq m) (with_two s q ql sq r rl sr m) \<and> val (with_two s q ql sq r rl sr m) r = sr * int (num m r rl)"
    unfolding with_two_def by (rule new_object [OF _ f assms(5,8,9)]) (use a in auto)
  have "q \<in> live (with_object s q ql sq m)" by simp
  with b have "val (with_two s q ql sq r rl sr m) q = val (with_object s q ql sq m) q" using same_val by blast
  moreover have "same s (with_two s q ql sq r rl sr m)" using a b same_trans by blast
  ultimately show ?thesis using a b by simp
qed

text \<open>The state that the correction of the signs leaves.\<close>

lemma correct_signs_eq:
  fixes Y Z :: nat and sy sz :: int
  assumes "q \<noteq> r" and "y \<notin> {q, r}" and "z \<notin> {q, r}" and "0 < zl" "zl \<le> rl" "0 < ql" and ap: "apart q ql r rl" "apart z zl q ql" "apart z zl r rl"
    and n: "num m q ql = Y div Z" "num m r zl = Y mod Z" "num m (r + zl) (rl - zl) = 0" "num m z zl = Z" "Y div Z + 1 < Base ^ ql" and Z: "0 < Z"
    and sg: "Sign s y = sy" "sy \<in> {- 1, 0, 1}" "sy = 0 \<longleftrightarrow> Y = 0" "Sign s z = sz" "sz \<in> {- 1, 1}"
  shows "\<exists>sq sr m'. correct_signs y z zl q ql r (with_two s q ql 0 r rl 0 m) = with_two s q ql sq r rl sr m' \<and> sq \<in> {- 1, 0, 1} \<and> sr \<in> {0, 1} \<and>
    (sq = 0 \<longleftrightarrow> num m' q ql = 0) \<and> (sr = 0 \<longleftrightarrow> num m' r rl = 0) \<and> (\<forall>i. (i < q \<or> q + ql \<le> i) \<and> (i < r \<or> r + rl \<le> i) \<longrightarrow> m' i = m i) \<and>
    sy * int Y = sz * int Z * (sq * int (num m' q ql)) + sr * int (num m' r rl) \<and> num m' r rl < Z"
proof -
  have hi: "num m' r rl = num m' r zl" if "num m' (r + zl) (rl - zl) = 0" for m' using num_high_zero [OF that assms(5)] .
  have R: "\<not> BnnIsZero m r zl \<longleftrightarrow> Y mod Z \<noteq> 0" using BnnIsZero_num [OF assms(4)] n(2) by simp
  have YZ: "int Y = int Z * int (Y div Z) + int (Y mod Z)" "Y mod Z < Z" using Z by (simp_all flip: of_nat_mult of_nat_add)
  have wq: "BnnIsZero m' q ql \<longleftrightarrow> num m' q ql = 0" for m' using BnnIsZero_num [OF assms(6)] .
  show ?thesis
  proof (cases "sy = - 1 \<and> Y mod Z \<noteq> 0")
    case True
    define m' where "m' = fst (BnnAdd (BnnComplement (fst (BnnAddCarry m q ql 1)) r zl) r zl z zl 1)"
    have ap': "apart q ql r zl" "apart z zl r zl" using ap assms(5) by (auto simp: apart_def)
    have c: "num m' q ql = Y div Z + 1" "num m' r zl = Z - Y mod Z" "(i < q \<or> q + ql \<le> i) \<Longrightarrow> (i < r \<or> r + zl \<le> i) \<Longrightarrow> m' i = m i" for i
      using correct_digits [OF n(2) _ _ _ ap'(1) ap(2) ap'(2) m'_def, unfolded n(1,4)] True n(5) YZ(2) by auto
    have "num m' (r + zl) (rl - zl) = num m (r + zl) (rl - zl)" by (rule num_cong) (use c(3) ap(1) assms(5) in \<open>auto simp: apart_def\<close>)
    then have r: "num m' r rl = Z - Y mod Z" using hi [of m'] n(3) c(2) by simp
    have e: "correct_signs y z zl q ql r (with_two s q ql 0 r rl 0 m) = with_two s q ql (- sz) r rl 1 m'"
      using True R wq [of m'] c(1) assms(1-3) sg(1,4) by (auto simp: correct_signs_def Let_def with_two_simps with_two_sign_q BzGetOppositeSign_def fun_upd_apply m'_def)
    have "- int Y = sz * int Z * (- sz * int (Y div Z + 1)) + int (Z - Y mod Z)" using sg(5) YZ by (auto simp: of_nat_diff algebra_simps)
    then show ?thesis using e c r True sg YZ(2) assms(5) by (intro exI [of _ "- sz"] exI [of _ "1"] exI [of _ m']) auto
  next
    case False
    let ?sq = "if Y div Z = 0 then 0 else sy * sz" and ?sr = "if Y mod Z = 0 then 0 else 1"
    have e: "correct_signs y z zl q ql r (with_two s q ql 0 r rl 0 m) = with_two s q ql ?sq r rl ?sr m"
      using False R wq [of m] n(1) assms(1-3) sg(1,4) by (auto simp: correct_signs_def Let_def with_two_simps with_two_sign_q fun_upd_apply)
    have r: "num m r rl = Y mod Z" using hi [OF n(3)] n(2) by simp
    have "sy * int Y = sz * int Z * (?sq * int (Y div Z)) + ?sr * int (Y mod Z)"
    proof (cases "Y mod Z = 0")
      case True
      then show ?thesis using sg(5) YZ(1) by auto
    next
      case m0: False
      then have "sy = 1" using False sg(2,3) by auto
      then show ?thesis using sg(5) YZ(1) m0 by auto
    qed
    moreover have "?sq \<in> {- 1, 0, 1}" "?sq = 0 \<longleftrightarrow> Y div Z = 0" using sg(2,3,5) by auto
    ultimately show ?thesis using e r n(1) YZ(2) by (intro exI [of _ ?sq] exI [of _ ?sr] exI [of _ m]) auto
  qed
qed

lemma top_digit_nonzero:
  assumes "bz_ok s" and "z \<in> live s" and "0 < mag s z"
  shows "digits s (z + BzNumDigits s z - 1) \<noteq> 0"
proof
  assume a: "digits s (z + BzNumDigits s z - 1) = 0"
  note n = BzNumDigits_num [OF assms(1,2)]
  obtain k where k: "BzNumDigits s z = Suc k" using n(2) by (cases "BzNumDigits s z") auto
  have "mag s z = num (digits s) z k" using n(1) a num_Suc_top [of "digits s" z k] by (simp add: k)
  then have "mag s z < Base ^ k" using num_bound [of "digits s" z k] by simp
  moreover have "k = 0 \<or> Base ^ k \<le> mag s z" using BnnNumDigits_num(4) [OF bz_okD(1) [OF assms(1,2)], of "digits s" z] k by (auto simp: BzNumDigits_def)
  ultimately show False using assms(3) by auto
qed

text \<open>What \<open>BzDivide\<close> promises, from its comment.\<close>

definition divides :: "bool \<Rightarrow> bz \<Rightarrow> nat \<Rightarrow> nat \<Rightarrow> (nat option \<times> nat option option) bz_result \<Rightarrow> bool" where
  "divides ok s y z res \<longleftrightarrow>
     (case res of
        Undefined \<Rightarrow> False
      | Done (x, rp) s' \<Rightarrow> bz_ok s' \<and> same s s' \<and>
          (case (x, rp) of
             (Some q, Some (Some r)) \<Rightarrow> q \<noteq> r \<and> {q, r} \<subseteq> live s' - live s \<and> val s y = val s z * val s' q + val s' r \<and> 0 \<le> val s' r \<and> val s' r < \<bar>val s z\<bar>
           | (None, Some r) \<Rightarrow> \<not> ok \<and> (case r of None \<Rightarrow> True | Some r \<Rightarrow> r \<in> live s' - live s)
           | _ \<Rightarrow> False))"

definition quot_len :: "bz \<Rightarrow> nat \<Rightarrow> nat \<Rightarrow> nat" where "quot_len s y z = max (BzNumDigits s y + 1 - BzNumDigits s z) 1 + 1"

definition rem_len :: "bz \<Rightarrow> nat \<Rightarrow> nat \<Rightarrow> nat" where "rem_len s y z = max (BzNumDigits s z) (BzNumDigits s y) + 1"

lemmas BzDivide_len = BzDivide_def [of _ y z s for y z s, unfolded Let_def, folded quot_len_def rem_len_def]

lemma division_lengths:
  "0 < quot_len s y z" "0 < rem_len s y z" "BzNumDigits s y < rem_len s y z" "BzNumDigits s z < rem_len s y z" "rem_len s y z - BzNumDigits s z \<le> quot_len s y z" "rem_len s y z - BzNumDigits s z < quot_len s y z"
  by (auto simp: quot_len_def rem_len_def)

lemma zero_object:
  assumes "malloc_ok malloc" and "bz_ok s" and "malloc s (object_bytes n) = Some z" and "fits_bytes n" and "0 < n"
  shows "bz_ok (with_object s z n 0 (BnnSetToZero (digits s) z n)) \<and> same s (with_object s z n 0 (BnnSetToZero (digits s) z n)) \<and> z \<notin> live s"
  using yields_keeps [OF assms, of 0 "BnnSetToZero (digits s) z n" 0 True] BnnSetToZero_num [of "digits s" z n] by (simp add: yields_def)

lemma fresh_old:
  assumes "fresh (with_object s q n sg m) k r" and "q \<notin> live s" and "p \<in> live s"
  shows "p + Size s p \<le> r \<or> r + k \<le> p"
proof -
  have "p \<noteq> q" "p \<in> live (with_object s q n sg m)" using assms(2,3) by auto
  then show ?thesis using assms(1) unfolding fresh_def by fastforce
qed

lemma BzDivide_objects:
  assumes "malloc_ok malloc" and "bz_ok s" and "y \<in> live s" and "z \<in> live s" and "val s z \<noteq> 0"
    and "ql = quot_len s y z" and "rl = rem_len s y z" and fit: "fits_bytes ql" "fits_bytes rl" and Some: "malloc s (object_bytes ql) = Some q"
    and s1: "s1 = with_object s q ql 0 (BnnSetToZero (digits s) q ql)" and r: "malloc s1 (object_bytes rl) = Some r"
  shows "divides ok s y z (BzDivide malloc y z s)"
proof -
  let ?yl = "BzNumDigits s y" and ?zl = "BzNumDigits s z"
  note oy = bz_okD [OF assms(2,3)] and oz = bz_okD [OF assms(2,4)] and ny = BzNumDigits_num [OF assms(2,3)] and nz = BzNumDigits_num [OF assms(2,4)]
  have sz: "Sign s z \<noteq> 0" "0 < mag s z" using assms(5) oz(3) by (auto simp: val_def)
  have l: "0 < ql" "0 < rl" "?yl < rl" "?zl < rl" "rl - ?zl \<le> ql" "rl - ?zl < ql" unfolding assms(6,7) by (rule division_lengths)+
  have ok1: "bz_ok s1" "q \<notin> live s" using zero_object [OF assms(1,2) Some fit(1) l(1)] by (simp_all add: s1)
  note fq = malloc_fresh [OF assms(1,2) Some fit(1)] and fr = malloc_fresh [OF assms(1) ok1(1) r fit(2)]
  note apy = live_apart [OF assms(1,2) Some fit(1) assms(3)] and apz = live_apart [OF assms(1,2) Some fit(1) assms(4)]
  define d where "d = BnnSetToZero (BnnSetToZero (digits s) q ql) r rl"
  have fr': "r \<notin> live s" "r \<noteq> q" "q + ql \<le> r \<or> r + rl \<le> q" "stack s < r \<or> r + rl \<le> stack s" "p \<in> live s \<Longrightarrow> p + Size s p \<le> r \<or> r + rl \<le> p" for p
    using fr ok1(2) fresh_old [OF fr [unfolded s1]] unfolding s1 by (auto simp: fresh_def)
  have fq': "p \<in> live s \<Longrightarrow> p + Size s p \<le> q \<or> q + ql \<le> p" "stack s < q \<or> q + ql \<le> stack s" for p using fq unfolding fresh_def by auto
  have kq: "keeps (digits s) (BnnSetToZero (digits s) q ql) q ql" "num (BnnSetToZero (digits s) q ql) q ql = 0" using BnnSetToZero_num by auto
  have kr: "keeps (BnnSetToZero (digits s) q ql) d r rl" "num d r rl = 0" using BnnSetToZero_num by (auto simp: d_def)
  have zero: "num d q ql = 0" "num d r rl = 0" using keeps_num [OF kr(1), of q ql] kq kr(2) fr'(3) by auto
  have live: "d i = digits s i" if "p \<in> live s" "p \<le> i" "i < p + Size s p" for p i
    using that fr'(5) [OF that(1)] fq'(1) [OF that(1)] keepsD [OF kr(1), of i] keepsD [OF kq(1), of i] by auto
  have D: "num d y ?yl = mag s y" "num d z ?zl = mag s z" "d (z + ?zl - 1) \<noteq> 0"
  proof -
    have "num d y ?yl = num (digits s) y ?yl" by (rule num_cong) (use live [OF assms(3)] ny(3) in auto)
    then show "num d y ?yl = mag s y" using ny(1) by simp
    have "num d z ?zl = num (digits s) z ?zl" by (rule num_cong) (use live [OF assms(4)] nz(3) in auto)
    then show "num d z ?zl = mag s z" using nz(1) by simp
    show "d (z + ?zl - 1) \<noteq> 0" using live [OF assms(4), of "z + ?zl - 1"] nz(2,3) top_digit_nonzero [OF assms(2,4) sz(2)] by simp
  qed
  have ap: "apart q ql r rl" "apart y ?yl r rl" "apart z ?zl q ql" "apart z ?zl r rl" "apart z ?zl (stack s) 1" "apart r rl (stack s) 1" "apart q ql (stack s) 1"
    using fr'(3,4) fr'(5) [OF assms(3)] fr'(5) [OF assms(4)] fq'(2) fq'(1) [OF assms(4)] ny(3) nz(3) oz(4) by (auto simp: apart_def)
  obtain m2 where m2: "BnnDivide (BnnAssign d r y ?yl) (stack s) r rl z ?zl = Some m2"
    and m2': "let m = BnnSetToZero (BnnAssign m2 q (r + ?zl) (rl - ?zl)) (r + ?zl) (rl - ?zl)
      in num m q ql = mag s y div mag s z \<and> mag s y div mag s z < Base ^ (rl - ?zl) \<and> num m r ?zl = mag s y mod mag s z \<and> num m (r + ?zl) (rl - ?zl) = 0 \<and>
        (\<forall>i. i \<noteq> stack s \<and> (i < q \<or> q + ql \<le> i) \<and> (i < r \<or> r + rl \<le> i) \<longrightarrow> m i = d i)"
    using divide_digits [OF zero ap l(3-5) _ D(3)] nz(2) unfolding D(1,2) by auto
  define m where "m = BnnSetToZero (BnnAssign m2 q (r + ?zl) (rl - ?zl)) (r + ?zl) (rl - ?zl)"
  have m: "num m q ql = mag s y div mag s z" "mag s y div mag s z < Base ^ (rl - ?zl)" "num m r ?zl = mag s y mod mag s z" "num m (r + ?zl) (rl - ?zl) = 0"
      "\<And>i. i \<noteq> stack s \<Longrightarrow> i < q \<or> q + ql \<le> i \<Longrightarrow> i < r \<or> r + rl \<le> i \<Longrightarrow> m i = d i"
    using m2' unfolding Let_def m_def [symmetric] by blast+
  have mz: "num m p k = num d p k" if "apart p k q ql" "apart p k r rl" "apart p k (stack s) 1" for p k
    by (rule num_cong) (use m(5) that in \<open>auto simp: apart_def\<close>)
  have e: "BzDivide malloc y z s = Done (Some q, Some (Some r)) (correct_signs y z ?zl q ql r (with_two s q ql 0 r rl 0 m))"
    using sz(1) Some r m2 by (simp add: BzDivide_len BzCreate_eq s1 with_two_simps d_def m_def flip: assms(6,7))
  have b: "mag s y div mag s z + 1 < Base ^ ql"
  proof -
    have "Base ^ (rl - ?zl) * 2 \<le> Base ^ (rl - ?zl) * Base" by (simp add: Base_def)
    also have "\<dots> \<le> Base ^ ql" using l(6) power_increasing [of "Suc (rl - ?zl)" ql Base] by (simp add: Base_def)
    finally show ?thesis using m(2) by simp
  qed
  have yz: "y \<notin> {q, r}" "z \<notin> {q, r}" "q \<noteq> r" using assms(3,4) ok1(2) fr'(1,2) by auto
  have Zm: "num m z ?zl = mag s z" using mz [OF ap(3,4,5)] D(2) by simp
  have zl: "0 < ?zl" "?zl \<le> rl" and sgz: "Sign s z \<in> {- 1, 1}" using nz(2) l(4) oz(2) sz(1) by auto
  obtain sq sr m' where c: "correct_signs y z ?zl q ql r (with_two s q ql 0 r rl 0 m) = with_two s q ql sq r rl sr m'" "sq \<in> {- 1, 0, 1}" "sr \<in> {0, 1}"
      "sq = 0 \<longleftrightarrow> num m' q ql = 0" "sr = 0 \<longleftrightarrow> num m' r rl = 0" "\<forall>i. (i < q \<or> q + ql \<le> i) \<and> (i < r \<or> r + rl \<le> i) \<longrightarrow> m' i = m i"
      "Sign s y * int (mag s y) = Sign s z * int (mag s z) * (sq * int (num m' q ql)) + sr * int (num m' r rl)" "num m' r rl < mag s z"
    using correct_signs_eq [OF yz(3,1,2) zl l(1) ap(1,3,4) m(1,3,4) Zm b sz(2) refl oy(2,3) refl sgz] by (elim exE conjE) (rule that; assumption)
  have old: "num m' p (Size s p) = num (digits s) p (Size s p)" if "p \<in> live s" for p
  proof (rule num_cong)
    fix i assume "p \<le> i" "i < p + Size s p"
    then show "m' i = digits s i" using c(6) m(5) [of i] live [OF that, of i] fr'(5) [OF that] fq'(1) [OF that] bz_okD(4) [OF assms(2) that] by auto
  qed
  have t: "bz_ok (with_two s q ql sq r rl sr m') \<and> same s (with_two s q ql sq r rl sr m') \<and> val (with_two s q ql sq r rl sr m') q = sq * int (num m' q ql) \<and>
      val (with_two s q ql sq r rl sr m') r = sr * int (num m' r rl)"
    by (rule two_objects [OF assms(2) fq fr [unfolded s1] l(1,2) c(2,4) _ c(5) old]) (use c(3) in auto)
  have az: "\<bar>val s z\<bar> = int (mag s z)" using oz(2) sz(1) by (auto simp: val_def abs_mult)
  show ?thesis unfolding e c(1) using t c(3,7,8) yz(3) ok1(2) fr'(1) az by (auto simp: divides_def with_two_simps val_def)
qed

lemma BzDivide_divides:
  assumes "malloc_ok malloc" and "bz_ok s" and "y \<in> live s" and "z \<in> live s" and "val s z \<noteq> 0" and fit: "fits_bytes (quot_len s y z)" "fits_bytes (rem_len s y z)"
  shows "divides (granted malloc [quot_len s y z, rem_len s y z] s) s y z (BzDivide malloc y z s)"
proof -
  have sz: "Sign s z \<noteq> 0" using assms(5) by (auto simp: val_def)
  note l = division_lengths(1,2) [of s y z]
  show ?thesis
  proof (cases "malloc s (object_bytes (quot_len s y z))")
    case None
    show ?thesis
    proof (cases "malloc s (object_bytes (rem_len s y z))")
      case None
      then show ?thesis using \<open>malloc s (object_bytes (quot_len s y z)) = None\<close> sz assms(2) by (simp add: BzDivide_len BzCreate_eq divides_def)
    next
      case (Some r)
      then show ?thesis using None sz zero_object [OF assms(1,2) Some fit(2) l(2)] by (simp add: BzDivide_len BzCreate_eq divides_def)
    qed
  next
    case (Some q)
    show ?thesis
    proof (cases "malloc (with_object s q (quot_len s y z) 0 (BnnSetToZero (digits s) q (quot_len s y z))) (object_bytes (rem_len s y z))")
      case None
      then show ?thesis using Some sz zero_object [OF assms(1,2) Some fit(1) l(1)] by (simp add: BzDivide_len BzCreate_eq divides_def)
    next
      case r: (Some r)
      show ?thesis by (rule BzDivide_objects [OF assms(1-5) refl refl fit Some refl r])
    qed
  qed
qed

lemma free_ok: "bz_ok s \<Longrightarrow> bz_ok (BzFree x s)"
  unfolding BzFree_def bz_ok_def by (auto split: option.splits)

lemma free_same: "same s s' \<Longrightarrow> (case x of None \<Rightarrow> True | Some r \<Rightarrow> r \<notin> live s) \<Longrightarrow> same s (BzFree x s')"
  unfolding same_def BzFree_def by (auto split: option.splits)

lemma free_val [simp]: "val (BzFree x s) z = val s z"
  by (simp add: BzFree_def val_def split: option.split)

lemma free_live: "z \<in> live (BzFree x s) \<longleftrightarrow> z \<in> live s \<and> x \<noteq> Some z"
  by (auto simp: BzFree_def split: option.splits)

lemma euclidean:
  fixes y z q r :: int
  assumes "y = z * q + r" and "0 \<le> r" and "r < \<bar>z\<bar>"
  shows "q = sgn z * (y div \<bar>z\<bar>)" and "r = y mod \<bar>z\<bar>"
proof -
  have z: "z = sgn z * \<bar>z\<bar>" "sgn z * sgn z = 1" using assms(2,3) by (auto simp: sgn_if)
  have y: "y = \<bar>z\<bar> * (sgn z * q) + r" using assms(1) z(1) by (metis mult.assoc mult.commute)
  then show "r = y mod \<bar>z\<bar>" using assms(2,3) by simp
  have "y div \<bar>z\<bar> = sgn z * q" using y assms(2,3) by simp
  then have "sgn z * (y div \<bar>z\<bar>) = sgn z * sgn z * q" by simp
  then show "q = sgn z * (y div \<bar>z\<bar>)" using z(2) by simp
qed

lemma divides_cases:
  assumes "divides ok s y z res"
  obtains (null) r s' where "res = Done (None, Some r) s'" "bz_ok s'" "same s s'" "\<not> ok" "case r of None \<Rightarrow> True | Some r \<Rightarrow> r \<notin> live s" "case r of None \<Rightarrow> True | Some r \<Rightarrow> r \<in> live s'"
  | (quotient) q r s' where "res = Done (Some q, Some (Some r)) s'" "bz_ok s'" "same s s'" "q \<noteq> r" "q \<in> live s'" "q \<notin> live s" "r \<in> live s'" "r \<notin> live s"
      "val s y = val s z * val s' q + val s' r" "0 \<le> val s' r" "val s' r < \<bar>val s z\<bar>"
proof (cases res)
  case Undefined
  then show thesis using assms by (simp add: divides_def)
next
  case (Done p s')
  obtain x rp where p: "p = (x, rp)" by force
  show thesis
  proof (cases x)
    case None
    then show thesis using assms Done p null by (cases rp) (auto simp: divides_def split: option.splits)
  next
    case (Some q)
    show thesis
    proof (cases rp)
      case None
      then show thesis using assms Done p Some by (simp add: divides_def)
    next
      case r: (Some r)
      then show thesis using assms Done p Some quotient by (cases r) (auto simp: divides_def)
    qed
  qed
qed

lemma BzDiv_yields:
  assumes "malloc_ok malloc" and "bz_ok s" and "y \<in> live s" and "z \<in> live s" and "val s z \<noteq> 0" and "fits_bytes (quot_len s y z)" and "fits_bytes (rem_len s y z)"
  shows "yields (granted malloc [quot_len s y z, rem_len s y z] s) s (BzDiv malloc y z s) (sgn (val s z) * (val s y div \<bar>val s z\<bar>))"
  using BzDivide_divides [OF assms]
proof (cases rule: divides_cases)
  case (null r s')
  then show ?thesis using free_ok free_same [OF null(3,5)] by (simp add: BzDiv_def yields_def del: granted.simps)
next
  case (quotient q r s')
  then show ?thesis using euclidean(1) [OF quotient(9-11)] free_ok [OF quotient(2)] free_same [OF quotient(3), of "Some r"] by (simp add: BzDiv_def yields_def free_live del: granted.simps)
qed

text \<open>When the quotient cannot be allocated, \<open>BzMod\<close> still returns the object for the remainder, which is zero.\<close>

lemma BzMod_yields:
  assumes "malloc_ok malloc" and "bz_ok s" and "y \<in> live s" and "z \<in> live s" and "val s z \<noteq> 0" and "fits_bytes (quot_len s y z)" and "fits_bytes (rem_len s y z)"
    and "granted malloc [quot_len s y z, rem_len s y z] s"
  shows "yields ok s (BzMod malloc y z s) (val s y mod \<bar>val s z\<bar>)"
  using BzDivide_divides [OF assms(1-7)]
proof (cases rule: divides_cases)
  case (null r s')
  then show ?thesis using assms(8) by blast
next
  case (quotient q r s')
  then show ?thesis using euclidean(2) [OF quotient(9-11)] free_ok [OF quotient(2)] free_same [OF quotient(3), of "Some q"] by (simp add: BzMod_def yields_def free_live)
qed

subsection \<open>Factorials\<close>

lemma factorial_loop_num:
  assumes "1 \<le> fl" and "fl + unat k \<le> n" and "num m f fl = num m f n"
  shows "num (factorial_loop f fl k m) f n = num m f n * fact (unat k) \<and> keeps m (factorial_loop f fl k m) f n"
  using assms
proof (induction "unat k" arbitrary: fl k m rule: less_induct)
  case less
  show ?case
  proof (cases "1 < k")
    case False
    then have "unat k \<le> 1" by (simp add: word_less_nat_alt not_less)
    then have "fact (unat k) = (1 :: nat)" by (cases "unat k") auto
    then show ?thesis using False by (subst (1 2) factorial_loop.simps) simp
  next
    case True
    obtain m1 c where c: "BnnMultiplyDigit m f (fl + 1) f fl (k - 1) = (m1, c)" by (metis surj_pair)
    define fl' where "fl' = BnnNumDigits m1 f (fl + 1)"
    have e: "factorial_loop f fl k m = factorial_loop f fl' (k - 1) m1" using True c by (subst factorial_loop.simps) (simp add: Let_def fl'_def)
    have "2 \<le> unat k" using True by (simp add: word_less_nat_alt)
    moreover from this have "k \<noteq> 0" by auto
    ultimately have k: "2 \<le> unat k" "unat (k - 1) = unat k - 1" by (simp_all add: unat_minus_one)
    have top: "num m f (fl + 1) = num m f n"
    proof -
      have "num m f n = num m f fl + Base ^ fl * num m (f + fl) (n - fl)" using num_add [of m f fl "n - fl"] less.prems(2) by simp
      then have "num m (f + fl) (n - fl) = 0" using less.prems(3) by (simp add: Base_def)
      then have "m (f + fl) = 0" using num_zero_digit [of m "f + fl" "n - fl" 0] less.prems(2) k(1) by simp
      then show ?thesis using less.prems(3) num_Suc_top [of m f fl] by (simp del: num.simps)
    qed
    have a: "num m1 f (fl + 1) + Base ^ (fl + 1) * unat c = num m f n + num m f n * unat (k - 1)" "keeps m m1 f (fl + 1)"
      using BnnMultiplyDigit_adds [OF c] top less.prems(3) by auto
    have P: "num m f n < Base ^ fl" using num_bound [of m f fl] less.prems(3) by simp
    have "num m f n + num m f n * unat (k - 1) = num m f n * unat k" using k by (metis Suc_diff_1 add.commute mult_Suc_right not_gr_zero not_numeral_le_zero add_0)
    moreover have "num m f n * unat k < Base ^ fl * Base" by (intro mult_strict_mono P digit_bound) (simp_all add: Base_def)
    ultimately have m1: "num m1 f (fl + 1) = num m f n * unat k" using a(1) by (cases "unat c") (auto simp: mult.commute [of Base] simp del: num.simps)
    have hi: "num m1 f n = num m1 f (fl + 1)"
    proof -
      have "num m1 (f + (fl + 1)) (n - (fl + 1)) = num m (f + (fl + 1)) (n - (fl + 1))" by (rule keeps_num [OF a(2)]) simp
      moreover have "num m f n = num m f (fl + 1) + Base ^ (fl + 1) * num m (f + (fl + 1)) (n - (fl + 1))" using num_add [of m f "fl + 1" "n - (fl + 1)"] less.prems(2) k(1) by simp
      ultimately have "num m1 (f + (fl + 1)) (n - (fl + 1)) = 0" using top by (simp add: Base_def)
      then show ?thesis by (rule num_high_zero) (use less.prems(2) k(1) in simp)
    qed
    note d = BnnNumDigits_num [of "fl + 1" m1 f, folded fl'_def, simplified]
    have "num (factorial_loop f fl' (k - 1) m1) f n = num m1 f n * fact (unat (k - 1)) \<and> keeps m1 (factorial_loop f fl' (k - 1) m1) f n"
      by (rule less.hyps) (use d hi k less.prems(2) in auto)
    moreover have "unat k * fact (unat k - 1) = (fact (unat k) :: nat)" using k(1) by (simp add: fact_reduce)
    ultimately show ?thesis unfolding e hi m1 k(2) using keeps_trans [OF a(2), of _ f n f n] less.prems(2) k(1) by (simp add: mult.assoc)
  qed
qed

lemma BzFactorial_yields:
  assumes "malloc_ok malloc" and "bz_ok s" and "z \<in> live s" and "0 < val s z" and "val s z < int Base - 1" and "fits_bytes (nat (val s z) + 1)"
  shows "yields (granted malloc [nat (val s z) + 1] s) s (BzFactorial malloc z s) (fact (nat (val s z)))"
proof -
  note oz = bz_okD [OF assms(2,3)]
  have sg: "Sign s z = 1" "val s z = int (mag s z)" using oz(2,3) assms(4) by (auto simp: val_def)
  have "mag s z < Base" using sg(2) assms(5) by simp
  then have one: "BzNumDigits s z = 1" using many_digits [OF assms(2,3)] BzNumDigits_num(2) [OF assms(2,3)] by simp
  define k where "k = digits s z"
  have k: "mag s z = unat k" using BzNumDigits_num(1) [OF assms(2,3)] one by (simp add: k_def)
  have k1: "unat (k + 1) = unat k + 1"
  proof -
    have "unat k + 1 < Base" using assms(5) unfolding sg(2) k by linarith
    then show ?thesis by (simp add: unat_word_ariths Base_def)
  qed
  have nf: "nat (val s z) = unat k" using sg(2) k by simp
  show ?thesis
  proof (cases "malloc s (object_bytes (unat k + 1))")
    case None
    then show ?thesis using k1 nf by (auto simp: BzFactorial_def BnnGetDigit_def BzCreate_eq yields_def k_def [symmetric])
  next
    case (Some f)
    define n where "n = unat k + 1"
    note Some = Some [folded n_def] and fit = assms(6) [unfolded nf, folded n_def]
    define m where "m = (BnnSetToZero (digits s) f n)(f := 1)"
    have zero: "num (BnnSetToZero (digits s) f n) f n = 0" "keeps (digits s) (BnnSetToZero (digits s) f n) f n" using BnnSetToZero_num by auto
    have n0: "0 < n" by (simp add: n_def)
    have km: "keeps (digits s) m f n" using zero(2) n0 by (auto simp: keeps_def m_def fun_upd_apply)
    have "num m f n = 1" "num m f 1 = 1"
    proof -
      obtain j where j: "n = Suc j" by (simp add: n_def)
      have "num (BnnSetToZero (digits s) f n) (Suc f) j = 0" using zero(1) by (simp add: j Base_def)
      then show "num m f n = 1" by (simp add: j m_def)
      show "num m f 1 = 1" by (simp add: m_def)
    qed
    then have r: "num (factorial_loop f 1 k m) f n = fact (unat k)" "keeps m (factorial_loop f 1 k m) f n"
      using factorial_loop_num [of 1 k n m f] by (simp_all add: n_def)
    have ne: "z \<noteq> f" using live_apart(2) [OF assms(1,2) Some fit assms(3)] .
    have kn: "unat (k + 1) = n" using k1 by (simp add: n_def)
    have e: "BzFactorial malloc z s = Done (Some f) (with_object s f n (Sign s z) (factorial_loop f 1 k m))"
      using Some ne kn by (simp add: BzFactorial_def BnnGetDigit_def BnnSetDigit_def BzCreate_eq Let_def k_def [symmetric] m_def)
    show ?thesis unfolding e nf
      by (rule yields_keeps [OF assms(1,2) Some fit n0]) (use r sg(1) keeps_trans [OF km r(2), of f n] in auto)
  qed
qed

end
