(* ===== verification/Bigz_Client.thy ===== *)
theory Bigz_Client
  imports Bigz_Div
begin

text \<open>
  The interface of the signed numbers: the locale \<open>bz_operation\<close> is the contract that the operations of \<^verbatim>\<open>bz.c\<close> and \<^verbatim>\<open>bzf.c\<close> share, and programs of calls of these operations refine
  the same calls on integers.
\<close>

section \<open>Programs of operations\<close>

text \<open>
  The contract that the operations share, as an interface for clients: from arguments in a list to a new object whose value is that of a function on integers, if the objects that the call requests fit and are granted.
  What a client does with a list of objects that grows by the results is proved from the contract alone.
\<close>

locale bz_operation =
  fixes opr :: "malloc \<Rightarrow> nat list \<Rightarrow> bz \<Rightarrow> nat option bz_result"
    and spec :: "int list \<Rightarrow> int"
    and legal :: "int list \<Rightarrow> bool"
    and need :: "nat list \<Rightarrow> bz \<Rightarrow> nat list"
    and before :: "nat list \<Rightarrow> bz \<Rightarrow> bz"
  assumes yields: "malloc_ok malloc \<Longrightarrow> bz_ok s \<Longrightarrow> set zs \<subseteq> live s \<Longrightarrow> legal (map (val s) zs) \<Longrightarrow> list_all fits_bytes (need zs s) \<Longrightarrow> granted malloc (need zs s) (before zs s) \<Longrightarrow>
    yields True s (opr malloc zs s) (spec (map (val s) zs))"
begin

lemma result:
  assumes "malloc_ok malloc" and "bz_ok s" and "set regs \<subseteq> live s" and "set zs \<subseteq> set regs" and "legal (map (val s) zs)" and "list_all fits_bytes (need zs s)" and "granted malloc (need zs s) (before zs s)"
  shows "\<exists>z s'. opr malloc zs s = Done (Some z) s' \<and> bz_ok s' \<and> set (regs @ [z]) \<subseteq> live s' \<and> map (val s') (regs @ [z]) = map (val s) regs @ [spec (map (val s) zs)]"
proof -
  have y: "yields True s (opr malloc zs s) (spec (map (val s) zs))" using assms by (intro yields) auto
  obtain x s' where e: "opr malloc zs s = Done x s'" using y by (cases "opr malloc zs s") (auto simp: yields_def)
  then obtain z where z: "x = Some z" using y by (cases x) (auto simp: yields_def)
  have r: "bz_ok s'" "same s s'" "z \<in> live s'" "val s' z = spec (map (val s) zs)" using y by (auto simp: e z yields_def)
  then show ?thesis using e z assms(3) same_val [OF r(2)] by (auto simp: same_def subset_iff)
qed

end

definition two :: "(int \<Rightarrow> int \<Rightarrow> bool) \<Rightarrow> int list \<Rightarrow> bool" where "two P vs \<longleftrightarrow> length vs = 2 \<and> P (vs ! 0) (vs ! 1)"
definition one :: "(int \<Rightarrow> bool) \<Rightarrow> int list \<Rightarrow> bool" where "one P vs \<longleftrightarrow> length vs = 1 \<and> P (vs ! 0)"

lemma two_args: "two P (map f zs) \<Longrightarrow> \<exists>y z. zs = [y, z] \<and> P (f y) (f z)"
  by (auto simp: two_def length_Suc_conv numeral_2_eq_2)

lemma one_arg: "one P (map f zs) \<Longrightarrow> \<exists>z. zs = [z] \<and> P (f z)"
  by (auto simp: one_def length_Suc_conv)

lemma yields_granted: "yields ok s res v \<Longrightarrow> ok \<Longrightarrow> yields True s res v"
  by (simp add: yields_def)

interpretation copy: bz_operation "\<lambda>malloc zs. BzCopy malloc (zs ! 0)" "\<lambda>vs. vs ! 0" "one (\<lambda>_. True)" "\<lambda>zs s. [BzNumDigits s (zs ! 0)]" "\<lambda>_ s. s"
  by unfold_locales (auto dest!: one_arg intro!: yields_granted [OF BzCopy_yields])

interpretation negate: bz_operation "\<lambda>malloc zs. BzNegate malloc (zs ! 0)" "\<lambda>vs. - vs ! 0" "one (\<lambda>_. True)" "\<lambda>zs s. [BzNumDigits s (zs ! 0)]" "\<lambda>_ s. s"
  by unfold_locales (auto dest!: one_arg intro!: yields_granted [OF BzNegate_yields])

interpretation abs: bz_operation "\<lambda>malloc zs. BzAbs malloc (zs ! 0)" "\<lambda>vs. \<bar>vs ! 0\<bar>" "one (\<lambda>_. True)" "\<lambda>zs s. [BzNumDigits s (zs ! 0)]" "\<lambda>_ s. s"
  by unfold_locales (auto dest!: one_arg intro!: yields_granted [OF BzAbs_yields])

interpretation factorial: bz_operation "\<lambda>malloc zs. BzFactorial malloc (zs ! 0)" "\<lambda>vs. fact (nat (vs ! 0))" "one (\<lambda>v. 0 < v \<and> v < int Base - 1)" "\<lambda>zs s. [nat (val s (zs ! 0)) + 1]" "\<lambda>_ s. s"
  by unfold_locales (auto dest!: one_arg intro!: yields_granted [OF BzFactorial_yields])

interpretation add: bz_operation "\<lambda>malloc zs. BzAdd malloc (zs ! 0) (zs ! 1)" "\<lambda>vs. vs ! 0 + vs ! 1" "two (\<lambda>_ _. True)"
    "\<lambda>zs s. [add_len s (zs ! 0) (zs ! 1) (Sign s (zs ! 0) = Sign s (zs ! 1))]" "\<lambda>_ s. s"
  by unfold_locales (auto dest!: two_args intro!: yields_granted [OF BzAdd_yields])

interpretation subtract: bz_operation "\<lambda>malloc zs. BzSubtract malloc (zs ! 0) (zs ! 1)" "\<lambda>vs. vs ! 0 - vs ! 1" "two (\<lambda>_ _. True)"
    "\<lambda>zs s. [sub_len s (zs ! 0) (zs ! 1)]" "\<lambda>zs s. sub_state s (zs ! 0) (zs ! 1)"
  by unfold_locales (auto dest!: two_args intro!: yields_granted [OF BzSubtract_yields])

interpretation multiply: bz_operation "\<lambda>malloc zs. BzMultiply malloc (zs ! 0) (zs ! 1)" "\<lambda>vs. vs ! 0 * vs ! 1" "two (\<lambda>_ _. True)"
    "\<lambda>zs s. [BzNumDigits s (zs ! 0) + BzNumDigits s (zs ! 1)]" "\<lambda>_ s. s"
  by unfold_locales (auto dest!: two_args intro!: yields_granted [OF BzMultiply_yields])

interpretation quotient: bz_operation "\<lambda>malloc zs. BzDiv malloc (zs ! 0) (zs ! 1)" "\<lambda>vs. sgn (vs ! 1) * (vs ! 0 div \<bar>vs ! 1\<bar>)" "two (\<lambda>_ v. v \<noteq> 0)"
    "\<lambda>zs s. [quot_len s (zs ! 0) (zs ! 1), rem_len s (zs ! 0) (zs ! 1)]" "\<lambda>_ s. s"
  by unfold_locales (auto dest!: two_args intro!: yields_granted [OF BzDiv_yields] simp del: granted.simps)

interpretation remainder: bz_operation "\<lambda>malloc zs. BzMod malloc (zs ! 0) (zs ! 1)" "\<lambda>vs. vs ! 0 mod \<bar>vs ! 1\<bar>" "two (\<lambda>_ v. v \<noteq> 0)"
    "\<lambda>zs s. [quot_len s (zs ! 0) (zs ! 1), rem_len s (zs ! 0) (zs ! 1)]" "\<lambda>_ s. s"
  by unfold_locales (auto dest!: two_args intro!: BzMod_yields simp del: granted.simps)

text \<open>A client that calls the operations on objects in registers; every result gets a new register.\<close>

datatype bz_call = Copy nat | Negate nat | Absolute nat | Factorial nat | Add nat nat | Subtract nat nat | Multiply nat nat | Div nat nat | Mod nat nat | FromInteger uint32

primrec operands :: "bz_call \<Rightarrow> nat list" where
  "operands (Copy i) = [i]" | "operands (Negate i) = [i]" | "operands (Absolute i) = [i]" | "operands (Factorial i) = [i]" | "operands (Add i j) = [i, j]" | "operands (Subtract i j) = [i, j]"
| "operands (Multiply i j) = [i, j]" | "operands (Div i j) = [i, j]" | "operands (Mod i j) = [i, j]" | "operands (FromInteger n) = []"

primrec run_call :: "malloc \<Rightarrow> bz_call \<Rightarrow> nat list \<Rightarrow> bz \<Rightarrow> nat option bz_result" where
  "run_call malloc (Copy i) r s = BzCopy malloc (r ! i) s"
| "run_call malloc (Negate i) r s = BzNegate malloc (r ! i) s"
| "run_call malloc (Absolute i) r s = BzAbs malloc (r ! i) s"
| "run_call malloc (Factorial i) r s = BzFactorial malloc (r ! i) s"
| "run_call malloc (Add i j) r s = BzAdd malloc (r ! i) (r ! j) s"
| "run_call malloc (Subtract i j) r s = BzSubtract malloc (r ! i) (r ! j) s"
| "run_call malloc (Multiply i j) r s = BzMultiply malloc (r ! i) (r ! j) s"
| "run_call malloc (Div i j) r s = BzDiv malloc (r ! i) (r ! j) s"
| "run_call malloc (Mod i j) r s = BzMod malloc (r ! i) (r ! j) s"
| "run_call malloc (FromInteger n) r s = BzFromInteger malloc n s"

text \<open>
  The numbers of digits of the objects that a call requests, in this order, and the state in which it requests them: \<open>BzSubtract\<close> has turned a sign around by then.
  A call is \<open>sized\<close> if the bytes of these objects do not wrap around, and \<open>served\<close> if \<^verbatim>\<open>malloc\<close> finds memory for each of them.
\<close>

primrec requests :: "bz_call \<Rightarrow> nat list \<Rightarrow> bz \<Rightarrow> nat list" where
  "requests (Copy i) r s = [BzNumDigits s (r ! i)]"
| "requests (Negate i) r s = [BzNumDigits s (r ! i)]"
| "requests (Absolute i) r s = [BzNumDigits s (r ! i)]"
| "requests (Factorial i) r s = [nat (val s (r ! i)) + 1]"
| "requests (Add i j) r s = [add_len s (r ! i) (r ! j) (Sign s (r ! i) = Sign s (r ! j))]"
| "requests (Subtract i j) r s = [sub_len s (r ! i) (r ! j)]"
| "requests (Multiply i j) r s = [BzNumDigits s (r ! i) + BzNumDigits s (r ! j)]"
| "requests (Div i j) r s = [quot_len s (r ! i) (r ! j), rem_len s (r ! i) (r ! j)]"
| "requests (Mod i j) r s = [quot_len s (r ! i) (r ! j), rem_len s (r ! i) (r ! j)]"
| "requests (FromInteger n) r s = [1]"

definition request_state :: "bz_call \<Rightarrow> nat list \<Rightarrow> bz \<Rightarrow> bz" where
  "request_state c r s = (case c of Subtract i j \<Rightarrow> sub_state s (r ! i) (r ! j) | _ \<Rightarrow> s)"

definition sized :: "bz_call \<Rightarrow> nat list \<Rightarrow> bz \<Rightarrow> bool" where "sized c r s \<longleftrightarrow> list_all fits_bytes (requests c r s)"

definition served :: "malloc \<Rightarrow> bz_call \<Rightarrow> nat list \<Rightarrow> bz \<Rightarrow> bool" where "served malloc c r s \<longleftrightarrow> granted malloc (requests c r s) (request_state c r s)"

text \<open>The same calls on integers, where they are legal.\<close>

primrec call_value :: "bz_call \<Rightarrow> int list \<Rightarrow> int option" where
  "call_value (Copy i) v = Some (v ! i)"
| "call_value (Negate i) v = Some (- v ! i)"
| "call_value (Absolute i) v = Some \<bar>v ! i\<bar>"
| "call_value (Factorial i) v = (if 0 < v ! i \<and> v ! i < int Base - 1 then Some (fact (nat (v ! i))) else None)"
| "call_value (Add i j) v = Some (v ! i + v ! j)"
| "call_value (Subtract i j) v = Some (v ! i - v ! j)"
| "call_value (Multiply i j) v = Some (v ! i * v ! j)"
| "call_value (Div i j) v = (if v ! j \<noteq> 0 then Some (sgn (v ! j) * (v ! i div \<bar>v ! j\<bar>)) else None)"
| "call_value (Mod i j) v = (if v ! j \<noteq> 0 then Some (v ! i mod \<bar>v ! j\<bar>) else None)"
| "call_value (FromInteger n) v = Some (sint n)"

definition spec_call :: "bz_call \<Rightarrow> int list \<Rightarrow> int option" where
  "spec_call c v = (if \<forall>i \<in> set (operands c). i < length v then call_value c v else None)"

primrec run_calls :: "malloc \<Rightarrow> bz_call list \<Rightarrow> nat list \<Rightarrow> bz \<Rightarrow> (nat list \<times> bz) option" where
  "run_calls malloc [] r s = Some (r, s)"
| "run_calls malloc (c # cs) r s = (case run_call malloc c r s of Done (Some z) s \<Rightarrow> run_calls malloc cs (r @ [z]) s | _ \<Rightarrow> None)"

primrec spec_calls :: "bz_call list \<Rightarrow> int list \<Rightarrow> int list option" where
  "spec_calls [] v = Some v"
| "spec_calls (c # cs) v = Option.bind (spec_call c v) (\<lambda>x. spec_calls cs (v @ [x]))"

text \<open>Every call of the run is sized and served, in the state in which it is made.\<close>

primrec all_served :: "malloc \<Rightarrow> bz_call list \<Rightarrow> nat list \<Rightarrow> bz \<Rightarrow> bool" where
  "all_served malloc [] r s = True"
| "all_served malloc (c # cs) r s =
     (sized c r s \<and> served malloc c r s \<and> (case run_call malloc c r s of Done (Some z) s \<Rightarrow> all_served malloc cs (r @ [z]) s | _ \<Rightarrow> True))"

lemma run_call_result:
  assumes "malloc_ok malloc" and "bz_ok s" and "set regs \<subseteq> live s" and "spec_call c (map (val s) regs) = Some v" and "sized c regs s" and "served malloc c regs s"
  shows "\<exists>z s'. run_call malloc c regs s = Done (Some z) s' \<and> bz_ok s' \<and> set (regs @ [z]) \<subseteq> live s' \<and> map (val s') (regs @ [z]) = map (val s) regs @ [v]"
proof -
  have i: "i < length regs" if "i \<in> set (operands c)" for i using assms(4) that by (auto simp: spec_call_def split: if_splits)
  have v: "call_value c (map (val s) regs) = Some v" using assms(4) by (auto simp: spec_call_def split: if_splits)
  note r = assms(1-3) and a = assms(5,6) [unfolded sized_def served_def request_state_def]
  show ?thesis
  proof (cases c)
    case (FromInteger n)
    have "granted malloc [1] s" using a FromInteger by simp
    then have y: "yields True s (BzFromInteger malloc n s) (sint n)" by (rule yields_granted [OF BzFromInteger_yields [OF assms(1,2)]])
    obtain z s' where e: "BzFromInteger malloc n s = Done (Some z) s'" "bz_ok s'" "same s s'" "z \<in> live s'" "val s' z = sint n"
      using y by (auto simp: yields_def split: bz_result.splits option.splits)
    then show ?thesis using FromInteger v assms(3) same_val [OF e(3)] by (auto simp: same_def subset_iff)
  qed (use i v a copy.result [OF r, of "[_]"] negate.result [OF r, of "[_]"] abs.result [OF r, of "[_]"] factorial.result [OF r, of "[_]"] add.result [OF r, of "[_, _]"] subtract.result [OF r, of "[_, _]"]
      multiply.result [OF r, of "[_, _]"] quotient.result [OF r, of "[_, _]"] remainder.result [OF r, of "[_, _]"] in \<open>auto simp: one_def two_def simp del: granted.simps split: if_splits\<close>)
qed

section \<open>Properties\<close>

text \<open>
  C19: the numbers refine the integers.  Take any sequence of calls whose operands are legal (no division by zero, factorials of positive numbers of one digit) and in which every call finds memory for the objects that
  it requests, none of them so large that its number of bytes wraps around in 32 bits.  Then the sequence runs to its end; all objects are well-formed then, and their values are those of the same calls on integers, where the
  quotient is rounded towards minus infinity for a positive divisor and the remainder is not negative.
\<close>

theorem bigz_programs:
  assumes "malloc_ok malloc" and "bz_ok s" and "set regs \<subseteq> live s" and "spec_calls cs (map (val s) regs) = Some v" and "all_served malloc cs regs s"
  shows "\<exists>regs' s'. run_calls malloc cs regs s = Some (regs', s') \<and> bz_ok s' \<and> set regs' \<subseteq> live s' \<and> map (val s') regs' = v"
  using assms(2-)
proof (induction cs arbitrary: regs s)
  case (Cons c cs)
  obtain x where x: "spec_call c (map (val s) regs) = Some x" "spec_calls cs (map (val s) regs @ [x]) = Some v" using Cons.prems(3) by (auto simp: bind_eq_Some_conv)
  have a: "sized c regs s" "served malloc c regs s" using Cons.prems(4) by simp_all
  obtain z s' where z: "run_call malloc c regs s = Done (Some z) s'" "bz_ok s'" "set (regs @ [z]) \<subseteq> live s'" "map (val s') (regs @ [z]) = map (val s) regs @ [x]"
    using run_call_result [OF assms(1) Cons.prems(1,2) x(1) a] by blast
  have "all_served malloc cs (regs @ [z]) s'" using Cons.prems(4) z(1) by simp
  then show ?case using Cons.IH [OF z(2,3)] x(2) z(1) unfolding z(4) by simp
qed auto

text \<open>What a call does whatever the allocator does: \<open>ok\<close> says that its own requests were granted.\<close>

definition well_typed :: "bool \<Rightarrow> bz \<Rightarrow> nat option bz_result \<Rightarrow> bool" where
  "well_typed ok s res \<longleftrightarrow>
     (case res of
        Undefined \<Rightarrow> \<not> ok
      | Done x s' \<Rightarrow> bz_ok s' \<and> same s s' \<and> (case x of None \<Rightarrow> \<not> ok | Some z \<Rightarrow> z \<in> live s' \<and> z \<notin> live s))"

lemma yields_typed: "yields ok s res v \<Longrightarrow> well_typed ok s res"
  by (auto simp: yields_def well_typed_def split: bz_result.splits option.splits)

lemma BzMod_typed:
  assumes "malloc_ok malloc" and "bz_ok s" and "y \<in> live s" and "z \<in> live s" and "val s z \<noteq> 0" and "fits_bytes (quot_len s y z)" and "fits_bytes (rem_len s y z)"
  shows "well_typed (granted malloc [quot_len s y z, rem_len s y z] s) s (BzMod malloc y z s)"
  using BzDivide_divides [OF assms]
proof (cases rule: divides_cases)
  case (null r s')
  then show ?thesis by (auto simp: BzMod_def well_typed_def BzFree_def simp del: granted.simps split: option.splits)
next
  case (quotient q r s')
  then show ?thesis using free_ok [OF quotient(2)] free_same [OF quotient(3), of "Some q"] by (simp add: BzMod_def well_typed_def free_live del: granted.simps)
qed

text \<open>
  C20: a legal call whose objects are not so large that their bytes wrap around leaves all numbers that exist well-formed and unchanged when it returns, also if it runs out of memory.  It returns a new
  well-formed number if \<^verbatim>\<open>malloc\<close> grants the requests of this very call, whatever happens elsewhere; it returns null or follows a null pointer only if one of them fails.
\<close>

theorem bigz_typed:
  assumes "malloc_ok malloc" and "bz_ok s" and "set regs \<subseteq> live s" and "spec_call c (map (val s) regs) \<noteq> None" and "sized c regs s"
  shows "case run_call malloc c regs s of
           Undefined \<Rightarrow> \<not> served malloc c regs s
         | Done x s' \<Rightarrow> bz_ok s' \<and> same s s' \<and> (case x of None \<Rightarrow> \<not> served malloc c regs s | Some z \<Rightarrow> z \<in> live s' \<and> z \<notin> live s)"
proof -
  have i: "regs ! i \<in> live s" "i < length regs" if "i \<in> set (operands c)" for i using assms(3,4) that by (auto simp: spec_call_def split: if_splits)
  have v: "call_value c (map (val s) regs) \<noteq> None" using assms(4) by (auto simp: spec_call_def split: if_splits)
  note ok = assms(1,2)
  have "well_typed (served malloc c regs s) s (run_call malloc c regs s)" using i v assms(5) fits_bytes_one unfolding served_def sized_def request_state_def
    by (cases c) (auto simp del: granted.simps granted_one One_nat_def add_Suc_right split: if_splits intro: yields_typed [OF BzCopy_yields [OF ok]] yields_typed [OF BzNegate_yields [OF ok]] yields_typed [OF BzAbs_yields [OF ok]]
        yields_typed [OF BzFactorial_yields [OF ok]] yields_typed [OF BzAdd_yields [OF ok]] yields_typed [OF BzSubtract_yields [OF ok]] yields_typed [OF BzMultiply_yields [OF ok]]
        yields_typed [OF BzDiv_yields [OF ok]] BzMod_typed [OF ok] yields_typed [OF BzFromInteger_yields [OF ok]])
  then show ?thesis unfolding well_typed_def .
qed

text \<open>
  C21: what happens otherwise.  When the divisor is zero, \<open>BzDivide\<close> returns null as its comment says, but it does not set \<open>*r\<close>, so that \<open>BzDiv\<close> frees and \<open>BzMod\<close> returns a pointer that was never set.
  When there is no memory for the quotient, \<open>BzMod\<close> returns zero.  The factorial of zero has the digit 1 but the sign of zero: it is not a well-formed number and its value is 0.
\<close>

theorem bigz_errors:
  assumes "malloc_ok malloc" and "bz_ok s" and "y \<in> live s" and "z \<in> live s"
  shows "(val s z = 0 \<longrightarrow> BzDivide malloc y z s = Done (None, None) s \<and> BzDiv malloc y z s = Undefined \<and> BzMod malloc y z s = Undefined) \<and>
    (val s z \<noteq> 0 \<and> malloc s (object_bytes (quot_len s y z)) = None \<and> malloc s (object_bytes (rem_len s y z)) = Some r \<longrightarrow> (\<exists>s'. BzMod malloc y z s = Done (Some r) s' \<and> val s' r = 0)) \<and>
    (val s z = 0 \<and> malloc s (object_bytes 1) = Some f \<longrightarrow> (\<exists>s'. BzFactorial malloc z s = Done (Some f) s' \<and> val s' f = 0 \<and> \<not> bz_ok s'))"
proof (intro conjI impI; (elim conjE)?)
  assume "val s z = 0"
  then have "Sign s z = 0" using bz_okD [OF assms(2,4)] by (auto simp: val_def)
  then show "BzDivide malloc y z s = Done (None, None) s" "BzDiv malloc y z s = Undefined" "BzMod malloc y z s = Undefined"
    by (simp_all add: BzDivide_def BzDiv_def BzMod_def)
next
  assume a: "val s z \<noteq> 0" "malloc s (object_bytes (quot_len s y z)) = None" "malloc s (object_bytes (rem_len s y z)) = Some r"
  then have "Sign s z \<noteq> 0" by (auto simp: val_def)
  then show "\<exists>s'. BzMod malloc y z s = Done (Some r) s' \<and> val s' r = 0" using a(2,3) by (simp add: BzMod_def BzDivide_len BzCreate_eq BzFree_def val_def)
next
  assume a: "val s z = 0" "malloc s (object_bytes 1) = Some f"
  then have z: "Sign s z = 0" "mag s z = 0" using bz_okD [OF assms(2,4)] by (auto simp: val_def)
  have d: "digits s z = 0" using num_zero_digit [OF z(2), of 0] bz_okD(1) [OF assms(2,4)] by simp
  have ne: "z \<noteq> f" using live_apart(2) [OF assms(1,2) a(2) fits_bytes_one assms(4)] .
  let ?s = "with_object s f 1 0 ((digits s)(f := 1))"
  have "BzFactorial malloc z s = Done (Some f) ?s"
    using a(2) d z(1) ne by (simp add: BzFactorial_def BnnGetDigit_def BnnSetDigit_def BzCreate_eq Let_def factorial_loop.simps)
  moreover have "\<not> bz_ok ?s" by (auto simp: bz_ok_def)
  ultimately show "\<exists>s'. BzFactorial malloc z s = Done (Some f) s' \<and> val s' f = 0 \<and> \<not> bz_ok s'" by (intro exI [of _ ?s]) (simp add: val_def)
qed

text \<open>
  an \<^verbatim>\<open>int\<close> that is turned into a number and back is the same \<^verbatim>\<open>int\<close>, the least one included.
\<close>

theorem bigz_integers:
  assumes "malloc_ok malloc" and "bz_ok s" and "BzFromInteger malloc i s = Done (Some z) s'"
  shows "BzToInteger z s' = i"
proof -
  have "bz_ok s'" "z \<in> live s'" "val s' z = sint i" using BzFromInteger_yields [OF assms(1,2), of i] by (simp_all add: assms(3) yields_def)
  moreover have "nat \<bar>sint i\<bar> < Base" using sint32_range [of i] by (simp add: Base_def)
  ultimately show ?thesis using BzToInteger_val [of s' z] by simp
qed

subsection \<open>Instances\<close>

text \<open>An allocator that puts every object behind all others.\<close>

definition bump :: malloc where
  "bump s b = Some (Max (insert (stack s + 1) ((\<lambda>q. q + Size s q + 1) ` live s)))"

lemma bump_ok: "malloc_ok bump"
  unfolding malloc_ok_def
proof (intro allI impI)
  fix s :: bz and b z
  assume f: "finite (live s)" and e: "bump s b = Some z"
  let ?S = "insert (stack s + 1) ((\<lambda>q. q + Size s q + 1) ` live s)"
  have z: "z = Max ?S" using e by (simp add: bump_def)
  have "x \<le> z" if "x \<in> ?S" for x using f that unfolding z by (intro Max_ge) auto
  then have "stack s + 1 \<le> z" "q \<in> live s \<Longrightarrow> q + Size s q + 1 \<le> z" for q by auto
  then show "fresh s (room b) z" by (fastforce simp: fresh_def)
qed

text \<open>One that has no objects of more than a million bytes.\<close>

definition arena :: malloc where
  "arena s b = (if unat b \<le> 1000000 then bump s b else None)"

lemma arena_ok: "malloc_ok arena"
  using bump_ok by (auto simp: malloc_ok_def arena_def split: if_splits)

lemma arena_grants: "\<forall>n \<in> set ns. n \<le> 1001 \<Longrightarrow> granted arena ns s"
proof (induction ns arbitrary: s)
  case (Cons n ns s)
  have b: "object_bytes n = of_nat (8 + 4 * n)" by (simp add: object_bytes_def mult.commute)
  have "unat (object_bytes n) = 8 + 4 * n" using Cons.prems unfolding b by (simp only: unat_of_nat) simp
  then have "arena s (object_bytes n) = bump s (object_bytes n)" using Cons.prems by (simp add: arena_def)
  then show ?case using Cons by (simp add: BzCreate_eq bump_def)
qed simp

text \<open>On numbers below a thousand no call asks for much.\<close>

lemma small_requests:
  assumes "bz_ok s" and "set regs \<subseteq> live s" and "\<forall>x \<in> set (map (val s) regs). \<bar>x\<bar> < 1000" and "spec_call c (map (val s) regs) = Some v"
  shows "\<forall>n \<in> set (requests c regs s). n \<le> 1001"
proof -
  have i: "regs ! i \<in> live s \<and> \<bar>val s (regs ! i)\<bar> < 1000" if "i \<in> set (operands c)" for i using assms(2-4) that by (auto simp: spec_call_def split: if_splits)
  have one: "BzNumDigits s (regs ! i) = 1" if "i \<in> set (operands c)" for i
  proof -
    note ok = bz_okD [OF assms(1), of "regs ! i"]
    have "mag s (regs ! i) < Base" using i [OF that] ok by (auto simp: val_def abs_mult Base_def)
    then show ?thesis using many_digits [OF assms(1), of "regs ! i"] BzNumDigits_num(2) [OF assms(1), of "regs ! i"] i [OF that] by simp
  qed
  show ?thesis
    using one i by (cases c) (fastforce simp: add_len_def sub_len_def quot_len_def rem_len_def Let_def)+
qed

lemma small_served:
  assumes "bz_ok s" and "set regs \<subseteq> live s" and "spec_calls cs (map (val s) regs) = Some v" and "\<forall>x \<in> set v. \<bar>x\<bar> < 1000"
  shows "all_served arena cs regs s"
  using assms
proof (induction cs arbitrary: regs s)
  case (Cons c cs)
  obtain x where x: "spec_call c (map (val s) regs) = Some x" "spec_calls cs (map (val s) regs @ [x]) = Some v" using Cons.prems(3) by (auto simp: bind_eq_Some_conv)
  have "set vs \<subseteq> set v" if "spec_calls ds vs = Some v" for ds vs using that
    by (induction ds arbitrary: vs) (fastforce simp: bind_eq_Some_conv)+
  then have "\<forall>y \<in> set (map (val s) regs). \<bar>y\<bar> < 1000" using x(2) Cons.prems(4) by fastforce
  note n = small_requests [OF Cons.prems(1,2) this x(1)]
  have a: "sized c regs s" "served arena c regs s" using n arena_grants by (auto simp: sized_def served_def list_all_iff fits_bytes_def)
  obtain z s' where z: "run_call arena c regs s = Done (Some z) s'" "bz_ok s'" "set (regs @ [z]) \<subseteq> live s'" "map (val s') (regs @ [z]) = map (val s) regs @ [x]"
    using run_call_result [OF arena_ok Cons.prems(1,2) x(1) a] by blast
  show ?case using a z(1) Cons.IH [OF z(2,3) _ Cons.prems(4)] x(2) unfolding z(4) by simp
qed simp

definition no_numbers :: bz where "no_numbers = \<lparr>digits = (\<lambda>_. 0), Size = (\<lambda>_. 0), Sign = (\<lambda>_. 0), live = {}, stack = 0\<rparr>"

lemma no_numbers_ok: "bz_ok no_numbers" "live no_numbers = {}" by (simp_all add: bz_ok_def no_numbers_def)

definition demo :: "bz_call list" where "demo = [FromInteger (- 7), FromInteger 3, Div 0 1, Mod 0 1, Factorial 1, Multiply 4 0]"

theorem bigz_programs_witness:
  "spec_calls demo (map (val no_numbers) []) = Some [- 7, 3, - 3, 2, 6, - 42] \<and> all_served arena demo [] no_numbers \<and> arena no_numbers 5000000 = None \<and>
   (\<exists>regs s. run_calls arena demo [] no_numbers = Some (regs, s) \<and> bz_ok s \<and> map (val s) regs = [- 7, 3, - 3, 2, 6, - 42])"
proof -
  have s: "sint (- 7 :: uint32) = - 7" "sint (3 :: uint32) = 3" by simp_all
  have e: "spec_calls demo (map (val no_numbers) []) = Some [- 7, 3, - 3, 2, 6, - 42]"
    by (simp add: demo_def spec_call_def s Base_def fact_numeral nth_append numeral_2_eq_2 numeral_3_eq_3)
  have a: "all_served arena demo [] no_numbers" by (rule small_served [OF no_numbers_ok(1) _ e]) simp_all
  show ?thesis using e a bigz_programs [OF arena_ok no_numbers_ok(1) _ e a] by (auto simp: arena_def)
qed

theorem bigz_typed_witness:
  "bz_ok no_numbers \<and> sized (FromInteger 5) [] no_numbers \<and> served arena (FromInteger 5) [] no_numbers \<and>
   (\<exists>z s. run_call arena (FromInteger 5) [] no_numbers = Done (Some z) s \<and> bz_ok s \<and> z \<in> live s)"
proof -
  have a: "sized (FromInteger 5) [] no_numbers" "served arena (FromInteger 5) [] no_numbers"
    using arena_grants [of "[1]" no_numbers] fits_bytes_one by (simp_all add: sized_def served_def request_state_def)
  show ?thesis using a no_numbers_ok(1) bigz_typed [OF arena_ok no_numbers_ok(1) _ _ a(1)]
    by (cases "run_call arena (FromInteger 5) [] no_numbers") (auto simp: spec_call_def split: option.splits)
qed

definition one_number :: bz where "one_number = \<lparr>digits = (\<lambda>_. 0), Size = (\<lambda>_. 1), Sign = (\<lambda>_. 0), live = {4}, stack = 0\<rparr>"

theorem bigz_errors_witness:
  "bz_ok one_number \<and> BzDiv bump 4 4 one_number = Undefined \<and> (\<exists>s'. BzFactorial bump 4 one_number = Done (Some 6) s' \<and> val s' 6 = 0 \<and> \<not> bz_ok s')"
proof -
  have "bz_ok one_number" "4 \<in> live one_number" "val one_number 4 = 0" "bump one_number (object_bytes 1) = Some 6" by (simp_all add: bz_ok_def one_number_def val_def bump_def)
  then show ?thesis using bigz_errors [OF bump_ok, of one_number 4 4 _ 6] by simp
qed

theorem bigz_integers_witness: "\<exists>z s. BzFromInteger bump (- 2147483648) no_numbers = Done (Some z) s \<and> BzToInteger z s = - 2147483648"
proof -
  have "\<exists>z s. BzFromInteger bump (- 2147483648) no_numbers = Done (Some z) s" by (simp add: BzFromInteger_def BzCreate_def bump_def)
  then show ?thesis using bigz_integers [OF bump_ok no_numbers_ok(1)] by metis
qed

end
