(* ===== verification/Lexing.thy ===== *)
theory Lexing
  imports Mlvalues "HOL-Library.Monad_Syntax"
begin

text \<open>
  The engine of the generated lexers (\<^verbatim>\<open>byterun/lexing.c\<close>): a deterministic automaton given by tables of 16-bit integers in strings of the
  heap, which runs over a buffer that the calling program refills.  The two structures that the engine gets from the program are records; the
  strings they point to are read from the memory, which the engine does not change.
\<close>

record lexer_buffer =
  refill_buff :: val
  lex_buffer :: val
  lex_buffer_len :: val
  lex_abs_pos :: val
  lex_start_pos :: val
  lex_curr_pos :: val
  lex_last_pos :: val
  lex_last_action :: val
  lex_eof_reached :: val

record lexing_table =
  lex_base :: val
  lex_backtrk :: val
  lex_default :: val
  lex_trans :: val
  lex_check :: val

definition Short :: "mem \<Rightarrow> val \<Rightarrow> int \<Rightarrow> int" where
  "Short m tbl n = (let a = tbl + word_of_int (2 * n) in sint (ucast (drop_bit (8 * unat (a AND 3)) (m (a AND NOT 3))) :: 16 word))"

text \<open>
  The loop of the engine.  The result is the value returned, or on the left the message of the exception that is raised; the loop is total only on
  the buffers a program can make, so it is a partial function.
\<close>

partial_function (option) lex_loop :: "mem \<Rightarrow> lexing_table \<Rightarrow> int \<Rightarrow> lexer_buffer \<Rightarrow> ((string + val) \<times> lexer_buffer) option" where
  "lex_loop m tbl state lexbuf =
     (let base = Short m (lex_base tbl) state
      in if base < 0 then Some (Inr (Val_int (word_of_int (- base - 1))), lexbuf)
         else
           let backtrk = Short m (lex_backtrk tbl) state;
               lexbuf = (if 0 \<le> backtrk then lexbuf\<lparr>lex_last_pos := lex_curr_pos lexbuf, lex_last_action := Val_int (word_of_int backtrk)\<rparr> else lexbuf);
               full = sle (lex_buffer_len lexbuf) (lex_curr_pos lexbuf)
           in if full \<and> lex_eof_reached lexbuf = Val_bool False then Some (Inr (Val_int (word_of_int (- state - 1))), lexbuf)
              else
                let (c, lexbuf) =
                      (if full then (256, lexbuf)
                       else (uint (Byte_u m (lex_buffer lexbuf) (Long_val (lex_curr_pos lexbuf))), lexbuf\<lparr>lex_curr_pos := lex_curr_pos lexbuf + 2\<rparr>));
                    state = (if Short m (lex_check tbl) (base + c) = state then Short m (lex_trans tbl) (base + c) else Short m (lex_default tbl) state)
                in if state < 0
                   then let lexbuf = lexbuf\<lparr>lex_curr_pos := lex_last_pos lexbuf\<rparr>
                        in if lex_last_action lexbuf = Val_int (- 1) then Some (Inl ''lexing: empty token'', lexbuf)
                           else Some (Inr (lex_last_action lexbuf), lexbuf)
                   else lex_loop m tbl state (if c = 256 then lexbuf\<lparr>lex_eof_reached := Val_bool False\<rparr> else lexbuf))"

definition lex_engine :: "mem \<Rightarrow> lexing_table \<Rightarrow> val \<Rightarrow> lexer_buffer \<Rightarrow> ((string + val) \<times> lexer_buffer) option" where
  "lex_engine m tbl start_state lexbuf =
     (let state = sint (Int_val start_state)
      in if 0 \<le> state
         then lex_loop m tbl state (lexbuf\<lparr>lex_start_pos := lex_curr_pos lexbuf, lex_last_pos := lex_curr_pos lexbuf, lex_last_action := Val_int (- 1)\<rparr>)
         else lex_loop m tbl (- state - 1) lexbuf)"

declare lex_loop.simps [code]

section \<open>The automaton\<close>

text \<open>
  What the tables mean: a state with a negative base ends the token at once, a state with a backtrack entry accepts, and a
  negative successor means that there is no transition.
\<close>

definition final :: "mem \<Rightarrow> lexing_table \<Rightarrow> int \<Rightarrow> bool" where "final m tbl q \<longleftrightarrow> Short m (lex_base tbl) q < 0"

definition succ :: "mem \<Rightarrow> lexing_table \<Rightarrow> int \<Rightarrow> int \<Rightarrow> int" where
  "succ m tbl q c =
     (let base = Short m (lex_base tbl) q
      in if Short m (lex_check tbl) (base + c) = q then Short m (lex_trans tbl) (base + c) else Short m (lex_default tbl) q)"

definition accepts :: "mem \<Rightarrow> lexing_table \<Rightarrow> int \<Rightarrow> bool" where "accepts m tbl q \<longleftrightarrow> 0 \<le> Short m (lex_backtrk tbl) q"

primrec run :: "mem \<Rightarrow> lexing_table \<Rightarrow> int \<Rightarrow> int list \<Rightarrow> int" where
  "run m tbl q [] = q"
| "run m tbl q (c # cs) = run m tbl (succ m tbl q c) cs"

text \<open>\<open>live\<close>: the automaton reads all of the characters.  \<open>stuck\<close>: it has no transition on the next one.\<close>

primrec live :: "mem \<Rightarrow> lexing_table \<Rightarrow> int \<Rightarrow> int list \<Rightarrow> bool" where
  "live m tbl q [] = True"
| "live m tbl q (c # cs) = (\<not> final m tbl q \<and> 0 \<le> succ m tbl q c \<and> live m tbl (succ m tbl q c) cs)"

definition stuck :: "mem \<Rightarrow> lexing_table \<Rightarrow> int \<Rightarrow> int list \<Rightarrow> nat \<Rightarrow> bool" where
  "stuck m tbl q cs k \<longleftrightarrow> live m tbl q (take k cs) \<and> k < length cs \<and> \<not> final m tbl (run m tbl q (take k cs)) \<and> succ m tbl (run m tbl q (take k cs)) (cs ! k) < 0"

text \<open>
  The outcomes of a scan from \<open>q\<close> over the characters \<open>cs\<close>: a token of \<open>n\<close> characters with its action, no token, or the end of the characters in a state that
  wants more of them.  A token that is not ended by a final state is the longest accepted prefix of what the automaton can read.
\<close>

datatype outcome = Token int nat | Empty_token | More int

definition outcome_ok :: "mem \<Rightarrow> lexing_table \<Rightarrow> int \<Rightarrow> int list \<Rightarrow> outcome \<Rightarrow> bool" where
  "outcome_ok m tbl q cs r =
     (case r of
        Token a n \<Rightarrow>
          live m tbl q (take n cs) \<and> n \<le> length cs \<and>
          (final m tbl (run m tbl q (take n cs)) \<and> a = - Short m (lex_base tbl) (run m tbl q (take n cs)) - 1 \<or>
           accepts m tbl (run m tbl q (take n cs)) \<and> a = Short m (lex_backtrk tbl) (run m tbl q (take n cs)) \<and>
           (\<exists>k \<ge> n. stuck m tbl q cs k \<and> (\<forall>j. n < j \<and> j \<le> k \<longrightarrow> \<not> accepts m tbl (run m tbl q (take j cs)))))
      | Empty_token \<Rightarrow> \<exists>k. stuck m tbl q cs k \<and> (\<forall>j \<le> k. \<not> accepts m tbl (run m tbl q (take j cs)))
      | More s \<Rightarrow> live m tbl q cs \<and> s = run m tbl q cs \<and> \<not> final m tbl s)"

text \<open>The characters that are left in the buffer, with the end of the file as the character 256.\<close>

definition byte_at :: "mem \<Rightarrow> lexer_buffer \<Rightarrow> nat \<Rightarrow> int" where "byte_at m b i = uint (Byte_u m (lex_buffer b) (word_of_nat i))"

definition pos_ok :: "lexer_buffer \<Rightarrow> nat \<Rightarrow> nat \<Rightarrow> bool" where
  "pos_ok b p l \<longleftrightarrow> lex_curr_pos b = rep_int (int p) \<and> lex_buffer_len b = rep_int (int l) \<and> p \<le> l \<and> l < 2 ^ 30"

definition chars :: "mem \<Rightarrow> lexer_buffer \<Rightarrow> nat \<Rightarrow> nat \<Rightarrow> int list" where
  "chars m b p l = map (byte_at m b) [p..<l] @ (if lex_eof_reached b = Val_bool False then [] else [256])"

text \<open>What the engine returns for an outcome of a scan that started at \<open>p0\<close>; a token ends at its number of characters, where the end of the file counts nothing.\<close>

definition returns :: "outcome \<Rightarrow> nat \<Rightarrow> nat \<Rightarrow> (string + val) \<times> lexer_buffer \<Rightarrow> bool" where
  "returns r p l x =
     (case r of
        Token a n \<Rightarrow> fst x = Inr (rep_int a) \<and> lex_curr_pos (snd x) = rep_int (int (min (p + n) l))
      | Empty_token \<Rightarrow> fst x = Inl ''lexing: empty token'' \<and> lex_curr_pos (snd x) = rep_int (int p)
      | More s \<Rightarrow> fst x = Inr (rep_int (- s - 1)) \<and> lex_curr_pos (snd x) = rep_int (int l))"


section \<open>Correctness\<close>

lemma Short_range: "- 32768 \<le> Short m t n" "Short m t n < 32768"
  using sint_greater_eq [where 'a = 16] sint_less [where 'a = 16] by (auto simp: Short_def Let_def)

lemma in_long_Short: "in_long (Short m t n)" "in_long (- 1)" "in_long (- Short m t n - 1)"
  using Short_range [of m t n] by (auto simp: in_long_def)

lemma in_long_nat: "n < 2 ^ 30 \<Longrightarrow> in_long (int n)"
  by (simp add: in_long_def)

lemma Val_int_minus_1: "Val_int (- 1) = rep_int (- 1)"
  by (simp add: rep_int_def)

lemma pos_full: "pos_ok b p l \<Longrightarrow> sle (lex_buffer_len b) (lex_curr_pos b) \<longleftrightarrow> p = l"
  by (auto simp: pos_ok_def sle_def sint_rep_int in_long_nat)

lemma pos_next: "rep_int (int p) + 2 = rep_int (int (Suc p))"
  by (simp add: rep_int_word)

lemma Long_val_pos: "n < 2 ^ 30 \<Longrightarrow> Long_val (rep_int (int n)) = word_of_nat n"
  by (simp add: Long_val_rep_int wrap31_in in_long_nat)

lemma byte_range: "byte_at m b i \<noteq> 256"
  using uint_lt2p [of "Byte_u m (lex_buffer b) (word_of_nat i)"] by (auto simp: byte_at_def)

lemma chars_full: "chars m b l l = (if lex_eof_reached b = Val_bool False then [] else [256])"
  by (simp add: chars_def)

lemma chars_step: "p < l \<Longrightarrow> chars m b p l = byte_at m b p # chars m b (Suc p) l"
  by (simp add: chars_def upt_conv_Cons)

lemma run_snoc: "run m tbl q (cs @ [c]) = succ m tbl (run m tbl q cs) c"
  by (induction cs arbitrary: q) auto

lemma live_snoc: "live m tbl q (cs @ [c]) \<longleftrightarrow> live m tbl q cs \<and> \<not> final m tbl (run m tbl q cs) \<and> 0 \<le> succ m tbl (run m tbl q cs) c"
  by (induction cs arbitrary: q) auto

text \<open>The backtrack information before the state after \<open>k\<close> characters is looked at: the last accepting state on the way.\<close>

definition last_ok :: "mem \<Rightarrow> lexing_table \<Rightarrow> int \<Rightarrow> int list \<Rightarrow> nat \<Rightarrow> nat \<Rightarrow> nat \<Rightarrow> lexer_buffer \<Rightarrow> bool" where
  "last_ok m tbl q cs k p0 l b \<longleftrightarrow>
     lex_last_action b = rep_int (- 1) \<and> lex_last_pos b = rep_int (int p0) \<and> (\<forall>j < k. \<not> accepts m tbl (run m tbl q (take j cs))) \<or>
     (\<exists>n < k. accepts m tbl (run m tbl q (take n cs)) \<and> lex_last_action b = rep_int (Short m (lex_backtrk tbl) (run m tbl q (take n cs))) \<and>
        lex_last_pos b = rep_int (int (min (p0 + n) l)) \<and> (\<forall>j. n < j \<and> j < k \<longrightarrow> \<not> accepts m tbl (run m tbl q (take j cs))))"

definition mark_last :: "mem \<Rightarrow> lexing_table \<Rightarrow> int \<Rightarrow> lexer_buffer \<Rightarrow> lexer_buffer" where
  "mark_last m tbl q b =
     (if accepts m tbl q then b\<lparr>lex_last_pos := lex_curr_pos b, lex_last_action := rep_int (Short m (lex_backtrk tbl) q)\<rparr> else b)"

lemma mark_last_fields [simp]:
  "lex_curr_pos (mark_last m tbl q b) = lex_curr_pos b" "lex_buffer_len (mark_last m tbl q b) = lex_buffer_len b" "lex_buffer (mark_last m tbl q b) = lex_buffer b"
  "lex_eof_reached (mark_last m tbl q b) = lex_eof_reached b"
  by (simp_all add: mark_last_def)

lemma last_ok_mark:
  assumes "last_ok m tbl q cs k p0 l b" and "lex_curr_pos b = rep_int (int (min (p0 + k) l))"
  shows "last_ok m tbl q cs (Suc k) p0 l (mark_last m tbl (run m tbl q (take k cs)) b)"
proof (cases "accepts m tbl (run m tbl q (take k cs))")
  case True
  then show ?thesis using assms(2) by (auto simp: last_ok_def mark_last_def)
next
  case False
  then show ?thesis using assms(1) unfolding last_ok_def mark_last_def by (auto simp: less_Suc_eq)
qed

lemma last_ok_cong: "lex_last_action b' = lex_last_action b \<Longrightarrow> lex_last_pos b' = lex_last_pos b \<Longrightarrow> last_ok m tbl q cs k p0 l b' = last_ok m tbl q cs k p0 l b"
  by (simp add: last_ok_def)

text \<open>One round of the loop in terms of the automaton.\<close>

lemma lex_loop_step:
  "lex_loop m tbl q b =
     (if final m tbl q then Some (Inr (rep_int (- Short m (lex_base tbl) q - 1)), b)
      else let b = mark_last m tbl q b; full = sle (lex_buffer_len b) (lex_curr_pos b)
           in if full \<and> lex_eof_reached b = Val_bool False then Some (Inr (rep_int (- q - 1)), b)
              else let c = (if full then 256 else uint (Byte_u m (lex_buffer b) (Long_val (lex_curr_pos b))));
                       b = (if full then b else b\<lparr>lex_curr_pos := lex_curr_pos b + 2\<rparr>)
                   in if succ m tbl q c < 0
                      then if lex_last_action b = rep_int (- 1) then Some (Inl ''lexing: empty token'', b\<lparr>lex_curr_pos := lex_last_pos b\<rparr>)
                           else Some (Inr (lex_last_action b), b\<lparr>lex_curr_pos := lex_last_pos b\<rparr>)
                      else lex_loop m tbl (succ m tbl q c) (if c = 256 then b\<lparr>lex_eof_reached := Val_bool False\<rparr> else b))"
proof (cases "Short m (lex_base tbl) q < 0")
  case True
  then show ?thesis by (subst lex_loop.simps) (simp add: final_def rep_int_def)
next
  case False
  let ?b = "mark_last m tbl q b"
  have b: "(if 0 \<le> Short m (lex_backtrk tbl) q then b\<lparr>lex_last_pos := lex_curr_pos b, lex_last_action := Val_int (word_of_int (Short m (lex_backtrk tbl) q))\<rparr> else b) = ?b"
    by (simp add: mark_last_def accepts_def rep_int_def)
  show ?thesis using False
    by (subst lex_loop.simps) (cases "sle (lex_buffer_len b) (lex_curr_pos b)"; simp add: Let_def b final_def succ_def Val_int_minus_1 rep_int_def [of "- q - 1"])
qed

lemma stuck_outcome:
  assumes "stuck m tbl q cs k" and "last_ok m tbl q cs (Suc k) p0 l b" and "p0 \<le> l" and "k < length cs"
  defines "x \<equiv> (if lex_last_action b = rep_int (- 1) then (Inl ''lexing: empty token'', b\<lparr>lex_curr_pos := lex_last_pos b\<rparr>)
                  else (Inr (lex_last_action b), b\<lparr>lex_curr_pos := lex_last_pos b\<rparr>))"
  shows "\<exists>r. outcome_ok m tbl q cs r \<and> returns r p0 l x"
proof -
  have lv: "live m tbl q (take n cs)" if "n \<le> k" for n
    using assms(1) that take_add [of n "k - n" cs]
  proof -
    have app: "live m tbl q (xs @ ys) \<Longrightarrow> live m tbl q xs" for xs ys by (induction xs arbitrary: q) auto
    have "take k cs = take n cs @ take (k - n) (drop n cs)" using that take_add [of n "k - n" cs] by simp
    then show ?thesis using assms(1) app unfolding stuck_def by metis
  qed
  from assms(2) consider (none) "lex_last_action b = rep_int (- 1)" "lex_last_pos b = rep_int (int p0)" "\<forall>j \<le> k. \<not> accepts m tbl (run m tbl q (take j cs))"
    | (some) n where "n \<le> k" "accepts m tbl (run m tbl q (take n cs))" "lex_last_action b = rep_int (Short m (lex_backtrk tbl) (run m tbl q (take n cs)))"
        "lex_last_pos b = rep_int (int (min (p0 + n) l))" "\<forall>j. n < j \<and> j \<le> k \<longrightarrow> \<not> accepts m tbl (run m tbl q (take j cs))"
    unfolding last_ok_def less_Suc_eq_le by blast
  then show ?thesis
  proof cases
    case none
    then have "outcome_ok m tbl q cs Empty_token \<and> returns Empty_token p0 l x" using assms(1) by (auto simp: outcome_ok_def returns_def x_def)
    then show ?thesis by blast
  next
    case some
    have "lex_last_action b \<noteq> rep_int (- 1)" using some(2) rep_int_inj [OF in_long_Short(1,2)] unfolding some(3) accepts_def by auto
    then have "returns (Token (Short m (lex_backtrk tbl) (run m tbl q (take n cs))) n) p0 l x" using some by (auto simp: returns_def x_def)
    moreover have "outcome_ok m tbl q cs (Token (Short m (lex_backtrk tbl) (run m tbl q (take n cs))) n)"
      using some lv [OF some(1)] assms(1,4) by (auto simp: outcome_ok_def)
    ultimately show ?thesis by blast
  qed
qed

text \<open>Reading the next character of the buffer, or the end of the file.\<close>

lemma read_char:
  assumes "pos_ok b p l" and "p = min (p0 + k) l" and "chars m b p l = c # cs"
  defines "b1 \<equiv> (if p = l then b else b\<lparr>lex_curr_pos := lex_curr_pos b + 2\<rparr>)"
  defines "b2 \<equiv> (if p = l then b1\<lparr>lex_eof_reached := Val_bool False\<rparr> else b1)"
  shows "c = (if p = l then 256 else uint (Byte_u m (lex_buffer b) (Long_val (lex_curr_pos b)))) \<and> cs = chars m b2 (min (p0 + Suc k) l) l \<and>
    \<not> (p = l \<and> lex_eof_reached b = Val_bool False) \<and> pos_ok b2 (min (p0 + Suc k) l) l \<and> (c = 256) = (p = l)"
proof -
  have b: "p \<le> l" "l < 2 ^ 30" "lex_curr_pos b = rep_int (int p)" using assms(1) by (auto simp: pos_ok_def)
  then consider "p = l" | "p < l" "p = p0 + k" using assms(2) by linarith
  then show ?thesis
  proof cases
    case 1
    then have "lex_eof_reached b \<noteq> Val_bool False" "c = 256" "cs = []" using assms(3) chars_full [of m b l] by (auto split: if_splits)
    moreover have "min (p0 + Suc k) l = l" using 1 assms(2) by simp
    moreover have "pos_ok b2 l l" using 1 assms(1) by (simp add: b2_def b1_def pos_ok_def)
    moreover have "chars m b2 l l = []" using 1 by (simp add: chars_full b2_def)
    ultimately show ?thesis using 1 by simp
  next
    case 2
    then have "c = byte_at m b p" "cs = chars m b (Suc p) l" using assms(3) chars_step [of p l m b] by auto
    moreover have "chars m b2 (Suc p) l = chars m b (Suc p) l" using 2 by (simp add: chars_def b2_def b1_def byte_at_def)
    moreover have "min (p0 + Suc k) l = Suc p" using 2 by simp
    moreover have "byte_at m b p = uint (Byte_u m (lex_buffer b) (Long_val (lex_curr_pos b)))" using b 2(1) unfolding byte_at_def b(3) by (simp add: Long_val_pos)
    moreover have "pos_ok b2 (Suc p) l" using 2(1) assms(1) by (simp add: b2_def b1_def pos_ok_def pos_next del: of_nat_Suc)
    ultimately show ?thesis using 2 byte_range [of m b p] by simp
  qed
qed

lemma lex_loop_scan:
  assumes "pos_ok b p l" and "p = min (p0 + k) l" and "drop k cs = chars m b p l" and "k \<le> length cs" and "live m tbl q0 (take k cs)"
    and "last_ok m tbl q0 cs k p0 l b" and "p0 \<le> l"
  shows "\<exists>x r. lex_loop m tbl (run m tbl q0 (take k cs)) b = Some x \<and> outcome_ok m tbl q0 cs r \<and> returns r p0 l x"
  using assms
proof (induction "length cs - k" arbitrary: k p b)
  case (0 k p b)
  let ?q = "run m tbl q0 (take k cs)"
  have k: "k = length cs" using 0 by simp
  then have e: "chars m b p l = []" using "0.prems"(3) by simp
  have pl: "p = l" "lex_eof_reached b = Val_bool False" using e "0.prems"(1) by (auto simp: chars_def pos_ok_def split: if_splits)
  have pb: "pos_ok (mark_last m tbl ?q b) p l" using "0.prems"(1) by (simp add: pos_ok_def)
  show ?case
  proof (cases "final m tbl ?q")
    case True
    then have "outcome_ok m tbl q0 cs (Token (- Short m (lex_base tbl) ?q - 1) k)" using "0.prems"(5) k by (simp add: outcome_ok_def)
    moreover have "returns (Token (- Short m (lex_base tbl) ?q - 1) k) p0 l (Inr (rep_int (- Short m (lex_base tbl) ?q - 1)), b)"
      using "0.prems"(1,2) by (simp add: returns_def pos_ok_def)
    ultimately show ?thesis using True by (subst lex_loop_step) auto
  next
    case False
    then have "outcome_ok m tbl q0 cs (More ?q)" using "0.prems"(5) k by (simp add: outcome_ok_def)
    moreover have "returns (More ?q) p0 l (Inr (rep_int (- ?q - 1)), mark_last m tbl ?q b)" using "0.prems"(1) pl by (simp add: returns_def pos_ok_def)
    ultimately show ?thesis using False pl pos_full [OF pb] by (subst lex_loop_step) auto
  qed
next
  case (Suc n k p b)
  let ?q = "run m tbl q0 (take k cs)" and ?b = "mark_last m tbl (run m tbl q0 (take k cs)) b"
  have kl: "k < length cs" using Suc.hyps(2) by simp
  have dr: "drop k cs = cs ! k # drop (Suc k) cs" using kl by (simp add: Cons_nth_drop_Suc)
  have tk: "take (Suc k) cs = take k cs @ [cs ! k]" using kl by (simp add: take_Suc_conv_app_nth)
  have pb: "pos_ok ?b p l" using Suc.prems(1) by (simp add: pos_ok_def)
  have lo: "last_ok m tbl q0 cs (Suc k) p0 l ?b" using last_ok_mark [OF Suc.prems(6)] Suc.prems(1,2) by (simp add: pos_ok_def)
  show ?case
  proof (cases "final m tbl ?q")
    case True
    then have "outcome_ok m tbl q0 cs (Token (- Short m (lex_base tbl) ?q - 1) k)" using Suc.prems(5) kl by (simp add: outcome_ok_def)
    moreover have "returns (Token (- Short m (lex_base tbl) ?q - 1) k) p0 l (Inr (rep_int (- Short m (lex_base tbl) ?q - 1)), b)"
      using Suc.prems(1,2) by (simp add: returns_def pos_ok_def)
    ultimately show ?thesis using True by (subst lex_loop_step) auto
  next
    case nf: False
    define b1 where "b1 = (if p = l then ?b else ?b\<lparr>lex_curr_pos := lex_curr_pos ?b + 2\<rparr>)"
    define b2 where "b2 = (if p = l then b1\<lparr>lex_eof_reached := Val_bool False\<rparr> else b1)"
    have ch: "chars m ?b p l = cs ! k # drop (Suc k) cs" using dr Suc.prems(3) by (simp add: chars_def byte_at_def cong: map_cong)
    note rd = read_char [OF pb Suc.prems(2) ch, folded b1_def, folded b2_def]
    have step: "lex_loop m tbl ?q b =
        (if succ m tbl ?q (cs ! k) < 0
         then if lex_last_action b1 = rep_int (- 1) then Some (Inl ''lexing: empty token'', b1\<lparr>lex_curr_pos := lex_last_pos b1\<rparr>)
              else Some (Inr (lex_last_action b1), b1\<lparr>lex_curr_pos := lex_last_pos b1\<rparr>)
         else lex_loop m tbl (succ m tbl ?q (cs ! k)) b2)"
      using nf pos_full [OF pb] rd by (subst lex_loop_step; cases "p = l") (simp_all add: b1_def b2_def Let_def)
    have lo1: "last_ok m tbl q0 cs (Suc k) p0 l b1" "last_ok m tbl q0 cs (Suc k) p0 l b2"
      using lo by (auto simp: b1_def b2_def elim!: last_ok_cong [THEN iffD1, rotated 2])
    show ?thesis
    proof (cases "succ m tbl ?q (cs ! k) < 0")
      case True
      then have "stuck m tbl q0 cs k" using Suc.prems(5) kl nf by (simp add: stuck_def)
      from stuck_outcome [OF this lo1(1) Suc.prems(7) kl] show ?thesis using True unfolding step by (auto split: if_splits)
    next
      case False
      then have "live m tbl q0 (take (Suc k) cs)" using Suc.prems(5) nf by (simp add: tk live_snoc)
      from Suc.hyps(1) [OF _ _ refl _ _ this lo1(2) Suc.prems(7)] rd show ?thesis
        using False kl Suc.hyps(2) unfolding step tk run_snoc by auto
    qed
  qed
qed

text \<open>
  C15: on a buffer whose position and length are integers of the language the engine returns, and a token is what the automaton of the
  tables accepts: the token of a final state, or else the longest accepted prefix of the characters that it can read.  The position is then at the end of the token; the engine
  raises an exception only if no prefix is accepted and asks for more characters only in a state that is not final, at the end of a buffer that is
  not the end of the file.
\<close>

theorem lexer_longest_match:
  assumes "lex_curr_pos b = rep_int (int p)" and "lex_buffer_len b = rep_int (int l)" and "p \<le> l" and "l < 2 ^ 30" and "0 \<le> q" and "q < 2 ^ 30"
  shows "\<exists>x r. lex_engine m tbl (rep_int q) b = Some x \<and> outcome_ok m tbl q (chars m b p l) r \<and> returns r p l x"
proof -
  let ?b = "b\<lparr>lex_start_pos := lex_curr_pos b, lex_last_pos := lex_curr_pos b, lex_last_action := Val_int (- 1)\<rparr>"
  have "wrap31 q = q" using assms(5,6) by (intro wrap31_in) (simp add: in_long_def)
  then have "lex_engine m tbl (rep_int q) b = lex_loop m tbl q ?b" using assms(5) by (simp add: lex_engine_def Let_def)
  moreover have "\<exists>x r. lex_loop m tbl (run m tbl q (take 0 (chars m b p l))) ?b = Some x \<and> outcome_ok m tbl q (chars m b p l) r \<and> returns r p l x"
    by (rule lex_loop_scan [where p = p]) (use assms in \<open>auto simp: pos_ok_def chars_def byte_at_def last_ok_def Val_int_minus_1\<close>)
  ultimately show ?thesis by simp
qed

text \<open>The buffer after a refill: new characters follow the old ones, the positions are kept.\<close>

definition refilled :: "val \<Rightarrow> val \<Rightarrow> val \<Rightarrow> lexer_buffer \<Rightarrow> lexer_buffer" where
  "refilled buf len eof b = b\<lparr>lex_buffer := buf, lex_buffer_len := len, lex_eof_reached := eof\<rparr>"

lemma refilled_mark: "refilled buf len eof (mark_last m tbl q b) = mark_last m tbl q (refilled buf len eof b)"
  by (simp add: refilled_def mark_last_def)

lemma refilled_fields [simp]:
  "lex_buffer (refilled buf len eof b) = buf" "lex_buffer_len (refilled buf len eof b) = len" "lex_eof_reached (refilled buf len eof b) = eof"
  "lex_curr_pos (refilled buf len eof b) = lex_curr_pos b" "refilled buf len eof (b\<lparr>lex_curr_pos := x\<rparr>) = (refilled buf len eof b)\<lparr>lex_curr_pos := x\<rparr>"
  by (simp_all add: refilled_def)

text \<open>
  The tables of an automaton with \<open>ns\<close> states and \<open>nt\<close> entries for transitions: every index that the engine computes lies inside them.
\<close>

definition tables_ok :: "mem \<Rightarrow> lexing_table \<Rightarrow> int \<Rightarrow> int \<Rightarrow> bool" where
  "tables_ok m tbl ns nt \<longleftrightarrow>
     (\<forall>q. 0 \<le> q \<and> q < ns \<longrightarrow> Short m (lex_base tbl) q + 256 < nt \<and> Short m (lex_default tbl) q < ns) \<and>
     (\<forall>i. 0 \<le> i \<and> i < nt \<longrightarrow> Short m (lex_trans tbl) i < ns)"

text \<open>Two memories with the same tables.\<close>

definition same_tables :: "mem \<Rightarrow> mem \<Rightarrow> lexing_table \<Rightarrow> int \<Rightarrow> int \<Rightarrow> bool" where
  "same_tables m m' tbl ns nt \<longleftrightarrow>
     (\<forall>q t. 0 \<le> q \<and> q < ns \<and> t \<in> {lex_base tbl, lex_backtrk tbl, lex_default tbl} \<longrightarrow> Short m' t q = Short m t q) \<and>
     (\<forall>i t. 0 \<le> i \<and> i < nt \<and> t \<in> {lex_trans tbl, lex_check tbl} \<longrightarrow> Short m' t i = Short m t i)"

lemma tables_cong:
  assumes "tables_ok m tbl ns nt" and "same_tables m m' tbl ns nt" and q: "0 \<le> q" "q < ns"
  shows "final m' tbl q = final m tbl q" "accepts m' tbl q = accepts m tbl q" "mark_last m' tbl q = mark_last m tbl q"
    and "\<not> final m tbl q \<Longrightarrow> 0 \<le> c \<Longrightarrow> c \<le> 256 \<Longrightarrow> succ m' tbl q c = succ m tbl q c \<and> succ m tbl q c < ns"
proof -
  have e: "Short m' (lex_base tbl) q = Short m (lex_base tbl) q" "Short m' (lex_backtrk tbl) q = Short m (lex_backtrk tbl) q"
    "Short m' (lex_default tbl) q = Short m (lex_default tbl) q" using assms(2) q by (auto simp: same_tables_def)
  then show "final m' tbl q = final m tbl q" "accepts m' tbl q = accepts m tbl q" "mark_last m' tbl q = mark_last m tbl q"
    by (auto simp: final_def accepts_def mark_last_def fun_eq_iff)
  show "succ m' tbl q c = succ m tbl q c \<and> succ m tbl q c < ns" if "\<not> final m tbl q" "0 \<le> c" "c \<le> 256"
  proof -
    have i: "0 \<le> Short m (lex_base tbl) q + c" "Short m (lex_base tbl) q + c < nt"
      using assms(1) q that by (force simp: tables_ok_def final_def)+
    then show ?thesis using assms(1,2) q e by (auto simp: succ_def Let_def same_tables_def tables_ok_def)
  qed
qed

lemma byte_bounds: "0 \<le> byte_at m b i" "byte_at m b i \<le> 256"
  using uint_lt2p [of "Byte_u m (lex_buffer b) (word_of_nat i)"] by (auto simp: byte_at_def)

lemma mark_last_idem: "mark_last m tbl q (mark_last m tbl q b) = mark_last m tbl q b"
  by (simp add: mark_last_def)

lemma lex_loop_marked: "\<not> final m tbl q \<Longrightarrow> lex_loop m tbl q (mark_last m tbl q b) = lex_loop m tbl q b"
  by (subst (1 2) lex_loop_step) (simp add: mark_last_idem)

lemma refill_not_final:
  assumes "lex_loop m tbl q b = Some (Inr (rep_int (- s - 1)), b')" and "0 \<le> s" and "s < 2 ^ 30"
  shows "\<not> final m tbl q"
proof
  assume f: "final m tbl q"
  have inl: "in_long (- s - 1)" using assms(2,3) by (simp add: in_long_def)
  have "rep_int (- Short m (lex_base tbl) q - 1) = rep_int (- s - 1)" using assms(1) f by (subst (asm) lex_loop_step) simp
  then show False using rep_int_inj [OF in_long_Short(3) inl] f assms(2) by (auto simp: final_def)
qed

lemma lex_loop_refill:
  assumes tb: "tables_ok m tbl ns nt" "same_tables m m' tbl ns nt" "ns \<le> 2 ^ 15"
    and "pos_ok b p l" and "lex_eof_reached b = Val_bool False" and "0 \<le> q" and "q < ns" and "- 1 \<le> a" and "in_long a" and "lex_last_action b = rep_int a"
    and "\<And>i. p \<le> i \<Longrightarrow> i < l \<Longrightarrow> Byte_u m' buf (word_of_nat i) = Byte_u m (lex_buffer b) (word_of_nat i)"
    and "lex_loop m tbl q b = Some (Inr (rep_int (- s - 1)), b')" and "l \<le> l'" and "l' < 2 ^ 30" and "0 \<le> s" and "s < 2 ^ 30"
  shows "lex_loop m' tbl q (refilled buf (rep_int (int l')) eof b) = lex_loop m' tbl s (refilled buf (rep_int (int l')) eof b')"
  using assms(4-12)
proof (induction "l - p" arbitrary: p b q a)
  case (0 p b q a)
  have inl: "in_long (- s - 1)" using assms(15,16) by (simp add: in_long_def)
  note tc = tables_cong [OF tb(1,2) "0.prems"(3,4)]
  have pl: "p = l" using "0.prems"(1) 0(1) by (simp add: pos_ok_def)
  have nf: "\<not> final m tbl q" by (rule refill_not_final [OF "0.prems"(9) assms(15,16)])
  have "pos_ok (mark_last m tbl q b) l l" using "0.prems"(1) pl by (simp add: pos_ok_def)
  then have "lex_loop m tbl q b = Some (Inr (rep_int (- q - 1)), mark_last m tbl q b)"
    using nf pos_full [of "mark_last m tbl q b" l l] "0.prems"(2) by (subst lex_loop_step) simp
  then have r: "rep_int (- q - 1) = rep_int (- s - 1)" "b' = mark_last m tbl q b" using "0.prems"(9) by simp_all
  moreover have "in_long (- q - 1)" using "0.prems"(3,4) tb(3) by (simp add: in_long_def)
  ultimately have "q = s" using rep_int_inj [OF _ inl, of "- q - 1"] by auto
  then show ?case unfolding r(2) refilled_mark using lex_loop_marked [of m' tbl q] nf tc by simp
next
  case (Suc n p b q a)
  have inl: "in_long (- s - 1)" using assms(15,16) by (simp add: in_long_def)
  note tc = tables_cong [OF tb(1,2) Suc.prems(3,4)]
  let ?b = "mark_last m tbl q b" and ?r = "refilled buf (rep_int (int l')) eof"
  have b: "p < l" "l < 2 ^ 30" "lex_curr_pos b = rep_int (int p)" using Suc.prems(1) Suc.hyps(2) by (auto simp: pos_ok_def)
  let ?c = "byte_at m b p" and ?b1 = "?b\<lparr>lex_curr_pos := rep_int (int (Suc p))\<rparr>"
  have c: "uint (Byte_u m (lex_buffer b) (Long_val (lex_curr_pos b))) = ?c" using b by (simp add: byte_at_def Long_val_pos)
  have c': "uint (Byte_u m' buf (Long_val (lex_curr_pos b))) = ?c" using b Suc.prems(8) [of p] by (simp add: byte_at_def Long_val_pos)
  have p1: "\<not> sle (lex_buffer_len b) (lex_curr_pos b)" using pos_full [OF Suc.prems(1)] b by simp
  have p2: "\<not> sle (rep_int (int l')) (lex_curr_pos b)" using b assms(13,14) by (simp add: sle_def sint_rep_int in_long_nat)
  have nf: "\<not> final m tbl q" by (rule refill_not_final [OF Suc.prems(9) assms(15,16)])
  define a' where "a' = (if accepts m tbl q then Short m (lex_backtrk tbl) q else a)"
  have a': "- 1 \<le> a'" "in_long a'" "lex_last_action ?b = rep_int a'"
    using Suc.prems(5-7) in_long_Short(1) [of m "lex_backtrk tbl" q] by (auto simp: a'_def mark_last_def accepts_def)
  have step: "lex_loop m tbl q b = (if succ m tbl q ?c < 0
       then if lex_last_action ?b = rep_int (- 1) then Some (Inl ''lexing: empty token'', ?b1\<lparr>lex_curr_pos := lex_last_pos ?b\<rparr>)
            else Some (Inr (lex_last_action ?b), ?b1\<lparr>lex_curr_pos := lex_last_pos ?b\<rparr>)
       else lex_loop m tbl (succ m tbl q ?c) ?b1)"
    using nf p1 c byte_range [of m b p] by (subst lex_loop_step) (simp add: Let_def pos_next [symmetric] b(3) [symmetric] del: of_nat_Suc)
  have ge: "0 \<le> succ m tbl q ?c"
  proof (rule ccontr)
    assume "\<not> 0 \<le> succ m tbl q ?c"
    then have "rep_int a' \<noteq> rep_int (- 1)" "rep_int a' = rep_int (- s - 1)" using Suc.prems(9) unfolding step a'(3) by (auto split: if_splits)
    then show False using rep_int_inj [OF a'(2) inl] a'(1) assms(15) by (cases "a' = - 1") auto
  qed
  have sc: "succ m' tbl q ?c = succ m tbl q ?c" "succ m tbl q ?c < ns" using tc(4) [OF nf byte_bounds] by blast+
  have "lex_loop m' tbl q (?r b) = lex_loop m' tbl (succ m tbl q ?c) (?r ?b1)"
    using nf p2 c' ge byte_range [of m b p] tc(1-3) sc(1) by (subst lex_loop_step) (simp add: Let_def refilled_mark pos_next [symmetric] b(3) [symmetric] del: of_nat_Suc)
  moreover have "lex_loop m' tbl (succ m tbl q ?c) (?r ?b1) = lex_loop m' tbl s (?r b')"
  proof (rule Suc.hyps(1) [where a = a'])
    show "n = l - Suc p" using Suc.hyps(2) by simp
    show "pos_ok ?b1 (Suc p) l" using Suc.prems(1) b by (simp add: pos_ok_def del: of_nat_Suc)
    show "succ m tbl q ?c < ns" by (rule sc(2))
    show "lex_loop m tbl (succ m tbl q ?c) ?b1 = Some (Inr (rep_int (- s - 1)), b')" using Suc.prems(9) ge unfolding step by simp
  qed (use Suc.prems a' ge in \<open>simp_all del: of_nat_Suc\<close>)
  ultimately show ?case by simp
qed

text \<open>
  C16: refilling is transparent.  When the engine asks for more characters and is called again with the value it returned, after
  characters were added to the buffer, which may have been moved, and the memory has changed in any way that leaves the tables and the characters that
  were still to be read, it does what it would have done if these characters had been in the buffer when it was first called.
\<close>

theorem lexer_refill:
  assumes "tables_ok m tbl ns nt" and "same_tables m m' tbl ns nt" and "ns \<le> 2 ^ 15"
    and "lex_curr_pos b = rep_int (int p)" and "lex_buffer_len b = rep_int (int l)" and "p \<le> l" and "lex_eof_reached b = Val_bool False" and "0 \<le> q" and "q < ns"
    and "\<And>i. p \<le> i \<Longrightarrow> i < l \<Longrightarrow> Byte_u m' buf (word_of_nat i) = Byte_u m (lex_buffer b) (word_of_nat i)" and "l \<le> l'" and "l' < 2 ^ 30"
    and "lex_engine m tbl (rep_int q) b = Some (Inr (rep_int (- s - 1)), b')" and "0 \<le> s" and "s < 2 ^ 30"
  shows "lex_engine m' tbl (rep_int (- s - 1)) (refilled buf (rep_int (int l')) eof b') = lex_engine m' tbl (rep_int q) (refilled buf (rep_int (int l')) eof b)"
proof -
  let ?i = "\<lambda>b. b\<lparr>lex_start_pos := lex_curr_pos b, lex_last_pos := lex_curr_pos b, lex_last_action := Val_int (- 1)\<rparr>"
  have w: "wrap31 q = q" "wrap31 (- s - 1) = - s - 1" using assms(3,8,9,14,15) by (simp_all add: wrap31_in in_long_def)
  have e: "lex_engine m'' tbl (rep_int q) b'' = lex_loop m'' tbl q (?i b'')" for m'' b'' using w assms(8) by (simp add: lex_engine_def Let_def)
  have "lex_loop m' tbl q (refilled buf (rep_int (int l')) eof (?i b)) = lex_loop m' tbl s (refilled buf (rep_int (int l')) eof b')"
    by (rule lex_loop_refill [where a = "- 1" and p = p and l = l and m = m and ns = ns and nt = nt]) (use assms e in \<open>auto simp: pos_ok_def Val_int_minus_1 in_long_def\<close>)
  moreover have "refilled buf (rep_int (int l')) eof (?i b) = ?i (refilled buf (rep_int (int l')) eof b)" by (simp add: refilled_def)
  ultimately show ?thesis unfolding e using w assms(14) by (simp add: lex_engine_def Let_def)
qed

section \<open>Instances\<close>

text \<open>
  A table in a memory: the automaton of the pattern \<open>a+\<close> as the generator lays it out, with the base table at 1024 (states 0 and 1), the backtrack table at 1032,
  the default table at 1040, and the transitions and their checks at 2048 and 4096.
\<close>

definition lex_mem :: mem where
  "lex_mem a =
     (if a = 1024 then 0x00010000 else if a = 1032 then 0x0000FFFF else if a = 1040 then 0xFFFFFFFF
      else if a = 2048 + 192 then 0x00010000 else if a = 4096 + 192 then 0x0000FFFF else if a = 4096 + 196 then 0xFFFF0001
      else if 2048 \<le> a \<and> a < 4096 then 0x00010001 else if 4096 \<le> a \<and> a < 6144 then 0xFFFFFFFF
      else if a = 8192 then 0x62616161 else 0)"

definition lex_tbl :: lexing_table where
  "lex_tbl = \<lparr>lex_base = 1024, lex_backtrk = 1032, lex_default = 1040, lex_trans = 2048, lex_check = 4096\<rparr>"

definition lex_buf :: "nat \<Rightarrow> lexer_buffer" where
  "lex_buf l = \<lparr>refill_buff = 1, lex_buffer = 8192, lex_buffer_len = rep_int (int l), lex_abs_pos = 1, lex_start_pos = 1, lex_curr_pos = rep_int 0,
     lex_last_pos = 1, lex_last_action = 1, lex_eof_reached = Val_bool False\<rparr>"

theorem lexer_longest_match_witness:
  "\<exists>x r. lex_engine lex_mem lex_tbl (rep_int 0) (lex_buf 4) = Some x \<and> outcome_ok lex_mem lex_tbl 0 (chars lex_mem (lex_buf 4) 0 4) r \<and> returns r 0 4 x"
  using lexer_longest_match [of "lex_buf 4" 0 4 0 lex_mem lex_tbl] by (simp add: lex_buf_def)

text \<open>The memory before the last two of the four characters are read into the buffer.\<close>

definition lex_mem0 :: mem where "lex_mem0 = lex_mem(8192 := 0x00006161)"

definition lex_buf2 :: lexer_buffer where
  "lex_buf2 = (lex_buf 2)\<lparr>lex_start_pos := rep_int 0, lex_curr_pos := rep_int 2, lex_last_pos := rep_int 2, lex_last_action := rep_int 0\<rparr>"

lemma lex_first_part: "lex_engine lex_mem0 lex_tbl (rep_int 0) (lex_buf 2) = Some (Inr (rep_int (- 1 - 1)), lex_buf2)"
  by code_simp

lemma table_word:
  fixes a :: uint32
  shows "unat (a AND NOT 3) = 4 * (unat a div 4)" and "unat (a AND 3) = unat a mod 4"
proof -
  have "a AND NOT 3 = push_bit 2 (drop_bit 2 a)"
  proof (rule bit_word_eqI)
    fix n assume "n < LENGTH(32)"
    moreover have "Suc (Suc (n - 2)) = n" if "\<not> n < 2" using that by simp
    ultimately show "bit (a AND NOT 3) n = bit (push_bit 2 (drop_bit 2 a)) n"
      by (cases "n < 2") (simp_all add: bit_simps bit_consts)
  qed
  then show "unat (a AND NOT 3) = 4 * (unat a div 4)"
    using unat32_lt [of a] by (simp add: push_bit_eq_mult unat_word_ariths unat_drop_bit)
  show "unat (a AND 3) = unat a mod 4" using unat_take_bit [of 2 a] by (simp add: take_bit_eq_mask mask_numeral)
qed

lemma table_address:
  assumes "0 \<le> i" and "i < 1024" and "unat t \<le> 4096"
  shows "unat (t + word_of_int (2 * i) :: uint32) = unat t + 2 * nat i"
proof -
  have "word_of_int (2 * i) = (word_of_nat (2 * nat i) :: uint32)" using assms(1) by (simp add: of_nat_nat)
  moreover have "unat (word_of_nat (2 * nat i) :: uint32) = 2 * nat i" using assms(2) by (intro unat_word_of_nat_small) simp
  ultimately show ?thesis using assms by (simp add: unat_word_ariths)
qed

lemma lex_same_tables: "same_tables lex_mem0 lex_mem lex_tbl 2 258"
proof -
  have "Short lex_mem t n = Short lex_mem0 t n" if "t \<in> {1024, 1032, 1040, 2048, 4096}" "0 \<le> n" "n < 1024" for t n
  proof -
    have "unat t \<le> 4096" using that(1) by auto
    then have "unat ((t + word_of_int (2 * n)) AND NOT 3) < 8192"
      unfolding table_word(1) table_address [OF that(2,3) \<open>unat t \<le> 4096\<close>] using that(3) by simp
    then have "(t + word_of_int (2 * n)) AND NOT 3 \<noteq> 8192" by auto
    then show ?thesis by (simp add: Short_def lex_mem0_def Let_def)
  qed
  then show ?thesis by (auto simp: same_tables_def lex_tbl_def)
qed

lemma lex_trans_entries:
  assumes "0 \<le> i" and "i < 1024"
  shows "Short lex_mem0 2048 i < 2"
proof -
  let ?a = "2048 + word_of_int (2 * i) :: uint32"
  have u: "unat ?a = 2048 + 2 * nat i" using table_address [OF assms, of 2048] by simp
  have "2048 \<le> unat (?a AND NOT 3)" "unat (?a AND NOT 3) < 4096" unfolding table_word(1) u using assms(2) by auto
  then have "2048 \<le> ?a AND NOT 3" "?a AND NOT 3 < 4096" by (simp_all add: word_le_nat_alt word_less_nat_alt)
  then have w: "lex_mem0 (?a AND NOT 3) \<in> {0x00010000, 0x00010001}" by (auto simp: lex_mem0_def lex_mem_def)
  have "(2048 + 2 * k) mod 4 = 0 \<or> (2048 + 2 * k) mod 4 = 2" for k :: nat by presburger
  then have "unat (?a AND 3) = 0 \<or> unat (?a AND 3) = 2" unfolding table_word(2) u .
  then show ?thesis using w by (elim disjE insertE emptyE) (simp_all add: Short_def Let_def)
qed

lemma lex_tables_ok: "tables_ok lex_mem0 lex_tbl 2 258"
proof -
  have "list_all (\<lambda>q. Short lex_mem0 1024 q + 256 < 258 \<and> Short lex_mem0 1040 q < 2) [0, 1]" by code_simp
  moreover have "q = 0 \<or> q = 1" if "0 \<le> q" "q < 2" for q :: int using that by auto
  ultimately show ?thesis using lex_trans_entries by (auto simp: tables_ok_def lex_tbl_def)
qed

theorem lexer_refill_witness:
  "lex_engine lex_mem lex_tbl (rep_int (- 2)) (refilled 8192 (rep_int 4) (Val_bool False) lex_buf2) =
   lex_engine lex_mem lex_tbl (rep_int 0) (refilled 8192 (rep_int 4) (Val_bool False) (lex_buf 2))"
proof -
  have "Byte_u lex_mem 8192 (word_of_nat i) = Byte_u lex_mem0 8192 (word_of_nat i)" if "i < 2" for i
  proof -
    have "list_all (\<lambda>i. Byte_u lex_mem 8192 (word_of_nat i) = Byte_u lex_mem0 8192 (word_of_nat i)) [0, 1]" by code_simp
    then show ?thesis using that by (auto simp: less_2_cases_iff)
  qed
  then show ?thesis
    using lexer_refill [OF lex_tables_ok lex_same_tables _ _ _ _ _ _ _ _ _ _ lex_first_part, of 0 2 8192 4 "Val_bool False"]
    by (simp add: lex_buf_def)
qed

end
