(* ===== verification/Parsing.thy ===== *)
theory Parsing
  imports Lexing
begin



abbreviation (input) Ival :: "val \<Rightarrow> int" where "Ival v \<equiv> sint (Int_val v)"

















section \<open>The LR automaton\<close>









section \<open>The environment as a configuration\<close>





section \<open>Correctness\<close>

lemma rep_Ival [simp]: "in_long i \<Longrightarrow> Ival (rep_int i) = i"
  by (simp add: wrap31_in)






































section \<open>An instance\<close>










end
