(* ===== verification/Yacc_Closure.thy ===== *)
theory Yacc_Closure
  imports Prelude
begin

text \<open>
  The closure of LR(0) item sets in the parser generator (\<^verbatim>\<open>yacc/warshall.c\<close>, \<^verbatim>\<open>yacc/closure.c\<close>): Warshall's algorithm on a matrix of bits packed in words, in place;
  the relation between a variable and the variables that its derivations can start with; the rules that such derivations can start with;
  and the closure of a set of items as a merge with the items at the start of these rules.  Arrays of words are functions from the index, a pointer into one is an index.
\<close>

section \<open>Bit matrices\<close>

type_synonym words = "nat \<Rightarrow> uint32"

definition BITS_PER_WORD :: nat where "BITS_PER_WORD = 32"

definition WORDSIZE :: "nat \<Rightarrow> nat" where "WORDSIZE n = (n + (BITS_PER_WORD - 1)) div BITS_PER_WORD"

definition BIT :: "words \<Rightarrow> nat \<Rightarrow> nat \<Rightarrow> bool" where
  "BIT m r n \<longleftrightarrow> drop_bit (n mod BITS_PER_WORD) (m (r + n div BITS_PER_WORD)) AND 1 \<noteq> 0"

definition SETBIT :: "words \<Rightarrow> nat \<Rightarrow> nat \<Rightarrow> words" where
  "SETBIT m r n = m(r + n div BITS_PER_WORD := m (r + n div BITS_PER_WORD) OR push_bit (n mod BITS_PER_WORD) 1)"

primrec or_row :: "words \<Rightarrow> nat \<Rightarrow> nat \<Rightarrow> nat \<Rightarrow> words" where
  "or_row m rowj rp 0 = m"
| "or_row m rowj rp (Suc k) = or_row (m(rowj := m rowj OR m rp)) (Suc rowj) (Suc rp) k"

text \<open>The inner loop over the \<open>k\<close> rows that are left, and the outer one over the columns.\<close>

primrec closure_rows :: "words \<Rightarrow> nat \<Rightarrow> nat \<Rightarrow> nat \<Rightarrow> uint32 \<Rightarrow> nat \<Rightarrow> nat \<Rightarrow> words" where
  "closure_rows m rowi rowj ccol msk rowsize 0 = m"
| "closure_rows m rowi rowj ccol msk rowsize (Suc k) =
     closure_rows (if m ccol AND msk \<noteq> 0 then or_row m rowj rowi rowsize else m) rowi (rowj + rowsize) (ccol + rowsize) msk rowsize k"

primrec closure_cols :: "words \<Rightarrow> nat \<Rightarrow> nat \<Rightarrow> nat \<Rightarrow> uint32 \<Rightarrow> nat \<Rightarrow> nat \<Rightarrow> nat \<Rightarrow> words" where
  "closure_cols m R rowi cword msk rowsize n 0 = m"
| "closure_cols m R rowi cword msk rowsize n (Suc k) =
     (let m = closure_rows m rowi R cword msk rowsize n; msk = push_bit 1 msk
      in if msk = 0 then closure_cols m R (rowi + rowsize) (cword + 1) 1 rowsize n k
         else closure_cols m R (rowi + rowsize) cword msk rowsize n k)"

definition transitive_closure :: "words \<Rightarrow> nat \<Rightarrow> nat \<Rightarrow> words" where
  "transitive_closure m R n = closure_cols m R R R 1 (WORDSIZE n) n n"

primrec diagonal :: "words \<Rightarrow> nat \<Rightarrow> uint32 \<Rightarrow> nat \<Rightarrow> nat \<Rightarrow> words" where
  "diagonal m rp msk rowsize 0 = m"
| "diagonal m rp msk rowsize (Suc k) =
     (let m = m(rp := m rp OR msk); msk = push_bit 1 msk
      in if msk = 0 then diagonal m (rp + 1 + rowsize) 1 rowsize k else diagonal m (rp + rowsize) msk rowsize k)"

definition reflexive_transitive_closure :: "words \<Rightarrow> nat \<Rightarrow> nat \<Rightarrow> words" where
  "reflexive_transitive_closure m R n = diagonal (transitive_closure m R n) R 1 (WORDSIZE n) n"

subsection \<open>The relation of a matrix\<close>

lemma BIT_bit: "BIT m r n \<longleftrightarrow> bit (m (r + n div 32)) (n mod 32)"
  by (simp add: BIT_def BITS_PER_WORD_def and_one_eq odd_iff_mod_2_eq_one [symmetric] flip: bit_iff_odd_drop_bit)

definition rel :: "words \<Rightarrow> nat \<Rightarrow> nat \<Rightarrow> (nat \<times> nat) set" where
  "rel m R n = {(i, j). i < n \<and> j < n \<and> BIT m (R + i * WORDSIZE n) j}"

lemma rel_iff: "i < n \<Longrightarrow> j < n \<Longrightarrow> (i, j) \<in> rel m R n \<longleftrightarrow> bit (m (R + i * WORDSIZE n + j div 32)) (j mod 32)"
  by (simp add: rel_def BIT_bit)

lemma word_in_row: "j < n \<Longrightarrow> j div 32 < WORDSIZE n"
  by (simp add: WORDSIZE_def BITS_PER_WORD_def)

lemma row_inj:
  fixes i i' s t t' :: nat
  assumes "R + i * s + t = R + i' * s + t'" and "t < s" and "t' < s"
  shows "i = i' \<and> t = t'"
proof -
  have e: "i * s + t = i' * s + t'" using assms(1) by simp
  have "(i * s + t) div s = i" "(i' * s + t') div s = i'" "(i * s + t) mod s = t" "(i' * s + t') mod s = t'" using assms(2,3) by simp_all
  then show ?thesis unfolding e by simp
qed

lemma or_row_words:
  assumes "rp = rowj \<or> rowj + k \<le> rp \<or> rp + k \<le> rowj"
  shows "or_row m rowj rp k a = (if rowj \<le> a \<and> a < rowj + k then m a OR m (rp + (a - rowj)) else m a)"
  using assms
proof (induction k arbitrary: m rowj rp)
  case (Suc k)
  have "or_row (m(rowj := m rowj OR m rp)) (Suc rowj) (Suc rp) k a =
      (if Suc rowj \<le> a \<and> a < Suc rowj + k then (m(rowj := m rowj OR m rp)) a OR (m(rowj := m rowj OR m rp)) (Suc rp + (a - Suc rowj)) else (m(rowj := m rowj OR m rp)) a)"
    by (rule Suc.IH) (use Suc.prems in auto)
  then show ?case using Suc.prems by (cases "a = rowj") (auto simp: Suc_diff_le Suc_diff_Suc)
qed auto

lemma mask_bit: "b < 32 \<Longrightarrow> w AND push_bit b 1 \<noteq> 0 \<longleftrightarrow> bit w b" for w :: uint32
  by (simp add: bit_iff_and_push_bit_not_eq_0)

text \<open>After the inner loop for row \<open>i\<close> and the column in word \<open>w\<close>, bit \<open>b\<close>.\<close>

lemma closure_rows_words:
  assumes "w < s" and "b < 32" and "i < n" and "j + k = n" and "i' < n" and "t < s"
  shows "closure_rows m (R + i * s) (R + j * s) (R + j * s + w) (push_bit b 1) s k (R + i' * s + t) =
    (if j \<le> i' \<and> bit (m (R + i' * s + w)) b then m (R + i' * s + t) OR m (R + i * s + t) else m (R + i' * s + t))"
  using assms(4)
proof (induction k arbitrary: m j)
  case (Suc k)
  define m1 where "m1 = (if bit (m (R + j * s + w)) b then or_row m (R + j * s) (R + i * s) s else m)"
  have ap: "R + i * s = R + j * s \<or> R + j * s + s \<le> R + i * s \<or> R + i * s + s \<le> R + j * s"
    using linorder_less_linear [of i j] mult_le_mono1 [of "Suc i" j s] mult_le_mono1 [of "Suc j" i s] by auto
  have row: "m1 (R + r * s + u) = (if r = j \<and> bit (m (R + j * s + w)) b then m (R + r * s + u) OR m (R + i * s + u) else m (R + r * s + u))" if "u < s" for r u
  proof -
    have "R + j * s \<le> R + r * s + u \<and> R + r * s + u < R + j * s + s \<longleftrightarrow> r = j"
      using that linorder_less_linear [of r j] mult_le_mono1 [of "Suc r" j s] mult_le_mono1 [of "Suc j" r s] by auto
    then show ?thesis by (auto simp: m1_def or_row_words [OF ap])
  qed
  have ri: "m1 (R + i * s + t) = m (R + i * s + t)" using row [OF assms(6), of i] by simp
  have "closure_rows m (R + i * s) (R + j * s) (R + j * s + w) (push_bit b 1) s (Suc k) =
      closure_rows m1 (R + i * s) (R + Suc j * s) (R + Suc j * s + w) (push_bit b 1) s k"
    using mask_bit [OF assms(2)] by (simp add: m1_def algebra_simps)
  then have "closure_rows m (R + i * s) (R + j * s) (R + j * s + w) (push_bit b 1) s (Suc k) (R + i' * s + t) =
      (if Suc j \<le> i' \<and> bit (m1 (R + i' * s + w)) b then m1 (R + i' * s + t) OR m1 (R + i * s + t) else m1 (R + i' * s + t))"
    using Suc.IH [of "Suc j" m1] Suc.prems by simp
  then show ?case using row [OF assms(6), of i'] row [OF assms(1), of i'] ri by (cases "i' = j") simp_all
qed (use assms(5) in simp)

subsection \<open>Warshall's invariant\<close>

text \<open>The pairs that are connected by a path whose inner nodes are less than \<open>k\<close>.\<close>

primrec via :: "(nat \<times> nat) set \<Rightarrow> nat \<Rightarrow> (nat \<times> nat) set" where
  "via r 0 = r"
| "via r (Suc k) = via r k \<union> {(x, y). (x, k) \<in> via r k \<and> (k, y) \<in> via r k}"

lemma via_trancl: "via r k \<subseteq> r\<^sup>+"
  by (induction k) (auto intro: trancl_trans)

lemma via_mono: "r \<subseteq> via r k"
  by (induction k) auto

lemma via_join: "(x, z) \<in> via r k \<Longrightarrow> (z, y) \<in> via r k \<Longrightarrow> z < k \<Longrightarrow> (x, y) \<in> via r k"
proof (induction k arbitrary: x y z)
  case (Suc k)
  show ?case
  proof (cases "z = k")
    case True
    then show ?thesis using Suc.prems by auto
  next
    case False
    then have "z < k" using Suc.prems(3) by simp
    then show ?thesis using Suc.prems(1,2) Suc.IH by auto
  qed
qed simp

lemma via_all:
  assumes "r \<subseteq> {..<n} \<times> {..<n}"
  shows "via r n = r\<^sup>+"
proof
  show "r\<^sup>+ \<subseteq> via r n"
  proof (rule subrelI)
    fix x y assume "(x, y) \<in> r\<^sup>+"
    then show "(x, y) \<in> via r n"
    proof (induction rule: trancl_induct)
      case (base y)
      then show ?case using via_mono by blast
    next
      case (step y z)
      then show ?case using via_join [of x y r n z] via_mono assms by blast
    qed
  qed
qed (rule via_trancl)

definition bitmask :: "nat \<Rightarrow> uint32" where "bitmask i = push_bit (i mod 32) 1"

lemma bit_bitmask: "bit (bitmask i) b \<longleftrightarrow> b = i mod 32"
proof -
  have "bit (bitmask i) b \<longleftrightarrow> i mod 32 \<le> b \<and> b < 32 \<and> b - i mod 32 = 0" by (simp only: bitmask_def bit_push_bit_iff bit_1_iff) auto
  then show ?thesis by auto
qed

lemma next_mask: "push_bit 1 (bitmask i) = (if Suc i mod 32 = 0 then 0 else bitmask (Suc i))"
proof (rule bit_word_eqI)
  fix b assume "b < LENGTH(32)"
  then show "bit (push_bit 1 (bitmask i)) b = bit (if Suc i mod 32 = 0 then 0 else bitmask (Suc i)) b"
    by (auto simp only: bit_push_bit_iff bit_bitmask mod_Suc split: if_splits) auto
qed

lemma bitmask_start: "bitmask 0 = 1" "Suc i mod 32 = 0 \<Longrightarrow> bitmask (Suc i) = 1"
  by (simp_all add: bitmask_def)

lemma next_word: "Suc i div 32 = (if Suc i mod 32 = 0 then i div 32 + 1 else i div 32)"
  by (simp add: div_Suc)

lemma bitmask_nonzero: "bitmask i \<noteq> 0"
  using bit_bitmask [of i "i mod 32"] by auto

lemma closure_cols_step:
  "closure_cols m R rowi (R + i div 32) (bitmask i) s n (Suc k) =
   closure_cols (closure_rows m rowi R (R + i div 32) (bitmask i) s n) R (rowi + s) (R + Suc i div 32) (bitmask (Suc i)) s n k"
  unfolding closure_cols.simps(2) Let_def next_mask next_word using bitmask_start(2) [of i] bitmask_nonzero [of "Suc i"] by auto

lemma diagonal_step:
  "diagonal m (a + i div 32) (bitmask i) s (Suc k) = diagonal (m(a + i div 32 := m (a + i div 32) OR bitmask i)) (a + s + Suc i div 32) (bitmask (Suc i)) s k"
  unfolding diagonal.simps(2) Let_def next_mask next_word using bitmask_start(2) [of i] bitmask_nonzero [of "Suc i"] by (auto simp: ac_simps)

lemma closure_cols_rel:
  assumes "i + k = n" and "rel m R n = via r i"
  shows "rel (closure_cols m R (R + i * WORDSIZE n) (R + i div 32) (bitmask i) (WORDSIZE n) n k) R n = via r n"
  using assms
proof (induction k arbitrary: i m)
  case (Suc k)
  let ?s = "WORDSIZE n"
  have i: "i < n" using Suc.prems(1) by simp
  define m1 where "m1 = closure_rows m (R + i * ?s) R (R + i div 32) (bitmask i) ?s n"
  have w: "m1 (R + i' * ?s + t) = (if bit (m (R + i' * ?s + i div 32)) (i mod 32) then m (R + i' * ?s + t) OR m (R + i * ?s + t) else m (R + i' * ?s + t))"
    if "i' < n" "t < ?s" for i' t
    using closure_rows_words [OF word_in_row [OF i] _ i, of "i mod 32" 0 n i' t m R] that by (simp add: m1_def bitmask_def)
  have "(x, y) \<in> rel m1 R n \<longleftrightarrow> (x, y) \<in> rel m R n \<or> (x, i) \<in> rel m R n \<and> (i, y) \<in> rel m R n" for x y
  proof (cases "x < n \<and> y < n")
    case True
    then show ?thesis using w [of x "y div 32"] word_in_row [of y n] i by (auto simp: rel_iff bit_or_iff)
  next
    case False
    then show ?thesis by (auto simp: rel_def)
  qed
  then have r1: "rel m1 R n = via r (Suc i)" unfolding Suc.prems(2) [symmetric] via.simps(2) by auto
  note ih = Suc.IH [of "Suc i" m1, OF _ r1]
  show ?case using ih Suc.prems(1) unfolding closure_cols_step m1_def [symmetric] by (simp add: ac_simps)
qed simp

lemma transitive_closure_rel: "rel (transitive_closure m R n) R n = (rel m R n)\<^sup>+"
proof -
  have "rel m R n \<subseteq> {..<n} \<times> {..<n}" by (auto simp: rel_def)
  then show ?thesis using closure_cols_rel [of 0 n n m R "rel m R n"] via_all [of "rel m R n" n] by (simp add: transitive_closure_def bitmask_start)
qed

lemma diagonal_rel:
  assumes "i + k = n"
  shows "rel (diagonal m (R + i * WORDSIZE n + i div 32) (bitmask i) (WORDSIZE n) k) R n = rel m R n \<union> {(x, x) | x. i \<le> x \<and> x < n}"
  using assms
proof (induction k arbitrary: i m)
  case (Suc k)
  let ?s = "WORDSIZE n" and ?a = "R + i * WORDSIZE n + i div 32"
  have i: "i < n" using Suc.prems(1) by simp
  define m1 where "m1 = m(?a := m ?a OR bitmask i)"
  have "(x, y) \<in> rel m1 R n \<longleftrightarrow> (x, y) \<in> rel m R n \<or> x = i \<and> y = i" for x y
  proof (cases "x < n \<and> y < n")
    case True
    have "R + x * ?s + y div 32 = ?a \<longleftrightarrow> x = i \<and> y div 32 = i div 32"
      using row_inj [of R x ?s "y div 32" i "i div 32"] word_in_row [of y n] word_in_row [OF i] True by auto
    moreover have "y = i \<longleftrightarrow> y div 32 = i div 32 \<and> y mod 32 = i mod 32" by (metis div_mult_mod_eq)
    ultimately show ?thesis using True i by (auto simp: rel_iff m1_def bit_or_iff bit_bitmask)
  next
    case False
    then show ?thesis using i by (auto simp: rel_def)
  qed
  then have r1: "rel m1 R n = insert (i, i) (rel m R n)" by auto
  note ih = Suc.IH [of "Suc i" m1]
  have e: "insert (i, i) (rel m R n) \<union> {(x, x) | x. Suc i \<le> x \<and> x < n} = rel m R n \<union> {(x, x) | x. i \<le> x \<and> x < n}" using i by (auto simp: Suc_le_eq le_less)
  show ?case using ih r1 e Suc.prems(1) unfolding diagonal_step m1_def [symmetric] by (simp add: ac_simps)
qed auto

lemma reflexive_transitive_closure_rel: "rel (reflexive_transitive_closure m R n) R n = (rel m R n)\<^sup>* \<inter> {..<n} \<times> {..<n}"
proof -
  have "rel (reflexive_transitive_closure m R n) R n = (rel m R n)\<^sup>+ \<union> {(x, x) | x. x < n}"
    using diagonal_rel [of 0 n n "transitive_closure m R n" R] by (simp add: reflexive_transitive_closure_def transitive_closure_rel bitmask_start)
  moreover have "(rel m R n)\<^sup>+ \<subseteq> {..<n} \<times> {..<n}" by (rule trancl_subset_Sigma) (auto simp: rel_def)
  ultimately show ?thesis by (auto simp: rtrancl_eq_or_trancl)
qed

section \<open>Rules and item sets\<close>

text \<open>
  A grammar as \<^verbatim>\<open>reader.c\<close> packs it: symbols are numbers, the tokens first; \<open>ritem\<close> holds the right-hand sides one after the other, each followed by a negative number, \<open>rrhs\<close> where
  that of a rule starts and \<open>rlhs\<close> its left-hand side.  An item is an index into \<open>ritem\<close>.
  The three arrays have shorts in them; that a grammar is small enough for what the reader stores there is a hypothesis of the theorems on the automaton (\<open>short_grammar\<close> of \<^verbatim>\<open>Yacc_LR0\<close>).  The
  routines here only copy items from one array of shorts to another.
\<close>

record grammar =
  nsyms :: nat
  ntokens :: nat
  nvars :: nat
  start_symbol :: nat
  nrules :: nat
  nitems :: nat
  rlhs :: "nat \<Rightarrow> int"
  rrhs :: "nat \<Rightarrow> nat"
  ritem :: "nat \<Rightarrow> int"

definition ISVAR :: "grammar \<Rightarrow> int \<Rightarrow> bool" where "ISVAR g s \<longleftrightarrow> int (start_symbol g) \<le> s"

text \<open>\<open>derives[lhs]\<close>: the rules for a variable, with the \<open>-1\<close> that ends them.\<close>

definition set_derives :: "grammar \<Rightarrow> nat \<Rightarrow> int list" where
  "set_derives g lhs = map int (filter (\<lambda>i. rlhs g i = int lhs) [0..<nrules g]) @ [- 1]"

fun eff_rules :: "grammar \<Rightarrow> words \<Rightarrow> nat \<Rightarrow> int list \<Rightarrow> words" where
  "eff_rules g m row [] = m"
| "eff_rules g m row (rule # sp) =
     (if 0 < rule
      then let symbol = ritem g (rrhs g (nat rule))
           in eff_rules g (if ISVAR g symbol then SETBIT m row (nat symbol - start_symbol g) else m) row sp
      else m)"

primrec eff_rows :: "grammar \<Rightarrow> words \<Rightarrow> nat \<Rightarrow> nat \<Rightarrow> nat \<Rightarrow> words" where
  "eff_rows g m row i 0 = m"
| "eff_rows g m row i (Suc k) = eff_rows g (eff_rules g m row (set_derives g i)) (row + WORDSIZE (nvars g)) (Suc i) k"

definition set_EFF :: "grammar \<Rightarrow> words" where
  "set_EFF g = reflexive_transitive_closure (eff_rows g (\<lambda>_. 0) 0 (start_symbol g) (nsyms g - start_symbol g)) 0 (nvars g)"

fun mark_rules :: "words \<Rightarrow> nat \<Rightarrow> int list \<Rightarrow> words" where
  "mark_rules m rrow [] = m"
| "mark_rules m rrow (rule # rp) = (if 0 \<le> rule then mark_rules (SETBIT m rrow (nat rule)) rrow rp else m)"

text \<open>The loop over the variables \<open>j\<close>: \<open>cword\<close> and \<open>msk\<close> walk over the row of \<open>EFF\<close>, from which \<open>vrow\<close> takes the next word.\<close>

primrec first_vars :: "grammar \<Rightarrow> words \<Rightarrow> words \<Rightarrow> nat \<Rightarrow> nat \<Rightarrow> uint32 \<Rightarrow> uint32 \<Rightarrow> nat \<Rightarrow> nat \<Rightarrow> words" where
  "first_vars g eff m rrow vrow cword msk j 0 = m"
| "first_vars g eff m rrow vrow cword msk j (Suc k) =
     (let m = (if cword AND msk \<noteq> 0 then mark_rules m rrow (set_derives g j) else m); msk = push_bit 1 msk
      in if msk = 0 then first_vars g eff m rrow (vrow + 1) (eff vrow) 1 (Suc j) k
         else first_vars g eff m rrow vrow cword msk (Suc j) k)"

primrec first_rows :: "grammar \<Rightarrow> words \<Rightarrow> words \<Rightarrow> nat \<Rightarrow> nat \<Rightarrow> nat \<Rightarrow> words" where
  "first_rows g eff m rrow i 0 = m"
| "first_rows g eff m rrow i (Suc k) =
     (let vrow = (i - ntokens g) * WORDSIZE (nvars g);
          m = first_vars g eff m rrow (vrow + 1) (eff vrow) 1 (start_symbol g) (nsyms g - start_symbol g)
      in first_rows g eff m (rrow + WORDSIZE (nrules g)) (Suc i) k)"

text \<open>The pointer \<open>first_derives\<close> is set back so that a symbol indexes it; here the rows are indexed by the number of the variable.\<close>

definition set_first_derives :: "grammar \<Rightarrow> words" where
  "set_first_derives g = first_rows g (set_EFF g) (\<lambda>_. 0) 0 (start_symbol g) (nsyms g - start_symbol g)"

primrec or_from :: "words \<Rightarrow> nat \<Rightarrow> words \<Rightarrow> nat \<Rightarrow> nat \<Rightarrow> words" where
  "or_from m rsp fd dsp 0 = m"
| "or_from m rsp fd dsp (Suc k) = or_from (m(rsp := m rsp OR fd dsp)) (Suc rsp) fd (Suc dsp) k"

primrec add_rules :: "grammar \<Rightarrow> words \<Rightarrow> words \<Rightarrow> nat list \<Rightarrow> words" where
  "add_rules g fd m [] = m"
| "add_rules g fd m (csp # cs) =
     (let symbol = ritem g csp
      in add_rules g fd (if ISVAR g symbol then or_from m 0 fd ((nat symbol - ntokens g) * WORDSIZE (nrules g)) (WORDSIZE (nrules g)) else m) cs)"

text \<open>The loop over the bits of a word: \<open>csp\<close> are the items of the nucleus that are left, \<open>its\<close> the item set so far.\<close>

primrec scan_word :: "grammar \<Rightarrow> uint32 \<Rightarrow> uint32 \<Rightarrow> nat \<Rightarrow> nat list \<Rightarrow> nat list \<Rightarrow> nat \<Rightarrow> nat list \<times> nat list" where
  "scan_word g word msk ruleno csp its 0 = (csp, its)"
| "scan_word g word msk ruleno csp its (Suc k) =
     (let (csp, its) =
        (if word AND msk \<noteq> 0
         then let itemno = rrhs g ruleno; rest = dropWhile (\<lambda>i. i < itemno) csp
              in (dropWhile (\<lambda>i. i = itemno) rest, its @ takeWhile (\<lambda>i. i < itemno) csp @ [itemno])
         else (csp, its))
      in scan_word g word (push_bit 1 msk) (ruleno + 1) csp its k)"

primrec scan_rules :: "grammar \<Rightarrow> words \<Rightarrow> nat \<Rightarrow> nat \<Rightarrow> nat list \<Rightarrow> nat list \<Rightarrow> nat \<Rightarrow> nat list \<times> nat list" where
  "scan_rules g rs rsp ruleno csp its 0 = (csp, its)"
| "scan_rules g rs rsp ruleno csp its (Suc k) =
     (let (csp, its) = (if rs rsp = 0 then (csp, its) else scan_word g (rs rsp) 1 ruleno csp its BITS_PER_WORD)
      in scan_rules g rs (Suc rsp) (ruleno + BITS_PER_WORD) csp its k)"

definition closure :: "grammar \<Rightarrow> words \<Rightarrow> nat list \<Rightarrow> nat list" where
  "closure g fd nucleus =
     (let rs = add_rules g fd (\<lambda>_. 0) nucleus; (csp, its) = scan_rules g rs 0 0 nucleus [] (WORDSIZE (nrules g)) in its @ csp)"

section \<open>Correctness of the closure\<close>

text \<open>The closure of a set of items, as it is defined for LR(0) automata.\<close>

inductive lr0 :: "grammar \<Rightarrow> nat set \<Rightarrow> nat \<Rightarrow> bool" for g N where
  kernel: "it \<in> N \<Longrightarrow> lr0 g N it"
| expand: "lr0 g N it \<Longrightarrow> ritem g it = int A \<Longrightarrow> start_symbol g \<le> A \<Longrightarrow> r < nrules g \<Longrightarrow> rlhs g r = int A \<Longrightarrow> lr0 g N (rrhs g r)"

definition wf_grammar :: "grammar \<Rightarrow> bool" where
  "wf_grammar g \<longleftrightarrow> start_symbol g = ntokens g \<and> nsyms g = ntokens g + nvars g \<and> (\<forall>r < 2. rlhs g r < int (start_symbol g)) \<and>
     (\<forall>it. ritem g it < int (nsyms g)) \<and> (\<forall>r < nrules g. \<forall>r' < r. 2 \<le> r' \<longrightarrow> rrhs g r' < rrhs g r)"

abbreviation rules :: "grammar \<Rightarrow> nat \<Rightarrow> nat set" where
  "rules g b \<equiv> {r. r < nrules g \<and> rlhs g r = int (start_symbol g + b)}"

definition starts :: "grammar \<Rightarrow> (nat \<times> nat) set" where
  "starts g = {(a, b). a < nvars g \<and> b < nvars g \<and> (\<exists>r \<in> rules g a. ritem g (rrhs g r) = int (start_symbol g + b))}"

lemma BIT_SETBIT:
  assumes "n div 32 < s" and "n' div 32 < s"
  shows "BIT (SETBIT m (i * s) n) (i' * s) n' \<longleftrightarrow> BIT m (i' * s) n' \<or> i = i' \<and> n = n'"
proof -
  have "i * s + n div 32 = i' * s + n' div 32 \<longleftrightarrow> i = i' \<and> n div 32 = n' div 32" using row_inj [of 0 i s "n div 32" i' "n' div 32"] assms by auto
  moreover have "n = n' \<longleftrightarrow> n div 32 = n' div 32 \<and> n mod 32 = n' mod 32" by (metis div_mult_mod_eq)
  moreover have "bit (push_bit (n mod 32) 1 :: uint32) (n' mod 32) \<longleftrightarrow> n mod 32 = n' mod 32" using bit_bitmask [of n "n' mod 32"] by (simp only: bitmask_def) auto
  ultimately show ?thesis by (auto simp: BIT_bit SETBIT_def BITS_PER_WORD_def bit_or_iff simp del: push_bit_of_1)
qed

lemma eff_rules_BIT:
  assumes "b < nvars g" and "\<forall>r \<in> set rs. 0 < r" and "\<forall>r \<in> set rs. ritem g (rrhs g r) < int (start_symbol g + nvars g)"
  shows "BIT (eff_rules g m (a * WORDSIZE (nvars g)) (map int rs @ [- 1])) (a' * WORDSIZE (nvars g)) b \<longleftrightarrow>
    BIT m (a' * WORDSIZE (nvars g)) b \<or> a = a' \<and> (\<exists>r \<in> set rs. ritem g (rrhs g r) = int (start_symbol g + b))"
  using assms(2,3)
proof (induction rs arbitrary: m)
  case (Cons r rs)
  let ?s = "ritem g (rrhs g r)"
  define m1 where "m1 = (if ISVAR g ?s then SETBIT m (a * WORDSIZE (nvars g)) (nat ?s - start_symbol g) else m)"
  have "BIT m1 (a' * WORDSIZE (nvars g)) b \<longleftrightarrow> BIT m (a' * WORDSIZE (nvars g)) b \<or> a = a' \<and> ?s = int (start_symbol g + b)"
  proof (cases "ISVAR g ?s")
    case True
    then have "nat ?s - start_symbol g < nvars g" "nat ?s - start_symbol g = b \<longleftrightarrow> ?s = int (start_symbol g + b)" using Cons.prems(2) by (auto simp: ISVAR_def)
    then show ?thesis using BIT_SETBIT [OF word_in_row word_in_row [OF assms(1)]] True by (simp add: m1_def)
  next
    case False
    then show ?thesis by (auto simp: m1_def ISVAR_def)
  qed
  moreover have "eff_rules g m (a * WORDSIZE (nvars g)) (map int (r # rs) @ [- 1]) = eff_rules g m1 (a * WORDSIZE (nvars g)) (map int rs @ [- 1])"
    using Cons.prems(1) by (simp add: m1_def Let_def)
  ultimately show ?case using Cons.IH [of m1] Cons.prems by auto
qed simp


lemma set_derives_rules:
  "set_derives g (start_symbol g + a) = map int (filter (\<lambda>i. rlhs g i = int (start_symbol g + a)) [0..<nrules g]) @ [- 1]"
  "set (filter (\<lambda>i. rlhs g i = int (start_symbol g + a)) [0..<nrules g]) = rules g a"
  by (auto simp: set_derives_def)

lemma wf_rules:
  assumes "wf_grammar g" and "r \<in> rules g a"
  shows "0 < r" "2 \<le> r" "ritem g it < int (start_symbol g + nvars g)"
proof -
  show "2 \<le> r" using assms by (auto simp: wf_grammar_def intro: leI)
  then show "0 < r" by simp
qed (use assms in \<open>auto simp: wf_grammar_def\<close>)

lemma eff_rows_BIT:
  assumes "wf_grammar g" and "b < nvars g"
  shows "BIT (eff_rows g m (a * WORDSIZE (nvars g)) (start_symbol g + a) k) (a' * WORDSIZE (nvars g)) b \<longleftrightarrow>
    BIT m (a' * WORDSIZE (nvars g)) b \<or> a \<le> a' \<and> a' < a + k \<and> (\<exists>r \<in> rules g a'. ritem g (rrhs g r) = int (start_symbol g + b))"
proof (induction k arbitrary: a m)
  case (Suc k)
  let ?rs = "filter (\<lambda>i. rlhs g i = int (start_symbol g + a)) [0..<nrules g]"
  define m1 where "m1 = eff_rules g m (a * WORDSIZE (nvars g)) (set_derives g (start_symbol g + a))"
  have "BIT m1 (a' * WORDSIZE (nvars g)) b \<longleftrightarrow> BIT m (a' * WORDSIZE (nvars g)) b \<or> a = a' \<and> (\<exists>r \<in> rules g a. ritem g (rrhs g r) = int (start_symbol g + b))"
    unfolding m1_def set_derives_rules(1) using eff_rules_BIT [OF assms(2), of ?rs m a a'] wf_rules [OF assms(1)] unfolding set_derives_rules(2) by blast
  moreover have "eff_rows g m (a * WORDSIZE (nvars g)) (start_symbol g + a) (Suc k) = eff_rows g m1 (Suc a * WORDSIZE (nvars g)) (start_symbol g + Suc a) k"
    by (simp add: m1_def add.commute)
  ultimately show ?case using Suc.IH [of m1 "Suc a"] by (auto simp: Suc_le_eq le_less)
qed auto

lemma set_EFF_rel:
  assumes "wf_grammar g"
  shows "rel (set_EFF g) 0 (nvars g) = (starts g)\<^sup>* \<inter> {..<nvars g} \<times> {..<nvars g}"
proof -
  let ?m = "eff_rows g (\<lambda>_. 0) 0 (start_symbol g) (nsyms g - start_symbol g)"
  have n: "nsyms g - start_symbol g = nvars g" using assms by (simp add: wf_grammar_def)
  have z: "\<not> BIT (\<lambda>_. 0) i j" for i j by (simp add: BIT_bit)
  have "rel ?m 0 (nvars g) = starts g"
    using eff_rows_BIT [OF assms, of _ "\<lambda>_. 0" 0 "nvars g"] z unfolding rel_def starts_def n by auto
  then show ?thesis using reflexive_transitive_closure_rel [of ?m 0 "nvars g"] by (simp add: set_EFF_def)
qed

lemma mark_rules_BIT:
  assumes "r' div 32 < WORDSIZE n" and "\<forall>r \<in> set rs. r < n"
  shows "BIT (mark_rules m (a * WORDSIZE n) (map int rs @ [- 1])) (a' * WORDSIZE n) r' \<longleftrightarrow> BIT m (a' * WORDSIZE n) r' \<or> a = a' \<and> r' \<in> set rs"
  using assms(2)
proof (induction rs arbitrary: m)
  case (Cons r rs)
  then have "BIT (SETBIT m (a * WORDSIZE n) r) (a' * WORDSIZE n) r' \<longleftrightarrow> BIT m (a' * WORDSIZE n) r' \<or> a = a' \<and> r = r'"
    using BIT_SETBIT [OF word_in_row assms(1)] by simp
  then show ?case using Cons.IH [of "SETBIT m (a * WORDSIZE n) r"] Cons.prems by auto
qed simp

text \<open>The walk over a row of the matrix: before variable \<open>j\<close> the word of its bit is loaded.\<close>

lemma first_vars_BIT:
  assumes "r div 32 < WORDSIZE (nrules g)"
  shows "BIT (first_vars g eff m (a * WORDSIZE (nrules g)) (v + j div 32 + 1) (eff (v + j div 32)) (bitmask j) (start_symbol g + j) k) (a' * WORDSIZE (nrules g)) r \<longleftrightarrow>
    BIT m (a' * WORDSIZE (nrules g)) r \<or> a = a' \<and> (\<exists>b. j \<le> b \<and> b < j + k \<and> BIT eff v b \<and> r \<in> rules g b)"
proof (induction k arbitrary: j m)
  case (Suc k)
  define m1 where "m1 = (if eff (v + j div 32) AND bitmask j \<noteq> 0 then mark_rules m (a * WORDSIZE (nrules g)) (set_derives g (start_symbol g + j)) else m)"
  have bit: "eff (v + j div 32) AND bitmask j \<noteq> 0 \<longleftrightarrow> BIT eff v j"
    unfolding bitmask_def BIT_bit by (rule mask_bit) simp
  have m1: "BIT m1 (a' * WORDSIZE (nrules g)) r \<longleftrightarrow> BIT m (a' * WORDSIZE (nrules g)) r \<or> a = a' \<and> BIT eff v j \<and> r \<in> rules g j"
    using mark_rules_BIT [OF assms, of "filter (\<lambda>i. rlhs g i = int (start_symbol g + j)) [0..<nrules g]" m a a']
    unfolding m1_def bit set_derives_rules by auto
  have "first_vars g eff m (a * WORDSIZE (nrules g)) (v + j div 32 + 1) (eff (v + j div 32)) (bitmask j) (start_symbol g + j) (Suc k) =
      first_vars g eff m1 (a * WORDSIZE (nrules g)) (v + Suc j div 32 + 1) (eff (v + Suc j div 32)) (bitmask (Suc j)) (start_symbol g + Suc j) k"
    unfolding first_vars.simps(2) Let_def next_mask next_word m1_def using bitmask_start(2) [of j] bitmask_nonzero [of "Suc j"] by simp
  then show ?case using Suc.IH [of m1 "Suc j"] m1 by (auto simp: Suc_le_eq le_less)
qed auto

lemma first_rows_BIT:
  assumes "wf_grammar g" and "r div 32 < WORDSIZE (nrules g)"
  shows "BIT (first_rows g eff m (a * WORDSIZE (nrules g)) (start_symbol g + a) k) (a' * WORDSIZE (nrules g)) r \<longleftrightarrow>
    BIT m (a' * WORDSIZE (nrules g)) r \<or> a \<le> a' \<and> a' < a + k \<and> (\<exists>b < nvars g. BIT eff (a' * WORDSIZE (nvars g)) b \<and> r \<in> rules g b)"
proof (induction k arbitrary: a m)
  case (Suc k)
  let ?v = "a * WORDSIZE (nvars g)"
  have n: "nsyms g - start_symbol g = nvars g" "start_symbol g + a - ntokens g = a" using assms(1) by (simp_all add: wf_grammar_def)
  define m1 where "m1 = first_vars g eff m (a * WORDSIZE (nrules g)) (?v + 1) (eff ?v) 1 (start_symbol g) (nvars g)"
  have "BIT m1 (a' * WORDSIZE (nrules g)) r \<longleftrightarrow> BIT m (a' * WORDSIZE (nrules g)) r \<or> a = a' \<and> (\<exists>b < nvars g. BIT eff ?v b \<and> r \<in> rules g b)"
    using first_vars_BIT [OF assms(2), of eff m a ?v 0 "nvars g" a'] by (simp add: m1_def bitmask_start)
  moreover have "first_rows g eff m (a * WORDSIZE (nrules g)) (start_symbol g + a) (Suc k) = first_rows g eff m1 (Suc a * WORDSIZE (nrules g)) (start_symbol g + Suc a) k"
    unfolding first_rows.simps(2) Let_def n by (simp add: m1_def add.commute)
  ultimately show ?case using Suc.IH [of m1 "Suc a"] by (auto simp: Suc_le_eq le_less)
qed auto

lemma first_derives_BIT:
  assumes "wf_grammar g" and "r div 32 < WORDSIZE (nrules g)" and "a < nvars g"
  shows "BIT (set_first_derives g) (a * WORDSIZE (nrules g)) r \<longleftrightarrow> (\<exists>b < nvars g. (a, b) \<in> (starts g)\<^sup>* \<and> r \<in> rules g b)"
proof -
  have n: "nsyms g - start_symbol g = nvars g" using assms by (simp add: wf_grammar_def)
  have e: "BIT (set_EFF g) (a * WORDSIZE (nvars g)) b \<longleftrightarrow> (a, b) \<in> (starts g)\<^sup>*" if "b < nvars g" for b
  proof -
    have "(a, b) \<in> rel (set_EFF g) 0 (nvars g) \<longleftrightarrow> BIT (set_EFF g) (a * WORDSIZE (nvars g)) b" using assms(3) that by (simp add: rel_def)
    then show ?thesis unfolding set_EFF_rel [OF assms(1)] using assms(3) that by simp
  qed
  have z: "\<not> BIT (\<lambda>_. 0) i j" for i j by (simp add: BIT_bit)
  show ?thesis using first_rows_BIT [OF assms(1,2), of "set_EFF g" "\<lambda>_. 0" 0 "nvars g" a] assms(3) z e unfolding set_first_derives_def n by auto
qed

lemma or_from_words: "or_from m rsp fd dsp k a = (if rsp \<le> a \<and> a < rsp + k then m a OR fd (dsp + (a - rsp)) else m a)"
proof (induction k arbitrary: m rsp dsp)
  case (Suc k)
  then show ?case by (cases "a = rsp") (auto simp: Suc_diff_Suc)
qed auto

lemma add_rules_BIT:
  assumes "r div 32 < WORDSIZE (nrules g)"
  shows "BIT (add_rules g fd m cs) 0 r \<longleftrightarrow> BIT m 0 r \<or> (\<exists>it \<in> set cs. ISVAR g (ritem g it) \<and> BIT fd ((nat (ritem g it) - ntokens g) * WORDSIZE (nrules g)) r)"
proof (induction cs arbitrary: m)
  case (Cons c cs)
  let ?d = "(nat (ritem g c) - ntokens g) * WORDSIZE (nrules g)"
  have "BIT (or_from m 0 fd ?d (WORDSIZE (nrules g))) 0 r \<longleftrightarrow> BIT m 0 r \<or> BIT fd ?d r" using assms by (simp add: BIT_bit or_from_words bit_or_iff)
  then show ?case using Cons.IH by (auto simp: Let_def)
qed simp

subsection \<open>The merge of the nucleus with the rules\<close>

definition merge_item :: "grammar \<Rightarrow> nat list \<times> nat list \<Rightarrow> nat \<Rightarrow> nat list \<times> nat list" where
  "merge_item g x r = (case x of (csp, its) \<Rightarrow>
     (dropWhile (\<lambda>i. i = rrhs g r) (dropWhile (\<lambda>i. i < rrhs g r) csp), its @ takeWhile (\<lambda>i. i < rrhs g r) csp @ [rrhs g r]))"

lemma scan_word_merge:
  "j + k \<le> 32 \<Longrightarrow> scan_word g w (push_bit j 1) (r + j) csp its k = foldl (merge_item g) (csp, its) (filter (\<lambda>i. bit w (i - r)) [r + j..<r + j + k])"
proof (induction k arbitrary: j csp its)
  case (Suc k)
  have b: "w AND push_bit j 1 \<noteq> 0 \<longleftrightarrow> bit w j" by (rule mask_bit) (use Suc.prems in simp)
  have m: "push_bit 1 (push_bit j 1) = (push_bit (Suc j) 1 :: uint32)" by (simp add: push_bit_push_bit)
  have l: "[r + j..<r + j + Suc k] = (r + j) # [r + Suc j..<r + Suc j + k]" by (simp add: upt_conv_Cons)
  obtain csp' its' where x: "(if bit w j then merge_item g (csp, its) (r + j) else (csp, its)) = (csp', its')" by (cases "if bit w j then merge_item g (csp, its) (r + j) else (csp, its)")
  have "scan_word g w (push_bit j 1) (r + j) csp its (Suc k) = scan_word g w (push_bit (Suc j) 1) (r + Suc j) csp' its' k"
    using x unfolding scan_word.simps(2) b m by (auto simp: merge_item_def Let_def split: if_splits)
  also have "\<dots> = foldl (merge_item g) (csp', its') (filter (\<lambda>i. bit w (i - r)) [r + Suc j..<r + Suc j + k])" using Suc.prems by (intro Suc.IH) simp
  finally show ?case unfolding l using x by (auto split: if_splits)
qed simp

lemma scan_rules_merge:
  "scan_rules g rs (p + j) (32 * j) csp its k = foldl (merge_item g) (csp, its) (filter (BIT rs p) [32 * j..<32 * (j + k)])"
proof (induction k arbitrary: j csp its)
  case (Suc k)
  let ?w = "rs (p + j)"
  have f: "filter (BIT rs p) [32 * j..<32 * j + 32] = filter (\<lambda>i. bit ?w (i - 32 * j)) [32 * j..<32 * j + 32]"
  proof (rule filter_cong [OF refl])
    fix i assume "i \<in> set [32 * j..<32 * j + 32]"
    then have "32 * j \<le> i" "i - 32 * j < 32" by auto
    then obtain d where "i = 32 * j + d" "d < 32" by (metis le_add_diff_inverse)
    then show "BIT rs p i = bit ?w (i - 32 * j)" by (simp add: BIT_bit)
  qed
  have l: "[32 * j..<32 * (j + Suc k)] = [32 * j..<32 * j + 32] @ [32 * Suc j..<32 * (Suc j + k)]"
    using upt_add_eq_append [of "32 * j" "32 * j + 32" "32 * k"] by (simp add: algebra_simps)
  have w: "(if ?w = 0 then (csp, its) else scan_word g ?w 1 (32 * j) csp its BITS_PER_WORD) = foldl (merge_item g) (csp, its) (filter (BIT rs p) [32 * j..<32 * j + 32])"
    unfolding f using scan_word_merge [of 0 32 g ?w "32 * j" csp its] by (auto simp: BITS_PER_WORD_def)
  obtain csp' its' where x: "foldl (merge_item g) (csp, its) (filter (BIT rs p) [32 * j..<32 * j + 32]) = (csp', its')" by (metis surj_pair)
  have "scan_rules g rs (p + j) (32 * j) csp its (Suc k) = scan_rules g rs (p + Suc j) (32 * Suc j) csp' its' k"
    unfolding scan_rules.simps(2) w x by (simp add: BITS_PER_WORD_def add.commute)
  then show ?case using Suc.IH [of "Suc j" csp' its'] unfolding l by (simp add: x)
qed simp

lemma strict_parts:
  assumes "sorted_wrt (<) (xs :: nat list)"
  shows "takeWhile (\<lambda>x. x < i) xs = filter (\<lambda>x. x < i) xs" and "dropWhile (\<lambda>x. x = i) (dropWhile (\<lambda>x. x < i) xs) = filter (\<lambda>x. i < x) xs"
proof -
  show "takeWhile (\<lambda>x. x < i) xs = filter (\<lambda>x. x < i) xs" using assms
    by (induction xs) (auto simp: filter_empty_conv eq_commute [of "[]"])
  show "dropWhile (\<lambda>x. x = i) (dropWhile (\<lambda>x. x < i) xs) = filter (\<lambda>x. i < x) xs" using assms
  proof (induction xs)
    case (Cons x xs)
    have all: "filter (\<lambda>y. i < y) xs = xs" "dropWhile (\<lambda>x. x = i) xs = xs" if "i \<le> x"
      using Cons.prems that by (auto simp: filter_id_conv dropWhile_eq_self_iff neq_Nil_conv)
    consider "x < i" | "x = i" | "i < x" by linarith
    then show ?case using Cons all by cases auto
  qed simp
qed

lemma merge_sorted:
  assumes "sorted_wrt (<) its" and "sorted_wrt (<) csp" and "\<forall>x \<in> set its. \<forall>y \<in> set csp. x < y" and "\<forall>x \<in> set its. \<forall>r \<in> set rs. x < rrhs g r"
    and "sorted_wrt (\<lambda>r r'. rrhs g r < rrhs g r') rs" and "foldl (merge_item g) (csp, its) rs = (csp', its')"
  shows "sorted_wrt (<) (its' @ csp') \<and> set (its' @ csp') = set its \<union> set csp \<union> rrhs g ` set rs"
  using assms
proof (induction rs arbitrary: csp its)
  case Nil
  then show ?case by (simp add: sorted_wrt_append)
next
  case (Cons r rs)
  let ?i = "rrhs g r"
  have st: "merge_item g (csp, its) r = (filter (\<lambda>x. ?i < x) csp, its @ filter (\<lambda>x. x < ?i) csp @ [?i])"
    by (simp add: merge_item_def strict_parts [OF Cons.prems(2)])
  have "sorted_wrt (<) (its' @ csp') \<and> set (its' @ csp') = set (its @ filter (\<lambda>x. x < ?i) csp @ [?i]) \<union> set (filter (\<lambda>x. ?i < x) csp) \<union> rrhs g ` set rs"
  proof (rule Cons.IH)
    show "sorted_wrt (<) (its @ filter (\<lambda>x. x < ?i) csp @ [?i])" using Cons.prems(1-4) by (auto simp: sorted_wrt_append sorted_wrt_filter)
    show "sorted_wrt (<) (filter (\<lambda>x. ?i < x) csp)" using Cons.prems(2) by (rule sorted_wrt_filter)
  qed (use Cons.prems st in auto)
  then show ?case by auto
qed

lemma closure_items:
  assumes "wf_grammar g" and "sorted_wrt (<) nucleus" and "\<And>r. r div 32 < WORDSIZE (nrules g) \<Longrightarrow> BIT (add_rules g fd (\<lambda>_. 0) nucleus) 0 r \<Longrightarrow> r < nrules g \<and> 2 \<le> r"
  shows "sorted_wrt (<) (closure g fd nucleus) \<and>
    set (closure g fd nucleus) = set nucleus \<union> rrhs g ` {r. r < nrules g \<and> BIT (add_rules g fd (\<lambda>_. 0) nucleus) 0 r}"
proof -
  let ?rs = "add_rules g fd (\<lambda>_. 0) nucleus" and ?w = "WORDSIZE (nrules g)"
  let ?l = "filter (BIT ?rs 0) [0..<32 * ?w]"
  obtain csp its where x: "foldl (merge_item g) (nucleus, []) ?l = (csp, its)" by (metis surj_pair)
  have c: "closure g fd nucleus = its @ csp" using scan_rules_merge [of g ?rs 0 0 nucleus "[]" ?w] x by (simp add: closure_def)
  have dv: "r < 32 * ?w \<longleftrightarrow> r div 32 < ?w" for r by (simp add: div_less_iff_less_mult mult.commute)
  have small: "r < nrules g \<and> 2 \<le> r" if "r \<in> set ?l" for r using that assms(3) dv by simp
  have "r < 32 * ?w" if "r < nrules g" for r using word_in_row [OF that] dv by simp
  then have s: "set ?l = {r. r < nrules g \<and> BIT ?rs 0 r}" using small by auto
  have "sorted_wrt (\<lambda>r r'. r < r' \<and> r' < nrules g \<and> 2 \<le> r) ?l"
    using small sorted_wrt_filter [OF sorted_wrt_upt, of "BIT ?rs 0" 0 "32 * ?w"] by (auto intro: sorted_wrt_mono_rel)
  then have "sorted_wrt (\<lambda>r r'. rrhs g r < rrhs g r') ?l" by (rule sorted_wrt_mono_rel [rotated]) (use assms(1) in \<open>auto simp: wf_grammar_def\<close>)
  from merge_sorted [OF _ assms(2) _ _ this x] show ?thesis unfolding c s by simp
qed

subsection \<open>The closure of item sets\<close>

lemma var_of:
  assumes "wf_grammar g" and "ISVAR g (ritem g it)"
  obtains a where "a < nvars g" "ritem g it = int (start_symbol g + a)" "nat (ritem g it) - ntokens g = a"
proof
  have "int (start_symbol g) \<le> ritem g it" "ritem g it < int (ntokens g + nvars g)" "start_symbol g = ntokens g" using assms by (auto simp: wf_grammar_def ISVAR_def)
  then show "nat (ritem g it) - ntokens g < nvars g" "ritem g it = int (start_symbol g + (nat (ritem g it) - ntokens g))"
    "nat (ritem g it) - ntokens g = nat (ritem g it) - ntokens g" by auto
qed

lemma lr0_starts:
  assumes "(a, b) \<in> (starts g)\<^sup>*" and "lr0 g N it" and "ritem g it = int (start_symbol g + a)" and "r \<in> rules g b"
  shows "lr0 g N (rrhs g r)"
  using assms(1,4)
proof (induction arbitrary: r rule: rtrancl_induct)
  case base
  then show ?case using lr0.expand [OF assms(2,3)] by auto
next
  case (step b c)
  obtain r' where r': "r' \<in> rules g b" "ritem g (rrhs g r') = int (start_symbol g + c)" using step.hyps(2) unfolding starts_def by blast
  show ?case using lr0.expand [OF step.IH [OF r'(1)] r'(2)] step.prems by simp
qed

lemma lr0_items:
  assumes "wf_grammar g"
  shows "lr0 g N it \<longleftrightarrow> it \<in> N \<or>
    (\<exists>it' \<in> N. \<exists>a b r. ritem g it' = int (start_symbol g + a) \<and> a < nvars g \<and> b < nvars g \<and> (a, b) \<in> (starts g)\<^sup>* \<and> r \<in> rules g b \<and> it = rrhs g r)"
    (is "_ \<longleftrightarrow> ?R it")
proof
  assume "lr0 g N it"
  then show "?R it"
  proof induction
    case (expand it A r)
    have v: "ISVAR g (ritem g it)" using expand.hyps by (simp add: ISVAR_def)
    obtain c where c: "c < nvars g" "ritem g it = int (start_symbol g + c)" using var_of [OF assms v] by blast
    then have rc: "r \<in> rules g c" using expand.hyps by auto
    from expand.IH show ?case
    proof
      assume "it \<in> N"
      then show ?thesis using c rc by blast
    next
      assume "\<exists>it' \<in> N. \<exists>a b r. ritem g it' = int (start_symbol g + a) \<and> a < nvars g \<and> b < nvars g \<and> (a, b) \<in> (starts g)\<^sup>* \<and> r \<in> rules g b \<and> it = rrhs g r"
      then obtain it' a b r0 where h: "it' \<in> N" "ritem g it' = int (start_symbol g + a)" "a < nvars g" "b < nvars g" "(a, b) \<in> (starts g)\<^sup>*" "r0 \<in> rules g b" "it = rrhs g r0" by blast
      have "(b, c) \<in> starts g" using h c unfolding starts_def by blast
      then have "(a, c) \<in> (starts g)\<^sup>*" using h(5) by (rule rtrancl_into_rtrancl [rotated])
      then show ?thesis using h(1-3) c(1) rc by blast
    qed
  qed simp
next
  assume "?R it"
  then show "lr0 g N it" using lr0_starts lr0.kernel by blast
qed

lemma ruleset_BIT:
  assumes "wf_grammar g" and "r div 32 < WORDSIZE (nrules g)"
  shows "BIT (add_rules g (set_first_derives g) (\<lambda>_. 0) nucleus) 0 r \<longleftrightarrow>
    (\<exists>it \<in> set nucleus. \<exists>a c. ritem g it = int (start_symbol g + a) \<and> a < nvars g \<and> c < nvars g \<and> (a, c) \<in> (starts g)\<^sup>* \<and> r \<in> rules g c)"
proof -
  let ?fd = "set_first_derives g" and ?s = "WORDSIZE (nrules g)"
  have z: "\<not> BIT (\<lambda>_. 0) 0 r" by (simp add: BIT_bit)
  have "ISVAR g (ritem g it) \<and> BIT ?fd ((nat (ritem g it) - ntokens g) * ?s) r \<longleftrightarrow>
      (\<exists>a c. ritem g it = int (start_symbol g + a) \<and> a < nvars g \<and> c < nvars g \<and> (a, c) \<in> (starts g)\<^sup>* \<and> r \<in> rules g c)" for it
  proof (cases "ISVAR g (ritem g it)")
    case True
    obtain a where a: "a < nvars g" "ritem g it = int (start_symbol g + a)" "nat (ritem g it) - ntokens g = a" using var_of [OF assms(1) True] .
    show ?thesis unfolding a(2,3) using first_derives_BIT [OF assms(1,2) a(1)] True a by auto
  next
    case False
    then show ?thesis by (auto simp: ISVAR_def)
  qed
  then show ?thesis using add_rules_BIT [OF assms(2), of ?fd "\<lambda>_. 0" nucleus] z by blast
qed

lemma closure_spec:
  assumes "wf_grammar g" and "sorted_wrt (<) nucleus"
  shows "sorted_wrt (<) (closure g (set_first_derives g) nucleus) \<and> set (closure g (set_first_derives g) nucleus) = {it. lr0 g (set nucleus) it}"
proof -
  let ?m = "add_rules g (set_first_derives g) (\<lambda>_. 0) nucleus"
  note b = ruleset_BIT [OF assms(1), of _ nucleus]
  have items: "sorted_wrt (<) (closure g (set_first_derives g) nucleus) \<and>
      set (closure g (set_first_derives g) nucleus) = set nucleus \<union> rrhs g ` {r. r < nrules g \<and> BIT ?m 0 r}"
    by (rule closure_items [OF assms]) (use b wf_rules [OF assms(1)] in auto)
  have "{r. r < nrules g \<and> BIT ?m 0 r} =
      {r. \<exists>it \<in> set nucleus. \<exists>a c. ritem g it = int (start_symbol g + a) \<and> a < nvars g \<and> c < nvars g \<and> (a, c) \<in> (starts g)\<^sup>* \<and> r \<in> rules g c}"
    (is "_ = ?rs")
  proof (rule Collect_cong)
    fix r
    show "r < nrules g \<and> BIT ?m 0 r \<longleftrightarrow>
        (\<exists>it \<in> set nucleus. \<exists>a c. ritem g it = int (start_symbol g + a) \<and> a < nvars g \<and> c < nvars g \<and> (a, c) \<in> (starts g)\<^sup>* \<and> r \<in> rules g c)"
    proof (cases "r < nrules g")
      case True
      then show ?thesis using b [OF word_in_row [OF True]] by simp
    qed auto
  qed
  moreover have "{it. lr0 g (set nucleus) it} = set nucleus \<union> rrhs g ` ?rs" unfolding lr0_items [OF assms(1)] by blast
  ultimately show ?thesis using items by simp
qed

text \<open>
  for a grammar as the reader packs it, the closure that is computed by words of bits from the precomputed table is the closure of the item set in the sense of LR(0) automata, and it
  is sorted without duplicates if the nucleus is.
\<close>

theorem closure_lr0:
  assumes "wf_grammar g" and "sorted_wrt (<) nucleus"
  shows "sorted_wrt (<) (closure g (set_first_derives g) nucleus) \<and> set (closure g (set_first_derives g) nucleus) = {it. lr0 g (set nucleus) it}"
  by (rule closure_spec [OF assms])

text \<open>
  A grammar with the tokens 0 and 1, the variables 2 and 3, and the rules \<open>2 \<rightarrow> 3 0\<close>, \<open>3 \<rightarrow> 1 3\<close> and \<open>3 \<rightarrow> \<epsilon>\<close>, packed as \<open>pack_grammar\<close> of \<^verbatim>\<open>reader.c\<close> does it.
\<close>

definition list_grammar :: grammar where
  "list_grammar = \<lparr>nsyms = 4, ntokens = 2, nvars = 2, start_symbol = 2, nrules = 5, nitems = 8, rlhs = (\<lambda>r. if r = 2 then 2 else if r < 2 then 0 else 3),
     rrhs = (\<lambda>r. [0, 0, 1, 4, 7, 8] ! r), ritem = (\<lambda>i. if i < 8 then [- 1, 3, 0, - 2, 1, 3, - 3, - 4] ! i else - 1)\<rparr>"

lemma wf_list_grammar: "wf_grammar list_grammar"
proof -
  have i: "i < 8 \<longleftrightarrow> i = 0 \<or> i = 1 \<or> i = 2 \<or> i = 3 \<or> i = 4 \<or> i = 5 \<or> i = 6 \<or> i = (7 :: nat)" for i by auto
  have "\<forall>r < 5. \<forall>r' < r. 2 \<le> r' \<longrightarrow> [0, 0, 1, 4, 7, 8] ! r' < ([0, 0, 1, 4, 7, 8] ! r :: nat)" by code_simp
  moreover have "\<forall>it. ritem list_grammar it < int (nsyms list_grammar)" by (auto simp: list_grammar_def i)
  ultimately show ?thesis by (auto simp: wf_grammar_def list_grammar_def)
qed

theorem closure_lr0_witness:
  "wf_grammar list_grammar \<and> sorted_wrt (<) [1 :: nat] \<and> closure list_grammar (set_first_derives list_grammar) [1] = [1, 4, 7] \<and>
   set (closure list_grammar (set_first_derives list_grammar) [1]) = {it. lr0 list_grammar {1} it}"
proof -
  have "closure list_grammar (set_first_derives list_grammar) [1] = [1, 4, 7]" by code_simp
  then show ?thesis using closure_lr0 [of list_grammar "[1]"] wf_list_grammar by simp
qed

text \<open>
  Warshall's algorithm on the packed matrix, with its single pass over the rows in place, gives the transitive closure of the relation of the matrix; with the diagonal it gives
  the reflexive and transitive closure.
\<close>

theorem warshall_closure:
  "rel (transitive_closure m R n) R n = (rel m R n)\<^sup>+ \<and> rel (reflexive_transitive_closure m R n) R n = (rel m R n)\<^sup>* \<inter> {..<n} \<times> {..<n}"
  by (simp add: transitive_closure_rel reflexive_transitive_closure_rel)

end
