(* ===== verification/Yacc_Nullable.thy ===== *)
theory Yacc_Nullable
  imports Yacc_Closure
begin

text \<open>
  The nullable symbols (\<open>set_nullable\<close> of \<^verbatim>\<open>yacc/lr0.c\<close>): passes over the packed rules until one of them changes nothing.  The array \<open>nullable\<close> is a function from the symbol.
\<close>

text \<open>The inner loop runs over a right-hand side to the negative number that ends it.\<close>

partial_function (option) skip_rhs :: "grammar \<Rightarrow> (nat \<Rightarrow> bool) \<Rightarrow> nat \<Rightarrow> bool \<Rightarrow> (nat \<times> bool) option" where
  "skip_rhs g nullable i emp =
     (let j = ritem g i in if 0 \<le> j then skip_rhs g nullable (Suc i) (emp \<and> nullable (nat j)) else Some (i, emp))"

partial_function (option) nullable_pass :: "grammar \<Rightarrow> (nat \<Rightarrow> bool) \<Rightarrow> nat \<Rightarrow> bool \<Rightarrow> ((nat \<Rightarrow> bool) \<times> bool) option" where
  "nullable_pass g nullable i finished =
     (if i < nitems g
      then Option.bind (skip_rhs g nullable i True) (\<lambda>(i, emp).
        let j = nat (rlhs g (nat (- ritem g i)))
        in if emp \<and> \<not> nullable j then nullable_pass g (nullable(j := True)) (Suc i) False else nullable_pass g nullable (Suc i) finished)
      else Some (nullable, finished))"

partial_function (option) nullable_loop :: "grammar \<Rightarrow> (nat \<Rightarrow> bool) \<Rightarrow> (nat \<Rightarrow> bool) option" where
  "nullable_loop g nullable = Option.bind (nullable_pass g nullable 1 True) (\<lambda>(nullable, finished). if finished then Some nullable else nullable_loop g nullable)"

definition set_nullable :: "grammar \<Rightarrow> (nat \<Rightarrow> bool) option" where
  "set_nullable g = nullable_loop g (\<lambda>_. False)"

declare skip_rhs.simps [code] nullable_pass.simps [code] nullable_loop.simps [code]

text \<open>The layout that \<open>pack_grammar\<close> of \<^verbatim>\<open>reader.c\<close> gives to the rules: one right-hand side after the other, each ended by the negated number of its rule.\<close>

definition rhs :: "grammar \<Rightarrow> nat \<Rightarrow> int list" where
  "rhs g r = map (ritem g) [rrhs g r..<rrhs g (Suc r) - 1]"

definition packed :: "grammar \<Rightarrow> bool" where
  "packed g \<longleftrightarrow> 2 \<le> nrules g \<and> rrhs g 2 = 1 \<and> rrhs g (nrules g) = nitems g \<and>
     (\<forall>r. 2 \<le> r \<and> r < nrules g \<longrightarrow> rrhs g r < rrhs g (Suc r) \<and> (\<forall>s \<in> set (rhs g r). 0 \<le> s) \<and> ritem g (rrhs g (Suc r) - 1) = - int r \<and> 0 \<le> rlhs g r \<and> rlhs g r < int (nsyms g))"

text \<open>The symbols that derive the empty string.\<close>

inductive derives_empty :: "grammar \<Rightarrow> int \<Rightarrow> bool" for g where
  "2 \<le> r \<Longrightarrow> r < nrules g \<Longrightarrow> (\<And>s. s \<in> set (rhs g r) \<Longrightarrow> derives_empty g s) \<Longrightarrow> derives_empty g (rlhs g r)"

lemma skip_rhs_spec:
  assumes "\<And>k. i \<le> k \<Longrightarrow> k < i + l \<Longrightarrow> 0 \<le> ritem g k" and "ritem g (i + l) < 0"
  shows "skip_rhs g nullable i emp = Some (i + l, emp \<and> (\<forall>k \<in> {i..<i + l}. nullable (nat (ritem g k))))"
  using assms
proof (induction l arbitrary: i emp)
  case 0
  then show ?case by (subst skip_rhs.simps) (simp add: Let_def)
next
  case (Suc l)
  have i: "0 \<le> ritem g i" using Suc.prems(1) by simp
  have "{i..<i + Suc l} = insert i {Suc i..<Suc i + l}" by auto
  moreover have "skip_rhs g nullable (Suc i) (emp \<and> nullable (nat (ritem g i))) =
      Some (Suc i + l, (emp \<and> nullable (nat (ritem g i))) \<and> (\<forall>k \<in> {Suc i..<Suc i + l}. nullable (nat (ritem g k))))"
    by (rule Suc.IH) (use Suc.prems in auto)
  ultimately show ?case using i by (subst skip_rhs.simps) (auto simp: Let_def)
qed

lemma skip_rule:
  assumes "packed g" and "2 \<le> r" and "r < nrules g"
  shows "skip_rhs g nullable (rrhs g r) True = Some (rrhs g (Suc r) - 1, \<forall>s \<in> set (rhs g r). nullable (nat s))"
proof -
  obtain l where l: "rrhs g (Suc r) = Suc (rrhs g r + l)" using assms by (metis packed_def less_iff_Suc_add)
  have s: "set (rhs g r) = ritem g ` {rrhs g r..<rrhs g r + l}" by (simp add: rhs_def l)
  have "0 \<le> ritem g k" if "rrhs g r \<le> k" "k < rrhs g r + l" for k using assms that s unfolding packed_def by auto
  moreover have "ritem g (rrhs g r + l) < 0" using assms l unfolding packed_def by auto
  ultimately show ?thesis using skip_rhs_spec [of "rrhs g r" l g nullable True] s l by auto
qed

text \<open>One pass keeps what is known sound, and reports that nothing changed only if what is known is closed under the rules.\<close>

definition sound :: "grammar \<Rightarrow> (nat \<Rightarrow> bool) \<Rightarrow> bool" where
  "sound g nullable \<longleftrightarrow> (\<forall>x. nullable x \<longrightarrow> x < nsyms g \<and> derives_empty g (int x))"

definition closed :: "grammar \<Rightarrow> (nat \<Rightarrow> bool) \<Rightarrow> nat \<Rightarrow> nat \<Rightarrow> bool" where
  "closed g nullable r n \<longleftrightarrow> (\<forall>r' \<in> {r..<n}. (\<forall>s \<in> set (rhs g r'). nullable (nat s)) \<longrightarrow> nullable (nat (rlhs g r')))"

lemma nullable_pass_spec:
  assumes "packed g" and "2 \<le> r" and "r \<le> nrules g" and "sound g nullable"
  shows "\<exists>nullable' finished'. nullable_pass g nullable (rrhs g r) finished = Some (nullable', finished') \<and> sound g nullable' \<and> (\<forall>x. nullable x \<longrightarrow> nullable' x) \<and>
    (finished' \<longrightarrow> finished \<and> nullable' = nullable \<and> closed g nullable r (nrules g)) \<and> (finished \<and> \<not> finished' \<longrightarrow> nullable' \<noteq> nullable)"
  using assms(2-)
proof (induction "nrules g - r" arbitrary: r nullable finished)
  case 0
  then have "rrhs g r = nitems g" using assms(1) by (simp add: packed_def)
  then show ?case using 0 by (subst nullable_pass.simps) (simp add: closed_def)
next
  case (Suc m)
  have r: "r < nrules g" and m: "m = nrules g - Suc r" using Suc.hyps(2) by simp_all
  have lt: "rrhs g r < nitems g"
  proof -
    have "rrhs g r < rrhs g k" if "r < k" "k \<le> nrules g" for k
      using that
    proof (induction k)
      case (Suc k)
      then have "rrhs g k < rrhs g (Suc k)" using assms(1) Suc.prems \<open>2 \<le> r\<close> by (simp add: packed_def)
      then show ?case using Suc by (cases "r = k") auto
    qed simp
    then show ?thesis using r assms(1) unfolding packed_def by (metis order_refl)
  qed
  let ?j = "nat (rlhs g r)" and ?e = "\<forall>s \<in> set (rhs g r). nullable (nat s)"
  have p: "rrhs g r < rrhs g (Suc r)" "\<forall>s \<in> set (rhs g r). 0 \<le> s" "ritem g (rrhs g (Suc r) - 1) = - int r" "0 \<le> rlhs g r" "rlhs g r < int (nsyms g)"
    using assms(1) Suc.prems(1) r by (auto simp: packed_def)
  have st: "nullable_pass g nullable (rrhs g r) finished =
      (if ?e \<and> \<not> nullable ?j then nullable_pass g (nullable(?j := True)) (rrhs g (Suc r)) False else nullable_pass g nullable (rrhs g (Suc r)) finished)"
    using lt skip_rule [OF assms(1) Suc.prems(1) r, of nullable] p by (subst nullable_pass.simps) (simp add: Let_def)
  show ?case
  proof (cases "?e \<and> \<not> nullable ?j")
    case True
    have "derives_empty g s" if "s \<in> set (rhs g r)" for s using True Suc.prems(3) p(2) that by (force simp: sound_def)
    then have "derives_empty g (rlhs g r)" using Suc.prems(1) r by (rule derives_empty.intros [rotated 2])
    then have "sound g (nullable(?j := True))" using Suc.prems(3) p(4,5) by (auto simp: sound_def)
    then obtain nullable' where n: "nullable_pass g (nullable(?j := True)) (rrhs g (Suc r)) False = Some (nullable', False)" "sound g nullable'" "\<forall>x. (nullable(?j := True)) x \<longrightarrow> nullable' x"
      using Suc.hyps(1) [OF m, of "nullable(?j := True)" False] Suc.prems(1) r by auto
    have "nullable' ?j" "\<forall>x. nullable x \<longrightarrow> nullable' x" using n(3) by auto
    then show ?thesis unfolding st using True n(1,2) by auto
  next
    case False
    have c: "closed g nullable (Suc r) (nrules g) \<Longrightarrow> closed g nullable r (nrules g)" 
    proof -
      have "{r..<nrules g} = insert r {Suc r..<nrules g}" using r by auto
      then show "closed g nullable (Suc r) (nrules g) \<Longrightarrow> closed g nullable r (nrules g)" using False by (auto simp: closed_def)
    qed
    have "2 \<le> Suc r" "Suc r \<le> nrules g" using Suc.prems(1) r by simp_all
    from Suc.hyps(1) [OF m this Suc.prems(3), of finished] show ?thesis unfolding st if_not_P [OF False] using c by blast
  qed
qed

lemma nullable_loop_spec:
  assumes "packed g" and "sound g nullable"
  shows "\<exists>nullable'. nullable_loop g nullable = Some nullable' \<and> sound g nullable' \<and> closed g nullable' 2 (nrules g)"
  using assms(2)
proof (induction "card {x. x < nsyms g \<and> \<not> nullable x}" arbitrary: nullable rule: less_induct)
  case less
  have p: "rrhs g 2 = 1" "2 \<le> nrules g" using assms(1) by (auto simp: packed_def)
  obtain nullable' finished' where s: "nullable_pass g nullable 1 True = Some (nullable', finished')" "sound g nullable'" "\<forall>x. nullable x \<longrightarrow> nullable' x"
      "finished' \<longrightarrow> nullable' = nullable \<and> closed g nullable 2 (nrules g)" "\<not> finished' \<longrightarrow> nullable' \<noteq> nullable"
    using nullable_pass_spec [OF assms(1) _ p(2) less.prems, of True] p(1) by auto
  show ?case
  proof (cases finished')
    case True
    then show ?thesis using s by (subst nullable_loop.simps) auto
  next
    case False
    then obtain x where x: "nullable' x" "\<not> nullable x" using s(3,5) unfolding fun_eq_iff by blast
    then have "{x. x < nsyms g \<and> \<not> nullable' x} \<subset> {x. x < nsyms g \<and> \<not> nullable x}" using s(2,3) unfolding sound_def by blast
    then have "card {x. x < nsyms g \<and> \<not> nullable' x} < card {x. x < nsyms g \<and> \<not> nullable x}" by (intro psubset_card_mono) auto
    from less.hyps [OF this s(2)] show ?thesis using s(1) False by (subst nullable_loop.simps) simp
  qed
qed

text \<open>
  C18: on the rules as the reader packs them the computation of the nullable symbols ends, and it marks exactly the symbols that derive the empty string.
\<close>

theorem nullable_symbols:
  assumes "packed g"
  shows "\<exists>nullable. set_nullable g = Some nullable \<and> (\<forall>x. nullable x \<longleftrightarrow> derives_empty g (int x))"
proof -
  have "sound g (\<lambda>_. False)" by (simp add: sound_def)
  from nullable_loop_spec [OF assms this] obtain nullable where n: "set_nullable g = Some nullable" "sound g nullable" "closed g nullable 2 (nrules g)"
    by (auto simp: set_nullable_def)
  have "nullable (nat s) \<and> 0 \<le> s" if "derives_empty g s" for s
    using that
  proof induction
    case (1 r)
    then have "nullable (nat (rlhs g r))" using n(3) by (auto simp: closed_def)
    then show ?case using assms 1 by (simp add: packed_def)
  qed
  then have "nullable x" if "derives_empty g (int x)" for x using that by fastforce
  then show ?thesis using n(1,2) unfolding sound_def by blast
qed

lemma packed_list_grammar: "packed list_grammar"
proof -
  have "\<forall>r < 5. 2 \<le> r \<longrightarrow> rrhs list_grammar r < rrhs list_grammar (Suc r) \<and> (\<forall>s \<in> set (rhs list_grammar r). 0 \<le> s) \<and>
      ritem list_grammar (rrhs list_grammar (Suc r) - 1) = - int r \<and> 0 \<le> rlhs list_grammar r \<and> rlhs list_grammar r < 4" by code_simp
  moreover have "nrules list_grammar = 5" "nsyms list_grammar = 4" "rrhs list_grammar 2 = 1" "rrhs list_grammar 5 = nitems list_grammar" by (simp_all add: list_grammar_def)
  ultimately show ?thesis unfolding packed_def by auto
qed

theorem nullable_symbols_witness:
  "packed list_grammar \<and> (\<exists>nullable. set_nullable list_grammar = Some nullable \<and> nullable 3 \<and> \<not> nullable 2 \<and> (\<forall>x. nullable x \<longleftrightarrow> derives_empty list_grammar (int x)))"
proof -
  have "map_option (\<lambda>f. map f [0, 1, 2, 3]) (set_nullable list_grammar) = Some [False, False, False, True]" by code_simp
  then show ?thesis using nullable_symbols [of list_grammar] packed_list_grammar by auto
qed

end
