(* ===== verification/Yacc_LR0.thy ===== *)
theory Yacc_LR0
  imports Yacc_Nullable "HOL-Library.Multiset"
begin

text \<open>
  The construction of the LR(0) automaton in the parser generator (\<^verbatim>\<open>yacc/lr0.c\<close>): the work list of states, each state with the kernel of its item set, found through a table of chains that is
  indexed by the first item of the kernel; and the shifts and reductions of each state.  Linked lists are lists in the order of their links, a state is referred to by its number, which is
  its place in the list of states.
\<close>

record core =
  number :: nat
  accessing_symbol :: nat
  core_nitems :: int
  items :: "int list"

record automaton =
  cores :: "core list"
  state_set :: "nat \<Rightarrow> nat list"
  shift_list :: "(nat \<times> nat list) list"
  reduction_list :: "(nat \<times> int list) list"

definition MAXSHORT :: nat where "MAXSHORT = 32767"

text \<open>
  The conversion to a short.  The items of a kernel, their number and the rules of the reductions are computed as ints and stored in shorts.  The other stores cannot change a value: a symbol is read from the array of
  shorts \<open>ritem\<close>, an item of the closure from \<open>rrhs\<close> or from a kernel, and the number of a state is less than \<open>MAXSHORT\<close> by the test in \<open>new_state\<close>.
\<close>

definition to_short :: "int \<Rightarrow> int" where "to_short x = signed_take_bit 15 x"

lemma to_short_small: "- (2 ^ 15) \<le> x \<Longrightarrow> x < 2 ^ 15 \<Longrightarrow> to_short x = x"
  by (simp add: to_short_def signed_take_bit_int_eq_self)

text \<open>
  What ends the construction before its time: the fatal error; the assertion of \<open>get_state\<close>, which says that its key is an index of \<open>state_set\<close> (with \<^verbatim>\<open>NDEBUG\<close> the
  read is out of range then); and an item that has become negative, with which \<open>closure\<close> reads before the start of \<open>ritem\<close>.
\<close>

datatype lr0_error = Too_many_states | Assertion_failed | Out_of_range

text \<open>
  \<open>new_itemsets\<close> distributes the items of the closure over the symbols after their dots: \<open>kern s\<close> is the array of shorts from \<open>kernel_base[s]\<close> to \<open>kernel_end[s]\<close>, which
  is null while it is empty.
\<close>

primrec new_itemsets :: "grammar \<Rightarrow> (nat \<Rightarrow> int list) \<Rightarrow> nat list \<Rightarrow> nat list \<Rightarrow> (nat \<Rightarrow> int list) \<times> nat list" where
  "new_itemsets g kern shift_symbol [] = (kern, shift_symbol)"
| "new_itemsets g kern shift_symbol (i # isp) =
     (let symbol = ritem g i
      in if 0 < symbol
         then let s = nat symbol
              in new_itemsets g (kern(s := kern s @ [to_short (int i + 1)])) (if kern s = [] then shift_symbol @ [s] else shift_symbol) isp
         else new_itemsets g kern shift_symbol isp)"

definition save_reductions :: "grammar \<Rightarrow> nat \<Rightarrow> nat list \<Rightarrow> automaton \<Rightarrow> automaton" where
  "save_reductions g this itemset a =
     (let redset = map (\<lambda>i. to_short (- ritem g i)) (filter (\<lambda>i. ritem g i < 0) itemset)
      in if redset \<noteq> [] then a\<lparr>reduction_list := reduction_list a @ [(this, redset)]\<rparr> else a)"

text \<open>The insertion sort of the shift symbols, on the array.\<close>

fun sift :: "nat list \<Rightarrow> nat \<Rightarrow> nat \<Rightarrow> nat list" where
  "sift arr 0 symbol = arr[0 := symbol]"
| "sift arr (Suc j) symbol = (if symbol < arr ! j then sift (arr[Suc j := arr ! j]) j symbol else arr[Suc j := symbol])"

primrec sort_symbols :: "nat list \<Rightarrow> nat \<Rightarrow> nat list" where
  "sort_symbols arr 0 = arr"
| "sort_symbols arr (Suc i) = (let arr = sort_symbols arr i in sift arr i (arr ! i))"

definition new_state :: "nat \<Rightarrow> int list \<Rightarrow> automaton \<Rightarrow> lr0_error + nat \<times> automaton" where
  "new_state symbol kern a =
     (if MAXSHORT \<le> length (cores a) then Inl Too_many_states
      else Inr (length (cores a),
        a\<lparr>cores := cores a @ [\<lparr>number = length (cores a), accessing_symbol = symbol, core_nitems = to_short (int (length kern)), items = kern\<rparr>]\<rparr>))"

text \<open>The search in a chain.\<close>

definition find_core :: "automaton \<Rightarrow> int list \<Rightarrow> nat \<Rightarrow> nat option" where
  "find_core a kern key = find (\<lambda>n. core_nitems (cores a ! n) = int (length kern) \<and> take (length kern) (items (cores a ! n)) = kern) (state_set a key)"

definition get_state :: "grammar \<Rightarrow> nat \<Rightarrow> int list \<Rightarrow> automaton \<Rightarrow> lr0_error + nat \<times> automaton" where
  "get_state g symbol kern a =
     (let key = hd kern
      in if 0 \<le> key \<and> key < int (nitems g)
         then (case find_core a kern (nat key) of
                 Some n \<Rightarrow> Inr (number (cores a ! n), a)
               | None \<Rightarrow>
                   (case new_state symbol kern a of
                      Inl e \<Rightarrow> Inl e
                    | Inr (n, a) \<Rightarrow> Inr (n, a\<lparr>state_set := (state_set a)(nat key := state_set a (nat key) @ [n])\<rparr>)))
         else Inl Assertion_failed)"

primrec get_states :: "grammar \<Rightarrow> (nat \<Rightarrow> int list) \<Rightarrow> nat list \<Rightarrow> automaton \<Rightarrow> lr0_error + nat list \<times> automaton" where
  "get_states g kern [] a = Inr ([], a)"
| "get_states g kern (symbol # ss) a =
     (case get_state g symbol (kern symbol) a of
        Inl e \<Rightarrow> Inl e
      | Inr (n, a) \<Rightarrow> (case get_states g kern ss a of Inl e \<Rightarrow> Inl e | Inr (ns, a) \<Rightarrow> Inr (n # ns, a)))"

definition append_states :: "grammar \<Rightarrow> (nat \<Rightarrow> int list) \<Rightarrow> nat list \<Rightarrow> automaton \<Rightarrow> lr0_error + nat list \<times> automaton" where
  "append_states g kern shift_symbol a = get_states g kern (sort_symbols shift_symbol (length shift_symbol)) a"

definition save_shifts :: "nat \<Rightarrow> nat list \<Rightarrow> automaton \<Rightarrow> automaton" where
  "save_shifts this shiftset a = a\<lparr>shift_list := shift_list a @ [(this, shiftset)]\<rparr>"

definition initialize_states :: "grammar \<Rightarrow> automaton" where
  "initialize_states g =
     (let start_derives = takeWhile (\<lambda>r. 0 \<le> r) (set_derives g (start_symbol g))
      in \<lparr>cores = [\<lparr>number = 0, accessing_symbol = 0, core_nitems = to_short (int (length start_derives)), items = map (\<lambda>r. int (rrhs g (nat r))) start_derives\<rparr>],
          state_set = (\<lambda>_. []), shift_list = [], reduction_list = []\<rparr>)"

text \<open>The body of the loop; the arguments of \<open>closure\<close> are the array of items of the state and its count.\<close>

definition expand_state :: "grammar \<Rightarrow> words \<Rightarrow> nat \<Rightarrow> automaton \<Rightarrow> lr0_error + automaton" where
  "expand_state g fd this a =
     (let n = number (cores a ! this); nucleus = take (nat (core_nitems (cores a ! this))) (items (cores a ! this))
      in if list_ex (\<lambda>i. i < 0) nucleus then Inl Out_of_range
         else let itemset = closure g fd (map nat nucleus);
                  a = save_reductions g n itemset a;
                  (kern, shift_symbol) = new_itemsets g (\<lambda>_. []) [] itemset
              in case append_states g kern shift_symbol a of
                   Inl e \<Rightarrow> Inl e
                 | Inr (shiftset, a) \<Rightarrow> Inr (if shift_symbol \<noteq> [] then save_shifts n shiftset a else a))"

text \<open>The option is for a loop that does not end.\<close>

partial_function (option) expand_states :: "grammar \<Rightarrow> words \<Rightarrow> nat \<Rightarrow> automaton \<Rightarrow> (lr0_error + automaton) option" where
  "expand_states g fd this a =
     (if this < length (cores a)
      then (case expand_state g fd this a of Inl e \<Rightarrow> Some (Inl e) | Inr a \<Rightarrow> expand_states g fd (Suc this) a)
      else Some (Inr a))"

definition generate_states :: "grammar \<Rightarrow> (lr0_error + automaton) option" where
  "generate_states g = expand_states g (set_first_derives g) 0 (initialize_states g)"

declare expand_states.simps [code]

section \<open>The canonical collection\<close>

text \<open>The kernel of the successor of an item set, and the kernels that are reachable from the initial one.\<close>

definition goto_kernel :: "grammar \<Rightarrow> nat set \<Rightarrow> nat \<Rightarrow> nat set" where
  "goto_kernel g K X = {i + 1 | i. lr0 g K i \<and> ritem g i = int X}"

definition start_kernel :: "grammar \<Rightarrow> nat set" where
  "start_kernel g = {rrhs g r | r. r < nrules g \<and> rlhs g r = int (start_symbol g)}"

inductive kernels :: "grammar \<Rightarrow> nat set \<Rightarrow> bool" for g where
  kernels_start: "kernels g (start_kernel g)"
| kernels_goto: "kernels g K \<Longrightarrow> 0 < X \<Longrightarrow> goto_kernel g K X \<noteq> {} \<Longrightarrow> kernels g (goto_kernel g K X)"

text \<open>A grammar as the reader packs it, whose items and symbols can be numbered by shorts: then the arrays of shorts \<open>ritem\<close>, \<open>rlhs\<close> and \<open>rrhs\<close> hold what the reader stores there.\<close>

definition short_grammar :: "grammar \<Rightarrow> bool" where
  "short_grammar g \<longleftrightarrow> wf_grammar g \<and> packed g \<and> nitems g \<le> MAXSHORT \<and> nsyms g \<le> MAXSHORT"

section \<open>Items are shorts\<close>

lemma rrhs_bounds:
  assumes "packed g" and "2 \<le> r" and "r \<le> nrules g"
  shows "r \<le> Suc (rrhs g r)" and "r < nrules g \<Longrightarrow> rrhs g r < nitems g"
proof -
  have up: "rrhs g r + (k - r) \<le> rrhs g k" if "2 \<le> r" "r \<le> k" "k \<le> nrules g" for r k
    using that
  proof (induction k)
    case (Suc k)
    show ?case
    proof (cases "r = Suc k")
      case False
      then have "rrhs g k < rrhs g (Suc k)" using assms(1) Suc.prems by (simp add: packed_def)
      then show ?thesis using Suc False by fastforce
    qed simp
  qed simp
  have p: "rrhs g 2 = 1" "rrhs g (nrules g) = nitems g" using assms(1) by (simp_all add: packed_def)
  show "r \<le> Suc (rrhs g r)" using up [of 2 r] assms p by simp
  show "rrhs g r < nitems g" if "r < nrules g" using up [of r "nrules g"] assms that p by simp
qed

text \<open>Every item lies in the right-hand side of a rule, or on the negative number that ends it.\<close>

lemma item_in_rule:
  assumes "packed g" and "1 \<le> i" and "i < rrhs g n" and "2 \<le> n" and "n \<le> nrules g"
  shows "\<exists>r. 2 \<le> r \<and> r < nrules g \<and> (if Suc i = rrhs g (Suc r) then ritem g i = - int r else 0 \<le> ritem g i \<and> Suc i < rrhs g (Suc r))"
  using assms(3-)
proof (induction n)
  case (Suc n)
  show ?case
  proof (cases "2 \<le> n \<and> rrhs g n \<le> i")
    case True
    then have n: "ritem g (rrhs g (Suc n) - 1) = - int n" "\<forall>s \<in> set (rhs g n). 0 \<le> s" using assms(1) Suc.prems unfolding packed_def by auto
    have "0 \<le> ritem g i" if "i < rrhs g (Suc n) - 1" using n(2) True that by (auto simp: rhs_def)
    moreover have "ritem g i = - int n" if "Suc i = rrhs g (Suc n)" using n(1) that by (metis diff_Suc_1)
    ultimately show ?thesis using True Suc.prems by (intro exI [of _ n]) auto
  next
    case False
    have "rrhs g 2 = 1" using assms(1) by (simp add: packed_def)
    then have "2 \<le> n" using Suc.prems assms(2) False by (cases "n = 1") (auto simp: numeral_2_eq_2)
    then show ?thesis using Suc False by simp
  qed
qed simp

lemma item_bounds:
  assumes "short_grammar g" and "1 \<le> i" and "i < nitems g"
  shows "0 \<le> ritem g i \<Longrightarrow> Suc i < nitems g" and "- int MAXSHORT \<le> ritem g i"
proof -
  have p: "packed g" "2 \<le> nrules g" "rrhs g (nrules g) = nitems g" using assms(1) by (auto simp: short_grammar_def packed_def)
  obtain r where r: "2 \<le> r" "r < nrules g" "if Suc i = rrhs g (Suc r) then ritem g i = - int r else 0 \<le> ritem g i \<and> Suc i < rrhs g (Suc r)"
    using item_in_rule [OF p(1) assms(2), of "nrules g"] assms(3) p by auto
  have "rrhs g (Suc r) \<le> nitems g" using rrhs_bounds(2) [OF p(1), of "Suc r"] r p(3) by (cases "Suc r = nrules g") auto
  then show "Suc i < nitems g" if "0 \<le> ritem g i" using r(1,3) that by (auto split: if_splits)
  have "r \<le> nitems g" using rrhs_bounds [OF p(1) r(1)] r(2) by simp
  then show "- int MAXSHORT \<le> ritem g i" using r(3) assms(1) by (auto simp: short_grammar_def split: if_splits)
qed

lemma lr0_bounds:
  assumes "short_grammar g" and "N \<subseteq> {1..<nitems g}" and "lr0 g N i"
  shows "1 \<le> i \<and> i < nitems g"
  using assms(3)
proof induction
  case (expand it A r)
  have w: "wf_grammar g" "packed g" using assms(1) by (simp_all add: short_grammar_def)
  have "r \<in> rules g (A - start_symbol g)" using expand.hyps by simp
  then have "2 \<le> r" using wf_rules(2) [OF w(1)] by blast
  then show ?case using rrhs_bounds [OF w(2), of r] expand.hyps by simp
qed (use assms(2) in auto)

lemma kernel_bounds:
  assumes "short_grammar g" and "kernels g K"
  shows "K \<subseteq> {1..<nitems g}"
  using assms(2)
proof induction
  case kernels_start
  have w: "wf_grammar g" "packed g" using assms(1) by (simp_all add: short_grammar_def)
  have "2 \<le> r" if "r < nrules g" "rlhs g r = int (start_symbol g)" for r using wf_rules(2) [OF w(1), of r 0] that by simp
  then show ?case using rrhs_bounds [OF w(2)] by (fastforce simp: start_kernel_def)
next
  case (kernels_goto K X)
  then show ?case using lr0_bounds [OF assms(1) kernels_goto.IH] item_bounds(1) [OF assms(1)] by (fastforce simp: goto_kernel_def)
qed

section \<open>Correctness\<close>

lemma new_itemsets_spec:
  assumes "new_itemsets g kern ss isp = (kern', ss')"
  shows "kern' s = kern s @ map (\<lambda>i. to_short (int i + 1)) (filter (\<lambda>i. ritem g i = int s \<and> 0 < s) isp)"
    and "set ss = {s. kern s \<noteq> []} \<Longrightarrow> distinct ss \<Longrightarrow> set ss' = {s. kern' s \<noteq> []} \<and> distinct ss'"
  using assms
proof (induction isp arbitrary: kern ss)
  case Nil
  { case 1 then show ?case by simp }
  { case 2 then show ?case by simp }
next
  case (Cons i isp)
  { case 1
    then show ?case using Cons.IH(1) by (auto simp: Let_def split: if_splits) }
  { case 2
    show ?case
    proof (cases "0 < ritem g i")
      case True
      let ?s = "nat (ritem g i)"
      have e: "new_itemsets g (kern(?s := kern ?s @ [to_short (int i + 1)])) (if kern ?s = [] then ss @ [?s] else ss) isp = (kern', ss')"
        using True 2(3) by (simp add: Let_def)
      show ?thesis by (rule Cons.IH(2) [OF _ _ e]) (use 2(1,2) in auto)
    next
      case False
      then show ?thesis using Cons.IH(2) 2 by (simp add: Let_def)
    qed }
qed

lemma sift_spec:
  assumes "j < length arr" and "sorted (take j arr)"
  shows "length (sift arr j x) = length arr \<and> mset (take (Suc j) (sift arr j x)) = add_mset x (mset (take j arr)) \<and> sorted (take (Suc j) (sift arr j x)) \<and>
    drop (Suc j) (sift arr j x) = drop (Suc j) arr"
  using assms
proof (induction arr j x rule: sift.induct)
  case (1 arr x)
  then show ?case by (cases arr) auto
next
  case (2 arr j x)
  have t: "take (Suc j) arr = take j arr @ [arr ! j]" "take j (arr[Suc j := y]) = take j arr" for y using "2.prems"(1) by (simp_all add: take_Suc_conv_app_nth)
  have st: "sorted (take j arr)" "\<forall>y \<in> set (take j arr). y \<le> arr ! j" using "2.prems"(2) unfolding t(1) by (simp_all add: sorted_append)
  show ?case
  proof (cases "x < arr ! j")
    case True
    let ?arr = "arr[Suc j := arr ! j]" and ?r = "sift (arr[Suc j := arr ! j]) j x"
    have ih: "length ?r = length arr" "mset (take (Suc j) ?r) = add_mset x (mset (take j arr))" "sorted (take (Suc j) ?r)" "drop (Suc j) ?r = drop (Suc j) ?arr"
      using "2.IH" [OF True] "2.prems"(1) st(1) t(2) by simp_all
    have "?r ! Suc j = drop (Suc j) ?r ! 0" using ih(1) "2.prems"(1) by simp
    also have "\<dots> = arr ! j" unfolding ih(4) using "2.prems"(1) by simp
    finally have n: "take (Suc (Suc j)) ?r = take (Suc j) ?r @ [arr ! j]" using ih(1) "2.prems"(1) by (simp add: take_Suc_conv_app_nth)
    have "set (take (Suc j) ?r) = insert x (set (take j arr))" using arg_cong [OF ih(2), of set_mset] by simp
    then have "sorted (take (Suc (Suc j)) ?r)" unfolding n using ih(3) st(2) True by (auto simp: sorted_append)
    moreover have "mset (take (Suc (Suc j)) ?r) = add_mset x (mset (take (Suc j) arr))" unfolding n t(1) using ih(2) by simp
    moreover have "drop (Suc (Suc j)) ?r = drop (Suc (Suc j)) arr"
    proof -
      have "drop 1 (drop (Suc j) ?r) = drop 1 (drop (Suc j) ?arr)" using ih(4) by simp
      then show ?thesis by (simp add: drop_drop)
    qed
    ultimately show ?thesis using True ih(1) by simp
  next
    case False
    have "take (Suc (Suc j)) (arr[Suc j := x]) = take (Suc j) arr @ [x]" using "2.prems"(1) by (simp add: take_Suc_conv_app_nth take_update_cancel)
    then show ?thesis using False "2.prems" st t(1) by (auto simp: sorted_append)
  qed
qed

lemma sort_symbols_spec:
  "i \<le> length arr \<Longrightarrow> length (sort_symbols arr i) = length arr \<and> mset (sort_symbols arr i) = mset arr \<and> sorted (take i (sort_symbols arr i)) \<and> drop i (sort_symbols arr i) = drop i arr"
proof (induction i)
  case (Suc i)
  let ?a = "sort_symbols arr i"
  have ih: "length ?a = length arr" "mset ?a = mset arr" "sorted (take i ?a)" "drop i ?a = drop i arr" using Suc by simp_all
  have l: "i < length ?a" using Suc.prems ih(1) by simp
  note s = sift_spec [OF l ih(3), of "?a ! i"]
  have "mset (sift ?a i (?a ! i)) = mset (take (Suc i) (sift ?a i (?a ! i))) + mset (drop (Suc i) (sift ?a i (?a ! i)))"
    by (metis append_take_drop_id mset_append)
  also have "\<dots> = mset (take (Suc i) ?a) + mset (drop (Suc i) ?a)"
  proof -
    have "mset (take (Suc i) ?a) = add_mset (?a ! i) (mset (take i ?a))" unfolding take_Suc_conv_app_nth [OF l] by simp
    then show ?thesis using s by metis
  qed
  also have "\<dots> = mset ?a" by (metis append_take_drop_id mset_append)
  finally have "mset (sift ?a i (?a ! i)) = mset arr" using ih(2) by simp
  moreover have "drop (Suc i) ?a = drop (Suc i) arr" using arg_cong [OF ih(4), of "drop 1"] by (simp add: drop_drop)
  ultimately show ?case using s ih(1) by (simp add: Let_def)
qed simp

lemma sorted_symbols:
  assumes "distinct ss"
  shows "sorted_wrt (<) (sort_symbols ss (length ss))" and "set (sort_symbols ss (length ss)) = set ss"
proof -
  let ?r = "sort_symbols ss (length ss)"
  have "length ?r = length ss" "mset ?r = mset ss" "sorted (take (length ss) ?r)" using sort_symbols_spec [of "length ss" ss] by blast+
  then have s: "mset ?r = mset ss" "sorted ?r" by simp_all
  then show "set ?r = set ss" by (metis set_mset_mset)
  have "distinct ?r" using s(1) assms by (metis mset_eq_imp_distinct_iff)
  then show "sorted_wrt (<) ?r" using s(2) by (simp add: strict_sorted_iff)
qed

text \<open>The invariant of the automaton under construction.\<close>

definition kernel_list :: "grammar \<Rightarrow> int list \<Rightarrow> bool" where
  "kernel_list g is \<longleftrightarrow> sorted_wrt (<) is \<and> (\<forall>i \<in> set is. 0 \<le> i) \<and> kernels g (nat ` set is)"

definition core_ok :: "grammar \<Rightarrow> core \<Rightarrow> bool" where
  "core_ok g c \<longleftrightarrow> kernel_list g (items c) \<and> core_nitems c = int (length (items c))"

definition after :: "grammar \<Rightarrow> nat \<Rightarrow> int list \<Rightarrow> bool" where
  "after g X kern \<longleftrightarrow> kern \<noteq> [] \<and> (\<forall>i \<in> set kern. ritem g (nat i - 1) = int X)"

definition aut_inv :: "grammar \<Rightarrow> automaton \<Rightarrow> bool" where
  "aut_inv g a \<longleftrightarrow> 0 < length (cores a) \<and> length (cores a) \<le> MAXSHORT \<and> (\<forall>n < length (cores a). number (cores a ! n) = n \<and> core_ok g (cores a ! n)) \<and>
     (\<forall>k n. n \<in> set (state_set a k) \<longleftrightarrow> 0 < n \<and> n < length (cores a) \<and> hd (items (cores a ! n)) = int k) \<and>
     (\<forall>n n'. 0 < n \<and> n < n' \<and> n' < length (cores a) \<longrightarrow> items (cores a ! n) \<noteq> items (cores a ! n')) \<and>
     (\<forall>n. 0 < n \<and> n < length (cores a) \<longrightarrow> after g (accessing_symbol (cores a ! n)) (items (cores a ! n)))"

definition extends :: "automaton \<Rightarrow> automaton \<Rightarrow> bool" where
  "extends a b \<longleftrightarrow> (\<exists>cs. cores b = cores a @ cs) \<and> shift_list b = shift_list a \<and> reduction_list b = reduction_list a"

lemma extends_refl [simp]: "extends a a"
  by (simp add: extends_def)

lemma extends_trans: "extends a b \<Longrightarrow> extends b c \<Longrightarrow> extends a c"
  by (auto simp: extends_def)

lemma extends_nth: "extends a b \<Longrightarrow> n < length (cores a) \<Longrightarrow> cores b ! n = cores a ! n \<and> n < length (cores b)"
  by (auto simp: extends_def nth_append)

lemma kernel_list_bounds:
  assumes "short_grammar g" and "kernel_list g is"
  shows "i \<in> set is \<Longrightarrow> 0 \<le> i \<and> i < int (nitems g)" and "to_short (int (length is)) = int (length is)"
proof -
  have k: "nat ` set is \<subseteq> {1..<nitems g}" "\<forall>i \<in> set is. 0 \<le> i" using assms kernel_bounds by (auto simp: kernel_list_def)
  then show "i \<in> set is \<Longrightarrow> 0 \<le> i \<and> i < int (nitems g)" for i by fastforce
  then have "set is \<subseteq> {0..<int (nitems g)}" by auto
  then have "card (set is) \<le> card {0..<int (nitems g)}" by (rule card_mono [rotated]) simp
  moreover have "distinct is" using assms(2) strict_sorted_iff by (auto simp: kernel_list_def)
  ultimately have "length is \<le> nitems g" by (simp add: distinct_card)
  then show "to_short (int (length is)) = int (length is)" using assms(1) by (intro to_short_small) (auto simp: short_grammar_def MAXSHORT_def)
qed

lemma kernel_list_eq:
  assumes "kernel_list g xs" and "kernel_list g ys" and "nat ` set xs = nat ` set ys"
  shows "xs = ys"
proof -
  have inv: "int ` nat ` set zs = set zs" if "kernel_list g zs" for zs using that by (simp add: kernel_list_def image_image)
  have "int ` nat ` set xs = set xs" "int ` nat ` set ys = set ys" using inv assms(1,2) by auto
  then have "set xs = set ys" using assms(3) by metis
  then show ?thesis using strict_sorted_equal assms(1,2) unfolding kernel_list_def by blast
qed

lemma get_state_spec:
  assumes "short_grammar g" and "aut_inv g a" and "after g X kern" and "kernel_list g kern"
  shows "case get_state g X kern a of
           Inl e \<Rightarrow> e = Too_many_states \<and> length (cores a) = MAXSHORT \<and> (\<forall>n. 0 < n \<and> n < length (cores a) \<longrightarrow> items (cores a ! n) \<noteq> kern)
         | Inr (n, b) \<Rightarrow> aut_inv g b \<and> extends a b \<and> n < length (cores b) \<and> items (cores b ! n) = kern \<and> accessing_symbol (cores b ! n) = X"
proof -
  let ?k = "nat (hd kern)"
  have ch: "n \<in> set (state_set a k) \<longleftrightarrow> 0 < n \<and> n < length (cores a) \<and> hd (items (cores a ! n)) = int k" for k n using assms(2) by (simp add: aut_inv_def)
  have "hd kern \<in> set kern" using assms(3) by (simp add: after_def)
  then have key: "0 \<le> hd kern" "hd kern < int (nitems g)" using kernel_list_bounds(1) [OF assms(1,4)] by auto
  have ni: "core_nitems (cores a ! n) = int (length (items (cores a ! n)))" if "n < length (cores a)" for n using assms(2) that by (simp add: aut_inv_def core_ok_def)
  have same: "core_nitems (cores a ! n) = int (length kern) \<and> take (length kern) (items (cores a ! n)) = kern \<longleftrightarrow> items (cores a ! n) = kern" if "n < length (cores a)" for n
    using ni [OF that] by auto
  show ?thesis
  proof (cases "find_core a kern ?k")
    case (Some n)
    then have n: "n \<in> set (state_set a ?k)" "core_nitems (cores a ! n) = int (length kern) \<and> take (length kern) (items (cores a ! n)) = kern"
      by (auto simp: find_core_def find_Some_iff in_set_conv_nth)
    then have l: "n < length (cores a)" "0 < n" using ch by auto
    then have i: "items (cores a ! n) = kern" using n(2) same by blast
    have "number (cores a ! n) = n" "after g (accessing_symbol (cores a ! n)) kern" using l i assms(2) by (auto simp: aut_inv_def)
    moreover have "accessing_symbol (cores a ! n) = X" using calculation(2) assms(3) by (auto simp: after_def neq_Nil_conv)
    ultimately show ?thesis using Some l i assms(2) key by (simp add: get_state_def)
  next
    case None
    then have "\<forall>n \<in> set (state_set a ?k). \<not> (core_nitems (cores a ! n) = int (length kern) \<and> take (length kern) (items (cores a ! n)) = kern)"
      by (simp add: find_core_def find_None_iff)
    then have "\<forall>n \<in> set (state_set a ?k). items (cores a ! n) \<noteq> kern" using same ch by blast
    then have new: "items (cores a ! n) \<noteq> kern" if "0 < n" "n < length (cores a)" for n using ch [of n ?k] that key(1) by auto
    show ?thesis
    proof (cases "MAXSHORT \<le> length (cores a)")
      case True
      then show ?thesis using None new assms(2) key by (simp add: get_state_def new_state_def aut_inv_def)
    next
      case False
      let ?l = "length (cores a)" and ?c = "\<lparr>number = length (cores a), accessing_symbol = X, core_nitems = int (length kern), items = kern\<rparr>"
      let ?b = "a\<lparr>cores := cores a @ [?c], state_set := (state_set a)(?k := state_set a ?k @ [?l])\<rparr>"
      have g: "get_state g X kern a = Inr (?l, ?b)" using None False key kernel_list_bounds(2) [OF assms(1,4)] by (simp add: get_state_def new_state_def Let_def)
      have "aut_inv g ?b" unfolding aut_inv_def
      proof (intro conjI allI impI; (elim conjE)?)
        fix n assume "n < length (cores ?b)"
        then show "number (cores ?b ! n) = n" "core_ok g (cores ?b ! n)"
          using assms by (auto simp: aut_inv_def nth_append core_ok_def less_Suc_eq)
      next
        fix k n
        show "n \<in> set (state_set ?b k) \<longleftrightarrow> 0 < n \<and> n < length (cores ?b) \<and> hd (items (cores ?b ! n)) = int k"
          using ch [of n k] assms(2) key by (auto simp: nth_append less_Suc_eq aut_inv_def)
      next
        fix n n' assume "0 < n" "n < n'" "n' < length (cores ?b)"
        then show "items (cores ?b ! n) \<noteq> items (cores ?b ! n')" using assms(2) new by (auto simp: nth_append aut_inv_def less_Suc_eq)
      next
        fix n assume "0 < n" "n < length (cores ?b)"
        then show "after g (accessing_symbol (cores ?b ! n)) (items (cores ?b ! n))" using assms(2,3) by (auto simp: nth_append aut_inv_def less_Suc_eq)
      qed (use assms(2) False in \<open>auto simp: aut_inv_def\<close>)
      moreover have "extends a ?b" by (simp add: extends_def)
      ultimately show ?thesis unfolding g by (simp add: nth_append)
    qed
  qed
qed

definition targets :: "automaton \<Rightarrow> (nat \<Rightarrow> int list) \<Rightarrow> nat list \<Rightarrow> nat list \<Rightarrow> bool" where
  "targets a kern ss ns \<longleftrightarrow> list_all2 (\<lambda>X n. n < length (cores a) \<and> items (cores a ! n) = kern X \<and> accessing_symbol (cores a ! n) = X) ss ns"

definition too_many :: "grammar \<Rightarrow> bool" where
  "too_many g \<longleftrightarrow> (\<exists>S. finite S \<and> card S = MAXSHORT \<and> (\<forall>K \<in> S. kernels g K))"

lemma too_many_states:
  assumes "aut_inv g a" and "length (cores a) = MAXSHORT" and "\<forall>n. 0 < n \<and> n < length (cores a) \<longrightarrow> items (cores a ! n) \<noteq> kern" and "kernel_list g kern"
  shows "too_many g"
proof -
  let ?i = "\<lambda>n. if n = 0 then kern else items (cores a ! n)"
  have so: "kernel_list g (?i n)" if "n < MAXSHORT" for n using assms(1,2,4) that by (simp add: aut_inv_def core_ok_def)
  have dist: "items (cores a ! n) \<noteq> items (cores a ! n')" if "0 < n" "0 < n'" "n \<noteq> n'" "n < MAXSHORT" "n' < MAXSHORT" for n n'
    using assms(1,2) that linorder_less_linear [of n n'] unfolding aut_inv_def by metis
  have "inj_on (\<lambda>n. nat ` set (?i n)) {..<MAXSHORT}"
  proof (rule inj_onI)
    fix n n' assume n: "n \<in> {..<MAXSHORT}" "n' \<in> {..<MAXSHORT}" and e: "nat ` set (?i n) = nat ` set (?i n')"
    have "?i n = ?i n'" by (rule kernel_list_eq [OF so so e]) (use n in auto)
    then show "n = n'" using n assms(2,3) dist [of n n'] by (auto split: if_splits)
  qed
  then have "card ((\<lambda>n. nat ` set (?i n)) ` {..<MAXSHORT}) = MAXSHORT" by (simp only: card_image card_lessThan)
  moreover have "\<forall>K \<in> (\<lambda>n. nat ` set (?i n)) ` {..<MAXSHORT}. kernels g K" using so by (auto simp: kernel_list_def split: if_splits)
  ultimately show ?thesis unfolding too_many_def by blast
qed

lemma targets_extends: "targets a kern ss ns \<Longrightarrow> extends a b \<Longrightarrow> targets b kern ss ns"
  unfolding targets_def by (erule list_all2_mono) (use extends_nth in auto)

lemma get_states_spec:
  assumes "short_grammar g" and "aut_inv g a" and "\<forall>X \<in> set ss. after g X (kern X) \<and> kernel_list g (kern X)"
  shows "case get_states g kern ss a of Inl e \<Rightarrow> e = Too_many_states \<and> too_many g | Inr (ns, b) \<Rightarrow> aut_inv g b \<and> extends a b \<and> targets b kern ss ns"
  using assms(2,3)
proof (induction ss arbitrary: a)
  case Nil
  then show ?case by (simp add: targets_def)
next
  case (Cons X ss)
  have X: "after g X (kern X)" "kernel_list g (kern X)" using Cons.prems(2) by simp_all
  note s = get_state_spec [OF assms(1) Cons.prems(1) X]
  show ?case
  proof (cases "get_state g X (kern X) a")
    case (Inl e)
    then show ?thesis using s too_many_states [OF Cons.prems(1) _ _ X(2)] by simp
  next
    case (Inr p)
    obtain n b where p: "p = (n, b)" by force
    have b: "aut_inv g b" "extends a b" "n < length (cores b)" "items (cores b ! n) = kern X" "accessing_symbol (cores b ! n) = X" using s by (simp_all add: Inr p)
    have ih: "case get_states g kern ss b of Inl e \<Rightarrow> e = Too_many_states \<and> too_many g | Inr (ns, c) \<Rightarrow> aut_inv g c \<and> extends b c \<and> targets c kern ss ns"
      by (rule Cons.IH [OF b(1)]) (use Cons.prems(2) in simp)
    show ?thesis
    proof (cases "get_states g kern ss b")
      case (Inl e)
      then show ?thesis using ih Inr p by simp
    next
      case s2: (Inr q)
      obtain ns c where q: "q = (ns, c)" by force
      have c: "aut_inv g c" "extends b c" "targets c kern ss ns" using ih by (simp_all add: s2 q)
      have "targets c kern (X # ss) (n # ns)" using c(3) extends_nth [OF c(2) b(3)] b(4,5) by (simp add: targets_def)
      then show ?thesis using Inr p s2 q c(1) extends_trans [OF b(2) c(2)] by simp
    qed
  qed
qed

text \<open>The shifts and the reductions of state \<open>n\<close>.\<close>

definition kern_of :: "automaton \<Rightarrow> nat \<Rightarrow> nat set" where "kern_of a n = nat ` set (items (cores a ! n))"

definition shifts_of :: "grammar \<Rightarrow> automaton \<Rightarrow> nat \<Rightarrow> nat list \<Rightarrow> bool" where
  "shifts_of g a n ns \<longleftrightarrow> (\<forall>k \<in> set ns. k < length (cores a) \<and> kern_of a k = goto_kernel g (kern_of a n) (accessing_symbol (cores a ! k))) \<and>
     sorted_wrt (<) (map (\<lambda>k. accessing_symbol (cores a ! k)) ns) \<and> set (map (\<lambda>k. accessing_symbol (cores a ! k)) ns) = {X. 0 < X \<and> goto_kernel g (kern_of a n) X \<noteq> {}}"

definition reductions_of :: "grammar \<Rightarrow> nat set \<Rightarrow> int list \<Rightarrow> bool" where
  "reductions_of g K rs \<longleftrightarrow> (\<exists>is. sorted_wrt (<) is \<and> set is = {i. lr0 g K i \<and> ritem g i < 0} \<and> rs = map (\<lambda>i. - ritem g i) is)"

lemma shifts_of_extends:
  assumes "shifts_of g a n ns" and "extends a b" and "n < length (cores a)"
  shows "shifts_of g b n ns"
proof -
  have e: "\<forall>k \<in> set ns. cores b ! k = cores a ! k" "\<forall>k \<in> set ns. k < length (cores b)" "kern_of b n = kern_of a n"
    using assms extends_nth [OF assms(2)] by (auto simp: shifts_of_def kern_of_def)
  have m: "map (\<lambda>k. accessing_symbol (cores b ! k)) ns = map (\<lambda>k. accessing_symbol (cores a ! k)) ns" using e(1) by simp
  show ?thesis using assms(1) e unfolding shifts_of_def m by (auto simp: kern_of_def)
qed

text \<open>The kernels and the symbols that \<open>new_itemsets\<close> finds in a closure.\<close>

lemma new_itemsets_closure:
  assumes "short_grammar g" and "sorted_wrt (<) nucleus" and "kernels g (set nucleus)" and "new_itemsets g (\<lambda>_. []) [] (closure g (set_first_derives g) nucleus) = (kern, ss)"
  shows "distinct ss" and "set ss = {X. 0 < X \<and> goto_kernel g (set nucleus) X \<noteq> {}}"
    and "X \<in> set ss \<Longrightarrow> nat ` set (kern X) = goto_kernel g (set nucleus) X \<and> after g X (kern X) \<and> kernel_list g (kern X)"
proof -
  let ?its = "closure g (set_first_derives g) nucleus"
  have w: "wf_grammar g" "nitems g \<le> MAXSHORT" using assms(1) by (simp_all add: short_grammar_def)
  note c = closure_spec [OF w(1) assms(2)]
  have "i < MAXSHORT" if "i \<in> set ?its" for i using lr0_bounds [OF assms(1) kernel_bounds [OF assms(1,3)], of i] c that w(2) by auto
  then have "to_short (int i + 1) = int (Suc i)" if "i \<in> set ?its" for i using that by (subst to_short_small) (fastforce simp: MAXSHORT_def)+
  then have k: "kern X = map (\<lambda>i. int (Suc i)) (filter (\<lambda>i. ritem g i = int X \<and> 0 < X) ?its)" for X using new_itemsets_spec(1) [OF assms(4)] by simp
  have s: "nat ` set (kern X) = (if 0 < X then goto_kernel g (set nucleus) X else {})" for X 
  proof -
    have "nat ` set (kern X) = Suc ` {i. lr0 g (set nucleus) i \<and> ritem g i = int X \<and> 0 < X}" unfolding k using c by (simp add: image_image nat_add_distrib)
    then show ?thesis by (auto simp: goto_kernel_def)
  qed
  have d: "set ss = {X. kern X \<noteq> []} \<and> distinct ss" using new_itemsets_spec(2) [OF assms(4)] by simp
  then show "distinct ss" by blast
  show ss: "set ss = {X. 0 < X \<and> goto_kernel g (set nucleus) X \<noteq> {}}" 
  proof -
    have "kern X \<noteq> [] \<longleftrightarrow> 0 < X \<and> goto_kernel g (set nucleus) X \<noteq> {}" for X using s [of X] by (cases "kern X") (auto split: if_splits)
    then show ?thesis using d by simp
  qed
  have so: "sorted_wrt (<) (kern X)" for X unfolding k sorted_wrt_map using c by (simp add: sorted_wrt_filter)
  assume X: "X \<in> set ss"
  then have "kern X \<noteq> []" using d by blast
  moreover have "\<forall>i \<in> set (kern X). ritem g (nat i - 1) = int X \<and> 0 \<le> i" unfolding k by (auto simp: nat_add_distrib)
  moreover have "kernels g (goto_kernel g (set nucleus) X)" using kernels_goto [OF assms(3)] X ss by simp
  ultimately show "nat ` set (kern X) = goto_kernel g (set nucleus) X \<and> after g X (kern X) \<and> kernel_list g (kern X)"
    using s [of X] so X ss by (simp add: after_def kernel_list_def)
qed

definition progress :: "grammar \<Rightarrow> nat \<Rightarrow> automaton \<Rightarrow> bool" where
  "progress g k a \<longleftrightarrow> aut_inv g a \<and> k \<le> length (cores a) \<and> kern_of a 0 = start_kernel g \<and>
     map fst (shift_list a) = filter (\<lambda>n. \<exists>X > 0. goto_kernel g (kern_of a n) X \<noteq> {}) [0..<k] \<and> (\<forall>(n, ns) \<in> set (shift_list a). shifts_of g a n ns) \<and>
     map fst (reduction_list a) = filter (\<lambda>n. \<exists>i. lr0 g (kern_of a n) i \<and> ritem g i < 0) [0..<k] \<and> (\<forall>(n, rs) \<in> set (reduction_list a). reductions_of g (kern_of a n) rs)"

lemma progress_extends:
  assumes "progress g k a" and "extends a b" and "aut_inv g b"
  shows "progress g k b"
proof -
  have n: "n < length (cores a) \<Longrightarrow> kern_of b n = kern_of a n" for n using extends_nth [OF assms(2)] by (simp add: kern_of_def)
  have k: "k \<le> length (cores a)" "0 < length (cores a)" using assms(1) by (simp_all add: progress_def aut_inv_def)
  have e: "shift_list b = shift_list a" "reduction_list b = reduction_list a" "length (cores a) \<le> length (cores b)" using assms(2) by (auto simp: extends_def)
  have f: "filter (\<lambda>n. P (kern_of b n)) [0..<k] = filter (\<lambda>n. P (kern_of a n)) [0..<k]" for P by (rule filter_cong) (use n k in auto)
  have m: "n' < length (cores a)" if "n' \<in> set (map fst (shift_list a)) \<or> n' \<in> set (map fst (reduction_list a))" for n'
  proof -
    have "n' < k" using that assms(1) by (auto simp only: progress_def set_filter set_upt atLeastLessThan_iff)
    then show ?thesis using k(1) by simp
  qed
  have ms: "n' < length (cores a)" if "(n', ns) \<in> set (shift_list a)" for n' ns using m [of n'] imageI [OF that, of fst] by simp
  have mr: "n' < length (cores a)" if "(n', rs) \<in> set (reduction_list a)" for n' rs using m [of n'] imageI [OF that, of fst] by simp
  have "shifts_of g b n' ns" if "(n', ns) \<in> set (shift_list a)" for n' ns
    using assms(1) that shifts_of_extends [OF _ assms(2) ms [OF that]] unfolding progress_def by blast
  moreover have "reductions_of g (kern_of b n') rs" if "(n', rs) \<in> set (reduction_list a)" for n' rs
    using assms(1) that unfolding n [OF mr [OF that]] progress_def by blast
  ultimately show ?thesis using assms(1,3) e k n f [of "\<lambda>K. \<exists>X > 0. goto_kernel g K X \<noteq> {}"] f [of "\<lambda>K. \<exists>i. lr0 g K i \<and> ritem g i < 0"]
    unfolding progress_def by auto
qed

lemma save_reductions_simps [simp]:
  "cores (save_reductions g n its a) = cores a" "state_set (save_reductions g n its a) = state_set a" "shift_list (save_reductions g n its a) = shift_list a"
  "aut_inv g' (save_reductions g n its a) = aut_inv g' a" "kern_of (save_reductions g n its a) = kern_of a" "shifts_of g' (save_reductions g n its a) = shifts_of g' a"
  by (auto simp: save_reductions_def Let_def aut_inv_def kern_of_def shifts_of_def fun_eq_iff)

lemma save_shifts_simps [simp]:
  "cores (save_shifts n ns a) = cores a" "state_set (save_shifts n ns a) = state_set a" "reduction_list (save_shifts n ns a) = reduction_list a"
  "aut_inv g' (save_shifts n ns a) = aut_inv g' a" "kern_of (save_shifts n ns a) = kern_of a" "shifts_of g' (save_shifts n ns a) = shifts_of g' a"
  by (auto simp: save_shifts_def aut_inv_def kern_of_def shifts_of_def fun_eq_iff)

lemma save_reductions_spec:
  assumes "short_grammar g" and "sorted_wrt (<) nucleus" and "kernels g (set nucleus)"
  shows "reduction_list (save_reductions g n (closure g (set_first_derives g) nucleus) a) =
      reduction_list a @ (if \<exists>i. lr0 g (set nucleus) i \<and> ritem g i < 0
        then [(n, map (\<lambda>i. - ritem g i) (filter (\<lambda>i. ritem g i < 0) (closure g (set_first_derives g) nucleus)))] else [])"
    and "reductions_of g (set nucleus) (map (\<lambda>i. - ritem g i) (filter (\<lambda>i. ritem g i < 0) (closure g (set_first_derives g) nucleus)))"
proof -
  let ?its = "filter (\<lambda>i. ritem g i < 0) (closure g (set_first_derives g) nucleus)"
  have w: "wf_grammar g" using assms(1) by (simp add: short_grammar_def)
  note c = closure_spec [OF w assms(2)]
  have s: "set ?its = {i. lr0 g (set nucleus) i \<and> ritem g i < 0}" using c by auto
  have "to_short (- ritem g i) = - ritem g i" if "i \<in> set ?its" for i
  proof (rule to_short_small)
    have "1 \<le> i" "i < nitems g" using lr0_bounds [OF assms(1) kernel_bounds [OF assms(1,3)], of i] that s by auto
    from item_bounds(2) [OF assms(1) this] show "- ritem g i < 2 ^ 15" by (simp add: MAXSHORT_def)
  qed (use that in simp)
  then have m: "map (\<lambda>i. to_short (- ritem g i)) ?its = map (\<lambda>i. - ritem g i) ?its" by simp
  have "(?its = []) = (\<not> (\<exists>i. lr0 g (set nucleus) i \<and> ritem g i < 0))" using s by (metis (mono_tags, lifting) empty_Collect_eq set_empty)
  then show "reduction_list (save_reductions g n (closure g (set_first_derives g) nucleus) a) =
      reduction_list a @ (if \<exists>i. lr0 g (set nucleus) i \<and> ritem g i < 0 then [(n, map (\<lambda>i. - ritem g i) ?its)] else [])"
    unfolding save_reductions_def m by (auto simp: Let_def)
  show "reductions_of g (set nucleus) (map (\<lambda>i. - ritem g i) ?its)" unfolding reductions_of_def using s c sorted_wrt_filter by blast
qed

lemma targets_shifts:
  assumes "targets b kern ss ns" and "sorted_wrt (<) ss" and "set ss = {X. 0 < X \<and> goto_kernel g (kern_of b n) X \<noteq> {}}"
    and "\<And>X. X \<in> set ss \<Longrightarrow> nat ` set (kern X) = goto_kernel g (kern_of b n) X"
  shows "shifts_of g b n ns"
proof -
  have l: "length ns = length ss" and t: "i < length ss \<Longrightarrow> ns ! i < length (cores b) \<and> items (cores b ! (ns ! i)) = kern (ss ! i) \<and> accessing_symbol (cores b ! (ns ! i)) = ss ! i" for i
    using assms(1) by (auto simp: targets_def list_all2_conv_all_nth)
  have m: "map (\<lambda>k. accessing_symbol (cores b ! k)) ns = ss" by (rule nth_equalityI) (use l t in auto)
  have "k < length (cores b) \<and> kern_of b k = goto_kernel g (kern_of b n) (accessing_symbol (cores b ! k))" if "k \<in> set ns" for k
  proof -
    obtain i where "i < length ss" "k = ns ! i" using \<open>k \<in> set ns\<close> l by (metis in_set_conv_nth)
    then show ?thesis using t [of i] assms(4) [of "ss ! i"] by (simp add: kern_of_def)
  qed
  then show ?thesis unfolding shifts_of_def m using assms(2,3) by blast
qed

lemma expand_state_spec:
  assumes "short_grammar g" and "progress g k a" and "k < length (cores a)"
  shows "case expand_state g (set_first_derives g) k a of Inl e \<Rightarrow> e = Too_many_states \<and> too_many g | Inr b \<Rightarrow> progress g (Suc k) b"
proof -
  define nuc where "nuc = map nat (items (cores a ! k))"
  let ?its = "closure g (set_first_derives g) nuc"
  obtain kern ss where n: "new_itemsets g (\<lambda>_. []) [] ?its = (kern, ss)" by force
  have inv: "aut_inv g a" and num: "number (cores a ! k) = k" and ok: "core_ok g (cores a ! k)" using assms(2,3) by (simp_all add: progress_def aut_inv_def)
  have nuc: "set nuc = kern_of a k" "kernels g (set nuc)" using ok by (auto simp: nuc_def kern_of_def core_ok_def kernel_list_def)
  have so: "sorted_wrt (<) nuc"
    unfolding nuc_def sorted_wrt_map by (rule sorted_wrt_mono_rel [of _ "(<)"]) (use ok in \<open>auto simp: core_ok_def kernel_list_def\<close>)
  note c = new_itemsets_closure [OF assms(1) so nuc(2) n, unfolded nuc(1)]
  define r where "r = save_reductions g k ?its a"
  define xs where "xs = sort_symbols ss (length ss)"
  note xs = sorted_symbols [OF c(1), folded xs_def]
  have inv_r: "aut_inv g r" using inv by (simp add: r_def)
  have "\<forall>X \<in> set xs. after g X (kern X) \<and> kernel_list g (kern X)" using c unfolding xs(2) by auto
  note s = get_states_spec [OF assms(1) inv_r this]
  have e: "expand_state g (set_first_derives g) k a =
      (case get_states g kern xs r of Inl e \<Rightarrow> Inl e | Inr (ns, b) \<Rightarrow> Inr (if ss \<noteq> [] then save_shifts k ns b else b))"
  proof -
    have "take (nat (core_nitems (cores a ! k))) (items (cores a ! k)) = items (cores a ! k)" "\<not> list_ex (\<lambda>i. i < 0) (items (cores a ! k))"
      using ok by (auto simp: core_ok_def kernel_list_def list_ex_iff)
    then show ?thesis using n by (simp add: expand_state_def Let_def append_states_def num r_def xs_def nuc_def)
  qed
  show ?thesis
  proof (cases "get_states g kern xs r")
    case (Inl x)
    then show ?thesis using s e by simp
  next
    case (Inr p)
    obtain ns b where p: "p = (ns, b)" by force
    have b: "aut_inv g b" "extends r b" "targets b kern xs ns" using s by (simp_all add: Inr p)
    have kb: "kern_of b k = kern_of a k" "k < length (cores b)" using extends_nth [OF b(2)] assms(3) by (simp_all add: kern_of_def r_def)
    have sh: "shifts_of g b k ns" by (rule targets_shifts [OF b(3) xs(1)]) (use c kb xs(2) in auto)
    have ne: "ss \<noteq> [] \<longleftrightarrow> (\<exists>X > 0. goto_kernel g (kern_of a k) X \<noteq> {})" using c(2) by (metis (mono_tags, lifting) empty_Collect_eq set_empty)
    note red = save_reductions_spec(1) [OF assms(1) so nuc(2), of k a, folded r_def, unfolded nuc(1)] save_reductions_spec(2) [OF assms(1) so nuc(2), unfolded nuc(1)]
    have "progress g k (a\<lparr>cores := cores b, state_set := state_set b\<rparr>)"
      by (rule progress_extends [OF assms(2)]) (use b(1,2) in \<open>auto simp: extends_def r_def aut_inv_def\<close>)
    then have pr: "progress g k (b\<lparr>reduction_list := reduction_list a\<rparr>)" "shift_list b = shift_list a" "reduction_list b = reduction_list r"
      using b(2) by (auto simp: progress_def aut_inv_def kern_of_def shifts_of_def extends_def r_def)
    show ?thesis using pr sh ne red kb b(1) unfolding e Inr p
      by (auto simp: progress_def aut_inv_def kern_of_def shifts_of_def save_shifts_def)
  qed
qed

lemma initial_progress:
  assumes "short_grammar g"
  shows "progress g 0 (initialize_states g)"
proof -
  let ?rs = "filter (\<lambda>i. rlhs g i = int (start_symbol g)) [0..<nrules g]"
  have w: "wf_grammar g" using assms by (simp add: short_grammar_def)
  have t: "takeWhile (\<lambda>r. 0 \<le> r) (set_derives g (start_symbol g)) = map int ?rs" unfolding set_derives_def by (subst takeWhile_append2) auto
  have i: "items (cores (initialize_states g) ! 0) = map (\<lambda>r. int (rrhs g r)) ?rs" "core_nitems (cores (initialize_states g) ! 0) = to_short (int (length ?rs))"
    by (simp_all add: initialize_states_def t Let_def)
  have r: "\<forall>r \<in> set ?rs. 2 \<le> r \<and> r < nrules g" using wf_rules(2) [OF w, of _ 0] by auto
  have "sorted_wrt (<) ?rs" by (rule sorted_wrt_filter) simp
  then have s: "sorted_wrt (<) (map (\<lambda>r. int (rrhs g r)) ?rs)"
    unfolding sorted_wrt_map by (rule sorted_wrt_mono_rel [rotated]) (use r w in \<open>auto simp only: wf_grammar_def of_nat_less_iff\<close>)
  have k: "nat ` set (map (\<lambda>r. int (rrhs g r)) ?rs) = start_kernel g" by (auto simp: start_kernel_def image_iff)
  have kl: "kernel_list g (items (cores (initialize_states g) ! 0))" unfolding kernel_list_def i(1) using s k kernels_start by auto
  then have c: "core_ok g (cores (initialize_states g) ! 0)" unfolding core_ok_def i(2) using kernel_list_bounds(2) [OF assms kl] by (simp add: i(1))
  have z: "kern_of (initialize_states g) 0 = start_kernel g" unfolding kern_of_def i k ..
  have l: "length (cores (initialize_states g)) = 1" "number (cores (initialize_states g) ! 0) = 0" "state_set (initialize_states g) x = []"
      "shift_list (initialize_states g) = []" "reduction_list (initialize_states g) = []" for x
    by (simp_all add: initialize_states_def Let_def)
  show ?thesis using c z l by (auto simp: progress_def aut_inv_def MAXSHORT_def)
qed

lemma expand_states_spec:
  assumes "short_grammar g" and "progress g k a"
  shows "(expand_states g (set_first_derives g) k a = Some (Inl Too_many_states) \<and> too_many g) \<or>
    (\<exists>b. expand_states g (set_first_derives g) k a = Some (Inr b) \<and> progress g (length (cores b)) b)"
  using assms(2)
proof (induction "MAXSHORT - k" arbitrary: k a rule: less_induct)
  case less
  show ?case
  proof (cases "k < length (cores a)")
    case False
    then have "k = length (cores a)" using less.prems by (simp add: progress_def)
    then show ?thesis using less.prems by (subst (1 2) expand_states.simps) simp
  next
    case True
    then have k: "k < MAXSHORT" using less.prems by (simp add: progress_def aut_inv_def)
    note s = expand_state_spec [OF assms(1) less.prems True]
    show ?thesis
    proof (cases "expand_state g (set_first_derives g) k a")
      case (Inl e)
      then show ?thesis using s True by (subst (1 2) expand_states.simps) simp
    next
      case (Inr b)
      then have "progress g (Suc k) b" using s by simp
      then have "(expand_states g (set_first_derives g) (Suc k) b = Some (Inl Too_many_states) \<and> too_many g) \<or>
          (\<exists>c. expand_states g (set_first_derives g) (Suc k) b = Some (Inr c) \<and> progress g (length (cores c)) c)"
        by (rule less.hyps [rotated]) (use k in simp)
      then show ?thesis using Inr True by (subst (1 2) expand_states.simps) simp
    qed
  qed
qed

text \<open>When every state has been expanded, the states are the canonical collection.\<close>

lemma all_expanded:
  assumes "progress g (length (cores a)) a"
  shows "{kern_of a n | n. n < length (cores a)} = {K. kernels g K}"
proof
  show "{kern_of a n | n. n < length (cores a)} \<subseteq> {K. kernels g K}" using assms by (auto simp: progress_def aut_inv_def core_ok_def kernel_list_def kern_of_def)
  have "\<exists>n < length (cores a). K = kern_of a n" if "kernels g K" for K
    using that
  proof induction
    case kernels_start
    then show ?case using assms by (auto simp: progress_def aut_inv_def)
  next
    case (kernels_goto K X)
    then obtain n where n: "n < length (cores a)" "K = kern_of a n" by blast
    then have "n \<in> set (map fst (shift_list a))" using assms kernels_goto.hyps by (auto simp: progress_def)
    then obtain ns where ns: "shifts_of g a n ns" using assms by (auto simp: progress_def)
    then have "X \<in> set (map (\<lambda>k. accessing_symbol (cores a ! k)) ns)" using kernels_goto.hyps n(2) unfolding shifts_of_def by blast
    then obtain k where "k \<in> set ns" "X = accessing_symbol (cores a ! k)" by auto
    then show ?case using ns n(2) unfolding shifts_of_def by blast
  qed
  then show "{K. kernels g K} \<subseteq> {kern_of a n | n. n < length (cores a)}" by blast
qed

text \<open>
  C17: for a grammar as the reader packs it, with at most as many items and symbols as a short can count, the construction of the states ends; the assertion of \<open>get_state\<close> holds, and no item, count or rule
  number changes when it is stored in a short.  Either the construction stops with the fatal error, and then the canonical collection really has as many kernels as a short can count; or its states are exactly the canonical
  collection of LR(0) kernels, each with its number; no two of them after the first have the same items; the entries for shifts are those of the states with a successor, in order, each with one successor for every symbol
  after a dot, in the order of the symbols, and the successor has the kernel and the accessing symbol of that shift; and the entries for reductions are those of the states with a complete item, each with the rules of these
  items in order.
\<close>

theorem lr0_automaton:
  assumes "short_grammar g"
  shows "(generate_states g = Some (Inl Too_many_states) \<and> too_many g) \<or>
    (\<exists>a. generate_states g = Some (Inr a) \<and> {kern_of a n | n. n < length (cores a)} = {K. kernels g K} \<and> (\<forall>n < length (cores a). number (cores a ! n) = n) \<and> kern_of a 0 = start_kernel g \<and>
       (\<forall>n < length (cores a). sorted_wrt (<) (items (cores a ! n)) \<and> set (items (cores a ! n)) = int ` kern_of a n \<and> core_nitems (cores a ! n) = int (length (items (cores a ! n)))) \<and>
       (\<forall>n n'. 0 < n \<and> n < n' \<and> n' < length (cores a) \<longrightarrow> items (cores a ! n) \<noteq> items (cores a ! n')) \<and>
       map fst (shift_list a) = filter (\<lambda>n. \<exists>X > 0. goto_kernel g (kern_of a n) X \<noteq> {}) [0..<length (cores a)] \<and> (\<forall>(n, ns) \<in> set (shift_list a). shifts_of g a n ns) \<and>
       map fst (reduction_list a) = filter (\<lambda>n. \<exists>i. lr0 g (kern_of a n) i \<and> ritem g i < 0) [0..<length (cores a)] \<and>
       (\<forall>(n, rs) \<in> set (reduction_list a). reductions_of g (kern_of a n) rs))"
proof -
  note e = expand_states_spec [OF assms initial_progress [OF assms], folded generate_states_def]
  show ?thesis
  proof (cases "generate_states g = Some (Inl Too_many_states) \<and> too_many g")
    case False
    then obtain a where a: "generate_states g = Some (Inr a)" "progress g (length (cores a)) a" using e by blast
    then have "\<forall>n < length (cores a). core_ok g (cores a ! n)" by (simp add: progress_def aut_inv_def)
    then have "\<forall>n < length (cores a). sorted_wrt (<) (items (cores a ! n)) \<and> set (items (cores a ! n)) = int ` kern_of a n \<and> core_nitems (cores a ! n) = int (length (items (cores a ! n)))"
      by (simp add: core_ok_def kernel_list_def kern_of_def image_image)
    then show ?thesis using a all_expanded [OF a(2)] by (auto simp: progress_def aut_inv_def)
  qed simp
qed

lemma list_closures:
  "closure list_grammar (set_first_derives list_grammar) [1] = [1, 4, 7]" "closure list_grammar (set_first_derives list_grammar) [5] = [4, 5, 7]"
  "closure list_grammar (set_first_derives list_grammar) [2] = [2]" "closure list_grammar (set_first_derives list_grammar) [6] = [6]"
  by code_simp+

lemma list_items: "map (ritem list_grammar) [1, 2, 4, 5, 6, 7] = [3, 0, 1, 3, - 3, - 4]"
  by code_simp

lemma list_start:
  "initialize_states list_grammar =
     \<lparr>cores = [\<lparr>number = 0, accessing_symbol = 0, core_nitems = 1, items = [1]\<rparr>], state_set = (\<lambda>_. []), shift_list = [], reduction_list = []\<rparr>"
  "nitems list_grammar = 8"
proof -
  have "takeWhile (\<lambda>r. 0 \<le> r) (set_derives list_grammar (start_symbol list_grammar)) = [2]" "rrhs list_grammar 2 = 1" "to_short 1 = 1" by code_simp+
  then show "initialize_states list_grammar =
     \<lparr>cores = [\<lparr>number = 0, accessing_symbol = 0, core_nitems = 1, items = [1]\<rparr>], state_set = (\<lambda>_. []), shift_list = [], reduction_list = []\<rparr>"
    by (simp add: initialize_states_def)
qed (simp add: list_grammar_def)

theorem lr0_automaton_witness:
  "short_grammar list_grammar \<and> generate_states list_grammar \<noteq> Some (Inl Too_many_states) \<and>
    (\<exists>a. generate_states list_grammar = Some (Inr a) \<and> map items (cores a) = [[1], [5], [2], [6]] \<and> shift_list a = [(0, [1, 2]), (1, [1, 3])] \<and>
       reduction_list a = [(0, [4]), (1, [4]), (3, [3])] \<and> {kern_of a n | n. n < length (cores a)} = {K. kernels list_grammar K})"
proof -
  have "to_short x = x" if "x \<in> {- 8..8}" for x using that by (intro to_short_small) auto
  then have sh: "to_short 1 = 1" "to_short 2 = 2" "to_short 3 = 3" "to_short 4 = 4" "to_short 5 = 5" "to_short 6 = 6" by simp_all
  have e: "(case generate_states list_grammar of Some (Inr a) \<Rightarrow> (map items (cores a), shift_list a, reduction_list a) | _ \<Rightarrow> ([], [], [])) =
      ([[1], [5], [2], [6]], [(0, [1, 2]), (1, [1, 3])], [(0, [4]), (1, [4]), (3, [3])])"
    using list_items [unfolded numeral_2_eq_2]
    by (simp add: generate_states_def list_start expand_states.simps expand_state_def save_reductions_def append_states_def get_state_def new_state_def find_core_def save_shifts_def MAXSHORT_def
        Let_def list_closures [simplified, unfolded numeral_2_eq_2] numeral_2_eq_2 numeral_3_eq_3 sh)
  then obtain a where a: "generate_states list_grammar = Some (Inr a)" "map items (cores a) = [[1], [5], [2], [6]]" "shift_list a = [(0, [1, 2]), (1, [1, 3])]"
      "reduction_list a = [(0, [4]), (1, [4]), (3, [3])]" by (auto split: option.splits sum.splits)
  have "short_grammar list_grammar" using wf_list_grammar packed_list_grammar by (simp add: short_grammar_def) (simp add: list_grammar_def MAXSHORT_def)
  then show ?thesis using a lr0_automaton [of list_grammar] by auto
qed

end
